(* ===== verification/Prelude.thy ===== *)
theory Prelude
  imports Main "HOL-Library.Word"
begin

unbundle bit_operations_syntax

text \<open>
  Shared ground of the development: the machine types of the 32-bit kernel, the result
  type of operations that C leaves undefined, and the generic lemmas on lists, maps and
  words that the component theories use.
\<close>

section \<open>Machine types\<close>

text \<open>
  The kernel is compiled with \<^verbatim>\<open>-m32 -march=i386\<close>: \<^verbatim>\<open>int\<close>, \<^verbatim>\<open>long\<close>, \<^verbatim>\<open>size_t\<close> and pointers
  have 32 bits.
\<close>

type_synonym u8 = "8 word"
type_synonym u16 = "16 word"
type_synonym u32 = "32 word"
type_synonym u64 = "64 word"

section \<open>Undefined and fatal behaviour as values\<close>

text \<open>
  \<open>OutOfBounds\<close>: an array is indexed outside its bounds. \<open>BadPointer\<close>: a pointer that
  does not point to an object of the expected type is dereferenced. \<open>BadShift\<close>: a shift by
  a negative amount or by at least the width. \<open>DivByZero\<close>: a division by zero.
  \<open>Overrun\<close>: a string is read past its terminator. \<open>NoArgument\<close>: \<^verbatim>\<open>va_arg\<close> finds
  no argument. \<open>Hang\<close>: the code waits forever for a device. \<open>Panic\<close>: the kernel's
  \<^verbatim>\<open>PANIC\<close> macro, which freezes the system. \<open>Frozen\<close>: \<^verbatim>\<open>freeze_system\<close> without a message.
\<close>

datatype fault =
    OutOfBounds
  | BadPointer
  | BadShift
  | DivByZero
  | Overrun
  | NoArgument
  | Hang
  | Panic string
  | Frozen

type_synonym 'a result = "fault + 'a"

definition bindE :: "'a result \<Rightarrow> ('a \<Rightarrow> 'b result) \<Rightarrow> 'b result" where
  "bindE m f = (case m of Inl e \<Rightarrow> Inl e | Inr x \<Rightarrow> f x)"

lemma bindE_simps [simp]:
  "bindE (Inl e) f = Inl e"
  "bindE (Inr x) f = f x"
  by (simp_all add: bindE_def)

lemma bindE_eq_Inr [simp]: "bindE m f = Inr y \<longleftrightarrow> (\<exists>x. m = Inr x \<and> f x = Inr y)"
  by (cases m) auto

lemma bindE_eq_Inl: "bindE m f = Inl e \<longleftrightarrow> m = Inl e \<or> (\<exists>x. m = Inr x \<and> f x = Inl e)"
  by (cases m) auto

lemma bindE_assoc: "bindE (bindE m f) g = bindE m (\<lambda>x. bindE (f x) g)"
  by (cases m) auto

text \<open>
  Code with a loop that need not end gives a \<open>run\<close>: \<open>None\<close> when it does not return.
\<close>

type_synonym 'a run = "'a result option"

definition bindR :: "'a run \<Rightarrow> ('a \<Rightarrow> 'b run) \<Rightarrow> 'b run" where
  "bindR m f = Option.bind m (\<lambda>r. case r of Inl e \<Rightarrow> Some (Inl e) | Inr x \<Rightarrow> f x)"

abbreviation ret :: "'a \<Rightarrow> 'a run" where
  "ret x \<equiv> Some (Inr x)"

lemma bindR_simps [simp]:
  "bindR None f = None"
  "bindR (Some (Inl e)) f = Some (Inl e)"
  "bindR (Some (Inr x)) f = f x"
  by (simp_all add: bindR_def)

lemma bindR_eq_ret: "bindR m f = ret y \<longleftrightarrow> (\<exists>x. m = ret x \<and> f x = ret y)"
  by (cases m; cases "the m") (auto simp: bindR_def split: sum.splits)

lemma bindR_assoc: "bindR (bindR m f) g = bindR m (\<lambda>x. bindR (f x) g)"
  by (cases m; cases "the m") (auto simp: bindR_def split: sum.splits)

section \<open>Port input and output\<close>

text \<open>The accesses to I/O ports that the code makes, in order.\<close>

datatype port_io =
    OutB u16 u8
  | OutW u16 u16
  | OutL u16 u32
  | InB u16
  | InW u16
  | InL u16

section \<open>Messages\<close>

text \<open>A call of \<^verbatim>\<open>kprintf\<close>: the format and the arguments, with strings by value.\<close>

datatype karg = ArgNum u32 | ArgStr string

type_synonym kcall = "string \<times> karg list"

section \<open>Lists\<close>

lemma remove1_append_in: "x \<in> set xs \<Longrightarrow> remove1 x (xs @ ys) = remove1 x xs @ ys"
  by (simp add: remove1_append)

lemma remove1_split: "x \<notin> set xs \<Longrightarrow> remove1 x (xs @ x # ys) = xs @ ys"
  by (simp add: remove1_append)

lemma distinct_set_remove1: "distinct xs \<Longrightarrow> set (remove1 x xs) = set xs - {x}"
  by (rule set_remove1_eq)

lemma rotate1_snoc: "xs \<noteq> [] \<Longrightarrow> rotate1 xs = tl xs @ [hd xs]"
  by (cases xs) auto

section \<open>Words\<close>

lemma unat_limit:
  fixes b :: u8 and s :: u16 and w :: u32 and d :: u64
  shows "unat b < 256" "unat s < 65536" "unat w < 4294967296" "unat d < 18446744073709551616"
  using unsigned_less [of b] unsigned_less [of s] unsigned_less [of w] unsigned_less [of d] by simp_all

lemma sint_32:
  fixes w :: u32
  shows "sint w = (if unat w < 2 ^ 31 then int (unat w) else int (unat w) - 2 ^ 32)"
proof -
  have u: "0 \<le> uint w" "uint w < 2 ^ 32" using unsigned_less [of w] by simp_all
  have s: "sint w = signed_take_bit 31 (uint w)" by (simp add: sint_uint)
  have i: "int (unat w) = uint w" by simp
  show ?thesis
  proof (cases "uint w < 2 ^ 31")
    case True
    then have "sint w = uint w" unfolding s using u by (intro signed_take_bit_int_eq_self) linarith+
    moreover have "unat w < 2 ^ 31"
      by (simp only: of_nat_less_iff [symmetric, where 'a = int] i) (use True in simp)
    ultimately show ?thesis using i by simp
  next
    case False
    have "sint w = signed_take_bit 31 (uint w - 2 ^ 32)"
      unfolding s by (simp only: signed_take_bit_eq_iff_take_bit_eq) (simp add: take_bit_eq_mod)
    also have "\<dots> = uint w - 2 ^ 32" using u False by (intro signed_take_bit_int_eq_self) simp_all
    moreover have "\<not> unat w < 2 ^ 31"
      by (simp only: of_nat_less_iff [symmetric, where 'a = int] i) (use False in simp)
    ultimately show ?thesis using i by simp
  qed
qed

lemma unat_add_1:
  fixes w n :: u32
  assumes "w < n"
  shows "unat (w + 1) = unat w + 1"
proof -
  have "unat w + 1 < 2 ^ 32" using assms unat_limit(3) [of n] by (simp add: word_less_nat_alt)
  then show ?thesis by (simp add: unat_word_ariths(1))
qed

section \<open>Masks of low bits\<close>

lemma unat_and_mask:
  fixes w :: u32
  shows "unat (w AND mask n) = unat w mod 2 ^ n"
  using unsigned_take_bit_eq [of n w, where 'a = nat]
  by (simp only: take_bit_eq_mask [of n w] take_bit_eq_mod [of n "unat w"])

lemma unat_and_not_mask:
  fixes w :: u32
  shows "unat (w AND NOT (mask n)) = 2 ^ n * (unat w div 2 ^ n)"
proof -
  let ?a = "w AND NOT (mask n)" and ?b = "w AND mask n"
  have "?a AND ?b = 0" by (rule bit_word_eqI) (auto simp: bit_simps)
  then have "unat ?a AND unat ?b = 0" unfolding unsigned_and_eq [symmetric] by simp
  then have "unat ?a + unat ?b = unat (?a OR ?b)"
    by (simp only: disjunctive_add_eq_or unsigned_or_eq)
  also have "?a OR ?b = w" by (rule bit_word_eqI) (auto simp: bit_simps)
  finally have "unat ?a + unat w mod 2 ^ n = unat w" by (simp only: unat_and_mask)
  then show ?thesis by (simp add: minus_mod_eq_mult_div [symmetric])
qed

lemma unat_low_bits:
  fixes w :: u32
  shows "unat (w AND 7) = unat w mod 8" "unat (w AND 0x3FF) = unat w mod 1024" "unat (w AND 0xFFF) = unat w mod 4096"
    "unat (w AND NOT 7) = 8 * (unat w div 8)" "unat (w AND NOT 0xFFF) = 4096 * (unat w div 4096)"
    "unat (w AND - 8) = 8 * (unat w div 8)" "unat (w AND - 4096) = 4096 * (unat w div 4096)"
  using unat_and_mask [of w 3] unat_and_mask [of w 10] unat_and_mask [of w 12]
    unat_and_not_mask [of w 3] unat_and_not_mask [of w 12]
  by (simp_all add: mask_eq_exp_minus_1)

lemma unat_drop_bit:
  fixes w :: "'a :: len word"
  shows "unat (drop_bit n w) = unat w div 2 ^ n"
proof -
  have "unat w < 2 ^ LENGTH('a)" by (rule unsigned_less)
  then have "unat (drop_bit n w) = drop_bit n (unat w)"
    by (simp add: unsigned_drop_bit_eq take_bit_nat_eq_self)
  then show ?thesis by (simp only: drop_bit_eq_div [of n "unat w"])
qed

lemma even_unat: "even (unat w) = even w" for w :: u32
  using bit_unsigned_iff [of w 0, where 'a = nat] by (simp add: bit_0)

lemma unat_ucast_64 [simp]: "unat (ucast (w :: u32) :: u64) = unat w"
  using unat_limit(3) [of w] by (simp add: unsigned_ucast_eq take_bit_nat_eq_self)

lemma unat_ucast_32: "unat (ucast w :: u32) = unat w mod 2 ^ 32"
  by (simp add: unsigned_ucast_eq take_bit_eq_mod)

end
