(* ===== verification/KList.thy ===== *)
theory KList
  imports Prelude
begin

text \<open>
  The intrusive circular doubly linked lists of \<^verbatim>\<open>kernel/include/list.h\<close> and
  \<^verbatim>\<open>kernel/lib/list.c\<close>. A \<^verbatim>\<open>list_t\<close> is a node with two pointers; the same type serves as
  list head and as element, embedded in pages, timers, tasks, files and devices. The memory
  that holds the nodes is an explicit store: the two pointer fields of every node, as maps
  from node addresses to node addresses. Every client chooses its own type of addresses.
\<close>

section \<open>The operations of list.h\<close>

record 'n links =
  prv :: "'n \<Rightarrow> 'n"
  nxt :: "'n \<Rightarrow> 'n"

definition set_prev :: "'n \<Rightarrow> 'n \<Rightarrow> 'n links \<Rightarrow> 'n links" where
  "set_prev n v h = h\<lparr>prv := (prv h)(n := v)\<rparr>"

definition set_next :: "'n \<Rightarrow> 'n \<Rightarrow> 'n links \<Rightarrow> 'n links" where
  "set_next n v h = h\<lparr>nxt := (nxt h)(n := v)\<rparr>"

definition list_init :: "'n \<Rightarrow> 'n links \<Rightarrow> 'n links" where
  "list_init self h = set_next self self (set_prev self self h)"

definition list_insert_after :: "'n \<Rightarrow> 'n \<Rightarrow> 'n links \<Rightarrow> 'n links" where
  "list_insert_after node new_node h =
     (let next_n = nxt h node;
          h = set_prev new_node node h;
          h = set_next new_node next_n h;
          h = set_next node new_node h
      in set_prev next_n new_node h)"

definition list_insert_before :: "'n \<Rightarrow> 'n \<Rightarrow> 'n links \<Rightarrow> 'n links" where
  "list_insert_before node new_node h =
     (let prev_n = prv h node;
          h = set_prev new_node prev_n h;
          h = set_next new_node node h;
          h = set_prev node new_node h
      in set_next prev_n new_node h)"

definition list_remove :: "'n \<Rightarrow> 'n links \<Rightarrow> 'n links" where
  "list_remove node h =
     (let prev_n = prv h node;
          next_n = nxt h node;
          h = set_next prev_n next_n h;
          h = set_prev next_n prev_n h;
          h = set_next node node h
      in set_prev node node h)"

definition list_is_empty :: "'n links \<Rightarrow> 'n \<Rightarrow> bool" where
  "list_is_empty h self = (prv h self = self)"

text \<open>
  \<^verbatim>\<open>LIST_FOREACH\<close> with an early exit, as \<open>list_find\<close> uses it. The outer option is
  non-termination (a store whose chain of next pointers never comes back to the head), the
  inner one is the C result, \<^verbatim>\<open>NULL\<close> when no element satisfies the predicate.
\<close>

partial_function (option) list_find_from ::
  "'n links \<Rightarrow> 'n \<Rightarrow> ('n \<Rightarrow> bool) \<Rightarrow> 'n \<Rightarrow> 'n option option" where
  "list_find_from h self func node =
     (if node = self then Some None
      else if func node then Some (Some node)
      else list_find_from h self func (nxt h node))"

definition list_find :: "'n links \<Rightarrow> 'n \<Rightarrow> ('n \<Rightarrow> bool) \<Rightarrow> 'n option option" where
  "list_find h self func = list_find_from h self func (nxt h self)"

lemma prv_nxt_set [simp]:
  "prv (set_prev n v h) = (prv h)(n := v)"
  "nxt (set_prev n v h) = nxt h"
  "prv (set_next n v h) = prv h"
  "nxt (set_next n v h) = (nxt h)(n := v)"
  by (simp_all add: set_prev_def set_next_def)

section \<open>Segments and rings\<close>

text \<open>
  \<open>seg h a xs b\<close>: following next pointers from \<open>a\<close> visits exactly \<open>xs\<close> and then reaches
  \<open>b\<close>, and the previous pointers lead back the same way.
\<close>

fun seg :: "'n links \<Rightarrow> 'n \<Rightarrow> 'n list \<Rightarrow> 'n \<Rightarrow> bool" where
  "seg h a [] b = (nxt h a = b \<and> prv h b = a)"
| "seg h a (x # xs) b = (nxt h a = x \<and> prv h x = a \<and> seg h x xs b)"

definition ring :: "'n links \<Rightarrow> 'n \<Rightarrow> 'n list \<Rightarrow> bool" where
  "ring h a xs \<longleftrightarrow> seg h a xs a \<and> distinct (a # xs)"

lemma seg_append [simp]:
  "seg h a (xs @ y # ys) b \<longleftrightarrow> seg h a xs y \<and> seg h y ys b"
  by (induction xs arbitrary: a) auto

lemma seg_cong:
  assumes "seg h a xs b"
    and "\<forall>n \<in> insert a (set xs). nxt h' n = nxt h n"
    and "\<forall>n \<in> insert b (set xs). prv h' n = prv h n"
  shows "seg h' a xs b"
  using assms by (induction xs arbitrary: a) auto

lemma seg_last: "seg h a xs b \<Longrightarrow> prv h b = last (a # xs)"
  by (induction xs arbitrary: a) auto

lemma seg_first: "seg h a xs b \<Longrightarrow> nxt h a = hd (xs @ [b])"
  by (cases xs) auto

lemma ring_cong:
  assumes "ring h a xs"
    and "\<forall>n \<in> insert a (set xs). nxt h' n = nxt h n \<and> prv h' n = prv h n"
  shows "ring h' a xs"
  using assms seg_cong [of h a xs a h'] by (auto simp: ring_def)

lemma ring_Nil: "ring h a [] \<longleftrightarrow> nxt h a = a \<and> prv h a = a"
  by (auto simp: ring_def)

lemma ring_init: "ring (list_init a h) a []"
  by (simp add: ring_Nil list_init_def)

lemma ring_is_empty: "ring h a xs \<Longrightarrow> list_is_empty h a \<longleftrightarrow> xs = []"
  using seg_last [of h a xs a] by (auto simp: ring_def list_is_empty_def split: if_splits)

lemma ring_next: "ring h a xs \<Longrightarrow> nxt h a = hd (xs @ [a])"
  by (auto simp: ring_def dest: seg_first)

lemma ring_member_linked:
  assumes "ring h a xs" and "n \<in> set xs"
  shows "\<not> list_is_empty h n"
proof -
  obtain ys zs where xs: "xs = ys @ n # zs"
    using assms(2) by (meson split_list)
  have "prv h n = last (a # ys)" and "n \<notin> set (a # ys)"
    using assms(1) seg_last [of h a ys n] by (auto simp: ring_def xs)
  then show ?thesis
    by (metis last_in_set list.distinct(1) list_is_empty_def)
qed

lemma seg_retarget:
  assumes "seg h a xs b" and "distinct (a # xs)"
    and "\<forall>n \<in> insert a (set xs) - {last (a # xs)}. nxt h' n = nxt h n"
    and "\<forall>n \<in> set xs. prv h' n = prv h n"
    and "nxt h' (last (a # xs)) = c" and "prv h' c = last (a # xs)"
  shows "seg h' a xs c"
  using assms
proof (induction xs arbitrary: a)
  case Nil
  then show ?case by simp
next
  case (Cons x xs)
  have ne: "a \<noteq> last (x # xs)" using Cons.prems(2) last_in_set [of "x # xs"] by auto
  have "seg h' x xs c"
  proof (rule Cons.IH)
    show "seg h x xs b" "distinct (x # xs)" using Cons.prems by auto
    show "\<forall>n\<in>insert x (set xs) - {last (x # xs)}. nxt h' n = nxt h n"
      using Cons.prems(3) by auto
  qed (use Cons.prems in auto)
  then show ?case using Cons.prems ne by auto
qed

lemma seg_insert_before:
  assumes "seg h a (xs @ ys) b" and "distinct (a # xs @ ys)" and "b \<notin> set (xs @ ys)"
    and "new \<notin> insert b (set (a # xs @ ys))" and "node = hd (ys @ [b])"
  shows "seg (list_insert_before node new h) a (xs @ new # ys) b"
proof -
  have x: "seg h a xs node" and p: "prv h node = last (a # xs)"
    using assms(1,5) seg_last [of h a xs node] by (cases ys; auto)+
  let ?h = "list_insert_before node new h"
  have last: "last (a # xs) \<in> insert a (set xs)" by (metis last_in_set list.distinct(1) list.simps(15))
  have nn: "node \<in> insert b (set ys)" using assms(5) by (cases ys) auto
  have "seg ?h a xs new"
    by (rule seg_retarget [OF x]) (use assms p last nn in
       \<open>auto simp: list_insert_before_def Let_def\<close>)
  moreover have "seg ?h new ys b"
  proof (cases ys)
    case Nil
    then show ?thesis using assms last p by (auto simp: list_insert_before_def Let_def)
  next
    case (Cons y zs)
    have "seg h y zs b" using assms(1) Cons by simp
    then have "seg ?h y zs b"
      by (rule seg_cong) (use assms p last Cons in \<open>auto simp: list_insert_before_def Let_def\<close>)
    then show ?thesis using assms last p Cons by (auto simp: list_insert_before_def Let_def)
  qed
  ultimately show ?thesis by simp
qed

lemma ring_insert_before:
  assumes "ring h a (xs @ ys)" and "new \<notin> set (a # xs @ ys)" and "node = hd (ys @ [a])"
  shows "ring (list_insert_before node new h) a (xs @ new # ys)"
  using assms seg_insert_before [of h a xs ys a new node] by (auto simp: ring_def)

lemma ring_remove:
  assumes "ring h a (xs @ n # ys)"
  shows "ring (list_remove n h) a (xs @ ys)"
proof -
  have s1: "seg h a xs n" and s2: "seg h n ys a" and d: "distinct (a # xs @ n # ys)"
    using assms by (auto simp: ring_def)
  have p: "prv h n = last (a # xs)" and q: "nxt h n = hd (ys @ [a])"
    using s1 s2 by (auto dest: seg_last seg_first)
  let ?h = "list_remove n h"
  have last: "last (a # xs) \<in> insert a (set xs)" by (metis last_in_set list.distinct(1) list.simps(15))
  have nn: "hd (ys @ [a]) \<in> insert a (set ys)" by (cases ys) auto
  have 1: "seg ?h a xs (hd (ys @ [a]))"
    by (rule seg_retarget [OF s1]) (use d p q last nn in \<open>auto simp: list_remove_def Let_def\<close>)
  show ?thesis
  proof (cases ys)
    case Nil
    then show ?thesis using 1 d by (simp add: ring_def)
  next
    case (Cons y zs)
    have "seg h y zs a" using s2 Cons by simp
    then have "seg ?h y zs a"
      by (rule seg_cong) (use d p q last Cons in \<open>auto simp: list_remove_def Let_def\<close>)
    then show ?thesis using 1 d Cons by (auto simp: ring_def)
  qed
qed

lemma ring_remove_self: "ring (list_remove n h) n []"
  by (simp add: ring_Nil list_remove_def Let_def)

lemma list_remove_unlinked: "ring h n [] \<Longrightarrow> list_remove n h = h"
  by (cases h) (auto simp: ring_Nil list_remove_def Let_def set_prev_def set_next_def fun_eq_iff)

section \<open>Families of rings\<close>

text \<open>
  All the lists of one kind of object: heads \<open>H\<close>, elements \<open>N\<close>, and for every head the
  list of the elements linked into it. An element is in at most one list; one in none is
  linked to itself, which is how the kernel asks whether an element is in a list.
\<close>

definition members :: "'n set \<Rightarrow> ('n \<Rightarrow> 'n list) \<Rightarrow> 'n set" where
  "members H L = (\<Union>a\<in>H. set (L a))"

definition family :: "'n links \<Rightarrow> 'n set \<Rightarrow> 'n set \<Rightarrow> ('n \<Rightarrow> 'n list) \<Rightarrow> bool" where
  "family h H N L \<longleftrightarrow>
     H \<inter> N = {} \<and>
     (\<forall>a\<in>H. ring h a (L a) \<and> set (L a) \<subseteq> N) \<and>
     (\<forall>a\<in>H. \<forall>b\<in>H. a \<noteq> b \<longrightarrow> set (L a) \<inter> set (L b) = {}) \<and>
     (\<forall>n\<in>N - members H L. ring h n [])"

lemma familyD:
  assumes "family h H N L"
  shows "H \<inter> N = {}" and "a \<in> H \<Longrightarrow> ring h a (L a)" and "a \<in> H \<Longrightarrow> set (L a) \<subseteq> N"
    and "a \<in> H \<Longrightarrow> b \<in> H \<Longrightarrow> a \<noteq> b \<Longrightarrow> set (L a) \<inter> set (L b) = {}"
    and "n \<in> N \<Longrightarrow> n \<notin> members H L \<Longrightarrow> ring h n []"
  using assms by (auto simp: family_def)

lemma members_update: "a \<in> H \<Longrightarrow> members H (L(a := xs)) = set xs \<union> members (H - {a}) L"
  by (auto simp: members_def split: if_splits)

lemma members_split: "a \<in> H \<Longrightarrow> members H L = set (L a) \<union> members (H - {a}) L"
  by (auto simp: members_def)

text \<open>The nodes an operation writes, and the frame rule for rings it does not touch.\<close>

lemma insert_before_frame:
  assumes "n \<notin> {new, node, prv h node}"
  shows "prv (list_insert_before node new h) n = prv h n"
    and "nxt (list_insert_before node new h) n = nxt h n"
  using assms by (auto simp: list_insert_before_def Let_def)

lemma remove_frame:
  assumes "n \<notin> {node, prv h node, nxt h node}"
  shows "prv (list_remove node h) n = prv h n" and "nxt (list_remove node h) n = nxt h n"
  using assms by (auto simp: list_remove_def Let_def)

lemma ring_prv_in: "ring h a (xs @ y # ys) \<Longrightarrow> prv h y \<in> insert a (set xs)"
  using seg_last [of h a xs y] by (auto simp: ring_def)

lemma ring_prv_head: "ring h a xs \<Longrightarrow> prv h a \<in> insert a (set xs)"
  using seg_last [of h a xs a] by (auto simp: ring_def)

lemma ring_nxt_in: "ring h a (xs @ y # ys) \<Longrightarrow> nxt h y \<in> insert a (set ys)"
  using seg_first [of h y ys a] by (cases ys) (auto simp: ring_def)

lemma family_insert_before:
  assumes fam: "family h H N L" and a: "a \<in> H" and La: "L a = xs @ ys"
    and new: "new \<in> N" "new \<notin> members H L" and node: "node = hd (ys @ [a])"
  shows "family (list_insert_before node new h) H N (L(a := xs @ new # ys))"
proof -
  let ?h = "list_insert_before node new h"
  let ?L = "L(a := xs @ new # ys)"
  have dj: "H \<inter> N = {}" and sub: "\<And>b. b \<in> H \<Longrightarrow> set (L b) \<subseteq> N"
    using fam by (auto simp: family_def)
  have ra: "ring h a (xs @ ys)" using familyD(2) [OF fam a] La by simp
  have written: "{new, node, prv h node} \<subseteq> insert new (insert a (set (L a)))"
  proof (cases ys)
    case Nil
    then show ?thesis using node La ring_prv_head [OF ra] by auto
  next
    case (Cons y zs)
    then show ?thesis using node La ring_prv_in [of h a xs y zs] ra by auto
  qed
  have frame: "prv ?h n = prv h n \<and> nxt ?h n = nxt h n" if "n \<notin> insert new (insert a (set (L a)))" for n
    using that written insert_before_frame [of n new node h] by blast
  have mem: "members H ?L = insert new (members H L)"
    using a La by (auto simp: members_update members_split [of a H L])
  have "ring ?h b (?L b)" if "b \<in> H" for b
  proof (cases "b = a")
    case True
    have "new \<notin> set (a # xs @ ys)" using new a La dj by (auto simp: members_def)
    then show ?thesis using True ring_insert_before [OF ra _ node] by simp
  next
    case False
    have "insert b (set (L b)) \<inter> insert new (insert a (set (L a))) = {}"
      using that False new dj a sub [OF a] sub [OF that] familyD(4) [OF fam a that]
      unfolding members_def by blast
    then have "\<forall>n \<in> insert b (set (L b)). nxt ?h n = nxt h n \<and> prv ?h n = prv h n"
      using frame by (meson disjoint_iff)
    then have "ring ?h b (L b)" by (rule ring_cong [OF familyD(2) [OF fam that]])
    then show ?thesis using False by simp
  qed
  moreover have "ring ?h n []" if "n \<in> N - members H ?L" for n
  proof (rule ring_cong [OF familyD(5) [OF fam, of n]])
    have "set (L a) \<subseteq> members H L" using a by (auto simp: members_def)
    then have "n \<notin> insert new (insert a (set (L a)))" using that mem a dj by auto
    then show "\<forall>k\<in>insert n (set []). nxt ?h k = nxt h k \<and> prv ?h k = prv h k" using frame by simp
  qed (use that mem in auto)
  moreover have "set (?L b) \<inter> set (?L c) = {}" if "b \<in> H" "c \<in> H" "b \<noteq> c" for b c
    using that familyD(4) [OF fam that] new La by (auto simp: members_def)
  moreover have "set (?L b) \<subseteq> N" if "b \<in> H" for b
    using that sub [of b] sub [OF a] La new by auto
  ultimately show ?thesis using dj unfolding family_def by blast
qed

lemma family_remove:
  assumes fam: "family h H N L" and a: "a \<in> H" and n: "n \<in> set (L a)"
  shows "family (list_remove n h) H N (L(a := remove1 n (L a)))"
proof -
  let ?h = "list_remove n h"
  let ?L = "L(a := remove1 n (L a))"
  have dj: "H \<inter> N = {}" and sub: "\<And>b. b \<in> H \<Longrightarrow> set (L b) \<subseteq> N"
    using fam by (auto simp: family_def)
  have ra: "ring h a (L a)" using familyD(2) [OF fam a] .
  obtain xs ys where La: "L a = xs @ n # ys" using n by (meson split_list)
  have d: "distinct (a # L a)" using ra by (simp add: ring_def)
  have rm: "remove1 n (L a) = xs @ ys" using La d by (simp add: remove1_split)
  have written: "{n, prv h n, nxt h n} \<subseteq> insert a (set (L a))"
    using La ring_prv_in [of h a xs n ys] ring_nxt_in [of h a xs n ys] ra by auto
  have frame: "prv ?h m = prv h m \<and> nxt ?h m = nxt h m" if "m \<notin> insert a (set (L a))" for m
    using that written remove_frame [of m n h] by blast
  have other: "n \<notin> set (L b)" if "b \<in> H" "b \<noteq> a" for b
    using familyD(4) [OF fam a that(1)] that(2) n by blast
  have mem: "members H ?L = members H L - {n}"
    using a La rm other d by (auto simp: members_update members_split [of a H L]) (auto simp: members_def)
  have "ring ?h b (?L b)" if "b \<in> H" for b
  proof (cases "b = a")
    case True
    then show ?thesis using ring_remove [of h a xs n ys] ra La rm by simp
  next
    case False
    have "insert b (set (L b)) \<inter> insert a (set (L a)) = {}"
      using that False dj a sub [OF a] sub [OF that] familyD(4) [OF fam a that] by blast
    then have "\<forall>m \<in> insert b (set (L b)). nxt ?h m = nxt h m \<and> prv ?h m = prv h m"
      using frame by (meson disjoint_iff)
    then have "ring ?h b (L b)" by (rule ring_cong [OF familyD(2) [OF fam that]])
    then show ?thesis using False by simp
  qed
  moreover have "ring ?h m []" if "m \<in> N - members H ?L" for m
  proof (cases "m = n")
    case True
    then show ?thesis by (simp add: ring_remove_self)
  next
    case False
    show ?thesis
    proof (rule ring_cong [OF familyD(5) [OF fam, of m]])
      have "set (L a) \<subseteq> members H L" using a by (auto simp: members_def)
      then have "m \<notin> insert a (set (L a))" using that mem a dj False by auto
      then show "\<forall>k\<in>insert m (set []). nxt ?h k = nxt h k \<and> prv ?h k = prv h k" using frame by simp
    qed (use that mem False in auto)
  qed
  moreover have "set (?L b) \<inter> set (?L c) = {}" if "b \<in> H" "c \<in> H" "b \<noteq> c" for b c
    using that familyD(4) [OF fam that] La rm by auto
  moreover have "set (?L b) \<subseteq> N" if "b \<in> H" for b
    using that sub [of b] sub [OF a] La rm by auto
  ultimately show ?thesis using dj unfolding family_def by blast
qed

lemma family_empty_head: "family h H N L \<Longrightarrow> a \<in> H \<Longrightarrow> list_is_empty h a \<longleftrightarrow> L a = []"
  by (auto dest: familyD(2) simp: ring_is_empty)

lemma family_empty_node:
  assumes "family h H N L" and "n \<in> N"
  shows "list_is_empty h n \<longleftrightarrow> n \<notin> members H L"
proof (cases "n \<in> members H L")
  case True
  then obtain a where "a \<in> H" "n \<in> set (L a)" by (auto simp: members_def)
  from ring_member_linked [OF familyD(2) [OF assms(1) this(1)] this(2)] show ?thesis using True by simp
next
  case False
  from ring_is_empty [OF familyD(5) [OF assms False]] show ?thesis using False by simp
qed

lemma family_next: "family h H N L \<Longrightarrow> a \<in> H \<Longrightarrow> nxt h a = hd (L a @ [a])"
  by (rule ring_next) (rule familyD(2))

lemma family_remove_unlinked:
  "family h H N L \<Longrightarrow> n \<in> N \<Longrightarrow> n \<notin> members H L \<Longrightarrow> list_remove n h = h"
  by (simp add: list_remove_unlinked familyD(5))

lemma family_next_elem:
  assumes "family h H N L" and "a \<in> H" and "L a = xs @ y # ys"
  shows "nxt h y = hd (ys @ [a])"
  using familyD(2) [OF assms(1,2)] assms(3) seg_first [of h y ys a] by (auto simp: ring_def)

lemma family_distinct: "family h H N L \<Longrightarrow> a \<in> H \<Longrightarrow> distinct (L a)"
  by (auto dest!: familyD(2) [of h H N L a] simp: ring_def)

lemma family_cong: "family h H N L \<Longrightarrow> \<forall>a\<in>H. L a = L' a \<Longrightarrow> family h H N L'"
  unfolding family_def members_def by auto

lemma fold_list_init:
  "prv (fold (\<lambda>k. list_init (f k)) ks h) = (\<lambda>n. if n \<in> f ` set ks then n else prv h n) \<and>
   nxt (fold (\<lambda>k. list_init (f k)) ks h) = (\<lambda>n. if n \<in> f ` set ks then n else nxt h n)"
  by (induction ks arbitrary: h) (auto simp: list_init_def fun_eq_iff)

section \<open>The interface the kernel's components use\<close>

text \<open>
  What a client of \<^verbatim>\<open>list.h\<close> relies on: inserting before a node, removing, asking for
  emptiness and following next pointers, described on the contents of the lists only. The
  lemmas below are the client's half, proved once from these laws.
\<close>

locale list_store =
  fixes fam :: "'h \<Rightarrow> 'n set \<Rightarrow> 'n set \<Rightarrow> ('n \<Rightarrow> 'n list) \<Rightarrow> bool"
    and put :: "'n \<Rightarrow> 'n \<Rightarrow> 'h \<Rightarrow> 'h"
    and del :: "'n \<Rightarrow> 'h \<Rightarrow> 'h"
    and emp :: "'h \<Rightarrow> 'n \<Rightarrow> bool"
    and nx :: "'h \<Rightarrow> 'n \<Rightarrow> 'n"
  assumes put_at: "fam h H N L \<Longrightarrow> a \<in> H \<Longrightarrow> L a = xs @ ys \<Longrightarrow> n \<in> N \<Longrightarrow> n \<notin> members H L \<Longrightarrow>
      y = hd (ys @ [a]) \<Longrightarrow> fam (put y n h) H N (L(a := xs @ n # ys))"
    and del: "fam h H N L \<Longrightarrow> a \<in> H \<Longrightarrow> n \<in> set (L a) \<Longrightarrow> fam (del n h) H N (L(a := remove1 n (L a)))"
    and del_unlinked: "fam h H N L \<Longrightarrow> n \<in> N \<Longrightarrow> n \<notin> members H L \<Longrightarrow> del n h = h"
    and emp_head: "fam h H N L \<Longrightarrow> a \<in> H \<Longrightarrow> emp h a \<longleftrightarrow> L a = []"
    and emp_node: "fam h H N L \<Longrightarrow> n \<in> N \<Longrightarrow> emp h n \<longleftrightarrow> n \<notin> members H L"
    and nx_head: "fam h H N L \<Longrightarrow> a \<in> H \<Longrightarrow> nx h a = hd (L a @ [a])"
    and nx_elem: "fam h H N L \<Longrightarrow> a \<in> H \<Longrightarrow> L a = xs @ y # ys \<Longrightarrow> nx h y = hd (ys @ [a])"
    and apart: "fam h H N L \<Longrightarrow> H \<inter> N = {}"
    and within: "fam h H N L \<Longrightarrow> a \<in> H \<Longrightarrow> set (L a) \<subseteq> N"
    and disj: "fam h H N L \<Longrightarrow> a \<in> H \<Longrightarrow> b \<in> H \<Longrightarrow> a \<noteq> b \<Longrightarrow> set (L a) \<inter> set (L b) = {}"
    and dist: "fam h H N L \<Longrightarrow> a \<in> H \<Longrightarrow> distinct (L a)"
begin

lemma put_tail:
  "fam h H N L \<Longrightarrow> a \<in> H \<Longrightarrow> n \<in> N \<Longrightarrow> n \<notin> members H L \<Longrightarrow> fam (put a n h) H N (L(a := L a @ [n]))"
  using put_at [of h H N L a "L a" "[]" n a] by simp

lemma put_before_elem:
  "fam h H N L \<Longrightarrow> a \<in> H \<Longrightarrow> L a = xs @ y # ys \<Longrightarrow> n \<in> N \<Longrightarrow> n \<notin> members H L \<Longrightarrow>
    fam (put y n h) H N (L(a := xs @ n # y # ys))"
  using put_at [of h H N L a xs "y # ys" n y] by simp

lemma members_after_del:
  assumes "fam h H N L" and "a \<in> H" and "n \<in> set (L a)"
  shows "members H (L(a := remove1 n (L a))) = members H L - {n}"
proof -
  have "n \<notin> members (H - {a}) L"
    using disj [OF assms(1,2)] assms(3) by (fastforce simp: members_def)
  then show ?thesis
    using assms dist [OF assms(1,2)] by (auto simp: members_update members_split [of a H L])
qed

lemma not_member_after_del:
  "fam h H N L \<Longrightarrow> a \<in> H \<Longrightarrow> n \<in> set (L a) \<Longrightarrow> n \<notin> members H (L(a := remove1 n (L a)))"
  by (simp add: members_after_del)

lemma move:
  assumes "fam h H N L" and "a \<in> H" and "b \<in> H" and "n \<in> set (L a)" and "a \<noteq> b"
  shows "fam (put b n (del n h)) H N (L(a := remove1 n (L a), b := L b @ [n]))"
proof -
  have "n \<in> N" using within [OF assms(1,2)] assms(4) by auto
  with put_tail [OF del [OF assms(1,2,4)] assms(3)] not_member_after_del [OF assms(1,2,4)] assms(5)
  show ?thesis by simp
qed

lemma requeue:
  assumes "fam h H N L" and "a \<in> H" and "n \<in> set (L a)"
  shows "fam (put a n (del n h)) H N (L(a := remove1 n (L a) @ [n]))"
proof -
  have "n \<in> N" using within [OF assms(1,2)] assms(3) by auto
  with put_tail [OF del [OF assms] assms(2)] not_member_after_del [OF assms] show ?thesis by simp
qed

lemma rotate_head:
  assumes "fam h H N L" and "a \<in> H" and "L a \<noteq> []"
  shows "fam (put a (nx h a) (del (nx h a) h)) H N (L(a := rotate1 (L a)))"
proof -
  obtain x xs where La: "L a = x # xs" using assms(3) by (cases "L a") auto
  then show ?thesis using requeue [OF assms(1,2), of x] nx_head [OF assms(1,2)] by simp
qed

lemma nx_head_member: "fam h H N L \<Longrightarrow> a \<in> H \<Longrightarrow> L a \<noteq> [] \<Longrightarrow> nx h a \<in> set (L a)"
  by (simp add: nx_head)

end

interpretation kl: list_store family list_insert_before list_remove list_is_empty nxt
proof (unfold_locales, goal_cases)
  case 1 then show ?case by (rule family_insert_before)
next
  case 2 then show ?case by (rule family_remove)
next
  case 3 then show ?case by (rule family_remove_unlinked)
next
  case 4 then show ?case by (rule family_empty_head)
next
  case 5 then show ?case by (rule family_empty_node)
next
  case 6 then show ?case by (rule family_next)
next
  case 7 then show ?case by (rule family_next_elem)
next
  case 8 then show ?case by (rule familyD(1))
next
  case 9 then show ?case by (rule familyD(3))
next
  case 10 then show ?case by (rule familyD(4))
next
  case 11 then show ?case by (rule family_distinct)
qed

section \<open>list\_find\<close>

lemma list_find_from_suffix:
  assumes "family h H N L" and "a \<in> H" and "L a = xs @ ys"
  shows "list_find_from h a func (hd (ys @ [a])) = Some (List.find func ys)"
  using assms(3)
proof (induction ys arbitrary: xs)
  case Nil
  then show ?case by (simp add: list_find_from.simps)
next
  case (Cons y ys)
  have "y \<noteq> a" using familyD(1,3) [OF assms(1)] assms(2) Cons.prems by fastforce
  moreover have "nxt h y = hd (ys @ [a])" using family_next_elem [OF assms(1,2) Cons.prems] .
  moreover have "list_find_from h a func (hd (ys @ [a])) = Some (List.find func ys)"
    using Cons.IH [of "xs @ [y]"] Cons.prems by simp
  ultimately show ?case by (simp add: list_find_from.simps)
qed

lemma list_find_family:
  "family h H N L \<Longrightarrow> a \<in> H \<Longrightarrow> list_find h a func = Some (List.find func (L a))"
  using list_find_from_suffix [of h H N L a "[]" "L a" func] by (simp add: list_find_def family_next)

section \<open>LIST\_FOREACH\<close>

text \<open>The loop over a list whose body does not change the links.\<close>

partial_function (option) list_foreach_from ::
  "'n links \<Rightarrow> 'n \<Rightarrow> ('n \<Rightarrow> 's \<Rightarrow> 's) \<Rightarrow> 'n \<Rightarrow> 's \<Rightarrow> 's option" where
  "list_foreach_from h self body node s =
     (if node = self then Some s
      else list_foreach_from h self body (nxt h node) (body node s))"

definition list_foreach :: "'n links \<Rightarrow> 'n \<Rightarrow> ('n \<Rightarrow> 's \<Rightarrow> 's) \<Rightarrow> 's \<Rightarrow> 's option" where
  "list_foreach h self body s = list_foreach_from h self body (nxt h self) s"

lemma list_foreach_from_suffix:
  assumes "family h H N L" and "a \<in> H" and "L a = xs @ ys"
  shows "list_foreach_from h a body (hd (ys @ [a])) s = Some (fold body ys s)"
  using assms(3)
proof (induction ys arbitrary: xs s)
  case Nil
  then show ?case by (simp add: list_foreach_from.simps)
next
  case (Cons y ys)
  have "y \<noteq> a" using familyD(1,3) [OF assms(1)] assms(2) Cons.prems by fastforce
  moreover have "nxt h y = hd (ys @ [a])" using family_next_elem [OF assms(1,2) Cons.prems] .
  moreover have "list_foreach_from h a body (hd (ys @ [a])) t = Some (fold body ys t)" for t
    using Cons.IH [of "xs @ [y]"] Cons.prems by simp
  ultimately show ?case by (simp add: list_foreach_from.simps)
qed

lemma list_foreach_family:
  "family h H N L \<Longrightarrow> a \<in> H \<Longrightarrow> list_foreach h a body s = Some (fold body (L a) s)"
  using list_foreach_from_suffix [of h H N L a "[]" "L a" body s] by (simp add: list_foreach_def family_next)

section \<open>Inserting after a node\<close>

lemma list_insert_after_before:
  "prv h (nxt h node) = node \<Longrightarrow> list_insert_after node new h = list_insert_before (nxt h node) new h"
  by (simp add: list_insert_after_def list_insert_before_def Let_def)

lemma ring_prv_nxt_head: "ring h a xs \<Longrightarrow> prv h (nxt h a) = a"
  by (cases xs) (auto simp: ring_def)

lemma ring_prv_nxt: "ring h a (xs @ y # ys) \<Longrightarrow> prv h (nxt h y) = y"
  by (cases ys) (auto simp: ring_def)

text \<open>The five list operations act on the contents of the lists as their names say, for any
  set of disjoint lists: a node that is in no list can be inserted before or after any node, a
  removed node leaves its list and points to itself again, and emptiness of a head or of a node
  tells whether the list has elements or the node is in a list.\<close>

theorem list_operations:
  assumes "family h H N L" and "a \<in> H" and "L a = xs @ y # ys"
  shows "(\<forall>n\<in>N. n \<notin> members H L \<longrightarrow>
            family (list_insert_before y n h) H N (L(a := xs @ n # y # ys)) \<and>
            family (list_insert_after y n h) H N (L(a := xs @ y # n # ys)) \<and>
            family (list_insert_before a n h) H N (L(a := L a @ [n])) \<and>
            family (list_insert_after a n h) H N (L(a := n # L a))) \<and>
         family (list_remove y h) H N (L(a := xs @ ys)) \<and>
         list_is_empty (list_remove y h) y \<and> \<not> list_is_empty h y \<and> \<not> list_is_empty h a"
proof -
  have r: "ring h a (L a)" using familyD(2) [OF assms(1,2)] .
  have y: "y \<notin> set xs" using family_distinct [OF assms(1,2)] assms(3) by simp
  have rem: "family (list_remove y h) H N (L(a := xs @ ys))"
    using kl.del [OF assms(1,2), of y] assms(3) y by (simp add: remove1_append)
  have ins: "family (list_insert_before y n h) H N (L(a := xs @ n # y # ys))"
      "family (list_insert_after y n h) H N (L(a := xs @ y # n # ys))"
      "family (list_insert_before a n h) H N (L(a := L a @ [n]))"
      "family (list_insert_after a n h) H N (L(a := n # L a))"
    if "n \<in> N" "n \<notin> members H L" for n
  proof -
    show "family (list_insert_before y n h) H N (L(a := xs @ n # y # ys))"
      using kl.put_at [OF assms that] by simp
    show "family (list_insert_after y n h) H N (L(a := xs @ y # n # ys))"
      using kl.put_at [OF assms(1,2), of "xs @ [y]" ys n] assms(3) that
        list_insert_after_before [OF ring_prv_nxt, of h a xs y ys] r
        family_next_elem [OF assms] by simp
    show "family (list_insert_before a n h) H N (L(a := L a @ [n]))"
      using kl.put_tail [OF assms(1,2) that] .
    show "family (list_insert_after a n h) H N (L(a := n # L a))"
      using kl.put_at [OF assms(1,2), of "[]" "L a" n] that
        list_insert_after_before [OF ring_prv_nxt_head [OF r]] family_next [OF assms(1,2)] by simp
  qed
  have "list_is_empty (list_remove y h) y" by (simp add: list_remove_def list_is_empty_def Let_def)
  moreover have "\<not> list_is_empty h y" using ring_member_linked [OF r] assms(3) by simp
  moreover have "\<not> list_is_empty h a" using family_empty_head [OF assms(1,2)] assms(3) by simp
  ultimately show ?thesis using rem ins by blast
qed

theorem list_operations_witness:
  "family (list_remove 1 (list_insert_before 0 1 (list_init (0::nat) \<lparr>prv = (\<lambda>n. n), nxt = (\<lambda>n. n)\<rparr>))) {0} {1} (\<lambda>_. [])"
proof -
  let ?h = "list_init (0::nat) \<lparr>prv = (\<lambda>n. n), nxt = (\<lambda>n. n)\<rparr>"
  have e: "family ?h {0} {1} (\<lambda>_. [])"
    by (auto simp: family_def members_def ring_Nil list_init_def)
  have "family (list_insert_before 0 1 ?h) {0} {1} ((\<lambda>_. [])(0 := [1]))"
    using kl.put_tail [OF e, of 0 1] by (simp add: members_def)
  from list_operations [OF this, of 0 "[]" 1 "[]"]
  have "family (list_remove 1 (list_insert_before 0 1 ?h)) {0} {1} ((\<lambda>_. [])(0 := [1], 0 := []))"
    by simp
  then show ?thesis by (rule family_cong) simp
qed

end
