(* ===== verification/Buddy.thy ===== *)
theory Buddy
  imports KList
begin

text \<open>
  The two buddy allocators of \<^verbatim>\<open>kernel/lib/mem.c\<close>: physical pages (\<^verbatim>\<open>pages\<close>,
  \<^verbatim>\<open>pages_free_list\<close>, \<^verbatim>\<open>pages_count\<close>) and kernel virtual pages (\<^verbatim>\<open>vaddrs\<close>,
  \<^verbatim>\<open>vaddrs_free_list\<close>). Both keep an array of descriptors, each with a list node and an
  \<^verbatim>\<open>order\<close>, and an array of 16 free-list heads; a \<open>pool\<close> is one such pair of arrays.
  A descriptor is named by its index in the array.
\<close>

section \<open>State\<close>

definition BUDDY_ORDER_LIMIT :: nat where
  "BUDDY_ORDER_LIMIT = 16"

datatype bnode = FreeHead nat | Block nat

record pool =
  plinks :: "bnode links"
  porder :: "nat \<Rightarrow> int"
  pcount :: nat

section \<open>Block orders\<close>

function max_order_for_length_loop :: "nat \<Rightarrow> nat \<Rightarrow> nat" where
  "max_order_for_length_loop len order =
     (if order < BUDDY_ORDER_LIMIT \<and> 2 ^ order \<le> len
      then max_order_for_length_loop len (order + 1) else order)"
  by pat_completeness auto
termination by (relation "measure (\<lambda>(l, k). BUDDY_ORDER_LIMIT - k)") auto

definition max_order_for_length :: "nat \<Rightarrow> int" where
  "max_order_for_length len = int (max_order_for_length_loop len 0) - 1"

function max_order_for_index_loop :: "nat \<Rightarrow> nat \<Rightarrow> nat" where
  "max_order_for_index_loop index order =
     (if order < BUDDY_ORDER_LIMIT - 1 \<and> 2 ^ order AND index = 0
      then max_order_for_index_loop index (order + 1) else order)"
  by pat_completeness auto
termination by (relation "measure (\<lambda>(i, k). BUDDY_ORDER_LIMIT - k)") auto

definition max_order_for_index :: "nat \<Rightarrow> int" where
  "max_order_for_index index = int (max_order_for_index_loop index 0)"

definition max_order :: "nat \<Rightarrow> nat \<Rightarrow> int" where
  "max_order index max_length =
     (let m1 = max_order_for_length max_length;
          m2 = max_order_for_index index
      in if m1 < m2 then m1 else m2)"

declare max_order_for_length_loop.simps [simp del] max_order_for_index_loop.simps [simp del]

section \<open>Operations\<close>

text \<open>
  The constructor empties the free lists and marks every descriptor as not allocated. The
  array of heads and the array of descriptors are walked with \<^verbatim>\<open>ARRAY_FOREACH\<close>.
\<close>

definition init_heads :: "bnode links \<Rightarrow> bnode links" where
  "init_heads h = fold (\<lambda>k. list_init (FreeHead k)) [0..<BUDDY_ORDER_LIMIT] h"

definition init_descriptor :: "nat \<Rightarrow> pool \<Rightarrow> pool" where
  "init_descriptor i p =
     p\<lparr>plinks := list_init (Block i) (plinks p), porder := (porder p)(i := -1)\<rparr>"

definition init_pool :: "pool \<Rightarrow> pool" where
  "init_pool p =
     fold init_descriptor [0..<pcount p] (p\<lparr>plinks := init_heads (plinks p)\<rparr>)"

text \<open>
  The loop of \<^verbatim>\<open>add_pages_to_pool\<close> and \<^verbatim>\<open>add_vaddrs_to_pool\<close>, which differ in the
  array they work on only. A descriptor past the end of the array is \<open>OutOfBounds\<close>.
\<close>

function add_to_pool :: "nat \<Rightarrow> nat \<Rightarrow> pool \<Rightarrow> pool result" where
  "add_to_pool index to p =
     (if index < to then
        let order = max_order index (to - index) in
        if order < 0 then Inl BadShift
        else if pcount p \<le> index then Inl OutOfBounds
        else add_to_pool (index + 2 ^ nat order) to
               (p\<lparr>plinks := list_insert_before (FreeHead (nat order)) (Block index) (plinks p)\<rparr>)
      else Inr p)"
  by pat_completeness auto
termination
  by (relation "measure (\<lambda>(index, to, p). to - index)") (auto simp: diff_less_mono2)

declare add_to_pool.simps [simp del]

definition add_pages_to_pool :: "nat \<Rightarrow> nat \<Rightarrow> pool \<Rightarrow> pool result" where
  "add_pages_to_pool from to p = add_to_pool from to p"

definition add_vaddrs_to_pool :: "nat \<Rightarrow> nat \<Rightarrow> pool \<Rightarrow> pool result" where
  "add_vaddrs_to_pool from to p = add_to_pool from to p"

text \<open>
  \<^verbatim>\<open>page_allocate\<close> and \<^verbatim>\<open>vaddr_allocate\<close> are the same code over the two arrays. The
  result \<open>None\<close> is \<^verbatim>\<open>NULL\<close>. An order above 16 passes the \<^verbatim>\<open>NULL\<close> test and indexes the
  array of heads out of its bounds.
\<close>

function find_free_order :: "pool \<Rightarrow> nat \<Rightarrow> nat" where
  "find_free_order p k =
     (if k < BUDDY_ORDER_LIMIT \<and> list_is_empty (plinks p) (FreeHead k)
      then find_free_order p (k + 1) else k)"
  by pat_completeness auto
termination by (relation "measure (\<lambda>(p, k). BUDDY_ORDER_LIMIT - k)") auto

declare find_free_order.simps [simp del]

fun split_down :: "nat \<Rightarrow> nat \<Rightarrow> pool \<Rightarrow> pool result" where
  "split_down order 0 p = Inr p"
| "split_down order (Suc k) p =
     (if order < Suc k then
        (case nxt (plinks p) (FreeHead (Suc k)) of
           FreeHead _ \<Rightarrow> Inl BadPointer
         | Block index \<Rightarrow>
             let h = list_remove (nxt (plinks p) (FreeHead (Suc k))) (plinks p);
                 h = list_insert_before (FreeHead k) (Block index) h;
                 buddy = index XOR 2 ^ k
             in if pcount p \<le> buddy then Inl OutOfBounds
                else split_down order k
                       (p\<lparr>plinks := list_insert_before (FreeHead k) (Block buddy) h\<rparr>))
      else Inr p)"

definition buddy_allocate :: "nat \<Rightarrow> pool \<Rightarrow> (nat option \<times> pool) result" where
  "buddy_allocate order p =
     (let k = find_free_order p order in
      if k = BUDDY_ORDER_LIMIT then Inr (None, p)
      else if BUDDY_ORDER_LIMIT < k then Inl OutOfBounds
      else bindE (split_down order k p) (\<lambda>p.
        case nxt (plinks p) (FreeHead order) of
          FreeHead _ \<Rightarrow> Inl BadPointer
        | Block index \<Rightarrow>
            Inr (Some index,
                 p\<lparr>plinks := list_remove (nxt (plinks p) (FreeHead order)) (plinks p),
                   porder := (porder p)(index := int order)\<rparr>)))"

definition page_allocate :: "nat \<Rightarrow> pool \<Rightarrow> (nat option \<times> pool) result" where
  "page_allocate order p = buddy_allocate order p"

definition vaddr_allocate :: "nat \<Rightarrow> pool \<Rightarrow> (nat option \<times> pool) result" where
  "vaddr_allocate order p = buddy_allocate order p"

text \<open>
  The merging loop of \<^verbatim>\<open>page_free\<close>; the one of \<^verbatim>\<open>vaddr_free\<close> has no bounds check. A
  buddy is merged when its node is in some list.
\<close>

function page_coalesce :: "nat \<Rightarrow> nat \<Rightarrow> pool \<Rightarrow> nat \<times> nat \<times> pool" where
  "page_coalesce index order p =
     (if order < BUDDY_ORDER_LIMIT - 1 then
        let buddy_index = index XOR 2 ^ order in
        if pcount p \<le> buddy_index then (index, order, p)
        else if list_is_empty (plinks p) (Block buddy_index) then (index, order, p)
        else page_coalesce (unset_bit order index) (order + 1)
               (p\<lparr>plinks := list_remove (Block buddy_index) (plinks p)\<rparr>)
      else (index, order, p))"
  by pat_completeness auto
termination by (relation "measure (\<lambda>(i, k, p). BUDDY_ORDER_LIMIT - k)") auto

function vaddr_coalesce :: "nat \<Rightarrow> nat \<Rightarrow> pool \<Rightarrow> (nat \<times> nat \<times> pool) result" where
  "vaddr_coalesce index order p =
     (if order < BUDDY_ORDER_LIMIT - 1 then
        let buddy_index = index XOR 2 ^ order in
        if pcount p \<le> buddy_index then Inl OutOfBounds
        else if list_is_empty (plinks p) (Block buddy_index) then Inr (index, order, p)
        else vaddr_coalesce (unset_bit order index) (order + 1)
               (p\<lparr>plinks := list_remove (Block buddy_index) (plinks p)\<rparr>)
      else Inr (index, order, p))"
  by pat_completeness auto
termination by (relation "measure (\<lambda>(i, k, p). BUDDY_ORDER_LIMIT - k)") auto

declare page_coalesce.simps [simp del] vaddr_coalesce.simps [simp del]

definition release_block :: "nat \<times> nat \<times> pool \<Rightarrow> pool" where
  "release_block = (\<lambda>(index, order, p).
     p\<lparr>plinks := list_insert_before (FreeHead order) (Block index) (plinks p),
       porder := (porder p)(index := -1)\<rparr>)"

definition page_free :: "nat \<Rightarrow> pool \<Rightarrow> pool result" where
  "page_free index p =
     (if pcount p \<le> index then Inl BadPointer
      else if porder p index = -1 then Inr p
      else if porder p index < 0 then Inl BadShift
      else if int BUDDY_ORDER_LIMIT \<le> porder p index then Inl OutOfBounds
      else Inr (release_block (page_coalesce index (nat (porder p index)) p)))"

definition vaddr_free :: "nat \<Rightarrow> pool \<Rightarrow> pool result" where
  "vaddr_free index p =
     (if pcount p \<le> index then Inl BadPointer
      else if porder p index = -1 then Inr p
      else if porder p index < 0 then Inl BadShift
      else if int BUDDY_ORDER_LIMIT \<le> porder p index then Inl OutOfBounds
      else map_sum id release_block (vaddr_coalesce index (nat (porder p index)) p))"

end
