(* ===== verification/Blocks.thy ===== *)
theory Blocks
  imports Prelude
begin

text \<open>
  Arithmetic of the buddy allocator: aligned power-of-two blocks of indices, the buddy of a
  block, and sets of pairwise disjoint blocks, without any list or pointer. A block is its
  first index and its order.
\<close>

section \<open>Buddies\<close>

type_synonym block = "nat \<times> nat"

definition span :: "block \<Rightarrow> nat set" where
  "span b = {fst b ..< fst b + 2 ^ snd b}"

lemma bit_dvd_low: "2 ^ k dvd (i::nat) \<Longrightarrow> j < k \<Longrightarrow> \<not> bit i j"
proof -
  assume "2 ^ k dvd i" and "j < k"
  then have "2 * 2 ^ j dvd i" by (metis Suc_leI le_imp_power_dvd dvd_trans power_Suc)
  then obtain m where "i = 2 * 2 ^ j * m" by (elim dvdE)
  then show ?thesis by (simp add: bit_iff_odd)
qed

lemma xor_pow_flip: "(i::nat) XOR 2 ^ k = flip_bit k i"
  by (simp add: flip_bit_eq_xor push_bit_eq_mult)

lemma bit_le_nat: "bit (i::nat) k \<Longrightarrow> 2 ^ k \<le> i"
  by (metis bit_nat_iff possible_bit_def not_le bit_iff_odd div_less even_zero)

lemma unset_bit_nat: "unset_bit k (i::nat) = i - of_bool (bit i k) * 2 ^ k"
proof -
  have "int (unset_bit k i) = int i - of_bool (bit i k) * 2 ^ k"
    by (simp add: of_nat_unset_bit_eq unset_bit_eq bit_of_nat_iff_bit)
  moreover have "int i - of_bool (bit i k) * 2 ^ k = int (i - of_bool (bit i k) * 2 ^ k)"
    using bit_le_nat [of i k] by (cases "bit i k") (simp_all add: of_nat_diff)
  ultimately show ?thesis by (simp only: of_nat_eq_iff)
qed

lemma xor_pow_cases:
  "(i::nat) XOR 2 ^ k = (if bit i k then i - 2 ^ k else i + 2 ^ k)"
  by (simp add: xor_pow_flip flip_bit_eq_if unset_bit_nat set_bit_eq)

lemma bit_dvd_odd: "2 ^ k dvd (i::nat) \<Longrightarrow> bit i k \<longleftrightarrow> \<not> 2 ^ Suc k dvd i"
  by (elim dvdE) (auto simp: bit_iff_odd)

lemma buddy_dvd: "2 ^ k dvd (i::nat) \<Longrightarrow> 2 ^ k dvd i XOR 2 ^ k"
  by (auto simp: xor_pow_cases)

lemma buddy_parent_dvd: "2 ^ k dvd (i::nat) \<Longrightarrow> 2 ^ Suc k dvd unset_bit k i"
proof (cases "bit i k")
  case True
  assume "2 ^ k dvd i"
  then obtain m where m: "i = 2 ^ k * m" by (elim dvdE)
  with True have "odd m" by (simp add: bit_iff_odd)
  then obtain n where "m = 2 * n + 1" by (elim oddE)
  then have "unset_bit k i = 2 ^ Suc k * n" using True m by (simp add: unset_bit_nat algebra_simps)
  then show ?thesis by simp
qed (simp add: unset_bit_nat bit_dvd_odd)

lemma buddy_neq: "(i::nat) XOR 2 ^ k \<noteq> i"
proof -
  have pos: "0 < (2::nat) ^ k" by simp
  show ?thesis
  proof (cases "bit i k")
    case True
    then have "i - 2 ^ k < i" using bit_le_nat [of i k] pos by (intro diff_less) linarith+
    then show ?thesis using True by (simp add: xor_pow_cases)
  qed (simp add: xor_pow_cases)
qed

lemma span_parent:
  "2 ^ k dvd i \<Longrightarrow> span (unset_bit k i, Suc k) = span (i, k) \<union> span (i XOR 2 ^ k, k)"
  using bit_le_nat [of i k] by (auto simp: span_def xor_pow_cases unset_bit_nat)

lemma span_buddy_disjoint: "span (i, k) \<inter> span (i XOR 2 ^ k, k) = {}"
  using bit_le_nat [of i k] by (auto simp: span_def xor_pow_cases)

lemma fst_in_span [simp]: "i \<in> span (i, k)"
  by (simp add: span_def)

lemma span_nonempty: "span b \<noteq> {}"
  by (simp add: span_def)

lemma finite_span [simp]: "finite (span b)"
  by (simp add: span_def)

text \<open>Splitting: the halves of an aligned block of order \<open>k + 1\<close>.\<close>

lemma half_xor: "2 ^ Suc k dvd (i::nat) \<Longrightarrow> i XOR 2 ^ k = i + 2 ^ k"
  using bit_dvd_odd [of k i] by (auto simp: xor_pow_cases elim: dvd_trans [rotated])

lemma half_unset: "2 ^ Suc k dvd (i::nat) \<Longrightarrow> unset_bit k i = i"
  using bit_dvd_low [of "Suc k" i k] by (simp add: unset_bit_nat)

lemma half_dvd: "2 ^ Suc k dvd (i::nat) \<Longrightarrow> 2 ^ k dvd i"
  by (metis dvd_trans le_imp_power_dvd lessI less_imp_le)

lemma span_halves: "2 ^ Suc k dvd i \<Longrightarrow> span (i, Suc k) = span (i, k) \<union> span (i XOR 2 ^ k, k)"
  using span_parent [OF half_dvd, of k i] half_unset [of k i] by metis

section \<open>Sets of disjoint blocks\<close>

definition block_ok :: "nat \<Rightarrow> block \<Rightarrow> bool" where
  "block_ok c b \<longleftrightarrow> snd b < 16 \<and> 2 ^ snd b dvd fst b \<and> fst b + 2 ^ snd b \<le> c"

definition blocks_ok :: "nat \<Rightarrow> block set \<Rightarrow> bool" where
  "blocks_ok c B \<longleftrightarrow>
     (\<forall>b\<in>B. block_ok c b) \<and> (\<forall>x\<in>B. \<forall>y\<in>B. x \<noteq> y \<longrightarrow> span x \<inter> span y = {})"

lemma blocks_ok_empty [simp]: "blocks_ok c {}"
  by (simp add: blocks_ok_def)

lemma blocks_ok_insert:
  "blocks_ok c (insert b B) \<longleftrightarrow>
     block_ok c b \<and> blocks_ok c B \<and> (\<forall>x \<in> B - {b}. span b \<inter> span x = {})"
  unfolding blocks_ok_def by blast

lemma blocks_ok_subset: "blocks_ok c B \<Longrightarrow> A \<subseteq> B \<Longrightarrow> blocks_ok c A"
  unfolding blocks_ok_def by blast

lemma block_ok_index: "block_ok c (i, k) \<Longrightarrow> i < c"
  by (simp add: block_ok_def) (metis add_lessD1 le_add_diff_inverse less_le_trans
      less_add_same_cancel1 zero_less_numeral zero_less_power)

lemma blocks_ok_same_index:
  "blocks_ok c B \<Longrightarrow> (i, k) \<in> B \<Longrightarrow> (i, l) \<in> B \<Longrightarrow> k = l"
proof (rule ccontr)
  assume B: "blocks_ok c B" "(i, k) \<in> B" "(i, l) \<in> B" and "k \<noteq> l"
  then have "span (i, k) \<inter> span (i, l) = {}" unfolding blocks_ok_def by auto
  then show False using fst_in_span by blast
qed

lemma blocks_ok_split:
  assumes "blocks_ok c (insert (i, Suc k) B)" and "(i, Suc k) \<notin> B"
  shows "blocks_ok c (insert (i, k) (insert (i XOR 2 ^ k, k) B))"
proof -
  have al: "2 ^ Suc k dvd i" and k: "Suc k < 16" and c: "i + 2 ^ Suc k \<le> c"
    using assms(1) by (auto simp: blocks_ok_insert block_ok_def)
  have sp: "span (i, Suc k) = span (i, k) \<union> span (i XOR 2 ^ k, k)"
    using span_halves [OF al] .
  have dj: "\<forall>x\<in>B. span (i, Suc k) \<inter> span x = {}"
    using assms by (auto simp: blocks_ok_insert)
  have "2 ^ k dvd i" using half_dvd [OF al] .
  then have "block_ok c (i, k)" "block_ok c (i XOR 2 ^ k, k)"
    using k c buddy_dvd [of k i] half_xor [OF al] by (auto simp: block_ok_def)
  moreover have "blocks_ok c B" using assms(1) by (simp add: blocks_ok_insert)
  ultimately show ?thesis
    using dj sp span_buddy_disjoint [of i k] unfolding blocks_ok_insert by blast
qed

lemma blocks_ok_merge:
  assumes "blocks_ok c (insert (i, k) (insert (i XOR 2 ^ k, k) B))" and "Suc k < 16"
    and "(i, k) \<notin> B" and "(i XOR 2 ^ k, k) \<notin> B"
  shows "blocks_ok c (insert (unset_bit k i, Suc k) B)"
proof -
  let ?j = "i XOR 2 ^ k"
  have al: "2 ^ k dvd i" and c: "i + 2 ^ k \<le> c" "?j + 2 ^ k \<le> c"
    using assms(1) by (auto simp: blocks_ok_insert block_ok_def)
  have sp: "span (unset_bit k i, Suc k) = span (i, k) \<union> span (?j, k)"
    using span_parent [OF al] .
  have "unset_bit k i + 2 ^ Suc k \<le> c"
    using c bit_le_nat [of i k] by (auto simp: unset_bit_nat xor_pow_cases split: if_splits)
  then have "block_ok c (unset_bit k i, Suc k)"
    using assms(2) buddy_parent_dvd [OF al] by (simp add: block_ok_def)
  moreover have "blocks_ok c B" "\<forall>x\<in>B. span (i, k) \<inter> span x = {}" "\<forall>x\<in>B. span (?j, k) \<inter> span x = {}"
    using assms by (auto simp: blocks_ok_insert)
  ultimately show ?thesis unfolding blocks_ok_insert sp by blast
qed

end
