(* ===== verification/BuddyInv.thy ===== *)
theory BuddyInv
  imports Buddy Blocks
begin

text \<open>
  Correctness of the buddy allocators. The abstract state of a pool is, for each order, the
  list of the free blocks of that order, and the set of the allocated blocks; the abstract
  operations work on these lists. The pointer code refines them, and keeps all free and
  allocated blocks aligned, inside the array and pairwise disjoint.
\<close>

section \<open>Abstract state\<close>

fun fl :: "(nat \<Rightarrow> nat list) \<Rightarrow> bnode \<Rightarrow> bnode list" where
  "fl F (FreeHead k) = map Block (F k)"
| "fl F (Block i) = []"

definition heads :: "bnode set" where
  "heads = FreeHead ` {..<BUDDY_ORDER_LIMIT}"

definition nodes :: "nat \<Rightarrow> bnode set" where
  "nodes c = Block ` {..<c}"

definition flinks :: "bnode links \<Rightarrow> nat \<Rightarrow> (nat \<Rightarrow> nat list) \<Rightarrow> bool" where
  "flinks h c F = family h heads (nodes c) (fl F)"

definition free_blocks :: "(nat \<Rightarrow> nat list) \<Rightarrow> block set" where
  "free_blocks F = {(i, k). k < BUDDY_ORDER_LIMIT \<and> i \<in> set (F k)}"

definition pages_of :: "block set \<Rightarrow> nat set" where
  "pages_of B = (\<Union>b\<in>B. span b)"

definition pool_inv :: "pool \<Rightarrow> (nat \<Rightarrow> nat list) \<Rightarrow> block set \<Rightarrow> bool" where
  "pool_inv p F A \<longleftrightarrow>
     flinks (plinks p) (pcount p) F \<and>
     blocks_ok (pcount p) (free_blocks F \<union> A) \<and>
     free_blocks F \<inter> A = {} \<and>
     (\<forall>(i, k)\<in>A. porder p i = int k)"

section \<open>Free lists in memory\<close>

lemma LIMIT [simp]: "BUDDY_ORDER_LIMIT = 16"
  by (simp add: BUDDY_ORDER_LIMIT_def)

lemma fl_update: "(fl F)(FreeHead k := map Block xs) = fl (F(k := xs))"
proof
  fix a show "((fl F)(FreeHead k := map Block xs)) a = fl (F(k := xs)) a" by (cases a) auto
qed

lemma head_in [simp]: "FreeHead k \<in> heads \<longleftrightarrow> k < 16"
  by (auto simp: heads_def)

lemma node_in [simp]: "Block i \<in> nodes c \<longleftrightarrow> i < c"
  by (auto simp: nodes_def)

lemma members_fl [simp]: "Block i \<in> members heads (fl F) \<longleftrightarrow> (\<exists>k<16. i \<in> set (F k))"
  by (auto simp: members_def heads_def)

lemma remove1_map_Block: "remove1 (Block i) (map Block xs) = map Block (remove1 i xs)"
  by (induction xs) auto

lemma flinks_empty: "flinks h c F \<Longrightarrow> k < 16 \<Longrightarrow> list_is_empty h (FreeHead k) \<longleftrightarrow> F k = []"
  using kl.emp_head [of h heads "nodes c" "fl F" "FreeHead k"] by (simp add: flinks_def)

lemma flinks_linked:
  "flinks h c F \<Longrightarrow> i < c \<Longrightarrow> list_is_empty h (Block i) \<longleftrightarrow> (\<forall>k<16. i \<notin> set (F k))"
  using kl.emp_node [of h heads "nodes c" "fl F" "Block i"] by (auto simp: flinks_def)

lemma flinks_first: "flinks h c F \<Longrightarrow> k < 16 \<Longrightarrow> F k = i # r \<Longrightarrow> nxt h (FreeHead k) = Block i"
  using kl.nx_head [of h heads "nodes c" "fl F" "FreeHead k"] by (simp add: flinks_def)

lemma flinks_insert:
  assumes "flinks h c F" "k < 16" "i < c" "\<forall>k<16. i \<notin> set (F k)"
  shows "flinks (list_insert_before (FreeHead k) (Block i) h) c (F(k := F k @ [i]))"
  using kl.put_tail [of h heads "nodes c" "fl F" "FreeHead k" "Block i"] assms
    fl_update [of F k "F k @ [i]"] by (auto simp: flinks_def)

lemma flinks_remove:
  assumes "flinks h c F" "k < 16" "i \<in> set (F k)"
  shows "flinks (list_remove (Block i) h) c (F(k := remove1 i (F k)))"
  using kl.del [of h heads "nodes c" "fl F" "FreeHead k" "Block i"] assms
    fl_update [of F k "remove1 i (F k)"] by (auto simp: flinks_def remove1_map_Block)

lemma flinks_distinct: "flinks h c F \<Longrightarrow> k < 16 \<Longrightarrow> distinct (F k)"
  using kl.dist [of h heads "nodes c" "fl F" "FreeHead k"] by (simp add: flinks_def distinct_map)

lemma flinks_bound: "flinks h c F \<Longrightarrow> k < 16 \<Longrightarrow> i \<in> set (F k) \<Longrightarrow> i < c"
  using kl.within [of h heads "nodes c" "fl F" "FreeHead k"] by (auto simp: flinks_def nodes_def)

lemma flinks_one_list:
  "flinks h c F \<Longrightarrow> k < 16 \<Longrightarrow> l < 16 \<Longrightarrow> i \<in> set (F k) \<Longrightarrow> i \<in> set (F l) \<Longrightarrow> k = l"
  using kl.disj [of h heads "nodes c" "fl F" "FreeHead k" "FreeHead l"] by (auto simp: flinks_def)

lemmas flinks_facts = flinks_empty flinks_linked flinks_first flinks_insert flinks_remove
  flinks_distinct flinks_bound

section \<open>Free blocks under list updates\<close>

lemma free_blocks_iff [simp]: "(i, k) \<in> free_blocks F \<longleftrightarrow> k < 16 \<and> i \<in> set (F k)"
  by (simp add: free_blocks_def)

lemma free_blocks_snoc:
  "k < 16 \<Longrightarrow> free_blocks (F(k := F k @ [i])) = insert (i, k) (free_blocks F)"
  by (auto simp: free_blocks_def)

lemma free_blocks_remove:
  "k < 16 \<Longrightarrow> distinct (F k) \<Longrightarrow> free_blocks (F(k := remove1 i (F k))) = free_blocks F - {(i, k)}"
  by (auto simp: free_blocks_def)

lemma pages_of_simps [simp]:
  "pages_of {} = {}" "pages_of (insert b B) = span b \<union> pages_of B"
  "pages_of (A \<union> B) = pages_of A \<union> pages_of B"
  by (auto simp: pages_of_def)

lemma pages_of_remove:
  assumes "blocks_ok c B" and "b \<in> B"
  shows "pages_of (B - {b}) = pages_of B - span b"
  using assms unfolding pages_of_def blocks_ok_def by blast

section \<open>Allocation\<close>

fun split_abs :: "nat \<Rightarrow> nat \<Rightarrow> (nat \<Rightarrow> nat list) \<Rightarrow> nat \<Rightarrow> nat list" where
  "split_abs order 0 F = F"
| "split_abs order (Suc k) F =
     (if order < Suc k then
        let i = hd (F (Suc k))
        in split_abs order k (F(Suc k := tl (F (Suc k)), k := F k @ [i, i XOR 2 ^ k]))
      else F)"

definition first_order :: "nat \<Rightarrow> (nat \<Rightarrow> nat list) \<Rightarrow> nat option" where
  "first_order order F = List.find (\<lambda>k. F k \<noteq> []) [order..<16]"

definition alloc_abs :: "nat \<Rightarrow> (nat \<Rightarrow> nat list) \<Rightarrow> nat option \<times> (nat \<Rightarrow> nat list)" where
  "alloc_abs order F =
     (case first_order order F of
        None \<Rightarrow> (None, F)
      | Some k \<Rightarrow> let F' = split_abs order k F in (Some (hd (F' order)), F'(order := tl (F' order))))"

lemma find_free_order_abs:
  "flinks (plinks p) c F \<Longrightarrow> k \<le> 16 \<Longrightarrow>
    find_free_order p k = (case first_order k F of None \<Rightarrow> 16 | Some l \<Rightarrow> l)"
proof (induction p k rule: find_free_order.induct)
  case (1 p k)
  show ?case
  proof (cases "k < 16")
    case True
    then show ?thesis using 1 by (simp add: find_free_order.simps [of p k] flinks_empty first_order_def upt_conv_Cons)
  next
    case False
    with 1 have "k = 16" by simp
    then show ?thesis by (simp add: find_free_order.simps [of p 16] first_order_def)
  qed
qed

lemma first_order_Some: "first_order order F = Some k \<Longrightarrow> order \<le> k \<and> k < 16 \<and> F k \<noteq> []"
  by (auto simp: first_order_def find_Some_iff)

lemma first_order_None: "first_order order F = None \<longleftrightarrow> (\<forall>k. order \<le> k \<and> k < 16 \<longrightarrow> F k = [])"
  by (auto simp: first_order_def find_None_iff)

text \<open>One split: the block at the front of a list becomes its two halves one list below.\<close>

definition split_once :: "nat \<Rightarrow> (nat \<Rightarrow> nat list) \<Rightarrow> nat \<Rightarrow> nat list" where
  "split_once k F =
     (let i = hd (F (Suc k)) in F(Suc k := tl (F (Suc k)), k := F k @ [i, i XOR 2 ^ k]))"

lemma split_abs_Suc [simp]:
  "split_abs order (Suc k) F = (if order < Suc k then split_abs order k (split_once k F) else F)"
  by (simp add: split_once_def Let_def)

declare split_abs.simps(2) [simp del]

lemma free_blocks_split_once:
  assumes "F (Suc k) = i # r" "distinct (F (Suc k))" "Suc k < 16"
  shows "free_blocks (split_once k F) =
           insert (i, k) (insert (i XOR 2 ^ k, k) (free_blocks F - {(i, Suc k)}))"
  using assms by (auto simp: split_once_def free_blocks_def split: if_splits)

lemma split_once_ok:
  assumes ok: "blocks_ok c (free_blocks F \<union> A)" and dj: "free_blocks F \<inter> A = {}"
    and F: "F (Suc k) = i # r" "distinct (F (Suc k))" "Suc k < 16"
  shows "blocks_ok c (free_blocks (split_once k F) \<union> A)"
    and "free_blocks (split_once k F) \<inter> A = {}"
    and "pages_of (free_blocks (split_once k F)) = pages_of (free_blocks F)"
    and "i XOR 2 ^ k < c" and "\<forall>l<16. i XOR 2 ^ k \<notin> set (F l)"
proof -
  let ?B = "free_blocks F \<union> A" and ?b = "(i, Suc k)" and ?j = "i XOR 2 ^ k"
  have b1: "?b \<in> free_blocks F" using F by simp
  then have b: "?b \<in> free_blocks F" "?b \<notin> A" using dj by blast+
  have bok: "block_ok c ?b" using ok b by (auto simp: blocks_ok_def)
  then have al: "2 ^ Suc k dvd i" by (simp add: block_ok_def)
  have sp: "span ?b = span (i, k) \<union> span (?j, k)" using span_halves [OF al] .
  note fb = free_blocks_split_once [of F k i r, OF F]
  have eq: "free_blocks (split_once k F) \<union> A = insert (i, k) (insert (?j, k) (?B - {?b}))"
    using fb b by auto
  have "insert ?b (?B - {?b}) = ?B" using b by auto
  then have halves: "blocks_ok c (insert (i, k) (insert (?j, k) (?B - {?b})))"
    using ok by (intro blocks_ok_split) auto
  then show "blocks_ok c (free_blocks (split_once k F) \<union> A)" unfolding eq .
  have far: "x \<notin> ?B" if "span x \<inter> span ?b \<noteq> {}" and "x \<noteq> ?b" for x
    using ok b that unfolding blocks_ok_def by blast
  have "(i, k) \<notin> ?B"
  proof (rule far)
    show "span (i, k) \<inter> span ?b \<noteq> {}" unfolding sp using span_nonempty by blast
  qed simp
  moreover have "(?j, k) \<notin> ?B"
  proof (rule far)
    show "span (?j, k) \<inter> span ?b \<noteq> {}" unfolding sp using span_nonempty by blast
  qed simp
  ultimately show "free_blocks (split_once k F) \<inter> A = {}"
    unfolding fb using dj by blast
  have "pages_of (free_blocks F) = span ?b \<union> pages_of (free_blocks F - {?b})"
    using b pages_of_simps(2) [of ?b "free_blocks F - {?b}"] by (simp add: insert_absorb)
  then show "pages_of (free_blocks (split_once k F)) = pages_of (free_blocks F)"
    using fb sp by auto
  show "?j < c" using halves by (intro block_ok_index [of c ?j k]) (simp add: blocks_ok_insert)
  show "\<forall>l<16. ?j \<notin> set (F l)"
  proof (intro allI impI notI)
    fix l assume "l < 16" "?j \<in> set (F l)"
    then have m: "(?j, l) \<in> ?B" by simp
    have "span (?j, l) \<inter> span ?b \<noteq> {}" unfolding sp using fst_in_span by blast
    then have "(?j, l) = ?b" using far [of "(?j, l)"] m by blast
    then show False using buddy_neq by blast
  qed
qed

lemma split_down_step:
  assumes "flinks (plinks p) (pcount p) F" and "F (Suc k) = i # r" and "Suc k < 16"
    and "i XOR 2 ^ k < pcount p" and "\<forall>l<16. i XOR 2 ^ k \<notin> set (F l)" and "order < Suc k"
  shows "\<exists>h. split_down order (Suc k) p = split_down order k (p\<lparr>plinks := h\<rparr>) \<and>
             flinks h (pcount p) (split_once k F)"
proof -
  let ?c = "pcount p" and ?j = "i XOR 2 ^ k"
  define h1 where "h1 = list_remove (Block i) (plinks p)"
  define h2 where "h2 = list_insert_before (FreeHead k) (Block i) h1"
  define h3 where "h3 = list_insert_before (FreeHead k) (Block ?j) h2"
  have d: "distinct (F (Suc k))" and ic: "i < ?c"
    using flinks_distinct [OF assms(1,3)] flinks_bound [OF assms(1,3)] assms(2) by auto
  have nx: "nxt (plinks p) (FreeHead (Suc k)) = Block i" using flinks_first [OF assms(1,3,2)] .
  have 1: "flinks h1 ?c (F(Suc k := r))"
    using flinks_remove [OF assms(1,3), of i] assms(2) by (simp add: h1_def)
  have no: "\<forall>l<16. i \<notin> set ((F(Suc k := r)) l)"
    using flinks_one_list [OF assms(1,3), of _ i] assms(2) d by auto
  have 2: "flinks h2 ?c ((F(Suc k := r))(k := F k @ [i]))"
    using flinks_insert [of h1 ?c "F(Suc k := r)" k i] 1 ic no assms(3) by (simp add: h2_def)
  have "?j \<notin> set (F (Suc k))" "?j \<notin> set (F k)" using assms(3,5) by auto
  then have no2: "\<forall>l<16. ?j \<notin> set (((F(Suc k := r))(k := F k @ [i])) l)"
    using assms(2,5) buddy_neq [of i k] by auto
  have 3: "flinks h3 ?c ((F(Suc k := r))(k := F k @ [i, ?j]))"
    using flinks_insert [of h2 ?c "(F(Suc k := r))(k := F k @ [i])" k ?j] 2 no2 assms(3,4)
    by (simp add: h3_def)
  show ?thesis
    using 3 assms(2,4,6) by (intro exI [of _ h3])
      (simp add: nx split_once_def Let_def h1_def [symmetric] h2_def [symmetric] h3_def [symmetric])
qed


lemma split_down_refines:
  assumes "flinks (plinks p) (pcount p) F"
    and "blocks_ok (pcount p) (free_blocks F \<union> A)" and "free_blocks F \<inter> A = {}"
    and "order \<le> k" and "k < 16" and "F k \<noteq> []"
  shows "\<exists>h. split_down order k p = Inr (p\<lparr>plinks := h\<rparr>) \<and>
             flinks h (pcount p) (split_abs order k F) \<and>
             blocks_ok (pcount p) (free_blocks (split_abs order k F) \<union> A) \<and>
             free_blocks (split_abs order k F) \<inter> A = {} \<and>
             pages_of (free_blocks (split_abs order k F)) = pages_of (free_blocks F) \<and>
             split_abs order k F order \<noteq> []"
  using assms
proof (induction k arbitrary: p F)
  case 0
  then show ?case by (intro exI [of _ "plinks p"]) simp
next
  case (Suc k)
  show ?case
  proof (cases "order < Suc k")
    case False
    with Suc.prems have "order = Suc k" by simp
    with Suc.prems show ?thesis by (intro exI [of _ "plinks p"]) simp
  next
    case True
    obtain i r where F: "F (Suc k) = i # r" using Suc.prems(6) by (cases "F (Suc k)") auto
    have d: "distinct (F (Suc k))" using flinks_distinct [OF Suc.prems(1,5)] .
    note ok = split_once_ok [OF Suc.prems(2,3) F d Suc.prems(5)]
    obtain h where h: "split_down order (Suc k) p = split_down order k (p\<lparr>plinks := h\<rparr>)"
      "flinks h (pcount p) (split_once k F)"
      using split_down_step [OF Suc.prems(1) F Suc.prems(5) ok(4,5) True] by blast
    have "split_once k F k \<noteq> []" by (simp add: split_once_def Let_def)
    then show ?thesis
      using Suc.IH [of "p\<lparr>plinks := h\<rparr>" "split_once k F"] h ok(1-3) True Suc.prems(5) by simp
  qed
qed

text \<open>
  The refinement: the pointer code computes \<open>alloc_abs\<close> of the lists, and the result is the
  new allocation. In the order that \<^verbatim>\<open>mem.c\<close> is written, \<open>order \<le> 16\<close> is what keeps the search
  inside the array of heads.
\<close>

lemma take_front_ok:
  assumes "blocks_ok c (free_blocks F \<union> A)" and "free_blocks F \<inter> A = {}"
    and "F k = i # r" and "distinct (F k)" and "k < 16"
  shows "free_blocks (F(k := r)) = free_blocks F - {(i, k)}"
    and "free_blocks (F(k := r)) \<union> insert (i, k) A = free_blocks F \<union> A"
    and "free_blocks (F(k := r)) \<inter> insert (i, k) A = {}"
    and "pages_of (free_blocks (F(k := r))) = pages_of (free_blocks F) - span (i, k)"
    and "span (i, k) \<subseteq> pages_of (free_blocks F)" and "i < c"
proof -
  have b: "(i, k) \<in> free_blocks F" using assms by simp
  show 1: "free_blocks (F(k := r)) = free_blocks F - {(i, k)}"
    using free_blocks_remove [of k F i] assms(3-5) by simp
  show "free_blocks (F(k := r)) \<union> insert (i, k) A = free_blocks F \<union> A"
    and "free_blocks (F(k := r)) \<inter> insert (i, k) A = {}"
    unfolding 1 using b assms(2) by auto
  have "blocks_ok c (free_blocks F)" using assms(1) by (rule blocks_ok_subset) simp
  then show "pages_of (free_blocks (F(k := r))) = pages_of (free_blocks F) - span (i, k)"
    unfolding 1 using b by (rule pages_of_remove)
  show "span (i, k) \<subseteq> pages_of (free_blocks F)" using b unfolding pages_of_def by blast
  show "i < c" using assms(1) b block_ok_index [of c i k] by (auto simp: blocks_ok_def)
qed

lemma buddy_allocate_None:
  assumes "pool_inv p F A" and "order \<le> 16" and "first_order order F = None"
  shows "buddy_allocate order p = Inr (None, p)"
  using assms find_free_order_abs [of p "pcount p" F order]
  by (simp add: buddy_allocate_def pool_inv_def)

lemma pool_inv_alloc:
  assumes "pool_inv p F A" and "first_order order F = Some k"
  shows "\<exists>i p'. buddy_allocate order p = Inr (Some i, p') \<and>
           alloc_abs order F = (Some i, snd (alloc_abs order F)) \<and>
           pool_inv p' (snd (alloc_abs order F)) (insert (i, order) A) \<and>
           pages_of (free_blocks (snd (alloc_abs order F))) = pages_of (free_blocks F) - span (i, order) \<and>
           span (i, order) \<subseteq> pages_of (free_blocks F) \<and>
           (i, order) \<notin> A \<and> pcount p' = pcount p"
proof -
  let ?F = "split_abs order k F"
  have k: "order \<le> k" "k < 16" "F k \<noteq> []" using first_order_Some [OF assms(2)] by auto
  have fl: "flinks (plinks p) (pcount p) F" and ok: "blocks_ok (pcount p) (free_blocks F \<union> A)"
    "free_blocks F \<inter> A = {}" and ord: "\<forall>(i, k)\<in>A. porder p i = int k"
    using assms(1) by (auto simp: pool_inv_def)
  obtain h where h: "split_down order k p = Inr (p\<lparr>plinks := h\<rparr>)" "flinks h (pcount p) ?F"
    and ok': "blocks_ok (pcount p) (free_blocks ?F \<union> A)" "free_blocks ?F \<inter> A = {}"
    and pg: "pages_of (free_blocks ?F) = pages_of (free_blocks F)" and ne: "?F order \<noteq> []"
    using split_down_refines [OF fl ok k] by blast
  obtain i r where F: "?F order = i # r" using ne by (cases "?F order") auto
  have o: "order < 16" using k by simp
  note tf = take_front_ok [OF ok' F flinks_distinct [OF h(2) o] o]
  let ?p = "p\<lparr>plinks := list_remove (Block i) h, porder := (porder p)(i := int order)\<rparr>"
  have "find_free_order p order = k"
    using find_free_order_abs [OF fl, of order] k assms(2) by simp
  then have run: "buddy_allocate order p = Inr (Some i, ?p)"
    using k h(1) flinks_first [OF h(2) o F] by (simp add: buddy_allocate_def)
  have fr: "(i, order) \<in> free_blocks ?F" using F o by simp
  have fresh: "i \<noteq> j" if "(j, l) \<in> A" for j l
  proof
    assume "i = j"
    with that fr have "order = l" using blocks_ok_same_index [OF ok'(1), of i order l] by simp
    with that fr \<open>i = j\<close> show False using ok'(2) by blast
  qed
  have "\<forall>(j, l)\<in>insert (i, order) A. porder ?p j = int l" using ord fresh by fastforce
  moreover have "flinks (list_remove (Block i) h) (pcount p) (?F(order := r))"
    using flinks_remove [OF h(2) o, of i] F by simp
  ultimately have "pool_inv ?p (?F(order := r)) (insert (i, order) A)"
    unfolding pool_inv_def using tf(2,3) ok'(1) by simp
  moreover have "alloc_abs order F = (Some i, ?F(order := r))"
    using assms(2) F by (simp add: alloc_abs_def)
  moreover have "(i, order) \<notin> A" using fresh by blast
  ultimately show ?thesis
    using run tf(4,5) pg by (intro exI [of _ i] exI [of _ ?p]) auto
qed

section \<open>Freeing\<close>

definition unlink :: "nat \<Rightarrow> (nat \<Rightarrow> nat list) \<Rightarrow> nat \<Rightarrow> nat list" where
  "unlink b F = (\<lambda>k. remove1 b (F k))"

definition linked :: "(nat \<Rightarrow> nat list) \<Rightarrow> nat \<Rightarrow> bool" where
  "linked F b \<longleftrightarrow> (\<exists>k<16. b \<in> set (F k))"

text \<open>
  \<^verbatim>\<open>page_free\<close> merges with a buddy whose node is in \<^emph>\<open>some\<close> free list; it does not look at the
  buddy's order. The merge is right when every buddy that it takes, up to the first one that is not
  free, is free as a block of the order at hand.
\<close>

function genuine :: "nat \<Rightarrow> (nat \<Rightarrow> nat list) \<Rightarrow> nat \<Rightarrow> nat \<Rightarrow> bool" where
  "genuine c F index order =
     (if order < 15 \<and> index XOR 2 ^ order < c \<and> linked F (index XOR 2 ^ order)
      then index XOR 2 ^ order \<in> set (F order) \<and>
           genuine c (unlink (index XOR 2 ^ order) F) (unset_bit order index) (Suc order)
      else True)"
  by pat_completeness auto
termination by (relation "measure (\<lambda>(c, F, i, k). 16 - k)") auto

declare genuine.simps [simp del]

lemma genuine_stop:
  "\<not> (order < 15 \<and> index XOR 2 ^ order < c \<and> linked F (index XOR 2 ^ order)) \<Longrightarrow> genuine c F index order"
  by (subst genuine.simps) (simp only: if_not_P simp_thms)

lemma genuine_step:
  "order < 15 \<and> index XOR 2 ^ order < c \<and> linked F (index XOR 2 ^ order) \<Longrightarrow>
    genuine c F index order \<longleftrightarrow>
      index XOR 2 ^ order \<in> set (F order) \<and> genuine c (unlink (index XOR 2 ^ order) F) (unset_bit order index) (Suc order)"
  by (subst genuine.simps) (rule if_P)

lemma flinks_unlink:
  assumes "flinks h c F" and "linked F b"
  shows "flinks (list_remove (Block b) h) c (unlink b F)"
proof -
  obtain k where k: "k < 16" "b \<in> set (F k)" using assms(2) by (auto simp: linked_def)
  have "remove1 b (F l) = F l" if "l < 16" "l \<noteq> k" for l
    using flinks_one_list [OF assms(1) that(1) k(1), of b] that(2) k(2) by (intro remove1_idem) blast
  then have "\<forall>a\<in>heads. fl (F(k := remove1 b (F k))) a = fl (unlink b F) a"
    by (auto simp: heads_def unlink_def)
  then show ?thesis
    using flinks_remove [OF assms(1) k] family_cong unfolding flinks_def by blast
qed

lemma free_blocks_unlink:
  assumes "flinks h c F" and "k < 16" and "b \<in> set (F k)"
  shows "free_blocks (unlink b F) = free_blocks F - {(b, k)}"
proof -
  have one: "l = k" if "l < 16" "b \<in> set (F l)" for l
    using flinks_one_list [OF assms(1) that(1) assms(2) that(2) assms(3)] .
  have rm: "set (remove1 b (F l)) = set (F l) - {b}" if "l < 16" for l
    using flinks_distinct [OF assms(1) that] by simp
  have "x \<in> free_blocks (unlink b F) \<longleftrightarrow> x \<in> free_blocks F - {(b, k)}" for x
    by (cases x) (auto simp: unlink_def rm dest: one)
  then show ?thesis by blast
qed

text \<open>
  The merge on the abstract lists. The pointer code computes it for every pool, whether or not
  the merges are right.
\<close>

function coalesce_abs ::
  "nat \<Rightarrow> nat \<Rightarrow> nat \<Rightarrow> (nat \<Rightarrow> nat list) \<Rightarrow> nat \<times> nat \<times> (nat \<Rightarrow> nat list)" where
  "coalesce_abs c index order F =
     (if order < 15 \<and> index XOR 2 ^ order < c \<and> linked F (index XOR 2 ^ order)
      then coalesce_abs c (unset_bit order index) (Suc order) (unlink (index XOR 2 ^ order) F)
      else (index, order, F))"
  by pat_completeness auto
termination by (relation "measure (\<lambda>(c, i, k, F). 16 - k)") auto

declare coalesce_abs.simps [simp del]

lemma coalesce_abs_stop:
  "\<not> (order < 15 \<and> index XOR 2 ^ order < c \<and> linked F (index XOR 2 ^ order)) \<Longrightarrow>
    coalesce_abs c index order F = (index, order, F)"
  by (subst coalesce_abs.simps) (rule if_not_P)

lemma coalesce_abs_step:
  "order < 15 \<and> index XOR 2 ^ order < c \<and> linked F (index XOR 2 ^ order) \<Longrightarrow>
    coalesce_abs c index order F =
      coalesce_abs c (unset_bit order index) (Suc order) (unlink (index XOR 2 ^ order) F)"
  by (subst coalesce_abs.simps) (rule if_P)

lemma page_coalesce_refines:
  "flinks (plinks p) (pcount p) F \<Longrightarrow>
    \<exists>h i k F'. coalesce_abs (pcount p) index order F = (i, k, F') \<and>
      page_coalesce index order p = (i, k, p\<lparr>plinks := h\<rparr>) \<and> flinks h (pcount p) F'"
proof (induction index order p arbitrary: F rule: page_coalesce.induct)
  case (1 index order p)
  let ?b = "index XOR 2 ^ order" and ?c = "pcount p"
  show ?case
  proof (cases "order < 15 \<and> ?b < ?c \<and> linked F ?b")
    case False
    then have "page_coalesce index order p = (index, order, p)"
      using flinks_linked [OF "1.prems", of ?b]
      by (auto simp: page_coalesce.simps [of index order p] linked_def Let_def not_le)
    with coalesce_abs_stop [OF False] "1.prems" show ?thesis
      by (intro exI [of _ "plinks p"]) simp
  next
    case True
    let ?p = "p\<lparr>plinks := list_remove (Block ?b) (plinks p)\<rparr>" and ?F = "unlink ?b F"
    have ne: "\<not> list_is_empty (plinks p) (Block ?b)"
      using True flinks_linked [OF "1.prems", of ?b] by (auto simp: linked_def)
    have "page_coalesce index order p = page_coalesce (unset_bit order index) (order + 1) ?p"
      using True ne by (simp add: page_coalesce.simps [of index order p] Let_def)
    moreover have "flinks (plinks ?p) (pcount ?p) ?F"
      using flinks_unlink [OF "1.prems"] True by simp
    ultimately show ?thesis
      using "1.IH" [of ?b ?F] True ne coalesce_abs_step [OF True] by simp
  qed
qed

lemma free_blocks_unlink_ok:
  assumes "blocks_ok c (free_blocks F)" and "\<forall>k<16. distinct (F k)" and "k < 16" and "b \<in> set (F k)"
  shows "free_blocks (unlink b F) = free_blocks F - {(b, k)}"
proof -
  have one: "l = k" if "l < 16" "b \<in> set (F l)" for l
    using blocks_ok_same_index [OF assms(1), of b l k] that assms(3,4) by simp
  have rm: "set (remove1 b (F l)) = set (F l) - {b}" if "l < 16" for l
    using assms(2) that by simp
  have "x \<in> free_blocks (unlink b F) \<longleftrightarrow> x \<in> free_blocks F - {(b, k)}" for x
    by (cases x) (auto simp: unlink_def rm dest: one)
  then show ?thesis by blast
qed

lemma coalesce_abs_ok:
  assumes "\<forall>k<16. distinct (F k)"
    and "blocks_ok c (insert (index, order) (free_blocks F \<union> A))"
    and "(index, order) \<notin> free_blocks F \<union> A" and "free_blocks F \<inter> A = {}"
    and "genuine c F index order"
  shows "\<exists>i k F'. coalesce_abs c index order F = (i, k, F') \<and>
           blocks_ok c (insert (i, k) (free_blocks F' \<union> A)) \<and>
           (i, k) \<notin> free_blocks F' \<union> A \<and> free_blocks F' \<inter> A = {} \<and>
           span (i, k) \<union> pages_of (free_blocks F') = span (index, order) \<union> pages_of (free_blocks F)"
  using assms
proof (induction c index order F rule: coalesce_abs.induct)
  case (1 c index order F)
  let ?b = "index XOR 2 ^ order"
  show ?case
  proof (cases "order < 15 \<and> ?b < c \<and> linked F ?b")
    case False
    then have "coalesce_abs c index order F = (index, order, F)" by (rule coalesce_abs_stop)
    with "1.prems" show ?thesis by simp
  next
    case True
    let ?F = "unlink ?b F"
    have al: "2 ^ order dvd index" using "1.prems"(2) by (simp add: blocks_ok_insert block_ok_def)
    have bF: "?b \<in> set (F order)" and g: "genuine c ?F (unset_bit order index) (Suc order)"
      using "1.prems"(5) unfolding genuine_step [OF True] by blast+
    have "blocks_ok c (free_blocks F)" using "1.prems"(2) by (rule blocks_ok_subset) blast
    then have fb: "free_blocks ?F = free_blocks F - {(?b, order)}"
      using free_blocks_unlink_ok [OF _ "1.prems"(1) _ bF] True by simp
    have "(?b, order) \<in> free_blocks F" using bF True by simp
    then have split: "free_blocks F = insert (?b, order) (free_blocks ?F)"
      unfolding fb by blast
    have notA: "(?b, order) \<notin> A" using "1.prems"(4) split by blast
    have ok: "blocks_ok c (insert (index, order) (insert (?b, order) (free_blocks ?F \<union> A)))"
      using "1.prems"(2) unfolding split by simp
    have nin: "(index, order) \<notin> free_blocks ?F \<union> A" "(?b, order) \<notin> free_blocks ?F \<union> A"
      using "1.prems"(3) notA unfolding fb by blast+
    have merged: "blocks_ok c (insert (unset_bit order index, Suc order) (free_blocks ?F \<union> A))"
      by (rule blocks_ok_merge [OF ok _ nin]) (use True in simp)
    have sp: "span (unset_bit order index, Suc order) = span (index, order) \<union> span (?b, order)"
      using span_parent [OF al] .
    have new: "(unset_bit order index, Suc order) \<notin> free_blocks ?F \<union> A"
    proof
      assume m: "(unset_bit order index, Suc order) \<in> free_blocks ?F \<union> A"
      have "span (index, order) \<inter> span x = {}" if "x \<in> free_blocks ?F \<union> A" for x
        using ok nin that unfolding blocks_ok_insert by blast
      from this [OF m] show False unfolding sp using span_nonempty by blast
    qed
    have pg: "span (unset_bit order index, Suc order) \<union> pages_of (free_blocks ?F) =
        span (index, order) \<union> pages_of (free_blocks F)"
      unfolding sp split by auto
    have d: "\<forall>k<16. distinct (?F k)" using "1.prems"(1) by (simp add: unlink_def)
    have dj: "free_blocks ?F \<inter> A = {}" using "1.prems"(4) fb by blast
    note coalesce_abs_step [OF True]
    then show ?thesis
      using "1.IH" [OF True d merged new dj g] pg by simp
  qed
qed

text \<open>\<^verbatim>\<open>page_free\<close> on the abstract lists: merge, then append to the list of the order reached.\<close>

definition free_abs :: "nat \<Rightarrow> nat \<Rightarrow> nat \<Rightarrow> (nat \<Rightarrow> nat list) \<Rightarrow> nat \<Rightarrow> nat list" where
  "free_abs c i k F = (case coalesce_abs c i k F of (j, l, F') \<Rightarrow> F'(l := F' l @ [j]))"

lemma page_free_refines:
  assumes "flinks (plinks p) (pcount p) F" and "i < pcount p" and "porder p i = int k" and "k < 16"
    and "coalesce_abs (pcount p) i k F = (j, l, F')" and "\<not> linked F' j" and "j < pcount p" and "l < 16"
  shows "\<exists>h. page_free i p = Inr (p\<lparr>plinks := h, porder := (porder p)(j := -1)\<rparr>) \<and>
             flinks h (pcount p) (free_abs (pcount p) i k F)"
proof -
  obtain h where h: "page_coalesce i k p = (j, l, p\<lparr>plinks := h\<rparr>)" "flinks h (pcount p) F'"
    using page_coalesce_refines [OF assms(1), of i k] assms(5) by auto
  have "flinks (list_insert_before (FreeHead l) (Block j) h) (pcount p) (F'(l := F' l @ [j]))"
    using flinks_insert [OF h(2) assms(8,7)] assms(6) by (auto simp: linked_def)
  then show ?thesis
    using assms(2-5) h(1) by (auto simp: page_free_def release_block_def free_abs_def)
qed

lemma pool_inv_free:
  assumes inv: "pool_inv p F A" and a: "(i, k) \<in> A" and g: "genuine (pcount p) F i k"
  shows "\<exists>p'. page_free i p = Inr p' \<and> pool_inv p' (free_abs (pcount p) i k F) (A - {(i, k)}) \<and>
           pages_of (free_blocks (free_abs (pcount p) i k F)) = pages_of (free_blocks F) \<union> span (i, k) \<and>
           pcount p' = pcount p"
proof -
  let ?c = "pcount p" and ?A = "A - {(i, k)}"
  have fl: "flinks (plinks p) ?c F" and ok: "blocks_ok ?c (free_blocks F \<union> A)"
    and dj: "free_blocks F \<inter> A = {}" and ord: "\<forall>(i, k)\<in>A. porder p i = int k"
    using inv by (auto simp: pool_inv_def)
  have bok: "block_ok ?c (i, k)" using ok a by (auto simp: blocks_ok_def)
  then have ic: "i < ?c" and k: "k < 16" using block_ok_index by (auto simp: block_ok_def)
  have "insert (i, k) (free_blocks F \<union> ?A) = free_blocks F \<union> A" using a by blast
  then have ok': "blocks_ok ?c (insert (i, k) (free_blocks F \<union> ?A))" using ok by simp
  have nin: "(i, k) \<notin> free_blocks F \<union> ?A" and dj': "free_blocks F \<inter> ?A = {}" using a dj by blast+
  have d: "\<forall>k<16. distinct (F k)" using flinks_distinct [OF fl] by blast
  obtain j l F1 where abs: "coalesce_abs ?c i k F = (j, l, F1)"
    and ok1: "blocks_ok ?c (insert (j, l) (free_blocks F1 \<union> ?A))"
    and nin1: "(j, l) \<notin> free_blocks F1 \<union> ?A" and dj1: "free_blocks F1 \<inter> ?A = {}"
    and pg: "span (j, l) \<union> pages_of (free_blocks F1) = span (i, k) \<union> pages_of (free_blocks F)"
    using coalesce_abs_ok [OF d ok' nin dj' g] by blast
  have "block_ok ?c (j, l)" using ok1 by (simp add: blocks_ok_insert)
  then have l: "l < 16" and jc: "j < ?c" using block_ok_index by (auto simp: block_ok_def)
  have far: "span (j, l) \<inter> span x = {}" if "x \<in> free_blocks F1 \<union> ?A" for x
    using ok1 nin1 that unfolding blocks_ok_insert by blast
  have fresh: "(j, m) \<notin> free_blocks F1 \<union> ?A" for m
    using far [of "(j, m)"] fst_in_span by blast
  then have unl: "\<not> linked F1 j" by (auto simp: linked_def)
  obtain h where run: "page_free i p = Inr (p\<lparr>plinks := h, porder := (porder p)(j := -1)\<rparr>)"
    "flinks h ?c (free_abs ?c i k F)"
    using page_free_refines [OF fl ic _ k abs unl jc l] ord a by blast
  have fb: "free_blocks (free_abs ?c i k F) = insert (j, l) (free_blocks F1)"
    using free_blocks_snoc [OF l, of F1 j] abs by (simp add: free_abs_def)
  have "\<forall>(m, n)\<in>?A. ((porder p)(j := -1)) m = int n"
  proof
    fix x assume "x \<in> ?A"
    then obtain m n where x: "x = (m, n)" and mn: "(m, n) \<in> ?A" by (cases x) auto
    then have "m \<noteq> j" using fresh by blast
    then show "case x of (m, n) \<Rightarrow> ((porder p)(j := -1)) m = int n" using ord mn x by auto
  qed
  moreover have "insert (j, l) (free_blocks F1) \<inter> ?A = {}" using nin1 dj1 by blast
  ultimately have "pool_inv (p\<lparr>plinks := h, porder := (porder p)(j := -1)\<rparr>) (free_abs ?c i k F) ?A"
    using run(2) ok1 by (simp add: pool_inv_def fb)
  then show ?thesis using run(1) pg fb by auto
qed

text \<open>Freeing a block twice in a row, without a merge, is caught by the order mark.\<close>

lemma page_free_unallocated: "i < pcount p \<Longrightarrow> porder p i = -1 \<Longrightarrow> page_free i p = Inr p"
  by (simp add: page_free_def)

text \<open>
  \<^verbatim>\<open>vaddr_free\<close> has no bounds check. It is the same function where the array ends at a
  multiple of the largest merge, as the array of \<^verbatim>\<open>KERNEL_MEMORY_PAGES\<close> descriptors does.
\<close>

lemma xor_pow_bound:
  assumes "2 ^ Suc k dvd (c::nat)" and "i < c" shows "i XOR 2 ^ k < c"
proof (cases "bit i k")
  case True
  then show ?thesis using assms(2) by (simp add: xor_pow_cases)
next
  case False
  obtain m where c: "c = 2 ^ Suc k * m" using assms(1) by (elim dvdE)
  have "i div 2 ^ k < 2 * m" using assms(2) c by (simp add: less_mult_imp_div_less mult.commute mult.left_commute)
  moreover have "even (i div 2 ^ k)" using False by (simp add: bit_iff_odd)
  ultimately have "i div 2 ^ k + 1 < 2 * m" by (elim evenE) auto
  then have "(i div 2 ^ k + 2) * 2 ^ k \<le> 2 * m * 2 ^ k" by (intro mult_le_mono1) simp
  moreover have "i < (i div 2 ^ k + 1) * 2 ^ k"
    by (metis add.commute dividend_less_div_times mult.commute plus_1_eq_Suc mult_Suc zero_less_numeral zero_less_power)
  ultimately have "i + 2 ^ k < c" using c by (simp add: algebra_simps)
  then show ?thesis using False by (simp add: xor_pow_cases)
qed

lemma vaddr_coalesce_eq:
  assumes "2 ^ 15 dvd pcount p" and "index < pcount p"
  shows "vaddr_coalesce index order p = Inr (page_coalesce index order p)"
  using assms
proof (induction index order p rule: vaddr_coalesce.induct)
  case (1 index order p)
  have lt: "unset_bit order index < pcount p"
    using "1.prems"(2) unset_bit_nat [of order index] by (metis diff_le_self le_less_trans)
  have b: "index XOR 2 ^ order < pcount p" if "order < 15"
    using xor_pow_bound [of order "pcount p" index] "1.prems" that
    by (metis Suc_leI dvd_trans le_imp_power_dvd)
  show ?case
    using "1.IH" "1.prems" lt b
    by (auto simp: vaddr_coalesce.simps [of index order p] page_coalesce.simps [of index order p] Let_def)
qed

lemma vaddr_free_eq:
  "2 ^ 15 dvd pcount p \<Longrightarrow> vaddr_free i p = page_free i p"
  by (simp add: vaddr_free_def page_free_def vaddr_coalesce_eq)

section \<open>Filling the pool\<close>

lemma max_order_for_length_loop_bounds:
  "k \<le> 16 \<Longrightarrow> k \<le> max_order_for_length_loop len k \<and> max_order_for_length_loop len k \<le> 16"
  by (induction len k rule: max_order_for_length_loop.induct)
    (subst (1 2) max_order_for_length_loop.simps, auto)

lemma max_order_for_length_loop_pow:
  "j < max_order_for_length_loop len k \<Longrightarrow> k \<le> j \<Longrightarrow> 2 ^ j \<le> len"
proof (induction len k rule: max_order_for_length_loop.induct)
  case (1 len k)
  show ?case
  proof (cases "k < BUDDY_ORDER_LIMIT \<and> 2 ^ k \<le> len")
    case True
    then have "j = k \<or> Suc k \<le> j" and "max_order_for_length_loop len k = max_order_for_length_loop len (k + 1)"
      using "1.prems" by (auto simp: max_order_for_length_loop.simps [of len k])
    then show ?thesis using 1 True by auto
  next
    case False
    then show ?thesis using "1.prems" by (auto simp: max_order_for_length_loop.simps [of len k] split: if_splits)
  qed
qed

lemma max_order_for_length_bounds:
  assumes "0 < len"
  shows "0 \<le> max_order_for_length len" and "max_order_for_length len < 16"
    and "2 ^ nat (max_order_for_length len) \<le> len"
proof -
  let ?m = "max_order_for_length_loop len 0"
  have "max_order_for_length_loop len 0 = max_order_for_length_loop len (0 + 1)"
    using assms by (subst max_order_for_length_loop.simps) auto
  then have m: "1 \<le> ?m" "?m \<le> 16" using max_order_for_length_loop_bounds [of 1 len] by simp_all
  then have "nat (max_order_for_length len) = ?m - 1" by (simp add: max_order_for_length_def)
  then show "2 ^ nat (max_order_for_length len) \<le> len"
    using max_order_for_length_loop_pow [of "?m - 1" len 0] m by simp
  show "0 \<le> max_order_for_length len" and "max_order_for_length len < 16"
    using m by (auto simp: max_order_for_length_def)
qed

lemma pow_and_zero: "(2 ^ k AND (i::nat) = 0) \<longleftrightarrow> \<not> bit i k"
  by (simp add: and.commute [of "2 ^ k"] and_exp_eq_0_iff_not_bit)

lemma max_order_for_index_loop_bounds:
  "k < 16 \<Longrightarrow> 2 ^ k dvd i \<Longrightarrow>
    max_order_for_index_loop i k < 16 \<and> 2 ^ max_order_for_index_loop i k dvd i"
proof (induction i k rule: max_order_for_index_loop.induct)
  case (1 i k)
  show ?case
  proof (cases "k < BUDDY_ORDER_LIMIT - 1 \<and> 2 ^ k AND i = 0")
    case True
    then have "2 ^ Suc k dvd i" using "1.prems" bit_dvd_odd [of k i] by (simp add: pow_and_zero)
    then show ?thesis using 1 True by (auto simp: max_order_for_index_loop.simps [of i k])
  next
    case False
    then show ?thesis using "1.prems" by (auto simp: max_order_for_index_loop.simps [of i k])
  qed
qed

lemma max_order_block:
  assumes "0 < len"
  shows "0 \<le> max_order i len" and "block_ok (i + len) (i, nat (max_order i len))"
proof -
  note L = max_order_for_length_bounds [OF assms]
  have I: "max_order_for_index_loop i 0 < 16" "2 ^ max_order_for_index_loop i 0 dvd i"
    using max_order_for_index_loop_bounds [of 0 i] by simp_all
  let ?m = "max_order i len"
  show 0: "0 \<le> ?m" using L by (simp add: max_order_def max_order_for_index_def Let_def)
  have le: "nat ?m \<le> nat (max_order_for_length len)" "nat ?m \<le> max_order_for_index_loop i 0"
    by (auto simp: max_order_def max_order_for_index_def Let_def)
  have "(2::nat) ^ nat ?m \<le> 2 ^ nat (max_order_for_length len)" using le(1) by (intro power_increasing) simp_all
  then have "(2::nat) ^ nat ?m \<le> len" using L(3) by (rule le_trans)
  moreover have "2 ^ nat ?m dvd i" using I(2) le(2) by (metis dvd_trans le_imp_power_dvd)
  ultimately show "block_ok (i + len) (i, nat ?m)" using I(1) le(2) by (simp add: block_ok_def)
qed

function add_abs :: "nat \<Rightarrow> nat \<Rightarrow> (nat \<Rightarrow> nat list) \<Rightarrow> nat \<Rightarrow> nat list" where
  "add_abs index to F =
     (if index < to then
        let k = nat (max_order index (to - index)) in add_abs (index + 2 ^ k) to (F(k := F k @ [index]))
      else F)"
  by pat_completeness auto
termination by (relation "measure (\<lambda>(index, to, F). to - index)") (auto simp: diff_less_mono2)

declare add_abs.simps [simp del]

lemma add_to_pool_refines:
  assumes "flinks (plinks p) (pcount p) F"
    and "blocks_ok (pcount p) (free_blocks F \<union> A)" and "free_blocks F \<inter> A = {}"
    and "to \<le> pcount p" and "{index..<to} \<inter> pages_of (free_blocks F \<union> A) = {}"
  shows "\<exists>h. add_to_pool index to p = Inr (p\<lparr>plinks := h\<rparr>) \<and>
           flinks h (pcount p) (add_abs index to F) \<and>
           blocks_ok (pcount p) (free_blocks (add_abs index to F) \<union> A) \<and>
           free_blocks (add_abs index to F) \<inter> A = {} \<and>
           pages_of (free_blocks (add_abs index to F)) = pages_of (free_blocks F) \<union> {index..<to}"
  using assms
proof (induction index to p arbitrary: F rule: add_to_pool.induct)
  case (1 index to p)
  let ?c = "pcount p"
  show ?case
  proof (cases "index < to")
    case False
    with "1.prems" show ?thesis
      by (intro exI [of _ "plinks p"]) (simp add: add_to_pool.simps [of index to p] add_abs.simps [of index to F])
  next
    case True
    let ?k = "nat (max_order index (to - index))"
    let ?p = "p\<lparr>plinks := list_insert_before (FreeHead ?k) (Block index) (plinks p)\<rparr>"
    let ?F = "F(?k := F ?k @ [index])"
    have mo: "0 \<le> max_order index (to - index)" and bok: "block_ok to (index, ?k)"
      using max_order_block [of "to - index" index] True by simp_all
    have k: "?k < 16" and ic: "index < ?c" and bok': "block_ok ?c (index, ?k)"
      using bok "1.prems"(4) True by (auto simp: block_ok_def)
    have sub: "span (index, ?k) \<subseteq> {index..<to}" using bok by (auto simp: span_def block_ok_def)
    have far: "span (index, ?k) \<inter> span x = {}" if "x \<in> free_blocks F \<union> A" for x
      using "1.prems"(5) sub that unfolding pages_of_def by blast
    have "(index, l) \<notin> free_blocks F \<union> A" for l using far [of "(index, l)"] fst_in_span by blast
    then have new: "\<forall>l<16. index \<notin> set (F l)" and newA: "(index, ?k) \<notin> A" by auto
    have fb: "free_blocks ?F = insert (index, ?k) (free_blocks F)" using free_blocks_snoc [OF k] .
    have "blocks_ok ?c (insert (index, ?k) (free_blocks F \<union> A))"
      using "1.prems"(2) bok' far unfolding blocks_ok_insert by blast
    then have ok: "blocks_ok ?c (free_blocks ?F \<union> A)" unfolding fb by simp
    have dj: "free_blocks ?F \<inter> A = {}" unfolding fb using "1.prems"(3) newA by blast
    have "{index + 2 ^ ?k..<to} \<inter> span (index, ?k) = {}" and sub2: "{index + 2 ^ ?k..<to} \<subseteq> {index..<to}"
      by (auto simp: span_def)
    then have rest: "{index + 2 ^ ?k..<to} \<inter> pages_of (free_blocks ?F \<union> A) = {}"
      using "1.prems"(5) unfolding fb Un_insert_left pages_of_simps by blast
    have whole: "{index..<to} = span (index, ?k) \<union> {index + 2 ^ ?k..<to}"
      using bok by (auto simp: span_def block_ok_def)
    have fl: "flinks (plinks ?p) ?c ?F" using flinks_insert [OF "1.prems"(1) k ic new] by simp
    have step: "add_to_pool index to p = add_to_pool (index + 2 ^ ?k) to ?p"
      using True mo ic by (simp add: add_to_pool.simps [of index to p] Let_def)
    have abs: "add_abs index to F = add_abs (index + 2 ^ ?k) to ?F"
      using True by (simp add: add_abs.simps [of index to F] Let_def)
    have IH: "\<exists>h. add_to_pool (index + 2 ^ ?k) to ?p = Inr (?p\<lparr>plinks := h\<rparr>) \<and>
           flinks h (pcount ?p) (add_abs (index + 2 ^ ?k) to ?F) \<and>
           blocks_ok (pcount ?p) (free_blocks (add_abs (index + 2 ^ ?k) to ?F) \<union> A) \<and>
           free_blocks (add_abs (index + 2 ^ ?k) to ?F) \<inter> A = {} \<and>
           pages_of (free_blocks (add_abs (index + 2 ^ ?k) to ?F)) = pages_of (free_blocks ?F) \<union> {index + 2 ^ ?k..<to}"
      by (rule "1.IH" [of _ ?F]) (use True mo ic fl ok dj rest "1.prems"(4) in \<open>simp_all add: Let_def del: fun_upd_apply\<close>)
    have "pages_of (free_blocks ?F) \<union> {index + 2 ^ ?k..<to} = pages_of (free_blocks F) \<union> {index..<to}"
      unfolding fb whole by auto
    then show ?thesis using IH unfolding step abs by simp
  qed
qed

lemma pool_inv_add:
  assumes "pool_inv p F A" and "to \<le> pcount p" and "{from..<to} \<inter> pages_of (free_blocks F \<union> A) = {}"
  shows "\<exists>p'. add_to_pool from to p = Inr p' \<and> pool_inv p' (add_abs from to F) A \<and>
           pcount p' = pcount p \<and> porder p' = porder p \<and>
           pages_of (free_blocks (add_abs from to F)) = pages_of (free_blocks F) \<union> {from..<to}"
proof -
  let ?F = "add_abs from to F"
  obtain h where h: "add_to_pool from to p = Inr (p\<lparr>plinks := h\<rparr>)" "flinks h (pcount p) ?F"
    "blocks_ok (pcount p) (free_blocks ?F \<union> A)" "free_blocks ?F \<inter> A = {}"
    "pages_of (free_blocks ?F) = pages_of (free_blocks F) \<union> {from..<to}"
    using add_to_pool_refines [of p F A to "from"] assms by (auto simp: pool_inv_def)
  then have "pool_inv (p\<lparr>plinks := h\<rparr>) ?F A" using assms(1) by (simp add: pool_inv_def)
  with h show ?thesis by auto
qed

lemma fold_init_descriptor:
  "fold init_descriptor is p =
     p\<lparr>plinks := fold (\<lambda>i. list_init (Block i)) is (plinks p),
       porder := (\<lambda>i. if i \<in> set is then -1 else porder p i)\<rparr>"
  by (induction "is" arbitrary: p) (auto simp: init_descriptor_def fun_eq_iff)

lemma pool_inv_init: "pool_inv (init_pool p) (\<lambda>_. []) {}"
proof -
  let ?h = "plinks (init_pool p)"
  have "prv ?h n = n \<and> nxt ?h n = n" if "n \<in> heads \<union> nodes (pcount p)" for n
    using that fold_list_init [of Block "[0..<pcount p]"] fold_list_init [of FreeHead "[0..<16]"]
    by (auto simp: init_pool_def fold_init_descriptor init_heads_def heads_def nodes_def)
  then have "ring ?h n []" if "n \<in> heads \<union> nodes (pcount p)" for n
    using that by (simp add: ring_Nil)
  moreover have "fl (\<lambda>_. []) n = []" for n by (cases n) auto
  ultimately have "flinks ?h (pcount p) (\<lambda>_. [])"
    by (auto simp: flinks_def family_def members_def heads_def nodes_def)
  then show ?thesis
    by (simp add: pool_inv_def free_blocks_def init_pool_def fold_init_descriptor)
qed

end
