(* ===== verification/BuddyProps.thy ===== *)
theory BuddyProps
  imports BuddyInv
begin

text \<open>
  What the buddy allocators promise to the rest of the kernel: an interface with the laws of
  allocation, its interpretation on the pointer code, the properties, and the run that shows
  where the promise of \<^verbatim>\<open>page_free\<close> ends.
\<close>

section \<open>The interface\<close>

text \<open>
  \<open>inv p f A\<close>: the allocator state \<open>p\<close> has abstract state \<open>f\<close> and the blocks \<open>A\<close> are allocated;
  \<open>free_set f\<close> are the pages it can still hand out.
\<close>

locale block_allocator =
  fixes inv :: "'p \<Rightarrow> 'f \<Rightarrow> block set \<Rightarrow> bool"
    and free_set :: "'f \<Rightarrow> nat set"
    and allocate :: "nat \<Rightarrow> 'p \<Rightarrow> (nat option \<times> 'p) result"
  assumes allocate_spec: "inv p f A \<Longrightarrow> k \<le> 16 \<Longrightarrow>
      allocate k p = Inr (None, p) \<or>
      (\<exists>i p' f'. allocate k p = Inr (Some i, p') \<and> inv p' f' (insert (i, k) A) \<and>
         span (i, k) \<subseteq> free_set f \<and> free_set f' = free_set f - span (i, k) \<and> (i, k) \<notin> A)"
    and free_apart: "inv p f A \<Longrightarrow> a \<in> A \<Longrightarrow> span a \<inter> free_set f = {}"
    and allocated_apart: "inv p f A \<Longrightarrow> a \<in> A \<Longrightarrow> b \<in> A \<Longrightarrow> a \<noteq> b \<Longrightarrow> span a \<inter> span b = {}"

text \<open>A sequence of requests; a request that cannot be met leaves no block.\<close>

fun allocate_all ::
  "(nat \<Rightarrow> 'p \<Rightarrow> (nat option \<times> 'p) result) \<Rightarrow> nat list \<Rightarrow> 'p \<Rightarrow> (block list \<times> 'p) result" where
  "allocate_all alloc [] p = Inr ([], p)"
| "allocate_all alloc (k # ks) p =
     bindE (alloc k p) (\<lambda>(r, p).
     bindE (allocate_all alloc ks p) (\<lambda>(bs, p).
       Inr ((case r of None \<Rightarrow> bs | Some i \<Rightarrow> (i, k) # bs), p)))"

context block_allocator begin

lemma allocate_all_spec:
  "inv p f A \<Longrightarrow> \<forall>k\<in>set ks. k \<le> 16 \<Longrightarrow>
    \<exists>bs p' f'. allocate_all allocate ks p = Inr (bs, p') \<and> inv p' f' (set bs \<union> A) \<and>
      distinct bs \<and> set bs \<inter> A = {} \<and> (\<forall>b\<in>set bs. span b \<subseteq> free_set f) \<and>
      free_set f' = free_set f - (\<Union>b\<in>set bs. span b)"
proof (induction ks arbitrary: p f A)
  case Nil
  then show ?case by auto
next
  case (Cons k ks)
  have k: "k \<le> 16" and ks: "\<forall>k\<in>set ks. k \<le> 16" using Cons.prems(2) by auto
  from allocate_spec [OF Cons.prems(1) k] show ?case
  proof (elim disjE exE conjE)
    assume none: "allocate k p = Inr (None, p)"
    show ?thesis using Cons.IH [OF Cons.prems(1) ks] none by auto
  next
    fix i p1 f1
    assume run: "allocate k p = Inr (Some i, p1)" and inv1: "inv p1 f1 (insert (i, k) A)"
      and sub: "span (i, k) \<subseteq> free_set f" and rest: "free_set f1 = free_set f - span (i, k)"
      and new: "(i, k) \<notin> A"
    obtain bs p' f' where bs: "allocate_all allocate ks p1 = Inr (bs, p')"
      "inv p' f' (set bs \<union> insert (i, k) A)" "distinct bs" "set bs \<inter> insert (i, k) A = {}"
      "\<forall>b\<in>set bs. span b \<subseteq> free_set f1" "free_set f' = free_set f1 - (\<Union>b\<in>set bs. span b)"
      using Cons.IH [OF inv1 ks] by blast
    have "allocate_all allocate (k # ks) p = Inr ((i, k) # bs, p')" using run bs(1) by simp
    moreover have "inv p' f' (set ((i, k) # bs) \<union> A)" using bs(2) by simp
    moreover have "free_set f' = free_set f - (\<Union>b\<in>set ((i, k) # bs). span b)"
      using bs(6) rest by auto
    moreover have "\<forall>b\<in>set ((i, k) # bs). span b \<subseteq> free_set f" using bs(5) rest sub by auto
    moreover have "distinct ((i, k) # bs)" "set ((i, k) # bs) \<inter> A = {}" using bs(3,4) new by auto
    ultimately show ?thesis by blast
  qed
qed

lemma allocate_all_apart:
  assumes "inv p f A" and "\<forall>k\<in>set ks. k \<le> 16" and "allocate_all allocate ks p = Inr (bs, p')"
    and "a \<in> set bs" and "b \<in> set bs \<union> A" and "a \<noteq> b"
  shows "span a \<inter> span b = {}"
proof -
  obtain f' where "inv p' f' (set bs \<union> A)"
    using allocate_all_spec [OF assms(1,2)] assms(3) by auto
  then show ?thesis using allocated_apart assms(4-6) by blast
qed

end

section \<open>The pointer code provides it\<close>

definition free_set :: "(nat \<Rightarrow> nat list) \<Rightarrow> nat set" where
  "free_set F = pages_of (free_blocks F)"

lemma buddy_allocate_cases:
  assumes "pool_inv p F A" and "k \<le> 16"
  shows "buddy_allocate k p = Inr (None, p) \<or>
      (\<exists>i p' F'. buddy_allocate k p = Inr (Some i, p') \<and> pool_inv p' F' (insert (i, k) A) \<and>
         span (i, k) \<subseteq> free_set F \<and> free_set F' = free_set F - span (i, k) \<and> (i, k) \<notin> A)"
proof (cases "first_order k F")
  case None
  then show ?thesis using buddy_allocate_None [OF assms] by simp
next
  case (Some l)
  then show ?thesis using pool_inv_alloc [OF assms(1) Some] unfolding free_set_def by blast
qed

lemma pool_inv_apart:
  assumes "pool_inv p F A"
  shows "a \<in> A \<Longrightarrow> span a \<inter> free_set F = {}"
    and "a \<in> A \<Longrightarrow> b \<in> A \<Longrightarrow> a \<noteq> b \<Longrightarrow> span a \<inter> span b = {}"
proof -
  have ok: "blocks_ok (pcount p) (free_blocks F \<union> A)" and dj: "free_blocks F \<inter> A = {}"
    using assms by (auto simp: pool_inv_def)
  show "a \<in> A \<Longrightarrow> span a \<inter> free_set F = {}"
  proof -
    assume a: "a \<in> A"
    have "span a \<inter> span x = {}" if "x \<in> free_blocks F" for x
    proof -
      have "a \<noteq> x" using a dj that by blast
      then show ?thesis using ok a that unfolding blocks_ok_def by blast
    qed
    then show ?thesis unfolding free_set_def pages_of_def by blast
  qed
  show "a \<in> A \<Longrightarrow> b \<in> A \<Longrightarrow> a \<noteq> b \<Longrightarrow> span a \<inter> span b = {}"
    using ok unfolding blocks_ok_def by blast
qed


interpretation vaa: block_allocator pool_inv free_set vaddr_allocate
  by unfold_locales
    (unfold vaddr_allocate_def, erule (1) buddy_allocate_cases, erule (1) pool_inv_apart,
     erule (3) pool_inv_apart)

section \<open>A pool of four pages\<close>

definition small_pool :: pool where
  "small_pool = \<lparr>plinks = \<lparr>prv = (\<lambda>n. n), nxt = (\<lambda>n. n)\<rparr>, porder = (\<lambda>_. 0), pcount = 4\<rparr>"

definition four_pages :: pool where
  "four_pages = (case add_pages_to_pool 0 4 (init_pool small_pool) of Inr p \<Rightarrow> p | Inl _ \<Rightarrow> small_pool)"

lemma pcount_small [simp]: "pcount (init_pool small_pool) = 4"
  by (simp add: init_pool_def fold_init_descriptor small_pool_def)

lemma max_order_0_4: "max_order 0 4 = 2"
  by (simp add: max_order_def max_order_for_length_def max_order_for_index_def
      max_order_for_length_loop.simps max_order_for_index_loop.simps)

lemma add_abs_0_4: "add_abs 0 4 (\<lambda>_. []) = (\<lambda>_. [])(2 := [0])"
  by (simp add: add_abs.simps max_order_0_4)

lemma four_pages_inv: "pool_inv four_pages ((\<lambda>_. [])(2 := [0])) {}"
  and pcount_four_pages [simp]: "pcount four_pages = 4"
  and add_four_pages: "add_pages_to_pool 0 4 (init_pool small_pool) = Inr four_pages"
proof -
  have "{0..<4} \<inter> pages_of (free_blocks (\<lambda>_. []) \<union> {}) = {}"
    by (simp add: free_blocks_def)
  then obtain p where "add_to_pool 0 4 (init_pool small_pool) = Inr p"
    "pool_inv p (add_abs 0 4 (\<lambda>_. [])) {}" "pcount p = 4"
    using pool_inv_add [OF pool_inv_init, of 4 small_pool 0] by auto
  then show "pool_inv four_pages ((\<lambda>_. [])(2 := [0])) {}" and "pcount four_pages = 4"
    and "add_pages_to_pool 0 4 (init_pool small_pool) = Inr four_pages"
    by (simp_all add: four_pages_def add_pages_to_pool_def add_abs_0_4)
qed

section \<open>Properties of allocation\<close>

text \<open>C1. \<^verbatim>\<open>page_allocate\<close>, on every branch. For an order up to 16 it returns \<^verbatim>\<open>NULL\<close> and changes
  nothing exactly when no free block of that or a larger order exists. Otherwise it returns a
  block of the requested order that is aligned to its size, lies inside the page array and was
  free before; the block leaves the free pages and joins the allocated blocks, and all blocks
  stay aligned and pairwise disjoint (\<open>pool_inv\<close>).\<close>

theorem page_allocate_correct:
  assumes "pool_inv p F A" and "order \<le> 16"
  shows "if \<forall>k. order \<le> k \<and> k < 16 \<longrightarrow> F k = []
         then page_allocate order p = Inr (None, p)
         else \<exists>i p' F'. page_allocate order p = Inr (Some i, p') \<and>
                pool_inv p' F' (insert (i, order) A) \<and> (i, order) \<notin> A \<and>
                2 ^ order dvd i \<and> i + 2 ^ order \<le> pcount p \<and>
                span (i, order) \<subseteq> free_set F \<and> free_set F' = free_set F - span (i, order)"
proof (cases "first_order order F")
  case None
  then show ?thesis
    using buddy_allocate_None [OF assms None] first_order_None [of order F]
    by (simp add: page_allocate_def)
next
  case (Some l)
  obtain i p' F' where run: "page_allocate order p = Inr (Some i, p')" "pool_inv p' F' (insert (i, order) A)"
    "free_set F' = free_set F - span (i, order)" "span (i, order) \<subseteq> free_set F" "(i, order) \<notin> A"
    "pcount p' = pcount p"
    using pool_inv_alloc [OF assms(1) Some] unfolding page_allocate_def free_set_def by blast
  have "block_ok (pcount p') (i, order)"
    using run(2) by (auto simp: pool_inv_def blocks_ok_def)
  then have "2 ^ order dvd i \<and> i + 2 ^ order \<le> pcount p" using run(6) by (simp add: block_ok_def)
  moreover have "\<not> (\<forall>k. order \<le> k \<and> k < 16 \<longrightarrow> F k = [])"
    using Some first_order_None [of order F] by auto
  ultimately show ?thesis using run by (subst if_not_P) auto
qed

theorem page_allocate_correct_witness:
  "\<exists>i p'. page_allocate 1 four_pages = Inr (Some i, p') \<and> 2 dvd i \<and> i + 2 \<le> 4"
proof -
  have "\<not> (\<forall>k::nat. 1 \<le> k \<and> k < 16 \<longrightarrow> ((\<lambda>_. [])(2 := [0::nat])) k = [])"
    by (intro notI) (drule spec [of _ 2], simp)
  from page_allocate_correct [OF four_pages_inv, of 1, unfolded if_not_P [OF this]]
  obtain i p' where "page_allocate 1 four_pages = Inr (Some i, p')" "2 ^ 1 dvd i" "i + 2 ^ 1 \<le> pcount four_pages"
    by (auto simp del: power_one_right)
  then show ?thesis by simp
qed



text \<open>C32. Filling the pool: \<^verbatim>\<open>add_pages_to_pool(from, to)\<close> cuts the range into aligned blocks of
  at most order 15 and links each into the list of its order. Exactly the pages of the range
  become free, and no allocated block is touched.\<close>

theorem add_pages_to_pool_correct:
  assumes "pool_inv p F A" and "to \<le> pcount p"
    and "{from..<to} \<inter> (free_set F \<union> pages_of A) = {}"
  shows "\<exists>p'. add_pages_to_pool from to p = Inr p' \<and> pool_inv p' (add_abs from to F) A \<and>
           free_set (add_abs from to F) = free_set F \<union> {from..<to} \<and> porder p' = porder p"
  using pool_inv_add [OF assms(1,2), of "from"] assms(3)
  by (auto simp: add_pages_to_pool_def free_set_def)

theorem add_pages_to_pool_correct_witness:
  "\<exists>p'. add_pages_to_pool 1 4 (init_pool small_pool) = Inr p' \<and>
        free_set (add_abs 1 4 (\<lambda>_. [])) = {1..<4}"
  using add_pages_to_pool_correct [OF pool_inv_init, of 4 small_pool 1]
  by (auto simp: free_set_def free_blocks_def)

section \<open>Properties of freeing\<close>

text \<open>C15. \<^verbatim>\<open>page_free\<close> of an allocated block gives exactly its pages back, merged with its
  buddies, and keeps every other block allocated and disjoint, provided the merges are genuine:
  every buddy that it merges with is in the free list of its own order.\<close>

theorem page_free_correct:
  assumes "pool_inv p F A" and "(i, k) \<in> A" and "genuine (pcount p) F i k"
  shows "\<exists>p'. page_free i p = Inr p' \<and> pool_inv p' (free_abs (pcount p) i k F) (A - {(i, k)}) \<and>
           free_set (free_abs (pcount p) i k F) = free_set F \<union> span (i, k)"
  using pool_inv_free [OF assms] unfolding free_set_def by blast

text \<open>The run that the proviso excludes: four free pages, all allocated singly, then pages 2, 0
  and 1 freed in this order.\<close>

definition false_buddy_run :: "pool result" where
  "false_buddy_run =
     bindE (page_allocate 0 four_pages) (\<lambda>(_, p).
     bindE (page_allocate 0 p) (\<lambda>(_, p).
     bindE (page_allocate 0 p) (\<lambda>(_, p).
     bindE (page_allocate 0 p) (\<lambda>(r, p).
     bindE (page_free 2 p) (\<lambda>p.
     bindE (page_free 0 p) (\<lambda>p.
     page_free 1 p))))))"


text \<open>Each step of the run, on the abstract lists.\<close>

lemma first_order_here: "k < 16 \<Longrightarrow> F k \<noteq> [] \<Longrightarrow> first_order k F = Some k"
  by (simp add: first_order_def upt_conv_Cons)

lemma first_order_next: "k < 16 \<Longrightarrow> F k = [] \<Longrightarrow> first_order k F = first_order (Suc k) F"
  by (simp add: first_order_def upt_conv_Cons)

lemma alloc_abs_1: "alloc_abs 0 ((\<lambda>_. [])(2 := [0])) = (Some 0, (\<lambda>_. [])(0 := [1], 1 := [2]))"
proof -
  have "first_order 0 ((\<lambda>_. [])(2 := [0])) = Some 2"
    by (simp add: first_order_next first_order_here numeral_2_eq_2)
  moreover have "split_abs 0 2 ((\<lambda>_. [])(2 := [0])) = (\<lambda>_. [])(0 := [0, 1], 1 := [2])"
    by (simp add: numeral_2_eq_2 split_once_def fun_eq_iff)
  ultimately show ?thesis by (simp add: alloc_abs_def fun_eq_iff)
qed

lemma alloc_abs_2: "alloc_abs 0 ((\<lambda>_. [])(0 := [1], 1 := [2])) = (Some 1, (\<lambda>_. [])(1 := [2]))"
  by (simp add: alloc_abs_def first_order_here fun_eq_iff)

lemma alloc_abs_3: "alloc_abs 0 ((\<lambda>_. [])(1 := [2])) = (Some 2, (\<lambda>_. [])(0 := [3]))"
proof -
  have "first_order 0 ((\<lambda>_. [])(1 := [2])) = Some 1"
    by (simp add: first_order_next first_order_here)
  moreover have "split_abs 0 1 ((\<lambda>_. [])(1 := [2])) = (\<lambda>_. [])(0 := [2, 3])"
    using split_abs_Suc [of 0 0 "(\<lambda>_. [])(1 := [2])"] by (simp add: split_once_def fun_eq_iff)
  ultimately show ?thesis by (simp add: alloc_abs_def fun_eq_iff)
qed

lemma alloc_abs_4: "alloc_abs 0 ((\<lambda>_. [])(0 := [3])) = (Some 3, (\<lambda>_. []))"
  by (simp add: alloc_abs_def first_order_here fun_eq_iff)

lemma small_bits:
  "(2::nat) XOR 1 = 3" "(0::nat) XOR 1 = 1" "(1::nat) XOR 1 = 0" "(0::nat) XOR 2 = 2" "(0::nat) XOR 4 = 4"
  "unset_bit 0 (1::nat) = 0" "unset_bit 1 (0::nat) = 0"
  by (simp_all add: unset_bit_nat bit_0 del: One_nat_def)

lemma coalesce_2: "coalesce_abs 4 2 0 (\<lambda>_. []) = (2, 0, \<lambda>_. [])"
  by (rule coalesce_abs_stop) (simp add: linked_def)

lemma coalesce_0: "coalesce_abs 4 0 0 ((\<lambda>_. [])(0 := [2])) = (0, 0, (\<lambda>_. [])(0 := [2]))"
  by (rule coalesce_abs_stop) (simp add: linked_def)

lemma unlink_small:
  "unlink 0 ((\<lambda>_. [])(0 := [2, 0])) = (\<lambda>_. [])(0 := [2::nat])"
  "unlink 2 ((\<lambda>_. [])(0 := [2])) = (\<lambda>_. [] :: nat list)"
  by (simp_all add: unlink_def fun_eq_iff)

lemma coalesce_1: "coalesce_abs 4 1 0 ((\<lambda>_. [])(0 := [2, 0])) = (0, 2, \<lambda>_. [])"
proof -
  have "coalesce_abs 4 1 0 ((\<lambda>_. [])(0 := [2, 0])) = coalesce_abs 4 0 1 ((\<lambda>_. [])(0 := [2]))"
    by (subst coalesce_abs_step) (simp_all add: linked_def small_bits unlink_small power_0 One_nat_def [symmetric] del: One_nat_def)
  also have "\<dots> = coalesce_abs 4 0 2 (\<lambda>_. [])"
    by (subst coalesce_abs_step) (simp_all add: linked_def small_bits unlink_small numeral_2_eq_2 [symmetric])
  also have "\<dots> = (0, 2, \<lambda>_. [])"
    by (rule coalesce_abs_stop) (simp add: linked_def)
  finally show ?thesis .
qed

lemma split_abs_same: "split_abs k k F = F"
  by (cases k) auto

lemma alloc_step:
  assumes "pool_inv p F A" and "alloc_abs 0 F = (Some i, G)" and "pcount p = 4"
  shows "\<exists>p'. page_allocate 0 p = Inr (Some i, p') \<and> pool_inv p' G (insert (i, 0) A) \<and> pcount p' = 4"
proof -
  obtain k where k: "first_order 0 F = Some k"
    using assms(2) by (cases "first_order 0 F") (auto simp: alloc_abs_def)
  show ?thesis
    using pool_inv_alloc [OF assms(1) k] assms(2,3) by (auto simp: page_allocate_def)
qed

lemma free_step:
  assumes "flinks (plinks p) 4 F" and "pcount p = 4" and "i < 4" and "porder p i = 0"
    and "coalesce_abs 4 i 0 F = (j, l, F')" and "\<not> linked F' j" and "j < 4" and "l < 16"
  shows "\<exists>q. page_free i p = Inr q \<and> flinks (plinks q) 4 (F'(l := F' l @ [j])) \<and>
             pcount q = 4 \<and> porder q = (porder p)(j := -1)"
  using page_free_refines [of p F i 0 j l F'] assms by (auto simp: free_abs_def)

text \<open>C16. Without that proviso \<^verbatim>\<open>page_free\<close> breaks the allocator. Starting from four free pages,
  allocate all four singly, then free pages 2, 0 and 1: the last free merges pages 0 and 1, takes
  page 2, which is free alone, for the other half of a block of order 2, and links the block of
  pages 0 to 3 as free. Page 3 is still allocated, and the next request for four pages gets it
  again.\<close>

theorem page_free_false_buddy:
  "\<exists>p q. false_buddy_run = Inr p \<and> porder p 3 = 0 \<and> page_allocate 2 p = Inr (Some 0, q)"
proof -
  obtain p1 where p1: "page_allocate 0 four_pages = Inr (Some 0, p1)"
    "pool_inv p1 ((\<lambda>_. [])(0 := [1], 1 := [2])) {(0, 0)}" "pcount p1 = 4"
    using alloc_step [OF four_pages_inv alloc_abs_1] by auto
  obtain p2 where p2: "page_allocate 0 p1 = Inr (Some 1, p2)"
    "pool_inv p2 ((\<lambda>_. [])(1 := [2])) {(1, 0), (0, 0)}" "pcount p2 = 4"
    using alloc_step [OF p1(2) alloc_abs_2 p1(3)] by auto
  obtain p3 where p3: "page_allocate 0 p2 = Inr (Some 2, p3)"
    "pool_inv p3 ((\<lambda>_. [])(0 := [3])) {(2, 0), (1, 0), (0, 0)}" "pcount p3 = 4"
    using alloc_step [OF p2(2) alloc_abs_3 p2(3)] by auto
  obtain p4 where p4: "page_allocate 0 p3 = Inr (Some 3, p4)"
    "pool_inv p4 (\<lambda>_. []) {(3, 0), (2, 0), (1, 0), (0, 0)}" "pcount p4 = 4"
    using alloc_step [OF p3(2) alloc_abs_4 p3(3)] by auto
  have fl4: "flinks (plinks p4) 4 (\<lambda>_. [])" and o4: "porder p4 0 = 0" "porder p4 1 = 0" "porder p4 2 = 0" "porder p4 3 = 0"
    using p4(2,3) by (simp_all add: pool_inv_def)
  obtain p5 where p5: "page_free 2 p4 = Inr p5" "flinks (plinks p5) 4 ((\<lambda>_. [])(0 := [2]))" "pcount p5 = 4"
    "porder p5 = (porder p4)(2 := -1)"
    using free_step [OF fl4 p4(3) _ o4(3) coalesce_2] by (auto simp: linked_def)
  obtain p6 where p6: "page_free 0 p5 = Inr p6" "flinks (plinks p6) 4 ((\<lambda>_. [])(0 := [2, 0]))" "pcount p6 = 4"
    "porder p6 = (porder p5)(0 := -1)"
    using free_step [OF p5(2,3) _ _ coalesce_0] p5(4) o4 by (auto simp: linked_def)
  obtain p7 where p7: "page_free 1 p6 = Inr p7" "flinks (plinks p7) 4 ((\<lambda>_. [])(2 := [0]))" "pcount p7 = 4"
    "porder p7 = (porder p6)(0 := -1)"
    using free_step [OF p6(2,3) _ _ coalesce_1] p6(4) p5(4) o4 by (auto simp: linked_def)
  have "false_buddy_run = Inr p7"
    by (simp add: false_buddy_run_def p1 p2 p3 p4 p5 p6 p7 del: One_nat_def)
  moreover have "porder p7 3 = 0" using p7(4) p6(4) p5(4) o4 by simp
  moreover have "pool_inv p7 ((\<lambda>_. [])(2 := [0])) {}"
    using four_pages_inv p7(2,3) by (simp add: pool_inv_def)
  then have "\<exists>q. page_allocate 2 p7 = Inr (Some 0, q)"
    using pool_inv_alloc [of p7 "(\<lambda>_. [])(2 := [0])" "{}" 2 2]
    by (auto simp: page_allocate_def first_order_here alloc_abs_def split_abs_same)
  ultimately show ?thesis by blast
qed

text \<open>A free that is genuine and merges twice: page 0 of four, when page 1 is free and page 2 heads a
  free block of two pages.\<close>

lemma genuine_0: "genuine 4 ((\<lambda>_. [])(0 := [1], 1 := [2])) 0 0"
proof -
  have "unlink 1 ((\<lambda>_. [])(0 := [1], 1 := [2])) = (\<lambda>_. [])(1 := [2 :: nat])"
    by (simp add: unlink_def fun_eq_iff)
  moreover have "unlink 2 ((\<lambda>_. [])(Suc 0 := [2])) = (\<lambda>_. [] :: nat list)"
    by (simp add: unlink_def fun_eq_iff)
  moreover have "linked ((\<lambda>_. [])(0 := [1], 1 := [2])) 1"
    unfolding linked_def by (rule exI [of _ 0]) simp
  moreover have "genuine 4 (\<lambda>_. []) 0 2"
    by (rule genuine_stop) (simp add: linked_def)
  moreover have "genuine 4 ((\<lambda>_. [])(1 := [2])) 0 1"
    by (subst genuine_step) (simp_all add: linked_def small_bits numeral_2_eq_2 [symmetric] calculation)
  ultimately show ?thesis
    using \<open>linked _ 1\<close> by (subst genuine_step) (simp_all add: small_bits power_0)
qed

theorem page_free_correct_witness:
  "\<exists>p p'. pool_inv p ((\<lambda>_. [])(0 := [1], 1 := [2])) {(0, 0)} \<and> page_free 0 p = Inr p' \<and>
      free_set (free_abs 4 0 0 ((\<lambda>_. [])(0 := [1], 1 := [2]))) = free_set ((\<lambda>_. [])(0 := [1], 1 := [2])) \<union> {0}"
proof -
  obtain p1 where p1: "page_allocate 0 four_pages = Inr (Some 0, p1)"
    "pool_inv p1 ((\<lambda>_. [])(0 := [1], 1 := [2])) {(0, 0)}" "pcount p1 = 4"
    using alloc_step [OF four_pages_inv alloc_abs_1] by auto
  from page_free_correct [OF p1(2), of 0 0] p1 genuine_0 show ?thesis by (auto simp: span_def)
qed

end
