(* ===== verification/HashTable.thy ===== *)
theory HashTable
  imports KList
begin

text \<open>
  The hash functions of \<^verbatim>\<open>kernel/include/hash.h\<close> and \<^verbatim>\<open>kernel/lib/hash.c\<close>, and the hash
  table of \<^verbatim>\<open>kernel/include/hashtable.h\<close> and \<^verbatim>\<open>kernel/lib/hashtable.c\<close>: 256 buckets, each
  the head of a list.
\<close>

section \<open>Hash functions\<close>

definition GOLDEN_RATIO_PRIME_32 :: u32 where
  "GOLDEN_RATIO_PRIME_32 = 0x9e370001"

definition hash_32 :: "u32 \<Rightarrow> u8" where
  "hash_32 val = ucast (drop_bit 24 (val * GOLDEN_RATIO_PRIME_32))"

definition FNV_32_PRIME :: u32 where
  "FNV_32_PRIME = 0x01000193"

fun hash_str_loop :: "string \<Rightarrow> u32 \<Rightarrow> u32" where
  "hash_str_loop [] h = h"
| "hash_str_loop (c # str) h = hash_str_loop str ((h XOR of_char c) * FNV_32_PRIME)"

definition hash_str :: "string \<Rightarrow> u8" where
  "hash_str str = ucast (drop_bit 24 (hash_str_loop str 0))"

section \<open>The table\<close>

datatype 'n hnode = Bucket u8 | Item 'n

definition hashtable_init :: "'n hnode links \<Rightarrow> 'n hnode links" where
  "hashtable_init h = fold (\<lambda>i. list_init (Bucket (of_nat i))) [0..<256] h"

definition hashtable_get_bucket :: "u8 \<Rightarrow> 'n hnode" where
  "hashtable_get_bucket key = Bucket key"

definition hashtable_add_by_key :: "'n \<Rightarrow> u8 \<Rightarrow> 'n hnode links \<Rightarrow> 'n hnode links" where
  "hashtable_add_by_key node key h = list_insert_before (hashtable_get_bucket key) (Item node) h"

definition hashtable_remove :: "'n \<Rightarrow> 'n hnode links \<Rightarrow> 'n hnode links" where
  "hashtable_remove node h = list_remove (Item node) h"

definition hashtable_find ::
  "'n hnode links \<Rightarrow> u8 \<Rightarrow> ('n hnode \<Rightarrow> bool) \<Rightarrow> 'n hnode option option" where
  "hashtable_find h key func = list_find h (hashtable_get_bucket key) func"

section \<open>Multiplicative hashing is balanced\<close>

lemma golden_inverse: "GOLDEN_RATIO_PRIME_32 * 0x61c90001 = 1"
  by (simp add: GOLDEN_RATIO_PRIME_32_def)

text \<open>\<^verbatim>\<open>hash_32\<close> spreads the 32-bit keys evenly: every one of the 256 hash values is taken by
  exactly 2 to the 24 keys.\<close>

theorem hash_32_balanced: "card {val. hash_32 val = key} = 2 ^ 24"
proof -
  let ?g = GOLDEN_RATIO_PRIME_32 and ?i = "0x61c90001 :: u32"
  let ?W = "{w :: u32. unat w div 2 ^ 24 = unat key}"
  have inv: "v * ?g * ?i = v" "v * ?i * ?g = v" for v
    using golden_inverse by (simp_all add: mult.assoc mult.commute [of ?i])
  have hash: "hash_32 v = key \<longleftrightarrow> v * ?g \<in> ?W" for v
  proof -
    have "unat (v * ?g) div 2 ^ 24 < 256" using unat_limit(3) [of "v * ?g"] by (simp add: div_less_iff_less_mult)
    then have "unat (hash_32 v) = unat (v * ?g) div 2 ^ 24"
      by (simp add: hash_32_def unsigned_ucast_eq take_bit_eq_mod unat_div_distrib drop_bit_eq_div)
    then show ?thesis by (simp add: word_unat_eq_iff)
  qed
  have "bij_betw (\<lambda>v. v * ?g) {v. hash_32 v = key} ?W"
    by (rule bij_betw_byWitness [where f' = "\<lambda>w. w * ?i"]) (auto simp: hash inv)
  then have "card {v. hash_32 v = key} = card ?W" by (rule bij_betw_same_card)
  also have "?W = of_nat ` {unat key * 2 ^ 24 ..< (unat key + 1) * 2 ^ 24}"
  proof (intro set_eqI iffI)
    fix w :: u32 assume "w \<in> ?W"
    then have "unat key * 2 ^ 24 \<le> unat w" "unat w < (unat key + 1) * 2 ^ 24"
      using div_mult_mod_eq [of "unat w" "2 ^ 24"] mod_less_divisor [of "2 ^ 24" "unat w"] by auto
    then have "unat w \<in> {unat key * 2 ^ 24 ..< (unat key + 1) * 2 ^ 24}" by simp
    moreover have "w = of_nat (unat w)" by simp
    ultimately show "w \<in> of_nat ` {unat key * 2 ^ 24 ..< (unat key + 1) * 2 ^ 24}" by (rule rev_image_eqI)
  next
    fix w :: u32 assume "w \<in> of_nat ` {unat key * 2 ^ 24 ..< (unat key + 1) * 2 ^ 24}"
    then obtain n where n: "w = of_nat n" "unat key * 2 ^ 24 \<le> n" "n < (unat key + 1) * 2 ^ 24" by auto
    have "(unat key + 1) * 2 ^ 24 \<le> 2 ^ 32" using unat_limit(1) [of key] by simp
    then have "unat w = n" using n by (simp add: unat_of_nat)
    moreover have "n div 2 ^ 24 = unat key"
      by (rule div_nat_eqI) (use n in \<open>simp_all only: mult.commute Suc_eq_plus1\<close>)
    ultimately show "w \<in> ?W" by simp
  qed
  also have "card \<dots> = card {unat key * 2 ^ 24 ..< (unat key + 1) * 2 ^ 24}"
  proof (rule card_image, rule inj_onI)
    fix m n assume mn: "m \<in> {unat key * 2 ^ 24 ..< (unat key + 1) * 2 ^ 24}"
      "n \<in> {unat key * 2 ^ 24 ..< (unat key + 1) * 2 ^ 24}" "(of_nat m :: u32) = of_nat n"
    have "(unat key + 1) * 2 ^ 24 \<le> 2 ^ 32" using unat_limit(1) [of key] by simp
    then have a: "unat (of_nat m :: u32) = m" and b: "unat (of_nat n :: u32) = n"
      using mn(1,2) by (simp_all add: unat_of_nat)
    show "m = n" by (rule trans [OF a [symmetric] trans [OF arg_cong [where f = unat, OF mn(3)] b]])
  qed
  also have "\<dots> = 2 ^ 24" by (simp only: card_atLeastLessThan distrib_right mult_1 add_diff_cancel_left')
  finally show ?thesis .
qed

section \<open>The table as 256 lists\<close>

definition buckets :: "(u8 \<Rightarrow> 'n list) \<Rightarrow> 'n hnode \<Rightarrow> 'n hnode list" where
  "buckets T b = (case b of Bucket k \<Rightarrow> map Item (T k) | Item _ \<Rightarrow> [])"

definition table :: "'n hnode links \<Rightarrow> (u8 \<Rightarrow> 'n list) \<Rightarrow> bool" where
  "table h T \<longleftrightarrow> family h (range Bucket) (range Item) (buckets T)"

definition items :: "(u8 \<Rightarrow> 'n list) \<Rightarrow> 'n set" where
  "items T = (\<Union>k. set (T k))"

lemma buckets_simps [simp]: "buckets T (Bucket k) = map Item (T k)" "buckets T (Item n) = []"
  by (simp_all add: buckets_def)

lemma buckets_update: "(buckets T)(Bucket k := map Item xs) = buckets (T(k := xs))"
  by (auto simp: buckets_def fun_eq_iff split: hnode.splits)

lemma members_buckets: "members (range Bucket) (buckets T) = Item ` items T"
  by (auto simp: members_def items_def)

text \<open>The first item of a bucket that satisfies the predicate.\<close>

lemma find_map_Item: "List.find f (map Item xs) = map_option Item (List.find (f \<circ> Item) xs)"
  by (induction xs) auto

lemma hashtable_find_table:
  "table h T \<Longrightarrow> hashtable_find h k f = Some (map_option Item (List.find (f \<circ> Item) (T k)))"
  using list_find_family [of h "range Bucket" "range Item" "buckets T" "Bucket k" f]
  by (simp add: table_def hashtable_find_def hashtable_get_bucket_def find_map_Item)

lemma hashtable_add_table:
  assumes "table h T" and "n \<notin> items T"
  shows "table (hashtable_add_by_key n k h) (T(k := T k @ [n]))"
proof -
  have "Item n \<notin> members (range Bucket) (buckets T)" using assms(2) by (auto simp: members_buckets)
  from kl.put_tail [OF assms(1) [unfolded table_def] rangeI rangeI this, of k]
  show ?thesis
    using buckets_update [of T k "T k @ [n]"]
    by (simp add: table_def hashtable_add_by_key_def hashtable_get_bucket_def)
qed

lemma remove1_map_Item: "remove1 (Item n) (map Item xs) = map Item (remove1 n xs)"
  by (induction xs) auto

lemma hashtable_remove_table:
  assumes "table h T" and "n \<in> set (T k)"
  shows "table (hashtable_remove n h) (T(k := remove1 n (T k)))"
proof -
  have "Item n \<in> set (buckets T (Bucket k))" using assms(2) by simp
  from kl.del [OF assms(1) [unfolded table_def] rangeI this]
  show ?thesis
    using buckets_update [of T k "remove1 n (T k)"]
    by (simp add: table_def hashtable_remove_def remove1_map_Item)
qed

lemma table_disjoint: "table h T \<Longrightarrow> n \<in> set (T k) \<Longrightarrow> n \<in> set (T l) \<Longrightarrow> k = l"
  using kl.disj [of h "range Bucket" "range Item" "buckets T" "Bucket k" "Bucket l"]
  by (auto simp: table_def)

lemma table_distinct: "table h T \<Longrightarrow> distinct (T k)"
  using kl.dist [of h "range Bucket" "range Item" "buckets T" "Bucket k"]
  by (simp add: table_def distinct_map)

lemma hashtable_init_table:
  fixes h :: "'n hnode links"
  assumes "\<forall>n. prv h (Item n) = Item n \<and> nxt h (Item n) = Item n"
  shows "table (hashtable_init h) (\<lambda>_. [])"
proof -
  let ?f = "\<lambda>i. Bucket (of_nat i) :: 'n hnode"
  have img: "?f ` set [0..<256] = range Bucket"
  proof (intro equalityI subsetI)
    fix b :: "'n hnode" assume "b \<in> range Bucket"
    then obtain k where k: "b = Bucket k" by auto
    then have "b = ?f (unat k)" "unat k \<in> set [0..<256]" using unat_limit(1) [of k] by simp_all
    then show "b \<in> ?f ` set [0..<256]" by blast
  qed auto
  have "prv (hashtable_init h) b = b \<and> nxt (hashtable_init h) b = b" for b
    using fold_list_init [of ?f "[0..<256]" h] img assms
    by (cases b) (auto simp: hashtable_init_def)
  then show ?thesis by (auto simp: table_def family_def ring_Nil members_buckets items_def)
qed

section \<open>Dictionaries\<close>

text \<open>
  What the users of the table rely on: each item has a key, \<open>find s\<close> gives the item with key
  \<open>s\<close>. The laws are those of a finite map.
\<close>

locale dictionary =
  fixes valid :: "'t \<Rightarrow> 'i set \<Rightarrow> bool"
    and key :: "'i \<Rightarrow> 's"
    and insert_item :: "'i \<Rightarrow> 't \<Rightarrow> 't"
    and remove_item :: "'i \<Rightarrow> 't \<Rightarrow> 't"
    and lookup :: "'t \<Rightarrow> 's \<Rightarrow> 'i option"
  assumes lookup: "valid t I \<Longrightarrow> lookup t s = Some i \<longleftrightarrow> i \<in> I \<and> key i = s"
    and insert_valid: "valid t I \<Longrightarrow> key i \<notin> key ` I \<Longrightarrow> valid (insert_item i t) (insert i I)"
    and remove_valid: "valid t I \<Longrightarrow> i \<in> I \<Longrightarrow> valid (remove_item i t) (I - {i})"
begin

lemma lookup_None: "valid t I \<Longrightarrow> lookup t s = None \<longleftrightarrow> s \<notin> key ` I"
  using lookup [of t I s] by (metis image_iff not_Some_eq)

lemma keys_distinct: "valid t I \<Longrightarrow> i \<in> I \<Longrightarrow> j \<in> I \<Longrightarrow> key i = key j \<Longrightarrow> i = j"
  using lookup [of t I "key i"] by (metis option.inject)

lemma lookup_insert:
  assumes "valid t I" and "key i \<notin> key ` I"
  shows "lookup (insert_item i t) s = (if s = key i then Some i else lookup t s)"
proof -
  have new: "\<forall>j\<in>I. key j \<noteq> key i" using assms(2) by (metis imageI)
  have "lookup (insert_item i t) s = Some j \<longleftrightarrow> (if s = key i then Some i else lookup t s) = Some j" for j
    using lookup [OF insert_valid [OF assms], of s j] lookup [OF assms(1), of s j] new by auto
  then show ?thesis by (metis not_Some_eq)
qed

lemma lookup_remove:
  assumes "valid t I" and "i \<in> I"
  shows "lookup (remove_item i t) s = (if s = key i then None else lookup t s)"
proof -
  have "lookup (remove_item i t) s = Some j \<longleftrightarrow> (if s = key i then None else lookup t s) = Some j" for j
    using lookup [OF remove_valid [OF assms], of s j] lookup [OF assms(1), of s j]
      keys_distinct [OF assms(1), of i j] assms(2) by auto
  then show ?thesis by (metis not_Some_eq)
qed

end

text \<open>The table with string keys, each item in the bucket of its key's hash.\<close>

definition str_table :: "('n \<Rightarrow> string) \<Rightarrow> 'n hnode links \<Rightarrow> 'n set \<Rightarrow> bool" where
  "str_table name h I \<longleftrightarrow>
     (\<exists>T. table h T \<and> items T = I \<and> inj_on name I \<and> (\<forall>k. \<forall>n\<in>set (T k). hash_str (name n) = k))"

definition str_insert :: "('n \<Rightarrow> string) \<Rightarrow> 'n \<Rightarrow> 'n hnode links \<Rightarrow> 'n hnode links" where
  "str_insert name n h = hashtable_add_by_key n (hash_str (name n)) h"

fun item_named :: "('n \<Rightarrow> string) \<Rightarrow> string \<Rightarrow> 'n hnode \<Rightarrow> bool" where
  "item_named name s (Item n) = (name n = s)"
| "item_named name s (Bucket _) = False"

fun item_of :: "'n hnode option option \<Rightarrow> 'n option" where
  "item_of (Some (Some (Item n))) = Some n"
| "item_of _ = None"

definition str_find :: "('n \<Rightarrow> string) \<Rightarrow> 'n hnode links \<Rightarrow> string \<Rightarrow> 'n option" where
  "str_find name h s = item_of (hashtable_find h (hash_str s) (item_named name s))"

lemma str_find_table:
  "table h T \<Longrightarrow> str_find name h s = List.find (\<lambda>n. name n = s) (T (hash_str s))"
  by (cases "List.find (\<lambda>n. name n = s) (T (hash_str s))")
    (simp_all add: str_find_def hashtable_find_table comp_def)

interpretation sd: dictionary "str_table name" name "str_insert name" hashtable_remove "str_find name"
  for name :: "'n \<Rightarrow> string"
proof (unfold_locales, goal_cases)
  case (1 t I s i)
  then obtain T where T: "table t T" "items T = I" "inj_on name I" "\<forall>k. \<forall>n\<in>set (T k). hash_str (name n) = k"
    by (auto simp: str_table_def)
  show ?case
  proof
    assume "str_find name t s = Some i"
    then have "i \<in> set (T (hash_str s))" "name i = s"
      using str_find_table [OF T(1)] by (auto simp: find_Some_iff in_set_conv_nth)
    then show "i \<in> I \<and> name i = s" using T(2) by (auto simp: items_def)
  next
    assume i: "i \<in> I \<and> name i = s"
    then have mem: "i \<in> set (T (hash_str s))" using T(2,4) by (auto simp: items_def)
    then obtain j where j: "List.find (\<lambda>n. name n = s) (T (hash_str s)) = Some j"
      using i by (cases "List.find (\<lambda>n. name n = s) (T (hash_str s))") (auto simp: find_None_iff)
    then have "j \<in> set (T (hash_str s))" "name j = s" by (auto simp: find_Some_iff in_set_conv_nth)
    then have "j \<in> I" "name j = s" using T(2) by (auto simp: items_def)
    then have "j = i" using i T(3) by (auto dest: inj_onD)
    then show "str_find name t s = Some i" using j str_find_table [OF T(1)] by simp
  qed
next
  case (2 t I i)
  then obtain T where T: "table t T" "items T = I" "inj_on name I" "\<forall>k. \<forall>n\<in>set (T k). hash_str (name n) = k"
    by (auto simp: str_table_def)
  let ?k = "hash_str (name i)"
  have "i \<notin> items T" using 2(2) T(2) by auto
  from hashtable_add_table [OF T(1) this, of ?k] have "table (str_insert name i t) (T(?k := T ?k @ [i]))"
    by (simp add: str_insert_def)
  moreover have "items (T(?k := T ?k @ [i])) = insert i I"
    using T(2) by (auto simp: items_def split: if_splits)
  moreover have "inj_on name (insert i I)" using T(3) 2(2) unfolding inj_on_insert by blast
  moreover have "\<forall>k. \<forall>n\<in>set ((T(?k := T ?k @ [i])) k). hash_str (name n) = k"
  proof (intro allI ballI)
    fix k n assume "n \<in> set ((T(?k := T ?k @ [i])) k)"
    then have "n \<in> set (T k) \<or> n = i \<and> k = ?k" by (cases "k = ?k") auto
    then show "hash_str (name n) = k" using T(4) by blast
  qed
  ultimately show ?case unfolding str_table_def by blast
next
  case (3 t I i)
  then obtain T where T: "table t T" "items T = I" "inj_on name I" "\<forall>k. \<forall>n\<in>set (T k). hash_str (name n) = k"
    by (auto simp: str_table_def)
  let ?k = "hash_str (name i)"
  have mem: "i \<in> set (T ?k)" using 3(2) T(2,4) by (auto simp: items_def)
  have "set (remove1 i (T ?k)) = set (T ?k) - {i}" using table_distinct [OF T(1)] by simp
  then have "items (T(?k := remove1 i (T ?k))) = I - {i}"
    using T(2) table_disjoint [OF T(1) mem] by (auto simp: items_def split: if_splits)
  moreover have "inj_on name (I - {i})" using T(3) by (auto simp: inj_on_def)
  moreover have "\<forall>k. \<forall>n\<in>set ((T(?k := remove1 i (T ?k))) k). hash_str (name n) = k"
  proof (intro allI ballI)
    fix k n assume "n \<in> set ((T(?k := remove1 i (T ?k))) k)"
    then have "n \<in> set (T k)" by (cases "k = ?k") (auto dest: in_set_remove1 [THEN iffD1, rotated] set_remove1_subset [THEN subsetD])
    then show "hash_str (name n) = k" using T(4) by blast
  qed
  ultimately show ?case
    using hashtable_remove_table [OF T(1) mem] unfolding str_table_def by blast
qed

text \<open>C28. The hash table with \<^verbatim>\<open>hash_str\<close> keys is a finite map: after adding an item under a new
  key that key finds it and every other key finds what it found before; after removing an item
  its key finds nothing and the others are as before.\<close>

theorem hashtable_insert_lookup:
  assumes "str_table name h I"
  shows "(name n \<notin> name ` I \<longrightarrow> str_table name (str_insert name n h) (insert n I) \<and>
           str_find name (str_insert name n h) s = (if s = name n then Some n else str_find name h s)) \<and>
         (n \<in> I \<longrightarrow> str_table name (hashtable_remove n h) (I - {n}) \<and>
           str_find name (hashtable_remove n h) s = (if s = name n then None else str_find name h s))"
  using sd.lookup_insert [OF assms] sd.lookup_remove [OF assms] sd.insert_valid [OF assms]
    sd.remove_valid [OF assms] by blast

theorem hashtable_insert_lookup_witness:
  "str_find (\<lambda>n::nat. ''a'') (str_insert (\<lambda>n. ''a'') 3 (hashtable_init \<lparr>prv = (\<lambda>n. n), nxt = (\<lambda>n. n)\<rparr>)) ''a'' = Some 3"
proof -
  have "str_table (\<lambda>n::nat. ''a'') (hashtable_init \<lparr>prv = (\<lambda>n. n), nxt = (\<lambda>n. n)\<rparr>) {}"
    using hashtable_init_table [of "\<lparr>prv = (\<lambda>n. n), nxt = (\<lambda>n. n)\<rparr>"]
    unfolding str_table_def by (intro exI [of _ "\<lambda>_. []"]) (simp add: items_def)
  from hashtable_insert_lookup [OF this, of 3 "''a''"] show ?thesis by simp
qed

end
