(* ===== verification/CType.thy ===== *)
theory CType
  imports Prelude
begin

text \<open>
  Character classes: \<^verbatim>\<open>kernel/include/ctype.h\<close> and the table of \<^verbatim>\<open>kernel/libc/ctype.c\<close>. A
  character is a C \<^verbatim>\<open>int\<close>, here an \<open>int\<close>.
\<close>

definition CT_U :: u8 where "CT_U = 0x01"
definition CT_L :: u8 where "CT_L = 0x02"
definition CT_N :: u8 where "CT_N = 0x04"
definition CT_S :: u8 where "CT_S = 0x08"
definition CT_P :: u8 where "CT_P = 0x10"
definition CT_C :: u8 where "CT_C = 0x20"
definition CT_X :: u8 where "CT_X = 0x40"
definition CT_B :: u8 where "CT_B = 0x80"

lemmas ctype_flags = CT_U_def CT_L_def CT_N_def CT_S_def CT_P_def CT_C_def CT_X_def CT_B_def

definition ctype_table :: "u8 list" where
  "ctype_table =
    [CT_C, CT_C, CT_C, CT_C, CT_C, CT_C, CT_C, CT_C,
     CT_C, CT_C OR CT_S OR CT_B, CT_C OR CT_S, CT_C OR CT_S, CT_C OR CT_S, CT_C OR CT_S, CT_C, CT_C,
     CT_C, CT_C, CT_C, CT_C, CT_C, CT_C, CT_C, CT_C,
     CT_C, CT_C, CT_C, CT_C, CT_C, CT_C, CT_C, CT_C,
     CT_S OR CT_B, CT_P, CT_P, CT_P, CT_P, CT_P, CT_P, CT_P,
     CT_P, CT_P, CT_P, CT_P, CT_P, CT_P, CT_P, CT_P,
     CT_N, CT_N, CT_N, CT_N, CT_N, CT_N, CT_N, CT_N,
     CT_N, CT_N, CT_P, CT_P, CT_P, CT_P, CT_P, CT_P,
     CT_P, CT_U OR CT_X, CT_U OR CT_X, CT_U OR CT_X, CT_U OR CT_X, CT_U OR CT_X, CT_U OR CT_X, CT_U,
     CT_U, CT_U, CT_U, CT_U, CT_U, CT_U, CT_U, CT_U,
     CT_U, CT_U, CT_U, CT_U, CT_U, CT_U, CT_U, CT_U,
     CT_U, CT_U, CT_U, CT_P, CT_P, CT_P, CT_P, CT_P,
     CT_P, CT_L OR CT_X, CT_L OR CT_X, CT_L OR CT_X, CT_L OR CT_X, CT_L OR CT_X, CT_L OR CT_X, CT_L,
     CT_L, CT_L, CT_L, CT_L, CT_L, CT_L, CT_L, CT_L,
     CT_L, CT_L, CT_L, CT_L, CT_L, CT_L, CT_L, CT_L,
     CT_L, CT_L, CT_L, CT_P, CT_P, CT_P, CT_P, CT_C]"

definition ctype_lookup :: "int \<Rightarrow> u8" where
  "ctype_lookup c = (if 0 \<le> c \<and> c < 128 then ctype_table ! nat c else 0)"

text \<open>The functions return the flags that are set; C takes any non-zero value for true.\<close>

definition ctype_func :: "u8 \<Rightarrow> int \<Rightarrow> u8" where
  "ctype_func flags c = ctype_lookup c AND flags"

definition isalpha :: "int \<Rightarrow> u8" where "isalpha = ctype_func (CT_U OR CT_L)"
definition isupper :: "int \<Rightarrow> u8" where "isupper = ctype_func CT_U"
definition islower :: "int \<Rightarrow> u8" where "islower = ctype_func CT_L"
definition isdigit :: "int \<Rightarrow> u8" where "isdigit = ctype_func CT_N"
definition isxdigit :: "int \<Rightarrow> u8" where "isxdigit = ctype_func (CT_X OR CT_N)"
definition isspace :: "int \<Rightarrow> u8" where "isspace = ctype_func CT_S"
definition ispunct :: "int \<Rightarrow> u8" where "ispunct = ctype_func CT_P"
definition isalnum :: "int \<Rightarrow> u8" where "isalnum = ctype_func (CT_U OR CT_L OR CT_N)"
definition isprint :: "int \<Rightarrow> u8" where "isprint = ctype_func (CT_P OR CT_U OR CT_L OR CT_N OR CT_B)"
definition isgraph :: "int \<Rightarrow> u8" where "isgraph = ctype_func (CT_P OR CT_U OR CT_L OR CT_N)"
definition iscntrl :: "int \<Rightarrow> u8" where "iscntrl = ctype_func CT_C"
definition isblank :: "int \<Rightarrow> u8" where "isblank = ctype_func CT_B"

definition toupper :: "int \<Rightarrow> int" where
  "toupper c = (if isupper c \<noteq> 0 then c - 65 + 97 else c)"

definition tolower :: "int \<Rightarrow> int" where
  "tolower c = (if islower c \<noteq> 0 then c - 97 + 65 else c)"

lemmas ctype_defs = isalpha_def isupper_def islower_def isdigit_def isxdigit_def isspace_def
  ispunct_def isalnum_def isprint_def isgraph_def iscntrl_def isblank_def

section \<open>The classes as ranges\<close>

text \<open>A claim about every character is checked on the 128 entries of the table.\<close>

lemma ctype_all:
  assumes "list_all2 (\<lambda>c e. (e AND flags \<noteq> 0) = P c) [0..127] ctype_table"
    and "\<And>c. P c \<Longrightarrow> 0 \<le> c \<and> c < 128"
  shows "ctype_func flags c \<noteq> 0 \<longleftrightarrow> P c"
proof (cases "0 \<le> c \<and> c < 128")
  case True
  then have "nat c < length [0..127]" "[0..127] ! nat c = c" by (simp_all add: nat_less_iff)
  then have "(ctype_table ! nat c AND flags \<noteq> 0) = P c" using list_all2_nthD [OF assms(1)] by metis
  then show ?thesis using True by (simp add: ctype_func_def ctype_lookup_def)
next
  case False
  then show ?thesis using assms(2) [of c] by (auto simp: ctype_func_def ctype_lookup_def)
qed

text \<open>The table classifies every character, negative ones and those above 127 included, as
  ASCII has it: letters, digits, hexadecimal digits, white space, control characters and visible
  characters are exactly their ranges of codes.\<close>

theorem ctype_classes:
  "(isupper c \<noteq> 0 \<longleftrightarrow> 65 \<le> c \<and> c \<le> 90) \<and>
   (islower c \<noteq> 0 \<longleftrightarrow> 97 \<le> c \<and> c \<le> 122) \<and>
   (isdigit c \<noteq> 0 \<longleftrightarrow> 48 \<le> c \<and> c \<le> 57) \<and>
   (isxdigit c \<noteq> 0 \<longleftrightarrow> 48 \<le> c \<and> c \<le> 57 \<or> 65 \<le> c \<and> c \<le> 70 \<or> 97 \<le> c \<and> c \<le> 102) \<and>
   (isspace c \<noteq> 0 \<longleftrightarrow> 9 \<le> c \<and> c \<le> 13 \<or> c = 32) \<and>
   (isblank c \<noteq> 0 \<longleftrightarrow> c = 9 \<or> c = 32) \<and>
   (iscntrl c \<noteq> 0 \<longleftrightarrow> 0 \<le> c \<and> c < 32 \<or> c = 127) \<and>
   (isgraph c \<noteq> 0 \<longleftrightarrow> 33 \<le> c \<and> c \<le> 126) \<and>
   (isalnum c = 0 \<longleftrightarrow> isalpha c = 0 \<and> isdigit c = 0) \<and>
   (ispunct c \<noteq> 0 \<longleftrightarrow> isgraph c \<noteq> 0 \<and> isalnum c = 0)"
proof -
  have 1: "isupper c \<noteq> 0 \<longleftrightarrow> 65 \<le> c \<and> c \<le> 90" "islower c \<noteq> 0 \<longleftrightarrow> 97 \<le> c \<and> c \<le> 122"
    "isdigit c \<noteq> 0 \<longleftrightarrow> 48 \<le> c \<and> c \<le> 57"
    "isxdigit c \<noteq> 0 \<longleftrightarrow> 48 \<le> c \<and> c \<le> 57 \<or> 65 \<le> c \<and> c \<le> 70 \<or> 97 \<le> c \<and> c \<le> 102"
    "isspace c \<noteq> 0 \<longleftrightarrow> 9 \<le> c \<and> c \<le> 13 \<or> c = 32" "isblank c \<noteq> 0 \<longleftrightarrow> c = 9 \<or> c = 32"
    "iscntrl c \<noteq> 0 \<longleftrightarrow> 0 \<le> c \<and> c < 32 \<or> c = 127" "isgraph c \<noteq> 0 \<longleftrightarrow> 33 \<le> c \<and> c \<le> 126"
    unfolding ctype_defs by (rule ctype_all, code_simp, force)+
  have "ctype_func (CT_U OR CT_L OR CT_N) c \<noteq> 0 \<longleftrightarrow> ctype_func (CT_U OR CT_L) c \<noteq> 0 \<or> ctype_func CT_N c \<noteq> 0"
    by (rule ctype_all, code_simp) (auto simp: ctype_func_def ctype_lookup_def split: if_splits)
  moreover have "ctype_func CT_P c \<noteq> 0 \<longleftrightarrow>
      ctype_func (CT_P OR CT_U OR CT_L OR CT_N) c \<noteq> 0 \<and> ctype_func (CT_U OR CT_L OR CT_N) c = 0"
    by (rule ctype_all, code_simp) (auto simp: ctype_func_def ctype_lookup_def split: if_splits)
  ultimately show ?thesis
    using 1 unfolding isalnum_def isalpha_def isdigit_def ispunct_def isgraph_def by blast
qed

text \<open>\<^verbatim>\<open>toupper\<close> and \<^verbatim>\<open>tolower\<close> are exchanged: \<^verbatim>\<open>toupper\<close> turns capital letters into small
  ones and leaves small letters alone, \<^verbatim>\<open>tolower\<close> the other way round.\<close>

theorem toupper_tolower_exchanged:
  "toupper c = (if 65 \<le> c \<and> c \<le> 90 then c + 32 else c) \<and>
   tolower c = (if 97 \<le> c \<and> c \<le> 122 then c - 32 else c)"
proof -
  have "isupper c \<noteq> 0 \<longleftrightarrow> 65 \<le> c \<and> c \<le> 90" "islower c \<noteq> 0 \<longleftrightarrow> 97 \<le> c \<and> c \<le> 122"
    unfolding ctype_defs by (rule ctype_all, code_simp, force)+
  then show ?thesis by (auto simp: toupper_def tolower_def)
qed

lemma isprint_tab: "isprint 9 \<noteq> 0"
  by code_simp

end
