(* ===== verification/FileOps.thy ===== *)
theory FileOps
  imports Prelude
begin

text \<open>
  \<^verbatim>\<open>kernel/include/file.h\<close> and \<^verbatim>\<open>kernel/lib/file.c\<close>: the operations of a file that are built
  from \<^verbatim>\<open>write_byte\<close>. A device's \<^verbatim>\<open>write_byte\<close> takes a byte and the device's state and returns
  a count, negative for an error.
\<close>

type_synonym 's write_byte = "u8 \<Rightarrow> 's \<Rightarrow> (int \<times> 's) result"

text \<open>The loop of \<^verbatim>\<open>file_default_write_buffer\<close>: \<open>r\<close> is the last result, \<open>count\<close> the count.\<close>

fun write_bytes :: "'s write_byte \<Rightarrow> u8 list \<Rightarrow> int \<Rightarrow> int \<Rightarrow> 's \<Rightarrow> (int \<times> int \<times> 's) result" where
  "write_bytes wb [] count r s = Inr (count, r, s)"
| "write_bytes wb (b # buf) count r s =
     bindE (wb b s) (\<lambda>(r, s). if 0 < r then write_bytes wb buf (count + 1) r s else Inr (count, r, s))"

definition file_default_write_buffer :: "'s write_byte \<Rightarrow> u8 list \<Rightarrow> 's \<Rightarrow> (int \<times> 's) result" where
  "file_default_write_buffer wb buf s =
     bindE (write_bytes wb buf 0 0 s) (\<lambda>(count, r, s). Inr (if 0 > r then r else count, s))"

definition file_default_write_string :: "'s write_byte \<Rightarrow> string \<Rightarrow> 's \<Rightarrow> (int \<times> 's) result" where
  "file_default_write_string wb str s = file_default_write_buffer wb (map of_char str) s"

section \<open>Devices that take every byte\<close>

text \<open>
  The contract of the kernel's two devices: \<open>ready n s\<close> says that the device can take \<open>n\<close>
  bytes from state \<open>s\<close>; then \<^verbatim>\<open>write_byte\<close> returns 1. \<open>after b s\<close> is the state it leaves.
\<close>

locale byte_device =
  fixes wb :: "'s write_byte"
    and ready :: "nat \<Rightarrow> 's \<Rightarrow> bool"
    and after :: "u8 \<Rightarrow> 's \<Rightarrow> 's"
  assumes takes: "ready (Suc n) s \<Longrightarrow> wb b s = Inr (1, after b s)"
    and stays: "ready (Suc n) s \<Longrightarrow> ready n (after b s)"
begin

lemma write_bytes_all:
  "ready (length buf + n) s \<Longrightarrow>
    write_bytes wb buf count r s =
      Inr (count + int (length buf), if buf = [] then r else 1, fold after buf s) \<and>
    ready n (fold after buf s)"
proof (induction buf arbitrary: count r s)
  case Nil
  then show ?case by simp
next
  case (Cons b buf)
  have "wb b s = Inr (1, after b s)" using Cons.prems takes by simp
  moreover have "ready (length buf + n) (after b s)" using Cons.prems stays by simp
  ultimately show ?case using Cons.IH [of "after b s" "count + 1" 1] by simp
qed

lemma write_buffer_all:
  assumes "ready (length buf + n) s"
  shows "file_default_write_buffer wb buf s = Inr (int (length buf), fold after buf s)"
    and "ready n (fold after buf s)"
  using write_bytes_all [OF assms, of 0 0] by (auto simp: file_default_write_buffer_def)

end

section \<open>Errors\<close>

text \<open>The state after the device has taken every byte with a positive result.\<close>

fun taken :: "'s write_byte \<Rightarrow> u8 list \<Rightarrow> 's \<Rightarrow> 's option" where
  "taken wb [] s = Some s"
| "taken wb (b # buf) s =
     (case wb b s of Inl _ \<Rightarrow> None | Inr (r, s) \<Rightarrow> if 0 < r then taken wb buf s else None)"

text \<open>Writing a buffer stops at the first byte the device does not take: the result is the
  device's error when it is negative, and otherwise the number of bytes taken before. With no
  such byte the result is the length of the buffer.\<close>

theorem write_buffer_stops:
  assumes "taken wb bs s = Some s1"
  shows "file_default_write_buffer wb bs s = Inr (int (length bs), s1) \<and>
         (\<forall>b e s2 rest. wb b s1 = Inr (e, s2) \<and> e \<le> 0 \<longrightarrow>
            file_default_write_buffer wb (bs @ b # rest) s = Inr (if e < 0 then e else int (length bs), s2))"
proof -
  have run: "\<exists>r'\<ge>0. write_bytes wb (bs @ buf) count r s = write_bytes wb buf (count + int (length bs)) r' s1"
    if "0 \<le> r" for buf count r
    using assms that
  proof (induction bs arbitrary: count r s)
    case Nil
    then show ?case by auto
  next
    case (Cons c cs)
    from Cons.prems(1) obtain r1 t where r1: "wb c s = Inr (r1, t)" "0 < r1" "taken wb cs t = Some s1"
      by (auto split: sum.splits prod.splits if_splits)
    show ?case using Cons.IH [OF r1(3), of r1 "count + 1"] r1(1,2) by (simp add: add.assoc)
  qed
  have "file_default_write_buffer wb bs s = Inr (int (length bs), s1)"
    using run [of 0 "[]" 0] by (auto simp: file_default_write_buffer_def simp del: bindE_eq_Inr)
  moreover have "file_default_write_buffer wb (bs @ b # rest) s = Inr (if e < 0 then e else int (length bs), s2)"
    if "wb b s1 = Inr (e, s2)" "e \<le> 0" for b e s2 rest
    using run [of 0 "b # rest" 0] that by (auto simp: file_default_write_buffer_def)
  ultimately show ?thesis by blast
qed

theorem write_buffer_stops_witness:
  "file_default_write_buffer (\<lambda>b n :: nat. Inr (if n < 2 then 1 else - 5, n + 1)) [7, 8, 9, 10] 0 = Inr (- 5, 3)"
proof -
  let ?wb = "\<lambda>(b :: u8) n :: nat. Inr (if n < 2 then 1 else - 5 :: int, n + 1)"
  have "taken ?wb [7, 8] 0 = Some 2" by simp
  from write_buffer_stops [OF this, THEN conjunct2, rule_format, where b = 9 and e = "- 5" and ?s2.0 = 3 and rest = "[10]"]
  show ?thesis by simp
qed

end
