(* ===== verification/Vga.thy ===== *)
theory Vga
  imports FileOps
begin

text \<open>
  \<^verbatim>\<open>kernel/drivers/vga.c\<close>: the text console. \<open>cells\<close> is the text memory, \<open>vga_io\<close> the port
  writes that move the hardware cursor.
\<close>

definition VGA_ROWS :: nat where "VGA_ROWS = 25"
definition VGA_COLUMNS :: nat where "VGA_COLUMNS = 80"
definition VGA_CELLS :: nat where "VGA_CELLS = VGA_ROWS * VGA_COLUMNS"

lemmas vga_sizes = VGA_ROWS_def VGA_COLUMNS_def VGA_CELLS_def

record text_element =
  character :: u8
  color :: u8

record vga =
  cursor :: u32
  cells :: "text_element list"
  vga_io :: "port_io list"

definition vga_sync_cursor_position :: "vga \<Rightarrow> vga" where
  "vga_sync_cursor_position vga =
     vga\<lparr>vga_io := vga_io vga @
       [OutB 0x3D4 0xE, OutB 0x3D5 (ucast (drop_bit 8 (cursor vga))),
        OutB 0x3D4 0xF, OutB 0x3D5 (ucast (cursor vga))]\<rparr>"

text \<open>\<^verbatim>\<open>VGA_TEXT_MEMORY[i].character = c\<close>\<close>

definition set_character :: "nat \<Rightarrow> u8 \<Rightarrow> vga \<Rightarrow> vga result" where
  "set_character i c vga =
     (if i < length (cells vga) then Inr (vga\<lparr>cells := (cells vga)[i := (cells vga ! i)\<lparr>character := c\<rparr>]\<rparr>)
      else Inl OutOfBounds)"

definition vga_put :: "u8 \<Rightarrow> vga \<Rightarrow> vga result" where
  "vga_put b vga =
     (if b = 10 then Inr (vga\<lparr>cursor := (cursor vga div of_nat VGA_COLUMNS + 1) * of_nat VGA_COLUMNS\<rparr>)
      else if b = 13 then Inr (vga\<lparr>cursor := cursor vga - cursor vga mod of_nat VGA_COLUMNS\<rparr>)
      else if b = 8 then
        if cursor vga mod of_nat VGA_COLUMNS \<noteq> 0 then
          let vga = vga\<lparr>cursor := cursor vga - 1\<rparr> in set_character (unat (cursor vga)) 32 vga
        else Inr vga
      else
        bindE (set_character (unat (cursor vga)) b vga) (\<lambda>vga. Inr (vga\<lparr>cursor := cursor vga + 1\<rparr>)))"

definition blank_last_row :: "text_element list \<Rightarrow> text_element list" where
  "blank_last_row cs =
     fold (\<lambda>i cs. cs[i := (cs ! i)\<lparr>character := 32\<rparr>]) [VGA_CELLS - VGA_COLUMNS..<VGA_CELLS] cs"

text \<open>The \<^verbatim>\<open>memmove\<close> of 24 rows and the loop that blanks the last one.\<close>

definition vga_scroll :: "vga \<Rightarrow> vga" where
  "vga_scroll vga =
     (if of_nat VGA_CELLS \<le> cursor vga then
        let moved = drop VGA_COLUMNS (take VGA_CELLS (cells vga)) @ drop (VGA_CELLS - VGA_COLUMNS) (cells vga)
        in vga\<lparr>cells := blank_last_row moved,
               cursor := cursor vga - of_nat VGA_COLUMNS\<rparr>
      else vga)"

definition vga_write_byte :: "vga write_byte" where
  "vga_write_byte b vga =
     bindE (vga_put b vga) (\<lambda>vga. Inr (1, vga_sync_cursor_position (vga_scroll vga)))"

definition vga_init :: "vga \<Rightarrow> vga" where
  "vga_init vga =
     (let vga = vga_sync_cursor_position vga
      in vga\<lparr>cells := fold (\<lambda>i cs. cs[i := \<lparr>character = 32, color = 0xF\<rparr>]) [0..<VGA_CELLS] (cells vga)\<rparr>)"

section \<open>The cursor stays on the screen\<close>

definition vga_ok :: "vga \<Rightarrow> bool" where
  "vga_ok vga \<longleftrightarrow> unat (cursor vga) < VGA_CELLS \<and> length (cells vga) = VGA_CELLS"

text \<open>What a byte does to the screen, on natural numbers.\<close>

definition put_cursor :: "u8 \<Rightarrow> nat \<Rightarrow> nat" where
  "put_cursor b c =
     (if b = 10 then (c div 80 + 1) * 80
      else if b = 13 then c div 80 * 80
      else if b = 8 then (if c mod 80 = 0 then c else c - 1)
      else c + 1)"

definition put_cells :: "u8 \<Rightarrow> nat \<Rightarrow> u8 list \<Rightarrow> u8 list" where
  "put_cells b c t =
     (if b = 10 \<or> b = 13 then t
      else if b = 8 then (if c mod 80 = 0 then t else t[c - 1 := 32])
      else t[c := b])"

definition chars :: "vga \<Rightarrow> u8 list" where
  "chars vga = map character (cells vga)"

lemma unat_u32_ops:
  fixes c :: u32
  assumes "unat c < 2000"
  shows "unat (c div 80) = unat c div 80" "unat (c mod 80) = unat c mod 80"
    "unat ((c div 80 + 1) * 80) = (unat c div 80 + 1) * 80" "unat (c - c mod 80) = unat c div 80 * 80"
    "unat (c + 1) = unat c + 1" "c mod 80 \<noteq> 0 \<longleftrightarrow> unat c mod 80 \<noteq> 0"
proof -
  show d: "unat (c div 80) = unat c div 80" and m: "unat (c mod 80) = unat c mod 80"
    by (simp_all add: unat_div_distrib unat_mod_distrib)
  have "unat c div 80 < 25" using assms by (simp add: div_less_iff_less_mult)
  then show "unat ((c div 80 + 1) * 80) = (unat c div 80 + 1) * 80"
    by (simp add: unat_word_ariths d)
  show "unat (c - c mod 80) = unat c div 80 * 80"
    using \<open>unat c div 80 < 25\<close> by (simp add: minus_mod_eq_div_mult unat_word_ariths d)
  show "unat (c + 1) = unat c + 1" using assms by (simp add: unat_word_ariths)
  show "c mod 80 \<noteq> 0 \<longleftrightarrow> unat c mod 80 \<noteq> 0" using m by (metis unat_eq_zero)
qed

lemma vga_put_ok:
  assumes "vga_ok vga"
  shows "\<exists>v. vga_put b vga = Inr v \<and> length (cells v) = 2000 \<and> vga_io v = vga_io vga \<and>
           unat (cursor v) = put_cursor b (unat (cursor vga)) \<and>
           chars v = put_cells b (unat (cursor vga)) (chars vga) \<and>
           map color (cells v) = map color (cells vga)"
proof -
  have c: "unat (cursor vga) < 2000" "length (cells vga) = 2000"
    using assms by (simp_all add: vga_ok_def vga_sizes)
  note w = unat_u32_ops [OF c(1)]
  have dec: "unat (cursor vga - 1) = unat (cursor vga) - 1" if "unat (cursor vga) mod 80 \<noteq> 0"
    using that by (metis mod_0 unat_0 unat_minus_one)
  have upd: "map character (xs[i := (xs ! i)\<lparr>character := x\<rparr>]) = (map character xs)[i := x]"
    "map color (xs[i := (xs ! i)\<lparr>character := x\<rparr>]) = map color xs" for xs :: "text_element list" and i x
    by (simp_all add: map_update)
      (metis list_update_beyond list_update_id not_less length_map nth_map)
  consider "b = 10" | "b = 13" | "b = 8" | "b \<noteq> 10" "b \<noteq> 13" "b \<noteq> 8" by blast
  then show ?thesis
  proof cases
    case 1
    then show ?thesis
      using c w by (simp add: vga_put_def put_cursor_def put_cells_def chars_def vga_sizes)
  next
    case 2
    then show ?thesis
      using c w by (simp add: vga_put_def put_cursor_def put_cells_def chars_def vga_sizes)
  next
    case 3
    then show ?thesis
      using c w dec upd by (auto simp: vga_put_def put_cursor_def put_cells_def chars_def vga_sizes set_character_def Let_def)
  next
    case 4
    then show ?thesis
      using c w upd by (simp add: vga_put_def put_cursor_def put_cells_def chars_def vga_sizes set_character_def)
  qed
qed


text \<open>Scrolling: the rows move up by one and the last is blank.\<close>

definition scrolled :: "u8 list \<Rightarrow> u8 list" where
  "scrolled t = drop 80 t @ replicate 80 32"

lemma length_fold_update: "length (fold (\<lambda>i cs. cs[i := f i cs]) is cs) = length cs"
  by (induction "is" arbitrary: cs) simp_all

lemma fold_blank:
  "a \<le> b \<Longrightarrow> b \<le> length cs \<Longrightarrow>
    map character (fold (\<lambda>i cs. cs[i := (cs ! i)\<lparr>character := x\<rparr>]) [a..<b] cs) =
      take a (map character cs) @ replicate (b - a) x @ drop b (map character cs)"
proof (induction b)
  case 0
  then show ?case by simp
next
  case (Suc b)
  show ?case
  proof (cases "a = Suc b")
    case True
    then show ?thesis by simp
  next
    case False
    let ?cs = "fold (\<lambda>i cs. cs[i := (cs ! i)\<lparr>character := x\<rparr>]) [a..<b] cs"
    have len: "length ?cs = length cs" by (rule length_fold_update)
    have "a \<le> b" using Suc.prems False by simp
    then have "map character (fold (\<lambda>i cs. cs[i := (cs ! i)\<lparr>character := x\<rparr>]) [a..<Suc b] cs) =
        (map character ?cs)[b := x]"
      by (simp add: map_update)
    also have "\<dots> = (take a (map character cs) @ replicate (b - a) x @ drop b (map character cs))[b := x]"
      using Suc \<open>a \<le> b\<close> by simp
    also have "\<dots> = take a (map character cs) @ replicate (Suc b - a) x @ drop (Suc b) (map character cs)"
    proof -
      have "drop b (map character cs) = map character cs ! b # drop (Suc b) (map character cs)"
        using Suc.prems by (intro Cons_nth_drop_Suc [symmetric]) simp
      moreover have "replicate (Suc b - a) x = replicate (b - a) x @ [x]"
        using \<open>a \<le> b\<close> by (simp add: Suc_diff_le replicate_append_same)
      ultimately show ?thesis
        using Suc.prems \<open>a \<le> b\<close> by (simp add: list_update_append)
    qed
    finally show ?thesis .
  qed
qed

lemma vga_scroll_ok:
  assumes "length (cells v) = 2000" and "unat (cursor v) < 2080"
  shows "vga_ok (vga_scroll v)" and "vga_io (vga_scroll v) = vga_io v"
    and "unat (cursor (vga_scroll v)) = (if unat (cursor v) < 2000 then unat (cursor v) else unat (cursor v) - 80)"
    and "chars (vga_scroll v) = (if unat (cursor v) < 2000 then chars v else scrolled (chars v))"
proof -
  have le: "2000 \<le> cursor v \<longleftrightarrow> \<not> unat (cursor v) < 2000" by (simp add: word_le_nat_alt not_less)
  have sub: "unat (cursor v - 80) = unat (cursor v) - 80" if "\<not> unat (cursor v) < 2000"
    using that by (simp add: unat_sub word_le_nat_alt)
  let ?m = "drop 80 (take 2000 (cells v)) @ drop 1920 (cells v)"
  have "map character (blank_last_row ?m) =
      take 1920 (map character ?m) @ replicate (2000 - 1920) 32 @ drop 2000 (map character ?m)"
    unfolding blank_last_row_def vga_sizes using assms(1) by (simp del: upt_rec_numeral add: fold_blank)
  also have "\<dots> = scrolled (chars v)"
    using assms(1) by (simp add: scrolled_def chars_def drop_map)
  finally have cells: "map character (blank_last_row ?m) = scrolled (chars v)" .
  have len: "length (blank_last_row ?m) = 2000"
    using assms(1) unfolding blank_last_row_def by (subst length_fold_update) simp
  show "vga_ok (vga_scroll v)"
    using assms le sub len by (auto simp: vga_scroll_def vga_ok_def vga_sizes)
  show "vga_io (vga_scroll v) = vga_io v" by (simp add: vga_scroll_def Let_def)
  show "unat (cursor (vga_scroll v)) = (if unat (cursor v) < 2000 then unat (cursor v) else unat (cursor v) - 80)"
    using le sub by (simp add: vga_scroll_def Let_def vga_sizes)
  show "chars (vga_scroll v) = (if unat (cursor v) < 2000 then chars v else scrolled (chars v))"
    using le cells by (simp add: vga_scroll_def Let_def vga_sizes chars_def)
qed


section \<open>Writing\<close>

definition after_byte :: "u8 \<Rightarrow> nat \<Rightarrow> nat" where
  "after_byte b c = (let c = put_cursor b c in if c < 2000 then c else c - 80)"

definition cells_after :: "u8 \<Rightarrow> nat \<Rightarrow> u8 list \<Rightarrow> u8 list" where
  "cells_after b c t = (let t = put_cells b c t in if put_cursor b c < 2000 then t else scrolled t)"

lemma put_cursor_bound: "c < 2000 \<Longrightarrow> put_cursor b c < 2080"
  by (auto simp: put_cursor_def div_less_iff_less_mult intro: le_less_trans)

definition cursor_port_writes :: "nat \<Rightarrow> port_io list" where
  "cursor_port_writes c =
     [OutB 0x3D4 0xE, OutB 0x3D5 (of_nat (c div 256)), OutB 0x3D4 0xF, OutB 0x3D5 (of_nat c)]"

lemma sync_writes:
  "vga_io (vga_sync_cursor_position v) = vga_io v @ cursor_port_writes (unat (cursor v))"
proof -
  have "unat (cursor v) div 256 = unat (drop_bit 8 (cursor v))"
    by (simp add: drop_bit_eq_div unat_div_distrib)
  then have "ucast (drop_bit 8 (cursor v)) = (of_nat (unat (cursor v) div 256) :: u8)"
    by (simp only: of_nat_unat)
  moreover have "ucast (cursor v) = (of_nat (unat (cursor v)) :: u8)"
    by simp
  ultimately show ?thesis by (simp add: vga_sync_cursor_position_def cursor_port_writes_def)
qed

lemma vga_write_byte_runs:
  assumes "vga_ok v"
  shows "\<exists>v'. vga_write_byte b v = Inr (1, v') \<and> vga_ok v' \<and>
           unat (cursor v') = after_byte b (unat (cursor v)) \<and>
           chars v' = cells_after b (unat (cursor v)) (chars v) \<and>
           vga_io v' = vga_io v @ cursor_port_writes (unat (cursor v'))"
proof -
  obtain w where w: "vga_put b v = Inr w" "length (cells w) = 2000" "vga_io w = vga_io v"
    "unat (cursor w) = put_cursor b (unat (cursor v))" "chars w = put_cells b (unat (cursor v)) (chars v)"
    using vga_put_ok [OF assms, of b] by blast
  have "unat (cursor w) < 2080" using w(4) put_cursor_bound assms by (simp add: vga_ok_def vga_sizes)
  note scroll = vga_scroll_ok [OF w(2) this]
  let ?v = "vga_sync_cursor_position (vga_scroll w)"
  have same: "cursor ?v = cursor (vga_scroll w)" "cells ?v = cells (vga_scroll w)"
    by (simp_all add: vga_sync_cursor_position_def)
  have "vga_write_byte b v = Inr (1, ?v)" using w(1) by (simp add: vga_write_byte_def)
  moreover have "vga_ok ?v" using scroll(1) same by (simp add: vga_ok_def)
  moreover have "unat (cursor ?v) = after_byte b (unat (cursor v))"
    using same scroll(3) w(4) by (simp add: after_byte_def Let_def)
  moreover have "chars ?v = cells_after b (unat (cursor v)) (chars v)"
    using same scroll(4) w(4,5) by (simp add: cells_after_def Let_def chars_def)
  moreover have "vga_io ?v = vga_io v @ cursor_port_writes (unat (cursor ?v))"
    using sync_writes [of "vga_scroll w"] scroll(2) w(3) same(1) by simp
  ultimately show ?thesis by blast
qed

text \<open>C29. Any byte written to the console with the cursor on the screen is taken: no cell outside
  the text memory is touched, the cursor stays on the screen and is sent to the hardware, and
  the text changes as a terminal's does: newline, carriage return, backspace within the row, a
  character in place, and the rows move up by one when the cursor leaves the last row.\<close>

theorem vga_write_byte_correct:
  assumes "vga_ok v"
  shows "\<exists>v'. vga_write_byte b v = Inr (1, v') \<and> vga_ok v' \<and>
           unat (cursor v') = after_byte b (unat (cursor v)) \<and>
           chars v' = cells_after b (unat (cursor v)) (chars v) \<and>
           vga_io v' = vga_io v @ cursor_port_writes (unat (cursor v'))"
  using assms by (rule vga_write_byte_runs)

text \<open>The screen after the kernel starts, whatever was in the text memory.\<close>

definition blank_screen :: vga where
  "blank_screen = vga_init \<lparr>cursor = 0, cells = replicate 2000 \<lparr>character = 0, color = 7\<rparr>, vga_io = []\<rparr>"

lemma vga_init_ok: "length (cells v) = VGA_CELLS \<Longrightarrow> unat (cursor v) < VGA_CELLS \<Longrightarrow> vga_ok (vga_init v)"
  by (simp add: vga_init_def vga_ok_def vga_sync_cursor_position_def length_fold_update)

lemma blank_screen_ok: "vga_ok blank_screen"
  unfolding blank_screen_def by (rule vga_init_ok) (simp_all add: vga_sizes)

theorem vga_write_byte_correct_witness:
  "\<exists>v'. vga_write_byte 10 blank_screen = Inr (1, v') \<and> unat (cursor v') = 80"
proof -
  have "unat (cursor blank_screen) = 0"
    by (simp add: blank_screen_def vga_init_def vga_sync_cursor_position_def)
  with vga_write_byte_correct [OF blank_screen_ok, of 10] show ?thesis
    by (auto simp: after_byte_def put_cursor_def)
qed

definition after_vga :: "u8 \<Rightarrow> vga \<Rightarrow> vga" where
  "after_vga b v = (case vga_write_byte b v of Inr (_, v') \<Rightarrow> v' | Inl _ \<Rightarrow> v)"

interpretation vgad: byte_device vga_write_byte "\<lambda>n. vga_ok" after_vga
proof
  fix n s b assume "vga_ok s"
  from vga_write_byte_runs [OF this, of b]
  show "vga_write_byte b s = Inr (1, after_vga b s)" and "vga_ok (after_vga b s)"
    by (auto simp: after_vga_def)
qed

text \<open>A row of text without control characters lands in the cells at the cursor.\<close>

lemma fold_after_vga_text:
  assumes "vga_ok v" and "set buf \<inter> {8, 10, 13} = {}" and "unat (cursor v) + length buf < 2000"
  shows "vga_ok (fold after_vga buf v) \<and>
    chars (fold after_vga buf v) =
      take (unat (cursor v)) (chars v) @ buf @ drop (unat (cursor v) + length buf) (chars v) \<and>
    unat (cursor (fold after_vga buf v)) = unat (cursor v) + length buf"
  using assms
proof (induction buf arbitrary: v)
  case Nil
  then show ?case by simp
next
  case (Cons b buf)
  let ?c = "unat (cursor v)" and ?v = "after_vga b v"
  have b: "b \<noteq> 8" "b \<noteq> 10" "b \<noteq> 13" using Cons.prems(2) by auto
  have step: "vga_ok ?v" "unat (cursor ?v) = ?c + 1" "chars ?v = (chars v)[?c := b]"
    using vga_write_byte_runs [OF Cons.prems(1), of b] b Cons.prems(3)
    by (auto simp: after_vga_def after_byte_def cells_after_def put_cursor_def put_cells_def)
  have "length (chars v) = 2000" using Cons.prems(1) by (simp add: vga_ok_def chars_def vga_sizes)
  then have "take (?c + 1) ((chars v)[?c := b]) = take ?c (chars v) @ [b]"
    "drop (?c + 1 + length buf) ((chars v)[?c := b]) = drop (?c + 1 + length buf) (chars v)"
    using Cons.prems(3) by (simp_all add: take_Suc_conv_app_nth)
  with Cons.IH [of ?v] step Cons.prems(2,3) show ?case by simp
qed

text \<open>Writing a buffer without control characters that fits on the rest of the screen puts
  its bytes in the cells from the cursor on, leaves every other cell alone and moves the cursor
  behind them; all bytes are taken.\<close>

theorem vga_write_text:
  assumes "vga_ok v" and "set buf \<inter> {8, 10, 13} = {}" and "unat (cursor v) + length buf < 2000"
  shows "\<exists>v'. file_default_write_buffer vga_write_byte buf v = Inr (int (length buf), v') \<and> vga_ok v' \<and>
           chars v' = take (unat (cursor v)) (chars v) @ buf @ drop (unat (cursor v) + length buf) (chars v) \<and>
           unat (cursor v') = unat (cursor v) + length buf"
  using vgad.write_buffer_all(1) [where buf = buf and s = v] fold_after_vga_text [OF assms] assms(1) by blast

theorem vga_write_text_witness:
  "\<exists>v'. file_default_write_buffer vga_write_byte [98, 111] blank_screen = Inr (2, v') \<and>
       take 2 (chars v') = [98, 111]"
proof -
  have c: "unat (cursor blank_screen) = 0"
    by (simp add: blank_screen_def vga_init_def vga_sync_cursor_position_def)
  show ?thesis using vga_write_text [OF blank_screen_ok, of "[98, 111]"] c by auto
qed

end
