(* ===== verification/BPrintf.thy ===== *)
theory BPrintf
  imports Prelude
begin

text \<open>
  \<^verbatim>\<open>kernel/lib/bprintf.c\<close>: formatting into a buffer of bounded size. A C string is the list
  of its characters before the terminator. A \<^verbatim>\<open>va_list\<close> is the list of the 32-bit words on
  the stack; a \<^verbatim>\<open>long long\<close> takes two, the low one first. Pointer arguments are looked up in
  \<open>mem\<close>: the string at an address for \<^verbatim>\<open>%s\<close>, and for \<^verbatim>\<open>%n\<close> whether an \<^verbatim>\<open>int\<close> can be stored there.
\<close>

text \<open>What the caller's pointers point to. The \<^verbatim>\<open>int\<close> objects lie outside the buffer and the format.\<close>

record pointees =
  c_string :: "u32 \<Rightarrow> string option"
  int_object :: "u32 \<Rightarrow> bool"

definition no_pointees :: pointees where
  "no_pointees = \<lparr>c_string = (\<lambda>_. None), int_object = (\<lambda>_. False)\<rparr>"

section \<open>State\<close>

datatype print_length = pl_none | pl_char | pl_short | pl_long | pl_longlong

datatype print_unsigned = pu_decimal | pu_octal | pu_hex | pu_HEX

text \<open>The local variables of one directive.\<close>

record directive =
  min_width :: u32
  precision :: u32
  len :: print_length
  alternative :: bool
  zero_padd :: bool
  left_adjust :: bool
  space :: bool
  sign :: bool
  has_precision :: bool

text \<open>
  What has been written to the buffer, the room left in it (\<^verbatim>\<open>max\<close>), the arguments left, and
  the stores made by \<^verbatim>\<open>%n\<close>.
\<close>

record printer =
  out :: string
  room :: u32
  va :: "u32 list"
  stores :: "(u32 \<times> u32) list"

definition empty_directive :: directive where
  "empty_directive =
     \<lparr>min_width = 0, precision = 0, len = pl_none, alternative = False, zero_padd = False,
      left_adjust = False, space = False, sign = False, has_precision = False\<rparr>"

text \<open>\<open>put\<close> is \<^verbatim>\<open>*(buffer++) = c; --max\<close>; \<open>fill\<close> is a \<^verbatim>\<open>memset\<close> of \<open>w\<close> bytes with its
  updates of \<^verbatim>\<open>buffer\<close> and \<^verbatim>\<open>max\<close>.\<close>

definition put :: "char \<Rightarrow> printer \<Rightarrow> printer" where
  "put c p = p\<lparr>out := out p @ [c], room := room p - 1\<rparr>"

definition fill :: "char \<Rightarrow> u32 \<Rightarrow> printer \<Rightarrow> printer" where
  "fill c w p = p\<lparr>out := out p @ replicate (unat w) c, room := room p - w\<rparr>"

text \<open>\<^verbatim>\<open>if (w > max) w = max; memset(buffer, c, w); buffer += w; max -= w;\<close>\<close>

definition fill_clipped :: "char \<Rightarrow> u32 \<Rightarrow> printer \<Rightarrow> printer" where
  "fill_clipped c w p = (let w = if w > room p then room p else w in fill c w p)"

definition va_word :: "printer \<Rightarrow> (u32 \<times> printer) result" where
  "va_word p = (case va p of [] \<Rightarrow> Inl NoArgument | w # ws \<Rightarrow> Inr (w, p\<lparr>va := ws\<rparr>))"

definition va_longlong :: "printer \<Rightarrow> (u64 \<times> printer) result" where
  "va_longlong p =
     bindE (va_word p) (\<lambda>(lo, p).
     bindE (va_word p) (\<lambda>(hi, p).
       Inr ((ucast lo :: u64) OR push_bit 32 (ucast hi), p)))"

section \<open>Parsing a directive\<close>

fun parse_flags :: "string \<Rightarrow> directive \<Rightarrow> string \<times> directive" where
  "parse_flags [] d = ([], d)"
| "parse_flags (c # fmt) d =
     (if c = CHR ''#'' then parse_flags fmt (d\<lparr>alternative := True\<rparr>)
      else if c = CHR ''0'' then parse_flags fmt (d\<lparr>zero_padd := True\<rparr>)
      else if c = CHR ''-'' then parse_flags fmt (d\<lparr>left_adjust := True\<rparr>)
      else if c = CHR '' '' then parse_flags fmt (d\<lparr>space := True\<rparr>)
      else if c = CHR ''+'' then parse_flags fmt (d\<lparr>sign := True\<rparr>)
      else (c # fmt, d))"

definition is_digit :: "char \<Rightarrow> bool" where
  "is_digit c \<longleftrightarrow> 48 \<le> (of_char c :: nat) \<and> (of_char c :: nat) \<le> 57"

fun parse_number :: "string \<Rightarrow> u32 \<Rightarrow> string \<times> u32" where
  "parse_number [] n = ([], n)"
| "parse_number (c # fmt) n =
     (if is_digit c then parse_number fmt (n * 10 + (of_char c - 48)) else (c # fmt, n))"

definition parse_width :: "string \<Rightarrow> directive \<Rightarrow> printer \<Rightarrow> (string \<times> directive \<times> printer) result" where
  "parse_width fmt d p =
     (case fmt of
        c # fmt' \<Rightarrow>
          if c = CHR ''*'' then
            bindE (va_word p) (\<lambda>(width, p).
              if width <s 0 then Inr (fmt', d\<lparr>left_adjust := True, min_width := - width\<rparr>, p)
              else Inr (fmt', d\<lparr>min_width := width\<rparr>, p))
          else (case parse_number fmt (min_width d) of (fmt, n) \<Rightarrow> Inr (fmt, d\<lparr>min_width := n\<rparr>, p))
      | [] \<Rightarrow> Inr ([], d, p))"

definition parse_precision ::
  "string \<Rightarrow> directive \<Rightarrow> printer \<Rightarrow> (string \<times> directive \<times> printer) result" where
  "parse_precision fmt d p =
     (if fmt \<noteq> [] \<and> hd fmt = CHR ''.'' then
        let fmt = tl fmt in
        if fmt \<noteq> [] \<and> hd fmt = CHR ''*'' then
          bindE (va_word p) (\<lambda>(n, p).
            Inr (tl fmt, d\<lparr>precision := n, has_precision := True\<rparr>, p))
        else (case parse_number fmt (precision d) of
                (fmt, n) \<Rightarrow> Inr (fmt, d\<lparr>precision := n, has_precision := True\<rparr>, p))
      else Inr (fmt, d, p))"

definition parse_length :: "string \<Rightarrow> directive \<Rightarrow> string \<times> directive" where
  "parse_length fmt d =
     (if fmt \<noteq> [] \<and> hd fmt = CHR ''h'' then
        let fmt = tl fmt in
        if fmt \<noteq> [] \<and> hd fmt = CHR ''h'' then (tl fmt, d\<lparr>len := pl_char\<rparr>)
        else (fmt, d\<lparr>len := pl_short\<rparr>)
      else if fmt \<noteq> [] \<and> hd fmt = CHR ''l'' then
        let fmt = tl fmt in
        if fmt \<noteq> [] \<and> hd fmt = CHR ''l'' then (tl fmt, d\<lparr>len := pl_longlong\<rparr>)
        else (fmt, d\<lparr>len := pl_long\<rparr>)
      else (fmt, d))"

section \<open>Digits\<close>

text \<open>
  The digits of a number, least significant first, as the code pushes them. The
  \<^verbatim>\<open>do ... while (num)\<close> loops work on a number that is positive and below 2 to the width, read
  here as a natural number.
\<close>

function decimal_digits :: "nat \<Rightarrow> string" where
  "decimal_digits num =
     char_of (48 + num mod 10) # (if num div 10 \<noteq> 0 then decimal_digits (num div 10) else [])"
  by pat_completeness auto
termination by (relation "measure id") auto

function octal_digits :: "nat \<Rightarrow> string" where
  "octal_digits num =
     char_of (48 + (num AND 7)) # (if drop_bit 3 num \<noteq> 0 then octal_digits (drop_bit 3 num) else [])"
  by pat_completeness auto
termination by (relation "measure id") (auto simp: drop_bit_eq_div)

text \<open>\<open>ten\<close> is the code of the letter for ten: of \<^verbatim>\<open>a\<close> for \<^verbatim>\<open>%x\<close>, of \<^verbatim>\<open>A\<close> for \<^verbatim>\<open>%X\<close>.\<close>

function hex_digits :: "nat \<Rightarrow> nat \<Rightarrow> string" where
  "hex_digits ten num =
     (let digit = num AND 0xF
      in char_of ((if digit < 10 then 48 else ten - 10) + digit) #
         (if drop_bit 4 num \<noteq> 0 then hex_digits ten (drop_bit 4 num) else []))"
  by pat_completeness auto
termination by (relation "measure snd") (auto simp: drop_bit_eq_div)

declare decimal_digits.simps [simp del] octal_digits.simps [simp del] hex_digits.simps [simp del]

text \<open>The array \<^verbatim>\<open>digits\<close> has 23 elements.\<close>

definition digit_array :: "string \<Rightarrow> string result" where
  "digit_array ds = (if length ds \<le> 23 then Inr ds else Inl OutOfBounds)"

definition narrow_signed :: "print_length \<Rightarrow> u32 \<Rightarrow> u32" where
  "narrow_signed l num =
     (case l of pl_short \<Rightarrow> scast (ucast num :: u16)
      | pl_char \<Rightarrow> scast (ucast num :: u8)
      | _ \<Rightarrow> num)"

definition narrow_unsigned :: "print_length \<Rightarrow> u32 \<Rightarrow> u32" where
  "narrow_unsigned l num =
     (case l of pl_short \<Rightarrow> ucast (ucast num :: u16)
      | pl_char \<Rightarrow> ucast (ucast num :: u8)
      | _ \<Rightarrow> num)"

text \<open>
  The digits of \<^verbatim>\<open>%d\<close> and whether the number is negative. The most negative number has no
  negation; its digits are written out.
\<close>

definition signed_longlong_digits :: "bool \<Rightarrow> u64 \<Rightarrow> bool \<times> string" where
  "signed_longlong_digits has_prec num =
     (if num = 0x8000000000000000 then (True, ''8085774586302733229'')
      else
        let neg = num <s 0; num = (if neg then - num else num)
        in (neg, if num \<noteq> 0 then decimal_digits (unat num)
                 else if \<not> has_prec then ''0'' else []))"

definition signed_long_digits :: "bool \<Rightarrow> u32 \<Rightarrow> bool \<times> string" where
  "signed_long_digits has_prec num =
     (if num = 0x80000000 then (True, ''8463847412'')
      else
        let neg = num <s 0; num = (if neg then - num else num)
        in (neg, if num \<noteq> 0 then decimal_digits (unat num)
                 else if \<not> has_prec then ''0'' else []))"

definition signed_digits :: "directive \<Rightarrow> printer \<Rightarrow> (bool \<times> string \<times> printer) result" where
  "signed_digits d p =
     (if len d = pl_longlong then
        bindE (va_longlong p) (\<lambda>(num, p).
          case signed_longlong_digits (has_precision d) num of (neg, ds) \<Rightarrow>
            bindE (digit_array ds) (\<lambda>ds. Inr (neg, ds, p)))
      else
        bindE (va_word p) (\<lambda>(num, p).
          case signed_long_digits (has_precision d) (narrow_signed (len d) num) of (neg, ds) \<Rightarrow>
            bindE (digit_array ds) (\<lambda>ds. Inr (neg, ds, p))))"

text \<open>
  The digits of \<^verbatim>\<open>%u\<close>, \<^verbatim>\<open>%o\<close>, \<^verbatim>\<open>%x\<close> and \<^verbatim>\<open>%X\<close>, and what is left of the \<^verbatim>\<open>#\<close> flag:
  a zero clears it, for a \<^verbatim>\<open>long long\<close> only when no precision is given.
\<close>

definition unsigned_digits ::
  "(nat \<Rightarrow> string) \<Rightarrow> directive \<Rightarrow> printer \<Rightarrow> (bool \<times> string \<times> printer) result" where
  "unsigned_digits digits_of d p =
     (if len d = pl_longlong then
        bindE (va_longlong p) (\<lambda>(num, p).
          if num \<noteq> 0 then
            bindE (digit_array (digits_of (unat num))) (\<lambda>ds. Inr (alternative d, ds, p))
          else if \<not> has_precision d then Inr (False, ''0'', p)
          else Inr (alternative d, [], p))
      else
        bindE (va_word p) (\<lambda>(num, p).
          let num = narrow_unsigned (len d) num in
          if num \<noteq> 0 then
            bindE (digit_array (digits_of (unat num))) (\<lambda>ds. Inr (alternative d, ds, p))
          else Inr (False, if \<not> has_precision d then ''0'' else [], p)))"

section \<open>Printing a conversion\<close>

text \<open>\<^verbatim>\<open>while (digits_top != digits && max) { *(buffer++) = *(--digits_top); --max; }\<close>\<close>

fun put_digits :: "string \<Rightarrow> printer \<Rightarrow> printer" where
  "put_digits [] p = p"
| "put_digits (c # cs) p = (if room p \<noteq> 0 then put_digits cs (put c p) else p)"

text \<open>
  The zeros that bring the digits up to the precision. The code subtracts the number of
  digits from zero, not from the precision.
\<close>

definition precision_zeros :: "directive \<Rightarrow> string \<Rightarrow> u32" where
  "precision_zeros d ds =
     (if has_precision d \<and> of_nat (length ds) < precision d then 0 - of_nat (length ds) else 0)"

definition put_sign :: "bool \<Rightarrow> directive \<Rightarrow> printer \<Rightarrow> printer" where
  "put_sign neg d p = put (if neg then CHR ''-'' else if sign d then CHR ''+'' else CHR '' '') p"

text \<open>\<^verbatim>\<open>if (max && min_width > total_width)\<close> pad with blanks on the right.\<close>

definition pad_right :: "u32 \<Rightarrow> u32 \<Rightarrow> printer \<Rightarrow> printer" where
  "pad_right width total_width p =
     (if room p \<noteq> 0 \<and> total_width < width then fill_clipped (CHR '' '') (width - total_width) p else p)"

definition print_signed :: "directive \<Rightarrow> bool \<Rightarrow> string \<Rightarrow> printer \<Rightarrow> printer" where
  "print_signed d neg ds p =
     (let zeros = precision_zeros d ds;
          sign_width = (if neg \<or> space d \<or> sign d then 1 else 0);
          total_width = of_nat (length ds) + zeros + sign_width
      in if min_width d \<le> total_width \<or> left_adjust d then
           pad_right (min_width d) total_width
             (put_digits (rev ds)
               (fill_clipped (CHR ''0'') zeros
                 (if sign_width \<noteq> 0 then put_sign neg d p else p)))
         else
           let p = fill_clipped (if has_precision d \<or> \<not> zero_padd d then CHR '' '' else CHR ''0'')
                     (min_width d - total_width) p
           in put_digits (rev ds)
                (fill_clipped (CHR ''0'') zeros
                  (if room p \<noteq> 0 \<and> sign_width \<noteq> 0 then put_sign neg d p else p)))"

definition put_prefix :: "print_unsigned \<Rightarrow> printer \<Rightarrow> printer" where
  "put_prefix pu p =
     (let p = put (CHR ''0'') p
      in if room p \<noteq> 0 \<and> pu \<noteq> pu_octal
         then put (if pu = pu_hex then CHR ''x'' else CHR ''X'') p else p)"

definition alternative_width :: "bool \<Rightarrow> print_unsigned \<Rightarrow> u32" where
  "alternative_width alt pu =
     (if alt then (case pu of pu_hex \<Rightarrow> 2 | pu_HEX \<Rightarrow> 2 | pu_octal \<Rightarrow> 1 | pu_decimal \<Rightarrow> 0) else 0)"

definition print_unsigned_number ::
  "directive \<Rightarrow> bool \<Rightarrow> print_unsigned \<Rightarrow> string \<Rightarrow> printer \<Rightarrow> printer" where
  "print_unsigned_number d alt pu ds p =
     (let zeros = precision_zeros d ds;
          alt_width = alternative_width alt pu;
          total_width = of_nat (length ds) + zeros + alt_width
      in if min_width d \<le> total_width \<or> left_adjust d then
           pad_right (min_width d) total_width
             (put_digits (rev ds)
               (fill_clipped (CHR ''0'') zeros
                 (if alt_width \<noteq> 0 then put_prefix pu p else p)))
         else
           let p = fill_clipped (if has_precision d \<or> \<not> zero_padd d then CHR '' '' else CHR ''0'')
                     (min_width d - total_width) p
           in put_digits (rev ds)
                (fill_clipped (CHR ''0'') zeros
                  (if room p \<noteq> 0 \<and> alt_width \<noteq> 0 then put_prefix pu p else p)))"

definition print_char :: "directive \<Rightarrow> printer \<Rightarrow> printer result" where
  "print_char d p =
     (if min_width d \<le> 1 \<or> left_adjust d then
        bindE (va_word p) (\<lambda>(c, p).
          let p = put (char_of (unat c)) p
          in Inr (if 1 < min_width d then fill_clipped (CHR '' '') (min_width d - 1) p else p))
      else
        let p = fill_clipped (CHR '' '') (min_width d - 1) p
        in if 0 < room p then bindE (va_word p) (\<lambda>(c, p). Inr (put (char_of (unat c)) p))
           else Inr p)"

definition string_at :: "pointees \<Rightarrow> u32 \<Rightarrow> string result" where
  "string_at mem a = (case c_string mem a of None \<Rightarrow> Inl BadPointer | Some str \<Rightarrow> Inr str)"

definition store_count :: "pointees \<Rightarrow> u32 \<Rightarrow> printer \<Rightarrow> printer result" where
  "store_count mem a p =
     (if int_object mem a then Inr (p\<lparr>stores := stores p @ [(a, of_nat (length (out p)))]\<rparr>) else Inl BadPointer)"

text \<open>
  Left-adjusted, the string is copied while there is room, and its length is the number of
  characters copied. Right-adjusted, the padding comes first and the string is cut to the
  room left.
\<close>

definition print_string_left :: "directive \<Rightarrow> string \<Rightarrow> printer \<Rightarrow> printer" where
  "print_string_left d str p =
     (let l = of_nat (length (take (unat (room p)) str)); p = put_digits str p
      in if 0 < room p \<and> l < min_width d then fill_clipped (CHR '' '') (min_width d - l) p else p)"

definition copy_string :: "string \<Rightarrow> u32 \<Rightarrow> printer \<Rightarrow> printer" where
  "copy_string str slen p =
     (let slen = (if room p < slen then room p else slen)
      in p\<lparr>out := out p @ take (unat slen) str, room := room p - slen\<rparr>)"

definition print_string_right :: "directive \<Rightarrow> string \<Rightarrow> printer \<Rightarrow> printer" where
  "print_string_right d str p =
     (let slen = of_nat (length str)
      in copy_string str slen
           (if slen < min_width d then fill_clipped (CHR '' '') (min_width d - slen) p else p))"

definition print_string :: "pointees \<Rightarrow> directive \<Rightarrow> printer \<Rightarrow> printer result" where
  "print_string mem d p =
     bindE (va_word p) (\<lambda>(a, p).
     bindE (string_at mem a) (\<lambda>str.
       Inr (if min_width d = 0 \<or> left_adjust d then print_string_left d str p
            else print_string_right d str p)))"

definition print_pointer :: "directive \<Rightarrow> printer \<Rightarrow> printer result" where
  "print_pointer d p =
     bindE (va_word p) (\<lambda>(num, p).
       if num \<noteq> 0 then
         bindE (digit_array (hex_digits 97 (unat num))) (\<lambda>ds.
           Inr (print_unsigned_number d True pu_hex ds p))
       else Inr (print_unsigned_number (d\<lparr>zero_padd := False\<rparr>) False pu_decimal '')lin('' p))"

text \<open>The \<^verbatim>\<open>switch\<close> on the conversion character.\<close>

definition conversion ::
  "pointees \<Rightarrow> char \<Rightarrow> directive \<Rightarrow> printer \<Rightarrow> printer result" where
  "conversion mem c d p =
     (if c = CHR ''d'' \<or> c = CHR ''i'' then
        bindE (signed_digits d p) (\<lambda>(neg, ds, p). Inr (print_signed d neg ds p))
      else if c = CHR ''u'' then
        bindE (unsigned_digits decimal_digits (d\<lparr>alternative := False\<rparr>) p) (\<lambda>(alt, ds, p).
          Inr (print_unsigned_number d alt pu_decimal ds p))
      else if c = CHR ''o'' then
        bindE (unsigned_digits octal_digits d p) (\<lambda>(alt, ds, p).
          Inr (print_unsigned_number d alt pu_octal ds p))
      else if c = CHR ''x'' then
        bindE (unsigned_digits (hex_digits 97) d p) (\<lambda>(alt, ds, p).
          Inr (print_unsigned_number d alt pu_hex ds p))
      else if c = CHR ''X'' then
        bindE (unsigned_digits (hex_digits 65) d p) (\<lambda>(alt, ds, p).
          Inr (print_unsigned_number d alt pu_HEX ds p))
      else if c = CHR ''p'' then print_pointer d p
      else if c = CHR ''c'' then print_char d p
      else if c = CHR ''s'' then print_string mem d p
      else if c = CHR ''n'' then
        bindE (va_word p) (\<lambda>(a, p). store_count mem a p)
      else Inr p)"

text \<open>
  One directive, from the character after \<^verbatim>\<open>%\<close>. A format that ends inside the directive is
  read past its terminator: the \<^verbatim>\<open>switch\<close> steps over it and the loop reads on.
\<close>

definition run_directive ::
  "pointees \<Rightarrow> string \<Rightarrow> printer \<Rightarrow> (string \<times> printer) result" where
  "run_directive mem fmt p =
     (case parse_flags fmt empty_directive of (fmt, d) \<Rightarrow>
      bindE (parse_width fmt d p) (\<lambda>(fmt, d, p).
      bindE (parse_precision fmt d p) (\<lambda>(fmt, d, p).
      case parse_length fmt d of (fmt, d) \<Rightarrow>
        (case fmt of
           [] \<Rightarrow> Inl Overrun
         | c # fmt \<Rightarrow> bindE (conversion mem c d p) (\<lambda>p. Inr (fmt, p))))))"

section \<open>The loop\<close>

lemma bindE_cong [fundef_cong]:
  "m = m' \<Longrightarrow> (\<And>x. m' = Inr x \<Longrightarrow> f x = g x) \<Longrightarrow> bindE m f = bindE m' g"
  by (cases m') auto

lemma parse_flags_length: "length (fst (parse_flags fmt d)) \<le> length fmt"
  by (induction fmt d rule: parse_flags.induct) auto

lemma parse_number_length: "length (fst (parse_number fmt n)) \<le> length fmt"
  by (induction fmt n rule: parse_number.induct) auto

lemma parse_width_length: "parse_width fmt d p = Inr (fmt', d', p') \<Longrightarrow> length fmt' \<le> length fmt"
  using parse_number_length [of fmt "min_width d"]
  by (auto simp: parse_width_def split: list.splits if_splits prod.splits)

lemma parse_precision_length:
  "parse_precision fmt d p = Inr (fmt', d', p') \<Longrightarrow> length fmt' \<le> length fmt"
  using parse_number_length [of "tl fmt" "precision d"]
  by (auto simp: parse_precision_def Let_def split: if_splits prod.splits)

lemma parse_length_length: "length (fst (parse_length fmt d)) \<le> length fmt"
  by (auto simp: parse_length_def Let_def)

lemma run_directiveE:
  assumes "run_directive mem fmt p = Inr (fmt', p')"
  obtains f1 d1 f2 d2 p2 f3 d3 p3 d c
    where "parse_flags fmt empty_directive = (f1, d1)" "parse_width f1 d1 p = Inr (f2, d2, p2)"
      "parse_precision f2 d2 p2 = Inr (f3, d3, p3)" "parse_length f3 d3 = (c # fmt', d)"
      "conversion mem c d p3 = Inr p'"
proof -
  obtain f1 d1 where 1: "parse_flags fmt empty_directive = (f1, d1)" by fastforce
  with assms obtain f2 d2 p2 where 2: "parse_width f1 d1 p = Inr (f2, d2, p2)"
    by (auto simp: run_directive_def simp del: split_paired_Ex)
  with assms 1 obtain f3 d3 p3 where 3: "parse_precision f2 d2 p2 = Inr (f3, d3, p3)"
    by (auto simp: run_directive_def simp del: split_paired_Ex)
  obtain f4 d where 4: "parse_length f3 d3 = (f4, d)" by fastforce
  show ?thesis
  proof (cases f4)
    case Nil
    then show ?thesis using assms 1 2 3 4 by (simp add: run_directive_def)
  next
    case (Cons c r)
    then have "conversion mem c d p3 = Inr p'" "r = fmt'"
      using assms 1 2 3 4 by (auto simp: run_directive_def)
    then show ?thesis using that 1 2 3 4 Cons by blast
  qed
qed

lemma run_directive_length:
  assumes "run_directive mem fmt p = Inr (fmt', p')"
  shows "length fmt' < length fmt"
proof -
  obtain f1 d1 f2 d2 p2 f3 d3 p3 d c where "parse_flags fmt empty_directive = (f1, d1)"
    "parse_width f1 d1 p = Inr (f2, d2, p2)" "parse_precision f2 d2 p2 = Inr (f3, d3, p3)"
    "parse_length f3 d3 = (c # fmt', d)"
    using assms by (rule run_directiveE)
  then have "length f1 \<le> length fmt" "length f2 \<le> length f1" "length f3 \<le> length f2"
    "length (c # fmt') \<le> length f3"
    using parse_flags_length [of fmt empty_directive] parse_width_length parse_precision_length
      parse_length_length [of f3 d3] by (auto simp del: length_Cons)
  then show ?thesis by simp
qed

function vbprintf_loop :: "pointees \<Rightarrow> string \<Rightarrow> printer \<Rightarrow> printer result" where
  "vbprintf_loop mem [] p = Inr p"
| "vbprintf_loop mem (c # fmt) p =
     (if 0 < room p then
        if c \<noteq> CHR ''%'' then vbprintf_loop mem fmt (put c p)
        else if fmt \<noteq> [] \<and> hd fmt = CHR ''%'' then vbprintf_loop mem (tl fmt) (put (hd fmt) p)
        else bindE (run_directive mem fmt p) (\<lambda>(fmt, p). vbprintf_loop mem fmt p)
      else Inr p)"
  by pat_completeness auto
termination
  by (relation "measure (\<lambda>(mem, fmt, p). length fmt)") (auto dest: run_directive_length)

definition vbprintf ::
  "pointees \<Rightarrow> u32 \<Rightarrow> string \<Rightarrow> u32 list \<Rightarrow> (u32 \<times> printer) result" where
  "vbprintf mem max_length fmt args =
     bindE (vbprintf_loop mem fmt \<lparr>out = [], room = max_length, va = args, stores = []\<rparr>)
       (\<lambda>p. Inr (of_nat (length (out p)), p))"

definition bprintf ::
  "pointees \<Rightarrow> u32 \<Rightarrow> string \<Rightarrow> u32 list \<Rightarrow> (u32 \<times> printer) result" where
  "bprintf mem max_length fmt args = vbprintf mem max_length fmt args"

end
