(* ===== verification/BPrintfProps.thy ===== *)
theory BPrintfProps
  imports BPrintf
begin

text \<open>
  What \<^verbatim>\<open>vbprintf\<close> guarantees: the buffer and the array of digits are never overrun, the
  conversions print the number or the string they are given, and where they do not.
\<close>

section \<open>The buffer is never overrun\<close>

named_theorems room_keep

definition fits :: "nat \<Rightarrow> printer \<Rightarrow> bool" where
  "fits n p \<longleftrightarrow> length (out p) + unat (room p) = n"

lemma fits_put [room_keep]: "fits n p \<Longrightarrow> room p \<noteq> 0 \<Longrightarrow> fits n (put c p)"
  using unat_gt_0 [of "room p"] by (auto simp: fits_def put_def unat_minus_one)

lemma fits_fill_clipped [room_keep]: "fits n p \<Longrightarrow> fits n (fill_clipped c w p)"
  by (auto simp: fits_def fill_clipped_def fill_def Let_def unat_sub word_le_nat_alt word_less_nat_alt)

lemma fits_put_digits [room_keep]: "fits n p \<Longrightarrow> fits n (put_digits ds p)"
  by (induction ds p rule: put_digits.induct) (auto intro: room_keep)

lemma fits_pad_right [room_keep]: "fits n p \<Longrightarrow> fits n (pad_right w t p)"
  by (simp add: pad_right_def room_keep)

lemma fits_put_sign [room_keep]: "fits n p \<Longrightarrow> room p \<noteq> 0 \<Longrightarrow> fits n (put_sign neg d p)"
  unfolding put_sign_def by (rule fits_put)

lemma fits_put_prefix [room_keep]: "fits n p \<Longrightarrow> room p \<noteq> 0 \<Longrightarrow> fits n (put_prefix pu p)"
  by (simp add: put_prefix_def Let_def room_keep)

lemma fits_print_signed [room_keep]: "fits n p \<Longrightarrow> room p \<noteq> 0 \<Longrightarrow> fits n (print_signed d neg ds p)"
  by (simp add: print_signed_def Let_def room_keep)

lemma fits_print_unsigned_number [room_keep]:
  "fits n p \<Longrightarrow> room p \<noteq> 0 \<Longrightarrow> fits n (print_unsigned_number d alt pu ds p)"
  by (simp add: print_unsigned_number_def Let_def room_keep)

text \<open>Taking an argument leaves the buffer alone.\<close>

definition same_buffer :: "printer \<Rightarrow> printer \<Rightarrow> bool" where
  "same_buffer p q \<longleftrightarrow> out q = out p \<and> room q = room p"

lemma same_bufferD: "same_buffer p q \<Longrightarrow> fits n p \<Longrightarrow> room p \<noteq> 0 \<Longrightarrow> fits n q \<and> room q \<noteq> 0"
  by (simp add: same_buffer_def fits_def)

lemma same_buffer_trans: "same_buffer p q \<Longrightarrow> same_buffer q r \<Longrightarrow> same_buffer p r"
  by (simp add: same_buffer_def)

lemma va_word_buffer: "va_word p = Inr (w, q) \<Longrightarrow> same_buffer p q"
  by (auto simp: va_word_def same_buffer_def split: list.splits)

lemma va_longlong_buffer: "va_longlong p = Inr (w, q) \<Longrightarrow> same_buffer p q"
  by (auto simp: va_longlong_def dest!: va_word_buffer intro: same_buffer_trans)

lemma digit_array_Inr [simp]: "digit_array ds = Inr es \<longleftrightarrow> es = ds \<and> length ds \<le> 23"
  by (auto simp: digit_array_def)

lemma signed_digits_buffer: "signed_digits d p = Inr (neg, ds, q) \<Longrightarrow> same_buffer p q"
  by (auto simp: signed_digits_def split_beta split: if_splits
      dest!: va_word_buffer va_longlong_buffer)

lemma unsigned_digits_buffer: "unsigned_digits f d p = Inr (alt, ds, q) \<Longrightarrow> same_buffer p q"
  by (auto simp: unsigned_digits_def Let_def split: if_splits prod.splits
      dest!: va_word_buffer va_longlong_buffer)

lemma fits_print_char:
  "print_char d p = Inr q \<Longrightarrow> fits n p \<Longrightarrow> room p \<noteq> 0 \<Longrightarrow> fits n q"
  by (auto simp: print_char_def Let_def word_gt_0 split: if_splits
      dest!: va_word_buffer dest: same_bufferD intro!: room_keep)

lemma fits_copy_string [room_keep]:
  "fits n p \<Longrightarrow> unat slen \<le> length str \<Longrightarrow> fits n (copy_string str slen p)"
  by (auto simp: fits_def copy_string_def Let_def unat_sub word_le_nat_alt word_less_nat_alt)

lemma unat_length_le: "unat (of_nat (length xs) :: u32) \<le> length xs"
  by (simp add: unat_of_nat)

lemma fits_print_string:
  assumes "print_string mem d p = Inr q" and "fits n p"
  shows "fits n q"
proof -
  have "fits n r \<Longrightarrow> fits n (print_string_left d str r)" for r str
    by (simp add: print_string_left_def Let_def room_keep)
  moreover have "fits n r \<Longrightarrow> fits n (print_string_right d str r)" for r str
    by (simp add: print_string_right_def Let_def room_keep unat_length_le)
  ultimately show ?thesis
    using assms by (auto simp: print_string_def same_buffer_def fits_def dest!: va_word_buffer)
qed

lemma fits_print_pointer:
  "print_pointer d p = Inr q \<Longrightarrow> fits n p \<Longrightarrow> room p \<noteq> 0 \<Longrightarrow> fits n q"
  by (auto simp: print_pointer_def split: if_splits dest!: va_word_buffer dest: same_bufferD
      intro!: room_keep)

lemma fits_conversion:
  assumes "conversion mem c d p = Inr q" and "fits n p" and "room p \<noteq> 0"
  shows "fits n q"
proof -
  have s: "fits n q" if "bindE (signed_digits d p) (\<lambda>(neg, ds, p). Inr (print_signed d neg ds p)) = Inr q"
    using that assms(2,3) by (auto dest!: signed_digits_buffer dest: same_bufferD intro!: room_keep)
  have u: "fits n q" if "bindE (unsigned_digits f e p) (\<lambda>(alt, ds, p).
      Inr (print_unsigned_number d alt pu ds p)) = Inr q" for f e pu
    using that assms(2,3) by (auto dest!: unsigned_digits_buffer dest: same_bufferD intro!: room_keep)
  have n: "fits n q" if "bindE (va_word p) (\<lambda>(a, p). store_count mem a p) = Inr q"
    using that assms(2) by (auto dest!: va_word_buffer simp: store_count_def same_buffer_def fits_def split: if_splits)
  show ?thesis
    using assms(1,2)
    unfolding conversion_def
    by (auto simp del: bindE_eq_Inr split: if_split_asm intro: s u n assms(2)
        fits_print_pointer [OF _ assms(2,3)] fits_print_char [OF _ assms(2,3)]
        fits_print_string [OF _ assms(2)])
qed

lemma parse_width_buffer: "parse_width fmt d p = Inr (fmt', d', q) \<Longrightarrow> same_buffer p q"
  by (auto simp: parse_width_def split_beta same_buffer_def split: list.splits if_splits dest!: va_word_buffer)

lemma parse_precision_buffer: "parse_precision fmt d p = Inr (fmt', d', q) \<Longrightarrow> same_buffer p q"
  by (auto simp: parse_precision_def Let_def split_beta same_buffer_def split: if_splits dest!: va_word_buffer)

lemma fits_run_directive:
  assumes "run_directive mem fmt p = Inr (fmt', q)" and "fits n p" and "room p \<noteq> 0"
  shows "fits n q"
  using assms by (elim run_directiveE)
    (meson fits_conversion parse_width_buffer parse_precision_buffer same_bufferD)

lemma fits_vbprintf_loop: "vbprintf_loop mem fmt p = Inr q \<Longrightarrow> fits n p \<Longrightarrow> fits n q"
proof (induction mem fmt p rule: vbprintf_loop.induct)
  case (1 mem p)
  then show ?case by simp
next
  case (2 mem c fmt p)
  have z: "0 < room p \<Longrightarrow> room p \<noteq> 0" by (simp add: word_gt_0)
  show ?case
  proof (cases "0 < room p \<and> c = CHR ''%'' \<and> \<not> (fmt \<noteq> [] \<and> hd fmt = CHR ''%'')")
    case True
    then obtain fmt1 p1 where run: "run_directive mem fmt p = Inr (fmt1, p1)"
      "vbprintf_loop mem fmt1 p1 = Inr q"
      using "2.prems"(1) by (auto split: if_splits)
    then have "fits n p1" using fits_run_directive "2.prems"(2) True z by blast
    with run show ?thesis using "2.IH"(3) True by auto
  next
    case False
    then show ?thesis using 2 z by (auto split: if_splits intro: fits_put)
  qed
qed

lemma vbprintf_fits:
  assumes "vbprintf mem n fmt args = Inr (r, p)"
  shows "length (out p) \<le> unat n \<and> unat r = length (out p)"
proof -
  have "fits (unat n) \<lparr>out = [], room = n, va = args, stores = []\<rparr>" by (simp add: fits_def)
  then have "fits (unat n) p" using assms by (auto simp: vbprintf_def intro: fits_vbprintf_loop)
  then have "length (out p) \<le> unat n" by (simp add: fits_def)
  moreover have "unat n < 2 ^ 32" using unsigned_less [of n] by simp
  ultimately show ?thesis
    using assms by (auto simp: vbprintf_def unat_of_nat)
qed


text \<open>C10. \<^verbatim>\<open>vbprintf\<close> never writes past the buffer: whatever the format and the arguments, the
  number of characters written is what it returns, and it is at most \<^verbatim>\<open>max\<close>.\<close>

theorem vbprintf_bounded:
  assumes "vbprintf mem n fmt args = Inr (r, p)"
  shows "length (out p) \<le> unat n \<and> unat r = length (out p)"
  using assms by (rule vbprintf_fits)

section \<open>Numerals\<close>

text \<open>The number that a string of digits denotes, most significant digit first.\<close>

definition digit_value :: "char \<Rightarrow> nat" where
  "digit_value c =
     (let n = of_char c in if 97 \<le> n then n - 87 else if 65 \<le> n then n - 55 else n - 48)"

definition numeral_value :: "nat \<Rightarrow> string \<Rightarrow> nat" where
  "numeral_value base ds = foldl (\<lambda>v c. v * base + digit_value c) 0 ds"

lemma numeral_value_snoc [simp]:
  "numeral_value base (ds @ [c]) = numeral_value base ds * base + digit_value c"
  "numeral_value base [] = 0"
  by (simp_all add: numeral_value_def)

lemma numeral_value_zeros [simp]: "numeral_value base (replicate k (CHR ''0'') @ ds) = numeral_value base ds"
proof -
  have "foldl (\<lambda>v c. v * base + digit_value c) 0 (replicate k (CHR ''0'')) = 0"
    by (induction k) (simp_all add: digit_value_def)
  then show ?thesis by (simp add: numeral_value_def)
qed

lemma of_char_of_small: "n < 256 \<Longrightarrow> (of_char (char_of n) :: nat) = n"
  by (simp add: of_char_of)

lemma digit_value_simps:
  "n < 10 \<Longrightarrow> digit_value (char_of (48 + n)) = n"
  "10 \<le> n \<Longrightarrow> n < 16 \<Longrightarrow> digit_value (char_of (87 + n)) = n"
  "10 \<le> n \<Longrightarrow> n < 16 \<Longrightarrow> digit_value (char_of (55 + n)) = n"
  by (simp_all add: digit_value_def of_char_of_small)

lemma decimal_digits_value: "numeral_value 10 (rev (decimal_digits n)) = n"
proof (induction n rule: decimal_digits.induct)
  case (1 n)
  then show ?case
    by (subst decimal_digits.simps) (simp add: digit_value_simps div_mult_mod_eq)
qed

lemma octal_digits_value: "numeral_value 8 (rev (octal_digits n)) = n"
proof (induction n rule: octal_digits.induct)
  case (1 n)
  have and7: "n AND 7 = n mod 8" using take_bit_eq_mask [of 3 n] by (simp add: take_bit_eq_mod mask_eq_exp_minus_1)
  have "drop_bit 3 n = n div 8" by (simp add: drop_bit_eq_div)
  with 1 show ?case
    by (subst octal_digits.simps) (simp add: digit_value_simps and7 div_mult_mod_eq)
qed

lemma hex_digits_value:
  assumes "ten = 97 \<or> ten = 65"
  shows "numeral_value 16 (rev (hex_digits ten n)) = n"
  using assms
proof (induction ten n rule: hex_digits.induct)
  case (1 ten n)
  have and15: "n AND 15 = n mod 16" using take_bit_eq_mask [of 4 n] by (simp add: take_bit_eq_mod mask_eq_exp_minus_1)
  have d: "drop_bit 4 n = n div 16" by (simp add: drop_bit_eq_div)
  have "digit_value (char_of ((if n mod 16 < 10 then 48 else ten - 10) + n mod 16)) = n mod 16"
    using "1.prems" digit_value_simps [of "n mod 16"] by auto
  with 1 show ?case
    by (subst hex_digits.simps) (simp add: and15 d Let_def div_mult_mod_eq)
qed

lemma decimal_digits_length: "n < 10 ^ Suc k \<Longrightarrow> length (decimal_digits n) \<le> Suc k"
proof (induction k arbitrary: n)
  case 0
  then show ?case by (subst decimal_digits.simps) simp
next
  case (Suc k)
  then have "n div 10 < 10 ^ Suc k" by (simp add: div_less_iff_less_mult)
  from Suc.IH [OF this] show ?case by (subst decimal_digits.simps) simp
qed

lemma octal_digits_length: "n < 8 ^ Suc k \<Longrightarrow> length (octal_digits n) \<le> Suc k"
proof (induction k arbitrary: n)
  case 0
  then show ?case by (subst octal_digits.simps) (simp add: drop_bit_eq_div)
next
  case (Suc k)
  then have "n div 8 < 8 ^ Suc k" by (simp add: div_less_iff_less_mult)
  from Suc.IH [OF this] show ?case by (subst octal_digits.simps) (simp add: drop_bit_eq_div)
qed

lemma hex_digits_length: "n < 16 ^ Suc k \<Longrightarrow> length (hex_digits ten n) \<le> Suc k"
proof (induction k arbitrary: n)
  case 0
  then show ?case by (subst hex_digits.simps) (simp add: drop_bit_eq_div Let_def)
next
  case (Suc k)
  then have "n div 16 < 16 ^ Suc k" by (simp add: div_less_iff_less_mult)
  from Suc.IH [OF this] show ?case by (subst hex_digits.simps) (simp add: drop_bit_eq_div Let_def)
qed

lemma digits_fit:
  fixes n :: u64
  shows "length (decimal_digits (unat n)) \<le> 20" "length (octal_digits (unat n)) \<le> 22"
    "length (hex_digits ten (unat n)) \<le> 16"
  using decimal_digits_length [of "unat n" 19] octal_digits_length [of "unat n" 21]
    hex_digits_length [of "unat n" 15 ten] unat_limit(4) [of n] by simp_all

lemma digits_fit_32:
  fixes n :: u32
  shows "length (decimal_digits (unat n)) \<le> 10" "length (octal_digits (unat n)) \<le> 11"
    "length (hex_digits ten (unat n)) \<le> 8"
  using decimal_digits_length [of "unat n" 9] octal_digits_length [of "unat n" 10]
    hex_digits_length [of "unat n" 7 ten] unat_limit(3) [of n] by simp_all


section \<open>The array of digits is never overrun\<close>

lemma digits_22:
  fixes n :: u64 and m :: u32
  shows "length (decimal_digits (unat n)) \<le> 22" "length (octal_digits (unat n)) \<le> 22"
    "length (hex_digits ten (unat n)) \<le> 22"
    "length (decimal_digits (unat m)) \<le> 22" "length (octal_digits (unat m)) \<le> 22"
    "length (hex_digits ten (unat m)) \<le> 22"
  using digits_fit(1,2) [of n] digits_fit(3) [of ten n] digits_fit_32(1,2) [of m] digits_fit_32(3) [of ten m]
  by linarith+

lemma digit_array_ok: "length ds \<le> 22 \<Longrightarrow> digit_array ds = Inr ds"
  by (simp add: digit_array_def)

lemma va_word_Inl: "va_word p = Inl e \<Longrightarrow> e = NoArgument"
  by (auto simp: va_word_def split: list.splits)

lemma va_longlong_Inl: "va_longlong p = Inl e \<Longrightarrow> e = NoArgument"
  by (auto simp: va_longlong_def bindE_eq_Inl dest: va_word_Inl)

lemma signed_longlong_digits_length: "length (snd (signed_longlong_digits hp n)) \<le> 22"
  by (simp add: signed_longlong_digits_def Let_def digits_22)

lemma signed_long_digits_length: "length (snd (signed_long_digits hp n)) \<le> 22"
  by (simp add: signed_long_digits_def Let_def digits_22)

lemma signed_digits_Inl: "signed_digits d p = Inl e \<Longrightarrow> e = NoArgument"
  by (auto simp: signed_digits_def bindE_eq_Inl split_beta digit_array_ok signed_longlong_digits_length
      signed_long_digits_length split: if_splits dest: va_word_Inl va_longlong_Inl)

lemma unsigned_digits_Inl:
  assumes "\<And>n :: u64. length (f (unat n)) \<le> 22" and "\<And>n :: u32. length (f (unat n)) \<le> 22"
  shows "unsigned_digits f d p = Inl e \<Longrightarrow> e = NoArgument"
  using assms
  by (auto simp: unsigned_digits_def bindE_eq_Inl Let_def digit_array_ok split: if_splits
      dest: va_word_Inl va_longlong_Inl)

lemma print_pointer_Inl: "print_pointer d p = Inl e \<Longrightarrow> e = NoArgument"
  by (auto simp: print_pointer_def bindE_eq_Inl digit_array_ok digits_22 split: if_splits dest: va_word_Inl)

lemma conversion_Inl: "conversion mem c d p = Inl e \<Longrightarrow> e = NoArgument \<or> e = BadPointer"
proof -
  have u: "unsigned_digits f d' p = Inl e \<Longrightarrow> e = NoArgument"
    if "f = decimal_digits \<or> f = octal_digits \<or> f = hex_digits ten" for f ten d'
    by (rule unsigned_digits_Inl)
      (use that digits_22 in auto)
  assume "conversion mem c d p = Inl e"
  then show ?thesis
    by (auto simp: conversion_def bindE_eq_Inl print_char_def print_string_def string_at_def store_count_def Let_def
        split: if_split_asm option.splits
        dest: signed_digits_Inl va_word_Inl print_pointer_Inl u [OF disjI1 [OF refl]]
          u [OF disjI2 [OF disjI1 [OF refl]]] u [OF disjI2 [OF disjI2 [OF refl]]])
qed

lemma parse_width_Inl: "parse_width fmt d p = Inl e \<Longrightarrow> e = NoArgument"
  by (auto simp: parse_width_def bindE_eq_Inl split_beta split: if_split_asm list.splits dest: va_word_Inl)

lemma parse_precision_Inl: "parse_precision fmt d p = Inl e \<Longrightarrow> e = NoArgument"
  by (auto simp: parse_precision_def bindE_eq_Inl split_beta Let_def split: if_split_asm dest: va_word_Inl)

lemma run_directive_Inl:
  assumes "run_directive mem fmt p = Inl e"
  shows "e = NoArgument \<or> e = BadPointer \<or> e = Overrun"
proof -
  obtain f1 d1 where 1: "parse_flags fmt empty_directive = (f1, d1)" by fastforce
  show ?thesis
  proof (cases "parse_width f1 d1 p")
    case (Inl a)
    then show ?thesis using assms 1 parse_width_Inl by (auto simp: run_directive_def)
  next
    case (Inr r2)
    obtain f2 d2 p2 where 2: "r2 = (f2, d2, p2)" by (cases r2)
    show ?thesis
    proof (cases "parse_precision f2 d2 p2")
      case (Inl a)
      then show ?thesis using assms 1 2 Inr parse_precision_Inl by (auto simp: run_directive_def)
    next
      case (Inr r3)
      obtain f3 d3 p3 where 3: "r3 = (f3, d3, p3)" by (cases r3)
      then show ?thesis
        using assms 1 2 \<open>parse_width f1 d1 p = Inr r2\<close> Inr
        by (auto simp: run_directive_def split_beta bindE_eq_Inl split: list.splits dest: conversion_Inl)
    qed
  qed
qed

text \<open>C11. The only faults of \<^verbatim>\<open>vbprintf\<close> are those of its caller: too few arguments, a pointer
  for \<^verbatim>\<open>%s\<close> that points to no string or one for \<^verbatim>\<open>%n\<close> that points to no \<^verbatim>\<open>int\<close>, or a format that ends
  inside a directive. The array of 23 digits is never overrun, whatever the width of the number and the
  base.\<close>

theorem vbprintf_faults:
  assumes "vbprintf mem n fmt args = Inl e"
  shows "e \<in> {NoArgument, BadPointer, Overrun}"
proof -
  have "vbprintf_loop mem fmt p = Inl e \<Longrightarrow> e \<in> {NoArgument, BadPointer, Overrun}" for p
    by (induction mem fmt p rule: vbprintf_loop.induct)
      (auto simp: bindE_eq_Inl split: if_split_asm dest: run_directive_Inl)
  then show ?thesis using assms by (auto simp: vbprintf_def bindE_eq_Inl)
qed

section \<open>Conversions\<close>

lemma put_digits_out:
  "out (put_digits ds p) = out p @ take (unat (room p)) ds"
proof (induction ds p rule: put_digits.induct)
  case (1 p)
  then show ?case by simp
next
  case (2 c cs p)
  then show ?case
    using unat_gt_0 [of "room p"]
    by (cases "room p = 0") (auto simp: put_def unat_minus_one take_Cons')
qed

lemma numeral_value_0 [simp]: "numeral_value base ''0'' = 0"
  by (simp add: numeral_value_def digit_value_def)

lemma decimal_digits_ne [simp]: "decimal_digits n \<noteq> []"
  by (subst decimal_digits.simps) simp

lemma hex_digits_ne [simp]: "hex_digits ten n \<noteq> []"
  by (subst hex_digits.simps) (simp add: Let_def)

text \<open>The decimal digits of a number without leading zeros; no other text has this form and this value.\<close>

definition decimal_text :: "string \<Rightarrow> bool" where
  "decimal_text ds \<longleftrightarrow> ds \<noteq> [] \<and> (\<forall>c\<in>set ds. is_digit c) \<and> (hd ds = CHR ''0'' \<longrightarrow> ds = ''0'')"

lemma decimal_digits_text:
  "(\<forall>c\<in>set (decimal_digits n). is_digit c) \<and> (n \<noteq> 0 \<longrightarrow> last (decimal_digits n) \<noteq> CHR ''0'')"
proof (induction n rule: decimal_digits.induct)
  case (1 n)
  have c: "of_char (char_of (48 + n mod 10) :: char) = 48 + n mod 10" by (rule of_char_of_small) simp
  have "is_digit (char_of (48 + n mod 10))" unfolding is_digit_def c by simp
  moreover have "char_of (48 + n mod 10) \<noteq> CHR ''0''" if "n div 10 = 0" "n \<noteq> 0"
  proof
    assume "char_of (48 + n mod 10) = CHR ''0''"
    then have "of_char (char_of (48 + n mod 10) :: char) = (of_char (CHR ''0'') :: nat)" by (rule arg_cong)
    then have "48 + n mod 10 = 48" unfolding c by simp
    then show False using that by presburger
  qed
  ultimately show ?case
    using 1 by (subst (1 2) decimal_digits.simps) auto
qed

lemma decimal_text_digits: "n \<noteq> 0 \<Longrightarrow> decimal_text (rev (decimal_digits n))"
  using decimal_digits_text [of n] by (simp add: decimal_text_def hd_rev)

lemma signed_long_digits_value:
  obtains ds where "signed_long_digits False w = (sint w < 0, ds)" "decimal_text (rev ds)"
    "numeral_value 10 (rev ds) = nat \<bar>sint w\<bar>"
proof -
  consider "w = 0x80000000" | "w \<noteq> 0x80000000" "w <s 0" | "w \<noteq> 0x80000000" "\<not> w <s 0" by blast
  then show ?thesis
  proof cases
    case 1
    then show ?thesis
      by (intro that [of "''8463847412''"])
        (simp_all add: signed_long_digits_def numeral_value_def digit_value_def sint_32 decimal_text_def is_digit_def)
  next
    case 2
    have neg: "sint w < 0" using 2(2) by (simp add: word_sless_alt)
    have "w \<noteq> 0" using neg by auto
    have "int (unat (- w)) = - sint w"
      using neg \<open>w \<noteq> 0\<close> unat_limit(3) [of w] unat_gt_0 [of w] unat_sub_if_size [of 0 w]
      by (simp add: sint_32 word_size split: if_splits)
    then have "unat (- w) = nat \<bar>sint w\<bar>" using neg by linarith
    then show ?thesis
      using 2 neg \<open>w \<noteq> 0\<close> by (intro that [of "decimal_digits (unat (- w))"])
        (simp_all add: signed_long_digits_def Let_def decimal_digits_value decimal_text_digits unat_eq_zero)
  next
    case 3
    have pos: "\<not> sint w < 0" using 3(2) by (simp add: word_sless_alt)
    moreover have "uint w < 2 ^ 32" using unsigned_less [of w] by simp
    ultimately have "int (unat w) = sint w" by (simp add: sint_32 split: if_splits)
    then have "unat w = nat \<bar>sint w\<bar>" using pos by linarith
    then show ?thesis
      using 3 pos decimal_text_digits [of "unat w"] unat_eq_zero [of w] by (intro that [of "if w \<noteq> 0 then decimal_digits (unat w) else ''0''"])
        (auto simp: signed_long_digits_def Let_def decimal_digits_value decimal_text_def [of "''0''"] is_digit_def)
  qed
qed



lemma vbprintf_plain_d:
  "\<exists>ds r p. vbprintf mem n ''%d'' [w] = Inr (r, p) \<and> decimal_text ds \<and>
     numeral_value 10 ds = nat \<bar>sint w\<bar> \<and>
     out p = take (unat n) ((if sint w < 0 then ''-'' else []) @ ds)"
proof -
  obtain ds where ds: "signed_long_digits False w = (sint w < 0, ds)" "decimal_text (rev ds)"
    "numeral_value 10 (rev ds) = nat \<bar>sint w\<bar>"
    by (rule signed_long_digits_value)
  let ?p = "\<lparr>out = [], room = n, va = [w], stores = []\<rparr>"
  let ?q = "print_signed empty_directive (sint w < 0) ds (?p\<lparr>va := []\<rparr>)"
  have "length ds \<le> 22" using signed_long_digits_length [of False w] ds(1) by simp
  then have run: "run_directive mem ''d'' ?p = Inr ([], ?q)"
    using ds(1) by (simp add: run_directive_def parse_width_def parse_precision_def parse_length_def
      is_digit_def conversion_def signed_digits_def va_word_def narrow_signed_def digit_array_ok empty_directive_def)
  have out: "out ?q = take (unat n) ((if sint w < 0 then ''-'' else []) @ rev ds)" if "n \<noteq> 0"
    using that unat_gt_0 [of n]
    by (simp add: print_signed_def precision_zeros_def empty_directive_def Let_def fill_clipped_def fill_def
        pad_right_def put_digits_out put_sign_def put_def unat_minus_one take_Cons')
  show ?thesis
  proof (cases "n = 0")
    case True
    then show ?thesis using ds by (intro exI [of _ "rev ds"]) (simp add: vbprintf_def)
  next
    case False
    then show ?thesis
      using ds run out by (intro exI [of _ "rev ds"]) (simp add: vbprintf_def word_gt_0)
  qed
qed


text \<open>C30. \<^verbatim>\<open>%d\<close> prints its argument: a minus sign for a negative number, and then the decimal digits of
  the absolute value, without leading zeros, a zero as one digit, the most negative number included. A
  buffer that is too small gets the beginning of that text.\<close>

theorem vbprintf_d:
  "\<exists>ds r p. vbprintf mem n ''%d'' [w] = Inr (r, p) \<and> decimal_text ds \<and>
     numeral_value 10 ds = nat \<bar>sint w\<bar> \<and>
     out p = take (unat n) ((if sint w < 0 then ''-'' else []) @ ds)"
  by (rule vbprintf_plain_d)

text \<open>The unsigned conversions, up to the choice of the digits.\<close>

lemma print_unsigned_plain:
  "room p \<noteq> 0 \<Longrightarrow> out (print_unsigned_number empty_directive False pu ds p) = out p @ take (unat (room p)) (rev ds)"
  by (simp add: print_unsigned_number_def alternative_width_def precision_zeros_def empty_directive_def Let_def
      fill_clipped_def fill_def pad_right_def put_digits_out)

lemma print_unsigned_padded:
  assumes "min_width d = of_nat k" and "k < 2 ^ 32" and "length ds \<le> k" and "\<not> has_precision d"
    and "\<not> left_adjust d" and "zero_padd d"
  shows "out (print_unsigned_number d False pu ds p) =
           out p @ take (unat (room p)) (replicate (k - length ds) (CHR ''0'') @ rev ds)"
proof -
  have len: "unat (of_nat (length ds) :: u32) = length ds" "unat (of_nat k :: u32) = k"
    using assms(2,3) by (simp_all add: unat_of_nat)
  show ?thesis
  proof (cases "length ds = k")
    case True
    then show ?thesis
      using assms by (simp add: print_unsigned_number_def alternative_width_def precision_zeros_def Let_def
          fill_clipped_def fill_def pad_right_def put_digits_out)
  next
    case False
    then have lt: "length ds < k" using assms(3) by simp
    then have nle: "\<not> (of_nat k :: u32) \<le> of_nat (length ds)" using len by (simp add: word_le_nat_alt)
    have w: "unat (of_nat k - of_nat (length ds) :: u32) = k - length ds"
      using lt len by (simp add: unat_sub word_le_nat_alt)
    have "out (fill_clipped (CHR ''0'') (of_nat k - of_nat (length ds)) p) =
        out p @ take (unat (room p)) (replicate (k - length ds) (CHR ''0''))"
      "unat (room (fill_clipped (CHR ''0'') (of_nat k - of_nat (length ds)) p)) = unat (room p) - (k - length ds)"
      using w by (auto simp: fill_clipped_def fill_def Let_def word_less_nat_alt unat_sub word_le_nat_alt min_def)
    then show ?thesis
      using assms nle by (simp add: print_unsigned_number_def alternative_width_def precision_zeros_def Let_def
          put_digits_out fill_clipped_def [of _ 0] fill_def)
  qed
qed

text \<open>\<^verbatim>\<open>%08x\<close>, the conversion the kernel prints registers with, prints exactly eight
  hexadecimal digits whose value is the argument.\<close>

theorem vbprintf_08x:
  "\<exists>ds r p. vbprintf mem n ''%08x'' [w] = Inr (r, p) \<and> length ds = 8 \<and>
     numeral_value 16 ds = unat w \<and> out p = take (unat n) ds"
proof -
  let ?p = "\<lparr>out = [], room = n, va = [w], stores = []\<rparr>"
  let ?d = "empty_directive\<lparr>zero_padd := True, min_width := 8\<rparr>"
  define ds where "ds = (if w = 0 then ''0'' else hex_digits 97 (unat w))"
  have len: "length ds \<le> 8" using digits_fit_32(3) [where ten = 97 and n = w] by (simp add: ds_def)
  have val: "numeral_value 16 (rev ds) = unat w"
    by (simp add: ds_def hex_digits_value)
  let ?q = "print_unsigned_number ?d False pu_hex ds (?p\<lparr>va := []\<rparr>)"
  have run: "run_directive mem ''08x'' ?p = Inr ([], ?q)"
    by (simp add: run_directive_def parse_width_def parse_precision_def parse_length_def is_digit_def
        conversion_def unsigned_digits_def va_word_def narrow_unsigned_def digit_array_ok digits_22 ds_def empty_directive_def
        del: bindE_eq_Inr)
  have out: "out ?q = take (unat n) (replicate (8 - length ds) (CHR ''0'') @ rev ds)"
    using print_unsigned_padded [of ?d 8 ds pu_hex "?p\<lparr>va := []\<rparr>"] len by (simp add: empty_directive_def)
  show ?thesis
    using len val out run
    by (intro exI [of _ "replicate (8 - length ds) (CHR ''0'') @ rev ds"])
      (auto simp: vbprintf_def word_gt_0)
qed


text \<open>\<^verbatim>\<open>%s\<close> copies the string, cut to the size of the buffer.\<close>

theorem vbprintf_s:
  assumes "c_string mem a = Some str"
  shows "\<exists>r p. vbprintf mem n ''%s'' [a] = Inr (r, p) \<and> out p = take (unat n) str"
proof -
  let ?p = "\<lparr>out = [], room = n, va = [a], stores = []\<rparr>"
  have run: "run_directive mem ''s'' ?p = Inr ([], print_string_left empty_directive str (?p\<lparr>va := []\<rparr>))"
    using assms by (simp add: run_directive_def parse_width_def parse_precision_def parse_length_def is_digit_def
        conversion_def print_string_def string_at_def va_word_def empty_directive_def del: bindE_eq_Inr)
  have "out (print_string_left empty_directive str (?p\<lparr>va := []\<rparr>)) = take (unat n) str"
    by (simp add: print_string_left_def Let_def empty_directive_def put_digits_out)
  then show ?thesis
    using run by (auto simp: vbprintf_def word_gt_0)
qed

theorem vbprintf_s_witness:
  "\<exists>r p. vbprintf (no_pointees\<lparr>c_string := [0x1000 \<mapsto> ''borfos'']\<rparr>) 4 ''%s'' [0x1000] = Inr (r, p) \<and> out p = ''borf''"
  using vbprintf_s [where mem = "no_pointees\<lparr>c_string := [0x1000 \<mapsto> ''borfos'']\<rparr>" and a = "0x1000" and n = 4]
  by simp

lemma vbprintf_literal:
  assumes "CHR ''%'' \<notin> set fmt"
  shows "\<exists>r p. vbprintf mem n fmt args = Inr (r, p) \<and> out p = take (unat n) fmt \<and> va p = args"
proof -
  have "\<exists>q. vbprintf_loop mem fmt p = Inr q \<and> out q = out p @ take (unat (room p)) fmt \<and> va q = va p" for p
    using assms
  proof (induction fmt arbitrary: p)
    case Nil
    then show ?case by simp
  next
    case (Cons c fmt)
    then obtain q where q: "vbprintf_loop mem fmt (put c p) = Inr q"
      "out q = out (put c p) @ take (unat (room (put c p))) fmt" "va q = va (put c p)" by auto
    show ?case
      using q Cons.prems unat_gt_0 [of "room p"]
      by (cases "room p = 0") (auto simp: put_def unat_minus_one take_Cons' word_gt_0)
  qed
  from this [of "\<lparr>out = [], room = n, va = args, stores = []\<rparr>"] show ?thesis
    by (auto simp: vbprintf_def)
qed

text \<open>A text without directives is copied, cut to the size of the buffer, and no
  argument is used.\<close>

theorem vbprintf_text:
  assumes "CHR ''%'' \<notin> set fmt"
  shows "\<exists>r p. vbprintf mem n fmt args = Inr (r, p) \<and> out p = take (unat n) fmt \<and> va p = args"
  using assms by (rule vbprintf_literal)

theorem vbprintf_text_witness:
  "\<exists>r p. vbprintf no_pointees 3 ''borfos'' [7] = Inr (r, p) \<and> out p = ''bor'' \<and> va p = [7]"
  using vbprintf_text [where fmt = "''borfos''" and mem = no_pointees and n = 3 and args = "[7]"] by simp

section \<open>Where a conversion goes wrong\<close>

text \<open>A precision larger than the number of digits fills the whole buffer with zeros: the
  number of leading zeros is computed as 0 minus the number of digits, which wraps around. The
  number itself is not printed.\<close>

theorem vbprintf_precision_floods:
  assumes "0 < n" and "n \<le> 0xFFFFFFFE"
  shows "\<exists>r p. vbprintf mem n ''%.5d'' [42] = Inr (r, p) \<and> out p = replicate (unat n) (CHR ''0'')"
proof -
  let ?p = "\<lparr>out = [], room = n, va = [42], stores = []\<rparr>"
  let ?d = "empty_directive\<lparr>precision := 5, has_precision := True\<rparr>"
  have "decimal_digits 42 = ''24''"
    by code_simp
  then have ds: "signed_long_digits True 42 = (False, ''24'')"
    by (simp add: signed_long_digits_def word_sless_alt sint_32)
  have run: "run_directive mem ''.5d'' ?p = Inr ([], print_signed ?d False ''24'' (?p\<lparr>va := []\<rparr>))"
    using ds by (simp add: run_directive_def parse_width_def parse_precision_def parse_length_def is_digit_def
        conversion_def signed_digits_def va_word_def narrow_signed_def digit_array_ok empty_directive_def del: bindE_eq_Inr)
  have eq: "(- 2 :: u32) = 0xFFFFFFFE" by simp
  have "\<not> n < - 2 \<longrightarrow> n = - 2"
    unfolding eq not_less using assms(2) by (blast intro: antisym)
  then have "out (print_signed ?d False ''24'' (?p\<lparr>va := []\<rparr>)) = replicate (unat n) (CHR ''0'')"
    by (auto simp: print_signed_def precision_zeros_def empty_directive_def Let_def fill_clipped_def fill_def
        pad_right_def put_digits_out not_less)
  then show ?thesis
    using assms(1) run by (auto simp: vbprintf_def)
qed

theorem vbprintf_precision_floods_witness:
  "\<exists>r p. vbprintf no_pointees 8 ''%.5d'' [42] = Inr (r, p) \<and> out p = ''00000000''"
proof -
  have "replicate 8 (CHR ''0'') = ''00000000''" by (simp add: numeral_eq_Suc)
  with vbprintf_precision_floods [where n = 8 and mem = no_pointees] show ?thesis by simp
qed

text \<open>Zero padding goes in front of the sign, and a format that ends in \<^verbatim>\<open>%\<close> is read past
  its terminator.\<close>

theorem vbprintf_sign_and_end:
  "(\<exists>r p. vbprintf mem 16 ''%05d'' [-42] = Inr (r, p) \<and> out p = ''00-42'') \<and>
   vbprintf mem 16 ''50%'' args = Inl Overrun"
proof
  let ?p = "\<lparr>out = [], room = 16, va = [-42], stores = []\<rparr>"
  let ?d = "empty_directive\<lparr>zero_padd := True, min_width := 5\<rparr>"
  have "decimal_digits 42 = ''24''"
    by code_simp
  then have ds: "signed_long_digits False (-42) = (True, ''24'')"
    by (simp add: signed_long_digits_def word_sless_alt sint_32)
  have run: "run_directive mem ''05d'' ?p = Inr ([], print_signed ?d True ''24'' (?p\<lparr>va := []\<rparr>))"
    using ds by (simp add: run_directive_def parse_width_def parse_precision_def parse_length_def is_digit_def
        conversion_def signed_digits_def va_word_def narrow_signed_def digit_array_ok empty_directive_def del: bindE_eq_Inr)
  have "out (print_signed ?d True ''24'' (?p\<lparr>va := []\<rparr>)) = ''00-42''"
    by code_simp
  then show "\<exists>r p. vbprintf mem 16 ''%05d'' [-42] = Inr (r, p) \<and> out p = ''00-42''"
    using run by (simp add: vbprintf_def)
  show "vbprintf mem 16 ''50%'' args = Inl Overrun"
    by (simp add: vbprintf_def put_def run_directive_def parse_width_def parse_precision_def parse_length_def)
qed


theorem vbprintf_bounded_witness:
  "\<exists>r p. vbprintf no_pointees 2 ''%d'' [-42] = Inr (r, p) \<and> length (out p) \<le> 2 \<and> unat r = length (out p)"
proof -
  obtain r p where run: "vbprintf no_pointees 2 ''%d'' [-42] = Inr (r, p)"
    using vbprintf_plain_d [where n = 2 and mem = no_pointees and w = "-42"] by blast
  from vbprintf_bounded [OF this] have "length (out p) \<le> 2 \<and> unat r = length (out p)" by simp
  with run show ?thesis by blast
qed

theorem vbprintf_faults_witness:
  "\<exists>e. vbprintf no_pointees 16 ''5%'' [] = Inl e \<and> e \<in> {NoArgument, BadPointer, Overrun}"
proof -
  have run: "vbprintf no_pointees 16 ''5%'' [] = Inl Overrun" by code_simp
  from vbprintf_faults [OF this] run show ?thesis by blast
qed

end
