(* ===== verification/KPrintf.thy ===== *)
theory KPrintf
  imports KList BPrintfProps FileOps
begin

text \<open>
  \<^verbatim>\<open>kernel/lib/kprintf.c\<close> and \<^verbatim>\<open>kernel/include/kprintf.h\<close>: formatted lines written to every
  registered device. The list \<^verbatim>\<open>backends\<close> links the \<^verbatim>\<open>kprintf_node\<close> of the files.
\<close>

datatype 'f knode = Backends | KNode 'f

definition kprintf_register :: "'f \<Rightarrow> 'f knode links \<Rightarrow> 'f knode links" where
  "kprintf_register file h = list_insert_before Backends (KNode file) h"

definition MAX_LENGTH :: nat where
  "MAX_LENGTH = 128"

text \<open>The line in \<^verbatim>\<open>buffer\<close>: a newline is appended, or replaces the last character.\<close>

definition kprintf_line :: "pointees \<Rightarrow> string \<Rightarrow> u32 list \<Rightarrow> string result" where
  "kprintf_line mem format ap =
     bindE (vbprintf mem (of_nat MAX_LENGTH) format ap) (\<lambda>(l, p).
       Inr (if l < of_nat MAX_LENGTH then out p @ [CHR 0x0A]
            else (out p)[MAX_LENGTH - 1 := CHR 0x0A]))"

text \<open>One step of the loop over the devices, \<open>write_buffer\<close> being the file's operation.\<close>

definition kprintf_step ::
  "('f \<Rightarrow> u8 list \<Rightarrow> 's \<Rightarrow> (int \<times> 's) result) \<Rightarrow> string \<Rightarrow> 'f knode \<Rightarrow> 's result \<Rightarrow> 's result" where
  "kprintf_step write_buffer line node s =
     (case node of
        Backends \<Rightarrow> Inl BadPointer
      | KNode file \<Rightarrow> bindE s (\<lambda>s. bindE (write_buffer file (map of_char line) s) (\<lambda>(r, s). Inr s)))"

definition kprintf ::
  "('f \<Rightarrow> u8 list \<Rightarrow> 's \<Rightarrow> (int \<times> 's) result) \<Rightarrow> pointees \<Rightarrow> string \<Rightarrow> u32 list \<Rightarrow>
     'f knode links \<Rightarrow> 's \<Rightarrow> 's result" where
  "kprintf write_buffer mem format ap h s =
     (if list_is_empty h Backends then Inr s
      else bindE (kprintf_line mem format ap) (\<lambda>line.
        case list_foreach h Backends (kprintf_step write_buffer line) (Inr s) of
          None \<Rightarrow> Inl Hang
        | Some r \<Rightarrow> r))"

section \<open>Lines\<close>

text \<open>What \<^verbatim>\<open>kprintf\<close> sends is a line of at most 128 bytes that ends in a newline; a text
  that fits in 127 bytes is sent whole.\<close>

theorem kprintf_line_shape:
  assumes "kprintf_line mem format ap = Inr line"
  shows "line \<noteq> [] \<and> length line \<le> MAX_LENGTH \<and> last line = CHR 0x0A \<and>
         (\<exists>r p. vbprintf mem 128 format ap = Inr (r, p) \<and> butlast line = take 127 (out p))"
proof -
  obtain l p where run: "vbprintf mem 128 format ap = Inr (l, p)"
    and line: "line = (if l < 128 then out p @ [CHR 0x0A] else (out p)[127 := CHR 0x0A])"
    using assms by (auto simp: kprintf_line_def MAX_LENGTH_def)
  have len: "length (out p) \<le> 128" "unat l = length (out p)"
    using vbprintf_fits [OF run] by simp_all
  show ?thesis
  proof (cases "l < 128")
    case True
    then have "length (out p) < 128" using len by (simp add: word_less_nat_alt)
    then show ?thesis using True line run by (simp add: MAX_LENGTH_def)
  next
    case False
    then have "length (out p) = 128" using len by (simp add: word_less_nat_alt)
    then have "line = take 127 (out p) @ [CHR 0x0A]"
      using False line by (simp add: upd_conv_take_nth_drop)
    then show ?thesis using run \<open>length (out p) = 128\<close> by (auto simp: MAX_LENGTH_def)
  qed
qed

theorem kprintf_line_shape_witness:
  "\<exists>line. kprintf_line no_pointees ''%d'' [7] = Inr line \<and> line \<noteq> [] \<and> last line = CHR 0x0A"
proof -
  obtain r p where "vbprintf no_pointees 128 ''%d'' [7] = Inr (r, p)"
    using vbprintf_plain_d [where n = 128 and mem = no_pointees and w = 7] by blast
  then obtain line where run: "kprintf_line no_pointees ''%d'' [7] = Inr line"
    by (simp add: kprintf_line_def MAX_LENGTH_def)
  from kprintf_line_shape [OF this] run show ?thesis by blast
qed

section \<open>The devices\<close>

definition backend_list :: "'f knode links \<Rightarrow> 'f list \<Rightarrow> bool" where
  "backend_list h files \<longleftrightarrow> family h {Backends} (range KNode) ((\<lambda>_. [])(Backends := map KNode files))"

lemma backend_list_register:
  assumes "backend_list h files" and "f \<notin> set files"
  shows "backend_list (kprintf_register f h) (files @ [f])"
  using kl.put_tail [of h "{Backends}" "range KNode" "(\<lambda>_. [])(Backends := map KNode files)" Backends "KNode f"] assms
  by (auto simp: backend_list_def kprintf_register_def members_def)

text \<open>The writes to the devices in the order they were registered.\<close>

fun write_each ::
  "('f \<Rightarrow> u8 list \<Rightarrow> 's \<Rightarrow> (int \<times> 's) result) \<Rightarrow> u8 list \<Rightarrow> 'f list \<Rightarrow> 's \<Rightarrow> 's result" where
  "write_each write_buffer bytes [] s = Inr s"
| "write_each write_buffer bytes (f # fs) s =
     bindE (write_buffer f bytes s) (\<lambda>(r, s). write_each write_buffer bytes fs s)"

lemma fold_kprintf_step:
  "fold (kprintf_step wbuf line) (map KNode files) s = bindE s (write_each wbuf (map of_char line) files)"
proof (induction files arbitrary: s)
  case Nil
  then show ?case by (cases s) simp_all
next
  case (Cons f fs)
  then show ?case by (cases s) (simp_all add: kprintf_step_def bindE_assoc split_def)
qed

text \<open>\<^verbatim>\<open>kprintf\<close> writes the same line once to every registered device, in the order of
  registration; it prints nothing and evaluates nothing when there is no device.\<close>

theorem kprintf_all_devices:
  assumes "backend_list h files"
  shows "kprintf wbuf mem format ap h s =
    (if files = [] then Inr s
     else bindE (kprintf_line mem format ap) (\<lambda>line. write_each wbuf (map of_char line) files s))"
proof -
  have fam: "family h {Backends} (range KNode) ((\<lambda>_. [])(Backends := map KNode files))"
    using assms by (simp add: backend_list_def)
  have "list_is_empty h Backends \<longleftrightarrow> files = []" using kl.emp_head [OF fam] by simp
  moreover have "list_foreach h Backends body t = Some (fold body (map KNode files) t)"
    for body and t :: "'b result"
    using list_foreach_family [OF fam, of Backends body t] by simp
  ultimately show ?thesis by (simp add: kprintf_def fold_kprintf_step)
qed

theorem kprintf_all_devices_witness:
  "\<exists>h :: nat knode links. kprintf (\<lambda>f b s. Inr (1, s @ [(f, b)])) no_pointees ''A'' [] h [] =
     Inr [(1, [65, 10]), (2, [65, 10])]"
proof -
  let ?h = "\<lparr>prv = (\<lambda>n. n), nxt = (\<lambda>n. n)\<rparr> :: nat knode links"
  have "backend_list ?h []" by (auto simp: backend_list_def family_def ring_Nil members_def)
  then have h: "backend_list (kprintf_register 2 (kprintf_register 1 ?h)) [1, 2]"
    using backend_list_register [of ?h "[]" 1] backend_list_register [of "kprintf_register 1 ?h" "[1]" 2] by simp
  obtain r p where run: "vbprintf no_pointees 128 ''A'' [] = Inr (r, p)" "out p = ''A''"
    using vbprintf_literal [where fmt = "''A''" and mem = no_pointees and n = 128 and args = "[]"] by auto
  then have "unat r = 1" using vbprintf_fits [OF run(1)] by simp
  then have "kprintf_line no_pointees ''A'' [] = Inr [CHR ''A'', CHR 0x0A]"
    using run by (simp add: kprintf_line_def MAX_LENGTH_def word_less_nat_alt)
  then show ?thesis by (intro exI, subst kprintf_all_devices [OF h]) simp
qed

end
