(* ===== verification/Serial.thy ===== *)
theory Serial
  imports KPrintf
begin

text \<open>
  \<^verbatim>\<open>kernel/drivers/serial.c\<close>: the serial ports. The line status register is read from
  \<open>line_status\<close>, the values the hardware will return; when they run out without the port being
  ready, \<^verbatim>\<open>serial_write_byte\<close> waits forever.
\<close>

definition IE :: u16 where "IE = 1"
definition DIV_LS :: u16 where "DIV_LS = 0"
definition DIV_MS :: u16 where "DIV_MS = 1"
definition IIFIFO :: u16 where "IIFIFO = 2"
definition LINE_CONTROL :: u16 where "LINE_CONTROL = 3"
definition MODEM_CONTROL :: u16 where "MODEM_CONTROL = 4"
definition LINE_STATUS :: u16 where "LINE_STATUS = 5"

record serial =
  io_port :: "u16 list"
  line_status :: "u8 list"
  serial_io :: "port_io list"

text \<open>\<^verbatim>\<open>while(0 == (inb(self->io_port + LINE_STATUS) & 0x20));\<close>\<close>

fun serial_wait :: "u8 list \<Rightarrow> u8 list result" where
  "serial_wait [] = Inl Hang"
| "serial_wait (st # sts) = (if st AND 0x20 = 0 then serial_wait sts else Inr sts)"

definition serial_write_byte :: "nat \<Rightarrow> serial write_byte" where
  "serial_write_byte i b self =
     bindE (serial_wait (line_status self)) (\<lambda>sts.
       Inr (1, self\<lparr>line_status := sts, serial_io := serial_io self @ [OutB (io_port self ! i) b]\<rparr>))"

definition serial_exists :: "nat \<Rightarrow> serial \<Rightarrow> bool" where
  "serial_exists i self = (io_port self ! i \<noteq> 0)"

definition serial_setup :: "u16 \<Rightarrow> port_io list" where
  "serial_setup port =
     [OutB (port + IE) 0, OutB (port + LINE_CONTROL) 0x80, OutB (port + DIV_LS) 1,
      OutB (port + DIV_MS) 0, OutB (port + LINE_CONTROL) 0x03, OutB (port + IIFIFO) 0xc7,
      OutB (port + MODEM_CONTROL) 4, OutB (port + IE) 1]"

fun serial_init_ports :: "u16 list \<Rightarrow> serial \<Rightarrow> serial" where
  "serial_init_ports [] s = s"
| "serial_init_ports (port # ports) s =
     serial_init_ports ports
       (s\<lparr>io_port := io_port s @ [port],
          serial_io := serial_io s @ (if port \<noteq> 0 then serial_setup port else [])\<rparr>)"

text \<open>
  The constructor: \<open>com_ports\<close> are the four port numbers in the BIOS data area; the first port
  becomes a device of \<^verbatim>\<open>kprintf\<close> under the name \<open>file\<close>.
\<close>

definition serial_init :: "'f \<Rightarrow> u16 list \<Rightarrow> 'f knode links \<Rightarrow> serial \<Rightarrow> 'f knode links \<times> serial" where
  "serial_init file com_ports h s =
     (let s = serial_init_ports com_ports (s\<lparr>io_port := []\<rparr>)
      in (if serial_exists 0 s then kprintf_register file h else h, s))"

section \<open>Sending\<close>

definition ready_readings :: "u8 list \<Rightarrow> nat" where
  "ready_readings sts = length (filter (\<lambda>st. st AND 0x20 \<noteq> 0) sts)"

lemma serial_wait_ready:
  "Suc n \<le> ready_readings sts \<Longrightarrow> \<exists>sts'. serial_wait sts = Inr sts' \<and> n \<le> ready_readings sts'"
  by (induction sts) (auto simp: ready_readings_def)

definition after_serial :: "nat \<Rightarrow> u8 \<Rightarrow> serial \<Rightarrow> serial" where
  "after_serial i b s = (case serial_write_byte i b s of Inr (_, s') \<Rightarrow> s' | Inl _ \<Rightarrow> s)"

lemma serial_write_byte_ready:
  assumes "Suc n \<le> ready_readings (line_status s)"
  shows "serial_write_byte i b s = Inr (1, after_serial i b s)"
    and "n \<le> ready_readings (line_status (after_serial i b s))"
    and "serial_io (after_serial i b s) = serial_io s @ [OutB (io_port s ! i) b]"
    and "io_port (after_serial i b s) = io_port s"
proof -
  obtain sts where "serial_wait (line_status s) = Inr sts" "n \<le> ready_readings sts"
    using serial_wait_ready [OF assms] by blast
  then show "serial_write_byte i b s = Inr (1, after_serial i b s)"
    "n \<le> ready_readings (line_status (after_serial i b s))"
    "serial_io (after_serial i b s) = serial_io s @ [OutB (io_port s ! i) b]"
    "io_port (after_serial i b s) = io_port s"
    by (simp_all add: after_serial_def serial_write_byte_def)
qed

interpretation seriald: byte_device "serial_write_byte i" "\<lambda>n s. n \<le> ready_readings (line_status s)" "after_serial i"
  for i
  by unfold_locales (erule serial_write_byte_ready)+

lemma fold_after_serial:
  "length buf \<le> ready_readings (line_status s) \<Longrightarrow>
    serial_io (fold (after_serial i) buf s) = serial_io s @ map (OutB (io_port s ! i)) buf"
proof (induction buf arbitrary: s)
  case Nil
  then show ?case by simp
next
  case (Cons b buf)
  then show ?case
    using serial_write_byte_ready(2-4) [of "length buf" s i b] by simp
qed

text \<open>Sending a buffer over a serial line that becomes ready often enough writes its bytes to
  the port's data register, each once and in order; if the line never becomes ready, the kernel
  waits forever.\<close>

theorem serial_write_buffer:
  "(length buf \<le> ready_readings (line_status s) \<longrightarrow>
     (\<exists>s'. file_default_write_buffer (serial_write_byte i) buf s = Inr (int (length buf), s') \<and>
        serial_io s' = serial_io s @ map (OutB (io_port s ! i)) buf)) \<and>
   (ready_readings (line_status s) = 0 \<and> buf \<noteq> [] \<longrightarrow>
     file_default_write_buffer (serial_write_byte i) buf s = Inl Hang)"
proof (intro conjI impI)
  assume "length buf \<le> ready_readings (line_status s)"
  then show "\<exists>s'. file_default_write_buffer (serial_write_byte i) buf s = Inr (int (length buf), s') \<and>
      serial_io s' = serial_io s @ map (OutB (io_port s ! i)) buf"
    using seriald.write_buffer_all(1) [of buf 0 s i] fold_after_serial [of buf s i] by simp
next
  have "ready_readings sts = 0 \<Longrightarrow> serial_wait sts = Inl Hang" for sts
    by (induction sts) (auto simp: ready_readings_def split: if_splits)
  moreover assume "ready_readings (line_status s) = 0 \<and> buf \<noteq> []"
  ultimately show "file_default_write_buffer (serial_write_byte i) buf s = Inl Hang"
    by (cases buf) (simp_all add: file_default_write_buffer_def serial_write_byte_def)
qed

theorem serial_write_buffer_witness:
  "\<exists>s'. file_default_write_buffer (serial_write_byte 0) [65, 66]
          \<lparr>io_port = [0x3F8, 0, 0, 0], line_status = [0, 0x20, 0x60], serial_io = []\<rparr> = Inr (2, s') \<and>
        serial_io s' = [OutB 0x3F8 65, OutB 0x3F8 66]"
  using serial_write_buffer [of "[65, 66]"
      "\<lparr>io_port = [0x3F8, 0, 0, 0], line_status = [0, 0x20, 0x60], serial_io = []\<rparr>" 0]
  by (simp add: ready_readings_def)

end
