(* ===== verification/Timers.thy ===== *)
theory Timers
  imports KList
begin

text \<open>
  \<^verbatim>\<open>kernel/include/timers.h\<close> and \<^verbatim>\<open>kernel/lib/timers.c\<close>: the list of pending timers, ordered
  by the time they are due. The record is extended by the components that keep more state.
  \<open>tsc\<close> is the sequence of values the time stamp counter will be read as, \<open>backend_calls\<close> the
  calls of \<^verbatim>\<open>timer_backend_set\<close>, and \<open>backend\<close> tells whether that pointer has been set.
\<close>

section \<open>State\<close>

datatype 't tnode = Timers | TNode 't

record ('t, 'f, 'a) timers =
  tlinks :: "'t tnode links"
  due :: "'t \<Rightarrow> u64"
  func :: "'t \<Rightarrow> 'f"
  arg :: "'t \<Rightarrow> 'a"
  backend :: bool
  backend_calls :: "u64 list"
  tsc :: "nat \<Rightarrow> u64"
  tsc_reads :: nat

type_synonym ('t, 'f, 'a, 'z) timer_state = "('t, 'f, 'a, 'z) timers_scheme"

section \<open>Operations\<close>

definition now :: "('t, 'f, 'a, 'z) timer_state \<Rightarrow> u64 \<times> ('t, 'f, 'a, 'z) timer_state" where
  "now s = (tsc s (tsc_reads s), s\<lparr>tsc_reads := Suc (tsc_reads s)\<rparr>)"

definition timer_backend_set :: "u64 \<Rightarrow> ('t, 'f, 'a, 'z) timer_state \<Rightarrow> ('t, 'f, 'a, 'z) timer_state" where
  "timer_backend_set w s = s\<lparr>backend_calls := backend_calls s @ [w]\<rparr>"

definition timer_init ::
  "'t \<Rightarrow> u64 \<Rightarrow> 'f \<Rightarrow> 'a \<Rightarrow> ('t, 'f, 'a, 'z) timer_state \<Rightarrow> ('t, 'f, 'a, 'z) timer_state" where
  "timer_init self w f a s =
     s\<lparr>tlinks := list_init (TNode self) (tlinks s), due := (due s)(self := w),
       func := (func s)(self := f), arg := (arg s)(self := a)\<rparr>"

definition timer_relative_init ::
  "'t \<Rightarrow> u64 \<Rightarrow> 'f \<Rightarrow> 'a \<Rightarrow> ('t, 'f, 'a, 'z) timer_state \<Rightarrow> ('t, 'f, 'a, 'z) timer_state" where
  "timer_relative_init self w f a s = (case now s of (t, s) \<Rightarrow> timer_init self (t + w) f a s)"

definition timer_is_registered :: "'t \<Rightarrow> ('t, 'f, 'a, 'z) timer_state \<Rightarrow> bool" where
  "timer_is_registered self s = (\<not> list_is_empty (tlinks s) (TNode self))"

text \<open>\<^verbatim>\<open>when\<close> of the timer a list node belongs to; the head belongs to none.\<close>

definition node_due :: "('t, 'f, 'a, 'z) timer_state \<Rightarrow> 't tnode \<Rightarrow> u64 result" where
  "node_due s n = (case n of Timers \<Rightarrow> Inl BadPointer | TNode t \<Rightarrow> Inr (due s t))"

definition timer_unregister ::
  "'t \<Rightarrow> ('t, 'f, 'a, 'z) timer_state \<Rightarrow> ('t, 'f, 'a, 'z) timer_state result" where
  "timer_unregister timer s =
     (if \<not> backend s then Inl (Panic ''timer_backend_set failed'')
      else if timer_is_registered timer s then
        let s = s\<lparr>tlinks := list_remove (TNode timer) (tlinks s)\<rparr> in
        if list_is_empty (tlinks s) Timers then Inr (timer_backend_set 0 s)
        else bindE (node_due s (nxt (tlinks s) Timers)) (\<lambda>w. Inr (timer_backend_set w s))
      else Inr s)"

text \<open>\<^verbatim>\<open>LIST_FOREACH\<close> with a \<^verbatim>\<open>break\<close> leaves the loop variable at the head when it runs through.\<close>

definition timer_slot :: "'t \<Rightarrow> ('t, 'f, 'a, 'z) timer_state \<Rightarrow> 't tnode option" where
  "timer_slot timer s =
     map_option (\<lambda>r. case r of None \<Rightarrow> Timers | Some node \<Rightarrow> node)
       (list_find (tlinks s) Timers
          (\<lambda>node. case node of Timers \<Rightarrow> False | TNode t \<Rightarrow> due s timer < due s t))"

definition timer_register ::
  "'t \<Rightarrow> ('t, 'f, 'a, 'z) timer_state \<Rightarrow> ('t, 'f, 'a, 'z) timer_state result" where
  "timer_register timer s =
     (if \<not> backend s then Inl (Panic ''timer_backend_set failed'')
      else if timer_is_registered timer s then Inr s
      else case timer_slot timer s of
        None \<Rightarrow> Inl Hang
      | Some node \<Rightarrow>
          let s = s\<lparr>tlinks := list_insert_before node (TNode timer) (tlinks s)\<rparr>
          in bindE (node_due s (nxt (tlinks s) Timers)) (\<lambda>w. Inr (timer_backend_set w s)))"

definition timer_register_absolute ::
  "'t \<Rightarrow> u64 \<Rightarrow> ('t, 'f, 'a, 'z) timer_state \<Rightarrow> ('t, 'f, 'a, 'z) timer_state result" where
  "timer_register_absolute self w s = timer_register self (s\<lparr>due := (due s)(self := w)\<rparr>)"

definition timer_register_relative ::
  "'t \<Rightarrow> u64 \<Rightarrow> ('t, 'f, 'a, 'z) timer_state \<Rightarrow> ('t, 'f, 'a, 'z) timer_state result" where
  "timer_register_relative self w s =
     (case now s of (t, s) \<Rightarrow> timer_register_absolute self (t + w) s)"

text \<open>
  The interrupt. \<open>call f a\<close> runs a handler; the loop need not end when handlers register
  timers that are already due.
\<close>

partial_function (option) timer_interrupt_entry_point ::
  "('f \<Rightarrow> 'a \<Rightarrow> ('t, 'f, 'a, 'z) timer_state \<Rightarrow> ('t, 'f, 'a, 'z) timer_state result) \<Rightarrow>
     ('t, 'f, 'a, 'z) timer_state \<Rightarrow> ('t, 'f, 'a, 'z) timer_state result option" where
  "timer_interrupt_entry_point call s =
     (if list_is_empty (tlinks s) Timers then Some (Inr (timer_backend_set 0 s))
      else case nxt (tlinks s) Timers of
        Timers \<Rightarrow> Some (Inl BadPointer)
      | TNode timer \<Rightarrow>
          let (t, s) = now s in
          if t < due s timer then Some (Inr (timer_backend_set (due s timer) s))
          else
            let s = s\<lparr>tlinks := list_remove (TNode timer) (tlinks s)\<rparr>
            in case call (func s timer) (arg s timer) s of
                 Inl e \<Rightarrow> Some (Inl e)
               | Inr s \<Rightarrow> timer_interrupt_entry_point call s)"

section \<open>The queue\<close>

definition tqueue :: "'t list \<Rightarrow> 't tnode \<Rightarrow> 't tnode list" where
  "tqueue Q = (\<lambda>_. [])(Timers := map TNode Q)"

definition timers_linked :: "('t, 'f, 'a, 'z) timer_state \<Rightarrow> 't list \<Rightarrow> bool" where
  "timers_linked s Q \<longleftrightarrow> family (tlinks s) {Timers} (range TNode) (tqueue Q)"

definition timers_inv :: "('t, 'f, 'a, 'z) timer_state \<Rightarrow> 't list \<Rightarrow> bool" where
  "timers_inv s Q \<longleftrightarrow> timers_linked s Q \<and> sorted (map (due s) Q) \<and> backend s"

text \<open>The time to program: the earliest, or 0 for none.\<close>

definition next_due :: "('t \<Rightarrow> u64) \<Rightarrow> 't list \<Rightarrow> u64" where
  "next_due w Q = (if Q = [] then 0 else w (hd Q))"

definition insert_due :: "('t \<Rightarrow> u64) \<Rightarrow> 't \<Rightarrow> 't list \<Rightarrow> 't list" where
  "insert_due w t Q = takeWhile (\<lambda>u. w u \<le> w t) Q @ t # dropWhile (\<lambda>u. w u \<le> w t) Q"

lemma members_tqueue [simp]: "members {Timers} (tqueue Q) = TNode ` set Q"
  by (simp add: members_def tqueue_def)

lemma tqueue_head [simp]: "tqueue Q Timers = map TNode Q"
  by (simp add: tqueue_def)

lemma tqueue_update [simp]: "(tqueue Q)(Timers := map TNode R) = tqueue R"
  by (simp add: tqueue_def)

lemma timers_empty: "timers_linked s Q \<Longrightarrow> list_is_empty (tlinks s) Timers \<longleftrightarrow> Q = []"
  using kl.emp_head [of "tlinks s" "{Timers}" "range TNode" "tqueue Q" Timers]
  by (simp add: timers_linked_def)

lemma timers_registered: "timers_linked s Q \<Longrightarrow> timer_is_registered t s \<longleftrightarrow> t \<in> set Q"
  using kl.emp_node [of "tlinks s" "{Timers}" "range TNode" "tqueue Q" "TNode t"]
  by (auto simp: timers_linked_def timer_is_registered_def)

lemma timers_next: "timers_linked s Q \<Longrightarrow> Q \<noteq> [] \<Longrightarrow> nxt (tlinks s) Timers = TNode (hd Q)"
  using kl.nx_head [of "tlinks s" "{Timers}" "range TNode" "tqueue Q" Timers]
  by (cases Q) (simp_all add: timers_linked_def)

lemma timers_distinct: "timers_linked s Q \<Longrightarrow> distinct Q"
  using kl.dist [of "tlinks s" "{Timers}" "range TNode" "tqueue Q" Timers]
  by (simp add: timers_linked_def distinct_map)

lemma timers_linked_cong: "timers_linked s Q \<Longrightarrow> tlinks s' = tlinks s \<Longrightarrow> timers_linked s' Q"
  by (simp add: timers_linked_def)

lemma remove1_map_TNode: "remove1 (TNode t) (map TNode Q) = map TNode (remove1 t Q)"
  by (induction Q) auto

lemma timers_remove:
  assumes "timers_linked s Q" and "t \<in> set Q"
  shows "timers_linked (s\<lparr>tlinks := list_remove (TNode t) (tlinks s)\<rparr>) (remove1 t Q)"
  using kl.del [of "tlinks s" "{Timers}" "range TNode" "tqueue Q" Timers "TNode t"] assms
  by (simp add: timers_linked_def remove1_map_TNode)

lemma find_map_TNode: "List.find f (map TNode Q) = map_option TNode (List.find (f \<circ> TNode) Q)"
  by (induction Q) auto

lemma find_dropWhile: "List.find P xs = (case dropWhile (\<lambda>x. \<not> P x) xs of [] \<Rightarrow> None | x # _ \<Rightarrow> Some x)"
  by (induction xs) auto

lemma timer_slot_linked:
  assumes "timers_linked s Q"
  shows "timer_slot t s = Some (hd (map TNode (dropWhile (\<lambda>u. due s u \<le> due s t) Q) @ [Timers]))"
proof -
  let ?P = "\<lambda>node. case node of Timers \<Rightarrow> False | TNode u \<Rightarrow> due s t < due s u"
  have "list_find (tlinks s) Timers ?P = Some (map_option TNode (List.find (\<lambda>u. due s t < due s u) Q))"
    using list_find_family [of "tlinks s" "{Timers}" "range TNode" "tqueue Q" Timers ?P] assms
    by (simp add: timers_linked_def find_map_TNode comp_def)
  then show ?thesis
    by (cases "dropWhile (\<lambda>u. due s u \<le> due s t) Q")
      (simp_all add: timer_slot_def find_dropWhile not_less del: dropWhile_eq_Nil_conv)
qed

lemma insert_due_simps [simp]:
  "insert_due w t [] = [t]"
  "insert_due w t (u # Q) = (if w u \<le> w t then u # insert_due w t Q else t # u # Q)"
  by (simp_all add: insert_due_def)

lemma set_insert_due [simp]: "set (insert_due w t Q) = insert t (set Q)"
  by (induction Q) auto

lemma insert_due_ne [simp]: "insert_due w t Q \<noteq> []"
  by (cases Q) simp_all

lemma insert_due_sorted: "sorted (map w Q) \<Longrightarrow> sorted (map w (insert_due w t Q))"
  by (induction Q) auto

lemma timer_register_queue:
  assumes "timers_inv s Q"
  shows "\<exists>s'. timer_register t s = Inr s' \<and>
           timers_inv s' (if t \<in> set Q then Q else insert_due (due s) t Q) \<and> due s' = due s \<and>
           backend_calls s' = backend_calls s @ (if t \<in> set Q then [] else [next_due (due s) (insert_due (due s) t Q)])"
proof (cases "t \<in> set Q")
  case True
  then show ?thesis
    using assms timers_registered [of s Q t] by (auto simp: timers_inv_def timer_register_def)
next
  case False
  have lk: "timers_linked s Q" and b: "backend s" and sd: "sorted (map (due s) Q)"
    using assms by (auto simp: timers_inv_def)
  let ?node = "hd (map TNode (dropWhile (\<lambda>u. due s u \<le> due s t) Q) @ [Timers])"
  let ?s = "s\<lparr>tlinks := list_insert_before ?node (TNode t) (tlinks s)\<rparr>"
  have "family (list_insert_before ?node (TNode t) (tlinks s)) {Timers} (range TNode)
      ((tqueue Q)(Timers := map TNode (takeWhile (\<lambda>u. due s u \<le> due s t) Q) @ TNode t #
        map TNode (dropWhile (\<lambda>u. due s u \<le> due s t) Q)))"
  proof (rule kl.put_at)
    show "family (tlinks s) {Timers} (range TNode) (tqueue Q)" using lk by (simp add: timers_linked_def)
    show "tqueue Q Timers = map TNode (takeWhile (\<lambda>u. due s u \<le> due s t) Q) @
        map TNode (dropWhile (\<lambda>u. due s u \<le> due s t) Q)"
      by (simp flip: map_append)
  qed (use False in auto)
  then have "timers_linked ?s (insert_due (due s) t Q)"
    by (simp add: timers_linked_def insert_due_def tqueue_def)
  moreover from timers_next [OF this] have "nxt (tlinks ?s) Timers = TNode (hd (insert_due (due s) t Q))" by simp
  ultimately show ?thesis
    using False b timers_registered [OF lk, of t] timer_slot_linked [OF lk, of t] insert_due_sorted [OF sd, of t]
    by (simp add: timer_register_def timers_inv_def node_due_def timer_backend_set_def next_due_def timers_linked_def)
qed

text \<open>C13. \<^verbatim>\<open>timer_register\<close> keeps the queue sorted by due time, puts the timer behind those due at
  the same time, programs the hardware for the earliest timer, and does nothing for a timer that
  is already pending.\<close>

theorem timer_register_correct:
  assumes "timers_inv s Q"
  shows "\<exists>s'. timer_register t s = Inr s' \<and>
           timers_inv s' (if t \<in> set Q then Q else insert_due (due s) t Q) \<and> due s' = due s \<and>
           backend_calls s' = backend_calls s @ (if t \<in> set Q then [] else [next_due (due s) (insert_due (due s) t Q)])"
  using assms by (rule timer_register_queue)

lemma timer_unregister_queue:
  assumes "timers_inv s Q"
  shows "\<exists>s'. timer_unregister t s = Inr s' \<and> timers_inv s' (remove1 t Q) \<and> due s' = due s \<and>
           backend_calls s' = backend_calls s @ (if t \<in> set Q then [next_due (due s) (remove1 t Q)] else [])"
proof (cases "t \<in> set Q")
  case False
  then show ?thesis
    using assms timers_registered [of s Q t] by (auto simp: timers_inv_def timer_unregister_def remove1_idem)
next
  case True
  have lk: "timers_linked s Q" and b: "backend s" and sd: "sorted (map (due s) Q)"
    using assms by (auto simp: timers_inv_def)
  let ?s = "s\<lparr>tlinks := list_remove (TNode t) (tlinks s)\<rparr>"
  have lk': "timers_linked ?s (remove1 t Q)" by (rule timers_remove [OF lk True])
  have sd': "sorted (map (due s) (remove1 t Q))" using sd by (rule sorted_map_remove1)
  show ?thesis
  proof (cases "remove1 t Q = []")
    case True
    then show ?thesis
      using \<open>t \<in> set Q\<close> b lk' timers_registered [OF lk, of t] timers_empty [OF lk']
      by (simp add: timer_unregister_def timers_inv_def timer_backend_set_def next_due_def timers_linked_def)
  next
    case False
    then show ?thesis
      using True b lk' sd' timers_registered [OF lk, of t] timers_empty [OF lk'] timers_next [OF lk']
      by (simp add: timer_unregister_def timers_inv_def node_due_def timer_backend_set_def next_due_def timers_linked_def)
  qed
qed

text \<open>\<^verbatim>\<open>timer_unregister\<close> takes exactly that timer out of the queue and programs the hardware
  for the earliest of the rest, or turns it off when none is left.\<close>

theorem timer_unregister_correct:
  assumes "timers_inv s Q"
  shows "\<exists>s'. timer_unregister t s = Inr s' \<and> timers_inv s' (remove1 t Q) \<and> due s' = due s \<and>
           backend_calls s' = backend_calls s @ (if t \<in> set Q then [next_due (due s) (remove1 t Q)] else [])"
  using assms by (rule timer_unregister_queue)

section \<open>The timer interrupt\<close>

text \<open>
  A handler that does not touch the timers works on the part of the state that extends the
  timer record: \<open>eff f a\<close> is its effect.
\<close>

definition outside_timers ::
  "('f \<Rightarrow> 'a \<Rightarrow> 'z \<Rightarrow> 'z) \<Rightarrow> 'f \<Rightarrow> 'a \<Rightarrow> ('t, 'f, 'a, 'z) timer_state \<Rightarrow> ('t, 'f, 'a, 'z) timer_state result" where
  "outside_timers eff f a s = Inr (timers.more_update (eff f a) s)"

lemma outside_timers_simps [simp]:
  "tlinks (timers.more_update g s) = tlinks s" "due (timers.more_update g s) = due s"
  "func (timers.more_update g s) = func s" "arg (timers.more_update g s) = arg s"
  "backend (timers.more_update g s) = backend s" "backend_calls (timers.more_update g s) = backend_calls s"
  "tsc (timers.more_update g s) = tsc s" "tsc_reads (timers.more_update g s) = tsc_reads s"
  "timers.more (timers.more_update g s) = g (timers.more s)"
  by simp_all

lemma timer_interrupt_split:
  assumes "timers_inv s Q"
  shows "\<exists>n s'. n \<le> length Q \<and>
    timer_interrupt_entry_point (outside_timers eff) s = Some (Inr s') \<and>
    timers_inv s' (drop n Q) \<and> due s' = due s \<and> arg s' = arg s \<and> tsc s' = tsc s \<and>
    backend_calls s' = backend_calls s @ [next_due (due s) (drop n Q)] \<and>
    timers.more s' = fold (\<lambda>t. eff (func s t) (arg s t)) (take n Q) (timers.more s) \<and>
    (\<forall>i<n. due s (Q ! i) \<le> tsc s (tsc_reads s + i)) \<and>
    (n < length Q \<longrightarrow> tsc s (tsc_reads s + n) < due s (Q ! n))"
  using assms
proof (induction Q arbitrary: s)
  case Nil
  then have "list_is_empty (tlinks s) Timers" using timers_empty [of s "[]"] by (simp add: timers_inv_def)
  then have "timer_interrupt_entry_point (outside_timers eff) s = Some (Inr (timer_backend_set 0 s))"
    by (simp add: timer_interrupt_entry_point.simps)
  then show ?case using Nil
    by (simp add: timers_inv_def timers_linked_def timer_backend_set_def next_due_def)
next
  case (Cons t Q)
  have lk: "timers_linked s (t # Q)" and b: "backend s" and sd: "sorted (map (due s) (t # Q))"
    using Cons.prems by (auto simp: timers_inv_def)
  have ne: "\<not> list_is_empty (tlinks s) Timers" and hd: "nxt (tlinks s) Timers = TNode t"
    using timers_empty [OF lk] timers_next [OF lk] by simp_all
  let ?now = "tsc s (tsc_reads s)"
  show ?case
  proof (cases "?now < due s t")
    case True
    let ?s = "timer_backend_set (due s t) (s\<lparr>tsc_reads := Suc (tsc_reads s)\<rparr>)"
    have "timer_interrupt_entry_point (outside_timers eff) s = Some (Inr ?s)"
      using ne hd True by (simp add: timer_interrupt_entry_point.simps now_def)
    moreover have "timers_inv ?s (t # Q)"
      using Cons.prems by (simp add: timers_inv_def timers_linked_def timer_backend_set_def)
    ultimately show ?thesis using True
      by (intro exI [of _ 0] exI [of _ ?s]) (simp add: timer_backend_set_def next_due_def)
  next
    case False
    let ?r = "s\<lparr>tsc_reads := Suc (tsc_reads s), tlinks := list_remove (TNode t) (tlinks s)\<rparr>"
    let ?s = "timers.more_update (eff (func s t) (arg s t)) ?r"
    have step: "timer_interrupt_entry_point (outside_timers eff) s =
        timer_interrupt_entry_point (outside_timers eff) ?s"
      using ne hd False
      by (subst timer_interrupt_entry_point.simps) (simp add: now_def outside_timers_def)
    have "timers_linked ?r Q"
      using timers_remove [OF lk, of t] by (simp add: timers_linked_def)
    then have "timers_inv ?s Q" using b sd by (simp add: timers_inv_def timers_linked_def)
    from Cons.IH [OF this] obtain n s' where IH: "n \<le> length Q"
      "timer_interrupt_entry_point (outside_timers eff) ?s = Some (Inr s')" "timers_inv s' (drop n Q)"
      "due s' = due s" "arg s' = arg s" "tsc s' = tsc s" "backend_calls s' = backend_calls s @ [next_due (due s) (drop n Q)]"
      "timers.more s' = fold (\<lambda>u. eff (func s u) (arg s u)) (take n Q) (eff (func s t) (arg s t) (timers.more s))"
      "\<forall>i<n. due s (Q ! i) \<le> tsc s (Suc (tsc_reads s) + i)"
      "n < length Q \<longrightarrow> tsc s (Suc (tsc_reads s) + n) < due s (Q ! n)"
      by auto
    have "\<forall>i<Suc n. due s ((t # Q) ! i) \<le> tsc s (tsc_reads s + i)"
      using IH(9) False by (auto simp: less_Suc_eq_0_disj not_less)
    then show ?thesis
      using IH step by (intro exI [of _ "Suc n"] exI [of _ s']) simp
  qed
qed

lemma timer_interrupt_runs:
  assumes "timers_inv s Q" and "mono (tsc s)"
  shows "\<exists>n s'. timer_interrupt_entry_point (outside_timers eff) s = Some (Inr s') \<and>
    timers_inv s' (drop n Q) \<and> arg s' = arg s \<and> tsc s' = tsc s \<and>
    backend_calls s' = backend_calls s @ [next_due (due s) (drop n Q)] \<and>
    timers.more s' = fold (\<lambda>t. eff (func s t) (arg s t)) (take n Q) (timers.more s) \<and>
    (\<forall>t\<in>set Q. due s t \<le> tsc s (tsc_reads s) \<longrightarrow> t \<in> set (take n Q)) \<and>
    (\<forall>t\<in>set (take n Q). \<exists>i<length Q. due s t \<le> tsc s (tsc_reads s + i)) \<and>
    (\<forall>t\<in>set (drop n Q). tsc s (tsc_reads s + n) < due s t)"
proof -
  obtain n s' where run: "n \<le> length Q"
    "timer_interrupt_entry_point (outside_timers eff) s = Some (Inr s')" "timers_inv s' (drop n Q)" "arg s' = arg s" "tsc s' = tsc s"
    "backend_calls s' = backend_calls s @ [next_due (due s) (drop n Q)]"
    "timers.more s' = fold (\<lambda>t. eff (func s t) (arg s t)) (take n Q) (timers.more s)"
    "\<forall>i<n. due s (Q ! i) \<le> tsc s (tsc_reads s + i)"
    "n < length Q \<longrightarrow> tsc s (tsc_reads s + n) < due s (Q ! n)"
    using timer_interrupt_split [OF assms(1), of eff] by blast
  have sd: "sorted (map (due s) Q)" using assms(1) by (simp add: timers_inv_def)
  have rest: "\<forall>t\<in>set (drop n Q). tsc s (tsc_reads s + n) < due s t"
  proof
    fix t assume "t \<in> set (drop n Q)"
    then obtain j where j: "j < length Q - n" "t = Q ! (n + j)" by (auto simp: in_set_conv_nth)
    then have "due s (Q ! n) \<le> due s t" using sorted_nth_mono [OF sd, of n "n + j"] by simp
    moreover have "tsc s (tsc_reads s + n) < due s (Q ! n)" using run(9) j by simp
    ultimately show "tsc s (tsc_reads s + n) < due s t" using j by (metis less_le_trans)
  qed
  have first: "t \<in> set (take n Q)" if "t \<in> set Q" "due s t \<le> tsc s (tsc_reads s)" for t
  proof (rule ccontr)
    assume "t \<notin> set (take n Q)"
    then have "t \<in> set (drop n Q)" using that(1) by (metis Un_iff append_take_drop_id set_append)
    then have "tsc s (tsc_reads s + n) < due s t" using rest by blast
    moreover have "tsc s (tsc_reads s) \<le> tsc s (tsc_reads s + n)" using assms(2) by (simp add: monoD)
    ultimately show False using that(2) by simp
  qed
  have "\<forall>t\<in>set (take n Q). \<exists>i<length Q. due s t \<le> tsc s (tsc_reads s + i)"
  proof
    fix t assume "t \<in> set (take n Q)"
    then obtain i where "i < n" "i < length Q" "t = Q ! i" by (auto simp: in_set_conv_nth)
    then show "\<exists>i<length Q. due s t \<le> tsc s (tsc_reads s + i)" using run(8) by blast
  qed
  with run first rest show ?thesis by (intro exI [of _ n] exI [of _ s']) blast
qed


text \<open>C14. The timer interrupt ends when its handlers leave the timers alone. It runs the handlers
  of a prefix of the queue, in order of due time, each once: all timers that are due at the first
  reading of the clock, and none that is not due at the reading it is compared with. Then it
  programs the hardware for the first timer that is left, or turns it off.\<close>

theorem timer_interrupt_correct:
  assumes "timers_inv s Q" and "mono (tsc s)"
  shows "\<exists>n s'. timer_interrupt_entry_point (outside_timers eff) s = Some (Inr s') \<and>
    timers_inv s' (drop n Q) \<and> arg s' = arg s \<and> tsc s' = tsc s \<and>
    backend_calls s' = backend_calls s @ [next_due (due s) (drop n Q)] \<and>
    timers.more s' = fold (\<lambda>t. eff (func s t) (arg s t)) (take n Q) (timers.more s) \<and>
    (\<forall>t\<in>set Q. due s t \<le> tsc s (tsc_reads s) \<longrightarrow> t \<in> set (take n Q)) \<and>
    (\<forall>t\<in>set (take n Q). \<exists>i<length Q. due s t \<le> tsc s (tsc_reads s + i)) \<and>
    (\<forall>t\<in>set (drop n Q). tsc s (tsc_reads s + n) < due s t)"
  using assms by (rule timer_interrupt_runs)

definition no_timers :: "u64 \<Rightarrow> (nat, unit, unit) timers" where
  "no_timers clock =
     \<lparr>tlinks = \<lparr>prv = (\<lambda>n. n), nxt = (\<lambda>n. n)\<rparr>, due = (\<lambda>_. 0), func = (\<lambda>_. ()), arg = (\<lambda>_. ()),
      backend = True, backend_calls = [], tsc = (\<lambda>_. clock), tsc_reads = 0\<rparr>"

lemma no_timers_inv: "timers_inv (no_timers c) []"
  by (auto simp: timers_inv_def timers_linked_def family_def ring_Nil no_timers_def)

text \<open>Timers 1 and 2, due at 10 and 20.\<close>

definition two_timers :: "u64 \<Rightarrow> (nat, unit, unit) timers" where
  "two_timers clock =
     (case bindE (timer_register_absolute 2 20 (no_timers clock)) (timer_register_absolute 1 10) of
        Inr s \<Rightarrow> s | Inl _ \<Rightarrow> no_timers clock)"

lemma timer_register_absolute_new:
  assumes "timers_inv s Q" and "t \<notin> set Q"
  shows "\<exists>s'. timer_register_absolute t w s = Inr s' \<and> timers_inv s' (insert_due ((due s)(t := w)) t Q) \<and>
           due s' = (due s)(t := w) \<and> timers.more s' = timers.more s \<and> tsc s' = tsc s \<and> tsc_reads s' = tsc_reads s"
proof -
  let ?s = "s\<lparr>due := (due s)(t := w)\<rparr>"
  have "map (due ?s) Q = map (due s) Q" using assms(2) by simp
  then have "sorted (map (due ?s) Q)" using assms(1) unfolding timers_inv_def by (simp only:)
  then have "timers_inv ?s Q" using assms(1) by (simp add: timers_inv_def timers_linked_def)
  from timer_register_queue [OF this, of t] assms(2) obtain s' where
    s': "timer_register t ?s = Inr s'" "timers_inv s' (insert_due ((due s)(t := w)) t Q)" "due s' = (due s)(t := w)"
    by auto
  have "timers.more s' = timers.more s \<and> tsc s' = tsc s \<and> tsc_reads s' = tsc_reads s"
    using s'(1)
    by (auto simp: timer_register_def Let_def timer_backend_set_def split: if_splits option.splits)
  with s' show ?thesis by (simp add: timer_register_absolute_def)
qed

lemma two_timers_inv: "timers_inv (two_timers c) [1, 2]" "due (two_timers c) = (\<lambda>_. 0)(2 := 20, 1 := 10)"
  "tsc (two_timers c) = (\<lambda>_. c)" "tsc_reads (two_timers c) = 0"
proof -
  obtain s1 where s1: "timer_register_absolute 2 20 (no_timers c) = Inr s1" "timers_inv s1 [2]"
    "due s1 = (due (no_timers c))(2 := 20)" "tsc s1 = (\<lambda>_. c)" "tsc_reads s1 = 0"
    using timer_register_absolute_new [OF no_timers_inv [of c], where t = 2 and w = 20] by (auto simp: no_timers_def)
  obtain s2 where s2: "timer_register_absolute 1 10 s1 = Inr s2" "timers_inv s2 [1, 2]"
    "due s2 = (due s1)(1 := 10)" "tsc s2 = (\<lambda>_. c)" "tsc_reads s2 = 0"
    using timer_register_absolute_new [OF s1(2), where t = 1 and w = 10] s1(3-5) by (auto simp: no_timers_def)
  have "two_timers c = s2" using s1(1) s2(1) by (simp add: two_timers_def)
  then show "timers_inv (two_timers c) [1, 2]" "due (two_timers c) = (\<lambda>_. 0)(2 := 20, 1 := 10)"
    "tsc (two_timers c) = (\<lambda>_. c)" "tsc_reads (two_timers c) = 0"
    using s1(3) s2(2-5) by (simp_all add: no_timers_def)
qed

theorem timer_register_correct_witness:
  "\<exists>s'. timer_register 3 (two_timers 0) = Inr s' \<and> timers_inv s' [3, 1, 2]"
  using timer_register_correct [OF two_timers_inv(1), of 3 0] two_timers_inv(2) [of 0] by auto

theorem timer_unregister_correct_witness:
  "\<exists>s'. timer_unregister 1 (two_timers 0) = Inr s' \<and> timers_inv s' [2]"
  using timer_unregister_correct [OF two_timers_inv(1), of 1 0] by auto

theorem timer_interrupt_correct_witness:
  "\<exists>n s'. timer_interrupt_entry_point (outside_timers (\<lambda>_ _ z. z)) (two_timers 15) = Some (Inr s') \<and>
     timers_inv s' (drop n [1, 2]) \<and> (1 :: nat) \<in> set (take n [1, 2])"
proof -
  have "mono (tsc (two_timers 15))" by (simp add: two_timers_inv mono_def)
  from timer_interrupt_correct [OF two_timers_inv(1) this, of "\<lambda>_ _ z. z"]
  obtain n s' where "timer_interrupt_entry_point (outside_timers (\<lambda>_ _ z. z)) (two_timers 15) = Some (Inr s')"
    "timers_inv s' (drop n [1, 2])"
    "\<forall>t\<in>set [1, 2]. due (two_timers 15) t \<le> tsc (two_timers 15) (tsc_reads (two_timers 15)) \<longrightarrow> t \<in> set (take n [1, 2])"
    by (elim exE conjE) (rule that)
  moreover from this(3) have "1 \<in> set (take n [1, 2 :: nat])" by (simp add: two_timers_inv)
  ultimately show ?thesis by blast
qed

text \<open>C31. \<^verbatim>\<open>timer_register_absolute\<close> changes the due time of a timer that is already pending without
  moving it in the queue. When the first timer is moved behind the second in this way, an
  interrupt at which the second is due runs no handler and programs the hardware for the first:
  the second timer is late.\<close>

theorem timer_register_absolute_unsorts:
  assumes "timers_inv s (a # b # Q)" and "due s b \<le> tsc s (tsc_reads s)" and "tsc s (tsc_reads s) < w"
  shows "\<exists>s1 s2. timer_register_absolute a w s = Inr s1 \<and>
           timer_interrupt_entry_point call s1 = Some (Inr s2) \<and> timers_linked s2 (a # b # Q) \<and>
           backend_calls s2 = backend_calls s @ [w] \<and> due s2 b \<le> tsc s (tsc_reads s)"
proof -
  have lk: "timers_linked s (a # b # Q)" and b: "backend s" using assms(1) by (auto simp: timers_inv_def)
  let ?s = "s\<lparr>due := (due s)(a := w)\<rparr>"
  have lk': "timers_linked ?s (a # b # Q)" using lk by (simp add: timers_linked_def)
  have "timer_register_absolute a w s = Inr ?s"
    using b timers_registered [OF lk', of a] by (simp add: timer_register_absolute_def timer_register_def)
  moreover have "timer_interrupt_entry_point call ?s =
      Some (Inr (timer_backend_set w (?s\<lparr>tsc_reads := Suc (tsc_reads s)\<rparr>)))"
    using assms(3) timers_empty [OF lk'] timers_next [OF lk']
    by (subst timer_interrupt_entry_point.simps) (simp add: now_def)
  moreover have "a \<noteq> b" using timers_distinct [OF lk] by simp
  ultimately show ?thesis
    using lk assms(2)
    by (intro exI [of _ ?s] exI [of _ "timer_backend_set w (?s\<lparr>tsc_reads := Suc (tsc_reads s)\<rparr>)"])
      (simp add: timer_backend_set_def timers_linked_def)
qed

theorem timer_register_absolute_unsorts_witness:
  "\<exists>s1 s2. timer_register_absolute 1 30 (two_timers 25) = Inr s1 \<and>
     timer_interrupt_entry_point (outside_timers (\<lambda>_ _ z. z)) s1 = Some (Inr s2) \<and>
     timers_linked s2 [1, 2] \<and> due s2 2 \<le> 25"
proof -
  have "due (two_timers 25) 2 \<le> tsc (two_timers 25) (tsc_reads (two_timers 25))"
    "tsc (two_timers 25) (tsc_reads (two_timers 25)) < 30"
    by (simp_all add: two_timers_inv)
  from timer_register_absolute_unsorts [OF two_timers_inv(1) this, of "outside_timers (\<lambda>_ _ z. z)"]
  show ?thesis by (simp add: two_timers_inv) blast
qed

end
