(* ===== verification/Context.thy ===== *)
theory Context
  imports Prelude
begin

text \<open>
  The processor state that a switch between tasks saves and restores: the general registers of
  \<^verbatim>\<open>kernel/include/regs.h\<close>, the instruction pointer, and the stack memory, a map from
  addresses to 32-bit words. The instructions are those of the assembly in
  \<^verbatim>\<open>kernel/lib/scheduler.c\<close>.
\<close>

record cpu =
  edi :: u32
  esi :: u32
  ebp :: u32
  esp :: u32
  ebx :: u32
  edx :: u32
  ecx :: u32
  eax :: u32
  eip :: u32

type_synonym memory = "u32 \<Rightarrow> u32"

section \<open>Instructions\<close>

definition cpu_pusha :: "'z cpu_scheme \<Rightarrow> memory \<Rightarrow> 'z cpu_scheme \<times> memory" where
  "cpu_pusha c m =
     (c\<lparr>esp := esp c - 32\<rparr>,
      m(esp c - 4 := eax c, esp c - 8 := ecx c, esp c - 12 := edx c, esp c - 16 := ebx c,
        esp c - 20 := esp c, esp c - 24 := ebp c, esp c - 28 := esi c, esp c - 32 := edi c))"

definition cpu_popa :: "'z cpu_scheme \<Rightarrow> memory \<Rightarrow> 'z cpu_scheme" where
  "cpu_popa c m =
     c\<lparr>edi := m (esp c), esi := m (esp c + 4), ebp := m (esp c + 8), ebx := m (esp c + 16),
       edx := m (esp c + 20), ecx := m (esp c + 24), eax := m (esp c + 28), esp := esp c + 32\<rparr>"

definition cpu_ret :: "cpu \<Rightarrow> memory \<Rightarrow> cpu" where
  "cpu_ret c m = c\<lparr>eip := m (esp c), esp := esp c + 4\<rparr>"

text \<open>The second half of \<^verbatim>\<open>schedule\<close>, from label 1: load the stack pointer, \<^verbatim>\<open>popa\<close>, \<^verbatim>\<open>ret\<close>.\<close>

definition resume :: "u32 \<Rightarrow> cpu \<Rightarrow> memory \<Rightarrow> cpu" where
  "resume sp c m = cpu_ret (cpu_popa (c\<lparr>esp := sp\<rparr>) m) m"

section \<open>The first stack of a task\<close>

text \<open>\<^verbatim>\<open>STACK_PUSH\<close> and \<^verbatim>\<open>STACK_PUSH_EMPTY\<close> of the 32 bytes of \<^verbatim>\<open>pushaed_registers_t\<close>.\<close>

definition STACK_PUSH :: "u32 \<Rightarrow> u32 \<times> memory \<Rightarrow> u32 \<times> memory" where
  "STACK_PUSH v sm = (case sm of (s, m) \<Rightarrow> (s - 4, m(s - 4 := v)))"

definition STACK_PUSH_EMPTY :: "u32 \<times> memory \<Rightarrow> u32 \<times> memory" where
  "STACK_PUSH_EMPTY sm =
     (case sm of (s, m) \<Rightarrow>
       (s - 32, m(s - 32 := 0, s - 28 := 0, s - 24 := 0, s - 20 := 0, s - 16 := 0, s - 12 := 0,
                  s - 8 := 0, s - 4 := 0)))"

definition initial_stack :: "u32 \<Rightarrow> u32 \<Rightarrow> memory \<Rightarrow> u32 \<times> memory" where
  "initial_stack page f m = STACK_PUSH_EMPTY (STACK_PUSH f (page + 4096, m))"

section \<open>Saving and resuming\<close>

text \<open>The nine words above a saved stack pointer: the registers and the return address.\<close>

definition frame :: "u32 \<Rightarrow> memory \<Rightarrow> u32 list" where
  "frame sp m = map (\<lambda>i. m (sp + of_nat (4 * i))) [0..<9]"

lemma frame_eq:
  "frame sp m = [m sp, m (sp + 4), m (sp + 8), m (sp + 12), m (sp + 16), m (sp + 20), m (sp + 24),
     m (sp + 28), m (sp + 32)]"
  by (simp add: frame_def upt_rec)

text \<open>What \<open>resume\<close> does depends on the saved frame only.\<close>

lemma resume_frame:
  "frame sp m = frame sp m' \<Longrightarrow> resume sp c m = resume sp c' m'"
  by (cases c; cases c') (simp add: frame_eq resume_def cpu_ret_def cpu_popa_def add.assoc)

lemma sub_ne:
  fixes a :: u32
  shows "a - x = a - y \<longleftrightarrow> x = y" "a - x = a \<longleftrightarrow> x = 0" "a = a - x \<longleftrightarrow> x = 0"
  by auto

lemma resume_pusha:
  assumes "cpu_pusha c m = (c', m')"
  shows "resume (esp c') d m' = c\<lparr>esp := esp c + 4, eip := m (esp c)\<rparr>"
proof -
  have c': "esp c' = esp c - 32"
    and m': "m' = m(esp c - 4 := eax c, esp c - 8 := ecx c, esp c - 12 := edx c, esp c - 16 := ebx c,
        esp c - 20 := esp c, esp c - 24 := ebp c, esp c - 28 := esi c, esp c - 32 := edi c)"
    using assms by (auto simp: cpu_pusha_def)
  have a: "esp c - 32 + 4 = esp c - 28" "esp c - 32 + 8 = esp c - 24" "esp c - 32 + 16 = esp c - 16"
    "esp c - 32 + 20 = esp c - 12" "esp c - 32 + 24 = esp c - 8" "esp c - 32 + 28 = esp c - 4"
    "esp c - 32 + 32 = esp c"
    by simp_all
  show ?thesis
    by (cases c) (simp add: resume_def cpu_ret_def cpu_popa_def c' m' a sub_ne [where a = "esp c"])
qed

end
