(* ===== verification/Scheduler.thy ===== *)
theory Scheduler
  imports Timers Context
begin

text \<open>
  \<^verbatim>\<open>kernel/include/scheduler.h\<close> and \<^verbatim>\<open>kernel/lib/scheduler.c\<close>: tasks, the run queue and the
  switch between tasks. The state extends the one of the timers. A task is named by the address
  of its \<^verbatim>\<open>task_t\<close>; its timer has the same name.
\<close>

section \<open>State\<close>

datatype 't qnode = RunQueue | QNode 't

datatype timer_handler = Timer_callback

record 't sched = "('t, timer_handler, 't) timers" +
  run_queue :: "'t qnode links"
  tasks_in_run_queue :: u32
  current_task :: 't
  scheduler_started :: bool
  kernel_stack :: "'t \<Rightarrow> u32"
  kernel_stack_page :: "'t \<Rightarrow> u32"
  cpu :: cpu
  stack_memory :: memory

section \<open>Operations\<close>

definition schedule_task :: "'t \<Rightarrow> ('t, 'z) sched_scheme \<Rightarrow> ('t, 'z) sched_scheme" where
  "schedule_task task s =
     (if list_is_empty (run_queue s) (QNode task) then
        s\<lparr>run_queue := list_insert_before RunQueue (QNode task) (run_queue s),
          tasks_in_run_queue := tasks_in_run_queue s + 1\<rparr>
      else s)"

definition unschedule_task :: "'t \<Rightarrow> ('t, 'z) sched_scheme \<Rightarrow> ('t, 'z) sched_scheme" where
  "unschedule_task task s =
     (if \<not> list_is_empty (run_queue s) (QNode task) then
        s\<lparr>run_queue := list_remove (QNode task) (run_queue s),
          tasks_in_run_queue := tasks_in_run_queue s - 1\<rparr>
      else s)"

text \<open>\<^verbatim>\<open>timer_callback\<close>, as the timer interrupt calls it through \<^verbatim>\<open>func\<close>.\<close>

definition call_timer_handler ::
  "timer_handler \<Rightarrow> 't \<Rightarrow> ('t, 'z) sched_scheme \<Rightarrow> ('t, 'z) sched_scheme result" where
  "call_timer_handler f a s = (case f of Timer_callback \<Rightarrow> Inr (schedule_task a s))"

text \<open>
  \<open>task\<close> is what \<^verbatim>\<open>malloc\<close> returns and \<open>page\<close> what \<^verbatim>\<open>kernel_page_allocate(0)\<close> returns; neither
  is compared with \<^verbatim>\<open>NULL\<close>.
\<close>

definition create_kernel_task ::
  "'t \<Rightarrow> u32 \<Rightarrow> u32 \<Rightarrow> ('t, 'z) sched_scheme \<Rightarrow> ('t, 'z) sched_scheme" where
  "create_kernel_task task page f s =
     (case initial_stack page f (stack_memory s) of (sp, m) \<Rightarrow>
        let s = s\<lparr>kernel_stack_page := (kernel_stack_page s)(task := page),
                  run_queue := list_init (QNode task) (run_queue s),
                  kernel_stack := (kernel_stack s)(task := sp), stack_memory := m\<rparr>
        in timer_init task 0 Timer_callback task s)"

definition start_kernel_task ::
  "'t \<Rightarrow> u32 \<Rightarrow> u32 \<Rightarrow> ('t, 'z) sched_scheme \<Rightarrow> ('t, 'z) sched_scheme" where
  "start_kernel_task task page f s = schedule_task task (create_kernel_task task page f s)"

definition scheduler_init ::
  "'t \<Rightarrow> u32 \<Rightarrow> u32 \<Rightarrow> ('t, 'z) sched_scheme \<Rightarrow> ('t, 'z) sched_scheme" where
  "scheduler_init task page idle s = (start_kernel_task task page idle s)\<lparr>current_task := task\<rparr>"

definition next_task :: "('t, 'z) sched_scheme \<Rightarrow> ('t, 'z) sched_scheme result" where
  "next_task s =
     (case nxt (run_queue s) RunQueue of
        RunQueue \<Rightarrow> Inl BadPointer
      | QNode t \<Rightarrow> Inr (s\<lparr>current_task := t\<rparr>))"

text \<open>
  The assembly of \<^verbatim>\<open>schedule\<close>. It is entered with the return address on top of the stack. The
  frame of the call of \<^verbatim>\<open>next_task\<close> lies below the saved stack pointer and is not shown.
\<close>

definition schedule :: "('t, 'z) sched_scheme \<Rightarrow> ('t, 'z) sched_scheme result" where
  "schedule s =
     (case cpu_pusha (cpu s) (stack_memory s) of (c, m) \<Rightarrow>
        let s = s\<lparr>cpu := c, stack_memory := m, kernel_stack := (kernel_stack s)(current_task s := esp c)\<rparr>
        in bindE (next_task s) (\<lambda>s.
             Inr (s\<lparr>cpu := resume (kernel_stack s (current_task s)) (cpu s) (stack_memory s)\<rparr>)))"

definition scheduler_start :: "('t, 'z) sched_scheme \<Rightarrow> ('t, 'z) sched_scheme" where
  "scheduler_start s =
     s\<lparr>scheduler_started := True,
       cpu := resume (kernel_stack s (current_task s)) (cpu s) (stack_memory s)\<rparr>"

definition giveup_cpu :: "('t, 'z) sched_scheme \<Rightarrow> ('t, 'z) sched_scheme result" where
  "giveup_cpu s =
     (let h = list_remove (QNode (current_task s)) (run_queue s);
          h = list_insert_before RunQueue (QNode (current_task s)) h
      in schedule (s\<lparr>run_queue := h\<rparr>))"

definition unschedule :: "('t, 'z) sched_scheme \<Rightarrow> ('t, 'z) sched_scheme result" where
  "unschedule s =
     schedule (s\<lparr>run_queue := list_remove (QNode (current_task s)) (run_queue s),
                 tasks_in_run_queue := tasks_in_run_queue s - 1\<rparr>)"

text \<open>\<^verbatim>\<open>while(now() < dest);\<close>\<close>

partial_function (option) wait_until ::
  "u64 \<Rightarrow> ('t, 'z) sched_scheme \<Rightarrow> ('t, 'z) sched_scheme option" where
  "wait_until dest s = (case now s of (t, s) \<Rightarrow> if t < dest then wait_until dest s else Some s)"

definition sleep_tsc :: "u64 \<Rightarrow> ('t, 'z) sched_scheme \<Rightarrow> ('t, 'z) sched_scheme result option" where
  "sleep_tsc ticks s =
     (if scheduler_started s then
        Some (bindE (timer_register_relative (current_task s) ticks s) unschedule)
      else case now s of (t, s) \<Rightarrow> map_option Inr (wait_until (t + ticks) s))"

definition cancel_sleep :: "'t \<Rightarrow> ('t, 'z) sched_scheme \<Rightarrow> ('t, 'z) sched_scheme result" where
  "cancel_sleep task s = bindE (timer_unregister task s) (\<lambda>s. Inr (schedule_task task s))"

text \<open>
  One round of the loop of \<^verbatim>\<open>idle\<close> after \<^verbatim>\<open>giveup_cpu\<close> has returned: \<open>interrupt\<close> is what the
  interrupts that arrive do to the state. Interrupts are off everywhere else.
\<close>

definition idle_wait ::
  "(('t, 'z) sched_scheme \<Rightarrow> ('t, 'z) sched_scheme result) \<Rightarrow> ('t, 'z) sched_scheme \<Rightarrow> ('t, 'z) sched_scheme result" where
  "idle_wait interrupt s = (if tasks_in_run_queue s \<le> 1 then interrupt s else Inr s)"

section \<open>The run queue\<close>

definition rqueue :: "'t list \<Rightarrow> 't qnode \<Rightarrow> 't qnode list" where
  "rqueue Q = (\<lambda>_. [])(RunQueue := map QNode Q)"

definition queue_inv :: "('t, 'z) sched_scheme \<Rightarrow> 't list \<Rightarrow> bool" where
  "queue_inv s Q \<longleftrightarrow>
     family (run_queue s) {RunQueue} (range QNode) (rqueue Q) \<and>
     tasks_in_run_queue s = of_nat (length Q)"

text \<open>A task runs: it is the first of the queue.\<close>

definition running :: "('t, 'z) sched_scheme \<Rightarrow> 't list \<Rightarrow> bool" where
  "running s Q \<longleftrightarrow> queue_inv s Q \<and> Q \<noteq> [] \<and> current_task s = hd Q"

lemma rqueue_simps [simp]:
  "members {RunQueue} (rqueue Q) = QNode ` set Q" "rqueue Q RunQueue = map QNode Q"
  "(rqueue Q)(RunQueue := map QNode R) = rqueue R"
  by (simp_all add: members_def rqueue_def)

lemma remove1_map_QNode [simp]: "remove1 (QNode t) (map QNode Q) = map QNode (remove1 t Q)"
  by (induction Q) auto

lemma queue_in: "queue_inv s Q \<Longrightarrow> list_is_empty (run_queue s) (QNode t) \<longleftrightarrow> t \<notin> set Q"
  using kl.emp_node [of "run_queue s" "{RunQueue}" "range QNode" "rqueue Q" "QNode t"]
  by (auto simp: queue_inv_def)

lemma queue_next: "queue_inv s Q \<Longrightarrow> nxt (run_queue s) RunQueue = (if Q = [] then RunQueue else QNode (hd Q))"
  using kl.nx_head [of "run_queue s" "{RunQueue}" "range QNode" "rqueue Q" RunQueue]
  by (cases Q) (simp_all add: queue_inv_def)

lemma queue_distinct: "queue_inv s Q \<Longrightarrow> distinct Q"
  using kl.dist [of "run_queue s" "{RunQueue}" "range QNode" "rqueue Q" RunQueue]
  by (simp add: queue_inv_def distinct_map)

lemma queue_inv_cong:
  "queue_inv s Q \<Longrightarrow> run_queue s' = run_queue s \<Longrightarrow> tasks_in_run_queue s' = tasks_in_run_queue s \<Longrightarrow> queue_inv s' Q"
  by (simp add: queue_inv_def)

lemma queue_append:
  assumes "family h {RunQueue} (range QNode) (rqueue Q)" and "t \<notin> set Q"
  shows "family (list_insert_before RunQueue (QNode t) h) {RunQueue} (range QNode) (rqueue (Q @ [t]))"
  using kl.put_tail [OF assms(1), of RunQueue "QNode t"] assms(2)
    rqueue_simps(3) [of Q "Q @ [t]"] by (auto simp del: rqueue_simps(3))

lemma queue_remove:
  assumes "family h {RunQueue} (range QNode) (rqueue Q)" and "t \<in> set Q"
  shows "family (list_remove (QNode t) h) {RunQueue} (range QNode) (rqueue (remove1 t Q))"
  using kl.del [OF assms(1), of RunQueue "QNode t"] assms(2) by simp

lemma schedule_task_queue:
  "queue_inv s Q \<Longrightarrow> queue_inv (schedule_task t s) (if t \<in> set Q then Q else Q @ [t])"
  using queue_in [of s Q t] queue_append [of "run_queue s" Q t]
  by (auto simp: schedule_task_def queue_inv_def)

lemma unschedule_task_queue:
  assumes "queue_inv s Q"
  shows "queue_inv (unschedule_task t s) (remove1 t Q)"
proof (cases "t \<in> set Q")
  case True
  then have "of_nat (length Q) - 1 = (of_nat (length (remove1 t Q)) :: u32)"
    using length_pos_if_in_set [OF True] by (simp add: length_remove1 of_nat_diff Suc_le_eq)
  then show ?thesis
    using True assms queue_in [OF assms, of t] queue_remove [of "run_queue s" Q t]
    by (simp add: unschedule_task_def queue_inv_def)
next
  case False
  then show ?thesis using assms queue_in [OF assms, of t] by (simp add: unschedule_task_def remove1_idem)
qed

text \<open>The switch looks at the queue only to find the next task.\<close>

lemma schedule_queue:
  assumes "queue_inv s Q" and "Q \<noteq> []"
  obtains s' where "schedule s = Inr s'" "running s' Q" "timers.truncate s' = timers.truncate s"
    "scheduler_started s' = scheduler_started s" "kernel_stack_page s' = kernel_stack_page s"
    "stack_memory s' = snd (cpu_pusha (cpu s) (stack_memory s))"
    "kernel_stack s' = (kernel_stack s)(current_task s := esp (cpu s) - 32)"
    "cpu s' = resume (kernel_stack s' (hd Q)) (fst (cpu_pusha (cpu s) (stack_memory s))) (stack_memory s')"
    "sched.more s' = sched.more s"
proof -
  obtain c m where p: "cpu_pusha (cpu s) (stack_memory s) = (c, m)" by fastforce
  then have c: "esp c = esp (cpu s) - 32" by (auto simp: cpu_pusha_def)
  let ?k = "(kernel_stack s)(current_task s := esp (cpu s) - 32)"
  let ?s = "s\<lparr>cpu := resume (?k (hd Q)) c m, stack_memory := m, kernel_stack := ?k, current_task := hd Q\<rparr>"
  show ?thesis
    using assms queue_next [OF assms(1)] p c
    by (intro that [of ?s]) (simp_all add: schedule_def next_task_def running_def queue_inv_def timers.truncate_def)
qed

lemma giveup_cpu_queue:
  assumes "running s Q"
  obtains s' where "giveup_cpu s = Inr s'" "running s' (rotate1 Q)" "timers.truncate s' = timers.truncate s"
    "scheduler_started s' = scheduler_started s"
proof -
  let ?t = "current_task s"
  have Q: "Q \<noteq> []" "?t = hd Q" "queue_inv s Q" using assms by (auto simp: running_def)
  let ?s = "s\<lparr>run_queue := list_insert_before RunQueue (QNode ?t) (list_remove (QNode ?t) (run_queue s))\<rparr>"
  have "remove1 ?t Q = tl Q" "?t \<notin> set (tl Q)" "rotate1 Q = tl Q @ [?t]"
    using Q queue_distinct [OF Q(3)] by (cases Q; simp)+
  then have "queue_inv ?s (rotate1 Q)"
    using queue_append [OF queue_remove [of "run_queue s" Q ?t]] Q by (simp add: queue_inv_def)
  from schedule_queue [OF this] Q(1) obtain s' where "schedule ?s = Inr s'" "running s' (rotate1 Q)"
    "timers.truncate s' = timers.truncate ?s" "scheduler_started s' = scheduler_started ?s"
    by (metis rotate1_is_Nil_conv)
  then show ?thesis by (intro that [of s']) (simp_all add: giveup_cpu_def timers.truncate_def)
qed

lemma unschedule_queue:
  assumes "running s (t # u # Q)"
  obtains s' where "unschedule s = Inr s'" "running s' (u # Q)" "timers.truncate s' = timers.truncate s"
    "scheduler_started s' = scheduler_started s"
proof -
  have Q: "current_task s = t" "queue_inv s (t # u # Q)" using assms by (auto simp: running_def)
  let ?s = "s\<lparr>run_queue := list_remove (QNode t) (run_queue s), tasks_in_run_queue := tasks_in_run_queue s - 1\<rparr>"
  have "queue_inv ?s (u # Q)"
    using queue_remove [of "run_queue s" "t # u # Q" t] Q(2) by (simp add: queue_inv_def)
  from schedule_queue [OF this] obtain s' where "schedule ?s = Inr s'" "running s' (u # Q)"
    "timers.truncate s' = timers.truncate ?s" "scheduler_started s' = scheduler_started ?s"
    by (metis list.distinct(1))
  then show ?thesis using Q(1) by (intro that [of s']) (simp_all add: unschedule_def timers.truncate_def)
qed

text \<open>Blocking the only task leaves nothing to switch to: the head of the queue is taken for a task.\<close>

lemma unschedule_last:
  assumes "running s [t]"
  shows "unschedule s = Inl BadPointer"
proof -
  have Q: "current_task s = t" "queue_inv s [t]" using assms by (auto simp: running_def)
  let ?s = "s\<lparr>run_queue := list_remove (QNode t) (run_queue s), tasks_in_run_queue := tasks_in_run_queue s - 1\<rparr>"
  have "queue_inv ?s []"
    using queue_remove [of "run_queue s" "[t]" t] Q(2) by (simp add: queue_inv_def)
  from queue_next [OF this] show ?thesis
    using Q(1) by (simp add: unschedule_def schedule_def next_task_def split_beta Let_def)
qed

section \<open>The timer interrupt wakes tasks\<close>

definition schedule_more :: "'t \<Rightarrow> ('t, 'z) sched_ext \<Rightarrow> ('t, 'z) sched_ext" where
  "schedule_more t m =
     timers.more (schedule_task t (timers.extend
       \<lparr>tlinks = \<lparr>prv = (\<lambda>n. n), nxt = (\<lambda>n. n)\<rparr>, due = (\<lambda>_. 0), func = (\<lambda>_. Timer_callback), arg = (\<lambda>t. t),
        backend = False, backend_calls = [], tsc = (\<lambda>_. 0), tsc_reads = 0\<rparr> m))"

lemma schedule_task_more: "schedule_task t s = timers.more_update (schedule_more t) s"
  by (cases s) (simp add: schedule_more_def schedule_task_def timers.extend_def)

lemma call_timer_handler_outside: "call_timer_handler = outside_timers (\<lambda>_. schedule_more)"
proof (intro ext)
  fix f t and s :: "('t, 'z) sched_scheme"
  show "call_timer_handler f t s = outside_timers (\<lambda>_. schedule_more) f t s"
    by (cases f) (simp only: call_timer_handler_def outside_timers_def schedule_task_more timer_handler.case)
qed

lemma same_more:
  fixes s s' :: "('t, 'z) sched_scheme"
  assumes "timers.more s' = timers.more s"
  shows "run_queue s' = run_queue s" "tasks_in_run_queue s' = tasks_in_run_queue s"
    "current_task s' = current_task s" "scheduler_started s' = scheduler_started s"
    "kernel_stack s' = kernel_stack s" "cpu s' = cpu s" "stack_memory s' = stack_memory s"
  using assms by (cases s; cases s'; simp)+

lemma same_timers:
  fixes s s' :: "('t, 'f, 'a, 'z) timer_state"
  assumes "timers.truncate s' = timers.truncate s"
  shows "tlinks s' = tlinks s" "due s' = due s" "backend s' = backend s" "func s' = func s" "arg s' = arg s"
    "tsc s' = tsc s" "tsc_reads s' = tsc_reads s"
  using assms by (simp_all add: timers.truncate_def)

lemma timers_inv_same:
  fixes s s' :: "('t, 'f, 'a, 'z) timer_state"
  shows "timers.truncate s' = timers.truncate s \<Longrightarrow> timers_inv s T \<Longrightarrow> timers_inv s' T"
  using same_timers [of s' s] by (simp add: timers_inv_def timers_linked_def)

lemma truncate_more_update [simp]: "timers.truncate (timers.more_update g s) = timers.truncate s"
  by (simp add: timers.truncate_def)

definition wake :: "'t \<Rightarrow> 't list \<Rightarrow> 't list" where
  "wake t Q = (if t \<in> set Q then Q else Q @ [t])"

lemma wake_simps [simp]: "set (wake t Q) = insert t (set Q)" "wake t Q \<noteq> []" "Q \<noteq> [] \<Longrightarrow> hd (wake t Q) = hd Q"
  by (auto simp: wake_def)

lemma wake_nth: "i < length Q \<Longrightarrow> wake t Q ! i = Q ! i \<and> i < length (wake t Q)"
  by (simp add: wake_def nth_append)

lemma schedule_task_running: "running s Q \<Longrightarrow> running (schedule_task t s) (wake t Q)"
  using schedule_task_queue [of s Q t] by (auto simp: running_def wake_def schedule_task_def)

lemma running_more: "timers.more s' = timers.more s \<Longrightarrow> running s Q \<Longrightarrow> running s' Q"
  using same_more [of s' s] by (simp add: running_def queue_inv_def)

lemma fold_wake_running:
  fixes s s' :: "('t, 'z) sched_scheme"
  shows "running s Q \<Longrightarrow> timers.more s' = fold schedule_more ts (timers.more s) \<Longrightarrow>
    running s' (fold wake ts Q) \<and> scheduler_started s' = scheduler_started s"
proof (induction ts arbitrary: s Q)
  case Nil
  then have m: "timers.more s' = timers.more s" by (simp only: fold_simps)
  show ?case using running_more [OF m Nil.prems(1)] same_more(4) [OF m] by simp
next
  case (Cons t ts)
  have "timers.more (schedule_task t s) = schedule_more t (timers.more s)"
    by (simp only: schedule_task_more outside_timers_simps)
  then have m: "timers.more s' = fold schedule_more ts (timers.more (schedule_task t s))"
    using Cons.prems(2) by (simp only: fold_simps)
  have st: "scheduler_started (schedule_task t s) = scheduler_started s"
    by (simp add: schedule_task_def)
  show ?case
    using Cons.IH [OF schedule_task_running [OF Cons.prems(1), of t] m] unfolding st fold_simps .
qed

section \<open>Kernel events\<close>

text \<open>
  What the running task or an interrupt does: give up the processor, wake a task, block, sleep,
  end another task's sleep, and the timer interrupt, which \<^verbatim>\<open>idle\<close> lets in.
\<close>

datatype 't event = Giveup | Wake 't | Block | Sleep u64 | Cancel 't | Tick

fun kernel_event :: "'t event \<Rightarrow> ('t, 'z) sched_scheme \<Rightarrow> ('t, 'z) sched_scheme result option" where
  "kernel_event Giveup s = Some (giveup_cpu s)"
| "kernel_event (Wake t) s = Some (Inr (schedule_task t s))"
| "kernel_event Block s = Some (unschedule s)"
| "kernel_event (Sleep d) s = sleep_tsc d s"
| "kernel_event (Cancel t) s = Some (cancel_sleep t s)"
| "kernel_event Tick s = timer_interrupt_entry_point call_timer_handler s"

text \<open>
  Which events can happen: the idle task neither blocks nor sleeps, a sleeping task is woken by
  its timer or by \<^verbatim>\<open>cancel_sleep\<close>, and interrupts are enabled in \<^verbatim>\<open>idle\<close> when at most one task
  is in the run queue.
\<close>

fun allowed :: "'t \<Rightarrow> 't event \<Rightarrow> ('t, 'z) sched_scheme \<Rightarrow> bool" where
  "allowed idle Giveup s = True"
| "allowed idle (Wake t) s = (\<not> timer_is_registered t s)"
| "allowed idle Block s = (current_task s \<noteq> idle)"
| "allowed idle (Sleep d) s = (current_task s \<noteq> idle)"
| "allowed idle (Cancel t) s = True"
| "allowed idle Tick s = (current_task s = idle \<and> tasks_in_run_queue s \<le> 1)"

inductive kernel_step :: "'t \<Rightarrow> ('t, 'z) sched_scheme \<Rightarrow> 't event \<Rightarrow> ('t, 'z) sched_scheme \<Rightarrow> bool"
  for idle where
  "allowed idle e s \<Longrightarrow> kernel_event e s = Some (Inr s') \<Longrightarrow> kernel_step idle s e s'"

inductive_cases kernel_stepE: "kernel_step idle s e s'"
inductive_simps kernel_step_simps: "kernel_step idle s e s'"

inductive kernel_run :: "'t \<Rightarrow> ('t, 'z) sched_scheme \<Rightarrow> 't event list \<Rightarrow> ('t, 'z) sched_scheme \<Rightarrow> bool"
  for idle where
  run_Nil: "kernel_run idle s [] s"
| run_Cons: "kernel_step idle s e s' \<Longrightarrow> kernel_run idle s' es s'' \<Longrightarrow> kernel_run idle s (e # es) s''"

inductive_cases kernel_run_ConsE: "kernel_run idle s (e # es) s''"
inductive_cases kernel_run_NilE: "kernel_run idle s [] s''"

section \<open>The invariant of the kernel\<close>

definition kernel_inv :: "'t \<Rightarrow> ('t, 'z) sched_scheme \<Rightarrow> 't list \<Rightarrow> 't list \<Rightarrow> bool" where
  "kernel_inv idle s Q T \<longleftrightarrow>
     running s Q \<and> timers_inv s T \<and> idle \<in> set Q \<and> set Q \<inter> set T = {} \<and> scheduler_started s \<and>
     (\<forall>t. arg s t = t) \<and> mono (tsc s)"

text \<open>What an event does to the run queue and to the sleeping tasks.\<close>

fun queue_event :: "('t, 'z) sched_scheme \<Rightarrow> 't event \<Rightarrow> 't list \<Rightarrow> 't list" where
  "queue_event s Giveup Q = rotate1 Q"
| "queue_event s (Wake t) Q = wake t Q"
| "queue_event s Block Q = tl Q"
| "queue_event s (Sleep d) Q = tl Q"
| "queue_event s (Cancel t) Q = wake t Q"
| "queue_event s Tick Q = Q"



lemma kernel_invD:
  assumes "kernel_inv idle s Q T"
  shows "running s Q" "timers_inv s T" "idle \<in> set Q" "set Q \<inter> set T = {}" "scheduler_started s"
    "arg s t = t" "timers_linked s T" "queue_inv s Q" "current_task s = hd Q" "Q \<noteq> []" "mono (tsc s)"
  using assms by (auto simp: kernel_inv_def running_def timers_inv_def)

lemma kernel_inv_intro:
  fixes s s' :: "('t, 'z) sched_scheme"
  assumes "kernel_inv idle s Q T" and "running s' Q'" and "timers.truncate s' = timers.truncate s"
    and "scheduler_started s' = scheduler_started s" and "idle \<in> set Q'" and "set Q' \<inter> set T = {}"
  shows "kernel_inv idle s' Q' T"
  using assms timers_inv_same [OF assms(3)] same_timers(5,6) [OF assms(3)] by (simp add: kernel_inv_def)

text \<open>The timers' operations leave the scheduler's part of the state alone.\<close>

lemma timer_ops_more:
  fixes s s' :: "('t, 'f, 'a, 'z) timer_state"
  shows "timer_register_relative t d s = Inr s' \<Longrightarrow> timers.more s' = timers.more s \<and> arg s' = arg s \<and> tsc s' = tsc s"
    and "timer_unregister t s = Inr s' \<Longrightarrow> timers.more s' = timers.more s \<and> arg s' = arg s \<and> tsc s' = tsc s"
  by (auto simp: timer_register_relative_def timer_register_absolute_def timer_register_def now_def
      timer_unregister_def timer_backend_set_def Let_def split: if_splits option.splits)

lemma timer_register_relative_new:
  assumes "timers_inv s T" and "t \<notin> set T"
  shows "\<exists>s' T'. timer_register_relative t d s = Inr s' \<and> timers_inv s' T' \<and> set T' = insert t (set T)"
proof -
  let ?s = "s\<lparr>tsc_reads := Suc (tsc_reads s)\<rparr>"
  have "timers_inv ?s T" using assms(1) by (simp add: timers_inv_def timers_linked_def)
  from timer_register_absolute_new [OF this assms(2), of "tsc s (tsc_reads s) + d"]
  obtain s' where "timer_register_absolute t (tsc s (tsc_reads s) + d) ?s = Inr s'"
    "timers_inv s' (insert_due ((due ?s)(t := tsc s (tsc_reads s) + d)) t T)" by blast
  then show ?thesis
    by (intro exI [of _ s'] exI [of _ "insert_due ((due ?s)(t := tsc s (tsc_reads s) + d)) t T"])
      (simp add: timer_register_relative_def now_def)
qed

lemma event_Giveup:
  assumes "kernel_inv idle s Q T"
  shows "\<exists>s'. giveup_cpu s = Inr s' \<and> kernel_inv idle s' (rotate1 Q) T"
proof -
  obtain s' where "giveup_cpu s = Inr s'" "running s' (rotate1 Q)" "timers.truncate s' = timers.truncate s"
    "scheduler_started s' = scheduler_started s"
    using giveup_cpu_queue [OF kernel_invD(1) [OF assms]] .
  then show ?thesis using kernel_inv_intro [OF assms] kernel_invD(3,4) [OF assms] by simp
qed

lemma event_Wake:
  assumes "kernel_inv idle s Q T" and "t \<notin> set T"
  shows "kernel_inv idle (schedule_task t s) (wake t Q) T"
proof (rule kernel_inv_intro [OF assms(1)])
  show "running (schedule_task t s) (wake t Q)" by (rule schedule_task_running [OF kernel_invD(1) [OF assms(1)]])
  show "timers.truncate (schedule_task t s) = timers.truncate s" by (simp only: schedule_task_more truncate_more_update)
qed (use assms kernel_invD(3,4) [OF assms(1)] in \<open>auto simp: schedule_task_def\<close>)

lemma event_Block:
  assumes "kernel_inv idle s Q T" and "current_task s \<noteq> idle"
  shows "\<exists>s'. unschedule s = Inr s' \<and> kernel_inv idle s' (tl Q) T"
proof -
  obtain t u R where Q: "Q = t # u # R"
    using kernel_invD(3,9,10) [OF assms(1)] assms(2) by (cases Q; cases "tl Q") auto
  obtain s' where "unschedule s = Inr s'" "running s' (u # R)" "timers.truncate s' = timers.truncate s"
    "scheduler_started s' = scheduler_started s"
    using unschedule_queue [OF kernel_invD(1) [OF assms(1), unfolded Q]] .
  moreover have "idle \<in> set (u # R)" using kernel_invD(3,9) [OF assms(1)] assms(2) Q by auto
  ultimately show ?thesis using kernel_inv_intro [OF assms(1)] kernel_invD(4) [OF assms(1)] Q by auto
qed

lemma event_Sleep:
  assumes "kernel_inv idle s Q T" and "current_task s \<noteq> idle"
  shows "\<exists>s' T'. sleep_tsc d s = Some (Inr s') \<and> kernel_inv idle s' (tl Q) T' \<and> set T' = insert (hd Q) (set T)"
proof -
  note inv = kernel_invD [OF assms(1)]
  have "current_task s \<in> set Q" using inv(9,10) by simp
  then have "current_task s \<notin> set T" using inv(4) by blast
  from timer_register_relative_new [OF inv(2) this, of d] obtain s1 T1 where
    s1: "timer_register_relative (current_task s) d s = Inr s1" "timers_inv s1 T1" "set T1 = insert (current_task s) (set T)"
    by blast
  note more = timer_ops_more(1) [OF s1(1)]
  obtain t u R where Q: "Q = t # u # R" using inv(3,9,10) assms(2) by (cases Q; cases "tl Q") auto
  have "running s1 (t # u # R)" using running_more [OF conjunct1 [OF more] inv(1)] Q by simp
  from unschedule_queue [OF this] obtain s' where s': "unschedule s1 = Inr s'" "running s' (u # R)"
    "timers.truncate s' = timers.truncate s1" "scheduler_started s' = scheduler_started s1" .
  have "set (u # R) \<inter> set T1 = {}"
    using s1(3) inv(4,9) Q queue_distinct [OF inv(8)] by auto
  moreover have "idle \<in> set (u # R)" using inv(3,9) assms(2) Q by auto
  ultimately have "kernel_inv idle s' (u # R) T1"
    using s' s1(2) timers_inv_same [OF s'(3)] same_timers(5,6) [OF s'(3)] more same_more(4) [OF conjunct1 [OF more]] inv(5,6,11)
    by (simp add: kernel_inv_def)
  then show ?thesis using s1 s'(1) inv(5,9) Q by (auto simp: sleep_tsc_def)
qed

lemma event_Cancel:
  assumes "kernel_inv idle s Q T"
  shows "\<exists>s'. cancel_sleep t s = Inr s' \<and> kernel_inv idle s' (wake t Q) (remove1 t T)"
proof -
  note inv = kernel_invD [OF assms]
  obtain s1 where s1: "timer_unregister t s = Inr s1" "timers_inv s1 (remove1 t T)"
    using timer_unregister_queue [OF inv(2), of t] by blast
  note more = timer_ops_more(2) [OF s1(1)]
  have "set (remove1 t T) = set T - {t}" using timers_distinct [OF inv(7)] by simp
  then have "kernel_inv idle s1 Q (remove1 t T)" and "t \<notin> set (remove1 t T)"
    using s1(2) running_more [OF conjunct1 [OF more] inv(1)] more same_more(4) [OF conjunct1 [OF more]] inv(3-6,11)
    by (auto simp: kernel_inv_def)
  from event_Wake [OF this] show ?thesis using s1(1) by (simp add: cancel_sleep_def)
qed

lemma fold_wake:
  "set (fold wake ts Q) = set ts \<union> set Q" "Q \<noteq> [] \<Longrightarrow> fold wake ts Q \<noteq> [] \<and> hd (fold wake ts Q) = hd Q"
  by (induction ts arbitrary: Q) auto

lemma event_Tick:
  fixes s :: "('t, 'z) sched_scheme"
  assumes "kernel_inv idle s Q T"
  shows "\<exists>n s'. timer_interrupt_entry_point call_timer_handler s = Some (Inr s') \<and>
     kernel_inv idle s' (fold wake (take n T) Q) (drop n T) \<and>
     (\<forall>t\<in>set T. due s t \<le> tsc s (tsc_reads s) \<longrightarrow> t \<in> set (take n T))"
proof -
  note inv = kernel_invD [OF assms]
  let ?eff = "\<lambda>_ :: timer_handler. schedule_more :: 't \<Rightarrow> ('t, 'z) sched_ext \<Rightarrow> ('t, 'z) sched_ext"
  obtain n s' where run: "timer_interrupt_entry_point (outside_timers ?eff) s = Some (Inr s')"
    "timers_inv s' (drop n T)" "arg s' = arg s" "tsc s' = tsc s"
    "timers.more s' = fold (\<lambda>t. ?eff (func s t) (arg s t)) (take n T) (timers.more s)"
    "\<forall>t\<in>set T. due s t \<le> tsc s (tsc_reads s) \<longrightarrow> t \<in> set (take n T)"
    using timer_interrupt_runs [OF inv(2,11), of ?eff] by blast
  have more: "timers.more s' = fold schedule_more (take n T) (timers.more s)"
    using run(5) inv(6) by simp
  from fold_wake_running [OF inv(1) this]
  have r: "running s' (fold wake (take n T) Q)" "scheduler_started s' = scheduler_started s" by simp_all
  have "distinct T" by (rule timers_distinct [OF inv(7)])
  then have "set (fold wake (take n T) Q) \<inter> set (drop n T) = {}"
    using inv(4) set_take_disj_set_drop_if_distinct [of T n n] set_drop_subset [of n T]
    by (auto simp: fold_wake(1))
  then have "kernel_inv idle s' (fold wake (take n T) Q) (drop n T)"
    using r run(2,3,4) inv(3,5,6,11) by (simp add: kernel_inv_def fold_wake(1))
  with run(1,6) show ?thesis unfolding call_timer_handler_outside by blast
qed

text \<open>The run queue and the sleeping tasks after an event, up to how many timers the interrupt
  finds due.\<close>

inductive queue_step :: "'t event \<Rightarrow> 't list \<times> 't list \<Rightarrow> 't list \<times> 't list \<Rightarrow> bool" where
  "queue_step Giveup (Q, T) (rotate1 Q, T)"
| "queue_step (Wake t) (Q, T) (wake t Q, T)"
| "queue_step Block (Q, T) (tl Q, T)"
| "set T' = insert (hd Q) (set T) \<Longrightarrow> queue_step (Sleep d) (Q, T) (tl Q, T')"
| "queue_step (Cancel t) (Q, T) (wake t Q, remove1 t T)"
| "queue_step Tick (Q, T) (fold wake (take n T) Q, drop n T)"

inductive_cases queue_stepE: "queue_step e (Q, T) (Q', T')"

lemma kernel_event_total:
  assumes "kernel_inv idle s Q T" and "allowed idle e s"
  shows "\<exists>s' Q' T'. kernel_event e s = Some (Inr s') \<and> queue_step e (Q, T) (Q', T') \<and> kernel_inv idle s' Q' T'"
proof (cases e)
  case Giveup
  then show ?thesis using event_Giveup [OF assms(1)] queue_step.intros(1) by fastforce
next
  case (Wake t)
  then have "t \<notin> set T" using assms(2) timers_registered [OF kernel_invD(7) [OF assms(1)], of t] by simp
  from event_Wake [OF assms(1) this] show ?thesis using Wake queue_step.intros(2) by fastforce
next
  case Block
  then show ?thesis using event_Block [OF assms(1)] assms(2) queue_step.intros(3) by fastforce
next
  case (Sleep d)
  obtain s' T' where "sleep_tsc d s = Some (Inr s')" "kernel_inv idle s' (tl Q) T'" "set T' = insert (hd Q) (set T)"
    using event_Sleep [OF assms(1), of d] assms(2) Sleep by auto
  then show ?thesis using Sleep queue_step.intros(4) [of T' Q T d] by auto
next
  case (Cancel t)
  then show ?thesis using event_Cancel [OF assms(1), of t] queue_step.intros(5) by fastforce
next
  case Tick
  then show ?thesis using event_Tick [OF assms(1)] queue_step.intros(6) by fastforce
qed

section \<open>Properties of the scheduler\<close>

lemmas kernel_rules = kernel_step.intros kernel_run.intros

lemma kernel_step_inv:
  assumes "kernel_step idle s e s'" and "kernel_inv idle s Q T"
  obtains Q' T' where "queue_step e (Q, T) (Q', T')" "kernel_inv idle s' Q' T'"
proof -
  from assms(1) have "allowed idle e s" "kernel_event e s = Some (Inr s')" by (auto elim: kernel_stepE)
  then show ?thesis using that kernel_event_total [OF assms(2), of e] by auto
qed

lemma kernel_run_inv: "kernel_run idle s es s' \<Longrightarrow> kernel_inv idle s Q T \<Longrightarrow> \<exists>Q' T'. kernel_inv idle s' Q' T'"
proof (induction arbitrary: Q T rule: kernel_run.induct)
  case (run_Nil s)
  then show ?case by blast
next
  case (run_Cons s e s' es s'')
  then show ?case by (metis kernel_step_inv)
qed

text \<open>C8. The scheduler's invariant: from a good state any sequence of allowed events ends in a good
  state, and there every allowed event runs to its end without fault. In a good state the running
  task is the first of the run queue, the count of tasks is the length of the queue, the idle
  task is in the queue, no task is both runnable and asleep, and the sleeping tasks' timers are
  queued by due time.\<close>

theorem kernel_runs_safe:
  assumes "kernel_run idle s es s'" and "kernel_inv idle s Q T"
  shows "\<exists>Q' T'. kernel_inv idle s' Q' T' \<and> current_task s' = hd Q' \<and>
           tasks_in_run_queue s' = of_nat (length Q') \<and>
           (\<forall>e. allowed idle e s' \<longrightarrow> (\<exists>s''. kernel_event e s' = Some (Inr s'')))"
proof -
  obtain Q' T' where inv: "kernel_inv idle s' Q' T'" using kernel_run_inv [OF assms] by blast
  then show ?thesis
    using kernel_invD(8,9) [OF inv] kernel_event_total [OF inv] by (fastforce simp: queue_inv_def)
qed

section \<open>Every runnable task gets the processor\<close>

fun is_switch :: "'t event \<Rightarrow> bool" where
  "is_switch Giveup = True"
| "is_switch Block = True"
| "is_switch (Sleep _) = True"
| "is_switch _ = False"

lemma fold_wake_nth: "i < length Q \<Longrightarrow> fold wake ts Q ! i = Q ! i \<and> i < length (fold wake ts Q)"
  by (induction ts arbitrary: Q) (auto simp: wake_nth)

lemma queue_step_position:
  assumes "queue_step e (Q, T) (Q', T')" and "i < length Q"
  shows "\<not> is_switch e \<Longrightarrow> Q' ! i = Q ! i \<and> i < length Q'"
    and "is_switch e \<Longrightarrow> 0 < i \<Longrightarrow> Q' ! (i - 1) = Q ! i \<and> i - 1 < length Q'"
  using assms
  by (auto elim!: queue_stepE simp: wake_nth fold_wake_nth nth_tl nth_rotate1 split: if_splits)

text \<open>C9. Progress: a task at position \<open>i\<close> of the run queue runs after \<open>i\<close> switches at the latest,
  whatever wakes, blocks, sleeps and interrupts happen in between.\<close>

theorem runnable_task_runs:
  assumes "kernel_run idle s es s'" and "kernel_inv idle s Q T" and "i < length Q"
    and "i \<le> length (filter is_switch es)"
  shows "\<exists>es1 es2 s1. es = es1 @ es2 \<and> kernel_run idle s es1 s1 \<and> current_task s1 = Q ! i \<and>
           length (filter is_switch es1) \<le> i"
  using assms
proof (induction arbitrary: Q T i rule: kernel_run.induct)
  case (run_Nil s)
  then have "i = 0" by simp
  then show ?case
    using kernel_invD(9,10) [OF run_Nil.prems(1)] kernel_run.run_Nil [of idle s]
    by (intro exI [of _ "[]"] exI [of _ s]) (simp add: hd_conv_nth)
next
  case (run_Cons s e s' es s'')
  show ?case
  proof (cases "i = 0")
    case True
    then show ?thesis
      using kernel_invD(9,10) [OF run_Cons.prems(1)] kernel_run.run_Nil [of idle s]
      by (intro exI [of _ "[]"] exI [of _ "e # es"] exI [of _ s]) (simp add: hd_conv_nth)
  next
    case False
    obtain Q' T' where st: "queue_step e (Q, T) (Q', T')" "kernel_inv idle s' Q' T'"
      using kernel_step_inv [OF run_Cons.hyps(1) run_Cons.prems(1)] .
    let ?j = "if is_switch e then i - 1 else i"
    have pos: "Q' ! ?j = Q ! i" "?j < length Q'"
      using queue_step_position [OF st(1) run_Cons.prems(2)] False by auto
    have "?j \<le> length (filter is_switch es)" using run_Cons.prems(3) False by auto
    from run_Cons.IH [OF st(2) pos(2) this] obtain es1 es2 s1 where
      r: "es = es1 @ es2" "kernel_run idle s' es1 s1" "current_task s1 = Q ! i" "length (filter is_switch es1) \<le> ?j"
      using pos(1) by auto
    have "kernel_run idle s (e # es1) s1" using run_Cons.hyps(1) r(2) by (rule kernel_run.run_Cons)
    then show ?thesis using r(1,3,4) False
      by (intro exI [of _ "e # es1"] exI [of _ es2] exI [of _ s1]) auto
  qed
qed

section \<open>Interrupts and runnable tasks\<close>

text \<open>A task keeps running or waiting for the processor: it never blocks or sleeps in the run.\<close>

inductive keeps_runnable :: "'t \<Rightarrow> 't \<Rightarrow> ('t, 'z) sched_scheme \<Rightarrow> 't event list \<Rightarrow> ('t, 'z) sched_scheme \<Rightarrow> bool"
  for idle t where
  "keeps_runnable idle t s [] s"
| "kernel_step idle s e s' \<Longrightarrow> \<not> (current_task s = t \<and> (e = Block \<or> (\<exists>d. e = Sleep d))) \<Longrightarrow>
    keeps_runnable idle t s' es s'' \<Longrightarrow> keeps_runnable idle t s (e # es) s''"

text \<open>As long as one task other than idle stays runnable no timer interrupt is taken, however
  often that task gives up the processor: \<^verbatim>\<open>idle\<close> enables interrupts only when it is alone in the
  run queue, so tasks that sleep do not wake up in the meantime.\<close>

theorem yielding_task_blocks_interrupts:
  fixes t :: 't
  assumes "keeps_runnable idle t s es s'" and "kernel_inv idle s Q T" and "t \<in> set Q" and "t \<noteq> idle"
    and "finite (UNIV :: 't set)" and "card (UNIV :: 't set) < 2 ^ 32"
  shows "Tick \<notin> set es \<and> (\<exists>Q' T'. kernel_inv idle s' Q' T' \<and> t \<in> set Q')"
  using assms(1-4)
proof (induction arbitrary: Q T rule: keeps_runnable.induct)
  case (1 s)
  then show ?case by auto
next
  case (2 s e s' es s'')
  note inv = kernel_invD [OF 2(5)]
  have "{idle, t} \<subseteq> set Q" using inv(3) 2(6) by simp
  then have "2 \<le> length Q" using card_mono [of "set Q" "{idle, t}"] 2(7) distinct_card [OF queue_distinct [OF inv(8)]]
    by simp
  moreover have "length Q < 2 ^ 32"
    using distinct_card [OF queue_distinct [OF inv(8)]] card_mono [OF assms(5) subset_UNIV, of "set Q"] assms(6)
    by simp
  then have "unat (tasks_in_run_queue s) = length Q" using inv(8) by (simp add: queue_inv_def unat_of_nat)
  moreover have "e = Tick \<Longrightarrow> tasks_in_run_queue s \<le> 1" using 2(1) by (auto elim!: kernel_stepE)
  ultimately have nt: "e \<noteq> Tick" by (auto simp: word_le_nat_alt)
  obtain Q' T' where st: "queue_step e (Q, T) (Q', T')" "kernel_inv idle s' Q' T'"
    using kernel_step_inv [OF 2(1,5)] .
  have "t \<in> set Q'" using st(1) 2(2,6) inv(9,10)
    by (cases Q) (auto elim!: queue_stepE simp: fold_wake)
  from 2(4) [OF st(2) this 2(7)] nt show ?case by simp
qed


section \<open>Round robin\<close>

fun giveup_times :: "nat \<Rightarrow> ('t, 'z) sched_scheme \<Rightarrow> ('t, 'z) sched_scheme result" where
  "giveup_times 0 s = Inr s"
| "giveup_times (Suc k) s = bindE (giveup_cpu s) (giveup_times k)"

text \<open>When every task only gives up the processor, they run in turn: after \<open>k\<close> switches the
  running task is the one \<open>k\<close> places further in the run queue, counted around, and the count of
  tasks is unchanged.\<close>

theorem giveup_round_robin:
  assumes "running s Q"
  shows "\<exists>s'. giveup_times k s = Inr s' \<and> running s' (rotate k Q) \<and>
           current_task s' = Q ! (k mod length Q) \<and> tasks_in_run_queue s' = tasks_in_run_queue s"
proof -
  have "\<exists>s'. giveup_times k s = Inr s' \<and> running s' (rotate k Q)"
    using assms
  proof (induction k arbitrary: s Q)
    case 0
    then show ?case by simp
  next
    case (Suc k)
    obtain s1 where s1: "giveup_cpu s = Inr s1" "running s1 (rotate1 Q)"
      using giveup_cpu_queue [OF Suc.prems] by metis
    from Suc.IH [OF s1(2)] s1(1) show ?case by (simp add: rotate1_rotate_swap)
  qed
  then obtain s' where s': "giveup_times k s = Inr s'" "running s' (rotate k Q)" by blast
  have "Q \<noteq> []" using assms by (simp add: running_def)
  then have "hd (rotate k Q) = Q ! (k mod length Q)" by (simp add: hd_rotate_conv_nth)
  then show ?thesis using s' assms by (auto simp: running_def queue_inv_def)
qed

section \<open>Contexts\<close>

text \<open>\<open>n\<close> bytes from \<open>sp\<close> on lie in the stack page \<open>p\<close>.\<close>

definition in_stack :: "u32 \<Rightarrow> u32 \<Rightarrow> nat \<Rightarrow> bool" where
  "in_stack p sp n \<longleftrightarrow>
     unat p mod 4096 = 0 \<and> unat p + 4096 \<le> 2 ^ 32 \<and> unat p \<le> unat sp \<and> unat sp + n \<le> unat p + 4096"

text \<open>
  Every task has a stack page of its own; the frames of the tasks that wait, and the one the
  running task is about to save, lie in their pages.
\<close>

definition stacks_ok :: "('t, 'z) sched_scheme \<Rightarrow> 't list \<Rightarrow> bool" where
  "stacks_ok s Q \<longleftrightarrow>
     inj_on (kernel_stack_page s) (set Q) \<and>
     in_stack (kernel_stack_page s (hd Q)) (esp (cpu s) - 32) 36 \<and>
     (\<forall>t\<in>set (tl Q). in_stack (kernel_stack_page s t) (kernel_stack s t) 36)"

text \<open>The processor state a waiting task will go on with.\<close>

definition saved_context :: "('t, 'z) sched_scheme \<Rightarrow> 't \<Rightarrow> cpu" where
  "saved_context s t = resume (kernel_stack s t) (cpu s) (stack_memory s)"

lemma in_stack_page:
  assumes "in_stack p sp 36" and "k \<le> 8"
  shows "unat (sp + of_nat (4 * k)) div 4096 = unat p div 4096"
proof -
  have "unat (of_nat (4 * k) :: u32) = 4 * k" using assms(2) by (simp only: unat_of_nat) simp
  then have "unat (sp + of_nat (4 * k)) = unat sp + 4 * k"
    using assms by (simp only: unat_word_ariths) (simp add: in_stack_def)
  moreover have "unat p = unat p div 4096 * 4096" using assms(1) by (auto simp: in_stack_def)
  ultimately show ?thesis using assms by (intro div_nat_eqI) (auto simp: in_stack_def)
qed

lemma pusha_elsewhere:
  assumes "\<forall>k\<le>8. a \<noteq> esp c - 32 + of_nat (4 * k)"
  shows "snd (cpu_pusha c m) a = m a"
proof -
  note ne = assms [rule_format]
  from ne [of 0] ne [of 1] ne [of 2] ne [of 3] ne [of 4] ne [of 5] ne [of 6] ne [of 7]
  show ?thesis by (simp add: cpu_pusha_def)
qed

lemma in_stack_apart:
  assumes "in_stack p sp 36" and "in_stack q sq 36" and "p \<noteq> q" and "j \<le> 8" and "k \<le> 8"
  shows "sp + of_nat (4 * j) \<noteq> sq + of_nat (4 * k)"
proof
  assume "sp + of_nat (4 * j) = sq + of_nat (4 * k)"
  then have "unat p div 4096 = unat q div 4096"
    using in_stack_page [OF assms(1,4)] in_stack_page [OF assms(2,5)] by simp
  then have "unat p = unat q"
    using assms(1,2) div_mult_mod_eq [of "unat p" 4096] div_mult_mod_eq [of "unat q" 4096]
    by (simp add: in_stack_def)
  with assms(3) show False by (simp add: word_unat_eq_iff)
qed

lemma pusha_frame:
  assumes "in_stack p sp 36" and "in_stack q (esp c - 32) 36" and "p \<noteq> q"
  shows "frame sp (snd (cpu_pusha c m)) = frame sp m"
  unfolding frame_def
  by (intro map_cong refl pusha_elsewhere allI impI) (use in_stack_apart [OF assms] in auto)

text \<open>C12. Giving up the processor is a switch between private contexts: the next task goes on with
  exactly the registers it had saved, the task that gave up will go on after its call with all its
  registers as they were, and the saved registers of every other task are untouched.\<close>

theorem giveup_switches_context:
  assumes "running s (t # u # Q)" and "stacks_ok s (t # u # Q)"
  shows "\<exists>s'. giveup_cpu s = Inr s' \<and> running s' (u # Q @ [t]) \<and> cpu s' = saved_context s u \<and>
           saved_context s' t = (cpu s)\<lparr>esp := esp (cpu s) + 4, eip := stack_memory s (esp (cpu s))\<rparr> \<and>
           (\<forall>v\<in>set Q. saved_context s' v = saved_context s v)"
proof -
  have Q: "current_task s = t" "queue_inv s (t # u # Q)" using assms(1) by (auto simp: running_def)
  have dist: "t \<noteq> u" "t \<notin> set Q" "u \<notin> set Q" using queue_distinct [OF Q(2)] by auto
  let ?s = "s\<lparr>run_queue := list_insert_before RunQueue (QNode t) (list_remove (QNode t) (run_queue s))\<rparr>"
  have "queue_inv ?s (u # Q @ [t])"
    using queue_append [OF queue_remove [of "run_queue s" "t # u # Q" t], of t] Q dist
    by (simp add: queue_inv_def)
  from schedule_queue [OF this] obtain s' where s': "schedule ?s = Inr s'" "running s' (u # Q @ [t])"
    "stack_memory s' = snd (cpu_pusha (cpu s) (stack_memory s))"
    "kernel_stack s' = (kernel_stack s)(t := esp (cpu s) - 32)"
    "cpu s' = resume (kernel_stack s' u) (fst (cpu_pusha (cpu s) (stack_memory s))) (stack_memory s')"
    using Q(1) by auto
  have same: "frame (kernel_stack s v) (stack_memory s') = frame (kernel_stack s v) (stack_memory s)"
    if "v \<in> insert u (set Q)" for v
  proof -
    have "v \<noteq> t" using that dist by auto
    then have "kernel_stack_page s v \<noteq> kernel_stack_page s t"
      using assms(2) that by (auto simp: stacks_ok_def inj_on_def)
    then show ?thesis
      using assms(2) that unfolding s'(3) stacks_ok_def by (intro pusha_frame) auto
  qed
  have "cpu s' = saved_context s u"
    using s'(4,5) dist(1) resume_frame [OF same [of u]] by (simp add: saved_context_def)
  moreover have "saved_context s' t = (cpu s)\<lparr>esp := esp (cpu s) + 4, eip := stack_memory s (esp (cpu s))\<rparr>"
  proof -
    obtain c m where cm: "cpu_pusha (cpu s) (stack_memory s) = (c, m)" by fastforce
    then have "esp c = esp (cpu s) - 32" by (auto simp: cpu_pusha_def)
    then show ?thesis
      using resume_pusha [OF cm, of "cpu s'"] s'(3,4) cm by (simp add: saved_context_def)
  qed
  moreover have "\<forall>v\<in>set Q. saved_context s' v = saved_context s v"
    using s'(4) dist(2) resume_frame [OF same] by (auto simp: saved_context_def)
  ultimately show ?thesis
    using s'(1,2) Q(1) by (intro exI [of _ s']) (simp add: giveup_cpu_def)
qed

section \<open>New tasks\<close>

lemma list_init_unlinked:
  assumes "family h H N L" and "n \<in> N" and "n \<notin> members H L"
  shows "list_init n h = h"
proof -
  have "ring h n []" using assms by (simp add: family_def)
  then show ?thesis by (cases h) (auto simp: ring_Nil list_init_def set_prev_def set_next_def fun_eq_iff)
qed

lemma start_kernel_task_inv:
  assumes "kernel_inv idle s Q T" and "t \<notin> set Q" and "t \<notin> set T"
  shows "kernel_inv idle (start_kernel_task t page f s) (Q @ [t]) T"
proof -
  note inv = kernel_invD [OF assms(1)]
  let ?c = "create_kernel_task t page f s"
  have q: "list_init (QNode t) (run_queue s) = run_queue s"
    using inv(8) assms(2) by (intro list_init_unlinked) (auto simp: queue_inv_def)
  have tl: "list_init (TNode t) (tlinks s) = tlinks s"
    using inv(7) assms(3) by (intro list_init_unlinked) (auto simp: timers_linked_def)
  have due: "map (due ?c) T = map (due s) T"
    using assms(3) by (auto simp: create_kernel_task_def timer_init_def split_beta Let_def)
  have "running ?c Q" using inv(1) q
    by (simp add: running_def queue_inv_def create_kernel_task_def timer_init_def split_beta Let_def)
  moreover have "timers_inv ?c T" unfolding timers_inv_def
  proof (intro conjI)
    show "sorted (map (due ?c) T)" using inv(2) unfolding due timers_inv_def by blast
  qed (use inv(2) tl in \<open>simp_all add: timers_inv_def timers_linked_def create_kernel_task_def timer_init_def split_beta Let_def\<close>)
  ultimately have "kernel_inv idle ?c Q T" using inv
    by (simp add: kernel_inv_def create_kernel_task_def timer_init_def split_beta Let_def)
  from event_Wake [OF this assms(3)] show ?thesis
    using assms(2) by (simp add: start_kernel_task_def wake_def)
qed

lemma start_kernel_task_context:
  assumes "kernel_inv idle s Q T" and "t \<notin> set Q" and "t \<notin> set T"
  shows "kernel_inv idle (start_kernel_task t page f s) (Q @ [t]) T \<and>
         saved_context (start_kernel_task t page f s) t =
           \<lparr>edi = 0, esi = 0, ebp = 0, esp = page + 4096, ebx = 0, edx = 0, ecx = 0, eax = 0, eip = f\<rparr>"
proof
  show "kernel_inv idle (start_kernel_task t page f s) (Q @ [t]) T" by (rule start_kernel_task_inv [OF assms])
  have a: "page + 4096 - 36 + 4 = page + 4064" "page + 4096 - 36 + 8 = page + 4068"
    "page + 4096 - 36 = page + 4060" by simp_all
  show "saved_context (start_kernel_task t page f s) t =
      \<lparr>edi = 0, esi = 0, ebp = 0, esp = page + 4096, ebx = 0, edx = 0, ecx = 0, eax = 0, eip = f\<rparr>"
    by (simp add: saved_context_def start_kernel_task_def schedule_task_def create_kernel_task_def timer_init_def
        initial_stack_def STACK_PUSH_def STACK_PUSH_EMPTY_def resume_def cpu_ret_def cpu_popa_def a)
qed

text \<open>A new task is put at the end of the run queue, awake, and the first switch to it enters its
  function with all registers zero and the stack pointer at the end of its stack page.\<close>

theorem start_kernel_task_correct:
  assumes "kernel_inv idle s Q T" and "t \<notin> set Q" and "t \<notin> set T"
  shows "kernel_inv idle (start_kernel_task t page f s) (Q @ [t]) T \<and>
         saved_context (start_kernel_task t page f s) t =
           \<lparr>edi = 0, esi = 0, ebp = 0, esp = page + 4096, ebx = 0, edx = 0, ecx = 0, eax = 0, eip = f\<rparr>"
  using assms by (rule start_kernel_task_context)

section \<open>A kernel with two tasks\<close>

text \<open>Task \<open>False\<close> is the idle task, task \<open>True\<close> another one; the idle task is running.\<close>

definition blank_sched :: "bool sched" where
  "blank_sched =
     \<lparr>tlinks = \<lparr>prv = (\<lambda>n. n), nxt = (\<lambda>n. n)\<rparr>, due = (\<lambda>_. 0), func = (\<lambda>_. Timer_callback), arg = (\<lambda>t. t),
      backend = True, backend_calls = [], tsc = of_nat, tsc_reads = 0,
      run_queue = \<lparr>prv = (\<lambda>n. n), nxt = (\<lambda>n. n)\<rparr>, tasks_in_run_queue = 0, current_task = False,
      scheduler_started = False, kernel_stack = (\<lambda>_. 0), kernel_stack_page = (\<lambda>_. 0),
      cpu = \<lparr>edi = 0, esi = 0, ebp = 0, esp = 0, ebx = 0, edx = 0, ecx = 0, eax = 0, eip = 0\<rparr>,
      stack_memory = (\<lambda>_. 0)\<rparr>"

definition idle_kernel :: "bool sched" where
  "idle_kernel = scheduler_start (scheduler_init False 0x1000 0x100 (blank_sched\<lparr>tsc := (\<lambda>_. 0)\<rparr>))"

definition two_tasks :: "bool sched" where
  "two_tasks = start_kernel_task True 0x3000 0x200 idle_kernel"

lemma list_init_self: "list_init n \<lparr>prv = (\<lambda>n. n), nxt = (\<lambda>n. n)\<rparr> = \<lparr>prv = (\<lambda>n. n), nxt = (\<lambda>n. n)\<rparr>"
  by (simp add: list_init_def set_prev_def set_next_def fun_eq_iff)

lemma idle_kernel_inv: "kernel_inv False idle_kernel [False] []"
proof -
  let ?h = "list_insert_before RunQueue (QNode False) \<lparr>prv = (\<lambda>n. n), nxt = (\<lambda>n. n)\<rparr>"
  have "family \<lparr>prv = (\<lambda>n. n), nxt = (\<lambda>n. n)\<rparr> {RunQueue} (range QNode) (rqueue [])"
    by (auto simp: family_def ring_Nil rqueue_def)
  from queue_append [OF this, of False] have "family ?h {RunQueue} (range QNode) (rqueue [False])" by simp
  moreover have "family \<lparr>prv = (\<lambda>n. n), nxt = (\<lambda>n. n)\<rparr> {Timers} (range TNode) (tqueue [])"
    by (auto simp: family_def ring_Nil tqueue_def)
  ultimately show ?thesis
    by (simp add: list_init_self idle_kernel_def scheduler_start_def scheduler_init_def start_kernel_task_def create_kernel_task_def
        blank_sched_def timer_init_def schedule_task_def split_beta Let_def kernel_inv_def running_def queue_inv_def
        timers_inv_def timers_linked_def list_is_empty_def mono_def fun_eq_iff)
qed

lemma two_tasks_inv: "kernel_inv False two_tasks [False, True] []"
  using start_kernel_task_inv [OF idle_kernel_inv, of True] by (simp add: two_tasks_def)

lemma two_tasks_run:
  "\<exists>s'. kernel_run False two_tasks [Giveup] s'"
proof -
  obtain s' where "giveup_cpu two_tasks = Inr s'" using event_Giveup [OF two_tasks_inv] by blast
  then have "kernel_step False two_tasks Giveup s'" by (intro kernel_step.intros) simp_all
  then show ?thesis by (intro exI [of _ s'] kernel_run.run_Cons [OF _ kernel_run.run_Nil])
qed

theorem kernel_runs_safe_witness:
  "\<exists>s' Q' T'. kernel_run False two_tasks [Giveup] s' \<and> kernel_inv False s' Q' T' \<and> current_task s' = hd Q'"
proof -
  obtain s' where run: "kernel_run False two_tasks [Giveup] s'" using two_tasks_run by blast
  from kernel_runs_safe [OF this two_tasks_inv] run show ?thesis by blast
qed

theorem runnable_task_runs_witness:
  "\<exists>s1 es1. kernel_run False two_tasks es1 s1 \<and> current_task s1 = True"
proof -
  obtain s' where run: "kernel_run False two_tasks [Giveup] s'" using two_tasks_run by blast
  from runnable_task_runs [OF run two_tasks_inv, of 1] show ?thesis by fastforce
qed

theorem yielding_task_blocks_interrupts_witness:
  "\<exists>s'. keeps_runnable False True two_tasks [Giveup] s' \<and> (\<exists>Q' T'. kernel_inv False s' Q' T' \<and> True \<in> set Q')"
proof -
  obtain s' where "giveup_cpu two_tasks = Inr s'" using event_Giveup [OF two_tasks_inv] by blast
  then have "kernel_step False two_tasks Giveup s'" by (intro kernel_step.intros) simp_all
  then have run: "keeps_runnable False True two_tasks [Giveup] s'"
    by (rule keeps_runnable.intros(2) [OF _ _ keeps_runnable.intros(1)]) simp
  have "finite (UNIV :: bool set)" "card (UNIV :: bool set) < 2 ^ 32" by simp_all
  from yielding_task_blocks_interrupts [OF run two_tasks_inv _ _ this] run show ?thesis by auto
qed

theorem giveup_round_robin_witness:
  "\<exists>s'. giveup_times 3 two_tasks = Inr s' \<and> current_task s' = True"
proof -
  have "3 mod length [False, True] = 1" by (simp flip: numeral_2_eq_2)
  with giveup_round_robin [OF kernel_invD(1) [OF two_tasks_inv], of 3] show ?thesis by fastforce
qed

theorem start_kernel_task_correct_witness:
  "kernel_inv False (start_kernel_task True 0x5000 0x300 idle_kernel) [False, True] [] \<and>
   eip (saved_context (start_kernel_task True 0x5000 0x300 idle_kernel) True) = 0x300"
  using start_kernel_task_correct [OF idle_kernel_inv, of True "0x5000" "0x300"] by simp

theorem giveup_switches_context_witness:
  "\<exists>s'. giveup_cpu (two_tasks\<lparr>cpu := (cpu two_tasks)\<lparr>esp := 0x1FF0\<rparr>\<rparr>) = Inr s' \<and>
        eip (cpu s') = 0x200 \<and> esp (saved_context s' False) = 0x1FF4"
proof -
  let ?s = "two_tasks\<lparr>cpu := (cpu two_tasks)\<lparr>esp := 0x1FF0\<rparr>\<rparr>"
  have r: "running ?s [False, True]"
    using kernel_invD(1) [OF two_tasks_inv] by (simp add: running_def queue_inv_def)
  have pages: "kernel_stack_page two_tasks = (\<lambda>_. 0)(False := 0x1000, True := 0x3000)"
    "kernel_stack two_tasks True = 0x3FDC"
    by (simp_all add: two_tasks_def idle_kernel_def scheduler_start_def scheduler_init_def start_kernel_task_def
        create_kernel_task_def blank_sched_def timer_init_def schedule_task_def initial_stack_def STACK_PUSH_def
        STACK_PUSH_EMPTY_def Let_def)
  have "stacks_ok ?s [False, True]"
    by (simp add: stacks_ok_def in_stack_def pages inj_on_def)
  moreover have "eip (saved_context ?s True) = 0x200"
  proof -
    have "saved_context ?s True = saved_context two_tasks True"
      using resume_frame [OF refl] by (simp add: saved_context_def)
    then show ?thesis
      using start_kernel_task_context [OF idle_kernel_inv, of True "0x3000" "0x200"] by (simp add: two_tasks_def)
  qed
  ultimately show ?thesis using giveup_switches_context [OF r] by fastforce
qed

end
