(* ===== verification/Mutex.thy ===== *)
theory Mutex
  imports Scheduler
begin

text \<open>
  \<^verbatim>\<open>kernel/include/mutex.h\<close> and \<^verbatim>\<open>kernel/lib/mutex.c\<close>. A \<^verbatim>\<open>waiter_t\<close> lives on the stack of the
  task that waits, so it is named by that task. \<^verbatim>\<open>mutex_lock\<close> is in two parts where it calls
  \<^verbatim>\<open>unschedule\<close>: the second runs when the task gets the processor again.
\<close>

datatype 't wnode = Waiters | WNode 't

record 't mutex =
  locker :: "'t option"
  nesting :: u32
  waiters :: "'t wnode links"

definition mutex_init :: "'t mutex \<Rightarrow> 't mutex" where
  "mutex_init m = m\<lparr>locker := None, nesting := 0, waiters := list_init Waiters (waiters m)\<rparr>"

text \<open>\<^verbatim>\<open>++self->nesting; PANIC_IF(0 == self->nesting);\<close>\<close>

definition nest :: "'t mutex \<Rightarrow> 't mutex result" where
  "nest m =
     (let m = m\<lparr>nesting := nesting m + 1\<rparr>
      in if nesting m = 0 then Inl (Panic ''0 == self->nesting failed'') else Inr m)"

text \<open>A call of \<^verbatim>\<open>mutex_lock\<close> returns, or its task has been switched away.\<close>

datatype ('t, 'z) lock_outcome =
    Locked "'t mutex" "('t, 'z) sched_scheme"
  | Waiting "'t mutex" "('t, 'z) sched_scheme"

definition mutex_lock :: "'t mutex \<Rightarrow> ('t, 'z) sched_scheme \<Rightarrow> ('t, 'z) lock_outcome result" where
  "mutex_lock m s =
     (case locker m of
        Some l \<Rightarrow>
          if l = current_task s then bindE (nest m) (\<lambda>m. Inr (Locked m s))
          else
            let m = m\<lparr>waiters := list_insert_before Waiters (WNode (current_task s)) (waiters m)\<rparr>
            in bindE (unschedule s) (\<lambda>s. Inr (Waiting m s))
      | None \<Rightarrow> bindE (nest (m\<lparr>locker := Some (current_task s)\<rparr>)) (\<lambda>m. Inr (Locked m s)))"

text \<open>The rest of \<^verbatim>\<open>mutex_lock\<close> after \<^verbatim>\<open>unschedule\<close>, run by the task that waited.\<close>

definition mutex_lock_resumed :: "'t mutex \<Rightarrow> ('t, 'z) sched_scheme \<Rightarrow> 't mutex result" where
  "mutex_lock_resumed m s =
     nest (m\<lparr>waiters := list_remove (WNode (current_task s)) (waiters m), locker := Some (current_task s)\<rparr>)"

definition mutex_unlock ::
  "'t mutex \<Rightarrow> ('t, 'z) sched_scheme \<Rightarrow> ('t mutex \<times> ('t, 'z) sched_scheme) result" where
  "mutex_unlock m s =
     (if locker m \<noteq> Some (current_task s) then Inl (Panic ''self->locker != current_task failed'')
      else if nesting m = 0 then Inl (Panic ''0 == self->nesting failed'')
      else
        let m = m\<lparr>nesting := nesting m - 1\<rparr> in
        if nesting m = 0 then
          let m = m\<lparr>locker := None\<rparr> in
          if list_is_empty (waiters m) Waiters then Inr (m, s)
          else (case nxt (waiters m) Waiters of
                  Waiters \<Rightarrow> Inl BadPointer
                | WNode t \<Rightarrow> Inr (m, schedule_task t s))
        else Inr (m, s))"

section \<open>Invariant\<close>

definition wqueue :: "'t list \<Rightarrow> 't wnode \<Rightarrow> 't wnode list" where
  "wqueue W = (\<lambda>_. [])(Waiters := map WNode W)"

text \<open>\<open>W\<close> are the waiting tasks, longest first; the mutex is free exactly when it is not nested.\<close>

definition mutex_inv :: "'t mutex \<Rightarrow> 't list \<Rightarrow> bool" where
  "mutex_inv m W \<longleftrightarrow>
     family (waiters m) {Waiters} (range WNode) (wqueue W) \<and> (locker m = None \<longleftrightarrow> nesting m = 0)"

lemma wqueue_simps [simp]:
  "members {Waiters} (wqueue W) = WNode ` set W" "wqueue W Waiters = map WNode W"
  "(wqueue W)(Waiters := map WNode V) = wqueue V"
  by (simp_all add: members_def wqueue_def)

lemma remove1_map_WNode [simp]: "remove1 (WNode t) (map WNode W) = map WNode (remove1 t W)"
  by (induction W) auto

lemma waiters_append:
  assumes "family h {Waiters} (range WNode) (wqueue W)" and "t \<notin> set W"
  shows "family (list_insert_before Waiters (WNode t) h) {Waiters} (range WNode) (wqueue (W @ [t]))"
  using kl.put_tail [OF assms(1), of Waiters "WNode t"] assms(2)
    wqueue_simps(3) [of W "W @ [t]"] by (auto simp del: wqueue_simps(3))

lemma waiters_remove:
  assumes "family h {Waiters} (range WNode) (wqueue W)" and "t \<in> set W"
  shows "family (list_remove (WNode t) h) {Waiters} (range WNode) (wqueue (remove1 t W))"
  using kl.del [OF assms(1), of Waiters "WNode t"] assms(2) by simp

lemma waiters_head:
  assumes "family h {Waiters} (range WNode) (wqueue W)"
  shows "list_is_empty h Waiters \<longleftrightarrow> W = []" and "W \<noteq> [] \<Longrightarrow> nxt h Waiters = WNode (hd W)"
  using kl.emp_head [OF assms, of Waiters] kl.nx_head [OF assms, of Waiters]
  by (simp, cases W) simp_all

section \<open>Properties\<close>

text \<open>A mutex is recursive: its owner can lock it again, up to the range of the counter, and an
  unlock that is not the last leaves the owner; locking a free mutex makes the caller its owner; a
  task that finds it locked is put at the end of the waiters and switched away.\<close>

theorem mutex_lock_correct:
  assumes "mutex_inv m W" and "running s (t # Q)" and "t \<notin> set W"
  shows "(locker m = None \<longrightarrow>
            (\<exists>m'. mutex_lock m s = Inr (Locked m' s) \<and> mutex_inv m' W \<and> locker m' = Some t \<and> nesting m' = 1)) \<and>
         (locker m = Some t \<and> nesting m + 1 \<noteq> 0 \<longrightarrow>
            (\<exists>m'. mutex_lock m s = Inr (Locked m' s) \<and> mutex_inv m' W \<and> locker m' = Some t \<and>
               nesting m' = nesting m + 1 \<and> mutex_unlock m' s = Inr (m, s))) \<and>
         (\<forall>l. locker m = Some l \<and> l \<noteq> t \<and> Q \<noteq> [] \<longrightarrow>
            (\<exists>m' s'. mutex_lock m s = Inr (Waiting m' s') \<and> mutex_inv m' (W @ [t]) \<and> locker m' = Some l \<and>
               nesting m' = nesting m \<and> running s' Q))"
proof -
  have cur: "current_task s = t" using assms(2) by (simp add: running_def)
  have free: "\<exists>m'. mutex_lock m s = Inr (Locked m' s) \<and> mutex_inv m' W \<and> locker m' = Some t \<and> nesting m' = 1"
    if "locker m = None"
    using that assms(1) cur by (simp add: mutex_lock_def nest_def mutex_inv_def)
  have again: "\<exists>m'. mutex_lock m s = Inr (Locked m' s) \<and> mutex_inv m' W \<and> locker m' = Some t \<and>
      nesting m' = nesting m + 1 \<and> mutex_unlock m' s = Inr (m, s)"
    if "locker m = Some t" "nesting m + 1 \<noteq> 0"
    using that assms(1) cur by (simp add: mutex_lock_def nest_def mutex_inv_def mutex_unlock_def)
  have wait: "\<exists>m' s'. mutex_lock m s = Inr (Waiting m' s') \<and> mutex_inv m' (W @ [t]) \<and> locker m' = Some l \<and>
      nesting m' = nesting m \<and> running s' Q" if l: "locker m = Some l" "l \<noteq> t" "Q \<noteq> []" for l
  proof -
    obtain u R where Q: "Q = u # R" using l(3) by (cases Q) auto
    obtain s' where "unschedule s = Inr s'" "running s' (u # R)"
      using unschedule_queue assms(2) unfolding Q by metis
    then show ?thesis
      using l assms(1,3) cur waiters_append [of "waiters m" W t] Q
      by (simp add: mutex_lock_def mutex_inv_def)
  qed
  show ?thesis using free again wait by blast
qed

text \<open>C26. Unlocking hands the mutex over in the order of waiting: the last unlock of the owner frees
  the mutex and makes the task that has waited longest runnable; if the mutex is still free when
  that task runs, it becomes the owner and leaves the waiters.\<close>

theorem mutex_handover:
  assumes "mutex_inv m (w # W)" and "locker m = Some t" and "nesting m = 1" and "running s (t # Q)"
    and "w \<notin> set (t # Q)" and "running s2 (w # Q2)"
  shows "\<exists>m1 s1 m2. mutex_unlock m s = Inr (m1, s1) \<and> locker m1 = None \<and> running s1 (t # Q @ [w]) \<and>
           mutex_lock_resumed m1 s2 = Inr m2 \<and> mutex_inv m2 W \<and> locker m2 = Some w \<and> nesting m2 = 1"
proof -
  have cur: "current_task s = t" "current_task s2 = w" using assms(4,6) by (simp_all add: running_def)
  have fam: "family (waiters m) {Waiters} (range WNode) (wqueue (w # W))" using assms(1) by (simp add: mutex_inv_def)
  have "mutex_unlock m s = Inr (m\<lparr>nesting := 0, locker := None\<rparr>, schedule_task w s)"
    using assms(2,3) cur waiters_head [OF fam] by (simp add: mutex_unlock_def)
  moreover have "running (schedule_task w s) (t # Q @ [w])"
    using schedule_task_running [OF assms(4), of w] assms(5) by (simp add: wake_def)
  moreover have "family (list_remove (WNode w) (waiters m)) {Waiters} (range WNode) (wqueue W)"
    using waiters_remove [OF fam, of w] by simp
  ultimately show ?thesis
    using cur by (simp add: mutex_lock_resumed_def nest_def mutex_inv_def)
qed

text \<open>C27. Mutual exclusion can be violated. When the owner unlocks the mutex with a task waiting and
  locks it again before that task has run, the lock succeeds; the woken task does not look at
  the owner again and takes the mutex too. Both tasks are then between lock and unlock, and the
  first one's unlock stops the kernel.\<close>

theorem mutex_two_owners:
  assumes "mutex_inv m (w # W)" and "locker m = Some t" and "nesting m = 1" and "running s (t # Q)"
    and "w \<notin> set (t # Q)" and "running s2 (w # Q2)" and "running s3 (t # Q3)"
  shows "\<exists>m1 s1 m2 m3. mutex_unlock m s = Inr (m1, s1) \<and>
           mutex_lock m1 s1 = Inr (Locked m2 s1) \<and> locker m2 = Some t \<and>
           mutex_lock_resumed m2 s2 = Inr m3 \<and> locker m3 = Some w \<and> nesting m3 = 2 \<and>
           mutex_unlock m3 s3 = Inl (Panic ''self->locker != current_task failed'')"
proof -
  have cur: "current_task s = t" "current_task s2 = w" "current_task s3 = t"
    using assms(4,6,7) by (simp_all add: running_def)
  have fam: "family (waiters m) {Waiters} (range WNode) (wqueue (w # W))" using assms(1) by (simp add: mutex_inv_def)
  have un: "mutex_unlock m s = Inr (m\<lparr>nesting := 0, locker := None\<rparr>, schedule_task w s)"
    using assms(2,3) cur waiters_head [OF fam] by (simp add: mutex_unlock_def)
  have "current_task (schedule_task w s) = t" using cur by (simp add: schedule_task_def)
  moreover have "w \<noteq> t" using assms(5) by simp
  ultimately show ?thesis
    using un cur by (simp add: mutex_lock_def nest_def mutex_lock_resumed_def mutex_unlock_def)
qed


section \<open>A mutex with one waiting task\<close>

definition free_mutex :: "bool mutex" where
  "free_mutex = mutex_init \<lparr>locker = None, nesting = 7, waiters = \<lparr>prv = (\<lambda>n. n), nxt = (\<lambda>n. n)\<rparr>\<rparr>"

definition contended_mutex :: "bool mutex" where
  "contended_mutex =
     free_mutex\<lparr>locker := Some False, nesting := 1,
       waiters := list_insert_before Waiters (WNode True) (waiters free_mutex)\<rparr>"

lemma free_mutex_inv: "mutex_inv free_mutex []"
  by (auto simp: mutex_inv_def free_mutex_def mutex_init_def list_init_self family_def ring_Nil wqueue_def)

lemma contended_mutex_inv: "mutex_inv contended_mutex [True]"
  using waiters_append [of "waiters free_mutex" "[]" True] free_mutex_inv
  by (simp add: mutex_inv_def contended_mutex_def)

lemma idle_running: "running idle_kernel [False]" and two_running: "running two_tasks [False, True]"
  using kernel_invD(1) [OF idle_kernel_inv] kernel_invD(1) [OF two_tasks_inv] by simp_all

lemma other_running: "\<exists>s. running (s :: bool sched) [True, False]"
  using giveup_cpu_queue [OF two_running] by auto

theorem mutex_lock_correct_witness:
  "\<exists>m'. mutex_lock free_mutex two_tasks = Inr (Locked m' two_tasks) \<and> locker m' = Some False"
  using mutex_lock_correct [OF free_mutex_inv two_running]
  by (simp add: free_mutex_def mutex_init_def) blast

theorem mutex_handover_witness:
  "\<exists>m1 s1 s2 m2. mutex_unlock contended_mutex idle_kernel = Inr (m1, s1) \<and> running s1 [False, True] \<and>
     mutex_lock_resumed m1 (s2 :: bool sched) = Inr m2 \<and> locker m2 = Some True \<and> nesting m2 = 1"
proof -
  obtain s2 :: "bool sched" where "running s2 [True, False]" using other_running by blast
  from mutex_handover [OF contended_mutex_inv _ _ idle_running _ this]
  show ?thesis by (simp add: contended_mutex_def) blast
qed

theorem mutex_two_owners_witness:
  "\<exists>m1 s1 m2 s2 m3. mutex_unlock contended_mutex idle_kernel = Inr (m1, s1) \<and>
     mutex_lock m1 s1 = Inr (Locked m2 s1) \<and> mutex_lock_resumed m2 (s2 :: bool sched) = Inr m3 \<and> nesting m3 = 2"
proof -
  obtain s2 :: "bool sched" where "running s2 [True, False]" using other_running by blast
  from mutex_two_owners [OF contended_mutex_inv _ _ idle_running _ this two_running]
  show ?thesis by (simp add: contended_mutex_def) blast
qed

end
