(* ===== verification/Idt.thy ===== *)
theory Idt
  imports Context
begin

text \<open>
  Interrupts: \<^verbatim>\<open>drivers/cpu/idt.c\<close>, \<^verbatim>\<open>drivers/cpu/isr.h\<close> and \<^verbatim>\<open>include/idt.h\<close>. The entry stubs are
  modelled down to the words they push, so that the structure \<^verbatim>\<open>int_regs_t\<close> that a handler gets
  is read from the stack the processor and the stubs have built. The addresses of the stubs are
  given by the linker and are a parameter.
\<close>

unbundle bit_operations_syntax

section \<open>The descriptor table\<close>

record IDT_entry =
  offset_1 :: u16
  selector :: u16
  zero :: u8
  type_attr :: u8
  offset_2 :: u16

text \<open>\<open>ISR n\<close> and \<open>ISRE n\<close> are the two macros of the list in \<^verbatim>\<open>isr.h\<close>.\<close>

datatype stub = ISR nat | ISRE nat

fun stub_number :: "stub \<Rightarrow> nat" where
  "stub_number (ISR n) = n"
| "stub_number (ISRE n) = n"

definition isr_h :: "stub list" where
  "isr_h =
     map ISR [0..<8] @ [ISRE 8, ISR 9, ISRE 10, ISRE 11, ISRE 12, ISRE 13, ISRE 14] @
     map ISR [15..<256]"

text \<open>A handler gets the address of the saved registers. \<open>'h\<close> stands for the type of handlers.\<close>

record 'h interrupts =
  idt :: "IDT_entry list"
  handlers :: "'h option list"
  used_interrupts :: "u8 list"

definition empty_entry :: IDT_entry where
  "empty_entry = \<lparr>offset_1 = 0, selector = 0, zero = 0, type_attr = 0, offset_2 = 0\<rparr>"

text \<open>The static arrays, zero before the kernel starts.\<close>

definition static_interrupts :: "'h interrupts" where
  "static_interrupts =
     \<lparr>idt = replicate 256 empty_entry, handlers = replicate 256 None, used_interrupts = replicate 256 0\<rparr>"

definition set_gate :: "u8 \<Rightarrow> u32 \<Rightarrow> ('h, 'z) interrupts_scheme \<Rightarrow> ('h, 'z) interrupts_scheme" where
  "set_gate index offset s =
     s\<lparr>idt := (idt s)[unat index :=
        (idt s ! unat index)\<lparr>offset_1 := ucast offset, selector := 0x8, type_attr := 0x8e,
                             offset_2 := ucast (drop_bit 16 offset)\<rparr>]\<rparr>"

text \<open>\<^verbatim>\<open>memset\<close> of \<open>n\<close> elements from \<open>base\<close> on.\<close>

definition mark_used :: "nat \<Rightarrow> nat \<Rightarrow> u8 list \<Rightarrow> u8 list" where
  "mark_used base n us = take base us @ replicate n 1 @ drop (base + n) us"

definition idt_init :: "(stub \<Rightarrow> u32) \<Rightarrow> ('h, 'z) interrupts_scheme \<Rightarrow> ('h, 'z) interrupts_scheme" where
  "idt_init addr s =
     (let s = fold (\<lambda>b. set_gate (of_nat (stub_number b)) (addr b)) isr_h s
      in s\<lparr>used_interrupts := mark_used 0 0x20 (used_interrupts s)\<rparr>)"

definition set_interrupt_handler ::
  "u8 \<Rightarrow> 'h \<Rightarrow> u8 \<Rightarrow> ('h, 'z) interrupts_scheme \<Rightarrow> ('h, 'z) interrupts_scheme" where
  "set_interrupt_handler int_no handler attr s =
     s\<lparr>idt := (idt s)[unat int_no := (idt s ! unat int_no)\<lparr>type_attr := attr\<rparr>],
       handlers := (handlers s)[unat int_no := Some handler]\<rparr>"

definition set_kernel_interrupt_handler ::
  "u8 \<Rightarrow> 'h \<Rightarrow> ('h, 'z) interrupts_scheme \<Rightarrow> ('h, 'z) interrupts_scheme" where
  "set_kernel_interrupt_handler int_no handler = set_interrupt_handler int_no handler 0x8e"

section \<open>Allocation of vectors\<close>

text \<open>\<^verbatim>\<open>for(i = 0; i < count && !used_interrupts[base+i]; ++i);\<close> as the final value of \<open>i\<close>.\<close>

fun unused_from :: "u8 list \<Rightarrow> nat \<Rightarrow> nat \<Rightarrow> nat result" where
  "unused_from us base 0 = Inr 0"
| "unused_from us base (Suc k) =
     (if base < length us then
        if us ! base = 0 then bindE (unused_from us (Suc base) k) (\<lambda>i. Inr (Suc i)) else Inr 0
      else Inl OutOfBounds)"

function find_vectors :: "u8 list \<Rightarrow> nat \<Rightarrow> nat \<Rightarrow> nat option result" where
  "find_vectors us count base =
     (if base < 0x100 then
        bindE (unused_from us base count) (\<lambda>i.
          if i = count then Inr (Some base)
          else if count = 0 then Inl Hang else find_vectors us count (base + count))
      else Inr None)"
  by pat_completeness auto
termination by (relation "measure (\<lambda>(us, count, base). 0x100 - base)") auto

declare find_vectors.simps [simp del]

definition allocate_interrupts ::
  "u8 \<Rightarrow> ('h, 'z) interrupts_scheme \<Rightarrow> (int \<times> ('h, 'z) interrupts_scheme) result" where
  "allocate_interrupts order s =
     (if 8 \<le> order then Inr (- 1, s)
      else
        let count = 2 ^ unat order in
        bindE (find_vectors (used_interrupts s) count 0) (\<lambda>r.
          case r of
            None \<Rightarrow> Inr (- 1, s)
          | Some base \<Rightarrow>
              Inr (int base, s\<lparr>used_interrupts := mark_used base count (used_interrupts s)\<rparr>)))"

definition allocate_interrupt ::
  "('h, 'z) interrupts_scheme \<Rightarrow> (int \<times> ('h, 'z) interrupts_scheme) result" where
  "allocate_interrupt = allocate_interrupts 0"

section \<open>Entry and return\<close>

record machine = cpu +
  seg_cs :: u16
  seg_ds :: u16
  seg_es :: u16
  seg_fs :: u16
  seg_gs :: u16
  seg_ss :: u16
  eflags :: u32

type_synonym mstate = "machine \<times> memory"

definition push :: "u32 \<Rightarrow> mstate \<Rightarrow> mstate" where
  "push v cm = (case cm of (c, m) \<Rightarrow> (c\<lparr>esp := esp c - 4\<rparr>, m(esp c - 4 := v)))"

definition pop :: "mstate \<Rightarrow> u32 \<times> mstate" where
  "pop cm = (case cm of (c, m) \<Rightarrow> (m (esp c), (c\<lparr>esp := esp c + 4\<rparr>, m)))"

text \<open>
  What the processor does on an interrupt in the kernel: it pushes the flags, the code segment,
  the address to return to and, for some exceptions, an error code, and clears the flags TF, IF,
  NT, RF and VM.
\<close>

definition cpu_interrupt :: "u32 option \<Rightarrow> mstate \<Rightarrow> mstate" where
  "cpu_interrupt err cm =
     (case push (eip (fst cm)) (push (ucast (seg_cs (fst cm))) (push (eflags (fst cm)) cm)) of
        (c, m) \<Rightarrow>
          (case err of None \<Rightarrow> (c\<lparr>eflags := eflags c AND NOT 0x34300\<rparr>, m)
           | Some e \<Rightarrow> push e (c\<lparr>eflags := eflags c AND NOT 0x34300\<rparr>, m)))"

text \<open>\<^verbatim>\<open>cli\<close>; \<^verbatim>\<open>push $0\<close> for \<open>ISR\<close>; \<^verbatim>\<open>pushl $n\<close>.\<close>

definition cli :: "mstate \<Rightarrow> mstate" where
  "cli cm = (case cm of (c, m) \<Rightarrow> (c\<lparr>eflags := eflags c AND NOT 0x200\<rparr>, m))"

fun run_stub :: "stub \<Rightarrow> mstate \<Rightarrow> mstate" where
  "run_stub (ISR n) cm = push (of_nat n) (push 0 (cli cm))"
| "run_stub (ISRE n) cm = push (of_nat n) (cli cm)"

text \<open>\<^verbatim>\<open>isr_common\<close> up to the call: \<^verbatim>\<open>pusha\<close>, the data segments, \<^verbatim>\<open>mov %esp, %eax\<close>.\<close>

definition isr_save :: "mstate \<Rightarrow> mstate" where
  "isr_save cm =
     (case cm of (c, m) \<Rightarrow>
      case push (ucast (seg_gs c)) (push (ucast (seg_fs c)) (push (ucast (seg_es c))
             (push (ucast (seg_ds c)) (cpu_pusha c m)))) of (c, m) \<Rightarrow>
        (c\<lparr>seg_ss := 0x10, seg_ds := 0x10, seg_es := 0x10, seg_fs := 0x10, seg_gs := 0x10,
           eax := esp c\<rparr>, m))"

text \<open>\<^verbatim>\<open>pop\<close> of the data segments, \<^verbatim>\<open>popa\<close>, \<^verbatim>\<open>add $8, %esp\<close> and \<^verbatim>\<open>iret\<close>.\<close>

definition isr_restore :: "mstate \<Rightarrow> mstate" where
  "isr_restore cm =
     (case pop cm of (gs, cm) \<Rightarrow>
      case pop cm of (fs, cm) \<Rightarrow>
      case pop cm of (es, cm) \<Rightarrow>
      case pop cm of (ds, (c, m)) \<Rightarrow>
      case pop ((cpu_popa (c\<lparr>seg_gs := ucast gs, seg_fs := ucast fs, seg_es := ucast es, seg_ds := ucast ds\<rparr>) m)
                  \<lparr>esp := esp c + 40\<rparr>, m) of (ip, cm) \<Rightarrow>
      case pop cm of (cs, cm) \<Rightarrow>
      case pop cm of (fl, (c, m)) \<Rightarrow>
        (c\<lparr>eip := ip, seg_cs := ucast cs, eflags := fl\<rparr>, m))"

text \<open>\<^verbatim>\<open>int_regs_t\<close>, read at its address. The last field belongs to another privilege level.\<close>

record int_regs =
  r_gs :: u32
  r_fs :: u32
  r_es :: u32
  r_ds :: u32
  r_edi :: u32
  r_esi :: u32
  r_ebp :: u32
  r_esp :: u32
  r_ebx :: u32
  r_edx :: u32
  r_ecx :: u32
  r_eax :: u32
  int_no :: u32
  err_code :: u32
  r_eip :: u32
  r_cs :: u32
  r_eflags :: u32
  ret_esp :: u32

definition int_regs_at :: "memory \<Rightarrow> u32 \<Rightarrow> int_regs" where
  "int_regs_at m p =
     \<lparr>r_gs = m p, r_fs = m (p + 4), r_es = m (p + 8), r_ds = m (p + 12),
      r_edi = m (p + 16), r_esi = m (p + 20), r_ebp = m (p + 24), r_esp = m (p + 28),
      r_ebx = m (p + 32), r_edx = m (p + 36), r_ecx = m (p + 40), r_eax = m (p + 44),
      int_no = m (p + 48), err_code = m (p + 52), r_eip = m (p + 56), r_cs = m (p + 60),
      r_eflags = m (p + 64), ret_esp = m (p + 68)\<rparr>"

section \<open>The common handler\<close>

definition exception_messages :: "string list" where
  "exception_messages =
     [''Division By Zero'', ''Debug'', ''Non Maskable Interrupt'', ''Breakpoint'',
      ''Into Detected Overflow'', ''Out of Bounds'', ''Invalid Opcode'', ''No Coprocessor'',
      ''Double Fault'', ''Coprocessor Segment Overrun'', ''Bad TSS'', ''Segment Not Present'',
      ''Stack Fault'', ''General Protection Fault'', ''Page Fault'', ''Unknown Interrupt'',
      ''Coprocessor Fault'', ''Alignment Check'', ''Machine Check'', ''Reserved'',
      ''Reserved'', ''Reserved'', ''Reserved'', ''Reserved'',
      ''Reserved'', ''Reserved'', ''Reserved'', ''Reserved'',
      ''Reserved'', ''Reserved'', ''Reserved'', ''Reserved'']"

definition print_int_regs :: "int_regs \<Rightarrow> kcall list" where
  "print_int_regs r =
     [(''Err code %x eflags %08x'', [ArgNum (err_code r), ArgNum (r_eflags r)]),
      (''eax %08x ecx %08x edx %08x ebx %08x'', map ArgNum [r_eax r, r_ecx r, r_edx r, r_ebx r]),
      (''esp %08x ebp %08x esi %08x edi %08x'', map ArgNum [ret_esp r, r_ebp r, r_esi r, r_edi r]),
      (''ds %04hx es %04hx fs %04hx gs %04hx'', map ArgNum [r_ds r, r_es r, r_fs r, r_gs r])]"

definition exception_report :: "int_regs \<Rightarrow> kcall list" where
  "exception_report r =
     (''%s (%d) exception at %04x:%08x'',
      [ArgStr (if int_no r < 0x20 then exception_messages ! unat (int_no r) else ''Unknown''),
       ArgNum (int_no r), ArgNum (r_cs r), ArgNum (r_eip r)]) # print_int_regs r"

text \<open>
  \<open>run h\<close> is the handler's code: it gets the address of the registers, the memory and the rest of
  the kernel's state. The messages are those of \<^verbatim>\<open>isr_handler\<close> itself.
\<close>

type_synonym ('h, 's) handler_code = "'h \<Rightarrow> u32 \<Rightarrow> memory \<times> 's \<Rightarrow> (memory \<times> 's) result"

definition isr_handler ::
  "'h option list \<Rightarrow> ('h, 's) handler_code \<Rightarrow> u32 \<Rightarrow> memory \<times> 's \<Rightarrow> kcall list \<times> (memory \<times> 's) result" where
  "isr_handler hs run p ms =
     (let regs = int_regs_at (fst ms) p in
      if unat (int_no regs) < length hs then
        (case hs ! unat (int_no regs) of
           Some h \<Rightarrow> ([], run h p ms)
         | None \<Rightarrow> (exception_report regs, Inl (Panic ''Unhandled exception'')))
      else ([], Inl OutOfBounds))"

text \<open>
  \<^verbatim>\<open>isr_common\<close>: the call passes the address of the registers on the stack. A C function keeps the
  stack pointer; the registers it may change hold \<open>scratch\<close> afterwards.
\<close>

definition isr_common ::
  "'h option list \<Rightarrow> ('h, 's) handler_code \<Rightarrow> u32 \<times> u32 \<times> u32 \<Rightarrow> mstate \<times> 's \<Rightarrow>
     kcall list \<times> (mstate \<times> 's) result" where
  "isr_common hs run scratch cs =
     (case cs of (cm, s) \<Rightarrow>
      case isr_save cm of (c, m) \<Rightarrow>
      case push (eax c) (c, m) of (c, m) \<Rightarrow>
      case scratch of (a, cx, d) \<Rightarrow>
      case isr_handler hs run (eax c) (m, s) of (log, r) \<Rightarrow>
        (log, bindE r (\<lambda>(m, s).
           Inr (isr_restore (c\<lparr>eax := a, ecx := cx, edx := d, esp := esp c + 4\<rparr>, m), s))))"

definition interrupt ::
  "'h option list \<Rightarrow> ('h, 's) handler_code \<Rightarrow> u32 \<times> u32 \<times> u32 \<Rightarrow> nat \<Rightarrow> u32 option \<Rightarrow> mstate \<times> 's \<Rightarrow>
     kcall list \<times> (mstate \<times> 's) result" where
  "interrupt hs run scratch n err cs =
     (case cs of (cm, s) \<Rightarrow>
        isr_common hs run scratch (run_stub (isr_h ! n) (cpu_interrupt err cm), s))"

section \<open>What a handler sees\<close>

lemma isr_h_nth: 
  assumes "n < 256"
  shows "isr_h ! n = (if n = 8 \<or> (10 \<le> n \<and> n \<le> 14) then ISRE n else ISR n)"
proof (cases "n < 15")
  case True
  then have "n \<in> set [0..<15]" by simp
  moreover have "\<forall>n\<in>set [0..<15]. isr_h ! n = (if n = 8 \<or> (10 \<le> n \<and> n \<le> 14) then ISRE n else ISR n)"
    by code_simp
  ultimately show ?thesis by blast
next
  case False
  let ?front = "map ISR [0..<8] @ [ISRE 8, ISR 9, ISRE 10, ISRE 11, ISRE 12, ISRE 13, ISRE 14]"
  have "isr_h = ?front @ map ISR [15..<256]" unfolding isr_h_def by (simp only: append_assoc)
  moreover have "length ?front = 15" by simp
  ultimately have "isr_h ! n = map ISR [15..<256] ! (n - 15)"
    using False nth_append [of ?front "map ISR [15..<256]" n] by (simp only: if_False)
  also have "\<dots> = ISR n" using False assms by (simp del: upt_rec_numeral)
  finally show ?thesis using False by simp
qed

text \<open>The vectors for which the processor pushes an error code, and those the stubs take to do so.\<close>

definition regs_of :: "machine \<Rightarrow> nat \<Rightarrow> u32 \<Rightarrow> u32 \<Rightarrow> int_regs" where
  "regs_of c n e word_above =
     \<lparr>r_gs = ucast (seg_gs c), r_fs = ucast (seg_fs c), r_es = ucast (seg_es c), r_ds = ucast (seg_ds c),
      r_edi = edi c, r_esi = esi c, r_ebp = ebp c, r_esp = esp c - 20, r_ebx = ebx c, r_edx = edx c,
      r_ecx = ecx c, r_eax = eax c, int_no = of_nat n, err_code = e, r_eip = eip c,
      r_cs = ucast (seg_cs c), r_eflags = eflags c, ret_esp = word_above\<rparr>"

lemma add_sub_word: "(a :: u32) - x + y = a - (x - y)" by simp

text \<open>The state when \<^verbatim>\<open>isr_handler\<close> is called, for a stub that fits what the processor pushes.\<close>

definition entry_machine :: "machine \<Rightarrow> machine" where
  "entry_machine c =
     c\<lparr>eflags := (eflags c AND NOT 0x34300) AND NOT 0x200, esp := esp c - 68, seg_ss := 16,
       seg_ds := 16, seg_es := 16, seg_fs := 16, seg_gs := 16, eax := esp c - 68\<rparr>"

definition entry_memory :: "machine \<Rightarrow> nat \<Rightarrow> u32 \<Rightarrow> memory \<Rightarrow> memory" where
  "entry_memory c n e m =
     m(esp c - 4 := eflags c, esp c - 8 := ucast (seg_cs c), esp c - 12 := eip c, esp c - 16 := e,
       esp c - 20 := of_nat n, esp c - 24 := eax c, esp c - 28 := ecx c, esp c - 32 := edx c,
       esp c - 36 := ebx c, esp c - 40 := esp c - 20, esp c - 44 := ebp c, esp c - 48 := esi c,
       esp c - 52 := edi c, esp c - 56 := ucast (seg_ds c), esp c - 60 := ucast (seg_es c),
       esp c - 64 := ucast (seg_fs c), esp c - 68 := ucast (seg_gs c))"

lemmas entry_defs = isr_save_def cpu_interrupt_def push_def cpu_pusha_def cli_def split_beta

lemma entry_isr:
  "isr_save (run_stub (ISR n) (cpu_interrupt None (c, m))) = (entry_machine c, entry_memory c n 0 m)"
  by (simp add: entry_machine_def entry_memory_def entry_defs)

lemma entry_isre:
  "isr_save (run_stub (ISRE n) (cpu_interrupt (Some e) (c, m))) = (entry_machine c, entry_memory c n e m)"
  by (simp add: entry_machine_def entry_memory_def entry_defs)

lemma entry_regs:
  "int_regs_at ((entry_memory c n e m)(esp c - 72 := x)) (esp c - 68) = regs_of c n e (m (esp c))"
  by (simp add: entry_memory_def int_regs_at_def regs_of_def add_sub_word sub_ne)

lemma segment_word: "ucast (ucast (x :: u16) :: u32) = x"
  by (rule bit_word_eqI) (simp add: bit_simps)

lemma restore_regs:
  assumes "int_regs_at m p = regs_of c n e x" and "esp d = p" and "seg_ss d = seg_ss c"
  shows "isr_restore (d, m) = (c\<lparr>esp := p + 68\<rparr>, m)"
  using assms
  by (cases c; cases d)
    (simp add: isr_restore_def pop_def cpu_popa_def int_regs_at_def regs_of_def add.assoc segment_word)

lemma stub_entry:
  assumes "n < 256" and "err = None \<longleftrightarrow> \<not> (n = 8 \<or> 10 \<le> n \<and> n \<le> 14)"
  shows "isr_save (run_stub (isr_h ! n) (cpu_interrupt err (c, m))) =
           (entry_machine c, entry_memory c n (case err of None \<Rightarrow> 0 | Some e \<Rightarrow> e) m)"
proof (cases err)
  case None
  then have "isr_h ! n = ISR n" using assms by (simp add: isr_h_nth)
  then show ?thesis using None entry_isr [of n c m] by (simp del: run_stub.simps)
next
  case (Some e)
  then have "isr_h ! n = ISRE n" using assms by (auto simp: isr_h_nth)
  then show ?thesis using Some entry_isre [of n e c m] by (simp del: run_stub.simps)
qed

text \<open>The common part of the theorems: what runs is the handler for \<open>int_no\<close>.\<close>

lemma isr_common_runs:
  assumes save: "isr_save cm = (c1, m1)" and r: "int_regs_at (m1(p - 4 := p)) p = regs_of c n e x"
    and c1: "eax c1 = p" "esp c1 = p" "seg_ss c1 = seg_ss c"
    and h: "length hs = 256" "n < 256" "hs ! n = Some h"
    and run: "run h p (m1(p - 4 := p), s) = Inr (m2, s2)" "int_regs_at m2 p = int_regs_at (m1(p - 4 := p)) p"
  shows "isr_common hs run scratch (cm, s) = ([], Inr ((c\<lparr>esp := p + 68\<rparr>, m2), s2))"
proof -
  obtain a cx d where sc: "scratch = (a, cx, d)" by (cases scratch)
  have no: "int_no (int_regs_at (m1(p - 4 := p)) p) = of_nat n" using r by (simp add: regs_of_def)
  have n: "unat (of_nat n :: u32) = n" using h(2) by (simp add: unat_of_nat)
  have ih: "isr_handler hs run p (m1(p - 4 := p), s) = ([], Inr (m2, s2))"
    using h n no run(1) by (simp add: isr_handler_def)
  have "isr_restore (c1\<lparr>eax := a, ecx := cx, edx := d\<rparr>, m2) = (c\<lparr>esp := p + 68\<rparr>, m2)"
    using r run(2) c1 by (intro restore_regs) auto
  then show ?thesis
    using save c1 ih by (simp add: isr_common_def push_def sc)
qed

lemma isr_common_unhandled:
  assumes save: "isr_save cm = (c1, m1)" and r: "int_regs_at (m1(p - 4 := p)) p = regs_of c n e x"
    and c1: "eax c1 = p" "esp c1 = p" and h: "length hs = 256" "n < 256" "hs ! n = None"
  shows "isr_common hs run scratch (cm, s) =
           (exception_report (regs_of c n e x), Inl (Panic ''Unhandled exception''))"
proof -
  have no: "int_no (int_regs_at (m1(p - 4 := p)) p) = of_nat n" using r by (simp add: regs_of_def)
  have n: "unat (of_nat n :: u32) = n" using h(2) by (simp add: unat_of_nat)
  show ?thesis
    using save c1 h n no r by (simp add: isr_common_def push_def isr_handler_def split: prod.split)
qed

text \<open>The words below the stack pointer that the entry code fills: 17 of registers and the argument.\<close>

definition entry_words :: "u32 \<Rightarrow> u32 set" where
  "entry_words sp = (\<lambda>i. sp - 4 * of_nat i) ` {1..18}"

lemma above_entry_words:
  assumes "unat x + 72 < 2 ^ 32"
  shows "sp + x \<notin> entry_words sp"
proof
  assume "sp + x \<in> entry_words sp"
  then obtain i :: nat where i: "1 \<le> i" "i \<le> 18" "sp + x = sp - 4 * of_nat i" by (auto simp: entry_words_def)
  then have "x + 4 * of_nat i = 0" by (simp add: algebra_simps)
  then have "unat (x + 4 * of_nat i) = 0" by simp
  moreover have "unat (x + 4 * of_nat i) = unat x + 4 * i"
    using assms i(2) by (simp add: unat_word_ariths unat_of_nat)
  ultimately show False using i(1) by simp
qed

lemma entry_memory_frame: "a \<notin> entry_words (esp c) \<Longrightarrow> ((entry_memory c n e m)(esp c - 72 := x)) a = m a"
proof -
  assume a: "a \<notin> entry_words (esp c)"
  have "a \<noteq> esp c - 4 * of_nat i" if "1 \<le> i" "i \<le> 18" for i using a that by (auto simp: entry_words_def)
  from this [of 1] this [of 2] this [of 3] this [of 4] this [of 5] this [of 6] this [of 7] this [of 8] this [of 9]
    this [of 10] this [of 11] this [of 12] this [of 13] this [of 14] this [of 15] this [of 16] this [of 17] this [of 18]
  show ?thesis by (simp add: entry_memory_def)
qed

lemma interrupt_round_trip:
  assumes "n < 256" and err: "err = None \<longleftrightarrow> \<not> (n = 8 \<or> 10 \<le> n \<and> n \<le> 14)" and "seg_ss c = 0x10"
    and "length hs = 256" and "hs ! n = Some h"
    and run: "\<And>m1. \<exists>m2. run h (esp c - 68) (m1, s) = Inr (m2, f (int_regs_at m1 (esp c - 68))) \<and>
               int_regs_at m2 (esp c - 68) = int_regs_at m1 (esp c - 68) \<and> (\<forall>a. a \<notin> W \<longrightarrow> m2 a = m1 a)"
  shows "\<exists>m'. interrupt hs run scratch n err ((c, m), s) =
           ([], Inr ((c, m'), f (regs_of c n (case err of None \<Rightarrow> 0 | Some e \<Rightarrow> e) (m (esp c))))) \<and>
         (\<forall>a. a \<notin> entry_words (esp c) \<union> W \<longrightarrow> m' a = m a)"
proof -
  let ?e = "case err of None \<Rightarrow> 0 | Some e \<Rightarrow> e" and ?p = "esp c - 68"
  let ?m1 = "entry_memory c n ?e m"
  have p4: "?p - 4 = esp c - 72" by simp
  have r: "int_regs_at (?m1(?p - 4 := ?p)) ?p = regs_of c n ?e (m (esp c))"
    unfolding p4 by (rule entry_regs)
  obtain m2 where run2: "run h ?p (?m1(?p - 4 := ?p), s) = Inr (m2, f (int_regs_at (?m1(?p - 4 := ?p)) ?p))"
    "int_regs_at m2 ?p = int_regs_at (?m1(?p - 4 := ?p)) ?p" "\<forall>a. a \<notin> W \<longrightarrow> m2 a = (?m1(?p - 4 := ?p)) a"
    using run by blast
  have "isr_common hs run scratch (run_stub (isr_h ! n) (cpu_interrupt err (c, m)), s) =
      ([], Inr ((c\<lparr>esp := ?p + 68\<rparr>, m2), f (int_regs_at (?m1(?p - 4 := ?p)) ?p)))"
  proof (rule isr_common_runs [where ?m1.0 = ?m1 and n = n and h = h and e = ?e and x = "m (esp c)"])
    show "isr_save (run_stub (isr_h ! n) (cpu_interrupt err (c, m))) = (entry_machine c, ?m1)"
      using assms(1) err by (rule stub_entry)
  qed (use assms(1,3-5) r run2 in \<open>simp_all add: entry_machine_def\<close>)
  moreover have "m2 a = m a" if "a \<notin> entry_words (esp c) \<union> W" for a
    using run2(3) entry_memory_frame [of a c n ?e m ?p] that unfolding p4 by simp
  ultimately show ?thesis using r by (auto simp: interrupt_def)
qed


section \<open>The exception with the wrong stub\<close>

lemma isr_restore_eip:
  "isr_restore (d, m) = (c', m') \<Longrightarrow>
     eip c' = m (esp d + 56) \<and> esp c' = esp d + 68 \<and> seg_cs c' = ucast (m (esp d + 60)) \<and> m' = m"
  by (auto simp: isr_restore_def pop_def cpu_popa_def add.assoc)

definition shifted_regs :: "machine \<Rightarrow> nat \<Rightarrow> u32 \<Rightarrow> int_regs" where
  "shifted_regs c n e =
     (regs_of c n 0 (eflags c))
       \<lparr>r_esp := esp c - 24, r_eip := e, r_cs := eip c, r_eflags := ucast (seg_cs c)\<rparr>"

lemma entry_shifted:
  assumes "isr_save (run_stub (ISR n) (cpu_interrupt (Some e) (c, m))) = (c1, m1)"
  shows "eax c1 = esp c - 72 \<and> esp c1 = esp c - 72 \<and>
         int_regs_at (m1(esp c - 76 := x)) (esp c - 72) = shifted_regs c n e"
  using assms
  by (auto simp: entry_defs int_regs_at_def regs_of_def shifted_regs_def add_sub_word sub_ne)

lemma alignment_check_runs:
  assumes "length hs = 256"
  shows "(hs ! 17 = None \<longrightarrow>
            interrupt hs run scratch 17 (Some e) ((c, m), s) =
              (exception_report (shifted_regs c 17 e), Inl (Panic ''Unhandled exception''))) \<and>
         (\<forall>h s2. hs ! 17 = Some h \<and>
            (\<forall>m1. \<exists>m2. run h (esp c - 72) (m1, s) = Inr (m2, s2) \<and>
                       int_regs_at m2 (esp c - 72) = int_regs_at m1 (esp c - 72)) \<longrightarrow>
            (\<exists>c' m'. interrupt hs run scratch 17 (Some e) ((c, m), s) = ([], Inr ((c', m'), s2)) \<and>
               eip c' = e \<and> seg_cs c' = ucast (eip c) \<and> esp c' = esp c - 4))"
proof -
  let ?p = "esp c - 72"
  obtain c1 m1 where save: "isr_save (run_stub (ISR 17) (cpu_interrupt (Some e) (c, m))) = (c1, m1)"
    by fastforce
  let ?m1 = "m1(esp c - 76 := ?p)"
  have in1: "eax c1 = ?p" "esp c1 = ?p" and regs: "int_regs_at ?m1 ?p = shifted_regs c 17 e"
    using entry_shifted [OF save] by blast+
  have no: "int_no (int_regs_at ?m1 ?p) = 17" by (simp add: regs shifted_regs_def regs_of_def)
  have stub: "isr_h ! 17 = ISR 17" by (simp add: isr_h_nth)
  obtain a cx d where sc: "scratch = (a, cx, d)" by (cases scratch)
  have run_it: "interrupt hs run scratch 17 (Some e) ((c, m), s) =
      (case isr_handler hs run ?p (?m1, s) of (log, r) \<Rightarrow>
        (log, bindE r (\<lambda>(m, s). Inr (isr_restore (c1\<lparr>eax := a, ecx := cx, edx := d\<rparr>, m), s))))"
    using in1 by (simp add: interrupt_def stub isr_common_def save push_def sc del: run_stub.simps)
  show ?thesis
  proof (intro conjI impI allI)
    assume "hs ! 17 = None"
    then have "isr_handler hs run ?p (?m1, s) =
        (exception_report (shifted_regs c 17 e), Inl (Panic ''Unhandled exception''))"
      using assms no regs by (simp add: isr_handler_def)
    then show "interrupt hs run scratch 17 (Some e) ((c, m), s) =
        (exception_report (shifted_regs c 17 e), Inl (Panic ''Unhandled exception''))"
      using run_it by simp
  next
    fix h s2
    assume h: "hs ! 17 = Some h \<and>
        (\<forall>m1. \<exists>m2. run h ?p (m1, s) = Inr (m2, s2) \<and> int_regs_at m2 ?p = int_regs_at m1 ?p)"
    then obtain m2 where m2: "run h ?p (?m1, s) = Inr (m2, s2)" "int_regs_at m2 ?p = int_regs_at ?m1 ?p"
      by blast
    have hd: "isr_handler hs run ?p (?m1, s) = ([], Inr (m2, s2))"
      using assms no h m2 by (simp add: isr_handler_def)
    obtain c' m' where r: "isr_restore (c1\<lparr>eax := a, ecx := cx, edx := d\<rparr>, m2) = (c', m')"
      by fastforce
    have "m2 (?p + 56) = e" "m2 (?p + 60) = eip c"
      using m2(2) regs by (auto simp: int_regs_at_def shifted_regs_def regs_of_def)
    then have "eip c' = e" "seg_cs c' = ucast (eip c)" "esp c' = esp c - 4"
      using isr_restore_eip [OF r] in1 by simp_all
    then show "\<exists>c' m'. interrupt hs run scratch 17 (Some e) ((c, m), s) = ([], Inr ((c', m'), s2)) \<and>
        eip c' = e \<and> seg_cs c' = ucast (eip c) \<and> esp c' = esp c - 4"
      using run_it hd r by auto
  qed
qed


section \<open>The table after its initialisation\<close>

definition gate :: "u32 \<Rightarrow> IDT_entry" where
  "gate a = \<lparr>offset_1 = ucast a, selector = 0x8, zero = 0, type_attr = 0x8e, offset_2 = ucast (drop_bit 16 a)\<rparr>"

text \<open>Where the processor jumps to.\<close>

definition gate_offset :: "IDT_entry \<Rightarrow> u32" where
  "gate_offset e = ucast (offset_1 e) OR push_bit 16 (ucast (offset_2 e))"

lemma gate_offset_gate: "gate_offset (gate a) = a"
  unfolding gate_offset_def gate_def by (rule bit_word_eqI) (auto simp: bit_simps)

lemma length_isr_h: "length isr_h = 256"
  by (simp add: isr_h_def)

lemma isr_h_numbers: "map stub_number isr_h = [0..<256]"
proof (rule nth_equalityI)
  show "length (map stub_number isr_h) = length [0..<256]" by (simp add: length_isr_h)
  show "map stub_number isr_h ! i = [0..<256] ! i" if "i < length (map stub_number isr_h)" for i
    using that isr_h_nth [of i] by (simp add: length_isr_h del: upt_rec_numeral)
qed

lemma fold_set_gate:
  assumes "length (idt s) = 256" and "\<forall>e\<in>set (idt s). zero e = 0" and "\<forall>b\<in>set bs. stub_number b < 256"
  shows "fold (\<lambda>b. set_gate (of_nat (stub_number b)) (addr b)) bs s =
    s\<lparr>idt := fold (\<lambda>b t. t[stub_number b := gate (addr b)]) bs (idt s)\<rparr>"
  using assms
proof (induction bs arbitrary: s)
  case Nil
  then show ?case by simp
next
  case (Cons b bs)
  have u: "unat (of_nat (stub_number b) :: u8) = stub_number b" using Cons.prems by (simp add: unat_of_nat)
  have z: "zero (idt s ! stub_number b) = 0" using Cons.prems by simp
  have g: "set_gate (of_nat (stub_number b)) (addr b) s = s\<lparr>idt := (idt s)[stub_number b := gate (addr b)]\<rparr>"
    using z by (cases "idt s ! stub_number b") (simp add: set_gate_def u gate_def)
  have "\<forall>e\<in>set ((idt s)[stub_number b := gate (addr b)]). zero e = 0"
    using Cons.prems(2) by (auto simp: gate_def dest!: set_update_subset_insert [THEN subsetD])
  then show ?case using Cons.IH [of "s\<lparr>idt := (idt s)[stub_number b := gate (addr b)]\<rparr>"] Cons.prems g by simp
qed

lemma fold_update_all:
  assumes "map g bs = [k..<k + length bs]" and "k + length bs = length t"
  shows "fold (\<lambda>b t. t[g b := f b]) bs t = take k t @ map f bs"
  using assms
proof (induction bs arbitrary: k t)
  case Nil
  then show ?case by simp
next
  case (Cons b bs)
  have "[k..<k + length (b # bs)] = k # [Suc k..<Suc k + length bs]" by (simp add: upt_conv_Cons del: upt_Suc)
  then have gb: "g b = k" "map g bs = [Suc k..<Suc k + length bs]" using Cons.prems(1) by (simp_all del: upt_Suc)
  have k: "k < length t" using Cons.prems(2) by simp
  have "fold (\<lambda>b t. t[g b := f b]) bs (t[k := f b]) = take (Suc k) (t[k := f b]) @ map f bs"
    using Cons.prems gb by (intro Cons.IH) auto
  also have "take (Suc k) (t[k := f b]) = take k t @ [f b]"
    using k by (simp add: take_Suc_conv_app_nth)
  finally show ?case using gb by simp
qed

lemma idt_init_gates:
  "idt_init addr static_interrupts =
     \<lparr>idt = map (\<lambda>b. gate (addr b)) isr_h, handlers = replicate 256 None,
      used_interrupts = replicate 32 1 @ replicate 224 0\<rparr>"
proof -
  note len = length_isr_h
  have "\<forall>b\<in>set isr_h. stub_number b \<in> set [0..<256]"
    unfolding isr_h_numbers [symmetric] by simp
  then have lt: "\<forall>b\<in>set isr_h. stub_number b < 256" by simp
  have z: "\<forall>e\<in>set (idt (static_interrupts :: 'a interrupts)). zero e = 0"
    by (simp add: static_interrupts_def empty_entry_def)
  have l: "length (idt (static_interrupts :: 'a interrupts)) = 256"
    by (simp add: static_interrupts_def)
  have "fold (\<lambda>b t. t[stub_number b := gate (addr b)]) isr_h (idt (static_interrupts :: 'a interrupts)) =
      take 0 (idt (static_interrupts :: 'a interrupts)) @ map (\<lambda>b. gate (addr b)) isr_h"
    by (rule fold_update_all) (simp_all add: isr_h_numbers len static_interrupts_def del: upt_rec_numeral)
  then show ?thesis
    using fold_set_gate [OF l z lt, of addr]
    by (simp add: idt_init_def mark_used_def static_interrupts_def)
qed

section \<open>First fit\<close>

definition free_vectors :: "u8 list \<Rightarrow> nat \<Rightarrow> nat \<Rightarrow> bool" where
  "free_vectors us n base \<longleftrightarrow> (\<forall>i<n. us ! (base + i) = 0)"

lemma unused_from_free:
  assumes "base + n \<le> length us"
  shows "\<exists>i\<le>n. unused_from us base n = Inr i \<and> (i = n \<longleftrightarrow> free_vectors us n base)"
  using assms
proof (induction n arbitrary: base)
  case 0
  then show ?case by (simp add: free_vectors_def)
next
  case (Suc n)
  then obtain i where i: "i \<le> n" "unused_from us (Suc base) n = Inr i" "i = n \<longleftrightarrow> free_vectors us n (Suc base)"
    by (metis Suc_leD add_Suc add_Suc_right)
  have "free_vectors us (Suc n) base \<longleftrightarrow> us ! base = 0 \<and> free_vectors us n (Suc base)"
    by (auto simp: free_vectors_def less_Suc_eq_0_disj)
  then show ?case using i Suc.prems by (cases "us ! base = 0") auto
qed

lemma find_vectors_step:
  assumes "base + n \<le> length us" and "base < 256" and "0 < n"
  shows "find_vectors us n base =
    (if free_vectors us n base then Inr (Some base) else find_vectors us n (base + n))"
  using unused_from_free [OF assms(1)] assms(2,3) by (subst find_vectors.simps) auto

lemma find_vectors_first:
  assumes us: "length us = 256" and n: "256 = m * n" "0 < n"
    and k: "k < m" "free_vectors us n (k * n)" "\<forall>j<k. \<not> free_vectors us n (j * n)" and "j \<le> k"
  shows "find_vectors us n (j * n) = Inr (Some (k * n))"
  using assms(7)
proof (induction "k - j" arbitrary: j)
  case 0
  have "k * n + n \<le> m * n" using k(1) by (metis Suc_leI add.commute mult_Suc mult_le_mono1)
  moreover have "j = k" using 0 by simp
  moreover have "k * n < 256" using k(1) n mult_less_mono1 [OF k(1) n(2)] by simp
  ultimately show ?case
    using k(2) find_vectors_step [of "k * n" n us] n us by simp
next
  case (Suc d)
  then have jk: "j < k" "d = k - Suc j" by auto
  have "j * n + n \<le> m * n" using jk k(1) by (metis Suc_leI add.commute less_trans mult_Suc mult_le_mono1)
  moreover have "j * n < 256" using jk k(1) n mult_less_mono1 [of j m n] by simp
  ultimately have "find_vectors us n (j * n) = find_vectors us n (Suc j * n)"
    using k(3) jk find_vectors_step [of "j * n" n us] n us by (simp add: add.commute)
  then show ?case using Suc.hyps(1) [of "Suc j"] jk by simp
qed

lemma find_vectors_none:
  assumes us: "length us = 256" and n: "256 = m * n" "0 < n"
    and "\<forall>j<m. \<not> free_vectors us n (j * n)" and "j \<le> m"
  shows "find_vectors us n (j * n) = Inr None"
  using assms(5)
proof (induction "m - j" arbitrary: j)
  case 0
  then show ?case using n by (subst find_vectors.simps) simp
next
  case (Suc d)
  then have jm: "j < m" "d = m - Suc j" by auto
  have "j * n + n \<le> m * n" using jm by (metis Suc_leI add.commute mult_Suc mult_le_mono1)
  moreover have "j * n < 256" using jm n mult_less_mono1 [of j m n] by simp
  ultimately have "find_vectors us n (j * n) = find_vectors us n (Suc j * n)"
    using assms(4) jm find_vectors_step [of "j * n" n us] n us by (simp add: add.commute)
  then show ?case using Suc.hyps(1) [of "Suc j"] jm by simp
qed

lemma mark_used_nth:
  assumes "base + n \<le> length us"
  shows "length (mark_used base n us) = length us \<and>
    (\<forall>i<length us. mark_used base n us ! i = (if base \<le> i \<and> i < base + n then 1 else us ! i))"
  using assms by (auto simp: mark_used_def nth_append)

lemma block_count:
  assumes "k < 8"
  shows "256 = (256 div 2 ^ k) * (2 :: nat) ^ k"
proof -
  have "\<forall>k\<in>set [0..<8]. 256 = (256 div 2 ^ k) * (2 :: nat) ^ k" by code_simp
  then show ?thesis using assms by (simp del: upt_rec_numeral)
qed

lemma allocate_interrupts_first:
  assumes "length (used_interrupts s) = 256" and "order < 8"
    and "k < 256 div 2 ^ unat order" and "free_vectors (used_interrupts s) (2 ^ unat order) (k * 2 ^ unat order)"
    and "\<forall>j<k. \<not> free_vectors (used_interrupts s) (2 ^ unat order) (j * 2 ^ unat order)"
  shows "allocate_interrupts order s =
    Inr (int (k * 2 ^ unat order),
         s\<lparr>used_interrupts := mark_used (k * 2 ^ unat order) (2 ^ unat order) (used_interrupts s)\<rparr>)"
proof -
  have o8: "unat order < 8" using assms(2) by (simp add: word_less_nat_alt)
  have "find_vectors (used_interrupts s) (2 ^ unat order) (0 * 2 ^ unat order) = Inr (Some (k * 2 ^ unat order))"
    using block_count [OF o8] assms by (intro find_vectors_first) simp_all
  then show ?thesis
    using assms(2) by (simp add: allocate_interrupts_def not_le [symmetric] Let_def)
qed

lemma allocate_interrupts_full:
  assumes "length (used_interrupts s) = 256"
    and "order < 8 \<longrightarrow>
      (\<forall>j<256 div 2 ^ unat order. \<not> free_vectors (used_interrupts s) (2 ^ unat order) (j * 2 ^ unat order))"
  shows "allocate_interrupts order s = Inr (- 1, s)"
proof (cases "order < 8")
  case True
  then have o8: "unat order < 8" by (simp add: word_less_nat_alt)
  have "find_vectors (used_interrupts s) (2 ^ unat order) (0 * 2 ^ unat order) = Inr None"
    using block_count [OF o8] assms True by (intro find_vectors_none) simp_all
  then show ?thesis
    using assms(2) True by (simp add: allocate_interrupts_def)
qed (simp add: allocate_interrupts_def not_less)


section \<open>Properties\<close>

text \<open>C18. An interrupt of kernel code is transparent to the interrupted code: for every vector that has a
  handler and whose stub expects an error code exactly when the processor pushes one, the handler is given
  the registers at the moment of the interrupt with the vector's number and error code. If it leaves these saved
  registers alone and writes nothing outside \<open>W\<close>, then after \<^verbatim>\<open>iret\<close> all registers, segments, flags and the
  stack pointer are back, and so is the whole memory but \<open>W\<close> and the 18 words below the stack pointer;
  in particular everything on the interrupted stack. (The stack segment must be \<^verbatim>\<open>0x10\<close>, which is what the
  kernel runs with and the entry code loads.)\<close>

theorem interrupt_transparent:
  assumes "n < 256" and "err = None \<longleftrightarrow> \<not> (n = 8 \<or> 10 \<le> n \<and> n \<le> 14)" and "seg_ss c = 0x10"
    and "length hs = 256" and "hs ! n = Some h"
    and "\<And>m1. \<exists>m2. run h (esp c - 68) (m1, s) = Inr (m2, f (int_regs_at m1 (esp c - 68))) \<and>
               int_regs_at m2 (esp c - 68) = int_regs_at m1 (esp c - 68) \<and> (\<forall>a. a \<notin> W \<longrightarrow> m2 a = m1 a)"
  shows "\<exists>m'. interrupt hs run scratch n err ((c, m), s) =
           ([], Inr ((c, m'), f (regs_of c n (case err of None \<Rightarrow> 0 | Some e \<Rightarrow> e) (m (esp c))))) \<and>
         (\<forall>a. a \<notin> entry_words (esp c) \<union> W \<longrightarrow> m' a = m a)"
  using assms by (rule interrupt_round_trip)

definition sample_machine :: machine where
  "sample_machine =
     \<lparr>edi = 1, esi = 2, ebp = 3, esp = 0xC0200000, ebx = 4, edx = 5, ecx = 6, eax = 7, eip = 0xC0101234,
      seg_cs = 8, seg_ds = 0x10, seg_es = 0x10, seg_fs = 0x10, seg_gs = 0x10, seg_ss = 0x10, eflags = 0x202\<rparr>"

text \<open>The handler of vector 33 notes the number, the error code and the address it interrupted, and the word
  that the interrupted code has on its stack is still there.\<close>

theorem interrupt_transparent_witness:
  "\<exists>m'. interrupt ((replicate 256 None)[33 := Some ()])
          (\<lambda>h p (m, s). Inr (m(0x1000 := 1), s @ [int_no (int_regs_at m p), err_code (int_regs_at m p), r_eip (int_regs_at m p)]))
          (0, 0, 0) 33 None ((sample_machine, (\<lambda>_. 0)(0xC0200000 := 77)), []) =
        ([], Inr ((sample_machine, m'), [33, 0, 0xC0101234])) \<and> m' 0xC0200000 = 77"
proof -
  let ?run = "\<lambda>h p (m, s). Inr (m(0x1000 := 1), s @ [int_no (int_regs_at m p), err_code (int_regs_at m p), r_eip (int_regs_at m p)])"
  have "0xC0200000 \<notin> entry_words (esp sample_machine)"
    using above_entry_words [of 0 "esp sample_machine"] by (simp add: sample_machine_def)
  moreover have "int_regs_at (m(0x1000 := x)) (esp sample_machine - 68) = int_regs_at m (esp sample_machine - 68)" for m x
    by (simp add: int_regs_at_def sample_machine_def)
  ultimately show ?thesis
    using interrupt_transparent [where n = 33 and err = None and c = sample_machine and W = "{0x1000}"
        and hs = "(replicate 256 None)[33 := Some ()]" and h = "()" and s = "[]" and m = "(\<lambda>_. 0)(0xC0200000 := 77)"
        and run = ?run and f = "\<lambda>r. [int_no r, err_code r, r_eip r]" and scratch = "(0, 0, 0)"]
    by (auto simp: sample_machine_def regs_of_def)
qed

text \<open>The alignment check exception, vector 17, comes with an error code that its stub does not
  expect. Everything above the error code is read one word too low: the message reports the error
  code as the address of the fault and that address as the code segment, and a handler that
  returns goes on at the address that the error code gives.\<close>

theorem alignment_check_misread:
  assumes "length hs = 256"
  shows "(hs ! 17 = None \<longrightarrow>
            interrupt hs run scratch 17 (Some e) ((c, m), s) =
              (exception_report (shifted_regs c 17 e), Inl (Panic ''Unhandled exception''))) \<and>
         (\<forall>h s2. hs ! 17 = Some h \<and>
            (\<forall>m1. \<exists>m2. run h (esp c - 72) (m1, s) = Inr (m2, s2) \<and>
                       int_regs_at m2 (esp c - 72) = int_regs_at m1 (esp c - 72)) \<longrightarrow>
            (\<exists>c' m'. interrupt hs run scratch 17 (Some e) ((c, m), s) = ([], Inr ((c', m'), s2)) \<and>
               eip c' = e \<and> seg_cs c' = ucast (eip c) \<and> esp c' = esp c - 4))"
  using assms by (rule alignment_check_runs)

theorem alignment_check_misread_witness:
  "(''%s (%d) exception at %04x:%08x'', [ArgStr ''Alignment Check'', ArgNum 17, ArgNum 0xC0101234, ArgNum 0])
     \<in> set (fst (interrupt (replicate 256 None :: unit option list) (\<lambda>h p ms. Inr ms) (0, 0, 0) 17 (Some 0)
               ((sample_machine, \<lambda>_. 0), ())))"
  using alignment_check_misread [where hs = "replicate 256 None :: unit option list" and run = "\<lambda>h p ms. Inr ms"
      and scratch = "(0, 0, 0)" and e = 0 and c = sample_machine and m = "\<lambda>_. 0" and s = "()"]
  by (simp add: exception_report_def shifted_regs_def regs_of_def sample_machine_def exception_messages_def)

text \<open>After its initialisation the interrupt table sends each of the 256 vectors to the stub of
  its own number, through a present 32-bit interrupt gate of the kernel's code segment; no vector
  has a handler, and exactly the 32 vectors of the processor are taken.\<close>

theorem idt_init_correct:
  "map gate_offset (idt (idt_init addr static_interrupts)) = map addr isr_h \<and>
   map stub_number isr_h = [0..<256] \<and>
   map (\<lambda>e. (selector e, type_attr e, zero e)) (idt (idt_init addr static_interrupts)) = replicate 256 (8, 0x8e, 0) \<and>
   handlers (idt_init addr static_interrupts) = replicate 256 None \<and>
   used_interrupts (idt_init addr static_interrupts) = replicate 32 1 @ replicate 224 0"
  unfolding idt_init_gates
  by (intro conjI isr_h_numbers)
    (simp_all add: gate_offset_gate comp_def length_isr_h [symmetric] map_replicate_const,
     simp add: gate_def map_replicate_const length_isr_h)

text \<open>C19. Vectors are allocated first fit: a request for \<open>2^order\<close> vectors gets the lowest free
  aligned group, which is then taken and nothing else changes; it is refused without effect when
  there is no such group or more than 128 vectors are asked for.\<close>

theorem allocate_interrupts_correct:
  assumes "length (used_interrupts s) = 256"
  shows "(order < 8 \<and> k < 256 div 2 ^ unat order \<and>
            free_vectors (used_interrupts s) (2 ^ unat order) (k * 2 ^ unat order) \<and>
            (\<forall>j<k. \<not> free_vectors (used_interrupts s) (2 ^ unat order) (j * 2 ^ unat order)) \<longrightarrow>
          (\<exists>us. allocate_interrupts order s = Inr (int (k * 2 ^ unat order), s\<lparr>used_interrupts := us\<rparr>) \<and>
             length us = 256 \<and>
             (\<forall>i<256. us ! i = (if k * 2 ^ unat order \<le> i \<and> i < k * 2 ^ unat order + 2 ^ unat order
                                then 1 else used_interrupts s ! i)))) \<and>
         ((order < 8 \<longrightarrow>
            (\<forall>j<256 div 2 ^ unat order. \<not> free_vectors (used_interrupts s) (2 ^ unat order) (j * 2 ^ unat order))) \<longrightarrow>
          allocate_interrupts order s = Inr (- 1, s))"
proof (intro conjI impI; (elim conjE)?)
  let ?n = "2 ^ unat order" and ?us = "used_interrupts s"
  assume k: "order < 8" "k < 256 div ?n" "free_vectors ?us ?n (k * ?n)"
    "\<forall>j<k. \<not> free_vectors ?us ?n (j * ?n)"
  have "Suc k * ?n \<le> (256 div ?n) * ?n" using k(2) by (intro mult_le_mono1) simp
  then have "k * ?n + ?n \<le> length ?us"
    using block_count [of "unat order"] k(1) assms by (simp add: word_less_nat_alt)
  then show "\<exists>us. allocate_interrupts order s = Inr (int (k * ?n), s\<lparr>used_interrupts := us\<rparr>) \<and>
      length us = 256 \<and> (\<forall>i<256. us ! i = (if k * ?n \<le> i \<and> i < k * ?n + ?n then 1 else ?us ! i))"
    using allocate_interrupts_first [OF assms k] mark_used_nth [of "k * ?n" ?n ?us] assms by auto
qed (rule allocate_interrupts_full [OF assms])

theorem allocate_interrupts_correct_witness:
  "\<exists>us. allocate_interrupts 4 (idt_init (\<lambda>_. 0) (static_interrupts :: unit interrupts)) =
      Inr (32, (idt_init (\<lambda>_. 0) static_interrupts)\<lparr>used_interrupts := us\<rparr>) \<and> us ! 47 = 1 \<and> us ! 48 = 0"
proof -
  let ?s = "idt_init (\<lambda>_. 0) (static_interrupts :: unit interrupts)"
  have us: "used_interrupts ?s = replicate 32 1 @ replicate 224 0" by (simp add: idt_init_gates)
  have f: "free_vectors (used_interrupts ?s) (2 ^ unat (4 :: u8)) (2 * 2 ^ unat (4 :: u8))"
    "\<not> free_vectors (used_interrupts ?s) (2 ^ unat (4 :: u8)) (0 * 2 ^ unat (4 :: u8))"
    "\<not> free_vectors (used_interrupts ?s) (2 ^ unat (4 :: u8)) (1 * 2 ^ unat (4 :: u8))"
    unfolding us free_vectors_def by (auto simp: nth_append intro!: exI [of _ 0])
  then have lt: "\<forall>j<2. \<not> free_vectors (used_interrupts ?s) (2 ^ unat (4 :: u8)) (j * 2 ^ unat (4 :: u8))"
    by (metis One_nat_def less_2_cases)
  have "length (used_interrupts ?s) = 256" by (simp add: us)
  from allocate_interrupts_correct [OF this, of 4 2] obtain us' where
    "allocate_interrupts 4 ?s = Inr (int (2 * 2 ^ unat (4 :: u8)), ?s\<lparr>used_interrupts := us'\<rparr>)"
    "\<forall>i<256. us' ! i = (if 2 * 2 ^ unat (4 :: u8) \<le> i \<and> i < 2 * 2 ^ unat (4 :: u8) + 2 ^ unat (4 :: u8)
                      then 1 else used_interrupts ?s ! i)"
    using f(1) lt by auto
  then show ?thesis by (auto simp: us nth_append intro!: exI [of _ us'])
qed

end
