(* ===== verification/Pic.thy ===== *)
theory Pic
  imports Idt
begin

text \<open>
  The two cascaded interrupt controllers: \<^verbatim>\<open>drivers/pic.c\<close>. A bit of \<open>irq_mask\<close> that is set keeps a
  line from interrupting; line 2 of the first controller carries the second. Port writes are
  logged in order.
\<close>

unbundle bit_operations_syntax

section \<open>Registers and state\<close>

definition PIC1_COMMAND :: u16 where "PIC1_COMMAND = 0x20"
definition PIC1_DATA :: u16 where "PIC1_DATA = 0x21"
definition PIC2_COMMAND :: u16 where "PIC2_COMMAND = 0xA0"
definition PIC2_DATA :: u16 where "PIC2_DATA = 0xA1"
definition ICW1_INIT :: u8 where "ICW1_INIT = 0x10"
definition EOI :: u8 where "EOI = 0x20"
definition ICW1_ICW4 :: u8 where "ICW1_ICW4 = 0x1"
definition ICW4_8086 :: u8 where "ICW4_8086 = 0x1"

lemmas pic_constants = PIC1_COMMAND_def PIC1_DATA_def PIC2_COMMAND_def PIC2_DATA_def
  ICW1_INIT_def EOI_def ICW1_ICW4_def ICW4_8086_def

text \<open>\<open>'p\<close> stands for the functions registered for a line.\<close>

record 'p pic =
  irq_mask1 :: u8
  irq_mask2 :: u8
  pic_handlers :: "'p option list"
  pic_io :: "port_io list"

definition static_pic :: "'p pic" where
  "static_pic = \<lparr>irq_mask1 = 0xFF, irq_mask2 = 0xFF, pic_handlers = replicate 0x10 None, pic_io = []\<rparr>"

definition pic_outb :: "u16 \<Rightarrow> u8 \<Rightarrow> ('p, 'z) pic_scheme \<Rightarrow> ('p, 'z) pic_scheme" where
  "pic_outb port v s = s\<lparr>pic_io := pic_io s @ [OutB port v]\<rparr>"

section \<open>Operations\<close>

definition set_mask :: "('p, 'z) pic_scheme \<Rightarrow> ('p, 'z) pic_scheme" where
  "set_mask s = pic_outb PIC2_DATA (irq_mask2 s) (pic_outb PIC1_DATA (irq_mask1 s) s)"

text \<open>\<^verbatim>\<open>1 << (irq & 7)\<close>, cut to the width of a mask.\<close>

definition line_bit :: "u8 \<Rightarrow> u8" where
  "line_bit irq = push_bit (unat (irq AND 7)) 1"

definition pic_unmask :: "u8 \<Rightarrow> ('p, 'z) pic_scheme \<Rightarrow> ('p, 'z) pic_scheme" where
  "pic_unmask irq s =
     set_mask
       (if irq < 8 then s\<lparr>irq_mask1 := irq_mask1 s AND NOT (line_bit irq)\<rparr>
        else
          let s = s\<lparr>irq_mask2 := irq_mask2 s AND NOT (line_bit irq)\<rparr>
          in if irq_mask2 s \<noteq> 0xFF then s\<lparr>irq_mask1 := irq_mask1 s AND NOT 4\<rparr> else s)"

definition pic_mask :: "u8 \<Rightarrow> ('p, 'z) pic_scheme \<Rightarrow> ('p, 'z) pic_scheme" where
  "pic_mask irq s =
     set_mask
       (if irq < 8 then s\<lparr>irq_mask1 := irq_mask1 s OR line_bit irq\<rparr>
        else
          let s = s\<lparr>irq_mask2 := irq_mask2 s OR line_bit irq\<rparr>
          in if irq_mask2 s = 0xFF then s\<lparr>irq_mask1 := irq_mask1 s OR 4\<rparr> else s)"

definition pic_set_handler :: "u8 \<Rightarrow> 'p \<Rightarrow> ('p, 'z) pic_scheme \<Rightarrow> ('p, 'z) pic_scheme result" where
  "pic_set_handler irq handler s =
     (if unat irq < length (pic_handlers s)
      then Inr (s\<lparr>pic_handlers := (pic_handlers s)[unat irq := Some handler]\<rparr>) else Inl OutOfBounds)"

text \<open>The messages for a line that has no handler.\<close>

definition pic_report :: "u8 \<Rightarrow> int_regs \<Rightarrow> kcall list" where
  "pic_report irq r =
     [(''Unhandled PIC IRQ %d at %04x:%08x'', [ArgNum (ucast irq), ArgNum (r_cs r), ArgNum (r_eip r)]),
      (''eflags %08x'', [ArgNum (r_eflags r)]),
      (''eax %08x ecx %08x edx %08x ebx %08x'', map ArgNum [r_eax r, r_ecx r, r_edx r, r_ebx r]),
      (''esp %08x ebp %08x esi %08x edi %08x'', map ArgNum [ret_esp r, r_ebp r, r_esi r, r_edi r]),
      (''ds %04hx es %04hx fs %04hx gs %04hx'', map ArgNum [r_ds r, r_es r, r_fs r, r_gs r])]"

definition pic_handler ::
  "('p \<Rightarrow> ('p, 'z) pic_scheme \<Rightarrow> ('p, 'z) pic_scheme result) \<Rightarrow> int_regs \<Rightarrow> ('p, 'z) pic_scheme \<Rightarrow>
     kcall list \<times> ('p, 'z) pic_scheme result" where
  "pic_handler run regs s =
     (let irq = ucast (int_no regs) - 0x20;
          s = (if 8 \<le> irq then pic_outb PIC2_COMMAND EOI s else s);
          s = pic_outb PIC1_COMMAND EOI s
      in if unat irq < length (pic_handlers s) then
           (case pic_handlers s ! unat irq of
              Some h \<Rightarrow> ([], run h s)
            | None \<Rightarrow> (pic_report irq regs, Inl (Panic ''Unhandled PIC IRQ'')))
         else ([], Inl OutOfBounds))"

text \<open>
  The initialisation sends the controllers their four command words, keeps all lines masked and
  takes the vectors from 32 to 47. The vectors are written as constants; what
  \<^verbatim>\<open>allocate_interrupts\<close> returns is only compared with zero. \<open>h\<close> stands for \<^verbatim>\<open>pic_handler\<close>.
\<close>

definition pic_init ::
  "'h \<Rightarrow> ('p, 'z) pic_scheme \<Rightarrow> ('h, 'y) interrupts_scheme \<Rightarrow>
     (('p, 'z) pic_scheme \<times> ('h, 'y) interrupts_scheme) result" where
  "pic_init h s i =
     (let s = pic_outb PIC1_COMMAND (ICW1_INIT OR ICW1_ICW4) s;
          s = pic_outb PIC2_COMMAND (ICW1_INIT OR ICW1_ICW4) s;
          s = pic_outb PIC1_DATA 0x20 s;
          s = pic_outb PIC2_DATA 0x28 s;
          s = pic_outb PIC1_DATA 0x04 s;
          s = pic_outb PIC2_DATA 0x02 s;
          s = pic_outb PIC1_DATA ICW4_8086 s;
          s = pic_outb PIC2_DATA ICW4_8086 s;
          s = set_mask s
      in bindE (allocate_interrupts 4 i) (\<lambda>(base, i).
           if base < 0 then Inl (Panic ''could not allocate interrupts for PIC'')
           else Inr (s, fold (\<lambda>int_no. set_kernel_interrupt_handler int_no h)
                          (map of_nat [0x20..<0x30]) i)))"

section \<open>The masks\<close>

text \<open>Whether a line can interrupt, from the masks: the lines of the second controller also need
  line 2 of the first.\<close>

definition enabled :: "('p, 'z) pic_scheme \<Rightarrow> nat \<Rightarrow> bool" where
  "enabled s n \<longleftrightarrow>
     (if n < 8 then \<not> bit (irq_mask1 s) n else \<not> bit (irq_mask2 s) (n - 8) \<and> \<not> bit (irq_mask1 s) 2)"

text \<open>The cascade line is masked exactly when all lines of the second controller are.\<close>

definition cascade_ok :: "('p, 'z) pic_scheme \<Rightarrow> bool" where
  "cascade_ok s \<longleftrightarrow> (bit (irq_mask1 s) 2 \<longleftrightarrow> irq_mask2 s = 0xFF)"

lemma bit_line_bit: "bit (line_bit irq) n \<longleftrightarrow> n = unat (irq AND 7)"
proof -
  have "unat (irq AND 7) < 8" using word_and_le1 [of irq 7] by (simp add: word_le_nat_alt)
  then show ?thesis by (auto simp: line_bit_def bit_simps)
qed

lemma unat_and_7: "unat (irq AND 7 :: u8) = unat irq mod 8"
proof -
  have "(7 :: u8) = mask 3" by (simp add: mask_eq_exp_minus_1)
  then have "irq AND 7 = irq AND mask 3" by simp
  then show ?thesis by (simp add: take_bit_eq_mask [symmetric] take_bit_eq_mod unat_mod_distrib)
qed

lemma all_masked: "m = 0xFF \<longleftrightarrow> (\<forall>n<8. bit (m :: u8) n)"
proof -
  have "(0xFF :: u8) = - 1" by simp
  then show ?thesis by (auto simp: bit_eq_iff simp del: bit_minus_1_iff, simp_all)
qed

section \<open>What masking does\<close>

lemma line_8_15: "8 \<le> n \<Longrightarrow> n < 16 \<Longrightarrow> n mod 8 = n - (8 :: nat)"
  by (simp add: mod_if)

lemma unat_lt_8: "(irq :: u8) < 8 \<longleftrightarrow> unat irq < 8"
  by (simp add: word_less_nat_alt)

lemma bit_4: "bit (4 :: int) n \<longleftrightarrow> n = 2" "bit (- 5 :: int) n \<longleftrightarrow> n \<noteq> 2"
proof -
  have p: "push_bit 2 1 = (4 :: int)" and m: "NOT 4 = (- 5 :: int)" by simp_all
  show b: "bit (4 :: int) n \<longleftrightarrow> n = 2"
    unfolding p [symmetric] bit_push_bit_iff bit_1_iff by auto
  show "bit (- 5 :: int) n \<longleftrightarrow> n \<noteq> 2"
    unfolding m [symmetric] bit_not_iff b by simp
qed

lemma set_mask_fields [simp]:
  "irq_mask1 (set_mask s) = irq_mask1 s" "irq_mask2 (set_mask s) = irq_mask2 s"
  "pic_handlers (set_mask s) = pic_handlers s"
  "pic_io (set_mask s) = pic_io s @ [OutB 0x21 (irq_mask1 s), OutB 0xA1 (irq_mask2 s)]"
  by (simp_all add: set_mask_def pic_outb_def pic_constants)

lemma pic_unmask_bits:
  assumes "unat irq < 16"
  shows "bit (irq_mask1 (pic_unmask irq s)) n \<longleftrightarrow>
           bit (irq_mask1 s) n \<and> n \<noteq> (if unat irq < 8 then unat irq else 2)"
    and "bit (irq_mask2 (pic_unmask irq s)) n \<longleftrightarrow>
           bit (irq_mask2 s) n \<and> \<not> (8 \<le> unat irq \<and> n = unat irq - 8)"
proof -
  have n8: "bit w n \<Longrightarrow> n < 8" for w :: u8 and n using bit_imp_le_length [of w n] by simp
  have ne: "irq_mask2 s AND NOT (line_bit irq) \<noteq> 0xFF" if "8 \<le> unat irq"
    unfolding all_masked using that assms
    by (auto simp: bit_and_iff bit_not_iff bit_line_bit unat_and_7 line_8_15 intro!: exI [of _ "unat irq - 8"])
  show "bit (irq_mask1 (pic_unmask irq s)) n \<longleftrightarrow>
      bit (irq_mask1 s) n \<and> n \<noteq> (if unat irq < 8 then unat irq else 2)"
    using ne n8 [of "irq_mask1 s" n]
    by (auto simp: pic_unmask_def unat_lt_8 bit_and_iff bit_not_iff bit_line_bit unat_and_7 bit_4 Let_def)
  show "bit (irq_mask2 (pic_unmask irq s)) n \<longleftrightarrow> bit (irq_mask2 s) n \<and> \<not> (8 \<le> unat irq \<and> n = unat irq - 8)"
    using n8 [of "irq_mask2 s" n] assms ne
    by (auto simp: pic_unmask_def Let_def unat_lt_8 bit_and_iff bit_not_iff bit_line_bit unat_and_7 line_8_15)
qed

lemma pic_mask_bits:
  assumes "unat irq < 16"
  shows "bit (irq_mask2 (pic_mask irq s)) n \<longleftrightarrow> bit (irq_mask2 s) n \<or> 8 \<le> unat irq \<and> n = unat irq - 8"
    and "bit (irq_mask1 (pic_mask irq s)) n \<longleftrightarrow>
           bit (irq_mask1 s) n \<or> unat irq < 8 \<and> n = unat irq \<or>
           8 \<le> unat irq \<and> irq_mask2 (pic_mask irq s) = 0xFF \<and> n = 2"
proof -
  have m2: "irq_mask2 (pic_mask irq s) =
      (if unat irq < 8 then irq_mask2 s else irq_mask2 s OR line_bit irq)"
    by (simp add: pic_mask_def Let_def unat_lt_8)
  show "bit (irq_mask2 (pic_mask irq s)) n \<longleftrightarrow> bit (irq_mask2 s) n \<or> 8 \<le> unat irq \<and> n = unat irq - 8"
    unfolding m2 using assms by (auto simp: bit_or_iff bit_line_bit unat_and_7 line_8_15)
  have "irq_mask1 (pic_mask irq s) =
      (if unat irq < 8 then irq_mask1 s OR line_bit irq
       else if irq_mask2 (pic_mask irq s) = 0xFF then irq_mask1 s OR 4 else irq_mask1 s)"
    by (simp add: m2) (simp add: pic_mask_def Let_def unat_lt_8)
  then show "bit (irq_mask1 (pic_mask irq s)) n \<longleftrightarrow>
      bit (irq_mask1 s) n \<or> unat irq < 8 \<and> n = unat irq \<or>
      8 \<le> unat irq \<and> irq_mask2 (pic_mask irq s) = 0xFF \<and> n = 2"
    by (auto simp: bit_or_iff bit_line_bit unat_and_7 bit_4)
qed

text \<open>C20. Masking and unmasking any line but the cascade line, line 2, changes whether that line can
  interrupt and no other of the remaining ones; the cascade line stays masked exactly while all lines of
  the second controller are, so opening one of them opens it and closing the last one closes it; and
  both masks are sent to the controllers. (Masking line 2 itself would break this.)\<close>

theorem pic_mask_correct:
  assumes "cascade_ok s" and "unat irq < 16" and "irq \<noteq> 2"
  shows "cascade_ok (pic_mask irq s) \<and> cascade_ok (pic_unmask irq s) \<and>
         \<not> enabled (pic_mask irq s) (unat irq) \<and> enabled (pic_unmask irq s) (unat irq) \<and>
         (\<forall>n<16. n \<noteq> unat irq \<and> n \<noteq> 2 \<longrightarrow>
            enabled (pic_mask irq s) n = enabled s n \<and> enabled (pic_unmask irq s) n = enabled s n) \<and>
         pic_io (pic_mask irq s) =
           pic_io s @ [OutB 0x21 (irq_mask1 (pic_mask irq s)), OutB 0xA1 (irq_mask2 (pic_mask irq s))] \<and>
         pic_io (pic_unmask irq s) =
           pic_io s @ [OutB 0x21 (irq_mask1 (pic_unmask irq s)), OutB 0xA1 (irq_mask2 (pic_unmask irq s))]"
proof -
  note bits = pic_unmask_bits [OF assms(2)] pic_mask_bits [OF assms(2)]
  have n2: "unat irq \<noteq> 2" using assms(3) by (auto simp: word_unat_eq_iff)
  have full: "irq_mask2 t = 0xFF \<longleftrightarrow> (\<forall>n<8. bit (irq_mask2 t) n)" for t :: "('a, 'b) pic_scheme"
    by (rule all_masked)
  have "cascade_ok (pic_mask irq s)" using assms(1) n2 by (auto simp: cascade_ok_def full bits)
  moreover have "\<exists>n<8. n = unat irq - 8" if "8 \<le> unat irq" using that assms(2) by simp
  then have "cascade_ok (pic_unmask irq s)" using assms(1) n2 by (fastforce simp: cascade_ok_def full bits)
  moreover have "\<not> enabled (pic_mask irq s) (unat irq)" "enabled (pic_unmask irq s) (unat irq)"
    by (auto simp: enabled_def bits)
  moreover have "enabled (pic_mask irq s) n = enabled s n" if "n < 16" "n \<noteq> unat irq" "n \<noteq> 2" for n
    using that assms(1) n2
    by (auto simp: enabled_def cascade_ok_def full bits intro!: exI [of _ "n - 8"])
  moreover have "enabled (pic_unmask irq s) n = enabled s n" if "n < 16" "n \<noteq> unat irq" "n \<noteq> 2" for n
    using that assms(1) n2 by (auto simp: enabled_def cascade_ok_def full bits)
  moreover have "pic_io (pic_mask irq s) =
           pic_io s @ [OutB 0x21 (irq_mask1 (pic_mask irq s)), OutB 0xA1 (irq_mask2 (pic_mask irq s))]"
    by (simp add: pic_mask_def Let_def)
  moreover have "pic_io (pic_unmask irq s) =
           pic_io s @ [OutB 0x21 (irq_mask1 (pic_unmask irq s)), OutB 0xA1 (irq_mask2 (pic_unmask irq s))]"
    by (simp add: pic_unmask_def Let_def)
  ultimately show ?thesis by blast
qed

definition pic_after_timer :: "unit pic" where
  "pic_after_timer = pic_unmask 0 static_pic"

text \<open>Opening line 12 opens the cascade line too.\<close>

theorem pic_mask_correct_witness:
  "cascade_ok (pic_unmask 12 pic_after_timer) \<and> enabled (pic_unmask 12 pic_after_timer) 12 \<and>
   enabled (pic_unmask 12 pic_after_timer) 0 \<and> \<not> enabled (pic_unmask 12 pic_after_timer) 13"
proof -
  have ok: "cascade_ok pic_after_timer" "enabled pic_after_timer 0" "\<not> enabled pic_after_timer 13"
    by (simp_all add: pic_after_timer_def pic_unmask_def static_pic_def cascade_ok_def enabled_def line_bit_def Let_def)
  then show ?thesis
    using pic_mask_correct [of pic_after_timer 12] by auto
qed

section \<open>Interrupts and initialisation\<close>

text \<open>An interrupt of a line is acknowledged before its function runs, at both controllers when
  it comes from the second, and exactly the function of that line runs; a line without a function
  stops the kernel.\<close>

theorem pic_handler_correct:
  assumes "length (pic_handlers s) = 16" and "n < 16" and "int_no regs = of_nat (0x20 + n)"
  shows "pic_handler run regs s =
    (let s' = s\<lparr>pic_io := pic_io s @ (if 8 \<le> n then [OutB 0xA0 0x20] else []) @ [OutB 0x20 0x20]\<rparr>
     in case pic_handlers s ! n of
          Some h \<Rightarrow> ([], run h s')
        | None \<Rightarrow> (pic_report (of_nat n) regs, Inl (Panic ''Unhandled PIC IRQ'')))"
proof -
  have irq: "ucast (int_no regs) - 0x20 = (of_nat n :: u8)"
    using assms(2) unfolding assms(3) by (simp add: unsigned_of_nat take_bit_nat_eq_self del: of_nat_add) simp
  have "(8 :: u8) \<le> of_nat n \<longleftrightarrow> 8 \<le> n" "unat (of_nat n :: u8) = n"
    using assms(2) by (simp_all add: word_le_nat_alt unat_of_nat)
  then show ?thesis
    using assms(1,2)
    by (cases "8 \<le> n") (auto simp: pic_handler_def irq pic_outb_def pic_constants Let_def split: option.split)
qed

theorem pic_handler_correct_witness:
  "pic_handler (\<lambda>h s. Inr s) (regs_of sample_machine 40 0 0) (pic_after_timer\<lparr>pic_handlers := (replicate 16 None)[8 := Some ()]\<rparr>) =
     ([], Inr (pic_after_timer\<lparr>pic_handlers := (replicate 16 None)[8 := Some ()],
                 pic_io := pic_io pic_after_timer @ [OutB 0xA0 0x20, OutB 0x20 0x20]\<rparr>))"
  using pic_handler_correct [where s = "pic_after_timer\<lparr>pic_handlers := (replicate 16 None)[8 := Some ()]\<rparr>"
      and n = 8 and regs = "regs_of sample_machine 40 0 0" and run = "\<lambda>h s. Inr s"]
  by (simp add: regs_of_def)

lemma fold_set_handlers:
  "length (handlers (fold (\<lambda>n. set_kernel_interrupt_handler n h) ns i)) = length (handlers i) \<and>
   used_interrupts (fold (\<lambda>n. set_kernel_interrupt_handler n h) ns i) = used_interrupts i \<and>
   (\<forall>k<length (handlers i). handlers (fold (\<lambda>n. set_kernel_interrupt_handler n h) ns i) ! k =
      (if k \<in> unat ` set ns then Some h else handlers i ! k))"
proof (induction ns arbitrary: i)
  case Nil
  then show ?case by simp
next
  case (Cons n ns)
  show ?case using Cons [of "set_kernel_interrupt_handler n h i"]
    by (auto simp: set_kernel_interrupt_handler_def set_interrupt_handler_def nth_list_update)
qed

lemma pic_init_vectors:
  assumes "used_interrupts i = replicate 32 1 @ replicate 224 0" and "length (handlers i) = 256"
  shows "\<exists>s' i'. pic_init h s i = Inr (s', i') \<and>
    s' = s\<lparr>pic_io := pic_io s @ [OutB 0x20 0x11, OutB 0xA0 0x11, OutB 0x21 0x20, OutB 0xA1 0x28,
        OutB 0x21 4, OutB 0xA1 2, OutB 0x21 1, OutB 0xA1 1, OutB 0x21 (irq_mask1 s), OutB 0xA1 (irq_mask2 s)]\<rparr> \<and>
    used_interrupts i' = replicate 48 1 @ replicate 208 0 \<and>
    (\<forall>n<256. handlers i' ! n = (if 32 \<le> n \<and> n < 48 then Some h else handlers i ! n))"
proof -
  let ?i = "i\<lparr>used_interrupts := replicate 48 1 @ replicate 208 0\<rparr>"
  let ?ns = "map of_nat [0x20..<0x30] :: u8 list"
  have u: "unat (4 :: u8) = 4" by simp
  have fv: "free_vectors (used_interrupts i) (2 ^ unat (4 :: u8)) (2 * 2 ^ unat (4 :: u8))"
    and nfv: "\<not> free_vectors (used_interrupts i) (2 ^ unat (4 :: u8)) (0 * 2 ^ unat (4 :: u8))"
      "\<not> free_vectors (used_interrupts i) (2 ^ unat (4 :: u8)) (1 * 2 ^ unat (4 :: u8))"
    unfolding assms(1) u free_vectors_def by (auto simp: nth_append intro!: exI [of _ 0])
  have m: "mark_used 32 16 (used_interrupts i) = replicate 48 1 @ replicate 208 0"
    unfolding assms(1) mark_used_def by (simp add: replicate_add [symmetric] append_assoc [symmetric] del: append_assoc)
  have "length (used_interrupts i) = 256" by (simp add: assms(1))
  moreover have "\<forall>j<2. \<not> free_vectors (used_interrupts i) (2 ^ unat (4 :: u8)) (j * 2 ^ unat (4 :: u8))"
    using nfv by (metis One_nat_def less_2_cases)
  ultimately have "allocate_interrupts 4 i = Inr (int (2 * 2 ^ unat (4 :: u8)),
      i\<lparr>used_interrupts := mark_used (2 * 2 ^ unat (4 :: u8)) (2 ^ unat (4 :: u8)) (used_interrupts i)\<rparr>)"
    using fv by (intro allocate_interrupts_first) simp_all
  then have al: "allocate_interrupts 4 i = Inr (32, ?i)" by (simp add: m)
  have ns: "unat ` set ?ns = {32..<48}"
  proof -
    have "unat ` set ?ns = (\<lambda>n. unat (of_nat n :: u8)) ` {32..<48}" by (simp add: image_image del: upt_rec_numeral)
    also have "\<dots> = (\<lambda>n. n) ` {32..<48}" by (intro image_cong) (simp_all add: unat_of_nat)
    finally show ?thesis by simp
  qed
  show ?thesis
    using fold_set_handlers [of h ?ns ?i, unfolded ns] assms(2) al
    by (auto simp: pic_init_def pic_outb_def set_mask_def pic_constants Let_def simp del: upt_rec_numeral)
qed

text \<open>The controllers' initialisation, run when only the processor's vectors are taken, takes
  the vectors 32 to 47 and makes its handler theirs, maps the 16 lines to them and leaves every
  line masked.\<close>

theorem pic_init_correct:
  assumes "used_interrupts i = replicate 32 1 @ replicate 224 0" and "length (handlers i) = 256"
  shows "\<exists>s' i'. pic_init h s i = Inr (s', i') \<and>
    s' = s\<lparr>pic_io := pic_io s @ [OutB 0x20 0x11, OutB 0xA0 0x11, OutB 0x21 0x20, OutB 0xA1 0x28,
        OutB 0x21 4, OutB 0xA1 2, OutB 0x21 1, OutB 0xA1 1, OutB 0x21 (irq_mask1 s), OutB 0xA1 (irq_mask2 s)]\<rparr> \<and>
    used_interrupts i' = replicate 48 1 @ replicate 208 0 \<and>
    (\<forall>n<256. handlers i' ! n = (if 32 \<le> n \<and> n < 48 then Some h else handlers i ! n))"
  using assms by (rule pic_init_vectors)

theorem pic_init_correct_witness:
  "\<exists>s' i'. pic_init () (static_pic :: unit pic) (idt_init (\<lambda>_. 0) static_interrupts) = Inr (s', i') \<and>
     handlers i' ! 47 = Some () \<and> handlers i' ! 48 = None"
proof -
  let ?i = "idt_init (\<lambda>_. 0) (static_interrupts :: unit interrupts)"
  have "used_interrupts ?i = replicate 32 1 @ replicate 224 0" "handlers ?i = replicate 256 None"
    by (simp_all add: idt_init_gates)
  with pic_init_correct [of ?i "()" "static_pic :: unit pic"] show ?thesis by fastforce
qed

end
