(* ===== verification/Mem.thy ===== *)
theory Mem
  imports BuddyProps Idt
begin

text \<open>
  Kernel memory: the rest of \<^verbatim>\<open>lib/mem.c\<close> and \<^verbatim>\<open>include/mem.h\<close>. Both paging tables are part of
  the state, with the walk that the processor makes through them, so that what a mapping does is
  stated of addresses. Descriptors of pages and of kernel pages are the two pools of \<open>Buddy\<close>; the
  further fields of a page descriptor are maps over its index. The translation cache of the
  processor is not modelled.
\<close>

unbundle bit_operations_syntax

section \<open>Constants and addresses\<close>

definition PAGE_BITS :: nat where "PAGE_BITS = 12"
definition PAGE_SIZE :: u32 where "PAGE_SIZE = push_bit PAGE_BITS 1"
definition PAGE_TABLE_ENTRIES_BITS :: nat where "PAGE_TABLE_ENTRIES_BITS = PAGE_BITS - 2"
definition PAGE_TABLE_ENTRIES :: u32 where "PAGE_TABLE_ENTRIES = push_bit PAGE_TABLE_ENTRIES_BITS 1"
definition PHYSICAL_BASE_ADDRESS :: u32 where "PHYSICAL_BASE_ADDRESS = 0x100000"
definition KERNEL_MEMORY_BASE :: u32 where "KERNEL_MEMORY_BASE = 0xc0000000"
definition VIRTUAL_BASE_ADDRESS :: u32 where
  "VIRTUAL_BASE_ADDRESS = KERNEL_MEMORY_BASE + PHYSICAL_BASE_ADDRESS"
definition KERNEL_MEMORY_SIZE :: u32 where "KERNEL_MEMORY_SIZE = - KERNEL_MEMORY_BASE"
definition KERNEL_MEMORY_PAGES :: u32 where "KERNEL_MEMORY_PAGES = drop_bit PAGE_BITS KERNEL_MEMORY_SIZE"
definition KERNEL_MEMORY_PDES :: u32 where
  "KERNEL_MEMORY_PDES = drop_bit PAGE_TABLE_ENTRIES_BITS KERNEL_MEMORY_PAGES"
definition KERNEL_MEMORY_PDE_BASE :: u32 where
  "KERNEL_MEMORY_PDE_BASE = drop_bit (PAGE_BITS + PAGE_TABLE_ENTRIES_BITS) KERNEL_MEMORY_BASE"

lemma mem_constants [simp]:
  "PAGE_BITS = 12" "PAGE_SIZE = 0x1000" "PAGE_TABLE_ENTRIES_BITS = 10" "PAGE_TABLE_ENTRIES = 1024"
  "PHYSICAL_BASE_ADDRESS = 0x100000" "KERNEL_MEMORY_BASE = 0xc0000000"
  "VIRTUAL_BASE_ADDRESS = 0xc0100000" "KERNEL_MEMORY_SIZE = 0x40000000"
  "KERNEL_MEMORY_PAGES = 0x40000" "KERNEL_MEMORY_PDES = 0x100" "KERNEL_MEMORY_PDE_BASE = 0x300"
  by (simp_all add: PAGE_BITS_def PAGE_SIZE_def PAGE_TABLE_ENTRIES_BITS_def PAGE_TABLE_ENTRIES_def
      PHYSICAL_BASE_ADDRESS_def KERNEL_MEMORY_BASE_def VIRTUAL_BASE_ADDRESS_def KERNEL_MEMORY_SIZE_def
      KERNEL_MEMORY_PAGES_def KERNEL_MEMORY_PDES_def KERNEL_MEMORY_PDE_BASE_def)

definition PA :: "u32 \<Rightarrow> u32" where
  "PA vaddr = vaddr - VIRTUAL_BASE_ADDRESS + PHYSICAL_BASE_ADDRESS"

definition VA :: "u32 \<Rightarrow> u32" where
  "VA paddr = paddr + VIRTUAL_BASE_ADDRESS - PHYSICAL_BASE_ADDRESS"

definition PAGE_START :: "u32 \<Rightarrow> u32" where
  "PAGE_START addr = addr AND NOT (PAGE_SIZE - 1)"

definition PAGE_END :: "u32 \<Rightarrow> u32" where
  "PAGE_END addr = (addr + (PAGE_SIZE - 1)) AND NOT (PAGE_SIZE - 1)"

section \<open>State\<close>

text \<open>
  \<open>page_tables\<close> is the array \<^verbatim>\<open>kernel_page_tables\<close>, of \<open>0x40000\<close> words; accesses are checked.
  A \<^verbatim>\<open>kernel_vaddr\<close> of zero is \<^verbatim>\<open>NULL\<close>.
\<close>

record mem =
  page_directory :: "u32 list"
  page_tables :: "nat \<Rightarrow> u32"
  memory_size :: u32
  last_kernel_phaddr :: u32
  pages :: pool
  vaddrs :: pool
  kernel_vaddr :: "nat \<Rightarrow> u32"
  kernel_vaddr_refcnt :: "nat \<Rightarrow> u32"

definition set_table :: "u32 \<Rightarrow> u32 \<Rightarrow> ('z) mem_scheme \<Rightarrow> ('z) mem_scheme result" where
  "set_table index value s =
     (if index < KERNEL_MEMORY_PAGES
      then Inr (s\<lparr>page_tables := (page_tables s)(unat index := value)\<rparr>) else Inl OutOfBounds)"

section \<open>Setting up paging\<close>

text \<open>The loop that fills consecutive entries with consecutive pages; \<^verbatim>\<open>memory_setup_paging\<close> and
  \<^verbatim>\<open>memory_map_kernel_range\<close> contain it.\<close>

function map_range :: "u32 \<Rightarrow> u32 \<Rightarrow> u32 \<Rightarrow> ('z) mem_scheme \<Rightarrow> ('z) mem_scheme result" where
  "map_range value page_index page_end s =
     (if page_index < page_end then
        bindE (set_table page_index value s) (map_range (value + PAGE_SIZE) (page_index + 1) page_end)
      else Inr s)"
  by pat_completeness auto
termination
  by (relation "measure (\<lambda>(v, i, n, s). unat n - unat i)")
    (auto simp: word_less_nat_alt unat_add_1)

function fill_directory :: "u32 \<Rightarrow> u32 \<Rightarrow> ('z) mem_scheme \<Rightarrow> ('z) mem_scheme" where
  "fill_directory value pd_index s =
     (if pd_index < KERNEL_MEMORY_PDES then
        fill_directory (value + PAGE_SIZE) (pd_index + 1)
          (s\<lparr>page_directory := (page_directory s)
               [unat pd_index := value, unat (KERNEL_MEMORY_PDE_BASE + pd_index) := value]\<rparr>)
      else s)"
  by pat_completeness auto
termination
  by (relation "measure (\<lambda>(v, i, s). 0x100 - unat i)")
    (auto simp: word_less_nat_alt unat_word_ariths(1))

declare map_range.simps [simp del] fill_directory.simps [simp del]

text \<open>\<open>kpt\<close> is the virtual address of \<^verbatim>\<open>kernel_page_tables\<close>.\<close>

definition memory_setup_paging :: "u32 \<Rightarrow> ('z) mem_scheme \<Rightarrow> ('z) mem_scheme result" where
  "memory_setup_paging kpt s =
     (let n = drop_bit PAGE_BITS (last_kernel_phaddr s + (PAGE_SIZE - 1))
      in bindE (map_range 3 0 n s) (\<lambda>s. Inr (fill_directory (PA kpt + 3) 0 s)))"

definition memory_post_setup_paging :: "('z) mem_scheme \<Rightarrow> ('z) mem_scheme" where
  "memory_post_setup_paging s =
     s\<lparr>page_directory := fold (\<lambda>i d. d[i := 0]) [0..<unat KERNEL_MEMORY_PDES] (page_directory s)\<rparr>"

definition memory_map_kernel_range :: "u32 \<Rightarrow> u32 \<Rightarrow> ('z) mem_scheme \<Rightarrow> ('z) mem_scheme result" where
  "memory_map_kernel_range phaddr phend =
     map_range (phaddr + 3) (drop_bit PAGE_BITS phaddr) (drop_bit PAGE_BITS phend)"

definition bootheap_allocate :: "u32 \<Rightarrow> ('z) mem_scheme \<Rightarrow> (u32 \<times> ('z) mem_scheme) result" where
  "bootheap_allocate sz s =
     (let phaddr = PAGE_END (last_kernel_phaddr s);
          r = VA (last_kernel_phaddr s);
          s = s\<lparr>last_kernel_phaddr := last_kernel_phaddr s + sz\<rparr>
      in bindE (memory_map_kernel_range phaddr (PAGE_END (last_kernel_phaddr s)) s) (\<lambda>s. Inr (r, s)))"

section \<open>Mapping physical memory\<close>

text \<open>\<^verbatim>\<open>for(i = 0; i < count; ++i) kernel_page_tables[page_index + i] = ...\<close>\<close>

fun set_entries :: "nat \<Rightarrow> (nat \<Rightarrow> u32) \<Rightarrow> nat list \<Rightarrow> ('z) mem_scheme \<Rightarrow> ('z) mem_scheme result" where
  "set_entries page_index value [] s = Inr s"
| "set_entries page_index value (i # is) s =
     bindE (set_table (of_nat (page_index + i)) (value i) s) (set_entries page_index value is)"

definition map_phaddr_in_kernel :: "u32 \<Rightarrow> nat \<Rightarrow> ('z) mem_scheme \<Rightarrow> (u32 \<times> ('z) mem_scheme) result" where
  "map_phaddr_in_kernel phaddr order s =
     bindE (vaddr_allocate order (vaddrs s)) (\<lambda>(r, v).
       let s = s\<lparr>vaddrs := v\<rparr> in
       case r of
         None \<Rightarrow> Inr (0, s)
       | Some page_index \<Rightarrow>
           bindE (set_entries page_index (\<lambda>i. phaddr + push_bit PAGE_BITS (of_nat i) + 3) [0..<2 ^ order] s)
             (\<lambda>s. Inr (KERNEL_MEMORY_BASE + push_bit PAGE_BITS (of_nat page_index), s)))"

definition unmap_phaddr_in_kernel :: "u32 \<Rightarrow> ('z) mem_scheme \<Rightarrow> ('z) mem_scheme result" where
  "unmap_phaddr_in_kernel addr s =
     (let page_index = unat (drop_bit PAGE_BITS (addr - KERNEL_MEMORY_BASE)) in
      if pcount (vaddrs s) \<le> page_index then Inl OutOfBounds
      else if porder (vaddrs s) page_index < 0 then Inl BadShift
      else
        bindE (set_entries page_index (\<lambda>_. 0) [0..<2 ^ nat (porder (vaddrs s) page_index)] s) (\<lambda>s.
        bindE (vaddr_free page_index (vaddrs s)) (\<lambda>v. Inr (s\<lparr>vaddrs := v\<rparr>))))"

definition phaddr_of_page :: "nat \<Rightarrow> u32" where
  "phaddr_of_page page = push_bit PAGE_BITS (of_nat page)"

definition page_map :: "nat \<Rightarrow> ('z) mem_scheme \<Rightarrow> (u32 \<times> ('z) mem_scheme) result" where
  "page_map page s =
     bindE
       (if kernel_vaddr s page = 0 then
          if porder (pages s) page < 0 then Inl BadShift
          else
            bindE (map_phaddr_in_kernel (phaddr_of_page page) (nat (porder (pages s) page)) s) (\<lambda>(a, s).
              Inr (s\<lparr>kernel_vaddr := (kernel_vaddr s)(page := a)\<rparr>))
        else Inr s)
       (\<lambda>s. if kernel_vaddr s page = 0 then Inr (0, s)
            else Inr (kernel_vaddr s page,
                      s\<lparr>kernel_vaddr_refcnt := (kernel_vaddr_refcnt s)(page := kernel_vaddr_refcnt s page + 1)\<rparr>))"

definition page_unmap :: "nat \<Rightarrow> ('z) mem_scheme \<Rightarrow> ('z) mem_scheme result" where
  "page_unmap page s =
     (let s = s\<lparr>kernel_vaddr_refcnt := (kernel_vaddr_refcnt s)(page := kernel_vaddr_refcnt s page - 1)\<rparr> in
      if kernel_vaddr_refcnt s page \<noteq> 0 then Inr s
      else bindE (unmap_phaddr_in_kernel (kernel_vaddr s page) s)
             (\<lambda>s. Inr (s\<lparr>kernel_vaddr := (kernel_vaddr s)(page := 0)\<rparr>)))"

definition kernel_page_allocate :: "nat \<Rightarrow> ('z) mem_scheme \<Rightarrow> (u32 \<times> ('z) mem_scheme) result" where
  "kernel_page_allocate order s =
     bindE (page_allocate order (pages s)) (\<lambda>(r, p).
       let s = s\<lparr>pages := p\<rparr> in
       case r of
         None \<Rightarrow> Inr (0, s)
       | Some page \<Rightarrow>
           bindE (page_map page s) (\<lambda>(a, s).
             if a = 0 then bindE (page_free page (pages s)) (\<lambda>p. Inr (a, s\<lparr>pages := p\<rparr>))
             else Inr (a, s)))"

definition kernel_page_free :: "u32 \<Rightarrow> ('z) mem_scheme \<Rightarrow> ('z) mem_scheme result" where
  "kernel_page_free addr s =
     (let page_index = unat (drop_bit PAGE_BITS (addr - KERNEL_MEMORY_BASE)) in
      if unat KERNEL_MEMORY_PAGES \<le> page_index then Inl OutOfBounds
      else
        let page = unat (drop_bit PAGE_BITS (page_tables s page_index)) in
        if pcount (pages s) \<le> page then Inl OutOfBounds
        else
          bindE (page_unmap page s) (\<lambda>s.
          bindE (page_free page (pages s)) (\<lambda>p. Inr (s\<lparr>pages := p\<rparr>))))"

definition phaddr_of_kernel_vaddr :: "u32 \<Rightarrow> ('z) mem_scheme \<Rightarrow> u32 result" where
  "phaddr_of_kernel_vaddr vaddr s =
     (let page_index = unat (drop_bit PAGE_BITS (vaddr - KERNEL_MEMORY_BASE)) in
      if unat KERNEL_MEMORY_PAGES \<le> page_index then Inl OutOfBounds
      else Inr ((page_tables s page_index AND NOT (PAGE_SIZE - 1)) OR (vaddr AND (PAGE_SIZE - 1))))"

end
