(* ===== verification/MemProps.thy ===== *)
theory MemProps
  imports Mem
begin

text \<open>
  What the mappings of \<open>Mem\<close> do to the translation of addresses: the start-up tables, mapping and
  unmapping of physical memory, and pages that are allocated and mapped at once.
\<close>

section \<open>Address translation\<close>

text \<open>
  The word of a page table at a physical address, when that address lies in
  \<^verbatim>\<open>kernel_page_tables\<close>, and the processor's walk: a directory entry, a table entry, and the
  offset in the page. Bit 0 of an entry marks it present.
\<close>

definition table_word :: "u32 \<Rightarrow> ('z) mem_scheme \<Rightarrow> u32 \<Rightarrow> u32 option" where
  "table_word kpt s pa =
     (let i = unat (pa - PA kpt)
      in if i < 4 * unat KERNEL_MEMORY_PAGES \<and> 4 dvd i then Some (page_tables s (i div 4)) else None)"

definition translate :: "u32 \<Rightarrow> ('z) mem_scheme \<Rightarrow> u32 \<Rightarrow> u32 option" where
  "translate kpt s va =
     (let pde = page_directory s ! unat (drop_bit 22 va)
      in if bit pde 0 then
           (case table_word kpt s ((pde AND NOT 0xFFF) + 4 * (drop_bit 12 va AND 0x3FF)) of
              None \<Rightarrow> None
            | Some pte \<Rightarrow> if bit pte 0 then Some ((pte AND NOT 0xFFF) OR (va AND 0xFFF)) else None)
         else None)"

text \<open>The kernel's part of the directory, as it stays after start-up; \<open>kpt\<close> is the beginning of a
  page.\<close>

definition kernel_directory :: "u32 \<Rightarrow> ('z) mem_scheme \<Rightarrow> bool" where
  "kernel_directory kpt s \<longleftrightarrow>
     4096 dvd unat kpt \<and> length (page_directory s) = 1024 \<and>
     (\<forall>d<256. page_directory s ! (768 + d) = PA kpt + 4096 * of_nat d + 3)"

lemma aligned_add:
  fixes a x :: u32
  assumes "4096 dvd unat a" and "unat x < 4096"
  shows "(a + x) AND NOT 0xFFF = a"
proof -
  have "unat a \<le> 2 ^ 32 - 4096"
    using assms(1) unat_limit(3) [of a] by (auto elim!: dvdE)
  then have "unat (a + x) = unat a + unat x" using assms(2) by (simp add: unat_word_ariths(1))
  moreover have "(unat a + unat x) div 4096 = unat a div 4096" using assms by (auto elim!: dvdE)
  ultimately have "unat ((a + x) AND NOT 0xFFF) = unat a"
    using assms(1) unfolding unat_low_bits(5) by simp
  then show ?thesis by (simp only: word_unat_eq_iff)
qed

lemma aligned_sum: "4096 dvd unat (a :: u32) \<Longrightarrow> 4096 dvd unat b \<Longrightarrow> 4096 dvd unat (a + b)"
  by (simp add: unat_word_ariths dvd_mod_iff)

lemma PA_aligned: "4096 dvd unat kpt \<Longrightarrow> 4096 dvd unat (PA kpt)"
  using aligned_sum [of kpt "- 0xC0000000"] by (simp add: PA_def)

text \<open>A window of 256 directory entries from \<open>b\<close> on that all lead to \<^verbatim>\<open>kernel_page_tables\<close>.\<close>

lemma translate_window:
  assumes window: "\<forall>d<256. page_directory s ! (b + d) = PA kpt + 4096 * of_nat d + 3" and "b \<le> 768"
    and aligned: "4096 dvd unat kpt" and "i < 0x40000" and "unat x < 4096"
  shows "translate kpt s (0x400000 * of_nat b + 4096 * of_nat i + x) =
    (if bit (page_tables s i) 0 then Some ((page_tables s i AND NOT 0xFFF) OR x) else None)"
proof -
  let ?va = "0x400000 * of_nat b + 4096 * of_nat i + x"
  have va: "unat ?va = 0x400000 * b + 4096 * i + unat x"
    using assms(2,4,5) by (simp add: unat_word_ariths unat_of_nat)
  have d: "unat (drop_bit 22 ?va) = b + i div 1024"
    unfolding unat_drop_bit va using assms(4,5) by simp
  have "unat ?va div 4096 = i + b * 1024" unfolding va using assms(5) by simp
  then have e: "unat (drop_bit 12 ?va AND 0x3FF) = i mod 1024"
    using mod_mult_self1 [of i b 1024] unfolding unat_low_bits unat_drop_bit by simp
  have "unat ?va mod 4096 = unat x" 
    using mod_mult_self2 [of "unat x" 4096 "1024 * b + i"] assms(5) unfolding va by (simp add: algebra_simps)
  then have o: "?va AND 0xFFF = x" by (simp only: word_unat_eq_iff unat_low_bits)
  have i: "i div 1024 < 256" using assms(4) by simp
  then have pde: "page_directory s ! unat (drop_bit 22 ?va) = PA kpt + (4096 * of_nat (i div 1024) + 3)"
    using window unfolding d by (simp add: add.assoc)
  have al: "4096 dvd unat (PA kpt)" using aligned by (rule PA_aligned)
  let ?a = "PA kpt + 4096 * of_nat (i div 1024)"
  have "4096 dvd unat ?a"
    using i by (intro aligned_sum al) (simp add: unat_word_ariths unat_of_nat)
  then have base: "(PA kpt + (4096 * of_nat (i div 1024) + 3)) AND NOT 0xFFF = ?a"
    using aligned_add [of ?a 3] by (simp add: add.assoc)
  have "even (PA kpt)" using al by (metis dvd_trans even_numeral even_unat)
  then have "odd (PA kpt + (4096 * of_nat (i div 1024) + 3))"
    by simp
  have off: "unat (?a + 4 * (drop_bit 12 ?va AND 0x3FF) - PA kpt) = 4 * i"
  proof -
    have "unat (4096 * of_nat (i div 1024) + 4 * (drop_bit 12 ?va AND 0x3FF)) = 4096 * (i div 1024) + 4 * (i mod 1024)"
      using i e by (simp add: unat_word_ariths unat_of_nat)
    moreover have "4096 * (i div 1024) + 4 * (i mod 1024) = 4 * i" using div_mult_mod_eq [of i 1024] by linarith
    ultimately have "unat (4096 * of_nat (i div 1024) + 4 * (drop_bit 12 ?va AND 0x3FF)) = 4 * i"
      by (rule trans)
    then show ?thesis by (simp only: add.assoc add_diff_cancel_left')
  qed
  show ?thesis
    using \<open>odd _\<close> assms(4) unfolding translate_def Let_def pde o base table_word_def off
    by (simp add: bit_0)
qed

lemma translate_kernel:
  assumes "kernel_directory kpt s" and "i < 0x40000" and "unat x < 4096"
  shows "translate kpt s (0xC0000000 + 4096 * of_nat i + x) =
    (if bit (page_tables s i) 0 then Some ((page_tables s i AND NOT 0xFFF) OR x) else None)"
  using translate_window [of s 768 kpt i x] assms by (simp add: kernel_directory_def)

section \<open>Filling the tables\<close>

definition entries :: "nat \<Rightarrow> nat \<Rightarrow> (nat \<Rightarrow> u32) \<Rightarrow> (nat \<Rightarrow> u32) \<Rightarrow> nat \<Rightarrow> u32" where
  "entries k n v t = (\<lambda>j. if k \<le> j \<and> j < k + n then v (j - k) else t j)"

lemma entries_none [simp]: "entries k 0 v t = t"
  by (auto simp: entries_def fun_eq_iff)

lemma set_table_Inr:
  "i < 0x40000 \<Longrightarrow> set_table (of_nat i) v s = Inr (s\<lparr>page_tables := (page_tables s)(i := v)\<rparr>)"
  by (simp add: set_table_def word_less_nat_alt unat_of_nat)

lemma set_entries_runs:
  assumes "k + n \<le> 0x40000" and "m \<le> n"
  shows "set_entries k v [m..<n] s =
    Inr (s\<lparr>page_tables := entries (k + m) (n - m) (\<lambda>i. v (m + i)) (page_tables s)\<rparr>)"
  using assms(2)
proof (induction "n - m" arbitrary: m s)
  case 0
  then show ?case by simp
next
  case (Suc d)
  then have m: "m < n" "d = n - Suc m" by auto
  then have "[m..<n] = m # [Suc m..<n]" by (simp add: upt_conv_Cons)
  moreover have "entries (k + Suc m) (n - Suc m) (\<lambda>i. v (Suc m + i)) ((page_tables s)(k + m := v m)) =
      entries (k + m) (n - m) (\<lambda>i. v (m + i)) (page_tables s)"
    using m by (auto simp: entries_def fun_eq_iff intro!: arg_cong [where f = v])
  ultimately show ?case
    using Suc.hyps(1) [of "Suc m" "s\<lparr>page_tables := (page_tables s)(k + m := v m)\<rparr>"] m assms(1)
      set_table_Inr [of "k + m" "v m" s]
    by simp
qed

lemma map_range_runs:
  assumes "unat e \<le> 0x40000" and "i \<le> e"
  shows "map_range w i e s =
    Inr (s\<lparr>page_tables := entries (unat i) (unat e - unat i) (\<lambda>j. w + 4096 * of_nat j) (page_tables s)\<rparr>)"
  using assms(2)
proof (induction "unat e - unat i" arbitrary: i w s)
  case 0
  then have "e = i" by (simp add: word_le_nat_alt word_unat_eq_iff)
  then show ?case by (simp add: map_range.simps)
next
  case (Suc d)
  then have lt: "i < e" by (simp add: word_less_nat_alt)
  have i1: "unat (i + 1) = unat i + 1" using lt by (rule unat_add_1)
  have le: "i + 1 \<le> e" "d = unat e - unat (i + 1)"
    using lt i1 Suc.hyps(2) by (simp_all add: word_le_nat_alt word_less_nat_alt)
  have "set_table i w s = Inr (s\<lparr>page_tables := (page_tables s)(unat i := w)\<rparr>)"
    using lt assms(1) by (simp add: set_table_def word_less_nat_alt)
  moreover have "entries (unat (i + 1)) (unat e - unat (i + 1)) (\<lambda>j. w + 0x1000 + 4096 * of_nat j)
        ((page_tables s)(unat i := w)) =
      entries (unat i) (unat e - unat i) (\<lambda>j. w + 4096 * of_nat j) (page_tables s)"
    using lt unfolding i1
    by (auto simp: entries_def fun_eq_iff word_less_nat_alt algebra_simps of_nat_diff)
  ultimately show ?case
    using Suc.hyps(1) [OF le(2) le(1), of "w + 0x1000"] lt by (subst map_range.simps) simp
qed

lemma fill_directory_runs:
  assumes "unat i \<le> 256" and "length (page_directory s) = 1024"
  shows "\<exists>d. fill_directory w i s = s\<lparr>page_directory := d\<rparr> \<and> length d = 1024 \<and>
    (\<forall>j<256. d ! j = (if unat i \<le> j then w + 4096 * of_nat (j - unat i) else page_directory s ! j) \<and>
       d ! (768 + j) = (if unat i \<le> j then w + 4096 * of_nat (j - unat i) else page_directory s ! (768 + j))) \<and>
    (\<forall>j. 256 \<le> j \<longrightarrow> j < 768 \<longrightarrow> d ! j = page_directory s ! j)"
  using assms
proof (induction "256 - unat i" arbitrary: i w s)
  case 0
  then show ?case by (subst fill_directory.simps) (auto simp: word_less_nat_alt intro!: exI [of _ "page_directory s"])
next
  case (Suc k)
  then have lt: "i < 0x100" and lt256: "unat i < 256" by (simp_all add: word_less_nat_alt)
  have i1: "unat (i + 1) = unat i + 1" using lt by (rule unat_add_1)
  have "unat (0x300 + i) = 768 + unat i"
    using lt by (simp add: unat_word_ariths word_less_nat_alt)
  let ?s = "s\<lparr>page_directory := (page_directory s)[unat i := w, 768 + unat i := w]\<rparr>"
  obtain d where d: "fill_directory (w + 0x1000) (i + 1) ?s = ?s\<lparr>page_directory := d\<rparr>" "length d = 1024"
    "\<forall>j<256. d ! j = (if unat (i + 1) \<le> j then w + 0x1000 + 4096 * of_nat (j - unat (i + 1)) else page_directory ?s ! j) \<and>
       d ! (768 + j) = (if unat (i + 1) \<le> j then w + 0x1000 + 4096 * of_nat (j - unat (i + 1)) else page_directory ?s ! (768 + j))"
    "\<forall>j. 256 \<le> j \<longrightarrow> j < 768 \<longrightarrow> d ! j = page_directory ?s ! j"
  proof -
    have "k = 256 - unat (i + 1)" "unat (i + 1) \<le> 256" "length (page_directory ?s) = 1024"
      using i1 Suc.hyps(2) Suc.prems by simp_all
    from Suc.hyps(1) [OF this, of "w + 0x1000"] show ?thesis using that by auto
  qed
  have "fill_directory w i s = s\<lparr>page_directory := d\<rparr>"
    using lt d(1) \<open>unat (0x300 + i) = _\<close> by (subst fill_directory.simps) simp
  moreover have "d ! j = (if unat i \<le> j then w + 4096 * of_nat (j - unat i) else page_directory s ! j) \<and>
       d ! (768 + j) = (if unat i \<le> j then w + 4096 * of_nat (j - unat i) else page_directory s ! (768 + j))"
    if "j < 256" for j
    using d(3) that lt256 Suc.prems(2) unfolding i1
    by (cases "j = unat i") (auto simp: nth_list_update algebra_simps of_nat_diff Suc_le_eq)
  moreover have "\<forall>j. 256 \<le> j \<longrightarrow> j < 768 \<longrightarrow> d ! j = page_directory s ! j" using d(4) lt256 by simp
  ultimately show ?case using d(2) by blast
qed

section \<open>Starting paging\<close>

lemma page_decomp: "pa = 4096 * of_nat (unat pa div 4096) + (pa AND 0xFFF)" for pa :: u32
proof -
  have d: "4096 * (unat pa div 4096) < 2 ^ 32"
    using unat_limit(3) [of pa] times_div_less_eq_dividend [of 4096 "unat pa"] by simp
  have "unat (4096 * of_nat (unat pa div 4096) :: u32) = 4096 * (unat pa div 4096)"
    using d by (simp add: unat_word_ariths unat_of_nat)
  then have "unat (4096 * of_nat (unat pa div 4096) + (pa AND 0xFFF)) =
      (4096 * (unat pa div 4096) + unat pa mod 4096) mod 2 ^ 32"
    by (simp only: unat_word_ariths unat_low_bits) simp
  also have "\<dots> = unat pa" using unat_limit(3) [of pa] by simp
  finally show ?thesis by (simp only: word_unat_eq_iff)
qed

lemma entry_address:
  fixes a x :: u32
  assumes "4096 dvd unat a" and "unat x < 4096"
  shows "((a + 3) AND NOT 0xFFF) OR x = a + x" and "odd (a + 3)"
proof -
  have "a AND NOT 0xFFF = a" using aligned_add [OF assms(1), of 0] by simp
  moreover have "x AND 0xFFF = x" using assms(2) by (simp only: word_unat_eq_iff unat_low_bits) simp
  ultimately have "a AND x = 0"
    by (metis (no_types, opaque_lifting) and.assoc and.commute and.right_neutral bit.conj_cancel_right and_zero_eq)
  then have "a + x = a OR x" by (rule disjunctive_add_eq_or)
  then show "((a + 3) AND NOT 0xFFF) OR x = a + x" using aligned_add [OF assms(1), of 3] by simp
  have "even (unat a)" using assms(1) by (rule dvd_trans [rotated]) simp
  then show "odd (a + 3)" by (simp add: even_unat)
qed

lemma unat_page: "i < 0x100000 \<Longrightarrow> unat (4096 * of_nat i :: u32) = 4096 * i"
  by (simp add: unat_word_ariths unat_of_nat)

lemma page_aligned: "i < 0x100000 \<Longrightarrow> 4096 dvd unat (4096 * of_nat i :: u32)"
  by (simp add: unat_page)

lemma post_setup_directory:
  assumes "length (page_directory s) = 1024"
  shows "length (page_directory (memory_post_setup_paging s)) = 1024"
    and "j < 1024 \<Longrightarrow> page_directory (memory_post_setup_paging s) ! j = (if j < 256 then 0 else page_directory s ! j)"
proof -
  have f: "length (fold (\<lambda>i d. d[i := 0]) is d) = length d \<and>
      (\<forall>j<length d. fold (\<lambda>i d. d[i := 0]) is d ! j = (if j \<in> set is then 0 else d ! j))" for "is" and d :: "u32 list"
    by (induction "is" arbitrary: d) (auto simp: nth_list_update)
  show "length (page_directory (memory_post_setup_paging s)) = 1024"
    using f [of "[0..<256]" "page_directory s"] assms
    by (simp add: memory_post_setup_paging_def del: upt_rec_numeral)
  show "page_directory (memory_post_setup_paging s) ! j = (if j < 256 then 0 else page_directory s ! j)" if "j < 1024"
    using f [of "[0..<256]" "page_directory s"] assms that
    by (simp add: memory_post_setup_paging_def del: upt_rec_numeral)
qed

text \<open>The tables of the boot: the pages of the kernel image at their own number.\<close>

definition image_mapped :: "('z) mem_scheme \<Rightarrow> bool" where
  "image_mapped s \<longleftrightarrow>
     (\<forall>i. 4096 * i < unat (last_kernel_phaddr s) \<longrightarrow> page_tables s i = 4096 * of_nat i + 3)"

text \<open>Where the pages end that hold the kernel image.\<close>

definition image_end :: "('z) mem_scheme \<Rightarrow> nat" where
  "image_end s = 4096 * ((unat (last_kernel_phaddr s) + 0xFFF) div 4096)"

text \<open>A window through which exactly the first pages of the memory are seen.\<close>

lemma window_translate:
  assumes window: "\<forall>d<256. page_directory s ! (b + d) = PA kpt + 4096 * of_nat d + 3" "b \<le> 768" "4096 dvd unat kpt"
    and t: "\<forall>i<0x40000. page_tables s i = (if 4096 * i < e then 4096 * of_nat i + 3 else 0)" "4096 dvd e"
    and va: "0x400000 * b \<le> unat va" "unat va < 0x400000 * b + 0x40000000"
  shows "translate kpt s va = (if unat va < 0x400000 * b + e then Some (va - 0x400000 * of_nat b) else None)"
proof -
  let ?o = "va - 0x400000 * of_nat b"
  let ?i = "unat ?o div 4096" and ?x = "?o AND 0xFFF"
  have "unat (0x400000 * of_nat b :: u32) = 0x400000 * b" using window(2) by (simp add: unat_word_ariths unat_of_nat)
  then have o: "unat ?o = unat va - 0x400000 * b" using va(1) by (simp add: unat_sub word_le_nat_alt)
  have i: "?i < 0x40000" unfolding o using va by simp
  have x: "unat ?x < 4096" by (simp add: unat_low_bits)
  have v: "va = 0x400000 * of_nat b + 4096 * of_nat ?i + ?x" using page_decomp [of ?o] by (simp add: algebra_simps)
  have "4096 * ?i < e \<longleftrightarrow> unat va < 0x400000 * b + e"
  proof -
    obtain k where e: "e = 4096 * k" using t(2) by (elim dvdE)
    have "4096 * ?i < e \<longleftrightarrow> ?i < k" by (simp add: e)
    also have "\<dots> \<longleftrightarrow> unat ?o < k * 4096" by (rule div_less_iff_less_mult) simp
    finally show ?thesis using va(1) unfolding o e by linarith
  qed
  moreover have "translate kpt s va = (if 4096 * ?i < e then Some ?o else None)"
    using translate_window [OF window i x] entry_address [OF page_aligned x, of ?i] i page_decomp [of ?o] t(1)
    unfolding v [symmetric] by (simp add: bit_0)
  ultimately show ?thesis by simp
qed

lemma setup_paging:
  assumes "4096 dvd unat kpt" and "length (page_directory s) = 1024"
    and "unat (last_kernel_phaddr s) \<le> 0x40000000"
  shows "\<exists>s'. memory_setup_paging kpt s = Inr s' \<and> kernel_directory kpt s' \<and>
    (\<forall>d<256. page_directory s' ! d = PA kpt + 4096 * of_nat d + 3) \<and>
    (\<forall>d. 256 \<le> d \<longrightarrow> d < 768 \<longrightarrow> page_directory s' ! d = page_directory s ! d) \<and>
    (\<forall>i. page_tables s' i = (if 4096 * i < image_end s then 4096 * of_nat i + 3 else page_tables s i))"
proof -
  let ?L = "unat (last_kernel_phaddr s)"
  let ?n = "drop_bit 12 (last_kernel_phaddr s + 0xFFF)"
  have "unat (last_kernel_phaddr s + 0xFFF) = ?L + 0xFFF" using assms(3) by (simp add: unat_word_ariths)
  then have n: "unat ?n = (?L + 0xFFF) div 4096" by (simp only: unat_drop_bit) simp
  then have le: "unat ?n \<le> 0x40000" "0 \<le> ?n" using assms(3) by simp_all
  let ?t = "entries 0 (unat ?n) (\<lambda>j. 3 + 4096 * of_nat j) (page_tables s)"
  let ?s1 = "s\<lparr>page_tables := ?t\<rparr>"
  obtain d where d: "fill_directory (PA kpt + 3) 0 ?s1 = ?s1\<lparr>page_directory := d\<rparr>" "length d = 1024"
    "\<forall>j<256. d ! j = PA kpt + 3 + 4096 * of_nat j \<and> d ! (768 + j) = PA kpt + 3 + 4096 * of_nat j"
    "\<forall>j. 256 \<le> j \<longrightarrow> j < 768 \<longrightarrow> d ! j = page_directory s ! j"
    using fill_directory_runs [of 0 ?s1 "PA kpt + 3"] assms(2) by auto
  have "memory_setup_paging kpt s = Inr (?s1\<lparr>page_directory := d\<rparr>)"
    using map_range_runs [OF le, of 3 s] d(1) by (simp add: memory_setup_paging_def Let_def)
  then show ?thesis
    using d(2-4) assms(1) n by (auto simp: kernel_directory_def entries_def image_end_def algebra_simps)
qed

text \<open>C21. Paging is switched on in two steps, from tables that are zero as the loader leaves them. After the
  first the processor translates every address of the pages that hold the kernel image to itself, and the
  same offsets from \<^verbatim>\<open>0xC0000000\<close> on to the same pages; after the second step only the latter. In both cases no
  other address of the whole 32-bit space is mapped.\<close>

theorem paging_setup_correct:
  assumes "4096 dvd unat kpt" and "page_directory s = replicate 1024 0" and "\<forall>i<0x40000. page_tables s i = 0"
    and "unat (last_kernel_phaddr s) \<le> 0x40000000"
  shows "\<exists>s'. memory_setup_paging kpt s = Inr s' \<and>
    (\<forall>va. translate kpt s' va =
       (if unat va < image_end s then Some va
        else if 0xC0000000 \<le> unat va \<and> unat va < 0xC0000000 + image_end s then Some (va - 0xC0000000) else None)) \<and>
    (\<forall>va. translate kpt (memory_post_setup_paging s') va =
       (if 0xC0000000 \<le> unat va \<and> unat va < 0xC0000000 + image_end s then Some (va - 0xC0000000) else None))"
proof -
  have len: "length (page_directory s) = 1024" by (simp add: assms(2))
  obtain s' where run: "memory_setup_paging kpt s = Inr s'" and s': "kernel_directory kpt s'"
    "\<forall>d<256. page_directory s' ! d = PA kpt + 4096 * of_nat d + 3" "\<forall>d. 256 \<le> d \<longrightarrow> d < 768 \<longrightarrow> page_directory s' ! d = 0"
    and t: "\<forall>i<0x40000. page_tables s' i = (if 4096 * i < image_end s then 4096 * of_nat i + 3 else 0)"
    using setup_paging [OF assms(1) len assms(4)] assms(2,3) by auto
  let ?s = "memory_post_setup_paging s'"
  have "length (page_directory s') = 1024" using s'(1) by (simp add: kernel_directory_def)
  note post = post_setup_directory [OF this]
  have e: "4096 dvd image_end s" "image_end s \<le> 0x40000000" using assms(4) by (simp_all add: image_end_def)
  have hi: "translate kpt r va = (if unat va < 0xC0000000 + image_end s then Some (va - 0xC0000000) else None)"
    if "kernel_directory kpt r" "page_tables r = page_tables s'" "0xC0000000 \<le> unat va" for r :: "'a mem_scheme" and va
    using window_translate [of r 768 kpt "image_end s" va] that t e(1) unat_limit(3) [of va] assms(1)
    by (simp add: kernel_directory_def)
  have lo: "translate kpt s' va = (if unat va < image_end s then Some va else None)" if "unat va < 0x40000000" for va
    using window_translate [of s' 0 kpt "image_end s" va] that t e(1) s'(2) assms(1) by simp
  have dir: "kernel_directory kpt ?s" "page_tables ?s = page_tables s'"
    using s'(1) post by (simp_all add: kernel_directory_def memory_post_setup_paging_def)
  have none: "translate kpt r va = None" if "page_directory r ! (unat va div 2 ^ 22) = 0" for r :: "'a mem_scheme" and va
    using that by (simp add: translate_def unat_drop_bit)
  have mid: "translate kpt s' va = None" if "0x40000000 \<le> unat va" "unat va < 0xC0000000" for va
    using that s'(3) by (intro none) simp
  have low: "translate kpt ?s va = None" if "unat va < 0xC0000000" for va
    using that s'(3) post(2) by (intro none) simp
  have "translate kpt s' va = (if unat va < image_end s then Some va
        else if 0xC0000000 \<le> unat va \<and> unat va < 0xC0000000 + image_end s then Some (va - 0xC0000000) else None)" for va
  proof -
    consider "unat va < 0x40000000" | "0x40000000 \<le> unat va" "unat va < 0xC0000000" | "0xC0000000 \<le> unat va" by linarith
    then show ?thesis using lo mid hi [OF s'(1) refl] e(2) by cases auto
  qed
  moreover have "translate kpt ?s va =
       (if 0xC0000000 \<le> unat va \<and> unat va < 0xC0000000 + image_end s then Some (va - 0xC0000000) else None)" for va
    using low [of va] hi [OF dir, of va] by (auto simp: not_le)
  ultimately show ?thesis using run by blast
qed

definition sample_mem :: mem where
  "sample_mem =
     \<lparr>page_directory = replicate 1024 0, page_tables = (\<lambda>_. 0), memory_size = 0, last_kernel_phaddr = 0x400000,
      pages = small_pool, vaddrs = small_pool, kernel_vaddr = (\<lambda>_. 0), kernel_vaddr_refcnt = (\<lambda>_. 0)\<rparr>"

theorem paging_setup_correct_witness:
  "\<exists>s'. memory_setup_paging 0xC0200000 sample_mem = Inr s' \<and>
     translate 0xC0200000 (memory_post_setup_paging s') 0xC0123456 = Some 0x123456 \<and>
     translate 0xC0200000 (memory_post_setup_paging s') 0xC0400000 = None"
proof -
  obtain s' where "memory_setup_paging 0xC0200000 sample_mem = Inr s'"
    "\<forall>va. translate 0xC0200000 (memory_post_setup_paging s') va =
       (if 0xC0000000 \<le> unat va \<and> unat va < 0xC0000000 + image_end sample_mem then Some (va - 0xC0000000) else None)"
    using paging_setup_correct [where s = sample_mem and kpt = "0xC0200000"] by (auto simp: sample_mem_def)
  then show ?thesis by (auto simp: image_end_def sample_mem_def)
qed

section \<open>Mapping physical memory\<close>

definition vm_inv :: "u32 \<Rightarrow> ('z) mem_scheme \<Rightarrow> (nat \<Rightarrow> nat list) \<Rightarrow> block set \<Rightarrow> bool" where
  "vm_inv kpt s F A \<longleftrightarrow> kernel_directory kpt s \<and> pool_inv (vaddrs s) F A \<and> pcount (vaddrs s) = 0x40000"

text \<open>The address of a kernel page.\<close>

definition page_address :: "nat \<Rightarrow> u32" where
  "page_address i = 0xC0000000 + 4096 * of_nat i"

lemma page_offset:
  fixes x :: u32
  assumes "unat x < 4096 * n"
  obtains k and y :: u32 where "k < n" "unat y < 4096" "x = 4096 * of_nat k + y"
proof
  show "unat x div 4096 < n" using assms by (simp add: less_mult_imp_div_less mult.commute)
  show "unat (x AND 0xFFF) < 4096" by (simp add: unat_low_bits)
  show "x = 4096 * of_nat (unat x div 4096) + (x AND 0xFFF)" by (rule page_decomp)
qed

text \<open>What a block of table entries for consecutive pages translates to.\<close>

lemma translate_mapped:
  assumes "kernel_directory kpt s" and "i + n \<le> 0x40000" and "4096 dvd unat phaddr"
    and "\<forall>k<n. page_tables s (i + k) = phaddr + 4096 * of_nat k + 3" and "unat x < 4096 * n"
  shows "translate kpt s (page_address i + x) = Some (phaddr + x)"
proof -
  obtain k y where k: "k < n" "unat y < 4096" "x = 4096 * of_nat k + y" using page_offset assms(5) by blast
  have "4096 dvd unat (phaddr + 4096 * of_nat k)"
    using k(1) assms(2,3) by (intro aligned_sum page_aligned) simp_all
  from entry_address [OF this k(2)] show ?thesis
    using translate_kernel [OF assms(1), of "i + k" y] k assms(2,4)
    by (simp add: page_address_def bit_0 algebra_simps)
qed

lemma translate_unmapped:
  assumes "kernel_directory kpt s" and "i + n \<le> 0x40000"
    and "\<forall>k<n. page_tables s (i + k) = 0" and "unat x < 4096 * n"
  shows "translate kpt s (page_address i + x) = None"
proof -
  obtain k y where k: "k < n" "unat y < 4096" "x = 4096 * of_nat k + y" using page_offset assms(4) by blast
  then show ?thesis
    using translate_kernel [OF assms(1), of "i + k" y] assms(2,3)
    by (simp add: page_address_def algebra_simps)
qed

lemma translate_same:
  assumes "kernel_directory kpt s" and "kernel_directory kpt s'" and "j < 0x40000"
    and "page_tables s' j = page_tables s j" and "unat y < 4096"
  shows "translate kpt s' (page_address j + y) = translate kpt s (page_address j + y)"
  using translate_kernel [OF assms(1,3,5)] translate_kernel [OF assms(2,3,5)] assms(4)
  by (simp add: page_address_def)

lemma span_bound:
  assumes "pool_inv p F A" and "(i, k) \<in> A"
  shows "i + 2 ^ k \<le> pcount p" and "k < 16" and "porder p i = int k"
proof -
  have "block_ok (pcount p) (i, k)" using assms by (auto simp: pool_inv_def blocks_ok_def)
  then show "i + 2 ^ k \<le> pcount p" "k < 16" by (simp_all add: block_ok_def)
  show "porder p i = int k" using assms by (auto simp: pool_inv_def)
qed

lemma address_index: "i < 0x40000 \<Longrightarrow> unat (drop_bit 12 (page_address i - 0xC0000000)) = i"
proof -
  assume i: "i < 0x40000"
  have "unat (drop_bit 12 (page_address i - 0xC0000000)) = unat (4096 * of_nat i :: u32) div 4096"
    by (simp only: page_address_def unat_drop_bit add_diff_cancel_left') simp
  then show ?thesis using i by (simp add: unat_page)
qed

lemma map_phaddr_runs:
  assumes "vm_inv kpt s F A" and "order \<le> 16"
  shows "if \<forall>k. order \<le> k \<and> k < 16 \<longrightarrow> F k = []
    then map_phaddr_in_kernel phaddr order s = Inr (0, s)
    else \<exists>i v F'. map_phaddr_in_kernel phaddr order s = Inr (page_address i,
             s\<lparr>vaddrs := v, page_tables := entries i (2 ^ order) (\<lambda>k. phaddr + 4096 * of_nat k + 3) (page_tables s)\<rparr>) \<and>
           pool_inv v F' (insert (i, order) A) \<and> pcount v = 0x40000 \<and> (i, order) \<notin> A \<and>
           i + 2 ^ order \<le> 0x40000 \<and> span (i, order) \<subseteq> free_set F \<and> free_set F' = free_set F - span (i, order) \<and>
           fst (alloc_abs order F) = Some i"
proof (cases "first_order order F")
  case None
  have inv: "pool_inv (vaddrs s) F A" using assms(1) by (simp add: vm_inv_def)
  show ?thesis
    using buddy_allocate_None [OF inv assms(2) None] None first_order_None [of order F]
    by (simp add: map_phaddr_in_kernel_def vaddr_allocate_def)
next
  case (Some l)
  have inv: "pool_inv (vaddrs s) F A" and c: "pcount (vaddrs s) = 0x40000"
    using assms(1) by (simp_all add: vm_inv_def)
  obtain i v F' where v: "vaddr_allocate order (vaddrs s) = Inr (Some i, v)" "pool_inv v F' (insert (i, order) A)"
    "free_set F' = free_set F - span (i, order)" "span (i, order) \<subseteq> free_set F" "(i, order) \<notin> A"
    "pcount v = 0x40000" "fst (alloc_abs order F) = Some i"
    using pool_inv_alloc [OF inv Some] c unfolding vaddr_allocate_def free_set_def by (metis fst_conv)
  have b: "i + 2 ^ order \<le> 0x40000" using span_bound(1) [OF v(2)] v(6) by simp
  let ?t = "entries i (2 ^ order) (\<lambda>k. phaddr + 4096 * of_nat k + 3) (page_tables s)"
  have "set_entries i (\<lambda>k. phaddr + push_bit 12 (of_nat k) + 3) [0..<2 ^ order] (s\<lparr>vaddrs := v\<rparr>) =
      Inr (s\<lparr>vaddrs := v, page_tables := ?t\<rparr>)"
    using set_entries_runs [OF b, of 0 "\<lambda>k. phaddr + push_bit 12 (of_nat k) + 3" "s\<lparr>vaddrs := v\<rparr>"]
    by (simp add: push_bit_eq_mult mult.commute)
  then have "map_phaddr_in_kernel phaddr order s = Inr (page_address i, s\<lparr>vaddrs := v, page_tables := ?t\<rparr>)"
    using v(1) by (simp add: map_phaddr_in_kernel_def page_address_def push_bit_eq_mult mult.commute)
  moreover have "\<not> (\<forall>k. order \<le> k \<and> k < 16 \<longrightarrow> F k = [])"
    using Some first_order_None [of order F] by auto
  ultimately show ?thesis using v b by (subst if_not_P) auto
qed

lemma entries_in: "k < n \<Longrightarrow> entries i n v t (i + k) = v k"
  and entries_out: "j \<notin> {i..<i + n} \<Longrightarrow> entries i n v t j = t j"
  by (auto simp: entries_def)

lemma map_translate:
  assumes "kernel_directory kpt s" and "i + 2 ^ order \<le> 0x40000" and "4096 dvd unat phaddr"
    and "page_directory s' = page_directory s"
    and "page_tables s' = entries i (2 ^ order) (\<lambda>k. phaddr + 4096 * of_nat k + 3) (page_tables s)"
  shows "kernel_directory kpt s'"
    and "unat x < 4096 * 2 ^ order \<Longrightarrow> translate kpt s' (page_address i + x) = Some (phaddr + x)"
    and "j < 0x40000 \<Longrightarrow> j \<notin> span (i, order) \<Longrightarrow> unat y < 4096 \<Longrightarrow>
      translate kpt s' (page_address j + y) = translate kpt s (page_address j + y)"
proof -
  show dir: "kernel_directory kpt s'" using assms(1,4) by (simp add: kernel_directory_def)
  show "unat x < 4096 * 2 ^ order \<Longrightarrow> translate kpt s' (page_address i + x) = Some (phaddr + x)"
    using dir assms(2,3) by (intro translate_mapped) (simp_all add: assms(5) entries_in)
  show "j < 0x40000 \<Longrightarrow> j \<notin> span (i, order) \<Longrightarrow> unat y < 4096 \<Longrightarrow>
      translate kpt s' (page_address j + y) = translate kpt s (page_address j + y)"
    using assms(1) dir by (intro translate_same) (simp_all add: assms(5) entries_out span_def)
qed

lemma unmap_phaddr_runs:
  assumes "vm_inv kpt s F A" and "(i, k) \<in> A" and "genuine 0x40000 F i k"
  shows "\<exists>v. unmap_phaddr_in_kernel (page_address i) s =
      Inr (s\<lparr>page_tables := entries i (2 ^ k) (\<lambda>_. 0) (page_tables s), vaddrs := v\<rparr>) \<and>
    pool_inv v (free_abs 0x40000 i k F) (A - {(i, k)}) \<and> pcount v = 0x40000 \<and>
    free_set (free_abs 0x40000 i k F) = free_set F \<union> span (i, k) \<and> i + 2 ^ k \<le> 0x40000"
proof -
  have inv: "pool_inv (vaddrs s) F A" and c: "pcount (vaddrs s) = 0x40000"
    using assms(1) by (simp_all add: vm_inv_def)
  have b: "i + 2 ^ k \<le> 0x40000" "porder (vaddrs s) i = int k" using span_bound [OF inv assms(2)] c by simp_all
  then have i: "i < 0x40000" using zero_less_power [of "2 :: nat" k] by linarith
  obtain v where v: "page_free i (vaddrs s) = Inr v" "pool_inv v (free_abs 0x40000 i k F) (A - {(i, k)})"
    "free_set (free_abs 0x40000 i k F) = free_set F \<union> span (i, k)" "pcount v = 0x40000"
    using pool_inv_free [OF inv assms(2)] assms(3) unfolding free_set_def c by blast
  have "(2 :: nat) ^ 15 dvd pcount (vaddrs s)" unfolding c by simp
  then have vf: "vaddr_free i (vaddrs s) = Inr v" using v(1) by (simp only: vaddr_free_eq)
  have "set_entries i (\<lambda>_. 0) [0..<2 ^ k] s =
      Inr (s\<lparr>page_tables := entries i (2 ^ k) (\<lambda>_. 0) (page_tables s)\<rparr>)"
    using set_entries_runs [OF b(1), of 0 "\<lambda>_. 0" s] by simp
  then show ?thesis
    using v vf b c i address_index [OF i]
    by (intro exI [of _ v]) (simp add: unmap_phaddr_in_kernel_def Let_def)
qed

text \<open>Mapping physical memory into the kernel: either no block of kernel pages is free and
  nothing changes, or the result is the address of a block that was free, every address of the
  block translates to the physical address at the same offset, every other address translates as
  before, and the blocks stay disjoint.\<close>

lemma map_phaddr_correct:
  assumes "vm_inv kpt s F A" and "order \<le> 16" and "4096 dvd unat phaddr"
  shows "if \<forall>k. order \<le> k \<and> k < 16 \<longrightarrow> F k = []
    then map_phaddr_in_kernel phaddr order s = Inr (0, s)
    else \<exists>i s' F'. map_phaddr_in_kernel phaddr order s = Inr (page_address i, s') \<and>
           vm_inv kpt s' F' (insert (i, order) A) \<and> (i, order) \<notin> A \<and>
           span (i, order) \<subseteq> free_set F \<and> free_set F' = free_set F - span (i, order) \<and>
           (\<forall>x. unat x < 4096 * 2 ^ order \<longrightarrow> translate kpt s' (page_address i + x) = Some (phaddr + x)) \<and>
           (\<forall>j y. j < 0x40000 \<and> j \<notin> span (i, order) \<and> unat y < 4096 \<longrightarrow>
              translate kpt s' (page_address j + y) = translate kpt s (page_address j + y))"
proof (cases "\<forall>k. order \<le> k \<and> k < 16 \<longrightarrow> F k = []")
  case True
  then show ?thesis using map_phaddr_runs [OF assms(1,2)] by simp
next
  case False
  obtain i v F' where run: "map_phaddr_in_kernel phaddr order s = Inr (page_address i,
        s\<lparr>vaddrs := v, page_tables := entries i (2 ^ order) (\<lambda>k. phaddr + 4096 * of_nat k + 3) (page_tables s)\<rparr>)"
      (is "_ = Inr (_, ?s)")
    and v: "pool_inv v F' (insert (i, order) A)" "pcount v = 0x40000" "(i, order) \<notin> A"
      "i + 2 ^ order \<le> 0x40000" "span (i, order) \<subseteq> free_set F" "free_set F' = free_set F - span (i, order)"
    using map_phaddr_runs [OF assms(1,2), of phaddr, unfolded if_not_P [OF False]] by (elim exE conjE) (rule that)
  have dir: "kernel_directory kpt s" using assms(1) by (simp add: vm_inv_def)
  note tr = map_translate [OF dir v(4) assms(3), of ?s]
  have "vm_inv kpt ?s F' (insert (i, order) A)" using tr(1) v(1,2) by (simp add: vm_inv_def)
  then show ?thesis
    unfolding if_not_P [OF False] using run v tr(2,3)
    by (intro exI [of _ i] exI [of _ ?s] exI [of _ F']) auto
qed

text \<open>Unmapping a block that was mapped makes its addresses untranslatable and its kernel pages
  free again, and leaves all other translations alone, when every merge is with a free buddy of
  the same order.\<close>

lemma unmap_phaddr_correct:
  assumes "vm_inv kpt s F A" and "(i, k) \<in> A" and "genuine 0x40000 F i k"
  shows "\<exists>s'. unmap_phaddr_in_kernel (page_address i) s = Inr s' \<and>
    vm_inv kpt s' (free_abs 0x40000 i k F) (A - {(i, k)}) \<and>
    free_set (free_abs 0x40000 i k F) = free_set F \<union> span (i, k) \<and>
    (\<forall>x. unat x < 4096 * 2 ^ k \<longrightarrow> translate kpt s' (page_address i + x) = None) \<and>
    (\<forall>j y. j < 0x40000 \<and> j \<notin> span (i, k) \<and> unat y < 4096 \<longrightarrow>
       translate kpt s' (page_address j + y) = translate kpt s (page_address j + y))"
proof -
  obtain v where run: "unmap_phaddr_in_kernel (page_address i) s =
        Inr (s\<lparr>page_tables := entries i (2 ^ k) (\<lambda>_. 0) (page_tables s), vaddrs := v\<rparr>)" (is "_ = Inr ?s")
    and v: "pool_inv v (free_abs 0x40000 i k F) (A - {(i, k)})" "pcount v = 0x40000"
      "free_set (free_abs 0x40000 i k F) = free_set F \<union> span (i, k)" "i + 2 ^ k \<le> 0x40000"
    using unmap_phaddr_runs [OF assms] by (elim exE conjE) (rule that)
  have dir: "kernel_directory kpt s" "kernel_directory kpt ?s"
    using assms(1) by (simp_all add: vm_inv_def kernel_directory_def)
  have "vm_inv kpt ?s (free_abs 0x40000 i k F) (A - {(i, k)})" using dir v by (simp add: vm_inv_def)
  moreover have "translate kpt ?s (page_address i + x) = None" if "unat x < 4096 * 2 ^ k" for x
    using dir(2) v(4) that by (intro translate_unmapped) (simp_all add: entries_in)
  moreover have "translate kpt ?s (page_address j + y) = translate kpt s (page_address j + y)"
    if "j < 0x40000" "j \<notin> span (i, k)" "unat y < 4096" for j y
    using dir that by (intro translate_same) (simp_all add: entries_out span_def)
  ultimately show ?thesis using run v(3) by blast
qed

text \<open>C22. \<^verbatim>\<open>phaddr_of_kernel_vaddr\<close> gives the physical address that the processor's walk finds for
  every mapped kernel address.\<close>

theorem phaddr_of_kernel_vaddr_correct:
  assumes "kernel_directory kpt s" and "translate kpt s va = Some pa" and "0xC0000000 \<le> va"
  shows "phaddr_of_kernel_vaddr va s = Inr pa"
proof -
  define r where "r = va - 0xC0000000"
  have r: "va = 0xC0000000 + r" by (simp add: r_def)
  have "unat va = 0xC0000000 + unat r"
    using assms(3) by (simp add: r_def unat_sub word_le_nat_alt)
  then have lt: "unat r < 0x40000000" using unat_limit(3) [of va] by simp
  let ?i = "unat r div 4096" and ?x = "r AND 0xFFF"
  have i: "?i < 0x40000" using lt by simp
  have x: "unat ?x < 4096" by (simp add: unat_low_bits)
  have va: "va = 0xC0000000 + 4096 * of_nat ?i + ?x" using page_decomp [of r] r by simp
  have "page_tables s ?i AND NOT 0xFFF OR ?x = pa"
    using translate_kernel [OF assms(1) i x] assms(2) va by (simp split: if_splits)
  moreover have "unat (drop_bit 12 (va - 0xC0000000)) = ?i"
    by (simp only: r_def [symmetric] unat_drop_bit) simp
  moreover have "va AND 0xFFF = ?x"
  proof -
    have "unat va mod 4096 = unat r mod 4096"
      using \<open>unat va = _\<close> mod_mult_self2 [of "unat r" 4096 "0xC0000"] by (simp add: add.commute)
    then show ?thesis by (simp only: word_unat_eq_iff unat_low_bits)
  qed
  ultimately show ?thesis using i by (simp add: phaddr_of_kernel_vaddr_def Let_def)
qed

section \<open>Kernel pages\<close>

text \<open>A block of physical pages that is mapped once, at the block \<open>j\<close> of kernel pages.\<close>

definition kernel_block :: "('z) mem_scheme \<Rightarrow> block set \<Rightarrow> block set \<Rightarrow> nat \<Rightarrow> nat \<Rightarrow> nat \<Rightarrow> bool" where
  "kernel_block s AP AV i j k \<longleftrightarrow>
     (i, k) \<in> AP \<and> (j, k) \<in> AV \<and> kernel_vaddr s i = page_address j \<and> kernel_vaddr_refcnt s i = 1 \<and>
     (\<forall>m<2 ^ k. page_tables s (j + m) = 4096 * of_nat (i + m) + 3)"

lemma page_address_nonzero: "j < 0x40000 \<Longrightarrow> page_address j \<noteq> 0"
  by (simp add: page_address_def word_unat_eq_iff unat_word_ariths unat_of_nat)

lemma phaddr_page: "phaddr_of_page i = 4096 * of_nat i"
  by (simp add: phaddr_of_page_def push_bit_eq_mult mult.commute)

lemma page_map_runs:
  assumes v: "vm_inv kpt s FV AV" and a: "porder (pages s) i = int k" "k < 16" "i < 0x100000"
    and n: "kernel_vaddr s i = 0" "kernel_vaddr_refcnt s i = 0" and free: "\<exists>l. k \<le> l \<and> l < 16 \<and> FV l \<noteq> []"
  shows "\<exists>j s' FV'. page_map i s = Inr (page_address j, s') \<and> vm_inv kpt s' FV' (insert (j, k) AV) \<and>
    (j, k) \<notin> AV \<and> free_set FV' = free_set FV - span (j, k) \<and> span (j, k) \<subseteq> free_set FV \<and> j + 2 ^ k \<le> 0x40000 \<and>
    pages s' = pages s \<and> kernel_vaddr s' = (kernel_vaddr s)(i := page_address j) \<and>
    kernel_vaddr_refcnt s' = (kernel_vaddr_refcnt s)(i := 1) \<and> page_directory s' = page_directory s \<and>
    page_tables s' = entries j (2 ^ k) (\<lambda>m. 4096 * of_nat i + 4096 * of_nat m + 3) (page_tables s) \<and>
    fst (alloc_abs k FV) = Some j \<and> mem.more s' = mem.more s"
proof -
  have nf: "\<not> (\<forall>l. k \<le> l \<and> l < 16 \<longrightarrow> FV l = [])" using free by blast
  have k16: "k \<le> 16" using a(2) by simp
  obtain j v FV' where run: "map_phaddr_in_kernel (4096 * of_nat i) k s = Inr (page_address j,
        s\<lparr>vaddrs := v, page_tables := entries j (2 ^ k) (\<lambda>m. 4096 * of_nat i + 4096 * of_nat m + 3) (page_tables s)\<rparr>)"
      (is "_ = Inr (_, ?s)")
    and v': "pool_inv v FV' (insert (j, k) AV)" "pcount v = 0x40000" "(j, k) \<notin> AV"
      "j + 2 ^ k \<le> 0x40000" "span (j, k) \<subseteq> free_set FV" "free_set FV' = free_set FV - span (j, k)" "fst (alloc_abs k FV) = Some j"
    using map_phaddr_runs [OF v k16, of "4096 * of_nat i", unfolded if_not_P [OF nf]]
    by (elim exE conjE) (rule that)
  have "j < 0x40000" using v'(4) zero_less_power [of "2 :: nat" k] by linarith
  then have nz: "page_address j \<noteq> 0" by (rule page_address_nonzero)
  let ?s2 = "?s\<lparr>kernel_vaddr := (kernel_vaddr s)(i := page_address j),
                kernel_vaddr_refcnt := (kernel_vaddr_refcnt s)(i := 1)\<rparr>"
  have "page_map i s = Inr (page_address j, ?s2)"
    using run a n nz by (simp add: page_map_def phaddr_page)
  moreover have "vm_inv kpt ?s2 FV' (insert (j, k) AV)"
    using v v'(1,2) by (simp add: vm_inv_def kernel_directory_def)
  ultimately show ?thesis using v' by (intro exI [of _ j] exI [of _ ?s2] exI [of _ FV']) simp
qed

lemma kernel_page_allocate_runs:
  assumes "vm_inv kpt s FV AV" and "pool_inv (pages s) FP AP" and "pcount (pages s) \<le> 0x100000"
    and "\<forall>i\<in>free_set FP. kernel_vaddr s i = 0 \<and> kernel_vaddr_refcnt s i = 0"
    and "\<exists>l. k \<le> l \<and> l < 16 \<and> FV l \<noteq> []" and "\<exists>l. k \<le> l \<and> l < 16 \<and> FP l \<noteq> []"
  shows "\<exists>i j s' FP' FV'. kernel_page_allocate k s = Inr (page_address j, s') \<and>
    vm_inv kpt s' FV' (insert (j, k) AV) \<and> pool_inv (pages s') FP' (insert (i, k) AP) \<and>
    kernel_block s' (insert (i, k) AP) (insert (j, k) AV) i j k \<and>
    span (i, k) \<subseteq> free_set FP \<and> free_set FP' = free_set FP - span (i, k) \<and>
    span (j, k) \<subseteq> free_set FV \<and> free_set FV' = free_set FV - span (j, k) \<and>
    (\<forall>x. unat x < 4096 * 2 ^ k \<longrightarrow> translate kpt s' (page_address j + x) = Some (phaddr_of_page i + x)) \<and>
    (\<forall>n y. n < 0x40000 \<and> n \<notin> span (j, k) \<and> unat y < 4096 \<longrightarrow>
       translate kpt s' (page_address n + y) = translate kpt s (page_address n + y)) \<and>
    fst (alloc_abs k FV) = Some j \<and> mem.more s' = mem.more s"
proof -
  have "first_order k FP \<noteq> None" using assms(6) first_order_None [of k FP] by auto
  then obtain l where l: "first_order k FP = Some l" by auto
  have k16: "k < 16" using first_order_Some [OF l] by simp
  obtain i p FP' where run: "page_allocate k (pages s) = Inr (Some i, p)" and p: "pool_inv p FP' (insert (i, k) AP)"
    "free_set FP' = free_set FP - span (i, k)" "span (i, k) \<subseteq> free_set FP" "pcount p = pcount (pages s)"
    using pool_inv_alloc [OF assms(2) l] unfolding page_allocate_def free_set_def by blast
  let ?s = "s\<lparr>pages := p\<rparr>"
  have ord: "porder (pages ?s) i = int k" and b: "i + 2 ^ k \<le> pcount p"
    using span_bound [OF p(1)] by simp_all
  have i: "i < 0x100000" using b p(4) assms(3) zero_less_power [of "2 :: nat" k] by linarith
  have "i \<in> free_set FP" using p(3) by (auto simp: span_def)
  then have n: "kernel_vaddr ?s i = 0" "kernel_vaddr_refcnt ?s i = 0" using assms(4) by simp_all
  have dir: "kernel_directory kpt s" and v: "vm_inv kpt ?s FV AV"
    using assms(1) by (simp_all add: vm_inv_def kernel_directory_def)
  obtain j s' FV' where m: "page_map i ?s = Inr (page_address j, s')" "vm_inv kpt s' FV' (insert (j, k) AV)"
    "free_set FV' = free_set FV - span (j, k)" "span (j, k) \<subseteq> free_set FV" "j + 2 ^ k \<le> 0x40000"
    "pages s' = p" "kernel_vaddr s' i = page_address j" "kernel_vaddr_refcnt s' i = 1"
    "page_directory s' = page_directory s"
    "page_tables s' = entries j (2 ^ k) (\<lambda>m. 4096 * of_nat i + 4096 * of_nat m + 3) (page_tables s)"
    "fst (alloc_abs k FV) = Some j" "mem.more s' = mem.more s"
    using page_map_runs [OF v ord k16 i n assms(5)] by auto
  have "j < 0x40000" using m(5) zero_less_power [of "2 :: nat" k] by linarith
  then have "kernel_page_allocate k s = Inr (page_address j, s')"
    using run m(1) page_address_nonzero by (simp add: kernel_page_allocate_def)
  moreover have "kernel_block s' (insert (i, k) AP) (insert (j, k) AV) i j k"
    using m(7,8,10) by (simp add: kernel_block_def entries_in)
  moreover note map_translate [OF dir m(5) page_aligned [OF i] m(9,10)]
  ultimately show ?thesis
    using m(2-4,6,11,12) p(1-3) by (intro exI [of _ i] exI [of _ j] exI [of _ s'] exI [of _ FP'] exI [of _ FV'])
      (simp add: phaddr_page)
qed

text \<open>C23. \<^verbatim>\<open>kernel_page_allocate\<close>, when pages and kernel pages are left: the result is the address of
  a block of kernel pages that translates to a block of physical pages which was free and is
  allocated now; all other kernel addresses translate as before.\<close>

theorem kernel_page_allocate_correct:
  assumes "vm_inv kpt s FV AV" and "pool_inv (pages s) FP AP" and "pcount (pages s) \<le> 0x100000"
    and "\<forall>i\<in>free_set FP. kernel_vaddr s i = 0 \<and> kernel_vaddr_refcnt s i = 0"
    and "\<exists>l. k \<le> l \<and> l < 16 \<and> FV l \<noteq> []" and "\<exists>l. k \<le> l \<and> l < 16 \<and> FP l \<noteq> []"
  shows "\<exists>i j s' FP' FV'. kernel_page_allocate k s = Inr (page_address j, s') \<and>
    vm_inv kpt s' FV' (insert (j, k) AV) \<and> pool_inv (pages s') FP' (insert (i, k) AP) \<and>
    kernel_block s' (insert (i, k) AP) (insert (j, k) AV) i j k \<and>
    span (i, k) \<subseteq> free_set FP \<and> free_set FP' = free_set FP - span (i, k) \<and>
    span (j, k) \<subseteq> free_set FV \<and> free_set FV' = free_set FV - span (j, k) \<and>
    (\<forall>x. unat x < 4096 * 2 ^ k \<longrightarrow> translate kpt s' (page_address j + x) = Some (phaddr_of_page i + x)) \<and>
    (\<forall>n y. n < 0x40000 \<and> n \<notin> span (j, k) \<and> unat y < 4096 \<longrightarrow>
       translate kpt s' (page_address n + y) = translate kpt s (page_address n + y))"
  using kernel_page_allocate_runs [OF assms] by blast

text \<open>C24. \<^verbatim>\<open>kernel_page_free\<close> undoes \<^verbatim>\<open>kernel_page_allocate\<close>: given the address of a block that is
  mapped once, it finds the block's pages through the table, unmaps them and gives pages and
  kernel pages back, when every merge is with a free buddy of the same order.\<close>

theorem kernel_page_free_correct:
  assumes "vm_inv kpt s FV AV" and "pool_inv (pages s) FP AP" and "pcount (pages s) \<le> 0x100000"
    and "kernel_block s AP AV i j k"
    and "genuine 0x40000 FV j k" and "genuine (pcount (pages s)) FP i k"
  shows "\<exists>s' FP' FV'. kernel_page_free (page_address j) s = Inr s' \<and>
    vm_inv kpt s' FV' (AV - {(j, k)}) \<and> pool_inv (pages s') FP' (AP - {(i, k)}) \<and>
    free_set FP' = free_set FP \<union> span (i, k) \<and> free_set FV' = free_set FV \<union> span (j, k) \<and>
    kernel_vaddr s' = (kernel_vaddr s)(i := 0) \<and> kernel_vaddr_refcnt s' = (kernel_vaddr_refcnt s)(i := 0) \<and>
    (\<forall>x. unat x < 4096 * 2 ^ k \<longrightarrow> translate kpt s' (page_address j + x) = None)"
proof -
  have kb: "(i, k) \<in> AP" "(j, k) \<in> AV" "kernel_vaddr s i = page_address j" "kernel_vaddr_refcnt s i = 1"
    "page_tables s j = 4096 * of_nat i + 3"
  proof -
    have "\<forall>m<2 ^ k. page_tables s (j + m) = 4096 * of_nat (i + m) + 3"
      using assms(4) by (simp add: kernel_block_def)
    from this [rule_format, of 0] show "page_tables s j = 4096 * of_nat i + 3" by simp
  qed (use assms(4) in \<open>simp_all add: kernel_block_def\<close>)
  have ib: "i + 2 ^ k \<le> pcount (pages s)" using span_bound [OF assms(2) kb(1)] by simp
  then have i: "i < 0x100000" "i < pcount (pages s)"
    using assms(3) zero_less_power [of "2 :: nat" k] by linarith+
  let ?s0 = "s\<lparr>kernel_vaddr_refcnt := (kernel_vaddr_refcnt s)(i := 0)\<rparr>"
  have v0: "vm_inv kpt ?s0 FV AV" using assms(1) by (simp add: vm_inv_def kernel_directory_def)
  obtain v where u: "unmap_phaddr_in_kernel (page_address j) ?s0 =
        Inr (?s0\<lparr>page_tables := entries j (2 ^ k) (\<lambda>_. 0) (page_tables s), vaddrs := v\<rparr>)" (is "_ = Inr ?s1")
    and v: "pool_inv v (free_abs 0x40000 j k FV) (AV - {(j, k)})" "pcount v = 0x40000"
      "free_set (free_abs 0x40000 j k FV) = free_set FV \<union> span (j, k)" "j + 2 ^ k \<le> 0x40000"
    using unmap_phaddr_runs [OF v0 kb(2) assms(5)] by auto
  have j: "j < 0x40000" using v(4) zero_less_power [of "2 :: nat" k] by linarith
  obtain p where p: "page_free i (pages s) = Inr p" "pool_inv p (free_abs (pcount (pages s)) i k FP) (AP - {(i, k)})"
    "free_set (free_abs (pcount (pages s)) i k FP) = free_set FP \<union> span (i, k)"
    using pool_inv_free [OF assms(2) kb(1) assms(6)] unfolding free_set_def by blast
  let ?s2 = "?s1\<lparr>kernel_vaddr := (kernel_vaddr s)(i := 0), pages := p\<rparr>"
  have idx: "unat (drop_bit 12 (page_tables s j)) = i"
  proof -
    have "unat (4096 * of_nat i + 3 :: u32) = 4096 * i + 3"
      using i(1) by (simp add: unat_word_ariths unat_of_nat)
    then show ?thesis by (simp only: unat_drop_bit kb(5)) simp
  qed
  have "page_unmap i s = Inr (?s1\<lparr>kernel_vaddr := (kernel_vaddr s)(i := 0)\<rparr>)"
    using kb u by (simp add: page_unmap_def Let_def)
  then have "kernel_page_free (page_address j) s = Inr ?s2"
    using j i(2) idx p(1) address_index [OF j] by (simp add: kernel_page_free_def Let_def)
  moreover have dir: "kernel_directory kpt ?s2" using assms(1) by (simp add: vm_inv_def kernel_directory_def)
  moreover have "translate kpt ?s2 (page_address j + x) = None" if "unat x < 4096 * 2 ^ k" for x
    using dir v(4) that by (intro translate_unmapped) (simp_all add: entries_in)
  ultimately show ?thesis
    using v p(2,3) by (intro exI [of _ ?s2] exI conjI) (auto simp: vm_inv_def)
qed

section \<open>Examples\<close>

definition kernel_tables :: mem where
  "kernel_tables = sample_mem
     \<lparr>page_directory := replicate 768 0 @ map (\<lambda>d. PA 0xC0200000 + 4096 * of_nat d + 3) [0..<256],
      page_tables := (\<lambda>i. 4096 * of_nat i + 3)\<rparr>"

lemma kernel_tables_directory: "kernel_directory 0xC0200000 kernel_tables"
  by (simp add: kernel_directory_def kernel_tables_def sample_mem_def nth_append del: upt_rec_numeral)

lemma kernel_directory_same:
  "page_directory s' = page_directory s \<Longrightarrow> kernel_directory kpt s' = kernel_directory kpt s"
  by (simp add: kernel_directory_def)

theorem phaddr_of_kernel_vaddr_correct_witness:
  "phaddr_of_kernel_vaddr 0xC0123456 kernel_tables = Inr 0x123456"
proof -
  have "translate 0xC0200000 kernel_tables (0xC0000000 + 4096 * of_nat 0x123 + 0x456) = Some 0x123456"
    using translate_kernel [OF kernel_tables_directory, where i = "0x123" and x = "0x456"]
    by (simp add: kernel_tables_def bit_0)
  then show ?thesis
    using phaddr_of_kernel_vaddr_correct [OF kernel_tables_directory, of "0xC0123456" "0x123456"] by simp
qed

text \<open>The kernel's pool with its first four pages free.\<close>

definition kernel_pool :: pool where
  "kernel_pool = (case add_vaddrs_to_pool 0 4 (init_pool (small_pool\<lparr>pcount := 0x40000\<rparr>)) of
     Inr p \<Rightarrow> p | Inl _ \<Rightarrow> small_pool)"

lemma kernel_pool_inv: "pool_inv kernel_pool ((\<lambda>_. [])(2 := [0])) {}" and pcount_kernel_pool: "pcount kernel_pool = 0x40000"
proof -
  have c: "pcount (init_pool (small_pool\<lparr>pcount := 0x40000\<rparr>)) = 0x40000"
    by (simp add: init_pool_def fold_init_descriptor)
  have "{0..<4} \<inter> pages_of (free_blocks (\<lambda>_. []) \<union> {}) = {}"
    by (simp add: free_blocks_def)
  then obtain p where "add_to_pool 0 4 (init_pool (small_pool\<lparr>pcount := 0x40000\<rparr>)) = Inr p"
    "pool_inv p (add_abs 0 4 (\<lambda>_. [])) {}" "pcount p = 0x40000"
    using pool_inv_add [OF pool_inv_init, of 4 "small_pool\<lparr>pcount := 0x40000\<rparr>" 0] c by auto
  then show "pool_inv kernel_pool ((\<lambda>_. [])(2 := [0])) {}" and "pcount kernel_pool = 0x40000"
    by (simp_all add: kernel_pool_def add_vaddrs_to_pool_def add_abs_0_4)
qed

theorem kernel_page_allocate_correct_witness:
  "\<exists>i j s'. kernel_page_allocate 0 (kernel_tables\<lparr>pages := four_pages, vaddrs := kernel_pool\<rparr>) =
       Inr (page_address j, s') \<and>
     translate 0xC0200000 s' (page_address j + 0x10) = Some (phaddr_of_page i + 0x10)"
proof -
  let ?s = "kernel_tables\<lparr>pages := four_pages, vaddrs := kernel_pool\<rparr>"
  have v: "vm_inv 0xC0200000 ?s ((\<lambda>_. [])(2 := [0])) {}"
    using kernel_tables_directory kernel_pool_inv pcount_kernel_pool
    by (simp add: vm_inv_def kernel_directory_def)
  have p: "pool_inv (pages ?s) ((\<lambda>_. [])(2 := [0])) {}" "pcount (pages ?s) \<le> 0x100000"
    using four_pages_inv by simp_all
  have z: "kernel_vaddr ?s i = 0 \<and> kernel_vaddr_refcnt ?s i = 0" for i
    by (simp add: kernel_tables_def sample_mem_def)
  have ne: "\<exists>l::nat. 0 \<le> l \<and> l < 16 \<and> ((\<lambda>_. [])(2 := [0 :: nat])) l \<noteq> []" by (intro exI [of _ 2]) simp
  obtain i j s' where "kernel_page_allocate 0 ?s = Inr (page_address j, s')"
    "\<forall>x. unat x < 4096 * 2 ^ 0 \<longrightarrow> translate 0xC0200000 s' (page_address j + x) = Some (phaddr_of_page i + x)"
    using kernel_page_allocate_correct [OF v p _ ne ne] z by blast
  moreover from this(2) have "translate 0xC0200000 s' (page_address j + 0x10) = Some (phaddr_of_page i + 0x10)"
    by simp
  ultimately show ?thesis by blast
qed

text \<open>A pool whose first four pages are one allocated block.\<close>

definition owned_pool :: "nat \<Rightarrow> pool" where
  "owned_pool c = (init_pool (small_pool\<lparr>pcount := c\<rparr>))\<lparr>porder := (\<lambda>_. -1)(0 := 2)\<rparr>"

lemma owned_pool_inv: "4 \<le> c \<Longrightarrow> pool_inv (owned_pool c) (\<lambda>_. []) {(0, 2)} \<and> pcount (owned_pool c) = c"
  using pool_inv_init [of "small_pool\<lparr>pcount := c\<rparr>"]
  by (simp add: pool_inv_def owned_pool_def blocks_ok_def block_ok_def free_blocks_def init_pool_def fold_init_descriptor)

theorem kernel_page_free_correct_witness:
  "\<exists>s'. kernel_page_free 0xC0000000
      (kernel_tables\<lparr>pages := owned_pool 4, vaddrs := owned_pool 0x40000, kernel_vaddr := (\<lambda>_. 0)(0 := 0xC0000000),
         kernel_vaddr_refcnt := (\<lambda>_. 0)(0 := 1)\<rparr>) = Inr s' \<and>
     translate 0xC0200000 s' 0xC0001000 = None"
proof -
  let ?s = "kernel_tables\<lparr>pages := owned_pool 4, vaddrs := owned_pool 0x40000,
         kernel_vaddr := (\<lambda>_. 0)(0 := 0xC0000000), kernel_vaddr_refcnt := (\<lambda>_. 0)(0 := 1)\<rparr>"
  have v: "vm_inv 0xC0200000 ?s (\<lambda>_. []) {(0, 2)}"
    using kernel_tables_directory owned_pool_inv [of "0x40000"] by (simp add: vm_inv_def kernel_directory_def)
  have p: "pool_inv (pages ?s) (\<lambda>_. []) {(0, 2)}" "pcount (pages ?s) \<le> 0x100000"
    using owned_pool_inv [of 4] by simp_all
  have kb: "kernel_block ?s {(0, 2)} {(0, 2)} 0 0 2"
    by (simp add: kernel_block_def page_address_def kernel_tables_def)
  have g: "genuine c (\<lambda>_. []) 0 2" for c by (rule genuine_stop) (simp add: linked_def)
  obtain s' where "kernel_page_free (page_address 0) ?s = Inr s'"
    "\<forall>x. unat x < 4096 * 2 ^ 2 \<longrightarrow> translate 0xC0200000 s' (page_address 0 + x) = None"
    using kernel_page_free_correct [OF v p kb g g] by blast
  moreover from this(2) have "translate 0xC0200000 s' (page_address 0 + 0x1000) = None" by simp
  ultimately show ?thesis by (simp add: page_address_def)
qed

end
