(* ===== verification/MemInit.thy ===== *)
theory MemInit
  imports MemProps
begin

text \<open>
  The constructor of \<^verbatim>\<open>lib/mem.c\<close>, which turns the loader's memory map into the two pools, the
  page fault handler, and \<^verbatim>\<open>libc/heap.c\<close>, the allocator's view of kernel pages. The memory map is
  read from bytes; the walk over it need not end, since the map gives the step.
\<close>

section \<open>The loader's memory map\<close>

record memory_map =
  map_size :: u32
  base_addr :: u64
  map_length :: u64
  map_type :: u32

type_synonym bytes = "u32 \<Rightarrow> u8"

definition read32 :: "bytes \<Rightarrow> u32 \<Rightarrow> u32" where
  "read32 m a =
     ucast (m a) OR push_bit 8 (ucast (m (a + 1))) OR push_bit 16 (ucast (m (a + 2))) OR push_bit 24 (ucast (m (a + 3)))"

definition read64 :: "bytes \<Rightarrow> u32 \<Rightarrow> u64" where
  "read64 m a = ucast (read32 m a) OR push_bit 32 (ucast (read32 m (a + 4)))"

definition read_memory_map :: "bytes \<Rightarrow> u32 \<Rightarrow> memory_map" where
  "read_memory_map m a =
     \<lparr>map_size = read32 m a, base_addr = read64 m (a + 4), map_length = read64 m (a + 12), map_type = read32 m (a + 20)\<rparr>"

text \<open>
  \<^verbatim>\<open>for(mmap_addr = mbi->mmap_addr; mmap_addr < mmap_end; mmap_addr = &base_addr + size)\<close>: the
  entries that both loops of the constructor visit, in order.
\<close>

partial_function (option) mmap_entries :: "bytes \<Rightarrow> u32 \<Rightarrow> u32 \<Rightarrow> memory_map list option" where
  "mmap_entries m mmap_addr mmap_end =
     (if mmap_addr < mmap_end then
        Option.bind (mmap_entries m (mmap_addr + 4 + map_size (read_memory_map m mmap_addr)) mmap_end)
          (\<lambda>es. Some (read_memory_map m mmap_addr # es))
      else Some [])"

section \<open>The constructor\<close>

text \<open>The first loop: the end of the highest usable region below 4 GB.\<close>

definition larger_end :: "memory_map \<Rightarrow> u32 \<Rightarrow> u32" where
  "larger_end e ms =
     (if map_type e \<noteq> 1 then ms
      else
        let region_end = base_addr e + map_length e in
        if drop_bit 32 region_end \<noteq> 0 then ms
        else if ucast ms < region_end then ucast region_end else ms)"

definition find_memory_size :: "memory_map list \<Rightarrow> ('z) mem_scheme \<Rightarrow> ('z) mem_scheme" where
  "find_memory_size es s =
     (if memory_size s = 0 then s\<lparr>memory_size := fold larger_end es (memory_size s)\<rparr> else s)"

text \<open>The body of the last loop over the map.\<close>

definition add_region :: "memory_map \<Rightarrow> ('z) mem_scheme \<Rightarrow> ('z) mem_scheme result" where
  "add_region e s =
     (if map_type e \<noteq> 1 then Inr s
      else
        let region_end = base_addr e + map_length e in
        if drop_bit 32 region_end \<noteq> 0 then Inr s
        else if region_end \<le> ucast (last_kernel_phaddr s) then Inr s
        else
          let base = ucast (base_addr e) in
          if memory_size s \<le> base then Inr s
          else
            let base = (if base \<le> last_kernel_phaddr s then last_kernel_phaddr s else base) in
            bindE (add_pages_to_pool (unat (drop_bit PAGE_BITS base))
                     (unat (ucast (drop_bit PAGE_BITS (region_end + 0xFFF)) :: u32)) (pages s))
              (\<lambda>p. Inr (s\<lparr>pages := p\<rparr>)))"

fun add_regions :: "memory_map list \<Rightarrow> ('z) mem_scheme \<Rightarrow> ('z) mem_scheme result" where
  "add_regions [] s = Inr s"
| "add_regions (e # es) s = bindE (add_region e s) (add_regions es)"

definition sizeof_page_t :: u32 where
  "sizeof_page_t = 20"

text \<open>Where the descriptors are put, and what they hold at first.\<close>

definition place_descriptors :: "('z) mem_scheme \<Rightarrow> ('z) mem_scheme result" where
  "place_descriptors s =
     (let s = s\<lparr>last_kernel_phaddr := (last_kernel_phaddr s + 3) AND NOT 3\<rparr>;
          pages_count = drop_bit PAGE_BITS (memory_size s + (PAGE_SIZE - 1))
      in bindE (bootheap_allocate (sizeof_page_t * pages_count) s) (\<lambda>(a, s).
           let s = s\<lparr>last_kernel_phaddr := (last_kernel_phaddr s + (PAGE_SIZE - 1)) AND NOT (PAGE_SIZE - 1)\<rparr>
           in Inr (s\<lparr>pages := init_pool ((pages s)\<lparr>pcount := unat pages_count\<rparr>),
                     kernel_vaddr := (\<lambda>i. if i < unat pages_count then 0 else kernel_vaddr s i),
                     kernel_vaddr_refcnt := (\<lambda>i. if i < unat pages_count then 0 else kernel_vaddr_refcnt s i)\<rparr>)))"

definition init_vaddrs :: "('z) mem_scheme \<Rightarrow> ('z) mem_scheme result" where
  "init_vaddrs s =
     bindE (add_vaddrs_to_pool (unat (drop_bit PAGE_BITS (last_kernel_phaddr s))) (unat KERNEL_MEMORY_PAGES)
              (init_pool ((vaddrs s)\<lparr>pcount := unat KERNEL_MEMORY_PAGES\<rparr>)))
       (\<lambda>v. Inr (s\<lparr>vaddrs := v\<rparr>))"

definition mem_init ::
  "'h \<Rightarrow> bytes \<Rightarrow> u32 \<Rightarrow> u32 \<Rightarrow> ('z) mem_scheme \<Rightarrow> ('h, 'y) interrupts_scheme \<Rightarrow>
     (('z) mem_scheme \<times> ('h, 'y) interrupts_scheme) result option" where
  "mem_init pf m mmap_addr mmap_length s i =
     (let i = set_kernel_interrupt_handler 0xe pf i in
      map_option
        (\<lambda>es. bindE (place_descriptors (find_memory_size es s)) (\<lambda>s.
              bindE (add_regions es s) (\<lambda>s.
              bindE (init_vaddrs s) (\<lambda>s. Inr (s, i)))))
        (mmap_entries m mmap_addr (mmap_addr + mmap_length)))"

text \<open>\<^verbatim>\<open>pf_handler\<close>: what it prints before it stops the kernel.\<close>

definition pf_report :: "u32 \<Rightarrow> int_regs \<Rightarrow> kcall list" where
  "pf_report cr2 r =
     [(''Page Fault (14) exception at %04x:%08x'', [ArgNum (r_cs r), ArgNum (r_eip r)]),
      (''Err code %x eflags %08x cr2 %08x'', map ArgNum [err_code r, r_eflags r, cr2]),
      (''eax %08x ecx %08x edx %08x ebx %08x'', map ArgNum [r_eax r, r_ecx r, r_edx r, r_ebx r]),
      (''esp %08x ebp %08x esi %08x edi %08x'', map ArgNum [ret_esp r, r_ebp r, r_esi r, r_edi r]),
      (''ds %04hx es %04hx fs %04hx gs %04hx'', map ArgNum [r_ds r, r_es r, r_fs r, r_gs r])]"

definition pf_handler :: "u32 \<Rightarrow> int_regs \<Rightarrow> kcall list \<times> 's result" where
  "pf_handler cr2 r = (pf_report cr2 r, Inl (Panic ''Unhandled Page Fault''))"

section \<open>Memory for the heap\<close>

text \<open>\<^verbatim>\<open>for(; pages > (1u << order); ++order);\<close> where \<^verbatim>\<open>1u << 32\<close> is undefined.\<close>

function mmap_order :: "nat \<Rightarrow> nat \<Rightarrow> nat result" where
  "mmap_order n order =
     (if 32 \<le> order then Inl BadShift else if 2 ^ order < n then mmap_order n (order + 1) else Inr order)"
  by pat_completeness auto
termination by (relation "measure (\<lambda>(n, k). 32 - k)") auto

declare mmap_order.simps [simp del]

definition heap_mmap :: "u32 \<Rightarrow> ('z) mem_scheme \<Rightarrow> (u32 \<times> ('z) mem_scheme) result" where
  "heap_mmap sz s =
     bindE (mmap_order (unat (drop_bit PAGE_BITS sz)) 0) (\<lambda>order.
     bindE (kernel_page_allocate order s) (\<lambda>(r, s).
       Inr (if r = 0 then - 1 else r, s)))"

definition heap_munmap :: "u32 \<Rightarrow> u32 \<Rightarrow> ('z) mem_scheme \<Rightarrow> (u32 \<times> ('z) mem_scheme) result" where
  "heap_munmap addr sz s = bindE (kernel_page_free addr s) (\<lambda>s. Inr (0, s))"

section \<open>Placing the descriptors\<close>

lemma unat_page_end:
  "unat w + 0xFFF < 2 ^ 32 \<Longrightarrow> unat (PAGE_END w) = 4096 * ((unat w + 0xFFF) div 4096)"
proof -
  assume "unat w + 0xFFF < 2 ^ 32"
  then have "unat (w + 0xFFF) = unat w + 0xFFF" by (simp add: unat_word_ariths)
  moreover have "PAGE_END w = (w + 0xFFF) AND NOT 0xFFF" by (simp add: PAGE_END_def)
  ultimately show ?thesis by (simp only: unat_low_bits)
qed

lemma bootheap_runs:
  assumes "image_mapped s" and "unat (last_kernel_phaddr s) + unat sz \<le> 0x40000000"
  shows "\<exists>t. bootheap_allocate sz s = Inr (VA (last_kernel_phaddr s),
      s\<lparr>last_kernel_phaddr := last_kernel_phaddr s + sz, page_tables := t\<rparr>) \<and>
    image_mapped (s\<lparr>last_kernel_phaddr := last_kernel_phaddr s + sz, page_tables := t\<rparr>)"
proof -
  let ?L = "unat (last_kernel_phaddr s)" and ?L2 = "last_kernel_phaddr s + sz"
  have L2: "unat ?L2 = ?L + unat sz" using assms(2) by (simp add: unat_word_ariths)
  let ?a = "drop_bit 12 (PAGE_END (last_kernel_phaddr s))" and ?b = "drop_bit 12 (PAGE_END ?L2)"
  have a: "unat ?a = (?L + 0xFFF) div 4096" and pa: "unat (PAGE_END (last_kernel_phaddr s)) = 4096 * ((?L + 0xFFF) div 4096)"
    using unat_page_end [of "last_kernel_phaddr s"] assms(2) by (simp_all add: unat_drop_bit)
  have b: "unat ?b = (?L + unat sz + 0xFFF) div 4096"
    using unat_page_end [of ?L2] L2 assms(2) by (simp add: unat_drop_bit)
  have le: "unat ?b \<le> 0x40000" "?a \<le> ?b"
    using assms(2) by (simp_all add: b a word_le_nat_alt div_le_mono)
  have base: "PAGE_END (last_kernel_phaddr s) = 4096 * of_nat (unat ?a)"
  proof -
    have "unat ?a < 0x100000" using le assms(2) a by simp
    then show ?thesis using pa a by (simp add: word_unat_eq_iff unat_page)
  qed
  let ?t = "entries (unat ?a) (unat ?b - unat ?a) (\<lambda>j. PAGE_END (last_kernel_phaddr s) + 3 + 4096 * of_nat j) (page_tables s)"
  let ?s = "s\<lparr>last_kernel_phaddr := ?L2, page_tables := ?t\<rparr>"
  have "bootheap_allocate sz s = Inr (VA (last_kernel_phaddr s), ?s)"
    using map_range_runs [OF le, of "PAGE_END (last_kernel_phaddr s) + 3" "s\<lparr>last_kernel_phaddr := ?L2\<rparr>"]
    by (simp add: bootheap_allocate_def memory_map_kernel_range_def Let_def)
  moreover have "image_mapped ?s"
    unfolding image_mapped_def
  proof (intro allI impI)
    fix i assume "4096 * i < unat (last_kernel_phaddr ?s)"
    then have i: "4096 * i < ?L + unat sz" using L2 by simp
    show "page_tables ?s i = 4096 * of_nat i + 3"
    proof (cases "unat ?a \<le> i")
      case True
      obtain d where d: "i = unat ?a + d" using True le_Suc_ex by blast
      have "i < unat ?b" unfolding b using i by simp
      then have "page_tables ?s i = PAGE_END (last_kernel_phaddr s) + 3 + 4096 * of_nat d"
        by (simp add: entries_def d)
      also have "\<dots> = 4096 * of_nat (unat ?a) + 3 + 4096 * of_nat d"
        using arg_cong [OF base, of "\<lambda>w. w + 3 + 4096 * of_nat d"] .
      also have "\<dots> = 4096 * of_nat i + 3" 
        unfolding d of_nat_add distrib_left by (simp only: add.assoc add.commute add.left_commute)
      finally show ?thesis .
    next
      case False
      then have "4096 * i < ?L" unfolding a by simp
      then show ?thesis using False assms(1) by (simp add: entries_def image_mapped_def)
    qed
  qed
  ultimately show ?thesis by blast
qed

text \<open>The memory after the descriptors are placed: the kernel image has grown over them to the end of
  a page, and stays mapped at its place; the page pool is empty.\<close>

definition descriptors_end :: "('z) mem_scheme \<Rightarrow> nat" where
  "descriptors_end s =
     4096 * ((unat ((last_kernel_phaddr s + 3) AND NOT 3) +
              20 * unat (drop_bit 12 (memory_size s + 0xFFF)) + 0xFFF) div 4096)"

lemma place_descriptors_runs:
  assumes "image_mapped s" and "unat (last_kernel_phaddr s) + 20 * 0x100000 + 0x2000 \<le> 0x40000000"
  shows "\<exists>s'. place_descriptors s = Inr s' \<and> image_mapped s' \<and> unat (last_kernel_phaddr s') = descriptors_end s \<and>
    page_directory s' = page_directory s \<and> memory_size s' = memory_size s \<and> vaddrs s' = vaddrs s \<and>
    pool_inv (pages s') (\<lambda>_. []) {} \<and> pcount (pages s') = unat (drop_bit 12 (memory_size s + 0xFFF)) \<and>
    (\<forall>i<pcount (pages s'). kernel_vaddr s' i = 0 \<and> kernel_vaddr_refcnt s' i = 0) \<and>
    unat (last_kernel_phaddr s) \<le> unat (last_kernel_phaddr s') \<and> unat (last_kernel_phaddr s') \<le> 0x40000000"
proof -
  let ?L = "unat (last_kernel_phaddr s)" and ?n = "drop_bit 12 (memory_size s + 0xFFF)"
  let ?l1 = "(last_kernel_phaddr s + 3) AND NOT 3"
  have n: "unat ?n < 0x100000" using unat_limit(3) [of "memory_size s + 0xFFF"] by (simp only: unat_drop_bit) simp
  have l1: "unat ?l1 = 4 * ((?L + 3) div 4)"
  proof -
    have "unat (last_kernel_phaddr s + 3) = ?L + 3" using assms(2) by (simp add: unat_word_ariths)
    moreover have "(3 :: u32) = mask 2" by (simp add: mask_eq_exp_minus_1)
    ultimately show ?thesis using unat_and_not_mask [of "last_kernel_phaddr s + 3" 2] by simp
  qed
  let ?s1 = "s\<lparr>last_kernel_phaddr := ?l1\<rparr>"
  have im1: "image_mapped ?s1"
    unfolding image_mapped_def
  proof (intro allI impI)
    fix i assume "4096 * i < unat (last_kernel_phaddr ?s1)"
    then have "4096 * i < unat ?l1" by simp
    then have "4 * (1024 * i) < 4 * ((?L + 3) div 4)" unfolding l1 by linarith
    then have "4096 * i < ?L" by simp
    then show "page_tables ?s1 i = 4096 * of_nat i + 3" using assms(1) by (simp add: image_mapped_def)
  qed
  have sz: "unat (20 * ?n) = 20 * unat ?n" using n by (simp add: unat_word_ariths)
  have le: "unat ?l1 + 20 * unat ?n + 0xFFF < 0x40000000" using l1 n assms(2) by simp
  let ?l2 = "?l1 + 20 * ?n"
  have l2: "unat ?l2 = unat ?l1 + 20 * unat ?n" using le by (simp add: unat_word_ariths sz)
  obtain t where t: "bootheap_allocate (20 * ?n) ?s1 = Inr (VA ?l1, s\<lparr>last_kernel_phaddr := ?l2, page_tables := t\<rparr>)"
    "image_mapped (s\<lparr>last_kernel_phaddr := ?l2, page_tables := t\<rparr>)"
    using bootheap_runs [OF im1, of "20 * ?n"] le sz by auto
  let ?l3 = "(?l2 + 0xFFF) AND NOT 0xFFF"
  have l3: "unat ?l3 = descriptors_end s"
    using unat_page_end [of ?l2] le l2 by (simp add: PAGE_END_def descriptors_end_def)
  let ?s3 = "s\<lparr>last_kernel_phaddr := ?l3, page_tables := t, pages := init_pool ((pages s)\<lparr>pcount := unat ?n\<rparr>),
      kernel_vaddr := (\<lambda>i. if i < unat ?n then 0 else kernel_vaddr s i),
      kernel_vaddr_refcnt := (\<lambda>i. if i < unat ?n then 0 else kernel_vaddr_refcnt s i)\<rparr>"
  have "place_descriptors s = Inr ?s3"
    using t(1) by (simp add: place_descriptors_def sizeof_page_t_def Let_def cong: if_cong)
  moreover have "image_mapped ?s3"
    unfolding image_mapped_def
  proof (intro allI impI)
    fix i assume "4096 * i < unat (last_kernel_phaddr ?s3)"
    then have "4096 * i < unat ?l3" by simp
    then have "4096 * i < 4096 * ((unat ?l2 + 0xFFF) div 4096)" unfolding l3 descriptors_end_def l2 by simp
    then have "4096 * i < unat ?l2" by simp
    then show "page_tables ?s3 i = 4096 * of_nat i + 3" using t(2) by (simp add: image_mapped_def)
  qed
  moreover have "?L \<le> descriptors_end s" "descriptors_end s \<le> 0x40000000"
    using le l1 by (simp_all add: descriptors_end_def)
  ultimately show ?thesis
    using pool_inv_init [of "(pages s)\<lparr>pcount := unat ?n\<rparr>"] l3
    by (intro exI [of _ ?s3]) (simp add: init_pool_def fold_init_descriptor)
qed

section \<open>The regions\<close>

definition region_end :: "memory_map \<Rightarrow> nat" where
  "region_end e = unat (base_addr e + map_length e)"

definition region_base :: "memory_map \<Rightarrow> nat" where
  "region_base e = unat (ucast (base_addr e) :: u32)"

text \<open>The pages that a region gives to the pool when the kernel ends at \<open>E\<close>: a region is rounded
  outward to pages.\<close>

definition region_pages :: "nat \<Rightarrow> nat \<Rightarrow> memory_map \<Rightarrow> nat set" where
  "region_pages E ms e =
     (if map_type e = 1 \<and> region_end e < 2 ^ 32 \<and> E < region_end e \<and> region_base e < ms
      then {max (region_base e) E div 4096..<(region_end e + 0xFFF) div 4096} else {})"

lemma drop_bit_32: "drop_bit 32 w = 0 \<longleftrightarrow> unat w < 2 ^ 32" for w :: u64
  by (simp only: word_unat_eq_iff unat_drop_bit) (simp add: div_eq_0_iff)

lemma add_region_runs:
  assumes "pool_inv (pages s) F {}" and "E = unat (last_kernel_phaddr s)" and "ms = unat (memory_size s)"
    and "region_pages E ms e \<subseteq> {..<pcount (pages s)}" and "region_pages E ms e \<inter> free_set F = {}"
  shows "\<exists>p F'. add_region e s = Inr (s\<lparr>pages := p\<rparr>) \<and> pool_inv p F' {} \<and> pcount p = pcount (pages s) \<and>
    free_set F' = free_set F \<union> region_pages E ms e"
proof (cases "map_type e = 1 \<and> region_end e < 2 ^ 32 \<and> E < region_end e \<and> region_base e < ms")
  case False
  then have "region_pages E ms e = {}" by (simp only: region_pages_def if_False)
  moreover have "add_region e s = Inr s"
    using False assms(2,3)
    by (auto simp: add_region_def Let_def drop_bit_32 region_end_def region_base_def word_le_nat_alt not_less)
  ultimately show ?thesis using assms(1) by (intro exI [of _ "pages s"] exI [of _ F]) simp
next
  case True
  let ?from = "max (region_base e) E div 4096" and ?to = "(region_end e + 0xFFF) div 4096"
  have R: "region_pages E ms e = {?from..<?to}" using True by (simp add: region_pages_def)
  have "unat (drop_bit 12 (base_addr e + map_length e + 0xFFF)) = ?to"
    using True unat_limit(4) [of "base_addr e + map_length e"]
    by (simp only: unat_drop_bit) (simp add: region_end_def unat_word_ariths(1))
  then have to: "unat (ucast (drop_bit 12 (base_addr e + map_length e + 0xFFF)) :: u32) = ?to"
  proof -
    have "?to < 2 ^ 32" using True less_mult_imp_div_less [of "region_end e + 0xFFF" "2 ^ 32" 4096] by simp
    then show ?thesis unfolding unat_ucast_32 \<open>_ = ?to\<close> by (rule mod_less)
  qed
  have "from": "unat (drop_bit 12 (if ucast (base_addr e) \<le> last_kernel_phaddr s then last_kernel_phaddr s else ucast (base_addr e))) = ?from"
    by (simp only: unat_drop_bit) (auto simp: assms(2) region_base_def word_le_nat_alt max_def)
  have run: "add_region e s = bindE (add_pages_to_pool ?from ?to (pages s)) (\<lambda>p. Inr (s\<lparr>pages := p\<rparr>))"
    using True assms(2,3) to "from"
    by (auto simp: add_region_def Let_def drop_bit_32 region_end_def region_base_def word_le_nat_alt word_less_nat_alt)
  show ?thesis
  proof (cases "?from < ?to")
    case True
    then have "?to \<le> pcount (pages s)"
      using assms(4) R by (auto simp: subset_iff dest: spec [of _ "?to - 1"])
    then obtain p where "add_pages_to_pool ?from ?to (pages s) = Inr p" "pool_inv p (add_abs ?from ?to F) {}"
      "pcount p = pcount (pages s)" "free_set (add_abs ?from ?to F) = free_set F \<union> {?from..<?to}"
      using pool_inv_add [OF assms(1), of ?to ?from] assms(5) R
      by (auto simp: free_set_def add_pages_to_pool_def Int_commute)
    then show ?thesis using run R by auto
  next
    case False
    then have "add_pages_to_pool ?from ?to (pages s) = Inr (pages s)"
      by (simp add: add_pages_to_pool_def add_to_pool.simps)
    then show ?thesis using run R False assms(1) by (intro exI [of _ "pages s"] exI [of _ F]) simp
  qed
qed

definition apart :: "nat \<Rightarrow> nat \<Rightarrow> memory_map list \<Rightarrow> bool" where
  "apart E ms es \<longleftrightarrow> sorted_wrt (\<lambda>a b. region_pages E ms a \<inter> region_pages E ms b = {}) es"

lemma add_regions_runs:
  assumes "pool_inv (pages s) F {}" and "E = unat (last_kernel_phaddr s)" and "ms = unat (memory_size s)"
    and "\<forall>e\<in>set es. region_pages E ms e \<subseteq> {..<pcount (pages s)}"
    and "\<forall>e\<in>set es. region_pages E ms e \<inter> free_set F = {}" and "apart E ms es"
  shows "\<exists>p F'. add_regions es s = Inr (s\<lparr>pages := p\<rparr>) \<and> pool_inv p F' {} \<and> pcount p = pcount (pages s) \<and>
    free_set F' = free_set F \<union> (\<Union>e\<in>set es. region_pages E ms e)"
  using assms
proof (induction es arbitrary: s F)
  case Nil
  then show ?case by (intro exI [of _ "pages s"] exI [of _ F]) simp
next
  case (Cons e es)
  obtain p F1 where p: "add_region e s = Inr (s\<lparr>pages := p\<rparr>)" "pool_inv p F1 {}" "pcount p = pcount (pages s)"
    "free_set F1 = free_set F \<union> region_pages E ms e"
    using add_region_runs [OF Cons.prems(1-3), of e] Cons.prems(4,5) by auto
  have ap: "apart E ms es" "\<forall>b\<in>set es. region_pages E ms e \<inter> region_pages E ms b = {}"
    using Cons.prems(6) by (simp_all add: apart_def)
  have "\<forall>b\<in>set es. region_pages E ms b \<inter> free_set F1 = {}"
    using ap(2) Cons.prems(5) p(4) by auto
  then obtain q F2 where "add_regions es (s\<lparr>pages := p\<rparr>) = Inr (s\<lparr>pages := q\<rparr>)" "pool_inv q F2 {}" "pcount q = pcount p"
    "free_set F2 = free_set F1 \<union> (\<Union>e\<in>set es. region_pages E ms e)"
    using Cons.IH [of "s\<lparr>pages := p\<rparr>" F1] Cons.prems(2-4) p(2,3) ap(1) by auto
  then show ?case using p by (auto simp: Un_assoc)
qed

text \<open>The size that the first loop finds covers every usable region.\<close>

lemma larger_end_grows: "unat ms \<le> unat (larger_end e ms)"
  by (auto simp: larger_end_def Let_def word_less_nat_alt drop_bit_32 unat_ucast_32)

lemma fold_larger_end:
  "unat ms \<le> unat (fold larger_end es ms) \<and>
   (\<forall>e\<in>set es. map_type e = 1 \<and> region_end e < 2 ^ 32 \<longrightarrow> region_end e \<le> unat (fold larger_end es ms))"
proof (induction es arbitrary: ms)
  case Nil
  then show ?case by simp
next
  case (Cons e es)
  have "map_type e = 1 \<Longrightarrow> region_end e < 2 ^ 32 \<Longrightarrow> region_end e \<le> unat (larger_end e ms)"
    by (auto simp: larger_end_def Let_def word_less_nat_alt drop_bit_32 unat_ucast_32 region_end_def)
  then show ?case
    using Cons [of "larger_end e ms"] larger_end_grows [of ms e] by (auto intro: order_trans)
qed

section \<open>The memory after the constructor\<close>

lemma region_pages_bound:
  assumes "\<And>e. e \<in> set es \<Longrightarrow> map_type e = 1 \<Longrightarrow> region_end e < 2 ^ 32 \<Longrightarrow> region_base e < ms \<Longrightarrow> region_end e \<le> ms"
    and "e \<in> set es"
  shows "region_pages E ms e \<subseteq> {..<(ms + 0xFFF) div 4096}"
proof -
  have "(region_end e + 0xFFF) div 4096 \<le> (ms + 0xFFF) div 4096" if "map_type e = 1" "region_end e < 2 ^ 32" "region_base e < ms"
    using assms that by (intro div_le_mono) simp
  then show ?thesis by (auto simp: region_pages_def)
qed

text \<open>A size that the loader gives must not cut through a usable region.\<close>

definition size_fits :: "nat \<Rightarrow> memory_map list \<Rightarrow> bool" where
  "size_fits ms es \<longleftrightarrow> (\<forall>e\<in>set es. map_type e = 1 \<and> region_end e < 2 ^ 32 \<and> region_base e < ms \<longrightarrow> region_end e \<le> ms)"

lemma size_found_fits:
  assumes "memory_size s = 0"
  shows "size_fits (unat (memory_size (find_memory_size es s))) es"
  using assms fold_larger_end [of 0 es] by (simp add: find_memory_size_def size_fits_def)

lemma region_pages_above: "4096 dvd E \<Longrightarrow> i \<in> region_pages E ms e \<Longrightarrow> E \<le> 4096 * i"
  by (auto simp: region_pages_def split: if_splits elim!: dvdE)

lemma mem_init_runs:
  assumes walk: "mmap_entries m a (a + l) = Some es" and im: "image_mapped s" and dir: "kernel_directory kpt s"
    and room: "unat (last_kernel_phaddr s) + 20 * 0x100000 + 0x2000 \<le> 0x40000000"
    and ms: "ms = unat (memory_size (find_memory_size es s))" "ms \<le> 0xFFFFF000" and fits: "memory_size s = 0 \<or> size_fits ms es" and E: "E = descriptors_end (find_memory_size es s)"
    and "apart E ms es"
  shows "\<exists>s' i' FP FV. mem_init pf m a l s i = Some (Inr (s', i')) \<and>
    pool_inv (pages s') FP {} \<and> free_set FP = (\<Union>e\<in>set es. region_pages E ms e) \<and>
    vm_inv kpt s' FV {} \<and> free_set FV = {E div 4096..<0x40000} \<and>
    pcount (pages s') = (ms + 0xFFF) div 4096 \<and> image_mapped s' \<and> unat (last_kernel_phaddr s') = E \<and>
    (\<forall>i\<in>free_set FP. E \<le> 4096 * i \<and> kernel_vaddr s' i = 0 \<and> kernel_vaddr_refcnt s' i = 0) \<and>
    i' = set_kernel_interrupt_handler 0xe pf i"
proof -
  let ?s = "find_memory_size es s"
  have fm: "last_kernel_phaddr ?s = last_kernel_phaddr s" "page_directory ?s = page_directory s" "image_mapped ?s"
    using im by (simp_all add: find_memory_size_def image_mapped_def)
  have count: "unat (drop_bit 12 (memory_size ?s + 0xFFF)) = (ms + 0xFFF) div 4096"
    using ms by (simp only: unat_drop_bit) (simp add: unat_word_ariths)
  obtain s1 where s1: "place_descriptors ?s = Inr s1" "image_mapped s1" "unat (last_kernel_phaddr s1) = E"
    "page_directory s1 = page_directory s" "unat (memory_size s1) = ms" "pool_inv (pages s1) (\<lambda>_. []) {}"
    "pcount (pages s1) = (ms + 0xFFF) div 4096"
    "\<forall>i<pcount (pages s1). kernel_vaddr s1 i = 0 \<and> kernel_vaddr_refcnt s1 i = 0" "E \<le> 0x40000000"
    using place_descriptors_runs [OF fm(3)] room fm count ms(1) unfolding E by auto
  have E4096: "4096 dvd E" by (simp add: E descriptors_end_def)
  have bound: "region_pages E ms e \<subseteq> {..<pcount (pages s1)}" if "e \<in> set es" for e
    unfolding s1(7) using fits size_found_fits [of s es] that ms(1) by (intro region_pages_bound [of es]) (auto simp: size_fits_def)
  have empty: "free_set (\<lambda>_. []) = {}" by (simp add: free_set_def free_blocks_def)
  obtain p FP where p: "add_regions es s1 = Inr (s1\<lparr>pages := p\<rparr>)" "pool_inv p FP {}" "pcount p = pcount (pages s1)"
    "free_set FP = (\<Union>e\<in>set es. region_pages E ms e)"
    using add_regions_runs [OF s1(6) s1(3) [symmetric] s1(5) [symmetric], of es] bound empty assms(9) by auto
  let ?v = "init_pool ((vaddrs s1)\<lparr>pcount := 0x40000\<rparr>)"
  have vc: "pcount ?v = 0x40000" by (simp add: init_pool_def fold_init_descriptor)
  have "unat (drop_bit 12 (last_kernel_phaddr s1)) = E div 4096" by (simp only: unat_drop_bit s1(3)) simp
  then obtain v where v: "add_vaddrs_to_pool (unat (drop_bit 12 (last_kernel_phaddr s1))) 0x40000 ?v = Inr v"
    "pool_inv v (add_abs (E div 4096) 0x40000 (\<lambda>_. [])) {}" "pcount v = 0x40000"
    "free_set (add_abs (E div 4096) 0x40000 (\<lambda>_. [])) = {E div 4096..<0x40000}"
    using pool_inv_add [OF pool_inv_init, of "0x40000" "(vaddrs s1)\<lparr>pcount := 0x40000\<rparr>" "E div 4096"] vc
    by (auto simp: add_vaddrs_to_pool_def free_set_def free_blocks_def)
  let ?s' = "s1\<lparr>pages := p, vaddrs := v\<rparr>"
  have "mem_init pf m a l s i = Some (Inr (?s', set_kernel_interrupt_handler 0xe pf i))"
    using walk s1(1) p(1) v(1) by (simp add: mem_init_def init_vaddrs_def)
  moreover have "vm_inv kpt ?s' (add_abs (E div 4096) 0x40000 (\<lambda>_. [])) {}"
    using dir s1(4) v by (simp add: vm_inv_def kernel_directory_def)
  moreover have "image_mapped ?s'" using s1(2) by (simp add: image_mapped_def)
  moreover have "E \<le> 4096 * i \<and> kernel_vaddr ?s' i = 0 \<and> kernel_vaddr_refcnt ?s' i = 0" if "i \<in> free_set FP" for i
    using that region_pages_above [OF E4096] bound s1(8) unfolding p(4) by (auto dest!: bound [THEN subsetD])
  ultimately show ?thesis
    using p v(4) s1(3,7)
    by (intro exI [of _ ?s'] exI [of _ "set_kernel_interrupt_handler 0xe pf i"] exI [of _ FP]
        exI [of _ "add_abs (E div 4096) 0x40000 (\<lambda>_. [])"]) simp
qed

text \<open>C25. Booting the memory manager. If the walk over the loader's memory map ends, with entries that ask
  for no page twice, the constructor installs the page fault handler, puts the descriptors of all pages
  below the size of the memory behind the kernel image and leaves two sound pools: the free pages are those at or
  behind the end of these descriptors that a usable region touches, wholly or in part, none of them is mapped, and the
  free virtual pages are those from there to the end of the kernel's gigabyte. The size of the
  memory is what the loader gave, which must not cut through a usable region, or, when it gave none, the
  highest usable address.
\<close>

theorem mem_init_correct:
  assumes "mmap_entries m a (a + l) = Some es" and "image_mapped s" and "kernel_directory kpt s"
    and "unat (last_kernel_phaddr s) + 20 * 0x100000 + 0x2000 \<le> 0x40000000"
    and "ms = unat (memory_size (find_memory_size es s))" and "ms \<le> 0xFFFFF000" and "memory_size s = 0 \<or> size_fits ms es" and "E = descriptors_end (find_memory_size es s)"
    and "apart E ms es"
  shows "\<exists>s' i' FP FV. mem_init pf m a l s i = Some (Inr (s', i')) \<and>
    pool_inv (pages s') FP {} \<and> free_set FP = (\<Union>e\<in>set es. region_pages E ms e) \<and>
    vm_inv kpt s' FV {} \<and> free_set FV = {E div 4096..<0x40000} \<and>
    pcount (pages s') = (ms + 0xFFF) div 4096 \<and> image_mapped s' \<and> unat (last_kernel_phaddr s') = E \<and>
    (\<forall>i\<in>free_set FP. E \<le> 4096 * i \<and> kernel_vaddr s' i = 0 \<and> kernel_vaddr_refcnt s' i = 0) \<and>
    i' = set_kernel_interrupt_handler 0xe pf i"
  by (rule mem_init_runs [OF assms])

section \<open>Example\<close>

text \<open>A map with one usable region, from 1 MB to 128 MB.\<close>

definition one_region :: bytes where
  "one_region = (\<lambda>_. 0)(0 := 20, 6 := 0x10, 14 := 0xF0, 15 := 0x07, 20 := 1)"

definition boot_mem :: mem where
  "boot_mem = kernel_tables\<lparr>memory_size := 0, last_kernel_phaddr := 0x200000\<rparr>"

lemma one_region_entries:
  "mmap_entries one_region 0 (0 + 24) =
     Some [\<lparr>map_size = 20, base_addr = 0x100000, map_length = 0x7F00000, map_type = 1\<rparr>]"
  by (subst mmap_entries.simps, subst mmap_entries.simps)
    (simp add: read_memory_map_def read32_def read64_def one_region_def)

theorem mem_init_correct_witness:
  "\<exists>s' i' FP. mem_init (0 :: nat) one_region 0 24 boot_mem static_interrupts = Some (Inr (s', i')) \<and>
     pool_inv (pages s') FP {} \<and> free_set FP = {0x2A0..<0x8000}"
proof -
  let ?e = "\<lparr>map_size = 20, base_addr = 0x100000, map_length = 0x7F00000, map_type = 1\<rparr>"
  have ms: "fold larger_end [?e] 0 = 0x8000000" by (simp add: larger_end_def)
  have "memory_size (find_memory_size [?e] boot_mem) = 0x8000000" "last_kernel_phaddr (find_memory_size [?e] boot_mem) = 0x200000"
    using ms by (simp_all add: find_memory_size_def boot_mem_def)
  then have E: "descriptors_end (find_memory_size [?e] boot_mem) = 0x2A0000" by (simp add: descriptors_end_def)
  have r: "region_pages 0x2A0000 0x8000000 ?e = {0x2A0..<0x8000}"
    by (simp add: region_pages_def region_end_def region_base_def)
  have "image_mapped boot_mem" by (simp add: boot_mem_def image_mapped_def kernel_tables_def)
  moreover have "kernel_directory 0xC0200000 boot_mem" 
    using kernel_tables_directory by (simp add: boot_mem_def kernel_directory_def)
  moreover have "0x8000000 = unat (memory_size (find_memory_size [?e] boot_mem))"
    using ms by (simp add: find_memory_size_def boot_mem_def)
  ultimately obtain s' i' FP where "mem_init (0 :: nat) one_region 0 24 boot_mem static_interrupts = Some (Inr (s', i'))"
    "pool_inv (pages s') FP {}" "free_set FP = {0x2A0..<0x8000}"
    using mem_init_correct [OF one_region_entries, of boot_mem "0xC0200000" "0x8000000" "0x2A0000" "0 :: nat" static_interrupts] E r
    by (auto simp: boot_mem_def apart_def)
  then show ?thesis by blast
qed

end
