(* ===== verification/Malloc.thy ===== *)
theory Malloc
  imports MemInit
begin

text \<open>
  The chunks and bins of \<^verbatim>\<open>libc/malloc/malloc.c\<close> as \<^verbatim>\<open>libc/heap.c\<close> configures it: no locks, no
  footers, no \<^verbatim>\<open>sbrk\<close>, no \<^verbatim>\<open>mremap\<close>, the run-time checks on, \<^verbatim>\<open>ABORT\<close> freezing the system and
  asserts off. Pointers are addresses in a memory of words; all accesses of the code are to aligned
  words. The arrays of \<^verbatim>\<open>_gm_\<close> whose addresses are stored in pointers (\<^verbatim>\<open>smallbins\<close>, \<^verbatim>\<open>treebins\<close> and
  \<^verbatim>\<open>seg\<close>) lie in that memory behind the address \<open>gm\<close> of \<^verbatim>\<open>_gm_\<close>; its other fields, and those of
  \<^verbatim>\<open>mparams\<close>, are fields of the record. The record extends the kernel's memory management, from
  which the heap takes its pages.
\<close>

section \<open>Sizes and alignments\<close>

definition MALLOC_ALIGNMENT :: u32 where "MALLOC_ALIGNMENT = 8"
definition CHUNK_ALIGN_MASK :: u32 where "CHUNK_ALIGN_MASK = MALLOC_ALIGNMENT - 1"
definition MCHUNK_SIZE :: u32 where "MCHUNK_SIZE = 16"
definition CHUNK_OVERHEAD :: u32 where "CHUNK_OVERHEAD = 4"
definition MMAP_CHUNK_OVERHEAD :: u32 where "MMAP_CHUNK_OVERHEAD = 8"
definition MMAP_FOOT_PAD :: u32 where "MMAP_FOOT_PAD = 16"
definition MIN_CHUNK_SIZE :: u32 where "MIN_CHUNK_SIZE = (MCHUNK_SIZE + CHUNK_ALIGN_MASK) AND NOT CHUNK_ALIGN_MASK"
definition MAX_REQUEST :: u32 where "MAX_REQUEST = push_bit 2 (- MIN_CHUNK_SIZE)"
definition MIN_REQUEST :: u32 where "MIN_REQUEST = MIN_CHUNK_SIZE - CHUNK_OVERHEAD - 1"
definition MFAIL :: u32 where "MFAIL = - 1"
definition PINUSE_BIT :: u32 where "PINUSE_BIT = 1"
definition CINUSE_BIT :: u32 where "CINUSE_BIT = 2"
definition FLAG4_BIT :: u32 where "FLAG4_BIT = 4"
definition INUSE_BITS :: u32 where "INUSE_BITS = PINUSE_BIT OR CINUSE_BIT"
definition FLAG_BITS :: u32 where "FLAG_BITS = PINUSE_BIT OR CINUSE_BIT OR FLAG4_BIT"
definition FENCEPOST_HEAD :: u32 where "FENCEPOST_HEAD = INUSE_BITS OR 4"
definition USE_MMAP_BIT :: u32 where "USE_MMAP_BIT = 1"
definition USE_NONCONTIGUOUS_BIT :: u32 where "USE_NONCONTIGUOUS_BIT = 4"
definition EXTERN_BIT :: u32 where "EXTERN_BIT = 8"
definition SMALLBIN_SHIFT :: nat where "SMALLBIN_SHIFT = 3"
definition TREEBIN_SHIFT :: nat where "TREEBIN_SHIFT = 8"
definition NSMALLBINS :: nat where "NSMALLBINS = 32"
definition NTREEBINS :: nat where "NTREEBINS = 32"
definition MAX_SMALL_REQUEST :: u32 where
  "MAX_SMALL_REQUEST = push_bit TREEBIN_SHIFT 1 - 1 - CHUNK_ALIGN_MASK - CHUNK_OVERHEAD"
definition DEFAULT_GRANULARITY :: u32 where "DEFAULT_GRANULARITY = 64 * 1024"
definition DEFAULT_TRIM_THRESHOLD :: u32 where "DEFAULT_TRIM_THRESHOLD = 2 * 1024 * 1024"
definition DEFAULT_MMAP_THRESHOLD :: u32 where "DEFAULT_MMAP_THRESHOLD = 256 * 1024"
definition MAX_RELEASE_CHECK_RATE :: u32 where "MAX_RELEASE_CHECK_RATE = 4095"
definition malloc_getpagesize :: u32 where "malloc_getpagesize = 4096"

lemmas malloc_constants =
  MALLOC_ALIGNMENT_def CHUNK_ALIGN_MASK_def MCHUNK_SIZE_def CHUNK_OVERHEAD_def MMAP_CHUNK_OVERHEAD_def MMAP_FOOT_PAD_def
  MIN_CHUNK_SIZE_def MAX_REQUEST_def MIN_REQUEST_def MFAIL_def PINUSE_BIT_def CINUSE_BIT_def FLAG4_BIT_def INUSE_BITS_def
  FLAG_BITS_def FENCEPOST_HEAD_def USE_MMAP_BIT_def USE_NONCONTIGUOUS_BIT_def EXTERN_BIT_def SMALLBIN_SHIFT_def
  TREEBIN_SHIFT_def NSMALLBINS_def NTREEBINS_def MAX_SMALL_REQUEST_def DEFAULT_GRANULARITY_def
  DEFAULT_TRIM_THRESHOLD_def DEFAULT_MMAP_THRESHOLD_def MAX_RELEASE_CHECK_RATE_def malloc_getpagesize_def

definition is_aligned :: "u32 \<Rightarrow> bool" where
  "is_aligned a \<longleftrightarrow> a AND CHUNK_ALIGN_MASK = 0"

definition align_offset :: "u32 \<Rightarrow> u32" where
  "align_offset a =
     (if a AND CHUNK_ALIGN_MASK = 0 then 0
      else (MALLOC_ALIGNMENT - (a AND CHUNK_ALIGN_MASK)) AND CHUNK_ALIGN_MASK)"

definition chunk2mem :: "u32 \<Rightarrow> u32" where
  "chunk2mem p = p + 8"

definition mem2chunk :: "u32 \<Rightarrow> u32" where
  "mem2chunk a = a - 8"

definition align_as_chunk :: "u32 \<Rightarrow> u32" where
  "align_as_chunk a = a + align_offset (chunk2mem a)"

definition pad_request :: "u32 \<Rightarrow> u32" where
  "pad_request req = (req + CHUNK_OVERHEAD + CHUNK_ALIGN_MASK) AND NOT CHUNK_ALIGN_MASK"

definition request2size :: "u32 \<Rightarrow> u32" where
  "request2size req = (if req < MIN_REQUEST then MIN_CHUNK_SIZE else pad_request req)"

text \<open>\<^verbatim>\<open>TOP_FOOT_SIZE\<close>; the 16 is \<^verbatim>\<open>sizeof(struct malloc_segment)\<close>.\<close>

definition TOP_FOOT_SIZE :: u32 where
  "TOP_FOOT_SIZE = align_offset (chunk2mem 0) + pad_request 16 + MIN_CHUNK_SIZE"

definition SYS_ALLOC_PADDING :: u32 where
  "SYS_ALLOC_PADDING = TOP_FOOT_SIZE + MALLOC_ALIGNMENT"

section \<open>The state\<close>

text \<open>
  The fields of \<^verbatim>\<open>struct malloc_state\<close> and, with \<open>mp\<close>, of \<^verbatim>\<open>struct malloc_params\<close>. \<open>seed\<close> is the address of
  the local variable from which the magic number is made.
\<close>

record heap = mem +
  gm :: u32
  words :: "u32 \<Rightarrow> u32"
  m_smallmap :: u32
  m_treemap :: u32
  m_dvsize :: u32
  m_topsize :: u32
  m_least_addr :: u32
  m_dv :: u32
  m_top :: u32
  m_trim_check :: u32
  m_release_checks :: u32
  m_magic :: u32
  m_footprint :: u32
  m_max_footprint :: u32
  m_footprint_limit :: u32
  m_mflags :: u32
  mp_magic :: u32
  mp_page_size :: u32
  mp_granularity :: u32
  mp_mmap_threshold :: u32
  mp_trim_threshold :: u32
  mp_default_mflags :: u32
  seed :: u32

definition store :: "u32 \<Rightarrow> u32 \<Rightarrow> heap \<Rightarrow> heap" where
  "store a v h = h\<lparr>words := (words h)(a := v)\<rparr>"

text \<open>\<^verbatim>\<open>struct malloc_chunk\<close> and \<^verbatim>\<open>struct malloc_tree_chunk\<close>.\<close>

definition prev_foot :: "heap \<Rightarrow> u32 \<Rightarrow> u32" where "prev_foot h p = words h p"
definition head :: "heap \<Rightarrow> u32 \<Rightarrow> u32" where "head h p = words h (p + 4)"
definition fd :: "heap \<Rightarrow> u32 \<Rightarrow> u32" where "fd h p = words h (p + 8)"
definition bk :: "heap \<Rightarrow> u32 \<Rightarrow> u32" where "bk h p = words h (p + 12)"
definition child_slot :: "u32 \<Rightarrow> u32 \<Rightarrow> u32" where "child_slot p i = p + 16 + 4 * i"
definition child :: "heap \<Rightarrow> u32 \<Rightarrow> u32 \<Rightarrow> u32" where "child h p i = words h (child_slot p i)"
definition parent :: "heap \<Rightarrow> u32 \<Rightarrow> u32" where "parent h p = words h (p + 24)"
definition index :: "heap \<Rightarrow> u32 \<Rightarrow> u32" where "index h p = words h (p + 28)"

definition set_prev_foot :: "u32 \<Rightarrow> u32 \<Rightarrow> heap \<Rightarrow> heap" where "set_prev_foot p = store p"
definition set_head :: "u32 \<Rightarrow> u32 \<Rightarrow> heap \<Rightarrow> heap" where "set_head p = store (p + 4)"
definition set_fd :: "u32 \<Rightarrow> u32 \<Rightarrow> heap \<Rightarrow> heap" where "set_fd p = store (p + 8)"
definition set_bk :: "u32 \<Rightarrow> u32 \<Rightarrow> heap \<Rightarrow> heap" where "set_bk p = store (p + 12)"
definition set_child :: "u32 \<Rightarrow> u32 \<Rightarrow> u32 \<Rightarrow> heap \<Rightarrow> heap" where "set_child p i = store (child_slot p i)"
definition set_parent :: "u32 \<Rightarrow> u32 \<Rightarrow> heap \<Rightarrow> heap" where "set_parent p = store (p + 24)"
definition set_index :: "u32 \<Rightarrow> u32 \<Rightarrow> heap \<Rightarrow> heap" where "set_index p = store (p + 28)"

text \<open>\<^verbatim>\<open>struct malloc_segment\<close>.\<close>

definition seg_base :: "heap \<Rightarrow> u32 \<Rightarrow> u32" where "seg_base h sp = words h sp"
definition seg_size :: "heap \<Rightarrow> u32 \<Rightarrow> u32" where "seg_size h sp = words h (sp + 4)"
definition seg_next :: "heap \<Rightarrow> u32 \<Rightarrow> u32" where "seg_next h sp = words h (sp + 8)"
definition seg_sflags :: "heap \<Rightarrow> u32 \<Rightarrow> u32" where "seg_sflags h sp = words h (sp + 12)"

definition set_seg_base :: "u32 \<Rightarrow> u32 \<Rightarrow> heap \<Rightarrow> heap" where "set_seg_base sp = store sp"
definition set_seg_size :: "u32 \<Rightarrow> u32 \<Rightarrow> heap \<Rightarrow> heap" where "set_seg_size sp = store (sp + 4)"
definition set_seg_next :: "u32 \<Rightarrow> u32 \<Rightarrow> heap \<Rightarrow> heap" where "set_seg_next sp = store (sp + 8)"
definition set_seg_sflags :: "u32 \<Rightarrow> u32 \<Rightarrow> heap \<Rightarrow> heap" where "set_seg_sflags sp = store (sp + 12)"

text \<open>The offsets of \<^verbatim>\<open>smallbins\<close>, \<^verbatim>\<open>treebins\<close> and \<^verbatim>\<open>seg\<close> in \<^verbatim>\<open>struct malloc_state\<close>.\<close>

definition smallbin_at :: "heap \<Rightarrow> nat \<Rightarrow> u32" where
  "smallbin_at h i = gm h + 40 + 8 * of_nat i"

definition treebin_at :: "heap \<Rightarrow> nat \<Rightarrow> u32" where
  "treebin_at h i = gm h + 304 + 4 * of_nat i"

definition m_seg :: "heap \<Rightarrow> u32" where
  "m_seg h = gm h + 448"

definition is_mmapped_segment :: "heap \<Rightarrow> u32 \<Rightarrow> bool" where
  "is_mmapped_segment h sp \<longleftrightarrow> seg_sflags h sp AND USE_MMAP_BIT \<noteq> 0"

definition is_extern_segment :: "heap \<Rightarrow> u32 \<Rightarrow> bool" where
  "is_extern_segment h sp \<longleftrightarrow> seg_sflags h sp AND EXTERN_BIT \<noteq> 0"

definition segment_holds :: "heap \<Rightarrow> u32 \<Rightarrow> u32 \<Rightarrow> bool" where
  "segment_holds h s a \<longleftrightarrow> seg_base h s \<le> a \<and> a < seg_base h s + seg_size h s"

definition is_initialized :: "heap \<Rightarrow> bool" where
  "is_initialized h \<longleftrightarrow> m_top h \<noteq> 0"

definition use_mmap :: "heap \<Rightarrow> bool" where
  "use_mmap h \<longleftrightarrow> m_mflags h AND USE_MMAP_BIT \<noteq> 0"

definition enable_mmap :: "heap \<Rightarrow> heap" where
  "enable_mmap h = h\<lparr>m_mflags := m_mflags h OR USE_MMAP_BIT\<rparr>"

definition disable_mmap :: "heap \<Rightarrow> heap" where
  "disable_mmap h = h\<lparr>m_mflags := m_mflags h AND NOT USE_MMAP_BIT\<rparr>"

definition page_align :: "heap \<Rightarrow> u32 \<Rightarrow> u32" where
  "page_align h s = (s + (mp_page_size h - 1)) AND NOT (mp_page_size h - 1)"

definition granularity_align :: "heap \<Rightarrow> u32 \<Rightarrow> u32" where
  "granularity_align h s = (s + (mp_granularity h - 1)) AND NOT (mp_granularity h - 1)"

definition mmap_align :: "heap \<Rightarrow> u32 \<Rightarrow> u32" where
  "mmap_align h s = page_align h s"

definition should_trim :: "heap \<Rightarrow> u32 \<Rightarrow> bool" where
  "should_trim h s \<longleftrightarrow> m_trim_check h < s"

section \<open>Heads and feet\<close>

definition cinuse :: "heap \<Rightarrow> u32 \<Rightarrow> bool" where "cinuse h p \<longleftrightarrow> head h p AND CINUSE_BIT \<noteq> 0"
definition pinuse :: "heap \<Rightarrow> u32 \<Rightarrow> bool" where "pinuse h p \<longleftrightarrow> head h p AND PINUSE_BIT \<noteq> 0"
definition is_inuse :: "heap \<Rightarrow> u32 \<Rightarrow> bool" where "is_inuse h p \<longleftrightarrow> head h p AND INUSE_BITS \<noteq> PINUSE_BIT"
definition is_mmapped :: "heap \<Rightarrow> u32 \<Rightarrow> bool" where "is_mmapped h p \<longleftrightarrow> head h p AND INUSE_BITS = 0"
definition chunksize :: "heap \<Rightarrow> u32 \<Rightarrow> u32" where "chunksize h p = head h p AND NOT FLAG_BITS"
definition next_chunk :: "heap \<Rightarrow> u32 \<Rightarrow> u32" where "next_chunk h p = p + (head h p AND NOT FLAG_BITS)"
definition prev_chunk :: "heap \<Rightarrow> u32 \<Rightarrow> u32" where "prev_chunk h p = p - prev_foot h p"
definition next_pinuse :: "heap \<Rightarrow> u32 \<Rightarrow> bool" where "next_pinuse h p \<longleftrightarrow> head h (next_chunk h p) AND PINUSE_BIT \<noteq> 0"

definition overhead_for :: "heap \<Rightarrow> u32 \<Rightarrow> u32" where
  "overhead_for h p = (if is_mmapped h p then MMAP_CHUNK_OVERHEAD else CHUNK_OVERHEAD)"

definition calloc_must_clear :: "heap \<Rightarrow> u32 \<Rightarrow> bool" where
  "calloc_must_clear h p \<longleftrightarrow> \<not> is_mmapped h p"

definition clear_pinuse :: "u32 \<Rightarrow> heap \<Rightarrow> heap" where
  "clear_pinuse p h = set_head p (head h p AND NOT PINUSE_BIT) h"

definition set_foot :: "u32 \<Rightarrow> u32 \<Rightarrow> heap \<Rightarrow> heap" where
  "set_foot p s = set_prev_foot (p + s) s"

definition set_size_and_pinuse_of_free_chunk :: "u32 \<Rightarrow> u32 \<Rightarrow> heap \<Rightarrow> heap" where
  "set_size_and_pinuse_of_free_chunk p s h = set_foot p s (set_head p (s OR PINUSE_BIT) h)"

definition set_free_with_pinuse :: "u32 \<Rightarrow> u32 \<Rightarrow> u32 \<Rightarrow> heap \<Rightarrow> heap" where
  "set_free_with_pinuse p s n h = set_size_and_pinuse_of_free_chunk p s (clear_pinuse n h)"

definition set_pinuse :: "u32 \<Rightarrow> heap \<Rightarrow> heap" where
  "set_pinuse p h = set_head p (head h p OR PINUSE_BIT) h"

definition set_inuse :: "u32 \<Rightarrow> u32 \<Rightarrow> heap \<Rightarrow> heap" where
  "set_inuse p s h = set_pinuse (p + s) (set_head p ((head h p AND PINUSE_BIT) OR s OR CINUSE_BIT) h)"

definition set_inuse_and_pinuse :: "u32 \<Rightarrow> u32 \<Rightarrow> heap \<Rightarrow> heap" where
  "set_inuse_and_pinuse p s h = set_pinuse (p + s) (set_head p (s OR PINUSE_BIT OR CINUSE_BIT) h)"

definition set_size_and_pinuse_of_inuse_chunk :: "u32 \<Rightarrow> u32 \<Rightarrow> heap \<Rightarrow> heap" where
  "set_size_and_pinuse_of_inuse_chunk p s = set_head p (s OR PINUSE_BIT OR CINUSE_BIT)"

text \<open>The run-time checks.\<close>

definition ok_address :: "heap \<Rightarrow> u32 \<Rightarrow> bool" where "ok_address h a \<longleftrightarrow> m_least_addr h \<le> a"
definition ok_next :: "u32 \<Rightarrow> u32 \<Rightarrow> bool" where "ok_next p n \<longleftrightarrow> p < n"

section \<open>Bins and bin maps\<close>

definition is_small :: "u32 \<Rightarrow> bool" where
  "is_small s \<longleftrightarrow> drop_bit SMALLBIN_SHIFT s < of_nat NSMALLBINS"

definition small_index :: "u32 \<Rightarrow> nat" where
  "small_index s = unat (drop_bit SMALLBIN_SHIFT s)"

definition small_index2size :: "nat \<Rightarrow> u32" where
  "small_index2size i = push_bit SMALLBIN_SHIFT (of_nat i)"

text \<open>The compiler's count of leading and of trailing zeros.\<close>

definition builtin_clz :: "u32 \<Rightarrow> nat" where
  "builtin_clz x = length (takeWhile (\<lambda>i. \<not> bit x i) (rev [0..<32]))"

definition builtin_ctz :: "u32 \<Rightarrow> nat" where
  "builtin_ctz x = length (takeWhile (\<lambda>i. \<not> bit x i) [0..<32])"

definition compute_tree_index :: "u32 \<Rightarrow> nat" where
  "compute_tree_index s =
     (let x = drop_bit TREEBIN_SHIFT s in
      if x = 0 then 0
      else if 0xFFFF < x then NTREEBINS - 1
      else
        let k = 31 - builtin_clz x in
        2 * k + unat (drop_bit (k + (TREEBIN_SHIFT - 1)) s AND 1))"

definition leftshift_for_tree_index :: "nat \<Rightarrow> nat" where
  "leftshift_for_tree_index i = (if i = NTREEBINS - 1 then 0 else 31 - (i div 2 + TREEBIN_SHIFT - 2))"

definition minsize_for_tree_index :: "nat \<Rightarrow> u32" where
  "minsize_for_tree_index i =
     push_bit (i div 2 + TREEBIN_SHIFT) 1 OR push_bit (i div 2 + TREEBIN_SHIFT - 1) (of_nat (i mod 2))"

definition idx2bit :: "nat \<Rightarrow> u32" where "idx2bit i = push_bit i 1"
definition mark_smallmap :: "nat \<Rightarrow> heap \<Rightarrow> heap" where "mark_smallmap i h = h\<lparr>m_smallmap := m_smallmap h OR idx2bit i\<rparr>"
definition clear_smallmap :: "nat \<Rightarrow> heap \<Rightarrow> heap" where "clear_smallmap i h = h\<lparr>m_smallmap := m_smallmap h AND NOT (idx2bit i)\<rparr>"
definition smallmap_is_marked :: "heap \<Rightarrow> nat \<Rightarrow> bool" where "smallmap_is_marked h i \<longleftrightarrow> m_smallmap h AND idx2bit i \<noteq> 0"
definition mark_treemap :: "nat \<Rightarrow> heap \<Rightarrow> heap" where "mark_treemap i h = h\<lparr>m_treemap := m_treemap h OR idx2bit i\<rparr>"
definition clear_treemap :: "nat \<Rightarrow> heap \<Rightarrow> heap" where "clear_treemap i h = h\<lparr>m_treemap := m_treemap h AND NOT (idx2bit i)\<rparr>"
definition treemap_is_marked :: "heap \<Rightarrow> nat \<Rightarrow> bool" where "treemap_is_marked h i \<longleftrightarrow> m_treemap h AND idx2bit i \<noteq> 0"
definition least_bit :: "u32 \<Rightarrow> u32" where "least_bit x = x AND - x"
definition left_bits :: "u32 \<Rightarrow> u32" where "left_bits x = push_bit 1 x OR - push_bit 1 x"
definition compute_bit2idx :: "u32 \<Rightarrow> nat" where "compute_bit2idx x = builtin_ctz x"

end
