(* ===== verification/MallocBins.thy ===== *)
theory MallocBins
  imports Malloc
begin

text \<open>
  Linking chunks into small bins and trees and taking them out, as the macros of \<^verbatim>\<open>malloc.c\<close> do it. A
  failed run-time check freezes the system. The loops down a tree need not end on a damaged heap.
\<close>

abbreviation abort :: "'a run" where
  "abort \<equiv> Some (Inl Frozen)"

section \<open>Small bins\<close>

definition insert_small_chunk :: "u32 \<Rightarrow> u32 \<Rightarrow> heap \<Rightarrow> heap run" where
  "insert_small_chunk p s h =
     (let i = small_index s; b = smallbin_at h i;
          link = (\<lambda>f h. ret (set_bk p b (set_fd p f (set_bk f p (set_fd b p h)))))
      in if \<not> smallmap_is_marked h i then link b (mark_smallmap i h)
         else if ok_address h (fd h b) then link (fd h b) h
         else abort)"

definition unlink_small_chunk :: "u32 \<Rightarrow> u32 \<Rightarrow> heap \<Rightarrow> heap run" where
  "unlink_small_chunk p s h =
     (let f = fd h p; b = bk h p; i = small_index s in
      if f = smallbin_at h i \<or> ok_address h f \<and> bk h f = p then
        if b = f then ret (clear_smallmap i h)
        else if b = smallbin_at h i \<or> ok_address h b \<and> fd h b = p then ret (set_fd b f (set_bk f b h))
        else abort
      else abort)"

definition unlink_first_small_chunk :: "u32 \<Rightarrow> u32 \<Rightarrow> nat \<Rightarrow> heap \<Rightarrow> heap run" where
  "unlink_first_small_chunk b p i h =
     (let f = fd h p in
      if b = f then ret (clear_smallmap i h)
      else if ok_address h f \<and> bk h f = p then ret (set_fd b f (set_bk f b h))
      else abort)"

definition replace_dv :: "u32 \<Rightarrow> u32 \<Rightarrow> heap \<Rightarrow> heap run" where
  "replace_dv p s h =
     bindR (if m_dvsize h \<noteq> 0 then insert_small_chunk (m_dv h) (m_dvsize h) h else ret h)
       (\<lambda>h. ret (h\<lparr>m_dvsize := s, m_dv := p\<rparr>))"

section \<open>Trees\<close>

text \<open>\<^verbatim>\<open>(K >> (SIZE_T_BITSIZE-SIZE_T_ONE)) & 1\<close>.\<close>

definition sign_bit :: "u32 \<Rightarrow> u32" where
  "sign_bit k = drop_bit 31 k AND 1"

partial_function (option) insert_large_loop :: "u32 \<Rightarrow> u32 \<Rightarrow> u32 \<Rightarrow> u32 \<Rightarrow> heap \<Rightarrow> heap run" where
  "insert_large_loop x s t k h =
     (if chunksize h t \<noteq> s then
        let c = child_slot t (sign_bit k) in
        if words h c \<noteq> 0 then insert_large_loop x s (words h c) (push_bit 1 k) h
        else if ok_address h c then ret (set_fd x x (set_bk x x (set_parent x t (store c x h))))
        else abort
      else
        let f = fd h t in
        if ok_address h t \<and> ok_address h f then
          ret (set_parent x 0 (set_bk x t (set_fd x f (set_fd t x (set_bk f x h)))))
        else abort)"

definition insert_large_chunk :: "u32 \<Rightarrow> u32 \<Rightarrow> heap \<Rightarrow> heap run" where
  "insert_large_chunk x s h =
     (let i = compute_tree_index s;
          slot = treebin_at h i;
          h = set_child x 0 0 (set_child x 1 0 (set_index x (of_nat i) h))
      in if \<not> treemap_is_marked h i then
           ret (set_fd x x (set_bk x x (set_parent x slot (store slot x (mark_treemap i h)))))
         else insert_large_loop x s (words h slot) (push_bit (leftshift_for_tree_index i) s) h)"

text \<open>The walk to the rightmost leaf below \<open>r\<close>, with the slot that points to it.\<close>

partial_function (option) rightmost_leaf :: "heap \<Rightarrow> u32 \<Rightarrow> u32 \<Rightarrow> (u32 \<times> u32) option" where
  "rightmost_leaf h rp r =
     (if child h r 1 \<noteq> 0 then rightmost_leaf h (child_slot r 1) (child h r 1)
      else if child h r 0 \<noteq> 0 then rightmost_leaf h (child_slot r 0) (child h r 0)
      else Some (rp, r))"

text \<open>The first part of \<^verbatim>\<open>unlink_large_chunk\<close>: the node that takes the place of \<open>x\<close>, or zero.\<close>

definition unlink_replacement :: "u32 \<Rightarrow> heap \<Rightarrow> (u32 \<times> heap) run" where
  "unlink_replacement x h =
     (if bk h x \<noteq> x then
        let f = fd h x; r = bk h x in
        if ok_address h f \<and> bk h f = x \<and> fd h r = x then ret (r, set_fd r f (set_bk f r h))
        else abort
      else if child h x 1 \<noteq> 0 \<or> child h x 0 \<noteq> 0 then
        let i = (if child h x 1 \<noteq> 0 then 1 else 0) in
        Option.bind (rightmost_leaf h (child_slot x i) (child h x i)) (\<lambda>(rp, r).
          if ok_address h rp then ret (r, store rp 0 h) else abort)
      else ret (0, h))"

text \<open>\<open>R\<close> takes over a child of \<open>X\<close>.\<close>

definition adopt_child :: "u32 \<Rightarrow> u32 \<Rightarrow> u32 \<Rightarrow> heap \<Rightarrow> heap run" where
  "adopt_child x r i h =
     (let c = child h x i in
      if c \<noteq> 0 then
        if ok_address h c then ret (set_parent c r (set_child r i c h)) else abort
      else ret h)"

text \<open>The second part: \<open>R\<close> is put in the place of \<open>X\<close> in the tree.\<close>

definition replace_in_tree :: "u32 \<Rightarrow> u32 \<Rightarrow> u32 \<Rightarrow> heap \<Rightarrow> heap run" where
  "replace_in_tree x xp r h =
     (let i = unat (index h x); slot = treebin_at h i in
      bindR
        (if x = words h slot then
           let h = store slot r h in ret (if r = 0 then clear_treemap i h else h)
         else if ok_address h xp then
           ret (if child h xp 0 = x then set_child xp 0 r h else set_child xp 1 r h)
         else abort)
        (\<lambda>h.
          if r \<noteq> 0 then
            if ok_address h r then
              bindR (adopt_child x r 0 (set_parent r xp h)) (adopt_child x r 1)
            else abort
          else ret h))"

definition unlink_large_chunk :: "u32 \<Rightarrow> heap \<Rightarrow> heap run" where
  "unlink_large_chunk x h =
     (let xp = parent h x in
      bindR (unlink_replacement x h) (\<lambda>(r, h).
        if xp \<noteq> 0 then replace_in_tree x xp r h else ret h))"

definition insert_chunk :: "u32 \<Rightarrow> u32 \<Rightarrow> heap \<Rightarrow> heap run" where
  "insert_chunk p s h = (if is_small s then insert_small_chunk p s h else insert_large_chunk p s h)"

definition unlink_chunk :: "u32 \<Rightarrow> u32 \<Rightarrow> heap \<Rightarrow> heap run" where
  "unlink_chunk p s h = (if is_small s then unlink_small_chunk p s h else unlink_large_chunk p h)"

definition leftmost_child :: "heap \<Rightarrow> u32 \<Rightarrow> u32" where
  "leftmost_child h t = (if child h t 0 \<noteq> 0 then child h t 0 else child h t 1)"

end
