(* ===== verification/MallocSys.thy ===== *)
theory MallocSys
  imports MallocBins
begin

text \<open>
  How the heap gets memory from the kernel and gives it back: the parameters, the segments, the top
  chunk, direct mappings. \<^verbatim>\<open>CALL_MMAP\<close> and \<^verbatim>\<open>CALL_MUNMAP\<close> are the functions of \<^verbatim>\<open>libc/heap.c\<close>. The parts
  of \<^verbatim>\<open>sys_alloc\<close> and \<^verbatim>\<open>sys_trim\<close> that use \<^verbatim>\<open>sbrk\<close> are compiled away.
\<close>

abbreviation call_mmap :: "u32 \<Rightarrow> heap \<Rightarrow> (u32 \<times> heap) run" where
  "call_mmap s h \<equiv> Some (heap_mmap s h)"

abbreviation call_munmap :: "u32 \<Rightarrow> u32 \<Rightarrow> heap \<Rightarrow> (u32 \<times> heap) run" where
  "call_munmap a s h \<equiv> Some (heap_munmap a s h)"

section \<open>Parameters\<close>

definition init_mparams :: "heap \<Rightarrow> heap" where
  "init_mparams h =
     (if mp_magic h = 0 then
        h\<lparr>mp_granularity := DEFAULT_GRANULARITY, mp_page_size := malloc_getpagesize,
          mp_mmap_threshold := DEFAULT_MMAP_THRESHOLD, mp_trim_threshold := DEFAULT_TRIM_THRESHOLD,
          mp_default_mflags := USE_MMAP_BIT OR USE_NONCONTIGUOUS_BIT,
          m_mflags := USE_MMAP_BIT OR USE_NONCONTIGUOUS_BIT,
          mp_magic := ((seed h XOR 0x55555555) OR 8) AND NOT 7\<rparr>
      else h)"

definition ensure_initialization :: "heap \<Rightarrow> heap" where
  "ensure_initialization h = (if mp_magic h \<noteq> 0 then h else init_mparams h)"

text \<open>\<^verbatim>\<open>change_mparam\<close>; the arguments are an \<^verbatim>\<open>int\<close> each.\<close>

definition change_mparam :: "u32 \<Rightarrow> u32 \<Rightarrow> heap \<Rightarrow> u32 \<times> heap" where
  "change_mparam param_number val h =
     (let h = ensure_initialization h in
      if param_number = - 1 then (1, h\<lparr>mp_trim_threshold := val\<rparr>)
      else if param_number = - 2 then
        if mp_page_size h \<le> val \<and> val AND (val - 1) = 0 then (1, h\<lparr>mp_granularity := val\<rparr>) else (0, h)
      else if param_number = - 3 then (1, h\<lparr>mp_mmap_threshold := val\<rparr>)
      else (0, h))"

section \<open>Segments\<close>

partial_function (option) segment_from :: "heap \<Rightarrow> u32 \<Rightarrow> u32 \<Rightarrow> u32 option" where
  "segment_from h a sp =
     (if segment_holds h sp a then Some sp
      else if seg_next h sp = 0 then Some 0
      else segment_from h a (seg_next h sp))"

definition segment_holding :: "heap \<Rightarrow> u32 \<Rightarrow> u32 run" where
  "segment_holding h a = Option.bind (segment_from h a (m_seg h)) ret"

partial_function (option) segment_link_from :: "heap \<Rightarrow> u32 \<Rightarrow> u32 \<Rightarrow> bool option" where
  "segment_link_from h ss sp =
     (if segment_holds h ss sp then Some True
      else if seg_next h sp = 0 then Some False
      else segment_link_from h ss (seg_next h sp))"

definition has_segment_link :: "heap \<Rightarrow> u32 \<Rightarrow> bool run" where
  "has_segment_link h ss = Option.bind (segment_link_from h ss (m_seg h)) ret"

text \<open>The two searches of \<^verbatim>\<open>sys_alloc\<close>: a segment that ends, or that starts, at an address.\<close>

partial_function (option) segment_ending :: "heap \<Rightarrow> u32 \<Rightarrow> u32 \<Rightarrow> u32 option" where
  "segment_ending h a sp =
     (if sp \<noteq> 0 \<and> a \<noteq> seg_base h sp + seg_size h sp then segment_ending h a (seg_next h sp) else Some sp)"

partial_function (option) segment_starting :: "heap \<Rightarrow> u32 \<Rightarrow> u32 \<Rightarrow> u32 option" where
  "segment_starting h a sp =
     (if sp \<noteq> 0 \<and> seg_base h sp \<noteq> a then segment_starting h a (seg_next h sp) else Some sp)"

section \<open>Direct mappings\<close>

definition add_footprint :: "u32 \<Rightarrow> heap \<Rightarrow> heap" where
  "add_footprint n h =
     (let h = h\<lparr>m_footprint := m_footprint h + n\<rparr> in
      if m_max_footprint h < m_footprint h then h\<lparr>m_max_footprint := m_footprint h\<rparr> else h)"

definition over_limit :: "heap \<Rightarrow> u32 \<Rightarrow> bool" where
  "over_limit h n \<longleftrightarrow>
     m_footprint_limit h \<noteq> 0 \<and>
     (let fp = m_footprint h + n in fp \<le> m_footprint h \<or> m_footprint_limit h < fp)"

definition mmap_alloc :: "u32 \<Rightarrow> heap \<Rightarrow> (u32 \<times> heap) run" where
  "mmap_alloc nb h =
     (let mmsize = mmap_align h (nb + 24 + CHUNK_ALIGN_MASK) in
      if over_limit h mmsize then ret (0, h)
      else if nb < mmsize then
        bindR (call_mmap mmsize h) (\<lambda>(mm, h).
          if mm \<noteq> MFAIL then
            let offset = align_offset (chunk2mem mm);
                psize = mmsize - offset - MMAP_FOOT_PAD;
                p = mm + offset;
                h = set_head (p + psize + 4) 0 (set_head (p + psize) FENCEPOST_HEAD
                      (set_head p psize (set_prev_foot p offset h)));
                h = (if m_least_addr h = 0 \<or> mm < m_least_addr h then h\<lparr>m_least_addr := mm\<rparr> else h)
            in ret (chunk2mem p, add_footprint mmsize h)
          else ret (0, h))
      else ret (0, h))"

text \<open>\<^verbatim>\<open>mmap_resize\<close>: \<^verbatim>\<open>CALL_MREMAP\<close> is \<^verbatim>\<open>MFAIL\<close>, so the mapping stays or the caller moves.\<close>

definition mmap_resize :: "heap \<Rightarrow> u32 \<Rightarrow> u32 \<Rightarrow> u32" where
  "mmap_resize h oldp nb =
     (let oldsize = chunksize h oldp in
      if is_small nb then 0
      else if nb + 4 \<le> oldsize \<and> oldsize - nb \<le> push_bit 1 (mp_granularity h) then oldp
      else 0)"

section \<open>The top chunk and new segments\<close>

definition init_top :: "u32 \<Rightarrow> u32 \<Rightarrow> heap \<Rightarrow> heap" where
  "init_top p psize h =
     (let offset = align_offset (chunk2mem p);
          p = p + offset;
          psize = psize - offset;
          h = h\<lparr>m_top := p, m_topsize := psize\<rparr>;
          h = set_head (p + psize) TOP_FOOT_SIZE (set_head p (psize OR PINUSE_BIT) h)
      in h\<lparr>m_trim_check := mp_trim_threshold h\<rparr>)"

definition init_bins :: "heap \<Rightarrow> heap" where
  "init_bins h =
     fold (\<lambda>i h. set_fd (smallbin_at h i) (smallbin_at h i) (set_bk (smallbin_at h i) (smallbin_at h i) h))
       [0..<NSMALLBINS] h"

definition prepend_alloc :: "u32 \<Rightarrow> u32 \<Rightarrow> u32 \<Rightarrow> heap \<Rightarrow> (u32 \<times> heap) run" where
  "prepend_alloc newbase oldbase nb h =
     (let p = align_as_chunk newbase;
          oldfirst = align_as_chunk oldbase;
          psize = oldfirst - p;
          q = p + nb;
          qsize = psize - nb;
          h = set_size_and_pinuse_of_inuse_chunk p nb h
      in bindR
           (if oldfirst = m_top h then
              let tsize = m_topsize h + qsize in
              ret (set_head q (tsize OR PINUSE_BIT) (h\<lparr>m_topsize := tsize, m_top := q\<rparr>))
            else if oldfirst = m_dv h then
              let dsize = m_dvsize h + qsize in
              ret (set_size_and_pinuse_of_free_chunk q dsize (h\<lparr>m_dvsize := dsize, m_dv := q\<rparr>))
            else
              bindR
                (if \<not> is_inuse h oldfirst then
                   let nsize = chunksize h oldfirst in
                   bindR (unlink_chunk oldfirst nsize h) (\<lambda>h. ret (oldfirst + nsize, qsize + nsize, h))
                 else ret (oldfirst, qsize, h))
                (\<lambda>(oldfirst, qsize, h). insert_chunk q qsize (set_free_with_pinuse q qsize oldfirst h)))
           (\<lambda>h. ret (chunk2mem p, h)))"

partial_function (option) fenceposts :: "u32 \<Rightarrow> u32 \<Rightarrow> heap \<Rightarrow> heap option" where
  "fenceposts p old_end h =
     (let nextp = p + 4; h = set_head p FENCEPOST_HEAD h in
      if nextp + 4 < old_end then fenceposts nextp old_end h else Some h)"

definition copy_segment :: "u32 \<Rightarrow> u32 \<Rightarrow> heap \<Rightarrow> heap" where
  "copy_segment ss sp h =
     set_seg_sflags ss (seg_sflags h sp) (set_seg_next ss (seg_next h sp)
       (set_seg_size ss (seg_size h sp) (set_seg_base ss (seg_base h sp) h)))"

definition add_segment :: "u32 \<Rightarrow> u32 \<Rightarrow> u32 \<Rightarrow> heap \<Rightarrow> heap run" where
  "add_segment tbase tsize mmapped h =
     (let old_top = m_top h in
      bindR (segment_holding h old_top) (\<lambda>oldsp.
        let old_end = seg_base h oldsp + seg_size h oldsp;
            ssize = pad_request 16;
            rawsp = old_end - (ssize + 16 + CHUNK_ALIGN_MASK);
            offset = align_offset (chunk2mem rawsp);
            asp = rawsp + offset;
            csp = (if asp < old_top + MIN_CHUNK_SIZE then old_top else asp);
            ss = chunk2mem csp;
            tnext = csp + ssize;
            h = init_top tbase (tsize - TOP_FOOT_SIZE) h;
            h = copy_segment ss (m_seg h) (set_size_and_pinuse_of_inuse_chunk csp ssize h);
            h = set_seg_next (m_seg h) ss (set_seg_sflags (m_seg h) mmapped
                  (set_seg_size (m_seg h) tsize (set_seg_base (m_seg h) tbase h)))
        in Option.bind (fenceposts tnext old_end h) (\<lambda>h.
             if csp \<noteq> old_top then
               let psize = csp - old_top in
               insert_chunk old_top psize (set_free_with_pinuse old_top psize (old_top + psize) h)
             else ret h)))"

section \<open>Getting memory\<close>

text \<open>The last part of \<^verbatim>\<open>sys_alloc\<close> and a part of \<^verbatim>\<open>dlmalloc\<close>: a chunk is cut off the top chunk.\<close>

definition split_top :: "u32 \<Rightarrow> heap \<Rightarrow> u32 \<times> heap" where
  "split_top nb h =
     (let rsize = m_topsize h - nb;
          p = m_top h;
          r = p + nb;
          h = h\<lparr>m_topsize := rsize, m_top := r\<rparr>;
          h = set_size_and_pinuse_of_inuse_chunk p nb (set_head r (rsize OR PINUSE_BIT) h)
      in (chunk2mem p, h))"

text \<open>New memory on the initialised heap: append to the top segment, prepend to a segment (then the
  request is served at once), or make a segment of its own.\<close>

definition extend_heap :: "u32 \<Rightarrow> u32 \<Rightarrow> u32 \<Rightarrow> u32 \<Rightarrow> heap \<Rightarrow> (u32 option \<times> heap) run" where
  "extend_heap tbase tsize mmap_flag nb h =
     Option.bind (segment_ending h tbase (m_seg h)) (\<lambda>sp.
       if sp \<noteq> 0 \<and> \<not> is_extern_segment h sp \<and> seg_sflags h sp AND USE_MMAP_BIT = mmap_flag \<and>
          segment_holds h sp (m_top h)
       then
         let h = set_seg_size sp (seg_size h sp + tsize) h in
         ret (None, init_top (m_top h) (m_topsize h + tsize) h)
       else
         let h = (if tbase < m_least_addr h then h\<lparr>m_least_addr := tbase\<rparr> else h) in
         Option.bind (segment_starting h (tbase + tsize) (m_seg h)) (\<lambda>sp.
           if sp \<noteq> 0 \<and> \<not> is_extern_segment h sp \<and> seg_sflags h sp AND USE_MMAP_BIT = mmap_flag
           then
             let oldbase = seg_base h sp;
                 h = set_seg_size sp (seg_size h sp + tsize) (set_seg_base sp tbase h)
             in bindR (prepend_alloc tbase oldbase nb h) (\<lambda>(mem, h). ret (Some mem, h))
           else bindR (add_segment tbase tsize mmap_flag h) (\<lambda>h. ret (None, h))))"

definition first_segment :: "u32 \<Rightarrow> u32 \<Rightarrow> u32 \<Rightarrow> heap \<Rightarrow> heap" where
  "first_segment tbase tsize mmap_flag h =
     (let h = (if m_least_addr h = 0 \<or> tbase < m_least_addr h then h\<lparr>m_least_addr := tbase\<rparr> else h);
          h = set_seg_sflags (m_seg h) mmap_flag (set_seg_size (m_seg h) tsize (set_seg_base (m_seg h) tbase h));
          h = init_bins (h\<lparr>m_magic := mp_magic h, m_release_checks := MAX_RELEASE_CHECK_RATE\<rparr>)
      in init_top tbase (tsize - TOP_FOOT_SIZE) h)"

definition sys_alloc :: "u32 \<Rightarrow> heap \<Rightarrow> (u32 \<times> heap) run" where
  "sys_alloc nb h =
     (let h = ensure_initialization h in
      bindR
        (if use_mmap h \<and> mp_mmap_threshold h \<le> nb \<and> m_topsize h \<noteq> 0 then mmap_alloc nb h else ret (0, h))
        (\<lambda>(mem, h).
          if mem \<noteq> 0 then ret (mem, h)
          else
            let asize = granularity_align h (nb + SYS_ALLOC_PADDING) in
            if asize \<le> nb then ret (0, h)
            else if over_limit h asize then ret (0, h)
            else
              bindR (call_mmap asize h) (\<lambda>(tbase, h).
                if tbase = MFAIL then ret (0, h)
                else
                  let h = add_footprint asize h in
                  bindR
                    (if \<not> is_initialized h then ret (None, first_segment tbase asize USE_MMAP_BIT h)
                     else extend_heap tbase asize USE_MMAP_BIT nb h)
                    (\<lambda>(r, h).
                      case r of
                        Some mem \<Rightarrow> ret (mem, h)
                      | None \<Rightarrow> if nb < m_topsize h then ret (split_top nb h) else ret (0, h)))))"

end
