(* ===== verification/MallocTrim.thy ===== *)
theory MallocTrim
  imports MallocSys
begin

text \<open>
  Giving memory back to the kernel, putting a chunk back without a free (\<^verbatim>\<open>dispose_chunk\<close>), and the
  best-fit searches in the trees.
\<close>

section \<open>Unused segments and the top\<close>

text \<open>The body of the loop for a segment that can be unmapped: the new \<open>sp\<close>, and what is released.\<close>

definition release_segment :: "u32 \<Rightarrow> u32 \<Rightarrow> heap \<Rightarrow> (u32 \<times> u32 \<times> heap) run" where
  "release_segment pred sp h =
     (let base = seg_base h sp;
          sz = seg_size h sp;
          next = seg_next h sp;
          p = align_as_chunk base;
          psize = chunksize h p
      in if is_mmapped_segment h sp \<and> \<not> is_extern_segment h sp \<and>
            \<not> is_inuse h p \<and> base + sz - TOP_FOOT_SIZE \<le> p + psize
         then
           bindR
             (if p = m_dv h then ret (h\<lparr>m_dv := 0, m_dvsize := 0\<rparr>) else unlink_large_chunk p h)
             (\<lambda>h. bindR (call_munmap base sz h) (\<lambda>(r, h).
               if r = 0 then
                 let h = h\<lparr>m_footprint := m_footprint h - sz\<rparr>
                 in ret (pred, sz, set_seg_next pred next h)
               else bindR (insert_large_chunk p psize h) (\<lambda>h. ret (sp, 0, h))))
         else ret (sp, 0, h))"

partial_function (option) release_segments :: "u32 \<Rightarrow> u32 \<Rightarrow> u32 \<Rightarrow> u32 \<Rightarrow> heap \<Rightarrow> (u32 \<times> u32 \<times> heap) run" where
  "release_segments pred sp released nsegs h =
     (if sp \<noteq> 0 then
        let next = seg_next h sp in
        Option.bind (release_segment pred sp h) (\<lambda>r.
          case r of
            Inl e \<Rightarrow> Some (Inl e)
          | Inr (sp, n, h) \<Rightarrow> release_segments sp next (released + n) (nsegs + 1) h)
      else ret (released, nsegs, h))"

definition release_unused_segments :: "heap \<Rightarrow> (u32 \<times> heap) run" where
  "release_unused_segments h =
     bindR (release_segments (m_seg h) (seg_next h (m_seg h)) 0 0 h) (\<lambda>(released, nsegs, h).
       ret (released, h\<lparr>m_release_checks :=
              (if MAX_RELEASE_CHECK_RATE < nsegs then nsegs else MAX_RELEASE_CHECK_RATE)\<rparr>))"

text \<open>Shrinking the top segment; the result is what was released and the segment.\<close>

definition trim_top :: "u32 \<Rightarrow> heap \<Rightarrow> (u32 \<times> u32 \<times> heap) run" where
  "trim_top pad h =
     (let unit = mp_granularity h in
      if unit = 0 then Some (Inl DivByZero)
      else
        let extra = ((m_topsize h - pad + (unit - 1)) div unit - 1) * unit in
        bindR (segment_holding h (m_top h)) (\<lambda>sp.
          if \<not> is_extern_segment h sp \<and> is_mmapped_segment h sp \<and> extra \<le> seg_size h sp then
            bindR (has_segment_link h sp) (\<lambda>linked.
              if linked then ret (0, sp, h)
              else
                let newsize = seg_size h sp - extra in
                bindR (call_munmap (seg_base h sp + newsize) extra h) (\<lambda>(r, h).
                  ret (if r = 0 then extra else 0, sp, h)))
          else ret (0, sp, h)))"

definition sys_trim :: "u32 \<Rightarrow> heap \<Rightarrow> (u32 \<times> heap) run" where
  "sys_trim pad h =
     (let h = ensure_initialization h in
      if pad < MAX_REQUEST \<and> is_initialized h then
        let pad = pad + TOP_FOOT_SIZE in
        bindR
          (if pad < m_topsize h then
             bindR (trim_top pad h) (\<lambda>(released, sp, h).
               if released \<noteq> 0 then
                 let h = set_seg_size sp (seg_size h sp - released) h;
                     h = h\<lparr>m_footprint := m_footprint h - released\<rparr>
                 in ret (released, init_top (m_top h) (m_topsize h - released) h)
               else ret (0, h))
           else ret (0, h))
          (\<lambda>(released, h).
             bindR (release_unused_segments h) (\<lambda>(n, h).
               let released = released + n;
                   h = (if released = 0 \<and> m_trim_check h < m_topsize h then h\<lparr>m_trim_check := - 1\<rparr> else h)
               in ret (if released \<noteq> 0 then 1 else 0, h)))
      else ret (0, h))"

section \<open>Putting a chunk back\<close>

text \<open>Consolidating backward, as far as \<^verbatim>\<open>dispose_chunk\<close> and \<^verbatim>\<open>dlfree\<close> share it: \<open>None\<close> when the
  chunk was joined to the designated victim and the work is done.\<close>

definition consolidate_backward :: "u32 \<Rightarrow> u32 \<Rightarrow> u32 \<Rightarrow> heap \<Rightarrow> ((u32 \<times> u32) option \<times> heap) run" where
  "consolidate_backward p psize next h =
     (let prevsize = prev_foot h p;
          prev = p - prevsize;
          psize = psize + prevsize
      in if ok_address h prev then
           if prev \<noteq> m_dv h then bindR (unlink_chunk prev prevsize h) (\<lambda>h. ret (Some (prev, psize), h))
           else if head h next AND INUSE_BITS = INUSE_BITS then
             ret (None, set_free_with_pinuse prev psize next (h\<lparr>m_dvsize := psize\<rparr>))
           else ret (Some (prev, psize), h)
         else abort)"

text \<open>Joining the chunk with the top chunk, which ends both functions.\<close>

definition join_top :: "u32 \<Rightarrow> u32 \<Rightarrow> heap \<Rightarrow> heap" where
  "join_top p psize h =
     (let tsize = m_topsize h + psize;
          h = set_head p (tsize OR PINUSE_BIT) (h\<lparr>m_topsize := tsize, m_top := p\<rparr>)
      in if p = m_dv h then h\<lparr>m_dv := 0, m_dvsize := 0\<rparr> else h)"

text \<open>Consolidating forward with a chunk that is not the top: \<open>None\<close> when the result is the
  designated victim, else the size of the chunk that is to be put into a bin.\<close>

definition consolidate_forward :: "u32 \<Rightarrow> u32 \<Rightarrow> u32 \<Rightarrow> heap \<Rightarrow> (u32 option \<times> heap) run" where
  "consolidate_forward p psize next h =
     (if \<not> cinuse h next then
        if next = m_dv h then
          let dsize = m_dvsize h + psize in
          ret (None, set_size_and_pinuse_of_free_chunk p dsize (h\<lparr>m_dvsize := dsize, m_dv := p\<rparr>))
        else
          let nsize = chunksize h next;
              psize = psize + nsize
          in bindR (unlink_chunk next nsize h) (\<lambda>h.
               let h = set_size_and_pinuse_of_free_chunk p psize h in
               if p = m_dv h then ret (None, h\<lparr>m_dvsize := psize\<rparr>) else ret (Some psize, h))
      else ret (Some psize, set_free_with_pinuse p psize next h))"

definition dispose_forward :: "u32 \<Rightarrow> u32 \<Rightarrow> u32 \<Rightarrow> heap \<Rightarrow> heap run" where
  "dispose_forward p psize next h =
     (if ok_address h next then
        if \<not> cinuse h next \<and> next = m_top h then ret (join_top p psize h)
        else
          bindR (consolidate_forward p psize next h) (\<lambda>(r, h).
            case r of None \<Rightarrow> ret h | Some psize \<Rightarrow> insert_chunk p psize h)
      else abort)"

definition dispose_chunk :: "u32 \<Rightarrow> u32 \<Rightarrow> heap \<Rightarrow> heap run" where
  "dispose_chunk p psize h =
     (let next = p + psize in
      if \<not> pinuse h p then
        if is_mmapped h p then
          let prevsize = prev_foot h p;
              psize = psize + (prevsize + MMAP_FOOT_PAD)
          in bindR (call_munmap (p - prevsize) psize h) (\<lambda>(r, h).
               ret (if r = 0 then h\<lparr>m_footprint := m_footprint h - psize\<rparr> else h))
        else
          bindR (consolidate_backward p psize next h) (\<lambda>(r, h).
            case r of None \<Rightarrow> ret h | Some (p, psize) \<Rightarrow> dispose_forward p psize next h)
      else dispose_forward p psize next h)"

section \<open>Best fit in the trees\<close>

text \<open>The descent for a size: \<open>rst\<close> is the deepest right subtree not taken. The result is the best
  chunk so far, its rest, and the subtree to search on.\<close>

partial_function (option) tmalloc_descend ::
  "heap \<Rightarrow> u32 \<Rightarrow> u32 \<Rightarrow> u32 \<Rightarrow> u32 \<Rightarrow> u32 \<Rightarrow> u32 \<Rightarrow> (u32 \<times> u32 \<times> u32) option" where
  "tmalloc_descend h nb v rsize t rst sizebits =
     (let trem = chunksize h t - nb;
          v' = (if trem < rsize then t else v);
          rsize' = (if trem < rsize then trem else rsize)
      in if trem < rsize \<and> trem = 0 then Some (v', rsize', t)
         else
           let rt = child h t 1;
               t' = child h t (sign_bit sizebits);
               rst' = (if rt \<noteq> 0 \<and> rt \<noteq> t' then rt else rst)
           in if t' = 0 then Some (v', rsize', rst')
              else tmalloc_descend h nb v' rsize' t' rst' (push_bit 1 sizebits))"

text \<open>The walk along the left edge of a tree, which meets the smallest chunk.\<close>

partial_function (option) tmalloc_smallest :: "heap \<Rightarrow> u32 \<Rightarrow> u32 \<Rightarrow> u32 \<Rightarrow> u32 \<Rightarrow> (u32 \<times> u32) option" where
  "tmalloc_smallest h nb v rsize t =
     (if t \<noteq> 0 then
        let trem = chunksize h t - nb in
        if trem < rsize then tmalloc_smallest h nb t trem (leftmost_child h t)
        else tmalloc_smallest h nb v rsize (leftmost_child h t)
      else Some (v, rsize))"

definition tmalloc_large :: "u32 \<Rightarrow> heap \<Rightarrow> (u32 \<times> heap) run" where
  "tmalloc_large nb h =
     (let idx = compute_tree_index nb;
          t = words h (treebin_at h idx)
      in Option.bind
           (if t \<noteq> 0 then tmalloc_descend h nb 0 (- nb) t 0 (push_bit (leftshift_for_tree_index idx) nb)
            else Some (0, - nb, 0))
           (\<lambda>(v, rsize, t).
             let leftbits = left_bits (idx2bit idx) AND m_treemap h;
                 t = (if t = 0 \<and> v = 0 \<and> leftbits \<noteq> 0
                      then words h (treebin_at h (compute_bit2idx (least_bit leftbits))) else t)
             in Option.bind (tmalloc_smallest h nb v rsize t) (\<lambda>(v, rsize).
                  if v \<noteq> 0 \<and> rsize < m_dvsize h - nb then
                    let r = v + nb in
                    if ok_address h v \<and> ok_next v r then
                      bindR (unlink_large_chunk v h) (\<lambda>h.
                      bindR
                        (if rsize < MIN_CHUNK_SIZE then ret (set_inuse_and_pinuse v (rsize + nb) h)
                         else insert_chunk r rsize (set_size_and_pinuse_of_free_chunk r rsize
                                (set_size_and_pinuse_of_inuse_chunk v nb h)))
                        (\<lambda>h. ret (chunk2mem v, h)))
                    else abort
                  else ret (0, h))))"

definition tmalloc_small :: "u32 \<Rightarrow> heap \<Rightarrow> (u32 \<times> heap) run" where
  "tmalloc_small nb h =
     (let i = compute_bit2idx (least_bit (m_treemap h));
          t = words h (treebin_at h i)
      in Option.bind (tmalloc_smallest h nb t (chunksize h t - nb) (leftmost_child h t)) (\<lambda>(v, rsize).
           let r = v + nb in
           if ok_address h v \<and> ok_next v r then
             bindR (unlink_large_chunk v h) (\<lambda>h.
             bindR
               (if rsize < MIN_CHUNK_SIZE then ret (set_inuse_and_pinuse v (rsize + nb) h)
                else replace_dv r rsize (set_size_and_pinuse_of_free_chunk r rsize
                       (set_size_and_pinuse_of_inuse_chunk v nb h)))
               (\<lambda>h. ret (chunk2mem v, h)))
           else abort))"

end
