(* ===== verification/MallocApi.thy ===== *)
theory MallocApi
  imports MallocTrim
begin

text \<open>
  The functions that the kernel calls: \<^verbatim>\<open>malloc\<close>, \<^verbatim>\<open>free\<close>, \<^verbatim>\<open>calloc\<close>, \<^verbatim>\<open>realloc\<close> and the rest of the
  exported interface of \<^verbatim>\<open>malloc.c\<close>, whose names carry the prefix \<^verbatim>\<open>dl\<close> in the source.
\<close>

section \<open>malloc\<close>

text \<open>A chunk from a small bin that leaves no remainder, from the first or the next bin.\<close>

definition malloc_exact :: "nat \<Rightarrow> u32 \<Rightarrow> heap \<Rightarrow> (u32 \<times> heap) run" where
  "malloc_exact idx smallbits h =
     (let idx = idx + unat (NOT smallbits AND 1);
          b = smallbin_at h idx;
          p = fd h b
      in bindR (unlink_first_small_chunk b p idx h) (\<lambda>h.
           ret (chunk2mem p, set_inuse_and_pinuse p (small_index2size idx) h)))"

text \<open>A chunk from the next small bin that has one, the rest becoming the designated victim.\<close>

definition malloc_next_bin :: "u32 \<Rightarrow> nat \<Rightarrow> u32 \<Rightarrow> heap \<Rightarrow> (u32 \<times> heap) run" where
  "malloc_next_bin nb idx smallbits h =
     (let leftbits = push_bit idx smallbits AND left_bits (idx2bit idx);
          i = compute_bit2idx (least_bit leftbits);
          b = smallbin_at h i;
          p = fd h b
      in bindR (unlink_first_small_chunk b p i h) (\<lambda>h.
           let rsize = small_index2size i - nb;
               h = set_size_and_pinuse_of_inuse_chunk p nb h;
               r = p + nb;
               h = set_size_and_pinuse_of_free_chunk r rsize h
           in bindR (replace_dv r rsize h) (\<lambda>h. ret (chunk2mem p, h))))"

definition split_dv :: "u32 \<Rightarrow> heap \<Rightarrow> u32 \<times> heap" where
  "split_dv nb h =
     (let rsize = m_dvsize h - nb; p = m_dv h in
      if MIN_CHUNK_SIZE \<le> rsize then
        let r = p + nb;
            h = h\<lparr>m_dv := r, m_dvsize := rsize\<rparr>
        in (chunk2mem p, set_size_and_pinuse_of_inuse_chunk p nb (set_size_and_pinuse_of_free_chunk r rsize h))
      else
        let dvs = m_dvsize h;
            h = h\<lparr>m_dvsize := 0, m_dv := 0\<rparr>
        in (chunk2mem p, set_inuse_and_pinuse p dvs h))"

text \<open>The last three steps, common to all requests.\<close>

definition malloc_dv_top_sys :: "u32 \<Rightarrow> heap \<Rightarrow> (u32 \<times> heap) run" where
  "malloc_dv_top_sys nb h =
     (if nb \<le> m_dvsize h then ret (split_dv nb h)
      else if nb < m_topsize h then ret (split_top nb h)
      else sys_alloc nb h)"

definition dlmalloc :: "u32 \<Rightarrow> heap \<Rightarrow> (u32 \<times> heap) run" where
  "dlmalloc bytes h =
     (if bytes \<le> MAX_SMALL_REQUEST then
        let nb = (if bytes < MIN_REQUEST then MIN_CHUNK_SIZE else pad_request bytes);
            idx = small_index nb;
            smallbits = drop_bit idx (m_smallmap h)
        in if smallbits AND 3 \<noteq> 0 then malloc_exact idx smallbits h
           else if m_dvsize h < nb then
             if smallbits \<noteq> 0 then malloc_next_bin nb idx smallbits h
             else if m_treemap h \<noteq> 0 then
               bindR (tmalloc_small nb h) (\<lambda>(mem, h).
                 if mem \<noteq> 0 then ret (mem, h) else malloc_dv_top_sys nb h)
             else malloc_dv_top_sys nb h
           else malloc_dv_top_sys nb h
      else if MAX_REQUEST \<le> bytes then malloc_dv_top_sys (- 1) h
      else
        let nb = pad_request bytes in
        if m_treemap h \<noteq> 0 then
          bindR (tmalloc_large nb h) (\<lambda>(mem, h).
            if mem \<noteq> 0 then ret (mem, h) else malloc_dv_top_sys nb h)
        else malloc_dv_top_sys nb h)"

section \<open>free\<close>

text \<open>From the test \<^verbatim>\<open>ok_next(p, next) && ok_pinuse(next)\<close> on.\<close>

definition free_forward :: "u32 \<Rightarrow> u32 \<Rightarrow> u32 \<Rightarrow> heap \<Rightarrow> heap run" where
  "free_forward p psize next h =
     (if ok_next p next \<and> pinuse h next then
        if \<not> cinuse h next \<and> next = m_top h then
          let h = join_top p psize h in
          if should_trim h (m_topsize h) then bindR (sys_trim 0 h) (\<lambda>(r, h). ret h) else ret h
        else
          bindR (consolidate_forward p psize next h) (\<lambda>(r, h).
            case r of
              None \<Rightarrow> ret h
            | Some psize \<Rightarrow>
                if is_small psize then insert_small_chunk p psize h
                else
                  bindR (insert_large_chunk p psize h) (\<lambda>h.
                    let h = h\<lparr>m_release_checks := m_release_checks h - 1\<rparr> in
                    if m_release_checks h = 0 then bindR (release_unused_segments h) (\<lambda>(r, h). ret h)
                    else ret h))
      else abort)"

definition dlfree :: "u32 \<Rightarrow> heap \<Rightarrow> heap run" where
  "dlfree mem h =
     (if mem = 0 then ret h
      else
        let p = mem2chunk mem in
        if ok_address h p \<and> is_inuse h p then
          let psize = chunksize h p;
              next = p + psize
          in if \<not> pinuse h p then
               if is_mmapped h p then
                 let prevsize = prev_foot h p;
                     psize = psize + (prevsize + MMAP_FOOT_PAD)
                 in bindR (call_munmap (p - prevsize) psize h) (\<lambda>(r, h).
                      ret (if r = 0 then h\<lparr>m_footprint := m_footprint h - psize\<rparr> else h))
               else
                 bindR (consolidate_backward p psize next h) (\<lambda>(r, h).
                   case r of None \<Rightarrow> ret h | Some (p, psize) \<Rightarrow> free_forward p psize next h)
             else free_forward p psize next h
        else abort)"

section \<open>calloc and realloc\<close>

text \<open>Bytes in the memory of words; the processor is little-endian.\<close>

definition byte_shift :: "u32 \<Rightarrow> nat" where
  "byte_shift a = 8 * unat (a AND 3)"

definition get_byte :: "heap \<Rightarrow> u32 \<Rightarrow> u8" where
  "get_byte h a = ucast (drop_bit (byte_shift a) (words h (a AND NOT 3)))"

definition set_byte :: "u32 \<Rightarrow> u8 \<Rightarrow> heap \<Rightarrow> heap" where
  "set_byte a b h =
     store (a AND NOT 3)
       ((words h (a AND NOT 3) AND NOT (push_bit (byte_shift a) 0xFF)) OR push_bit (byte_shift a) (ucast b)) h"

definition memset_bytes :: "u32 \<Rightarrow> u8 \<Rightarrow> u32 \<Rightarrow> heap \<Rightarrow> heap" where
  "memset_bytes a b n h = fold (\<lambda>i. set_byte (a + of_nat i) b) [0..<unat n] h"

definition memcpy_bytes :: "u32 \<Rightarrow> u32 \<Rightarrow> u32 \<Rightarrow> heap \<Rightarrow> heap" where
  "memcpy_bytes d s n h = fold (\<lambda>i h. set_byte (d + of_nat i) (get_byte h (s + of_nat i)) h) [0..<unat n] h"

definition calloc_request :: "u32 \<Rightarrow> u32 \<Rightarrow> u32" where
  "calloc_request n_elements elem_size =
     (if n_elements \<noteq> 0 then
        let req = n_elements * elem_size in
        if (n_elements OR elem_size) AND NOT 0xFFFF \<noteq> 0 \<and> req div n_elements \<noteq> elem_size then - 1 else req
      else 0)"

definition dlcalloc :: "u32 \<Rightarrow> u32 \<Rightarrow> heap \<Rightarrow> (u32 \<times> heap) run" where
  "dlcalloc n_elements elem_size h =
     (let req = calloc_request n_elements elem_size in
      bindR (dlmalloc req h) (\<lambda>(mem, h).
        ret (mem, if mem \<noteq> 0 \<and> calloc_must_clear h (mem2chunk mem) then memset_bytes mem 0 req h else h)))"

text \<open>Cutting the end off a chunk and putting it back.\<close>

definition give_back_rest :: "u32 \<Rightarrow> u32 \<Rightarrow> u32 \<Rightarrow> heap \<Rightarrow> heap run" where
  "give_back_rest p nb rsize h =
     (let r = p + nb in dispose_chunk r rsize (set_inuse r rsize (set_inuse p nb h)))"

definition realloc_in_place :: "u32 \<Rightarrow> u32 \<Rightarrow> u32 \<Rightarrow> u32 \<Rightarrow> heap \<Rightarrow> (u32 \<times> heap) run" where
  "realloc_in_place p oldsize next nb h =
     (if nb \<le> oldsize then
        let rsize = oldsize - nb in
        if MIN_CHUNK_SIZE \<le> rsize then bindR (give_back_rest p nb rsize h) (\<lambda>h. ret (p, h)) else ret (p, h)
      else if next = m_top h then
        if nb < oldsize + m_topsize h then
          let newsize = oldsize + m_topsize h;
              newtopsize = newsize - nb;
              newtop = p + nb;
              h = set_head newtop (newtopsize OR PINUSE_BIT) (set_inuse p nb h)
          in ret (p, h\<lparr>m_top := newtop, m_topsize := newtopsize\<rparr>)
        else ret (0, h)
      else if next = m_dv h then
        let dvs = m_dvsize h in
        if nb \<le> oldsize + dvs then
          let dsize = oldsize + dvs - nb in
          if MIN_CHUNK_SIZE \<le> dsize then
            let r = p + nb;
                n = r + dsize;
                h = clear_pinuse n (set_size_and_pinuse_of_free_chunk r dsize (set_inuse p nb h))
            in ret (p, h\<lparr>m_dvsize := dsize, m_dv := r\<rparr>)
          else
            let newsize = oldsize + dvs;
                h = set_inuse p newsize h
            in ret (p, h\<lparr>m_dvsize := 0, m_dv := 0\<rparr>)
        else ret (0, h)
      else if \<not> cinuse h next then
        let nextsize = chunksize h next in
        if nb \<le> oldsize + nextsize then
          let rsize = oldsize + nextsize - nb in
          bindR (unlink_chunk next nextsize h) (\<lambda>h.
            if rsize < MIN_CHUNK_SIZE then ret (p, set_inuse p (oldsize + nextsize) h)
            else bindR (give_back_rest p nb rsize h) (\<lambda>h. ret (p, h)))
        else ret (0, h)
      else ret (0, h))"

definition try_realloc_chunk :: "u32 \<Rightarrow> u32 \<Rightarrow> heap \<Rightarrow> (u32 \<times> heap) run" where
  "try_realloc_chunk p nb h =
     (let oldsize = chunksize h p;
          next = p + oldsize
      in if ok_address h p \<and> is_inuse h p \<and> ok_next p next \<and> pinuse h next then
           if is_mmapped h p then ret (mmap_resize h p nb, h)
           else realloc_in_place p oldsize next nb h
         else abort)"

definition dlrealloc :: "u32 \<Rightarrow> u32 \<Rightarrow> heap \<Rightarrow> (u32 \<times> heap) run" where
  "dlrealloc oldmem bytes h =
     (if oldmem = 0 then dlmalloc bytes h
      else if MAX_REQUEST \<le> bytes then ret (0, h)
      else
        let nb = request2size bytes;
            oldp = mem2chunk oldmem
        in bindR (try_realloc_chunk oldp nb h) (\<lambda>(newp, h).
             if newp \<noteq> 0 then ret (chunk2mem newp, h)
             else
               bindR (dlmalloc bytes h) (\<lambda>(mem, h).
                 if mem \<noteq> 0 then
                   let oc = chunksize h oldp - overhead_for h oldp;
                       h = memcpy_bytes mem oldmem (if oc < bytes then oc else bytes) h
                   in bindR (dlfree oldmem h) (\<lambda>h. ret (mem, h))
                 else ret (0, h))))"

definition dlrealloc_in_place :: "u32 \<Rightarrow> u32 \<Rightarrow> heap \<Rightarrow> (u32 \<times> heap) run" where
  "dlrealloc_in_place oldmem bytes h =
     (if oldmem \<noteq> 0 \<and> bytes < MAX_REQUEST then
        let nb = request2size bytes;
            oldp = mem2chunk oldmem
        in bindR (try_realloc_chunk oldp nb h) (\<lambda>(newp, h).
             ret (if newp = oldp then oldmem else 0, h))
      else ret (0, h))"

end
