(* ===== verification/MallocMore.thy ===== *)
theory MallocMore
  imports MallocApi
begin

text \<open>
  The rest of the exported interface of \<^verbatim>\<open>malloc.c\<close>: aligned blocks, blocks carved from one chunk, bulk
  free, statistics and parameters.
\<close>

section \<open>Aligned blocks\<close>

text \<open>\<^verbatim>\<open>while (a < alignment) a <<= 1;\<close>\<close>

partial_function (option) double_until :: "u32 \<Rightarrow> u32 \<Rightarrow> u32 option" where
  "double_until a alignment = (if a < alignment then double_until (push_bit 1 a) alignment else Some a)"

definition memalign_alignment :: "u32 \<Rightarrow> u32 option" where
  "memalign_alignment alignment =
     (let alignment = (if alignment < MIN_CHUNK_SIZE then MIN_CHUNK_SIZE else alignment) in
      if alignment AND (alignment - 1) \<noteq> 0 then double_until (push_bit 1 MALLOC_ALIGNMENT) alignment
      else Some alignment)"

text \<open>The aligned spot inside the chunk; what is before it is given back.\<close>

definition align_chunk :: "u32 \<Rightarrow> u32 \<Rightarrow> heap \<Rightarrow> (u32 \<times> heap) run" where
  "align_chunk mem alignment h =
     (let p = mem2chunk mem in
      if mem AND (alignment - 1) \<noteq> 0 then
        let br = mem2chunk ((mem + alignment - 1) AND - alignment);
            newp = (if MIN_CHUNK_SIZE \<le> br - p then br else br + alignment);
            leadsize = newp - p;
            newsize = chunksize h p - leadsize
        in if is_mmapped h p then
             ret (newp, set_head newp newsize (set_prev_foot newp (prev_foot h p + leadsize) h))
           else
             bindR (dispose_chunk p leadsize (set_inuse p leadsize (set_inuse newp newsize h)))
               (\<lambda>h. ret (newp, h))
      else ret (p, h))"

definition internal_memalign :: "u32 \<Rightarrow> u32 \<Rightarrow> heap \<Rightarrow> (u32 \<times> heap) run" where
  "internal_memalign alignment bytes h =
     Option.bind (memalign_alignment alignment) (\<lambda>alignment.
       if MAX_REQUEST - alignment \<le> bytes then ret (0, h)
       else
         let nb = request2size bytes;
             req = nb + alignment + MIN_CHUNK_SIZE - CHUNK_OVERHEAD
         in bindR (dlmalloc req h) (\<lambda>(mem, h).
              if mem = 0 then ret (0, h)
              else
                bindR (align_chunk mem alignment h) (\<lambda>(p, h).
                  let sz = chunksize h p in
                  if \<not> is_mmapped h p \<and> nb + MIN_CHUNK_SIZE < sz then
                    bindR (give_back_rest p nb (sz - nb) h) (\<lambda>h. ret (chunk2mem p, h))
                  else ret (chunk2mem p, h))))"

definition dlmemalign :: "u32 \<Rightarrow> u32 \<Rightarrow> heap \<Rightarrow> (u32 \<times> heap) run" where
  "dlmemalign alignment bytes h =
     (if alignment \<le> MALLOC_ALIGNMENT then dlmalloc bytes h else internal_memalign alignment bytes h)"

text \<open>\<^verbatim>\<open>EINVAL\<close> and \<^verbatim>\<open>ENOMEM\<close> are both \<open>-1\<close> in \<^verbatim>\<open>libc/heap.c\<close>.\<close>

definition dlposix_memalign :: "u32 \<Rightarrow> u32 \<Rightarrow> u32 \<Rightarrow> heap \<Rightarrow> (u32 \<times> heap) run" where
  "dlposix_memalign pp alignment bytes h =
     (let finish = (\<lambda>(mem, h). if mem = 0 then ret (- 1, h) else ret (0, store pp mem h)) in
      if alignment = MALLOC_ALIGNMENT then bindR (dlmalloc bytes h) finish
      else
        let d = alignment div 4; r = alignment mod 4 in
        if r \<noteq> 0 \<or> d = 0 \<or> d AND (d - 1) \<noteq> 0 then ret (- 1, h)
        else if bytes \<le> MAX_REQUEST - alignment then
          bindR (internal_memalign (if alignment < MIN_CHUNK_SIZE then MIN_CHUNK_SIZE else alignment) bytes h) finish
        else finish (0, h))"

definition dlvalloc :: "u32 \<Rightarrow> heap \<Rightarrow> (u32 \<times> heap) run" where
  "dlvalloc bytes h =
     (let h = ensure_initialization h; pagesz = mp_page_size h in dlmemalign pagesz bytes h)"

definition dlpvalloc :: "u32 \<Rightarrow> heap \<Rightarrow> (u32 \<times> heap) run" where
  "dlpvalloc bytes h =
     (let h = ensure_initialization h; pagesz = mp_page_size h
      in dlmemalign pagesz ((bytes + pagesz - 1) AND NOT (pagesz - 1)) h)"

section \<open>Independent blocks of one chunk\<close>

text \<open>The sizes are the array that \<^verbatim>\<open>sizes\<close> points to; \<open>chunks\<close> is its array of results or zero.\<close>

definition contents_size :: "u32 \<Rightarrow> (nat \<Rightarrow> u32) \<Rightarrow> u32 \<Rightarrow> u32 \<Rightarrow> u32" where
  "contents_size n_elements sizes opts element_size =
     (if opts AND 1 \<noteq> 0 then n_elements * element_size
      else fold (\<lambda>i s. s + request2size (sizes i)) [0..<unat n_elements] 0)"

text \<open>The loop that splits the elements out: \<open>k\<close> elements follow the one at \<open>i\<close>.\<close>

primrec split_elements ::
  "nat \<Rightarrow> nat \<Rightarrow> u32 \<Rightarrow> u32 \<Rightarrow> (nat \<Rightarrow> u32) \<Rightarrow> u32 \<Rightarrow> u32 \<Rightarrow> heap \<Rightarrow> heap" where
  "split_elements 0 i marray element_size sizes p remainder_size h =
     set_size_and_pinuse_of_inuse_chunk p remainder_size (store (marray + 4 * of_nat i) (chunk2mem p) h)"
| "split_elements (Suc k) i marray element_size sizes p remainder_size h =
     (let h = store (marray + 4 * of_nat i) (chunk2mem p) h;
          sz = (if element_size \<noteq> 0 then element_size else request2size (sizes i))
      in split_elements k (i + 1) marray element_size sizes (p + sz) (remainder_size - sz)
           (set_size_and_pinuse_of_inuse_chunk p sz h))"

definition ialloc :: "u32 \<Rightarrow> (nat \<Rightarrow> u32) \<Rightarrow> u32 \<Rightarrow> u32 \<Rightarrow> heap \<Rightarrow> (u32 \<times> heap) run" where
  "ialloc n_elements sizes opts chunks h =
     (let h = ensure_initialization h in
      if n_elements = 0 then (if chunks \<noteq> 0 then ret (chunks, h) else dlmalloc 0 h)
      else
        let array_size = (if chunks \<noteq> 0 then 0 else request2size (n_elements * 4));
            element_size = (if opts AND 1 \<noteq> 0 then request2size (sizes 0) else 0);
            contents = contents_size n_elements sizes opts element_size;
            sz = contents + array_size;
            was_enabled = use_mmap h
        in bindR (dlmalloc (sz - CHUNK_OVERHEAD) (disable_mmap h)) (\<lambda>(mem, h).
             let h = (if was_enabled then enable_mmap h else h) in
             if mem = 0 then ret (0, h)
             else
               let p = mem2chunk mem;
                   remainder_size = chunksize h p;
                   h = (if opts AND 2 \<noteq> 0 then memset_bytes mem 0 (remainder_size - 4 - array_size) h else h);
                   array_chunk = p + contents;
                   marray = (if chunks \<noteq> 0 then chunks else chunk2mem array_chunk);
                   h = (if chunks \<noteq> 0 then h
                        else set_size_and_pinuse_of_inuse_chunk array_chunk (remainder_size - contents) h);
                   remainder_size = (if chunks \<noteq> 0 then remainder_size else contents)
               in ret (marray,
                    split_elements (unat n_elements - 1) 0 marray element_size sizes p remainder_size h)))"

definition dlindependent_calloc :: "u32 \<Rightarrow> u32 \<Rightarrow> u32 \<Rightarrow> heap \<Rightarrow> (u32 \<times> heap) run" where
  "dlindependent_calloc n_elements elem_size chunks = ialloc n_elements (\<lambda>_. elem_size) 3 chunks"

definition dlindependent_comalloc :: "u32 \<Rightarrow> (nat \<Rightarrow> u32) \<Rightarrow> u32 \<Rightarrow> heap \<Rightarrow> (u32 \<times> heap) run" where
  "dlindependent_comalloc n_elements sizes chunks = ialloc n_elements sizes 0 chunks"

text \<open>The loop over the array from \<open>a\<close> on, of which \<open>k\<close> elements are left.\<close>

primrec bulk_free_loop :: "nat \<Rightarrow> u32 \<Rightarrow> heap \<Rightarrow> heap run" where
  "bulk_free_loop 0 a h = ret h"
| "bulk_free_loop (Suc k) a h =
     (let mem = words h a in
      if mem = 0 then bulk_free_loop k (a + 4) h
      else
        let p = mem2chunk mem;
            psize = chunksize h p;
            h = store a 0 h
        in if ok_address h p \<and> is_inuse h p then
             let b = a + 4; next = next_chunk h p in
             if k \<noteq> 0 \<and> words h b = chunk2mem next then
               let newsize = chunksize h next + psize
               in bulk_free_loop k (a + 4) (store b (chunk2mem p) (set_inuse p newsize h))
             else bindR (dispose_chunk p psize h) (bulk_free_loop k (a + 4))
           else abort)"

definition internal_bulk_free :: "u32 \<Rightarrow> u32 \<Rightarrow> heap \<Rightarrow> (u32 \<times> heap) run" where
  "internal_bulk_free array nelem h =
     bindR (bulk_free_loop (unat nelem) array h) (\<lambda>h.
       if should_trim h (m_topsize h) then bindR (sys_trim 0 h) (\<lambda>(r, h). ret (0, h)) else ret (0, h))"

definition dlbulk_free :: "u32 \<Rightarrow> u32 \<Rightarrow> heap \<Rightarrow> (u32 \<times> heap) run" where
  "dlbulk_free array nelem = internal_bulk_free array nelem"

section \<open>Statistics\<close>

text \<open>The fields of \<^verbatim>\<open>struct mallinfo\<close> that are set.\<close>

record mallinfo =
  arena :: u32
  ordblks :: u32
  hblkhd :: u32
  usmblks :: u32
  uordblks :: u32
  fordblks :: u32
  keepcost :: u32

text \<open>The sums over the chunks of a segment and over the segments: the number of free chunks, their
  size, and the size of all chunks.\<close>

partial_function (option) info_chunks ::
  "heap \<Rightarrow> u32 \<Rightarrow> u32 \<Rightarrow> u32 \<Rightarrow> u32 \<Rightarrow> u32 \<Rightarrow> (u32 \<times> u32 \<times> u32) option" where
  "info_chunks h s q nfree mfree all_sizes =
     (if segment_holds h s q \<and> q \<noteq> m_top h \<and> head h q \<noteq> FENCEPOST_HEAD then
        let sz = chunksize h q in
        if \<not> is_inuse h q then info_chunks h s (next_chunk h q) (nfree + 1) (mfree + sz) (all_sizes + sz)
        else info_chunks h s (next_chunk h q) nfree mfree (all_sizes + sz)
      else Some (nfree, mfree, all_sizes))"

partial_function (option) info_segments ::
  "heap \<Rightarrow> u32 \<Rightarrow> u32 \<Rightarrow> u32 \<Rightarrow> u32 \<Rightarrow> (u32 \<times> u32 \<times> u32) option" where
  "info_segments h s nfree mfree all_sizes =
     (if s \<noteq> 0 then
        Option.bind (info_chunks h s (align_as_chunk (seg_base h s)) nfree mfree all_sizes)
          (\<lambda>(nfree, mfree, all_sizes). info_segments h (seg_next h s) nfree mfree all_sizes)
      else Some (nfree, mfree, all_sizes))"

definition internal_mallinfo :: "heap \<Rightarrow> (mallinfo \<times> heap) run" where
  "internal_mallinfo h =
     (let h = ensure_initialization h in
      if is_initialized h then
        let mfree = m_topsize h + TOP_FOOT_SIZE in
        Option.bind (info_segments h (m_seg h) 1 mfree mfree) (\<lambda>(nfree, mfree, all_sizes).
          ret (\<lparr>arena = all_sizes, ordblks = nfree, hblkhd = m_footprint h - all_sizes, usmblks = m_max_footprint h,
                uordblks = m_footprint h - mfree, fordblks = mfree, keepcost = m_topsize h\<rparr>, h))
      else ret (\<lparr>arena = 0, ordblks = 0, hblkhd = 0, usmblks = 0, uordblks = 0, fordblks = 0, keepcost = 0\<rparr>, h))"

definition dlmallinfo :: "heap \<Rightarrow> (mallinfo \<times> heap) run" where
  "dlmallinfo = internal_mallinfo"

section \<open>Trimming, footprint and parameters\<close>

definition dlmalloc_trim :: "u32 \<Rightarrow> heap \<Rightarrow> (u32 \<times> heap) run" where
  "dlmalloc_trim pad h = sys_trim pad (ensure_initialization h)"

definition dlmalloc_footprint :: "heap \<Rightarrow> u32" where
  "dlmalloc_footprint h = m_footprint h"

definition dlmalloc_max_footprint :: "heap \<Rightarrow> u32" where
  "dlmalloc_max_footprint h = m_max_footprint h"

definition dlmalloc_footprint_limit :: "heap \<Rightarrow> u32" where
  "dlmalloc_footprint_limit h = (let maf = m_footprint_limit h in if maf = 0 then - 1 else maf)"

text \<open>As in the source, the result of the first test is overwritten by the second.\<close>

definition dlmalloc_set_footprint_limit :: "u32 \<Rightarrow> heap \<Rightarrow> u32 \<times> heap" where
  "dlmalloc_set_footprint_limit bytes h =
     (let r = (if bytes = 0 then granularity_align h 1 else 0);
          r = (if bytes = - 1 then 0 else granularity_align h bytes)
      in (r, h\<lparr>m_footprint_limit := r\<rparr>))"

definition dlmallopt :: "u32 \<Rightarrow> u32 \<Rightarrow> heap \<Rightarrow> u32 \<times> heap" where
  "dlmallopt = change_mparam"

definition dlmalloc_usable_size :: "heap \<Rightarrow> u32 \<Rightarrow> u32" where
  "dlmalloc_usable_size h mem =
     (if mem \<noteq> 0 then
        let p = mem2chunk mem in if is_inuse h p then chunksize h p - overhead_for h p else 0
      else 0)"

end
