(* ===== verification/MallocIndex.thy ===== *)
theory MallocIndex
  imports MallocMore
begin

text \<open>
  The arithmetic of \<^verbatim>\<open>malloc.c\<close>: request sizes, the index of a tree bin, the bit scans of other
  compilers, the overflow test of \<^verbatim>\<open>calloc\<close> and the alignments of \<^verbatim>\<open>memalign\<close>.
\<close>

section \<open>Request sizes\<close>

lemma unat_pad_request: "unat n + 11 < 2 ^ 32 \<Longrightarrow> unat (pad_request n) = 8 * ((unat n + 11) div 8)"
proof -
  assume "unat n + 11 < 2 ^ 32"
  then have "unat (n + 11) = unat n + 11" by (simp add: unat_word_ariths)
  moreover have "pad_request n = (n + 11) AND NOT 7" by (simp add: pad_request_def malloc_constants add.commute)
  ultimately show ?thesis by (simp only: unat_low_bits)
qed

lemma max_request: "MAX_REQUEST = 0xFFFFFFC0" and min_request: "MIN_REQUEST = 11" and min_chunk_size: "MIN_CHUNK_SIZE = 16"
  and max_small_request: "MAX_SMALL_REQUEST = 244"
  by (simp_all add: malloc_constants)

lemma unat_request2size:
  "bytes < MAX_REQUEST \<Longrightarrow>
     unat (request2size bytes) = (if unat bytes < 11 then 16 else 8 * ((unat bytes + 11) div 8))"
  using unat_pad_request [of bytes]
  by (simp add: request2size_def max_request min_request min_chunk_size word_less_nat_alt)

text \<open>C36. Every request below the limit gets the best chunk size there is: the smallest multiple of eight
  that is at least sixteen and leaves room for the request behind the chunk's header word.\<close>

theorem request2size_correct:
  assumes "bytes < MAX_REQUEST"
  shows "unat (request2size bytes) = (LEAST s. 8 dvd s \<and> 16 \<le> s \<and> unat bytes + 4 \<le> s)"
proof (rule sym, rule Least_equality)
  show "8 dvd unat (request2size bytes) \<and> 16 \<le> unat (request2size bytes) \<and> unat bytes + 4 \<le> unat (request2size bytes)"
    using unat_request2size [OF assms] by auto
  fix s :: nat assume s: "8 dvd s \<and> 16 \<le> s \<and> unat bytes + 4 \<le> s"
  then obtain k where k: "s = 8 * k" by (auto elim: dvdE)
  have "unat bytes + 4 \<le> 8 * k" using s k by simp
  then have "unat bytes + 11 < 8 * (k + 1)" by simp
  then have "(unat bytes + 11) div 8 \<le> k" by (simp add: div_less_iff_less_mult less_Suc_eq_le [symmetric] mult.commute)
  then show "unat (request2size bytes) \<le> s" using unat_request2size [OF assms] s k by auto
qed

theorem request2size_correct_witness:
  "unat (request2size 100) = (LEAST s. 8 dvd s \<and> 16 \<le> s \<and> 104 \<le> s) \<and> request2size 100 = 104"
  using request2size_correct [of 100] by (simp add: max_request) (simp add: request2size_def malloc_constants pad_request_def)

lemma bit_top:
  fixes x :: u32
  assumes "2 ^ k \<le> unat x" and "unat x < 2 ^ Suc k"
  shows "bit x k" and "\<And>j. k < j \<Longrightarrow> \<not> bit x j"
proof -
  have b: "bit x j \<longleftrightarrow> odd (unat x div 2 ^ j)" for j
    using bit_unsigned_iff [of x j, where 'a = nat] by (auto simp: bit_iff_odd bit_imp_le_length)
  have "unat x div 2 ^ k = 1" using assms by (intro div_nat_eqI) simp_all
  then show "bit x k" by (simp add: b)
  fix j assume "k < j"
  then have "(2 :: nat) ^ Suc k \<le> 2 ^ j" by (intro power_increasing) simp_all
  then have "unat x div 2 ^ j = 0" using assms(2) by (intro div_less) linarith
  then show "\<not> bit x j" by (simp add: b)
qed

lemma builtin_clz_eq:
  assumes "2 ^ k \<le> unat x" and "unat x < 2 ^ Suc k" and "k < 32"
  shows "builtin_clz x = 31 - k"
proof -
  have "rev [0..<32] = rev [Suc k..<32] @ k # rev [0..<k]"
  proof -
    have "[0..<32] = [0..<Suc k] @ [Suc k..<32]"
      using assms(3) upt_add_eq_append [of 0 "Suc k" "32 - Suc k"] by (simp del: upt_Suc)
    then show ?thesis by (simp del: upt_rec_numeral)
  qed
  moreover have "takeWhile (\<lambda>i. \<not> bit x i) (rev [Suc k..<32] @ k # rev [0..<k]) = rev [Suc k..<32]"
    using bit_top [OF assms(1,2)] by (subst takeWhile_append2) (auto simp del: upt_rec_numeral)
  ultimately show ?thesis by (simp add: builtin_clz_def del: upt_rec_numeral)
qed

lemma ex_power: "0 < n \<Longrightarrow> \<exists>k. (2 :: nat) ^ k \<le> n \<and> n < 2 ^ Suc k"
proof (induction n rule: less_induct)
  case (less n)
  show ?case
  proof (cases "n = 1")
    case True
    then show ?thesis by (intro exI [of _ 0]) simp
  next
    case False
    then obtain k where "2 ^ k \<le> n div 2" "n div 2 < 2 ^ Suc k" using less.IH [of "n div 2"] less.prems by auto
    then show ?thesis by (intro exI [of _ "Suc k"]) auto
  qed
qed

lemma unat_push_1: "n < 32 \<Longrightarrow> unat (push_bit n 1 :: u32) = 2 ^ n"
proof -
  assume "n < 32"
  then have "(2 :: nat) ^ n < 2 ^ 32" by (intro power_strict_increasing) simp_all
  then show ?thesis using unat_of_nat [of "2 ^ n", where 'a = 32] by (simp add: push_bit_eq_mult)
qed

lemma minsize_unat:
  assumes "i < 32"
  shows "unat (minsize_for_tree_index i) = 2 ^ (i div 2 + 8) + (i mod 2) * 2 ^ (i div 2 + 7)"
proof -
  let ?m = "i div 2"
  have m: "?m + 8 < 32" using assms by simp
  let ?a = "push_bit (?m + 8) 1 :: u32" and ?b = "push_bit (?m + 7) 1 :: u32"
  have "?a AND ?b = 0" by (rule bit_word_eqI) (auto simp: bit_simps)
  then have "?a OR ?b = ?a + ?b" by (simp add: disjunctive_add_eq_or)
  moreover have "unat (?a + ?b) = 2 ^ (?m + 8) + 2 ^ (?m + 7)"
  proof -
    have "(2 :: nat) ^ (?m + 8) < 2 ^ 31 \<and> (2 :: nat) ^ (?m + 7) < 2 ^ 31"
      using assms by (intro conjI power_strict_increasing) simp_all
    moreover have "unat ?a = 2 ^ (?m + 8)" "unat ?b = 2 ^ (?m + 7)" using m by (simp_all only: unat_push_1)
    ultimately show ?thesis unfolding unat_word_ariths by simp
  qed
  ultimately show ?thesis
    using unat_push_1 [OF m] by (cases "i mod 2 = 0") (simp_all add: minsize_for_tree_index_def malloc_constants add.commute [of 7])
qed

lemma tree_index_cases:
  assumes "256 \<le> unat s"
  obtains (last) "2 ^ 24 \<le> unat s" "compute_tree_index s = 31"
  | (range) k b where "k < 16" "b < 2" "compute_tree_index s = 2 * k + b"
      "2 ^ (k + 8) + b * 2 ^ (k + 7) \<le> unat s" "unat s < 2 ^ (k + 8) + (b + 1) * 2 ^ (k + 7)"
proof -
  let ?x = "drop_bit 8 s"
  have x: "unat ?x = unat s div 256" by (simp add: unat_drop_bit)
  show thesis
  proof (cases "0xFFFF < ?x")
    case True
    then have "0xFFFF < unat s div 256" using x by (simp add: word_less_nat_alt)
    then have "2 ^ 24 \<le> unat s" by simp
    moreover have "compute_tree_index s = 31" using True by (auto simp: compute_tree_index_def Let_def malloc_constants)
    ultimately show thesis by (rule last)
  next
    case False
    have "0 < unat s div 256" using assms by (simp add: div_greater_zero_iff)
    then obtain k where k: "2 ^ k \<le> unat ?x" "unat ?x < 2 ^ Suc k" using ex_power x by metis
    have le: "unat ?x \<le> 0xFFFF" using False by (simp add: word_less_nat_alt)
    have k16: "k < 16"
    proof (rule ccontr)
      assume "\<not> k < 16"
      then have "(2 :: nat) ^ 16 \<le> 2 ^ k" by (intro power_increasing) simp_all
      then show False using k(1) le by simp
    qed
    have lo: "2 ^ (k + 8) \<le> unat s" and hi: "unat s < 2 ^ (k + 9)"
      using k unfolding x by (simp_all add: power_add less_eq_div_iff_mult_less_eq div_less_iff_less_mult)
    let ?b = "unat s div 2 ^ (k + 7) - 2"
    have q: "2 \<le> unat s div 2 ^ (k + 7)" "unat s div 2 ^ (k + 7) < 4"
      using lo hi by (simp_all add: less_eq_div_iff_mult_less_eq div_less_iff_less_mult power_add)
    have "unat (drop_bit (k + 7) s AND 1) = (unat s div 2 ^ (k + 7)) mod 2"
      using unat_and_mask [of "drop_bit (k + 7) s" 1] by (simp add: unat_drop_bit)
    also have "\<dots> = ?b"
    proof -
      have "n mod 2 = n - 2" if "2 \<le> n" "n < 4" for n :: nat
        using that by (cases "n = 2", simp, cases "n = 3", simp_all)
      then show ?thesis using q by blast
    qed
    finally have b: "unat (drop_bit (k + 7) s AND 1) = ?b" .
    have "?x \<noteq> 0" using k(1) by (intro notI) simp
    then have i: "compute_tree_index s = 2 * k + ?b"
      using False builtin_clz_eq [OF k] k16 b by (simp add: compute_tree_index_def malloc_constants)
    have r: "unat s div 2 ^ (k + 7) * 2 ^ (k + 7) \<le> unat s" "unat s < (unat s div 2 ^ (k + 7) + 1) * 2 ^ (k + 7)"
      using dividend_less_div_times [of "2 ^ (k + 7)" "unat s"] by simp_all
    obtain b where b: "unat s div 2 ^ (k + 7) = b + 2" using q(1) by (metis le_add_diff_inverse2)
    show thesis
      by (rule range [OF k16 _ i]) (use q r in \<open>simp_all add: b algebra_simps power_add\<close>)
  qed
qed

theorem compute_tree_index_correct:
  assumes "256 \<le> unat s"
  shows "compute_tree_index s < NTREEBINS \<and> minsize_for_tree_index (compute_tree_index s) \<le> s \<and>
    (compute_tree_index s < NTREEBINS - 1 \<longrightarrow> s < minsize_for_tree_index (compute_tree_index s + 1))"
  using assms
proof (cases s rule: tree_index_cases)
  case last
  then show ?thesis by (simp add: malloc_constants word_le_nat_alt minsize_unat)
next
  case (range k b)
  have i: "(2 * k + b) div 2 = k" "(2 * k + b) mod 2 = b" "2 * k + b < 32" using range(1,2) by auto
  have "s < minsize_for_tree_index (2 * k + b + 1)" if "2 * k + b < 31"
  proof -
    have lt: "2 * k + b + 1 < 32" using that by simp
    have "unat (minsize_for_tree_index (2 * k + b + 1)) = 2 ^ (k + 8) + (b + 1) * 2 ^ (k + 7)"
    proof (cases "b = 0")
      case True
      then show ?thesis using minsize_unat [OF lt] by simp
    next
      case False
      then have b: "b = 1" using range(2) by simp
      then have "2 * k + b + 1 = 2 * (k + 1)" by simp
      then show ?thesis using minsize_unat [OF lt] by (simp add: b power_add)
    qed
    then show ?thesis using range(5) by (simp add: word_less_nat_alt)
  qed
  then show ?thesis using range(3,4) i by (simp add: malloc_constants word_le_nat_alt minsize_unat)
qed


section \<open>The portable index computations\<close>

text \<open>The variants of the two macros for compilers without bit scans.\<close>

definition portable_tree_index :: "u32 \<Rightarrow> nat" where
  "portable_tree_index s =
     (let x = drop_bit TREEBIN_SHIFT s in
      if x = 0 then 0
      else if 0xFFFF < x then NTREEBINS - 1
      else
        let y = x;
            n = drop_bit 16 (y - 0x100) AND 8;
            y = push_bit (unat n) y;
            k = drop_bit 16 (y - 0x1000) AND 4;
            n = n + k;
            y = push_bit (unat k) y;
            k = drop_bit 16 (y - 0x4000) AND 2;
            n = n + k;
            y = push_bit (unat k) y;
            k = 14 - n + drop_bit 15 y
        in unat (push_bit 1 k + (drop_bit (unat k + (TREEBIN_SHIFT - 1)) s AND 1)))"

definition portable_bit2idx :: "u32 \<Rightarrow> nat" where
  "portable_bit2idx x =
     (let y = x - 1;
          k = drop_bit 12 y AND 16; n = k; y = drop_bit (unat k) y;
          k = drop_bit 5 y AND 8; n = n + k; y = drop_bit (unat k) y;
          k = drop_bit 2 y AND 4; n = n + k; y = drop_bit (unat k) y;
          k = drop_bit 1 y AND 2; n = n + k; y = drop_bit (unat k) y;
          k = drop_bit 1 y AND 1; n = n + k; y = drop_bit (unat k) y
      in unat (n + y))"

lemma borrow:
  fixes y c :: u32
  assumes "unat y < 2 ^ 16" and "unat c < 2 ^ 16"
  shows "drop_bit 16 (y - c) = (if unat y < unat c then 0xFFFF else 0)"
proof (cases "unat y < unat c")
  case True
  have "unat (y - c) = 2 ^ 32 - unat c + unat y"
    using True assms by (simp add: unat_sub_if_size word_size)
  then have "unat (drop_bit 16 (y - c)) = (2 ^ 32 - unat c + unat y) div 2 ^ 16" by (simp only: unat_drop_bit)
  also have "\<dots> = 0xFFFF" using True assms by (intro div_nat_eqI) simp_all
  finally show ?thesis using True by (simp add: word_unat_eq_iff)
next
  case False
  have "unat (y - c) = unat y - unat c" using False by (simp add: unat_sub_if_size)
  then have "unat (drop_bit 16 (y - c)) = (unat y - unat c) div 2 ^ 16" by (simp only: unat_drop_bit)
  also have "\<dots> = 0" using assms by (intro div_less) simp
  finally show ?thesis using False by (simp add: word_unat_eq_iff)
qed


lemma norm_step:
  fixes y c m :: u32
  assumes "unat y < 2 ^ 16" and "unat c * 2 ^ unat m = 2 ^ 16" and "0xFFFF AND m = m" and "0 < unat m" and "unat m < 16"
    and "k = drop_bit 16 (y - c) AND m"
  shows "unat k = (if unat y < unat c then unat m else 0)" and "unat (push_bit (unat k) y) = unat y * 2 ^ unat k"
    and "unat y * 2 ^ unat k < 2 ^ 16"
proof -
  have "unat c < 2 ^ 16"
  proof (rule ccontr)
    assume "\<not> unat c < 2 ^ 16"
    then have "2 ^ 16 * 2 \<le> unat c * 2 ^ unat m" using assms(4) self_le_power [of 2 "unat m"] by (intro mult_le_mono) simp_all
    then show False using assms(2) by simp
  qed
  then show k: "unat k = (if unat y < unat c then unat m else 0)"
    using borrow [OF assms(1)] assms(3,6) by simp
  have "unat y * 2 ^ unat m < unat c * 2 ^ unat m" if "unat y < unat c" using that by simp
  then show lt: "unat y * 2 ^ unat k < 2 ^ 16" using k assms(1,2) by simp
  have "unat k < 32" using k assms(5) by simp
  then have "unat ((2 :: u32) ^ unat k) = 2 ^ unat k" using unat_push_1 [of "unat k"] by (simp add: push_bit_eq_mult)
  then show "unat (push_bit (unat k) y) = unat y * 2 ^ unat k"
    using lt by (simp add: push_bit_eq_mult unat_word_ariths)
qed

text \<open>C35. The version of the tree index for compilers without a bit-scan instruction, which finds the
  highest bit by shifts, comparisons through borrows and masks, gives for every size the index that
  the version with the instruction gives, in the cases of no and of all bins too.\<close>

theorem portable_tree_index_correct: "portable_tree_index s = compute_tree_index s"
proof -
  let ?x = "drop_bit 8 s"
  consider "?x = 0" | "0xFFFF < ?x" | "?x \<noteq> 0" "unat ?x < 2 ^ 16"
    by (cases "?x = 0"; cases "0xFFFF < ?x") (auto simp: word_less_nat_alt not_less)
  then show ?thesis
  proof cases
    case 3
    define k1 where "k1 = drop_bit 16 (?x - 0x100) AND 8"
    define y1 where "y1 = push_bit (unat k1) ?x"
    define k2 where "k2 = drop_bit 16 (y1 - 0x1000) AND 4"
    define y2 where "y2 = push_bit (unat k2) y1"
    define k3 where "k3 = drop_bit 16 (y2 - 0x4000) AND 2"
    define y3 where "y3 = push_bit (unat k3) y2"
    have x: "0 < unat ?x" using 3(1) by (simp add: unat_gt_0)
    note s1 = norm_step [OF 3(2) _ _ _ _ k1_def, simplified, folded y1_def]
    have y1: "unat y1 < 2 ^ 16" "2 ^ 8 \<le> unat y1" using s1 x by (auto split: if_splits)
    note s2 = norm_step [OF y1(1) _ _ _ _ k2_def, simplified, folded y2_def]
    have y2: "unat y2 < 2 ^ 16" "2 ^ 12 \<le> unat y2" using s2 y1(2) by (auto split: if_splits)
    note s3 = norm_step [OF y2(1) _ _ _ _ k3_def, simplified, folded y3_def]
    have y3: "unat y3 < 2 ^ 16" "2 ^ 14 \<le> unat y3" using s3 y2(2) by (auto split: if_splits)
    let ?n = "unat k1 + unat k2 + unat k3" and ?d = "unat y3 div 2 ^ 15"
    have n: "?n \<le> 14" using s1(1) s2(1) s3(1) by (auto split: if_splits)
    have y3x: "unat y3 = unat ?x * 2 ^ ?n" using s1(2) s2(2) s3(2) by (simp add: power_add)
    have d: "?d < 2" using y3(1) by (simp add: div_less_iff_less_mult)
    define k where "k = 14 - (k1 + k2 + k3) + drop_bit 15 y3"
    have "unat (k1 + k2 + k3) = ?n" using n by (simp add: unat_word_ariths)
    then have "unat (14 - (k1 + k2 + k3)) = 14 - ?n" using n by (simp add: unat_sub word_le_nat_alt)
    moreover have "unat (drop_bit 15 y3) = ?d" by (simp add: unat_drop_bit)
    ultimately have k: "unat k = 14 - ?n + ?d" using d n unfolding k_def by (simp add: unat_word_ariths)
    have "2 ^ unat k * 2 ^ ?n \<le> unat ?x * 2 ^ ?n" "unat ?x * 2 ^ ?n < 2 ^ Suc (unat k) * 2 ^ ?n"
    proof -
      have e: "(2 :: nat) ^ unat k * 2 ^ ?n = 2 ^ (14 + ?d)" using n by (simp add: power_add [symmetric] k)
      have "2 ^ (14 + ?d) \<le> unat y3 \<and> unat y3 < 2 * 2 ^ (14 + ?d)"
      proof (cases "unat y3 < 2 ^ 15")
        case True
        then show ?thesis using y3(2) by simp
      next
        case False
        then have "?d = 1" using d by (simp add: div_eq_0_iff less_2_cases_iff)
        then show ?thesis using y3(1) False by simp
      qed
      then show "2 ^ unat k * 2 ^ ?n \<le> unat ?x * 2 ^ ?n" "unat ?x * 2 ^ ?n < 2 ^ Suc (unat k) * 2 ^ ?n"
        unfolding y3x [symmetric] power_Suc mult.assoc e by simp_all
    qed
    then have kx: "2 ^ unat k \<le> unat ?x" "unat ?x < 2 ^ Suc (unat k)" by simp_all
    have k15: "unat k \<le> 15" using k d by simp
    have le: "\<not> 0xFFFF < ?x" using 3(2) by (simp add: word_less_nat_alt)
    let ?b = "drop_bit (unat k + 7) s AND 1"
    have "portable_tree_index s = unat (push_bit 1 k + ?b)"
      using 3(1) le unfolding portable_tree_index_def Let_def malloc_constants
      by (simp only: k1_def [symmetric] y1_def [symmetric] k2_def [symmetric] y2_def [symmetric] k3_def [symmetric]
          y3_def [symmetric] k_def [symmetric] if_False simp_thms) simp
    moreover have "unat ?b < 2" using unat_and_mask [of _ 1] by simp
    then have "unat (push_bit 1 k + ?b) = 2 * unat k + unat ?b" using k15 by (simp add: unat_word_ariths)
    moreover have "compute_tree_index s = 2 * unat k + unat ?b"
      using 3(1) le builtin_clz_eq [OF kx] k15 by (simp add: compute_tree_index_def Let_def malloc_constants)
    ultimately show ?thesis by simp
  qed (simp_all add: portable_tree_index_def compute_tree_index_def Let_def malloc_constants)
qed


lemma builtin_ctz_eq: "i < 32 \<Longrightarrow> builtin_ctz (idx2bit i) = i"
proof -
  assume i: "i < 32"
  have "[0..<32] = [0..<i] @ i # [Suc i..<32]"
    using i upt_add_eq_append [of 0 i "32 - i"] by (simp add: upt_conv_Cons del: upt_Suc upt_rec_numeral)
  moreover have "takeWhile (\<lambda>j. \<not> bit (idx2bit i) j) ([0..<i] @ i # [Suc i..<32]) = [0..<i]"
    using i by (subst takeWhile_append2) (auto simp: idx2bit_def bit_simps)
  ultimately show ?thesis by (simp add: builtin_ctz_def del: upt_rec_numeral)
qed

lemma mask_step:
  assumes "i \<le> 32" and "k = drop_bit a (mask i :: u32) AND push_bit b 1" and "b < 5"
  shows "unat k = (if a + b < i then 2 ^ b else 0)"
proof -
  have "k = (if a + b < i then push_bit b 1 else 0)"
    unfolding assms(2) using assms(1,3) by (intro bit_word_eqI) (auto simp: bit_simps)
  then show ?thesis using assms(3) by (auto simp: unat_push_1 simp del: push_bit_of_1)
qed

lemma drop_mask: "i \<le> 32 \<Longrightarrow> drop_bit n (mask i :: u32) = mask (i - n)"
  by (intro bit_word_eqI) (auto simp: bit_simps)

theorem portable_bit2idx_correct:
  assumes "i < 32"
  shows "portable_bit2idx (idx2bit i) = compute_bit2idx (idx2bit i)"
proof -
  define k1 where "k1 = drop_bit 12 (mask i :: u32) AND 16"
  define i1 where "i1 = i - unat k1"
  define k2 where "k2 = drop_bit 5 (mask i1 :: u32) AND 8"
  define i2 where "i2 = i1 - unat k2"
  define k3 where "k3 = drop_bit 2 (mask i2 :: u32) AND 4"
  define i3 where "i3 = i2 - unat k3"
  define k4 where "k4 = drop_bit 1 (mask i3 :: u32) AND 2"
  define i4 where "i4 = i3 - unat k4"
  define k5 where "k5 = drop_bit 1 (mask i4 :: u32) AND 1"
  define i5 where "i5 = i4 - unat k5"
  have "k1 = drop_bit 12 (mask i :: u32) AND push_bit 4 1" by (simp add: k1_def)
  note m1 = mask_step [OF _ this]
  have s1: "unat k1 = (if 16 < i then 16 else 0)" "drop_bit (unat k1) (mask i :: u32) = mask i1"
    using m1 assms by (simp_all add: i1_def drop_mask)
  have "k2 = drop_bit 5 (mask i1 :: u32) AND push_bit 3 1" by (simp add: k2_def)
  note m2 = mask_step [OF _ this]
  have s2: "unat k2 = (if 8 < i1 then 8 else 0)" "drop_bit (unat k2) (mask i1 :: u32) = mask i2" "i1 \<le> 16" "i1 + unat k1 = i"
    using m2 s1(1) assms by (auto simp: i2_def i1_def drop_mask split: if_splits)
  have "k3 = drop_bit 2 (mask i2 :: u32) AND push_bit 2 1" by (simp add: k3_def)
  note m3 = mask_step [OF _ this]
  have s3: "unat k3 = (if 4 < i2 then 4 else 0)" "drop_bit (unat k3) (mask i2 :: u32) = mask i3" "i2 \<le> 8" "i2 + unat k2 = i1"
    using m3 s2(1,3) by (auto simp: i3_def i2_def drop_mask split: if_splits)
  have "k4 = drop_bit 1 (mask i3 :: u32) AND push_bit 1 1" by (simp add: k4_def)
  note m4 = mask_step [OF _ this]
  have s4: "unat k4 = (if 2 < i3 then 2 else 0)" "drop_bit (unat k4) (mask i3 :: u32) = mask i4" "i3 \<le> 4" "i3 + unat k3 = i2"
    using m4 s3(1,3) by (auto simp: i4_def i3_def drop_mask split: if_splits)
  have "k5 = drop_bit 1 (mask i4 :: u32) AND push_bit 0 1" by (simp add: k5_def)
  note m5 = mask_step [OF _ this]
  have s5: "unat k5 = (if 1 < i4 then 1 else 0)" "drop_bit (unat k5) (mask i4 :: u32) = mask i5" "i4 \<le> 2" "i4 + unat k4 = i3"
    using m5 s4(1,3) by (auto simp: i5_def i4_def drop_mask split: if_splits)
  have i5: "i5 \<le> 1" "i5 + unat k5 = i4" using s5(1,3) by (auto simp: i5_def drop_mask split: if_splits)
  have "unat (mask i5 :: u32) = i5" using i5(1) by (cases "i5 = 0") (auto simp: le_Suc_eq)
  then have "unat (k1 + k2 + k3 + k4 + k5 + mask i5) = i"
    using s2(4) s3(4) s4(4) s5(4) i5(2) assms by (simp add: unat_word_ariths)
  moreover have "idx2bit i - 1 = mask i" by (simp add: idx2bit_def mask_eq_exp_minus_1)
  ultimately have "portable_bit2idx (idx2bit i) = i"
    unfolding portable_bit2idx_def Let_def
    by (simp only: k1_def [symmetric] s1(2) k2_def [symmetric] s2(2) k3_def [symmetric] s3(2) k4_def [symmetric] s4(2)
        k5_def [symmetric] s5(2))
  then show ?thesis using builtin_ctz_eq [OF assms] by (simp add: compute_bit2idx_def)
qed

lemma or_eq_zero: "x OR y = 0 \<Longrightarrow> x = 0 \<and> y = 0" for x y :: u32
  by (auto simp: bit_eq_iff bit_or_iff)

section \<open>Requests of calloc\<close>

lemma calloc_request_correct:
  "calloc_request n e = (if unat n * unat e < 2 ^ 32 then n * e else - 1)"
proof (cases "unat n * unat e < 2 ^ 32")
  case True
  then have p: "unat (n * e) = unat n * unat e" by (simp add: unat_word_ariths)
  have "n * e div n = e" if "n \<noteq> 0"
    using that p by (simp add: word_unat_eq_iff unat_div unat_gt_0 [symmetric])
  then show ?thesis using True by (auto simp: calloc_request_def Let_def)
next
  case False
  have n: "n \<noteq> 0" using False by (intro notI) simp
  have "n * e div n \<noteq> e"
  proof
    assume "n * e div n = e"
    then have "unat (n * e) div unat n = unat e" by (metis unat_div)
    then have "unat e * unat n \<le> unat (n * e)" using div_times_less_eq_dividend [of "unat (n * e)" "unat n"] by simp
    then show False using False unat_limit(3) [of "n * e"] by (simp add: mult.commute)
  qed
  moreover have "(n OR e) AND NOT 0xFFFF \<noteq> 0"
  proof
    assume z: "(n OR e) AND NOT 0xFFFF = 0"
    have "w AND NOT (mask 16) = 0 \<Longrightarrow> unat w < 2 ^ 16" for w :: u32
      using unat_and_not_mask [of w 16] by (simp add: div_eq_0_iff)
    moreover have "n AND NOT (mask 16) = 0" "e AND NOT (mask 16) = 0"
      using or_eq_zero [of "n AND NOT 0xFFFF" "e AND NOT 0xFFFF"] z
      by (simp_all add: mask_eq_exp_minus_1 bit.conj_disj_distrib2)
    ultimately have "unat n < 2 ^ 16" "unat e < 2 ^ 16" by blast+
    then have "unat n * unat e < 2 ^ 16 * 2 ^ 16" by (intro mult_strict_mono) simp_all
    then show False using False by simp
  qed
  ultimately show ?thesis using False n by (simp add: calloc_request_def)
qed

section \<open>Alignments that never end\<close>

lemma double_until_hangs:
  assumes "2 ^ 31 < unat alignment" and "a = 0 \<or> (\<exists>k<32. a = push_bit k 1)"
  shows "double_until a alignment = None"
proof (cases "double_until a alignment")
  case (Some r)
  have "double_until a alignment = Some r \<Longrightarrow> 2 ^ 31 < unat alignment \<Longrightarrow> a = 0 \<or> (\<exists>k<32. a = push_bit k 1) \<Longrightarrow> False"
  proof (rule double_until.raw_induct [where P = "\<lambda>a al r. 2 ^ 31 < unat al \<longrightarrow> (a = 0 \<or> (\<exists>k<32. a = push_bit k 1)) \<longrightarrow> False", THEN mp, THEN mp])
    fix f :: "u32 \<Rightarrow> u32 \<Rightarrow> u32 option" and a al y
    assume IH: "\<And>a al r. f a al = Some r \<Longrightarrow> 2 ^ 31 < unat al \<longrightarrow> (a = 0 \<or> (\<exists>k<32. a = push_bit k 1)) \<longrightarrow> False"
      and step: "(if a < al then f (push_bit 1 a) al else Some a) = Some y"
    show "2 ^ 31 < unat al \<longrightarrow> (a = 0 \<or> (\<exists>k<32. a = push_bit k 1)) \<longrightarrow> False"
    proof (intro impI)
      assume al: "2 ^ 31 < unat al" and a: "a = 0 \<or> (\<exists>k<32. a = push_bit k 1)"
      have le: "unat a \<le> 2 ^ 31"
        using a power_increasing [of _ 31 "2 :: nat"] by (auto simp: unat_push_1 simp del: push_bit_of_1)
      have "push_bit 1 a = 0 \<or> (\<exists>k<32. push_bit 1 a = push_bit k 1)"
      proof (cases "a = 0")
        case False
        then obtain k where "k < 32" "a = push_bit k 1" using a by blast
        then show ?thesis by (cases "k = 31") (auto intro!: exI [of _ "Suc k"])
      qed simp
      then show False using IH [of "push_bit 1 a" al y] step al le by (auto simp: word_less_nat_alt)
    qed
  qed
  then show ?thesis using assms Some by blast
qed

end
