(* ===== verification/MallocSmall.thy ===== *)
theory MallocSmall
  imports MallocIndex
begin

text \<open>
  The small bins of \<^verbatim>\<open>malloc.c\<close> as lists: which words of a heap the bins own, the rings that the links
  of free chunks form, and what the three macros for small chunks do to the contents of the bins.
\<close>

section \<open>Aligned chunks and their addresses\<close>

definition room :: "heap \<Rightarrow> u32 \<Rightarrow> u32 \<Rightarrow> bool" where
  "room h p s \<longleftrightarrow>
     8 dvd unat p \<and> 8 dvd unat s \<and> 16 \<le> unat s \<and> 0 < unat p \<and> unat p + unat s < 2 ^ 32 \<and>
     m_least_addr h \<le> p \<and> (unat p + unat s \<le> unat (gm h) \<or> unat (gm h) + 472 \<le> unat p)"

definition separate :: "u32 \<times> u32 \<Rightarrow> u32 \<times> u32 \<Rightarrow> bool" where
  "separate c d \<longleftrightarrow> unat (fst c) + unat (snd c) \<le> unat (fst d) \<or> unat (fst d) + unat (snd d) \<le> unat (fst c)"

text \<open>The words of a free chunk that hold links, and those of \<^verbatim>\<open>_gm_\<close> that are in the memory.\<close>

definition links_of :: "u32 \<times> u32 \<Rightarrow> u32 set" where
  "links_of c = {a. unat (fst c) + 8 \<le> unat a \<and> unat a < unat (fst c) + unat (snd c)}"

definition gm_words :: "heap \<Rightarrow> u32 set" where
  "gm_words h = {a. unat (gm h) + 40 \<le> unat a \<and> unat a < unat (gm h) + 472}"

lemma unat_offset: "unat p + unat s < 2 ^ 32 \<Longrightarrow> unat k < unat s \<Longrightarrow> unat (p + k) = unat p + unat k" for p s k :: u32
  by (simp add: unat_word_ariths)

lemma room_offset: "room h p s \<Longrightarrow> unat k < unat s \<Longrightarrow> unat (p + k) = unat p + unat k"
  by (rule unat_offset) (auto simp: room_def)

lemma room_link:
  assumes "room h p s" and "8 \<le> unat k" and "unat k < unat s"
  shows "p + k \<in> links_of (p, s)"
  using room_offset [OF assms(1,3)] assms by (simp add: links_of_def)

lemma room_gm_words: "room h p s \<Longrightarrow> links_of (p, s) \<inter> gm_words h = {}"
  by (auto simp: room_def links_of_def gm_words_def)

lemma separate_links: "separate c d \<Longrightarrow> links_of c \<inter> links_of d = {}"
  by (auto simp: separate_def links_of_def)

lemma separate_sym: "separate c d \<longleftrightarrow> separate d c"
  by (auto simp: separate_def)

lemma gm_offset:
  assumes "unat (gm h) + 472 \<le> 2 ^ 32" and "unat k < 472"
  shows "unat (gm h + k) = unat (gm h) + unat k"
  using assms by (simp add: unat_word_ariths)


section \<open>Links as rings\<close>

text \<open>The forward and backward pointers of a heap, seen as the links of \<open>KList\<close>. Writing a link of a node
  is a write of the view, on a set of nodes whose fields do not overlap.\<close>

definition chain :: "heap \<Rightarrow> u32 links" where
  "chain h = \<lparr>prv = bk h, nxt = fd h\<rparr>"

definition nodes :: "u32 set \<Rightarrow> bool" where
  "nodes N \<longleftrightarrow> (\<forall>p\<in>N. \<forall>q\<in>N. p + 8 \<noteq> q + 12)"

definition agree :: "u32 set \<Rightarrow> u32 links \<Rightarrow> u32 links \<Rightarrow> bool" where
  "agree N l l' \<longleftrightarrow> (\<forall>n\<in>N. nxt l' n = nxt l n \<and> prv l' n = prv l n)"

lemma agree_refl: "agree N l l"
  by (simp add: agree_def)

lemma agree_ring: "agree N l l' \<Longrightarrow> insert a (set xs) \<subseteq> N \<Longrightarrow> ring l a xs \<Longrightarrow> ring l' a xs"
  by (rule ring_cong) (auto simp: agree_def)

lemma words_store [simp]: "words (store a v h) = (words h)(a := v)"
  by (simp add: store_def)

lemma agree_set_fd:
  "nodes N \<Longrightarrow> p \<in> N \<Longrightarrow> agree N l (chain h) \<Longrightarrow> agree N (set_next p v l) (chain (set_fd p v h))"
  by (auto simp: agree_def chain_def nodes_def set_fd_def fd_def bk_def)

lemma agree_set_bk:
  "nodes N \<Longrightarrow> p \<in> N \<Longrightarrow> agree N l (chain h) \<Longrightarrow> agree N (set_prev p v l) (chain (set_bk p v h))"
  by (fastforce simp: agree_def chain_def nodes_def set_bk_def fd_def bk_def)

text \<open>Putting a node behind the head of a ring, and taking a node out, as the code does it.\<close>

definition link_after :: "u32 \<Rightarrow> u32 \<Rightarrow> u32 \<Rightarrow> heap \<Rightarrow> heap" where
  "link_after b f p h = set_bk p b (set_fd p f (set_bk f p (set_fd b p h)))"

definition link_past :: "u32 \<Rightarrow> u32 \<Rightarrow> heap \<Rightarrow> heap" where
  "link_past b f h = set_fd b f (set_bk f b h)"

lemma ring_insert_after:
  assumes "ring l a xs" and "n \<notin> set (a # xs)"
  shows "ring (list_insert_after a n l) a (n # xs)"
  using list_insert_after_before [OF ring_prv_nxt_head [OF assms(1)], of n]
    ring_insert_before [of l a "[]" xs n "nxt l a"] ring_next [OF assms(1)] assms by simp

lemma insert_after_view:
  assumes "p \<noteq> b" and "p \<noteq> f" and "f = nxt l b"
  shows "list_insert_after b p l = set_prev p b (set_next p f (set_prev f p (set_next b p l)))"
  using assms by (cases l) (auto simp: list_insert_after_def set_prev_def set_next_def Let_def fun_upd_twist)

lemma ring_link_after:
  assumes "nodes N" and "insert p (insert b (set xs)) \<subseteq> N" and "ring (chain h) b xs" and "p \<notin> insert b (set xs)"
    and "f = fd h b"
  shows "ring (chain (link_after b f p h)) b (p # xs)"
proof -
  have f: "f \<in> insert b (set xs)"
    using ring_next [OF assms(3)] assms(5) by (cases xs) (auto simp: chain_def)
  have "agree N (set_prev p b (set_next p f (set_prev f p (set_next b p (chain h))))) (chain (link_after b f p h))"
    unfolding link_after_def using assms(1,2) f by (intro agree_set_fd agree_set_bk agree_refl) auto
  moreover have "list_insert_after b p (chain h) = set_prev p b (set_next p f (set_prev f p (set_next b p (chain h))))"
    using assms(4,5) f by (intro insert_after_view) (auto simp: chain_def)
  ultimately show ?thesis
    using ring_insert_after [OF assms(3), of p] assms(2,4) agree_ring [of N _ _ b "p # xs"] by auto
qed

lemma link_alone: "p \<noteq> b \<Longrightarrow> nodes {p, b} \<Longrightarrow> ring (chain (link_after b b p h)) b [p]"
  by (auto simp: ring_def chain_def link_after_def set_fd_def set_bk_def fd_def bk_def nodes_def)

lemma agree_sub: "agree N l l' \<Longrightarrow> M \<subseteq> N \<Longrightarrow> agree M l l'"
  by (auto simp: agree_def)

lemma ring_link_past:
  assumes "nodes N" and "insert a (set (xs @ n # ys)) \<subseteq> N" and "ring (chain h) a (xs @ n # ys)"
    and "b = bk h n" and "f = fd h n"
  shows "ring (chain (link_past b f h)) a (xs @ ys)"
proof -
  have b: "b \<in> insert a (set xs)" and f: "f \<in> insert a (set ys)"
    using ring_prv_in [OF assms(3)] ring_nxt_in [OF assms(3)] assms(4,5) by (simp_all add: chain_def)
  have "agree N (set_next b f (set_prev f b (chain h))) (chain (link_past b f h))"
    unfolding link_past_def using assms(1,2) b f by (intro agree_set_fd agree_set_bk agree_refl) auto
  then have 1: "agree (insert a (set (xs @ ys))) (set_next b f (set_prev f b (chain h))) (chain (link_past b f h))"
    by (rule agree_sub) (use assms(2) in auto)
  have "n \<notin> insert a (set (xs @ ys))" using assms(3) by (auto simp: ring_def)
  then have "agree (insert a (set (xs @ ys))) (list_remove n (chain h)) (set_next b f (set_prev f b (chain h)))"
    using assms(4,5) by (auto simp: agree_def list_remove_def Let_def chain_def)
  then show ?thesis using 1 ring_remove [OF assms(3)] agree_ring by blast
qed

lemma ring_rotate: "ring l a (xs @ [r]) \<Longrightarrow> ring l r (a # xs)"
  by (auto simp: ring_def)

section \<open>The fields that the bins own\<close>

text \<open>An operation on the bins writes link words of binned chunks and bin words of \<^verbatim>\<open>_gm_\<close>, and may
  change the two bin maps.\<close>

definition rest :: "heap \<Rightarrow> heap" where
  "rest h = h\<lparr>words := (\<lambda>_. 0), m_smallmap := 0, m_treemap := 0\<rparr>"

definition bin_step :: "u32 set \<Rightarrow> heap \<Rightarrow> heap \<Rightarrow> bool" where
  "bin_step A h h' \<longleftrightarrow> rest h' = rest h \<and> (\<forall>a. a \<notin> A \<longrightarrow> words h' a = words h a)"

lemma rest_upd [simp]:
  "rest (h\<lparr>words := w\<rparr>) = rest h" "rest (h\<lparr>m_smallmap := x\<rparr>) = rest h" "rest (h\<lparr>m_treemap := x\<rparr>) = rest h"
  by (simp_all add: rest_def)

lemma rest_eqD:
  assumes "rest h' = rest h"
  shows "gm h' = gm h" "m_least_addr h' = m_least_addr h" "m_dv h' = m_dv h" "m_dvsize h' = m_dvsize h"
    "m_top h' = m_top h" "m_topsize h' = m_topsize h" "m_trim_check h' = m_trim_check h"
    "m_release_checks h' = m_release_checks h"
  using arg_cong [OF assms, of gm] arg_cong [OF assms, of m_least_addr] arg_cong [OF assms, of m_dv]
    arg_cong [OF assms, of m_dvsize] arg_cong [OF assms, of m_top] arg_cong [OF assms, of m_topsize]
    arg_cong [OF assms, of m_trim_check] arg_cong [OF assms, of m_release_checks]
  by (simp_all add: rest_def)

lemma bin_step_refl: "bin_step A h h"
  by (simp add: bin_step_def)

lemma bin_step_store: "a \<in> A \<Longrightarrow> bin_step A h0 h \<Longrightarrow> bin_step A h0 (store a v h)"
  by (auto simp: bin_step_def store_def)

lemma bin_step_maps:
  "bin_step A h0 h \<Longrightarrow> bin_step A h0 (mark_smallmap i h)"
  "bin_step A h0 h \<Longrightarrow> bin_step A h0 (clear_smallmap i h)"
  "bin_step A h0 h \<Longrightarrow> bin_step A h0 (mark_treemap i h)"
  "bin_step A h0 h \<Longrightarrow> bin_step A h0 (clear_treemap i h)"
  by (simp_all add: bin_step_def mark_smallmap_def clear_smallmap_def mark_treemap_def clear_treemap_def)

lemma bin_step_mono: "bin_step A h h' \<Longrightarrow> A \<subseteq> B \<Longrightarrow> bin_step B h h'"
  by (auto simp: bin_step_def)

lemma bin_step_trans: "bin_step A h h' \<Longrightarrow> bin_step A h' h'' \<Longrightarrow> bin_step A h h''"
  by (simp add: bin_step_def)

lemmas set_field_defs = set_prev_foot_def set_head_def set_fd_def set_bk_def set_child_def set_parent_def set_index_def

lemmas field_defs = prev_foot_def head_def fd_def bk_def child_def child_slot_def parent_def index_def

lemma gm_store [simp]:
  "gm (store a v h) = gm h" "m_smallmap (store a v h) = m_smallmap h" "m_treemap (store a v h) = m_treemap h"
  "m_least_addr (store a v h) = m_least_addr h" "m_dv (store a v h) = m_dv h" "m_dvsize (store a v h) = m_dvsize h"
  "m_top (store a v h) = m_top h" "m_topsize (store a v h) = m_topsize h"
  by (simp_all add: store_def)

section \<open>Small bins\<close>

lemma smallmap_bit: "i < 32 \<Longrightarrow> smallmap_is_marked h i \<longleftrightarrow> bit (m_smallmap h) i"
  by (simp add: smallmap_is_marked_def idx2bit_def and_exp_eq_0_iff_not_bit)

lemma treemap_bit: "i < 32 \<Longrightarrow> treemap_is_marked h i \<longleftrightarrow> bit (m_treemap h) i"
  by (simp add: treemap_is_marked_def idx2bit_def and_exp_eq_0_iff_not_bit)

lemma bit_mark: "i < 32 \<Longrightarrow> bit (w OR idx2bit i) j \<longleftrightarrow> bit w j \<or> j = i" for w :: u32
  by (auto simp: idx2bit_def bit_simps)

lemma bit_clear: "i < 32 \<Longrightarrow> bit (w AND NOT (idx2bit i)) j \<longleftrightarrow> bit w j \<and> j \<noteq> i" for w :: u32
  by (auto simp: idx2bit_def bit_simps dest: bit_imp_le_length)

definition small_headers :: "heap \<Rightarrow> u32 set" where
  "small_headers h = smallbin_at h ` {..<32}"

definition small_nodes :: "heap \<Rightarrow> (nat \<Rightarrow> u32 list) \<Rightarrow> u32 set" where
  "small_nodes h L = small_headers h \<union> (\<Union>i<32. set (L i))"

text \<open>\<open>L i\<close> is the content of bin \<open>i\<close>; the links of an empty bin's header are stale.\<close>

definition small_inv :: "heap \<Rightarrow> (nat \<Rightarrow> u32 list) \<Rightarrow> bool" where
  "small_inv h L \<longleftrightarrow>
     (\<forall>i<32. (bit (m_smallmap h) i \<longleftrightarrow> L i \<noteq> []) \<and>
             (L i \<noteq> [] \<longrightarrow> ring (chain h) (smallbin_at h i) (L i))) \<and>
     (\<forall>i<32. \<forall>j<32. i \<noteq> j \<longrightarrow> set (L i) \<inter> set (L j) = {}) \<and>
     small_headers h \<inter> (\<Union>i<32. set (L i)) = {} \<and> inj_on (smallbin_at h) {..<32} \<and>
     (\<forall>i<32. \<forall>p\<in>set (L i). m_least_addr h \<le> p)"

lemma small_invD:
  assumes "small_inv h L" and "i < 32"
  shows "bit (m_smallmap h) i \<longleftrightarrow> L i \<noteq> []" and "L i \<noteq> [] \<Longrightarrow> ring (chain h) (smallbin_at h i) (L i)"
  using assms by (auto simp: small_inv_def)

text \<open>Writing links of the nodes of one bin leaves the rings of the others.\<close>

lemma chain_link_after: "n \<notin> {b, f, p} \<Longrightarrow> nodes N \<Longrightarrow> {b, f, p, n} \<subseteq> N \<Longrightarrow>
    fd (link_after b f p h) n = fd h n \<and> bk (link_after b f p h) n = bk h n"
  by (auto simp: link_after_def field_defs set_field_defs nodes_def)

lemma chain_link_past: "n \<notin> {b, f} \<Longrightarrow> nodes N \<Longrightarrow> {b, f, n} \<subseteq> N \<Longrightarrow>
    fd (link_past b f h) n = fd h n \<and> bk (link_past b f h) n = bk h n"
  by (auto simp: link_past_def field_defs set_field_defs nodes_def)

lemma ring_other:
  "(\<And>n. n \<in> insert a (set xs) \<Longrightarrow> fd h' n = fd h n \<and> bk h' n = bk h n) \<Longrightarrow> ring (chain h) a xs \<Longrightarrow> ring (chain h') a xs"
  by (rule ring_cong [of "chain h"]) (auto simp: chain_def)

definition link_cells :: "u32 set \<Rightarrow> u32 set" where
  "link_cells N = (\<lambda>p. p + 8) ` N \<union> (\<lambda>p. p + 12) ` N"

lemma link_after_step: "{b, f, p} \<subseteq> N \<Longrightarrow> bin_step (link_cells N) h0 h \<Longrightarrow> bin_step (link_cells N) h0 (link_after b f p h)"
  by (auto simp: link_after_def set_field_defs link_cells_def intro!: bin_step_store)

lemma link_past_step: "{b, f} \<subseteq> N \<Longrightarrow> bin_step (link_cells N) h0 h \<Longrightarrow> bin_step (link_cells N) h0 (link_past b f h)"
  by (auto simp: link_past_def set_field_defs link_cells_def intro!: bin_step_store)

lemma insert_small_runs:
  assumes inv: "small_inv h L" and i: "i = small_index s" "i < 32" and nd: "nodes (insert p (small_nodes h L))"
    and p: "p \<notin> small_nodes h L" "m_least_addr h \<le> p"
  shows "\<exists>h'. insert_small_chunk p s h = ret h' \<and> small_inv h' (L(i := p # L i)) \<and>
    bin_step (link_cells (insert p (small_nodes h L))) h h'"
proof -
  let ?b = "smallbin_at h i" and ?N = "insert p (small_nodes h L)"
  let ?f = "if L i = [] then ?b else fd h ?b"
  let ?h = "link_after ?b ?f p (mark_smallmap i h)"
  have b: "?b \<in> small_headers h" using i(2) by (auto simp: small_headers_def)
  have bit: "bit (m_smallmap h) i \<longleftrightarrow> L i \<noteq> []" using small_invD(1) [OF inv i(2)] .
  have rg: "ring (chain h) ?b (L i)" if "L i \<noteq> []" using small_invD(2) [OF inv i(2) that] .
  have fin: "?f \<in> insert ?b (set (L i))"
    using rg ring_next [of "chain h" ?b "L i"] by (cases "L i") (auto simp: chain_def)
  have sub: "insert ?b (set (L i)) \<subseteq> small_nodes h L" using b i(2) by (auto simp: small_nodes_def)
  have f: "?f \<in> ?N" using fin sub by auto
  have bN: "?b \<in> ?N" "p \<in> ?N" using sub by auto
  have ok: "ok_address h (fd h ?b)" if "L i \<noteq> []"
  proof -
    have "fd h ?b \<in> set (L i)"
      using ring_next [OF rg [OF that]] that by (cases "L i") (auto simp: chain_def)
    then show ?thesis using inv i(2) by (auto simp: small_inv_def ok_address_def)
  qed
  have same: "mark_smallmap i h = h" if "L i \<noteq> []"
  proof -
    have "m_smallmap h OR idx2bit i = m_smallmap h"
      using bit that i(2) by (auto intro!: bit_word_eqI simp: bit_mark)
    then show ?thesis by (simp add: mark_smallmap_def)
  qed
  have run: "insert_small_chunk p s h = ret ?h"
    using i bit ok same by (auto simp: insert_small_chunk_def smallmap_bit link_after_def Let_def)
  have step: "bin_step (link_cells ?N) h ?h"
    using f bN by (intro link_after_step bin_step_maps bin_step_refl) auto
  have eq: "gm (link_after ?b x p (mark_smallmap i h)) = gm h"
    "m_smallmap (link_after ?b x p (mark_smallmap i h)) = m_smallmap h OR idx2bit i"
    "m_least_addr (link_after ?b x p (mark_smallmap i h)) = m_least_addr h" for x
    by (simp_all add: link_after_def set_field_defs mark_smallmap_def)
  have chain: "chain (mark_smallmap i h) = chain h"
    by (simp add: chain_def mark_smallmap_def fd_def bk_def fun_eq_iff)
  have new: "ring (chain ?h) ?b (p # L i)"
  proof (cases "L i = []")
    case True
    have "nodes {p, ?b}" using nd bN by (auto simp: nodes_def)
    then show ?thesis using True link_alone [of p ?b "mark_smallmap i h"] p(1) sub by auto
  next
    case False
    have "ring (chain (link_after ?b ?f p (mark_smallmap i h))) ?b (p # L i)"
      by (rule ring_link_after [OF nd]) (use False sub p(1) rg chain in \<open>auto simp: chain_def\<close>)
    then show ?thesis .
  qed
  have other: "ring (chain ?h) (smallbin_at h j) (L j)" if j: "j < 32" "j \<noteq> i" "L j \<noteq> []" for j
  proof (rule ring_other [of _ _ _ "mark_smallmap i h"])
    fix n assume n: "n \<in> insert (smallbin_at h j) (set (L j))"
    then have N: "n \<in> small_nodes h L" using j(1) by (auto simp: small_nodes_def small_headers_def)
    have "n \<notin> insert ?b (set (L i))"
      using n inv i(2) j by (auto simp: small_inv_def small_headers_def inj_on_def)
    then have "n \<notin> {?b, ?f, p}" using fin p(1) N by auto
    then show "fd ?h n = fd (mark_smallmap i h) n \<and> bk ?h n = bk (mark_smallmap i h) n"
      by (rule chain_link_after [OF _ nd]) (use f bN N in auto)
  next
    show "ring (chain (mark_smallmap i h)) (smallbin_at h j) (L j)"
      using small_invD(2) [OF inv j(1,3)] by (simp add: chain)
  qed
  have at: "smallbin_at (link_after ?b x p (mark_smallmap i h)) = smallbin_at h" for x
    unfolding smallbin_at_def by (simp add: eq [unfolded smallbin_at_def])
  have all: "(\<Union>j<32. set ((L(i := p # L i)) j)) = insert p (\<Union>j<32. set (L j))" using i(2) by (auto split: if_splits)
  have rings: "(bit (m_smallmap ?h) j \<longleftrightarrow> (L(i := p # L i)) j \<noteq> []) \<and>
      ((L(i := p # L i)) j \<noteq> [] \<longrightarrow> ring (chain ?h) (smallbin_at ?h j) ((L(i := p # L i)) j))" if "j < 32" for j
    using new other [OF that] small_invD(1) [OF inv that] i(2) by (auto simp: eq at bit_mark)
  have "small_inv ?h (L(i := p # L i))"
    unfolding small_inv_def all small_headers_def at eq
    using inv rings p i(2) by (auto simp: small_inv_def small_nodes_def small_headers_def at eq)
  then show ?thesis using run step by blast
qed

lemma small_inv_shrink:
  assumes inv: "small_inv h L" and zs: "set zs \<subseteq> set (L i)" and at: "smallbin_at h' = smallbin_at h"
    and least: "m_least_addr h' = m_least_addr h"
    and rings: "\<And>j. j < 32 \<Longrightarrow> (bit (m_smallmap h') j \<longleftrightarrow> (L(i := zs)) j \<noteq> []) \<and>
      ((L(i := zs)) j \<noteq> [] \<longrightarrow> ring (chain h') (smallbin_at h j) ((L(i := zs)) j))"
  shows "small_inv h' (L(i := zs))"
proof -
  let ?L = "L(i := zs)"
  have s: "set (?L j) \<subseteq> set (L j)" for j using zs by simp
  have "\<forall>j<32. \<forall>k<32. j \<noteq> k \<longrightarrow> set (?L j) \<inter> set (?L k) = {}"
  proof (intro allI impI)
    fix j k :: nat assume "j < 32" "k < 32" "j \<noteq> k"
    then have "set (L j) \<inter> set (L k) = {}" using inv by (simp add: small_inv_def)
    then show "set (?L j) \<inter> set (?L k) = {}" using s [of j] s [of k] by blast
  qed
  moreover have "small_headers h \<inter> (\<Union>j<32. set (?L j)) = {}"
  proof -
    have "(\<Union>j<32. set (?L j)) \<subseteq> (\<Union>j<32. set (L j))" by (rule UN_mono [OF subset_refl]) (rule s)
    moreover have "small_headers h \<inter> (\<Union>j<32. set (L j)) = {}" using inv by (simp add: small_inv_def)
    ultimately show ?thesis by blast
  qed
  moreover have "\<forall>j<32. \<forall>p\<in>set (?L j). m_least_addr h \<le> p"
  proof (intro allI impI ballI)
    fix j p assume "j < 32" "p \<in> set (?L j)"
    then have "p \<in> set (L j)" using s by blast
    then show "m_least_addr h \<le> p" using inv \<open>j < 32\<close> by (simp add: small_inv_def)
  qed
  moreover have "inj_on (smallbin_at h) {..<32}" using inv by (simp add: small_inv_def)
  moreover have "small_headers h' = small_headers h" by (simp add: small_headers_def at)
  ultimately show ?thesis using rings unfolding small_inv_def at least by simp
qed

lemma small_inv_clear:
  assumes "small_inv h L" and "i < 32"
  shows "small_inv (clear_smallmap i h) (L(i := []))"
proof (rule small_inv_shrink [OF assms(1)])
  have c: "chain (clear_smallmap i h) = chain h" "m_smallmap (clear_smallmap i h) = m_smallmap h AND NOT (idx2bit i)"
    by (simp_all add: chain_def clear_smallmap_def fd_def bk_def fun_eq_iff)
  show "(bit (m_smallmap (clear_smallmap i h)) j \<longleftrightarrow> (L(i := [])) j \<noteq> []) \<and> ((L(i := [])) j \<noteq> [] \<longrightarrow>
      ring (chain (clear_smallmap i h)) (smallbin_at h j) ((L(i := [])) j))" if "j < 32" for j
    using small_invD [OF assms(1) that] assms(2) by (simp add: c bit_clear)
qed (simp_all add: clear_smallmap_def smallbin_at_def fun_eq_iff)

lemma small_inv_link_past:
  assumes inv: "small_inv h L" and i: "i < 32" and nd: "nodes (small_nodes h L)" and Li: "L i = xs @ p # ys"
    and ne: "xs @ ys \<noteq> []"
  shows "small_inv (link_past (bk h p) (fd h p) h) (L(i := xs @ ys)) \<and>
    bin_step (link_cells (small_nodes h L)) h (link_past (bk h p) (fd h p) h)"
proof -
  let ?b = "smallbin_at h i" and ?h = "link_past (bk h p) (fd h p) h"
  have rg: "ring (chain h) ?b (xs @ p # ys)" using small_invD(2) [OF inv i] Li by simp
  have sub: "insert ?b (set (L i)) \<subseteq> small_nodes h L" using i by (auto simp: small_nodes_def small_headers_def)
  have w: "bk h p \<in> insert ?b (set (L i))" "fd h p \<in> insert ?b (set (L i))"
    using ring_prv_in [OF rg] ring_nxt_in [OF rg] Li by (auto simp: chain_def)
  have new: "ring (chain ?h) ?b (xs @ ys)"
    by (rule ring_link_past [OF nd _ rg]) (use sub Li in auto)
  have other: "ring (chain ?h) (smallbin_at h j) (L j)" if j: "j < 32" "j \<noteq> i" "L j \<noteq> []" for j
  proof (rule ring_other [OF _ small_invD(2) [OF inv j(1,3)]])
    fix n assume n: "n \<in> insert (smallbin_at h j) (set (L j))"
    then have N: "n \<in> small_nodes h L" using j(1) by (auto simp: small_nodes_def small_headers_def)
    have "n \<notin> insert ?b (set (L i))"
      using n inv i j by (auto simp: small_inv_def small_headers_def inj_on_def)
    then have "n \<notin> {bk h p, fd h p}" using w by blast
    then show "fd ?h n = fd h n \<and> bk ?h n = bk h n"
      by (rule chain_link_past [OF _ nd]) (use w sub N in auto)
  qed
  have eq: "gm ?h = gm h" "m_smallmap ?h = m_smallmap h" "m_least_addr ?h = m_least_addr h"
    by (simp_all add: link_past_def set_field_defs)
  have at: "smallbin_at ?h = smallbin_at h" by (simp add: smallbin_at_def eq fun_eq_iff)
  have "small_inv ?h (L(i := xs @ ys))"
  proof (rule small_inv_shrink [OF inv _ at eq(3)])
    show "(bit (m_smallmap ?h) j \<longleftrightarrow> (L(i := xs @ ys)) j \<noteq> []) \<and>
      ((L(i := xs @ ys)) j \<noteq> [] \<longrightarrow> ring (chain ?h) (smallbin_at h j) ((L(i := xs @ ys)) j))" if "j < 32" for j
      using new other [OF that] small_invD(1) [OF inv that] ne Li by (auto simp: eq)
  qed (use Li in auto)
  then show ?thesis using sub w by (intro conjI link_past_step bin_step_refl) auto
qed

lemma seg_last_next: "seg l a xs b \<Longrightarrow> nxt l (last (a # xs)) = b"
  by (induction xs arbitrary: a) auto

lemma ring_nxt_prv: "ring l a (xs @ y # ys) \<Longrightarrow> nxt l (prv l y) = y"
  using seg_last_next [of l a xs y] seg_last [of l a xs y] by (auto simp: ring_def)

lemma ring_alone:
  assumes "ring l a (xs @ y # ys)"
  shows "prv l y = nxt l y \<longleftrightarrow> xs = [] \<and> ys = []"
proof -
  have "prv l y = last (a # xs)" "nxt l y = hd (ys @ [a])" "distinct (a # xs @ y # ys)"
    using assms seg_last [of l a xs y] seg_first [of l y ys a] by (auto simp: ring_def)
  then show ?thesis by (cases xs rule: rev_cases; cases ys) auto
qed

lemma unlink_small_runs:
  assumes inv: "small_inv h L" and i: "i = small_index s" "i < 32" and nd: "nodes (small_nodes h L)" and p: "p \<in> set (L i)"
  shows "\<exists>h'. unlink_small_chunk p s h = ret h' \<and> small_inv h' (L(i := remove1 p (L i))) \<and>
    bin_step (link_cells (small_nodes h L)) h h'"
proof -
  let ?b = "smallbin_at h i"
  obtain xs ys where Li: "L i = xs @ p # ys" using p by (meson split_list)
  have rg: "ring (chain h) ?b (xs @ p # ys)" using small_invD(2) [OF inv i(2)] Li by simp
  have rm: "remove1 p (L i) = xs @ ys" using rg Li by (auto simp: ring_def remove1_append)
  have ok: "x = ?b \<or> ok_address h x" if "x \<in> insert ?b (set (L i))" for x
    using that inv i(2) by (auto simp: small_inv_def ok_address_def)
  have f: "fd h p = ?b \<or> ok_address h (fd h p) \<and> bk h (fd h p) = p"
    using ok [of "fd h p"] ring_nxt_in [OF rg] ring_prv_nxt [OF rg] Li by (auto simp: chain_def)
  have b: "bk h p = ?b \<or> ok_address h (bk h p) \<and> fd h (bk h p) = p"
    using ok [of "bk h p"] ring_prv_in [OF rg] ring_nxt_prv [OF rg] Li by (auto simp: chain_def)
  show ?thesis
  proof (cases "xs @ ys = []")
    case True
    then have "unlink_small_chunk p s h = ret (clear_smallmap i h)"
      using f ring_alone [OF rg] i(1) by (simp add: unlink_small_chunk_def Let_def chain_def)
    then show ?thesis
      using small_inv_clear [OF inv i(2)] rm True by (auto intro!: bin_step_maps bin_step_refl)
  next
    case False
    then have "unlink_small_chunk p s h = ret (link_past (bk h p) (fd h p) h)"
      using f b ring_alone [OF rg] i(1) by (auto simp: unlink_small_chunk_def Let_def chain_def link_past_def)
    then show ?thesis using small_inv_link_past [OF inv i(2) nd Li False] rm by simp
  qed
qed

lemma unlink_first_small_runs:
  assumes inv: "small_inv h L" and i: "i < 32" and nd: "nodes (small_nodes h L)" and "L i = p # ys"
  shows "\<exists>h'. fd h (smallbin_at h i) = p \<and> unlink_first_small_chunk (smallbin_at h i) p i h = ret h' \<and>
    small_inv h' (L(i := ys)) \<and> bin_step (link_cells (small_nodes h L)) h h'"
proof -
  let ?b = "smallbin_at h i"
  have rg: "ring (chain h) ?b ([] @ p # ys)" using small_invD(2) [OF inv i] assms(4) by simp
  have first: "fd h ?b = p" "bk h p = ?b" using rg by (auto simp: ring_def chain_def)
  show ?thesis
  proof (cases "ys = []")
    case True
    then have "fd h p = ?b" using rg by (auto simp: ring_def chain_def)
    then have "unlink_first_small_chunk ?b p i h = ret (clear_smallmap i h)"
      by (simp add: unlink_first_small_chunk_def)
    then show ?thesis using small_inv_clear [OF inv i] True first by (auto intro!: bin_step_maps bin_step_refl)
  next
    case False
    then have "fd h p \<in> set (L i)" and "bk h (fd h p) = p" and "fd h p \<noteq> ?b"
      using rg assms(4) by (cases ys; auto simp: ring_def chain_def)+
    then have "unlink_first_small_chunk ?b p i h = ret (link_past (bk h p) (fd h p) h)"
      using inv i first by (auto simp: unlink_first_small_chunk_def Let_def link_past_def small_inv_def ok_address_def)
    then show ?thesis using small_inv_link_past [OF inv i nd, of "[]" p ys] assms(4) False first by simp
  qed
qed

end
