(* ===== verification/MallocTree.thy ===== *)
theory MallocTree
  imports MallocSmall
begin

text \<open>
  The tree bins of \<^verbatim>\<open>malloc.c\<close>. A free chunk of 256 bytes or more is a node of the tree of its bin, or
  stands in the ring of such a node of the same size. First the trees as maps, without memory: what
  it means that the pointers form trees, and that a new node, the removal of a leaf and the
  replacement of a node keep that. Then the macros on the memory.
\<close>

section \<open>Trees as maps\<close>

text \<open>The links of the chunks in the trees, the roots, and the bin number that is stored in a chunk.\<close>

record tview =
  tfd :: "u32 \<Rightarrow> u32"
  tbk :: "u32 \<Rightarrow> u32"
  tpar :: "u32 \<Rightarrow> u32"
  tc0 :: "u32 \<Rightarrow> u32"
  tc1 :: "u32 \<Rightarrow> u32"
  tix :: "u32 \<Rightarrow> nat"
  trt :: "nat \<Rightarrow> u32"

definition tkids :: "tview \<Rightarrow> u32 \<Rightarrow> u32 set" where
  "tkids v p = {tc0 v p, tc1 v p} - {0}"

text \<open>A child points back, lies deeper and in the same bin. A node is the root of its bin, whose parent
  field is the slot, or a child of its parent.\<close>

definition kids_ok :: "tview \<Rightarrow> u32 set \<Rightarrow> (u32 \<Rightarrow> nat) \<Rightarrow> u32 \<Rightarrow> bool" where
  "kids_ok v N rk p \<longleftrightarrow>
     (\<forall>c\<in>tkids v p. c \<in> N \<and> tpar v c = p \<and> rk p < rk c \<and> tix v c = tix v p) \<and>
     (tc0 v p = 0 \<or> tc0 v p \<noteq> tc1 v p)"

definition place_ok :: "tview \<Rightarrow> u32 set \<Rightarrow> (nat \<Rightarrow> u32) \<Rightarrow> u32 \<Rightarrow> bool" where
  "place_ok v N slot p \<longleftrightarrow>
     (if trt v (tix v p) = p then tpar v p = slot (tix v p) else tpar v p \<in> N \<and> p \<in> tkids v (tpar v p))"

definition tree_ok :: "tview \<Rightarrow> u32 set \<Rightarrow> (u32 \<Rightarrow> nat) \<Rightarrow> (nat \<Rightarrow> u32) \<Rightarrow> bool" where
  "tree_ok v N rk slot \<longleftrightarrow>
     finite N \<and> 0 \<notin> N \<and> (\<forall>p\<in>N. tix v p < 32 \<and> kids_ok v N rk p \<and> place_ok v N slot p) \<and>
     (\<forall>i<32. slot i \<notin> N \<and> slot i \<noteq> 0 \<and> (trt v i = 0 \<or> trt v i \<in> N \<and> tix v (trt v i) = i))"

lemma tree_okD:
  assumes "tree_ok v N rk slot" and "p \<in> N"
  shows "p \<noteq> 0" "tix v p < 32" "kids_ok v N rk p" "place_ok v N slot p"
    "slot (tix v p) \<notin> N" "slot (tix v p) \<noteq> 0"
  using assms by (auto simp: tree_ok_def)

lemma tree_kid:
  assumes "tree_ok v N rk slot" and "p \<in> N" and "c \<in> tkids v p"
  shows "c \<in> N" "tpar v c = p" "rk p < rk c" "tix v c = tix v p" "c \<noteq> 0" "c \<noteq> p"
  using assms by (auto simp: tree_ok_def kids_ok_def tkids_def)

text \<open>A node that is not the root of its bin.\<close>

lemma tree_inner:
  assumes "tree_ok v N rk slot" and "p \<in> N" and "trt v (tix v p) \<noteq> p"
  shows "tpar v p \<in> N" "p \<in> tkids v (tpar v p)" "rk (tpar v p) < rk p" "tix v (tpar v p) = tix v p"
proof -
  show 1: "tpar v p \<in> N" "p \<in> tkids v (tpar v p)" using tree_okD(4) [OF assms(1,2)] assms(3) by (simp_all add: place_ok_def)
  show "rk (tpar v p) < rk p" "tix v (tpar v p) = tix v p" using tree_kid(3,4) [OF assms(1) 1] by simp_all
qed

lemma tree_root:
  assumes "tree_ok v N rk slot" and "p \<in> N" and "trt v (tix v p) = p"
  shows "tpar v p = slot (tix v p)" "p \<in> tkids v q \<Longrightarrow> q \<notin> N"
proof -
  show 1: "tpar v p = slot (tix v p)" using tree_okD(4) [OF assms(1,2)] assms(3) by (simp add: place_ok_def)
  show "q \<notin> N" if "p \<in> tkids v q" using tree_kid(2) [OF assms(1) _ that] 1 tree_okD(5) [OF assms(1,2)] by auto
qed

lemma tree_parent_nonzero: "tree_ok v N rk slot \<Longrightarrow> p \<in> N \<Longrightarrow> tpar v p \<noteq> 0"
  using tree_inner(1) [of v N rk slot p] tree_root(1) [of v N rk slot p] tree_okD(6) [of v N rk slot p]
  by (cases "trt v (tix v p) = p") (auto simp: tree_ok_def)

lemma tree_ok_cong:
  assumes "tree_ok v N rk slot" and "\<And>i. i < 32 \<Longrightarrow> trt v' i = trt v i"
    and "\<And>p. p \<in> N \<Longrightarrow> tpar v' p = tpar v p \<and> tc0 v' p = tc0 v p \<and> tc1 v' p = tc1 v p \<and> tix v' p = tix v p"
  shows "tree_ok v' N rk slot"
proof -
  have k: "tkids v' p = tkids v p" if "p \<in> N" for p using assms(3) [OF that] by (simp add: tkids_def)
  have "kids_ok v' N rk p" "place_ok v' N slot p" if p: "p \<in> N" for p
  proof -
    show "kids_ok v' N rk p"
      using tree_okD(3) [OF assms(1) p] assms(3) [OF p] assms(3) unfolding kids_ok_def k [OF p] by metis
    have "tix v p < 32" using tree_okD(2) [OF assms(1) p] .
    then show "place_ok v' N slot p"
      using tree_okD(4) [OF assms(1) p] assms(3) [OF p] assms(2) k by (auto simp: place_ok_def split: if_splits)
  qed
  moreover have "tix v' p < 32" if "p \<in> N" for p using tree_okD(2) [OF assms(1) that] assms(3) [OF that] by simp
  moreover have "trt v' i = 0 \<or> trt v' i \<in> N \<and> tix v' (trt v' i) = i" if i: "i < 32" for i
  proof -
    have "trt v i = 0 \<or> trt v i \<in> N \<and> tix v (trt v i) = i" using assms(1) i unfolding tree_ok_def by blast
    then show ?thesis using assms(2) [OF i] assms(3) [of "trt v i"] by auto
  qed
  ultimately show ?thesis using assms(1) unfolding tree_ok_def by blast
qed

text \<open>A new node: as the root of an empty bin, or as a child.\<close>

lemma tree_ok_new_root:
  assumes ok: "tree_ok v N rk slot" and x: "x \<notin> N" "x \<noteq> 0" "\<And>j. j < 32 \<Longrightarrow> slot j \<noteq> x"
    and i: "i < 32" "trt v i = 0" and xv: "tc0 v x = 0" "tc1 v x = 0" "tix v x = i"
  shows "tree_ok (v\<lparr>trt := (trt v)(i := x), tpar := (tpar v)(x := slot i)\<rparr>) (insert x N) rk slot"
proof -
  let ?v = "v\<lparr>trt := (trt v)(i := x), tpar := (tpar v)(x := slot i)\<rparr>"
  have k: "tkids ?v p = tkids v p" for p by (simp add: tkids_def)
  have "kids_ok ?v (insert x N) rk p \<and> place_ok ?v (insert x N) slot p \<and> tix ?v p < 32" if "p \<in> insert x N" for p
  proof (cases "p = x")
    case True
    then show ?thesis using xv i by (simp add: kids_ok_def place_ok_def tkids_def)
  next
    case False
    then have p: "p \<in> N" using that by simp
    have "kids_ok ?v (insert x N) rk p"
      using tree_okD(3) [OF ok p] x(1) unfolding kids_ok_def k by auto
    moreover have "tix v p \<noteq> i \<or> trt v i \<noteq> p" using i x tree_okD(1) [OF ok p] by auto
    then have "place_ok ?v (insert x N) slot p"
      using tree_okD(4) [OF ok p] tree_inner [OF ok p] i x False p unfolding place_ok_def k
      by (auto split: if_splits)
    ultimately show ?thesis using tree_okD(2) [OF ok p] by simp
  qed
  then show ?thesis using ok x i xv unfolding tree_ok_def by auto
qed

lemma tree_ok_new_kid:
  assumes ok: "tree_ok v N rk slot" and x: "x \<notin> N" "x \<noteq> 0" "\<And>j. j < 32 \<Longrightarrow> slot j \<noteq> x"
    and t: "t \<in> N" and xv: "tc0 v x = 0" "tc1 v x = 0" "tix v x = tix v t"
    and v': "v' = v\<lparr>tc0 := (tc0 v)(t := x), tpar := (tpar v)(x := t)\<rparr> \<and> tc0 v t = 0 \<or>
             v' = v\<lparr>tc1 := (tc1 v)(t := x), tpar := (tpar v)(x := t)\<rparr> \<and> tc1 v t = 0"
  shows "tree_ok v' (insert x N) (rk(x := Suc (rk t))) slot"
proof -
  have tx: "t \<noteq> x" using t x(1) by auto
  have kt: "tkids v' t = insert x (tkids v t)" using v' x(2) by (auto simp: tkids_def)
  have k: "tkids v' p = tkids v p" if "p \<noteq> t" for p using v' that by (auto simp: tkids_def)
  have f: "tpar v' x = t" "\<And>p. p \<noteq> x \<Longrightarrow> tpar v' p = tpar v p" "tix v' = tix v" "trt v' = trt v" using v' by auto
  have n: "trt v (tix v t) \<noteq> x" using ok x tree_okD(2) [OF ok t] by (auto simp: tree_ok_def)
  have "kids_ok v' (insert x N) (rk(x := Suc (rk t))) p \<and> place_ok v' (insert x N) slot p \<and> tix v' p < 32"
    if "p \<in> insert x N" for p
  proof (cases "p = x")
    case True
    have "tkids v' x = {}" using k [of x] tx xv by (simp add: tkids_def)
    moreover have "tc0 v' x = 0" using v' tx xv by auto
    ultimately show ?thesis using True tree_okD(2) [OF ok t] xv n t kt tx
      by (simp add: kids_ok_def place_ok_def f)
  next
    case False
    then have p: "p \<in> N" using that by simp
    have kp: "tkids v p \<subseteq> N" using tree_kid(1) [OF ok p] by auto
    have "kids_ok v' (insert x N) (rk(x := Suc (rk t))) p"
    proof (cases "p = t")
      case True
      have "tc0 v' t = 0 \<or> tc0 v' t \<noteq> tc1 v' t" using v' kp x True by (auto simp: tkids_def)
      then show ?thesis
        using True tree_okD(3) [OF ok p] x(1) kp f xv(3) tx False unfolding kids_ok_def kt True by auto
    next
      case pt: False
      have "tc0 v' p = tc0 v p" "tc1 v' p = tc1 v p" using v' pt by auto
      then show ?thesis
        using tree_okD(3) [OF ok p] x(1) kp f False unfolding kids_ok_def k [OF pt] by auto
    qed
    moreover have "place_ok v' (insert x N) slot p"
    proof (cases "trt v (tix v p) = p")
      case True
      then show ?thesis using tree_root(1) [OF ok p True] False by (simp add: place_ok_def f)
    next
      case nr: False
      have "p \<in> tkids v' (tpar v p)" using tree_inner(2) [OF ok p nr] kt k by (cases "tpar v p = t") auto
      then show ?thesis using nr tree_inner(1) [OF ok p nr] False by (simp add: place_ok_def f)
    qed
    ultimately show ?thesis using tree_okD(2) [OF ok p] by (simp add: f)
  qed
  then show ?thesis using ok x(2,3) unfolding tree_ok_def f by auto
qed

text \<open>What points to \<open>x\<close>, its slot or its parent, is made to point to \<open>r\<close>.\<close>

definition tpoint :: "u32 \<Rightarrow> u32 \<Rightarrow> tview \<Rightarrow> tview" where
  "tpoint x r v =
     (if trt v (tix v x) = x then v\<lparr>trt := (trt v)(tix v x := r)\<rparr>
      else if tc0 v (tpar v x) = x then v\<lparr>tc0 := (tc0 v)(tpar v x := r)\<rparr>
      else v\<lparr>tc1 := (tc1 v)(tpar v x := r)\<rparr>)"

lemma tpoint_same [simp]:
  "tpar (tpoint x r v) = tpar v" "tix (tpoint x r v) = tix v" "tfd (tpoint x r v) = tfd v" "tbk (tpoint x r v) = tbk v"
  by (simp_all add: tpoint_def)

text \<open>The children and the root after that.\<close>

lemma tpoint_kids:
  assumes ok: "tree_ok v N rk slot" and x: "x \<in> N" and p: "p \<in> N" and r: "r \<notin> N"
  shows "tkids (tpoint x r v) p = (if x \<in> tkids v p then (tkids v p - {x}) \<union> ({r} - {0}) else tkids v p)"
    and "tc0 (tpoint x r v) p = 0 \<or> tc0 (tpoint x r v) p \<noteq> tc1 (tpoint x r v) p"
proof -
  have x0: "x \<noteq> 0" using tree_okD(1) [OF ok x] .
  have d: "tc0 v p = 0 \<or> tc0 v p \<noteq> tc1 v p" using tree_okD(3) [OF ok p] by (simp add: kids_ok_def)
  have sub: "tkids v p \<subseteq> N" using tree_kid(1) [OF ok p] by auto
  consider (root) "trt v (tix v x) = x" "x \<notin> tkids v p" | (other) "trt v (tix v x) \<noteq> x" "tpar v x \<noteq> p" "x \<notin> tkids v p"
    | (here) "trt v (tix v x) \<noteq> x" "tpar v x = p" "x \<in> tkids v p"
    using tree_root(2) [OF ok x] tree_inner(2) [OF ok x] tree_kid(2) [OF ok p] p by metis
  note cases = this
  show "tkids (tpoint x r v) p = (if x \<in> tkids v p then (tkids v p - {x}) \<union> ({r} - {0}) else tkids v p)"
  proof (cases rule: cases)
    case here
    then have "tc0 v p = x \<or> tc1 v p = x" by (auto simp: tkids_def)
    then show ?thesis using here d x0 by (auto simp: tpoint_def tkids_def)
  qed (simp_all add: tpoint_def tkids_def, auto)
  show "tc0 (tpoint x r v) p = 0 \<or> tc0 (tpoint x r v) p \<noteq> tc1 (tpoint x r v) p"
  proof (cases rule: cases)
    case here
    have "tc0 v p \<noteq> r \<or> tc0 v p = 0" "tc1 v p \<noteq> r \<or> tc1 v p = 0" using sub r by (auto simp: tkids_def)
    then show ?thesis using here d x0 by (auto simp: tpoint_def tkids_def)
  qed (use d in \<open>simp_all add: tpoint_def\<close>)
qed

lemma tpoint_root:
  "i < 32 \<Longrightarrow> trt (tpoint x r v) i = (if trt v (tix v x) = x \<and> i = tix v x then r else trt v i)"
  by (simp add: tpoint_def)

text \<open>A leaf that is no longer pointed to is out of the tree.\<close>

lemma tree_ok_drop_leaf:
  assumes ok: "tree_ok v N rk slot" and x: "x \<in> N" and leaf: "tkids v x = {}"
  shows "tree_ok (tpoint x 0 v) (N - {x}) rk slot"
proof -
  let ?v = "tpoint x 0 v"
  have z: "0 \<notin> N" using ok by (simp add: tree_ok_def)
  have k: "tkids ?v p = tkids v p - {x}" if "p \<in> N" for p using tpoint_kids(1) [OF ok x that z] by auto
  have "kids_ok ?v (N - {x}) rk p \<and> place_ok ?v (N - {x}) slot p \<and> tix ?v p < 32" if p: "p \<in> N - {x}" for p
  proof (intro conjI)
    have pN: "p \<in> N" "p \<noteq> x" using p by auto
    show "kids_ok ?v (N - {x}) rk p"
      using tree_kid [OF ok pN(1)] tpoint_kids(2) [OF ok x pN(1) z] unfolding kids_ok_def k [OF pN(1)] by auto
    show "place_ok ?v (N - {x}) slot p"
    proof (cases "trt v (tix v p) = p")
      case True
      then show ?thesis using tree_root(1) [OF ok pN(1) True] pN tree_okD(2) [OF ok pN(1)]
        by (auto simp: place_ok_def tpoint_root)
    next
      case False
      have q: "tpar v p \<in> N" "p \<in> tkids v (tpar v p)" using tree_inner [OF ok pN(1) False] by auto
      then have "tpar v p \<noteq> x" using leaf by auto
      then show ?thesis using False q k [OF q(1)] pN tree_okD(1,2) [OF ok pN(1)]
        by (auto simp: place_ok_def tpoint_root)
    qed
    show "tix ?v p < 32" using tree_okD(2) [OF ok pN(1)] by simp
  qed
  moreover have "\<forall>i<32. trt ?v i = 0 \<or> trt ?v i \<in> N - {x} \<and> tix ?v (trt ?v i) = i"
    using ok by (auto simp: tree_ok_def tpoint_root)
  ultimately show ?thesis using ok unfolding tree_ok_def by auto
qed

text \<open>A chunk from outside takes the place of a node, with its children.\<close>

definition treplace :: "u32 \<Rightarrow> u32 \<Rightarrow> tview \<Rightarrow> tview" where
  "treplace x r v =
     (tpoint x r v)\<lparr>tpar := (\<lambda>p. if p \<in> tkids v x then r else if p = r then tpar v x else tpar v p),
        tc0 := (tc0 (tpoint x r v))(r := tc0 v x), tc1 := (tc1 (tpoint x r v))(r := tc1 v x)\<rparr>"

lemma tree_ok_replace:
  assumes ok: "tree_ok v N rk slot" and x: "x \<in> N" and r: "r \<notin> N" "r \<noteq> 0" "\<And>j. j < 32 \<Longrightarrow> slot j \<noteq> r"
    and ri: "tix v r = tix v x"
  shows "tree_ok (treplace x r v) (insert r (N - {x})) (rk(r := rk x)) slot"
proof -
  let ?v = "treplace x r v" and ?N = "insert r (N - {x})" and ?rk = "rk(r := rk x)"
  have f: "tix ?v = tix v" "\<And>i. i < 32 \<Longrightarrow> trt ?v i = (if trt v (tix v x) = x \<and> i = tix v x then r else trt v i)"
    by (simp_all add: treplace_def tpoint_root)
  have par: "tpar ?v p = (if p \<in> tkids v x then r else if p = r then tpar v x else tpar v p)" for p by (simp add: treplace_def)
  have kr: "tkids ?v r = tkids v x" by (simp add: treplace_def tkids_def)
  have k: "tkids ?v p = (if x \<in> tkids v p then insert r (tkids v p - {x}) else tkids v p)" if "p \<in> N" for p
    using tpoint_kids(1) [OF ok x that r(1)] that r by (auto simp: treplace_def tkids_def)
  have kx: "tkids v x \<subseteq> N - {x}" using tree_kid [OF ok x] by auto
  have x32: "tix v x < 32" using tree_okD(2) [OF ok x] .
  have only: "trt v (tix v x) \<noteq> x \<and> tpar v x = p" if "p \<in> N" "x \<in> tkids v p" for p
    using tree_root(2) [OF ok x _ that(2)] tree_kid(2) [OF ok that] that(1) by auto
  have kid: "kids_ok ?v ?N ?rk p" if p: "p \<in> ?N" for p
  proof (cases "p = r")
    case True
    have "tc0 v x = 0 \<or> tc0 v x \<noteq> tc1 v x" using tree_okD(3) [OF ok x] by (simp add: kids_ok_def)
    then have "tc0 ?v r = 0 \<or> tc0 ?v r \<noteq> tc1 ?v r" by (simp add: treplace_def)
    then show ?thesis using True tree_kid [OF ok x] kx r ri unfolding kids_ok_def kr True f par by auto
  next
    case False
    then have pN: "p \<in> N" "p \<noteq> x" using p by auto
    have "tc0 ?v p = 0 \<or> tc0 ?v p \<noteq> tc1 ?v p"
      using tpoint_kids(2) [OF ok x pN(1) r(1)] False by (simp add: treplace_def)
    moreover have "c \<in> ?N \<and> tpar ?v c = p \<and> ?rk p < ?rk c \<and> tix ?v c = tix ?v p" if c: "c \<in> tkids ?v p" for c
    proof (cases "c = r")
      case cr: True
      then have "x \<in> tkids v p" using c k [OF pN(1)] tree_kid(1) [OF ok pN(1)] r(1) by (auto split: if_splits)
      then show ?thesis
        using cr tree_kid [OF ok pN(1)] only [OF pN(1)] False ri r kx unfolding f par by auto
    next
      case cr: False
      then have c': "c \<in> tkids v p" "c \<noteq> x" using c k [OF pN(1)] by (auto split: if_splits)
      have "c \<notin> tkids v x" using tree_kid(2) [OF ok pN(1) c'(1)] tree_kid(2) [OF ok x, of c] pN(2) by auto
      then show ?thesis using tree_kid [OF ok pN(1) c'(1)] c'(2) False cr unfolding f par by auto
    qed
    ultimately show ?thesis unfolding kids_ok_def by blast
  qed
  have place: "place_ok ?v ?N slot p" if p: "p \<in> ?N" for p
  proof (cases "p = r")
    case True
    show ?thesis
    proof (cases "trt v (tix v x) = x")
      case root: True
      then show ?thesis using True tree_root(1) [OF ok x root] x32 ri r(1) kx by (auto simp: place_ok_def f par)
    next
      case inner: False
      have q: "tpar v x \<in> N" "x \<in> tkids v (tpar v x)" "tpar v x \<noteq> x"
        using tree_inner [OF ok x inner] by auto
      have "trt ?v (tix v x) \<noteq> r" using ok x32 r inner f(2) [OF x32] by (auto simp: tree_ok_def)
      then show ?thesis using True inner q k [OF q(1)] ri r(1) kx unfolding place_ok_def f(1) par by auto
    qed
  next
    case False
    then have pN: "p \<in> N" "p \<noteq> x" using p by auto
    have p32: "tix v p < 32" using tree_okD(2) [OF ok pN(1)] .
    show ?thesis
    proof (cases "trt v (tix v p) = p")
      case root: True
      have "p \<notin> tkids v x" using tree_root(2) [OF ok pN(1) root] x by auto
      then show ?thesis using root tree_root(1) [OF ok pN(1) root] p32 pN(2) False
        unfolding place_ok_def f(1) f(2) [OF p32] par by auto
    next
      case inner: False
      have q: "tpar v p \<in> N" "p \<in> tkids v (tpar v p)" using tree_inner [OF ok pN(1) inner] by auto
      have n: "trt ?v (tix v p) \<noteq> p" using inner False f(2) [OF p32] by auto
      show ?thesis
      proof (cases "tpar v p = x")
        case True
        then show ?thesis using q n kr unfolding place_ok_def f(1) par by auto
      next
        case px: False
        have "p \<notin> tkids v x" using tree_kid(2) [OF ok x] px by auto
        then show ?thesis using q n px k [OF q(1)] pN(2) False unfolding place_ok_def f(1) par by auto
      qed
    qed
  qed
  have "\<forall>p\<in>?N. tix ?v p < 32 \<and> kids_ok ?v ?N ?rk p \<and> place_ok ?v ?N slot p"
    using kid place tree_okD(2) [OF ok] ri x32 unfolding f by auto
  moreover have "\<forall>i<32. slot i \<notin> ?N \<and> slot i \<noteq> 0 \<and> (trt ?v i = 0 \<or> trt ?v i \<in> ?N \<and> tix ?v (trt ?v i) = i)"
    using ok r(3) ri by (auto simp: tree_ok_def f)
  moreover have "finite ?N" "0 \<notin> ?N" using ok r(2) by (auto simp: tree_ok_def)
  ultimately show ?thesis unfolding tree_ok_def by blast
qed

section \<open>Trees in memory\<close>

text \<open>The offsets of the link fields, and what keeps the fields of a set of chunks apart.\<close>

definition link_offsets :: "u32 set" where
  "link_offsets = {8, 12, 16, 20, 24, 28}"

definition fields_apart :: "u32 set \<Rightarrow> bool" where
  "fields_apart U \<longleftrightarrow>
     (\<forall>x\<in>U. \<forall>y\<in>U. \<forall>k\<in>link_offsets. \<forall>l\<in>link_offsets. x + k = y + l \<longrightarrow> x = y \<and> k = l)"

definition off_slots :: "heap \<Rightarrow> u32 set \<Rightarrow> bool" where
  "off_slots h U \<longleftrightarrow> (\<forall>x\<in>U. \<forall>k\<in>link_offsets. \<forall>i<32. x + k \<noteq> treebin_at h i)"

definition slots_ok :: "heap \<Rightarrow> u32 set \<Rightarrow> bool" where
  "slots_ok h U \<longleftrightarrow> inj_on (treebin_at h) {..<32} \<and> (\<forall>i<32. treebin_at h i \<notin> U \<and> treebin_at h i \<noteq> 0)"

definition chunks_in :: "heap \<Rightarrow> u32 set \<Rightarrow> bool" where
  "chunks_in h U \<longleftrightarrow> (\<forall>x\<in>U. x \<noteq> 0 \<and> unat x + 32 < 2 ^ 32 \<and> m_least_addr h \<le> x)"

definition tree_cells :: "heap \<Rightarrow> u32 set \<Rightarrow> bool" where
  "tree_cells h U \<longleftrightarrow> fields_apart U \<and> off_slots h U \<and> slots_ok h U \<and> chunks_in h U"

lemma tree_cells_mono:
  assumes "tree_cells h U" and "V \<subseteq> U"
  shows "tree_cells h V"
proof -
  have "fields_apart V" using assms unfolding tree_cells_def fields_apart_def by (meson subsetD)
  moreover have "off_slots h V" using assms unfolding tree_cells_def off_slots_def by (meson subsetD)
  moreover have "slots_ok h V" using assms unfolding tree_cells_def slots_ok_def by (meson subsetD)
  moreover have "chunks_in h V" using assms unfolding tree_cells_def chunks_in_def by (meson subsetD)
  ultimately show ?thesis by (simp add: tree_cells_def)
qed

lemma tree_cells_step:
  assumes "tree_cells h U" and "gm h' = gm h" and "m_least_addr h' = m_least_addr h"
  shows "tree_cells h' U"
proof -
  have "treebin_at h' = treebin_at h" using assms(2) by (simp add: treebin_at_def fun_eq_iff)
  then show ?thesis using assms(1,3) by (simp add: tree_cells_def off_slots_def slots_ok_def chunks_in_def)
qed

lemma tree_cellsD:
  assumes "tree_cells h U" and "x \<in> U"
  shows "y \<in> U \<Longrightarrow> k \<in> link_offsets \<Longrightarrow> l \<in> link_offsets \<Longrightarrow> x + k = y + l \<Longrightarrow> x = y \<and> k = l"
    and "k \<in> link_offsets \<Longrightarrow> i < 32 \<Longrightarrow> x + k \<noteq> treebin_at h i"
    and "x \<noteq> 0" "unat x + 32 < 2 ^ 32" "m_least_addr h \<le> x"
proof -
  show "y \<in> U \<Longrightarrow> k \<in> link_offsets \<Longrightarrow> l \<in> link_offsets \<Longrightarrow> x + k = y + l \<Longrightarrow> x = y \<and> k = l"
    using assms unfolding tree_cells_def fields_apart_def by meson
  show "k \<in> link_offsets \<Longrightarrow> i < 32 \<Longrightarrow> x + k \<noteq> treebin_at h i"
    using assms unfolding tree_cells_def off_slots_def by meson
  show "x \<noteq> 0" "unat x + 32 < 2 ^ 32" "m_least_addr h \<le> x"
    using assms unfolding tree_cells_def chunks_in_def by simp_all
qed

lemma tree_slots:
  assumes "tree_cells h U" and "i < 32"
  shows "treebin_at h i \<notin> U" "treebin_at h i \<noteq> 0" "j < 32 \<Longrightarrow> treebin_at h i = treebin_at h j \<longleftrightarrow> i = j"
  using assms by (auto simp: tree_cells_def slots_ok_def inj_on_def)

definition field :: "heap \<Rightarrow> u32 \<Rightarrow> u32 \<Rightarrow> u32" where
  "field h p k = words h (p + k)"

lemma fields:
  "fd h p = field h p 8" "bk h p = field h p 12" "child h p 0 = field h p 16" "child h p 1 = field h p 20"
  "parent h p = field h p 24" "index h p = field h p 28"
  by (simp_all add: field_def field_defs add.commute)

definition set_field :: "u32 \<Rightarrow> u32 \<Rightarrow> u32 \<Rightarrow> heap \<Rightarrow> heap" where
  "set_field p k = store (p + k)"

lemma set_fields:
  "set_fd p = set_field p 8" "set_bk p = set_field p 12" "set_child p 0 = set_field p 16" "set_child p 1 = set_field p 20"
  "set_parent p = set_field p 24" "set_index p = set_field p 28"
  by (simp_all add: set_field_def set_field_defs child_slot_def add.commute)

lemma field_set_field:
  assumes "tree_cells h U" and "x \<in> U" and "y \<in> U" and "k \<in> link_offsets" and "l \<in> link_offsets"
  shows "field (set_field x k v h') y l = (if x = y \<and> k = l then v else field h' y l)"
  using tree_cellsD(1) [OF assms] by (auto simp: field_def set_field_def)

lemma slot_set_field:
  assumes "tree_cells h U" and "x \<in> U" and "k \<in> link_offsets" and "i < 32"
  shows "words (set_field x k v h') (treebin_at h i) = words h' (treebin_at h i)"
  using tree_cellsD(2) [OF assms] by (auto simp: set_field_def)

lemma field_set_slot:
  assumes "tree_cells h U" and "x \<in> U" and "k \<in> link_offsets" and "i < 32"
  shows "field (store (treebin_at h i) v h') x k = field h' x k"
  using tree_cellsD(2) [OF assms] by (auto simp: field_def)

lemma treebin_at_upd [simp]:
  "treebin_at (store a v h) = treebin_at h" "treebin_at (set_field x k v h) = treebin_at h"
  "treebin_at (mark_treemap i h) = treebin_at h" "treebin_at (clear_treemap i h) = treebin_at h"
  by (simp_all add: treebin_at_def set_field_def mark_treemap_def clear_treemap_def fun_eq_iff)

definition only :: "u32 set \<Rightarrow> (u32 \<Rightarrow> 'a :: zero) \<Rightarrow> u32 \<Rightarrow> 'a" where
  "only U f p = (if p \<in> U then f p else 0)"

definition tree_view :: "u32 set \<Rightarrow> heap \<Rightarrow> tview" where
  "tree_view U h =
     \<lparr>tfd = only U (fd h), tbk = only U (bk h), tpar = only U (parent h), tc0 = only U (\<lambda>p. child h p 0),
      tc1 = only U (\<lambda>p. child h p 1), tix = only U (\<lambda>p. unat (index h p)),
      trt = (\<lambda>i. if i < 32 then words h (treebin_at h i) else 0)\<rparr>"

text \<open>Every write of a field is a write of the view.\<close>

lemma tree_view_store:
  assumes "tree_cells h U" and "x \<in> U"
  shows "tree_view U (set_fd x v h) = (tree_view U h)\<lparr>tfd := (tfd (tree_view U h))(x := v)\<rparr>"
    and "tree_view U (set_bk x v h) = (tree_view U h)\<lparr>tbk := (tbk (tree_view U h))(x := v)\<rparr>"
    and "tree_view U (set_parent x v h) = (tree_view U h)\<lparr>tpar := (tpar (tree_view U h))(x := v)\<rparr>"
    and "tree_view U (set_child x 0 v h) = (tree_view U h)\<lparr>tc0 := (tc0 (tree_view U h))(x := v)\<rparr>"
    and "tree_view U (set_child x 1 v h) = (tree_view U h)\<lparr>tc1 := (tc1 (tree_view U h))(x := v)\<rparr>"
    and "tree_view U (set_index x v h) = (tree_view U h)\<lparr>tix := (tix (tree_view U h))(x := unat v)\<rparr>"
  using assms(2) unfolding set_fields tree_view_def fields
  by (auto simp: only_def fun_eq_iff field_set_field [OF assms] slot_set_field [OF assms] link_offsets_def)

lemma tree_view_slot:
  assumes "tree_cells h U" and "i < 32"
  shows "tree_view U (store (treebin_at h i) v h) = (tree_view U h)\<lparr>trt := (trt (tree_view U h))(i := v)\<rparr>"
  using assms(2) unfolding tree_view_def fields
  by (auto simp: only_def fun_eq_iff field_set_slot [OF assms(1)] tree_slots [OF assms(1)] link_offsets_def)

lemma tree_view_maps [simp]:
  "tree_view U (mark_treemap i h) = tree_view U h" "tree_view U (clear_treemap i h) = tree_view U h"
  by (simp_all add: tree_view_def only_def field_defs mark_treemap_def clear_treemap_def treebin_at_def fun_eq_iff)

section \<open>Rings of chunks of the same size\<close>

definition tlinks :: "tview \<Rightarrow> u32 links" where
  "tlinks v = \<lparr>prv = tbk v, nxt = tfd v\<rparr>"

definition tchunks :: "u32 set \<Rightarrow> (u32 \<Rightarrow> u32 list) \<Rightarrow> u32 set" where
  "tchunks N M = (\<Union>t\<in>N. insert t (set (M t)))"

text \<open>\<open>M t\<close> are the chunks in the ring of node \<open>t\<close>; they have no parent and no children.\<close>

definition mate_ok :: "tview \<Rightarrow> u32 \<Rightarrow> u32 \<Rightarrow> bool" where
  "mate_ok v t m \<longleftrightarrow> tpar v m = 0 \<and> tc0 v m = 0 \<and> tc1 v m = 0 \<and> tix v m = tix v t"

definition mates_ok :: "tview \<Rightarrow> u32 set \<Rightarrow> (u32 \<Rightarrow> u32 list) \<Rightarrow> bool" where
  "mates_ok v N M \<longleftrightarrow>
     (\<forall>t\<in>N. ring (tlinks v) t (M t) \<and> (\<forall>m\<in>set (M t). mate_ok v t m)) \<and>
     (\<forall>t\<in>N. \<forall>u\<in>N. t \<noteq> u \<longrightarrow> insert t (set (M t)) \<inter> insert u (set (M u)) = {})"

lemma mates_okD:
  assumes "mates_ok v N M" and "t \<in> N"
  shows "ring (tlinks v) t (M t)" "m \<in> set (M t) \<Longrightarrow> mate_ok v t m" "m \<in> set (M t) \<Longrightarrow> m \<notin> N" "distinct (t # M t)"
    "u \<in> N \<Longrightarrow> x \<in> insert t (set (M t)) \<Longrightarrow> x \<in> insert u (set (M u)) \<Longrightarrow> u = t"
proof -
  show r: "ring (tlinks v) t (M t)" and "m \<in> set (M t) \<Longrightarrow> mate_ok v t m" using assms by (auto simp: mates_ok_def)
  show d: "distinct (t # M t)" using r by (simp add: ring_def)
  show "u \<in> N \<Longrightarrow> x \<in> insert t (set (M t)) \<Longrightarrow> x \<in> insert u (set (M u)) \<Longrightarrow> u = t" for u x
    using assms unfolding mates_ok_def by blast
  then show "m \<in> set (M t) \<Longrightarrow> m \<notin> N" using d by fastforce
qed

lemma tchunksI: "t \<in> N \<Longrightarrow> t \<in> tchunks N M" "t \<in> N \<Longrightarrow> m \<in> set (M t) \<Longrightarrow> m \<in> tchunks N M"
  by (auto simp: tchunks_def)

lemma mates_ok_cong:
  assumes ok: "mates_ok v N M"
    and same: "\<And>p. p \<in> tchunks N M \<Longrightarrow> tfd v' p = tfd v p \<and> tbk v' p = tbk v p \<and> tix v' p = tix v p"
    and mates: "\<And>t m. t \<in> N \<Longrightarrow> m \<in> set (M t) \<Longrightarrow> tpar v' m = tpar v m \<and> tc0 v' m = tc0 v m \<and> tc1 v' m = tc1 v m"
  shows "mates_ok v' N M"
proof -
  have "ring (tlinks v') t (M t) \<and> (\<forall>m\<in>set (M t). mate_ok v' t m)" if t: "t \<in> N" for t
  proof (intro conjI ballI)
    show "ring (tlinks v') t (M t)"
      by (rule ring_cong [OF mates_okD(1) [OF ok t]]) (use t same in \<open>auto simp: tchunksI tlinks_def\<close>)
    show "mate_ok v' t m" if "m \<in> set (M t)" for m
      using mates_okD(2) [OF ok t that] mates [OF t that] same [of t] same [of m] t that
      by (simp add: mate_ok_def tchunksI)
  qed
  then show ?thesis using ok by (simp add: mates_ok_def)
qed

lemma mates_ok_subset: "mates_ok v N M \<Longrightarrow> N' \<subseteq> N \<Longrightarrow> mates_ok v N' M"
  by (simp add: mates_ok_def subset_iff)

text \<open>A new node with its ring.\<close>

lemma tchunks_cong: "(\<And>t. t \<in> N \<Longrightarrow> M' t = M t) \<Longrightarrow> tchunks N M' = tchunks N M"
  by (simp add: tchunks_def)

lemma tchunks_add:
  assumes "x \<notin> N"
  shows "tchunks (insert x N) (M(x := xs)) = insert x (set xs) \<union> tchunks N M"
proof -
  have "tchunks N (M(x := xs)) = tchunks N M" by (rule tchunks_cong) (use assms in auto)
  then show ?thesis by (simp add: tchunks_def)
qed

lemma mates_ok_add:
  assumes ok: "mates_ok v N M" and apart: "insert x (set xs) \<inter> tchunks N M = {}"
    and ring: "ring (tlinks v) x xs" and mates: "\<And>m. m \<in> set xs \<Longrightarrow> mate_ok v x m"
  shows "mates_ok v (insert x N) (M(x := xs))"
proof -
  have xN: "x \<notin> N" using apart by (auto simp: tchunks_def)
  have "ring (tlinks v) t ((M(x := xs)) t) \<and> (\<forall>m\<in>set ((M(x := xs)) t). mate_ok v t m)" if "t \<in> insert x N" for t
    using that ring mates mates_okD(1,2) [OF ok, of t] by auto
  moreover have "insert t (set ((M(x := xs)) t)) \<inter> insert u (set ((M(x := xs)) u)) = {}"
    if "t \<in> insert x N" "u \<in> insert x N" "t \<noteq> u" for t u
    using that xN apart ok unfolding mates_ok_def tchunks_def by (cases "t = x"; cases "u = x") auto
  ultimately show ?thesis unfolding mates_ok_def by blast
qed

lemma mates_ok_new_node:
  assumes "mates_ok v N M" and "x \<notin> tchunks N M" and "tfd v x = x" "tbk v x = x"
  shows "mates_ok v (insert x N) (M(x := []))"
  using assms by (intro mates_ok_add) (auto simp: ring_Nil tlinks_def)

lemma tchunks_new_node:
  assumes "x \<notin> tchunks N M"
  shows "tchunks (insert x N) (M(x := [])) = insert x (tchunks N M)"
  using assms by (subst tchunks_add) (auto simp: tchunks_def)

text \<open>Changing the ring of one node.\<close>

lemma mates_ok_ring:
  assumes ok: "mates_ok v N M" and t: "t \<in> N"
    and new: "ring (tlinks v') t xs" "\<And>m. m \<in> set xs \<Longrightarrow> mate_ok v' t m" "set xs \<inter> tchunks (N - {t}) M = {}"
    and other: "\<And>p. p \<in> tchunks (N - {t}) M \<Longrightarrow> tfd v' p = tfd v p \<and> tbk v' p = tbk v p \<and>
      tpar v' p = tpar v p \<and> tc0 v' p = tc0 v p \<and> tc1 v' p = tc1 v p \<and> tix v' p = tix v p"
  shows "mates_ok v' N (M(t := xs))"
proof -
  have rest: "mates_ok v' (N - {t}) M"
    by (rule mates_ok_cong [OF mates_ok_subset [OF ok]]) (use other in \<open>auto simp: tchunks_def\<close>)
  have "ring (tlinks v') u ((M(t := xs)) u) \<and> (\<forall>m\<in>set ((M(t := xs)) u). mate_ok v' u m)" if "u \<in> N" for u
    using that new(1,2) mates_okD(1,2) [OF rest, of u] by (cases "u = t") auto
  moreover have "insert a (set ((M(t := xs)) a)) \<inter> insert b (set ((M(t := xs)) b)) = {}"
    if "a \<in> N" "b \<in> N" "a \<noteq> b" for a b
  proof -
    have "insert a (set (M a)) \<inter> insert b (set (M b)) = {}" using ok that by (simp add: mates_ok_def)
    then show ?thesis using that new(3) unfolding tchunks_def by (cases "a = t"; cases "b = t") auto
  qed
  ultimately show ?thesis unfolding mates_ok_def by blast
qed

lemma tchunks_split: "t \<in> N \<Longrightarrow> tchunks N M = insert t (set (M t)) \<union> tchunks (N - {t}) M"
  by (auto simp: tchunks_def)

lemma tchunks_ring: "t \<in> N \<Longrightarrow> tchunks N (M(t := xs)) = insert t (set xs) \<union> tchunks (N - {t}) M"
  by (auto simp: tchunks_def split: if_splits)

lemma tchunks_rest_disjoint:
  assumes "mates_ok v N M" and "t \<in> N"
  shows "insert t (set (M t)) \<inter> tchunks (N - {t}) M = {}"
  using mates_okD(5) [OF assms] by (fastforce simp: tchunks_def)

section \<open>The invariant of the tree bins\<close>

definition tree_inv :: "heap \<Rightarrow> u32 set \<Rightarrow> (u32 \<Rightarrow> u32 list) \<Rightarrow> bool" where
  "tree_inv h N M \<longleftrightarrow>
     (let v = tree_view (tchunks N M) h in
      (\<exists>rk. tree_ok v N rk (treebin_at h)) \<and> mates_ok v N M \<and> (\<forall>i<32. bit (m_treemap h) i \<longleftrightarrow> trt v i \<noteq> 0))"

lemma tree_view_grow:
  assumes "V \<subseteq> U" and "p \<in> V"
  shows "tfd (tree_view U h) p = tfd (tree_view V h) p" "tbk (tree_view U h) p = tbk (tree_view V h) p"
    "tpar (tree_view U h) p = tpar (tree_view V h) p" "tc0 (tree_view U h) p = tc0 (tree_view V h) p"
    "tc1 (tree_view U h) p = tc1 (tree_view V h) p" "tix (tree_view U h) p = tix (tree_view V h) p"
  using assms by (auto simp: tree_view_def only_def)

lemma trt_tree_view: "trt (tree_view U h) = trt (tree_view V h)"
  by (simp add: tree_view_def)

lemma tree_inv_view:
  assumes "tchunks N M \<subseteq> U"
  shows "tree_inv h N M \<longleftrightarrow> (\<exists>rk. tree_ok (tree_view U h) N rk (treebin_at h)) \<and> mates_ok (tree_view U h) N M \<and>
    (\<forall>i<32. bit (m_treemap h) i \<longleftrightarrow> trt (tree_view U h) i \<noteq> 0)"
proof -
  have N: "p \<in> tchunks N M" if "p \<in> N" for p using that by (rule tchunksI)
  note g = tree_view_grow [OF assms]
  have "tree_ok (tree_view U h) N rk s \<longleftrightarrow> tree_ok (tree_view (tchunks N M) h) N rk s" for rk s
    by (rule iffI; erule tree_ok_cong) (use g [OF N] trt_tree_view [of U h "tchunks N M"] in simp_all)
  moreover have "mates_ok (tree_view U h) N M \<longleftrightarrow> mates_ok (tree_view (tchunks N M) h) N M"
    by (rule iffI; erule mates_ok_cong) (use g tchunksI in auto)
  ultimately show ?thesis unfolding tree_inv_def Let_def trt_tree_view [of U h "tchunks N M"] by simp
qed

section \<open>Insertion\<close>

text \<open>The words that the trees own.\<close>

definition tree_words :: "heap \<Rightarrow> u32 set \<Rightarrow> u32 set" where
  "tree_words h U = {x + k | x k. x \<in> U \<and> k \<in> link_offsets} \<union> treebin_at h ` {..<32}"

definition tree_step :: "u32 set \<Rightarrow> heap \<Rightarrow> heap \<Rightarrow> bool" where
  "tree_step A h h' \<longleftrightarrow> bin_step A h h' \<and> m_smallmap h' = m_smallmap h"

lemma tree_step_refl: "tree_step A h h"
  by (simp add: tree_step_def bin_step_refl)

lemma tree_step_store: "a \<in> A \<Longrightarrow> tree_step A h0 h \<Longrightarrow> tree_step A h0 (store a v h)"
  by (simp add: tree_step_def bin_step_store)

lemma tree_step_maps:
  "tree_step A h0 h \<Longrightarrow> tree_step A h0 (mark_treemap i h)" "tree_step A h0 h \<Longrightarrow> tree_step A h0 (clear_treemap i h)"
  by (simp_all add: tree_step_def bin_step_maps, simp_all add: mark_treemap_def clear_treemap_def)

lemma tree_step_trans: "tree_step A h h' \<Longrightarrow> tree_step A h' h'' \<Longrightarrow> tree_step A h h''"
  by (simp add: tree_step_def bin_step_def)

lemma tree_word_field: "x \<in> U \<Longrightarrow> k \<in> link_offsets \<Longrightarrow> x + k \<in> tree_words h U"
  by (auto simp: tree_words_def)

lemma tree_step_field:
  "x \<in> U \<Longrightarrow> k \<in> link_offsets \<Longrightarrow> tree_step (tree_words g U) h0 h \<Longrightarrow> tree_step (tree_words g U) h0 (set_field x k v h)"
  unfolding set_field_def by (intro tree_step_store tree_word_field)

lemma tree_step_slot:
  "i < 32 \<Longrightarrow> tree_step (tree_words g U) h0 h \<Longrightarrow> tree_step (tree_words g U) h0 (store (treebin_at g i) v h)"
  by (rule tree_step_store) (auto simp: tree_words_def)

lemma tree_step_words: "tree_step A h h' \<Longrightarrow> gm h' = gm h \<and> m_least_addr h' = m_least_addr h \<and> treebin_at h' = treebin_at h"
  using rest_eqD(1,2) [of h' h] by (simp add: tree_step_def bin_step_def treebin_at_def fun_eq_iff)

lemma tree_words_step: "tree_step A h h' \<Longrightarrow> tree_words h' U = tree_words h U"
  by (simp add: tree_words_def tree_step_words)

lemma sign_bit_cases: "sign_bit k = 0 \<or> sign_bit k = 1"
proof -
  have "unat (sign_bit k) < 2" by (simp add: sign_bit_def unat_and_mask [of _ 1, simplified mask_eq_exp_minus_1, simplified])
  then show ?thesis by (auto simp: word_unat_eq_iff)
qed

lemma set_child_upd: "store (child_slot t i) x h = set_child t i x h"
  by (simp add: set_child_def)

lemma tree_view_at:
  "p \<in> U \<Longrightarrow> tfd (tree_view U h) p = fd h p" "p \<in> U \<Longrightarrow> tbk (tree_view U h) p = bk h p"
  "p \<in> U \<Longrightarrow> tpar (tree_view U h) p = parent h p" "p \<in> U \<Longrightarrow> tc0 (tree_view U h) p = child h p 0"
  "p \<in> U \<Longrightarrow> tc1 (tree_view U h) p = child h p 1" "p \<in> U \<Longrightarrow> tix (tree_view U h) p = unat (index h p)"
  "i < 32 \<Longrightarrow> trt (tree_view U h) i = words h (treebin_at h i)"
  by (simp_all add: tree_view_def only_def)

lemma ok_chunk: "tree_cells h U \<Longrightarrow> p \<in> U \<Longrightarrow> ok_address h p"
  using tree_cellsD(5) by (simp add: ok_address_def)

lemma ok_child_slot:
  assumes "tree_cells h U" and "p \<in> U" and "b = 0 \<or> b = 1"
  shows "ok_address h (child_slot p b)"
proof -
  have "unat (4 * b) \<le> 4" using assms(3) by auto
  then have "unat (p + (16 + 4 * b)) = unat p + unat (16 + 4 * b)"
    using tree_cellsD(4) [OF assms(1,2)] assms(3) by (intro unat_offset [where s = 32]) auto
  then show ?thesis using tree_cellsD(5) [OF assms(1,2)]
    by (simp add: ok_address_def child_slot_def word_le_nat_alt add.assoc)
qed

lemma kid_member:
  assumes "tree_ok (tree_view U h) N rk slot" and "N \<subseteq> U" and "t \<in> N" and "child h t b \<noteq> 0" and "b = 0 \<or> b = 1"
  shows "child h t b \<in> tkids (tree_view U h) t"
  using assms tree_view_at(4,5) [of t U h] by (auto simp: tkids_def)

lemma insert_large_loop_ends:
  assumes ok: "tree_ok (tree_view U h) N rk slot" and cells: "tree_cells h U" and U: "N \<subseteq> U"
    and f: "\<And>t. t \<in> N \<Longrightarrow> fd h t \<in> U" and t: "t \<in> N"
  shows "\<exists>t'\<in>N. tix (tree_view U h) t' = tix (tree_view U h) t \<and>
    (insert_large_loop x s t k h \<in>
       {ret (set_fd x x (set_bk x x (set_parent x t' (set_child t' b x h)))) | b. (b = 0 \<or> b = 1) \<and> child h t' b = 0} \<or>
     insert_large_loop x s t k h = ret (set_parent x 0 (set_bk x t' (set_fd x (fd h t') (set_fd t' x (set_bk (fd h t') x h))))))"
proof -
  let ?v = "tree_view U h"
  have "finite N" using ok by (simp add: tree_ok_def)
  then obtain B where B: "\<forall>n\<in>rk ` N. n < B" using finite_nat_set_iff_bounded by (metis finite_imageI)
  show ?thesis using t
  proof (induction "B - rk t" arbitrary: t k rule: less_induct)
    case less
    let ?c = "child_slot t (sign_bit k)"
    show ?case
    proof (cases "chunksize h t = s")
      case True
      have "ok_address h t" "ok_address h (fd h t)" using ok_chunk [OF cells] U f less.prems by auto
      then have "insert_large_loop x s t k h = ret (set_parent x 0 (set_bk x t (set_fd x (fd h t) (set_fd t x (set_bk (fd h t) x h)))))"
        using True by (subst insert_large_loop.simps) (simp add: Let_def)
      then show ?thesis using less.prems by blast
    next
      case ne: False
      show ?thesis
      proof (cases "words h ?c = 0")
        case True
        have "ok_address h ?c" using ok_child_slot [OF cells _ sign_bit_cases] U less.prems by auto
        then have "insert_large_loop x s t k h = ret (set_fd x x (set_bk x x (set_parent x t (set_child t (sign_bit k) x h))))"
          using ne True by (subst insert_large_loop.simps) (simp add: Let_def set_child_upd)
        then show ?thesis using less.prems True sign_bit_cases [of k] by (auto simp: child_def)
      next
        case False
        have "words h ?c \<in> tkids ?v t"
          using kid_member [OF ok U less.prems _ sign_bit_cases] False by (simp add: child_def)
        note kid = tree_kid [OF ok less.prems this]
        have "rk (words h ?c) < B" using B kid(1) by auto
        then have "B - rk (words h ?c) < B - rk t" using kid(3) by simp
        from less.hyps [OF this kid(1), of "push_bit 1 k"]
        show ?thesis using ne False kid(4) by (subst (1 2) insert_large_loop.simps) (simp add: Let_def)
      qed
    qed
  qed
qed

lemma treemap_upd [simp]:
  "m_treemap (set_field x k v h) = m_treemap h" "m_treemap (store a v h) = m_treemap h"
  "m_treemap (mark_treemap i h) = m_treemap h OR idx2bit i"
  "m_treemap (clear_treemap i h) = m_treemap h AND NOT (idx2bit i)"
  "treemap_is_marked (set_field x k v h) = treemap_is_marked h"
  by (simp_all add: set_field_def store_def mark_treemap_def clear_treemap_def treemap_is_marked_def fun_eq_iff)

lemma tree_cells_upd [simp]:
  "tree_cells (set_field x k v h) U = tree_cells h U" "tree_cells (store a v h) U = tree_cells h U"
  "tree_cells (mark_treemap i h) U = tree_cells h U" "tree_cells (clear_treemap i h) U = tree_cells h U"
  by (auto intro: tree_cells_step simp: set_field_def store_def mark_treemap_def clear_treemap_def)

lemma set_upd [simp]:
  "tree_cells (set_fd p v h) U = tree_cells h U"
  "tree_cells (set_bk p v h) U = tree_cells h U"
  "tree_cells (set_parent p v h) U = tree_cells h U"
  "tree_cells (set_index p v h) U = tree_cells h U"
  "tree_cells (set_child p b v h) U = tree_cells h U"
  "m_treemap (set_fd p v h) = m_treemap h"
  "m_treemap (set_bk p v h) = m_treemap h"
  "m_treemap (set_parent p v h) = m_treemap h"
  "m_treemap (set_index p v h) = m_treemap h"
  "m_treemap (set_child p b v h) = m_treemap h"
  "treebin_at (set_fd p v h) = treebin_at h"
  "treebin_at (set_bk p v h) = treebin_at h"
  "treebin_at (set_parent p v h) = treebin_at h"
  "treebin_at (set_index p v h) = treebin_at h"
  "treebin_at (set_child p b v h) = treebin_at h"
  "treemap_is_marked (set_fd p v h) = treemap_is_marked h"
  "treemap_is_marked (set_bk p v h) = treemap_is_marked h"
  "treemap_is_marked (set_parent p v h) = treemap_is_marked h"
  "treemap_is_marked (set_index p v h) = treemap_is_marked h"
  "treemap_is_marked (set_child p b v h) = treemap_is_marked h"
  by (simp_all add: set_field_defs treemap_is_marked_def fun_eq_iff)

lemma tree_invI:
  assumes "tchunks N M \<subseteq> U" and "tree_ok (tree_view U h) N rk (treebin_at h)" and "mates_ok (tree_view U h) N M"
    and "\<And>i. i < 32 \<Longrightarrow> bit (m_treemap h) i \<longleftrightarrow> trt (tree_view U h) i \<noteq> 0"
  shows "tree_inv h N M"
  unfolding tree_inv_view [OF assms(1)] using assms(2-4) by blast

text \<open>The chunk is written before it is linked.\<close>

lemma prepared_view:
  assumes cells: "tree_cells h U" and p: "p \<in> U" and i: "i < 32"
  shows "tree_view U (set_child p 0 0 (set_child p 1 0 (set_index p (of_nat i) h))) =
    (tree_view U h)\<lparr>tc0 := (tc0 (tree_view U h))(p := 0), tc1 := (tc1 (tree_view U h))(p := 0),
      tix := (tix (tree_view U h))(p := i)\<rparr>"
proof -
  have "unat (of_nat i :: u32) = i" using i by (simp add: unat_of_nat)
  then show ?thesis using assms by (simp add: tree_view_store)
qed

text \<open>The state in which the chunk is linked: all its own fields but the ring and the parent are set.\<close>

definition tree_ready :: "heap \<Rightarrow> u32 set \<Rightarrow> (u32 \<Rightarrow> u32 list) \<Rightarrow> (u32 \<Rightarrow> nat) \<Rightarrow> u32 \<Rightarrow> nat \<Rightarrow> bool" where
  "tree_ready h N M rk p i \<longleftrightarrow>
     (let v = tree_view (insert p (tchunks N M)) h in
      tree_cells h (insert p (tchunks N M)) \<and> tree_ok v N rk (treebin_at h) \<and> mates_ok v N M \<and>
      p \<notin> tchunks N M \<and> tc0 v p = 0 \<and> tc1 v p = 0 \<and> tix v p = i \<and> i < 32 \<and>
      (\<forall>j<32. bit (m_treemap h) j \<longleftrightarrow> trt v j \<noteq> 0))"

lemma tree_readyD:
  assumes "tree_ready h N M rk p i" and "U = insert p (tchunks N M)"
  shows "tree_cells h U" "tree_ok (tree_view U h) N rk (treebin_at h)" "mates_ok (tree_view U h) N M" "p \<notin> tchunks N M"
    "tc0 (tree_view U h) p = 0" "tc1 (tree_view U h) p = 0" "tix (tree_view U h) p = i" "i < 32"
    "j < 32 \<Longrightarrow> bit (m_treemap h) j \<longleftrightarrow> trt (tree_view U h) j \<noteq> 0" "p \<noteq> 0" "\<And>j. j < 32 \<Longrightarrow> treebin_at h j \<noteq> p"
    "N \<subseteq> U" "p \<notin> N" "p \<in> U"
proof -
  show *: "tree_cells h U" "tree_ok (tree_view U h) N rk (treebin_at h)" "mates_ok (tree_view U h) N M" "p \<notin> tchunks N M"
    "tc0 (tree_view U h) p = 0" "tc1 (tree_view U h) p = 0" "tix (tree_view U h) p = i" "i < 32"
    "j < 32 \<Longrightarrow> bit (m_treemap h) j \<longleftrightarrow> trt (tree_view U h) j \<noteq> 0"
    using assms by (auto simp: tree_ready_def Let_def)
  show "N \<subseteq> U" "p \<in> U" "p \<notin> N" using *(4) assms(2) by (auto intro: tchunksI)
  show "p \<noteq> 0" "\<And>j. j < 32 \<Longrightarrow> treebin_at h j \<noteq> p"
    using tree_cellsD(3) [OF *(1) \<open>p \<in> U\<close>] tree_slots(1) [OF *(1)] \<open>p \<in> U\<close> by auto
qed

lemma prepared_ready:
  assumes inv: "tree_inv h N M" and cells: "tree_cells h (insert p (tchunks N M))" and p: "p \<notin> tchunks N M" and i: "i < 32"
    and h1: "h1 = set_child p 0 0 (set_child p 1 0 (set_index p (of_nat i) h))"
  shows "\<exists>rk. tree_ready h1 N M rk p i"
proof -
  let ?U = "insert p (tchunks N M)"
  have sub: "tchunks N M \<subseteq> ?U" by auto
  obtain rk where ok: "tree_ok (tree_view ?U h) N rk (treebin_at h)" and mates: "mates_ok (tree_view ?U h) N M"
    and map: "\<And>j. j < 32 \<Longrightarrow> bit (m_treemap h) j \<longleftrightarrow> trt (tree_view ?U h) j \<noteq> 0"
    using inv unfolding tree_inv_view [OF sub] by blast
  have v: "tree_view ?U h1 = (tree_view ?U h)\<lparr>tc0 := (tc0 (tree_view ?U h))(p := 0),
      tc1 := (tc1 (tree_view ?U h))(p := 0), tix := (tix (tree_view ?U h))(p := i)\<rparr>"
    unfolding h1 by (rule prepared_view [OF cells insertI1 i])
  have "p \<notin> N" using p by (auto intro: tchunksI)
  then have "tree_ok (tree_view ?U h1) N rk (treebin_at h1)"
    unfolding h1 set_upd by (intro tree_ok_cong [OF ok]) (auto simp: v [unfolded h1])
  moreover have "mates_ok (tree_view ?U h1) N M" by (rule mates_ok_cong [OF mates]) (use p v in \<open>auto simp: tchunks_def\<close>)
  ultimately show ?thesis using map p i cells unfolding tree_ready_def Let_def by (intro exI [of _ rk]) (simp add: v, simp add: h1)
qed

text \<open>As the first node of its bin, as a child, and behind a node of its size.\<close>

lemma link_as_root:
  assumes rd: "tree_ready h N M rk p i" and empty: "\<not> bit (m_treemap h) i"
    and h': "h' = set_fd p p (set_bk p p (set_parent p (treebin_at h i) (store (treebin_at h i) p (mark_treemap i h))))"
  shows "tree_inv h' (insert p N) (M(p := [])) \<and> tree_step (tree_words h (insert p (tchunks N M))) h h'"
proof -
  define U where "U = insert p (tchunks N M)"
  let ?v = "tree_view U h"
  note r = tree_readyD [OF rd U_def]
  let ?w = "?v\<lparr>trt := (trt ?v)(i := p), tpar := (tpar ?v)(p := treebin_at h i)\<rparr>"
  have v: "tree_view U h' = ?w\<lparr>tbk := (tbk ?v)(p := p), tfd := (tfd ?v)(p := p)\<rparr>"
    unfolding h' using r(1,14) tree_view_slot [OF _ r(8), of "mark_treemap i h" U p] by (simp add: tree_view_store)
  have "trt ?v i = 0" using empty r(9) [OF r(8)] by simp
  then have "tree_ok ?w (insert p N) rk (treebin_at h)" using tree_ok_new_root [OF r(2,13,10,11,8)] r(5-7) by simp
  then have t: "tree_ok (tree_view U h') (insert p N) rk (treebin_at h')"
    unfolding h' set_upd treebin_at_upd by (rule tree_ok_cong) (simp_all add: v [unfolded h'])
  have "mates_ok (tree_view U h') N M" by (rule mates_ok_cong [OF r(3)]) (use r(4) in \<open>auto simp: v tchunks_def\<close>)
  then have m: "mates_ok (tree_view U h') (insert p N) (M(p := []))" by (rule mates_ok_new_node [OF _ r(4)]) (simp_all add: v)
  have "tree_inv h' (insert p N) (M(p := []))"
  proof (rule tree_invI [OF _ t m])
    show "tchunks (insert p N) (M(p := [])) \<subseteq> U" using tchunks_new_node [OF r(4)] by (simp add: U_def)
    show "bit (m_treemap h') j \<longleftrightarrow> trt (tree_view U h') j \<noteq> 0" if "j < 32" for j
      using r(9) [OF that] r(8,10) by (auto simp: h' v [unfolded h'] bit_mark)
  qed
  moreover have "tree_step (tree_words h U) h h'"
    unfolding h' set_fields using r(8,14) by (intro tree_step_field tree_step_slot tree_step_maps tree_step_refl) (simp_all add: link_offsets_def)
  ultimately show ?thesis by (simp add: U_def)
qed

lemma link_as_kid:
  assumes rd: "tree_ready h N M rk p i" and t': "t' \<in> N" "tix (tree_view (insert p (tchunks N M)) h) t' = i"
    and b: "b = 0 \<or> b = 1" "child h t' b = 0"
    and h': "h' = set_fd p p (set_bk p p (set_parent p t' (set_child t' b p h)))"
  shows "tree_inv h' (insert p N) (M(p := [])) \<and> tree_step (tree_words h (insert p (tchunks N M))) h h'"
proof -
  define U where "U = insert p (tchunks N M)"
  let ?v = "tree_view U h"
  note r = tree_readyD [OF rd U_def]
  have t'U: "t' \<in> U" using t'(1) r(12) by auto
  define w where "w = (if b = 0 then ?v\<lparr>tc0 := (tc0 ?v)(t' := p), tpar := (tpar ?v)(p := t')\<rparr>
    else ?v\<lparr>tc1 := (tc1 ?v)(t' := p), tpar := (tpar ?v)(p := t')\<rparr>)"
  have v: "tree_view U h' = w\<lparr>tbk := (tbk ?v)(p := p), tfd := (tfd ?v)(p := p)\<rparr>"
    unfolding h' using b(1) r(1,14) t'U by (auto simp: tree_view_store w_def)
  have ws: "tix w = tix ?v" "trt w = trt ?v" "tfd w = tfd ?v" "tbk w = tbk ?v" by (simp_all add: w_def)
  have "tree_ok w (insert p N) (rk(p := Suc (rk t'))) (treebin_at h)"
    by (rule tree_ok_new_kid [OF r(2,13,10,11) t'(1) r(5,6)])
      (use b r(7) t'(2) tree_view_at(4,5) [OF t'U, of h] in \<open>auto simp: w_def U_def\<close>)
  then have t: "tree_ok (tree_view U h') (insert p N) (rk(p := Suc (rk t'))) (treebin_at h')"
    unfolding h' set_upd by (rule tree_ok_cong) (simp_all add: v [unfolded h'])
  have "m \<noteq> p \<and> m \<noteq> t'" if "q \<in> N" "m \<in> set (M q)" for q m
    using mates_okD(3) [OF r(3) that] t'(1) r(4) that by (auto simp: tchunks_def)
  then have "mates_ok (tree_view U h') N M"
    by (intro mates_ok_cong [OF r(3)]) (use r(4) in \<open>auto simp: v w_def tchunks_def\<close>)
  then have m: "mates_ok (tree_view U h') (insert p N) (M(p := []))" by (rule mates_ok_new_node [OF _ r(4)]) (simp_all add: v)
  have "tree_inv h' (insert p N) (M(p := []))"
  proof (rule tree_invI [OF _ t m])
    show "tchunks (insert p N) (M(p := [])) \<subseteq> U" using tchunks_new_node [OF r(4)] by (simp add: U_def)
    show "bit (m_treemap h') j \<longleftrightarrow> trt (tree_view U h') j \<noteq> 0" if "j < 32" for j
      using r(9) [OF that] by (simp add: h' v [unfolded h'] ws)
  qed
  moreover have "tree_step (tree_words h U) h (set_child t' b p h)"
    using b(1) t'U by (auto simp: set_fields link_offsets_def intro!: tree_step_field tree_step_refl)
  then have "tree_step (tree_words h U) h h'"
    unfolding h' set_fields using r(14) by (intro tree_step_field) (simp_all add: link_offsets_def)
  ultimately show ?thesis by (simp add: U_def)
qed

lemma ring_forward:
  assumes "mates_ok (tree_view U h) N M" and "t \<in> N" and "N \<subseteq> U"
  shows "fd h t \<in> insert t (set (M t))"
  using ring_next [OF mates_okD(1) [OF assms(1,2)]] tree_view_at(1) [of t U h] assms(2,3)
  by (cases "M t") (auto simp: tlinks_def)

lemma link_as_mate:
  assumes rd: "tree_ready h N M rk p i" and t': "t' \<in> N" "tix (tree_view (insert p (tchunks N M)) h) t' = i"
    and h': "h' = set_parent p 0 (set_bk p t' (set_fd p (fd h t') (set_fd t' p (set_bk (fd h t') p h))))"
  shows "tree_inv h' N (M(t' := p # M t')) \<and> tree_step (tree_words h (insert p (tchunks N M))) h h' \<and>
    tchunks N (M(t' := p # M t')) = insert p (tchunks N M)"
proof -
  define U where "U = insert p (tchunks N M)"
  let ?v = "tree_view U h" and ?f = "fd h t'"
  note r = tree_readyD [OF rd U_def]
  have ft: "?f \<in> insert t' (set (M t'))" by (rule ring_forward [OF r(3) t'(1) r(12)])
  have inU: "t' \<in> U" "?f \<in> U" using t'(1) ft by (auto simp: U_def tchunks_def)
  have pf: "p \<noteq> t'" "p \<noteq> ?f" using ft r(4) t'(1) by (auto simp: tchunks_def)
  have v: "tree_view U h' = ?v\<lparr>tbk := (tbk ?v)(?f := p, p := t'), tfd := (tfd ?v)(t' := p, p := ?f), tpar := (tpar ?v)(p := 0)\<rparr>"
    unfolding h' using r(1,14) inU by (simp add: tree_view_store)
  have "tlinks (tree_view U h') = list_insert_after t' p (tlinks ?v)"
    using pf tree_view_at(1) [OF inU(1), of h]
    by (subst insert_after_view) (auto simp: tlinks_def v set_prev_def set_next_def fun_upd_twist)
  then have ring: "ring (tlinks (tree_view U h')) t' (p # M t')"
    using ring_insert_after [OF mates_okD(1) [OF r(3) t'(1)], of p] r(4) t'(1) by (auto simp: tchunks_def)
  have m: "mates_ok (tree_view U h') N (M(t' := p # M t'))"
  proof (rule mates_ok_ring [OF r(3) t'(1) ring])
    show "mate_ok (tree_view U h') t' m" if "m \<in> set (p # M t')" for m
      using that mates_okD(2) [OF r(3) t'(1), of m] t'(2) [folded U_def] pf r(5-7) by (cases "m = p") (auto simp: mate_ok_def v)
    show "set (p # M t') \<inter> tchunks (N - {t'}) M = {}"
      using tchunks_rest_disjoint [OF r(3) t'(1)] r(4) by (auto simp: tchunks_def)
    fix q assume "q \<in> tchunks (N - {t'}) M"
    then have "q \<notin> {p, t', ?f}" using tchunks_rest_disjoint [OF r(3) t'(1)] ft r(4) by (auto simp: tchunks_def)
    then show "tfd (tree_view U h') q = tfd ?v q \<and> tbk (tree_view U h') q = tbk ?v q \<and> tpar (tree_view U h') q = tpar ?v q \<and>
        tc0 (tree_view U h') q = tc0 ?v q \<and> tc1 (tree_view U h') q = tc1 ?v q \<and> tix (tree_view U h') q = tix ?v q"
      by (simp add: v)
  qed
  have t: "tree_ok (tree_view U h') N rk (treebin_at h')"
    unfolding h' set_upd by (rule tree_ok_cong [OF r(2)]) (use r(13) in \<open>auto simp: v [unfolded h']\<close>)
  have ch: "tchunks N (M(t' := p # M t')) = U"
    unfolding U_def tchunks_ring [OF t'(1)] tchunks_split [OF t'(1), of M] by auto
  have "tree_inv h' N (M(t' := p # M t'))"
    by (rule tree_invI [OF eq_refl [OF ch] t m]) (use r(9) in \<open>simp add: h' v [unfolded h']\<close>)
  moreover have "tree_step (tree_words h U) h h'"
    unfolding h' set_fields using r(14) inU by (intro tree_step_field tree_step_refl) (simp_all add: link_offsets_def)
  ultimately show ?thesis using ch by (simp add: U_def)
qed

lemma insert_large_runs:
  assumes inv: "tree_inv h N M" and cells: "tree_cells h (insert p (tchunks N M))" and p: "p \<notin> tchunks N M"
    and s: "256 \<le> unat s"
  shows "\<exists>h' N' M'. insert_large_chunk p s h = ret h' \<and> tree_inv h' N' M' \<and>
    tchunks N' M' = insert p (tchunks N M) \<and> tree_step (tree_words h (insert p (tchunks N M))) h h'"
proof -
  define U where "U = insert p (tchunks N M)"
  define i where "i = compute_tree_index s"
  define h1 where "h1 = set_child p 0 0 (set_child p 1 0 (set_index p (of_nat i) h))"
  let ?slot = "treebin_at h i" and ?v = "tree_view U h1"
  have i: "i < 32" using compute_tree_index_correct [OF s] by (simp add: i_def NTREEBINS_def)
  obtain rk where rd: "tree_ready h1 N M rk p i" using prepared_ready [OF inv cells p i h1_def] by blast
  note r = tree_readyD [OF rd U_def]
  have c1: "treebin_at h1 = treebin_at h" "m_treemap h1 = m_treemap h" by (simp_all add: h1_def)
  have step1: "tree_step (tree_words h U) h h1"
    unfolding h1_def set_fields using r(14) by (intro tree_step_field tree_step_refl) (simp_all add: link_offsets_def)
  have run: "insert_large_chunk p s h =
      (if bit (m_treemap h) i then insert_large_loop p s (words h1 ?slot) (push_bit (leftshift_for_tree_index i) s) h1
       else ret (set_fd p p (set_bk p p (set_parent p ?slot (store ?slot p (mark_treemap i h1))))))"
    by (simp add: insert_large_chunk_def Let_def i_def [symmetric] h1_def [symmetric] c1 treemap_bit [OF i])
  have finish: ?thesis if "insert_large_chunk p s h = ret h'" "tree_inv h' N' M'" "tchunks N' M' = U"
    "tree_step (tree_words h1 U) h1 h'" for h' N' M'
    using that tree_step_trans [OF step1 that(4) [unfolded tree_words_step [OF step1]]] unfolding U_def by blast
  show ?thesis
  proof (cases "bit (m_treemap h) i")
    case False
    then show ?thesis
      using finish [OF _ conjunct1 [OF link_as_root [OF rd _ refl]] _ conjunct2 [OF link_as_root [OF rd _ refl], folded U_def]]
        run c1 tchunks_new_node [OF p] by (simp add: U_def)
  next
    case True
    let ?t = "words h1 ?slot"
    have "trt ?v i = ?t" using tree_view_at(7) [OF i] c1(1) by simp
    then have t: "?t \<in> N" "tix ?v ?t = i" using True r(9) [OF i] r(2) i c1(2) by (auto simp: tree_ok_def)
    have f: "fd h1 q \<in> U" if "q \<in> N" for q
      using ring_forward [OF r(3) that r(12)] that by (auto simp: U_def tchunks_def)
    obtain t' where t': "t' \<in> N" "tix ?v t' = i" and
      "insert_large_loop p s ?t (push_bit (leftshift_for_tree_index i) s) h1 \<in>
         {ret (set_fd p p (set_bk p p (set_parent p t' (set_child t' b p h1)))) | b. (b = 0 \<or> b = 1) \<and> child h1 t' b = 0} \<or>
       insert_large_loop p s ?t (push_bit (leftshift_for_tree_index i) s) h1 =
         ret (set_parent p 0 (set_bk p t' (set_fd p (fd h1 t') (set_fd t' p (set_bk (fd h1 t') p h1)))))"
      using insert_large_loop_ends [OF r(2,1,12) f t(1), of p s "push_bit (leftshift_for_tree_index i) s"]
      unfolding t(2) by blast
    then consider (kid) b where "b = 0 \<or> b = 1" "child h1 t' b = 0"
        "insert_large_chunk p s h = ret (set_fd p p (set_bk p p (set_parent p t' (set_child t' b p h1))))"
      | (mate) "insert_large_chunk p s h =
          ret (set_parent p 0 (set_bk p t' (set_fd p (fd h1 t') (set_fd t' p (set_bk (fd h1 t') p h1)))))"
      using run True by auto
    then show ?thesis
    proof cases
      case kid
      from link_as_kid [OF rd t'(1) t'(2) [unfolded U_def] kid(1,2) refl] show ?thesis
        using finish [OF kid(3)] tchunks_new_node [OF p] unfolding U_def by blast
    next
      case mate
      from link_as_mate [OF rd t'(1) t'(2) [unfolded U_def] refl] show ?thesis
        using finish [OF mate] unfolding U_def by blast
    qed
  qed
qed

section \<open>Taking a chunk out\<close>

text \<open>The rightmost leaf below a child of a node, with the field that points to it.\<close>

lemma rightmost_leaf_ends:
  assumes ok: "tree_ok (tree_view U h) N rk slot" and U: "N \<subseteq> U" and y: "y \<in> N" and b: "b = 0 \<or> b = 1" "child h y b \<noteq> 0"
  shows "\<exists>z\<in>N. \<exists>c. (c = 0 \<or> c = 1) \<and> rk y \<le> rk z \<and> tix (tree_view U h) z = tix (tree_view U h) y \<and>
    child h z c \<noteq> 0 \<and> tkids (tree_view U h) (child h z c) = {} \<and>
    rightmost_leaf h (child_slot y b) (child h y b) = Some (child_slot z c, child h z c)"
proof -
  let ?v = "tree_view U h"
  have "finite N" using ok by (simp add: tree_ok_def)
  then obtain B where B: "\<forall>n\<in>rk ` N. n < B" using finite_nat_set_iff_bounded by (metis finite_imageI)
  show ?thesis using y b
  proof (induction "B - rk y" arbitrary: y b rule: less_induct)
    case less
    let ?q = "child h y b"
    have "?q \<in> tkids ?v y" using kid_member [OF ok U less.prems(1,3,2)] .
    note q = tree_kid [OF ok less.prems(1) this]
    have qU: "?q \<in> U" using q(1) U by auto
    have "rk ?q < B" using q(1) B by auto
    then have lt: "B - rk ?q < B - rk y" using q(3) by simp
    have step: ?case if c: "c = 0 \<or> c = 1" "child h ?q c \<noteq> 0"
      and run: "rightmost_leaf h (child_slot y b) ?q = rightmost_leaf h (child_slot ?q c) (child h ?q c)" for c
    proof -
      obtain z d where z: "z \<in> N" "d = 0 \<or> d = 1" "rk ?q \<le> rk z" "tix ?v z = tix ?v ?q" "child h z d \<noteq> 0"
        "tkids ?v (child h z d) = {}"
        "rightmost_leaf h (child_slot ?q c) (child h ?q c) = Some (child_slot z d, child h z d)"
        using less.hyps [OF lt q(1) c] by blast
      have "rk y \<le> rk z" using z(3) q(3) by simp
      then show ?case unfolding run z(7) by (intro bexI [OF _ z(1)] exI [of _ d]) (simp add: z q(4))
    qed
    consider "child h ?q 1 \<noteq> 0" | "child h ?q 1 = 0" "child h ?q 0 \<noteq> 0" | "child h ?q 1 = 0" "child h ?q 0 = 0" by blast
    then show ?case
    proof cases
      case 1
      then show ?thesis by (intro step [of 1]) (simp_all add: rightmost_leaf.simps [of h _ ?q])
    next
      case 2
      then show ?thesis by (intro step [of 0]) (simp_all add: rightmost_leaf.simps [of h _ ?q])
    next
      case 3
      then have "tkids ?v ?q = {}" using tree_view_at(4,5) [OF qU, of h] by (simp add: tkids_def)
      then show ?thesis using less.prems 3 by (auto simp: rightmost_leaf.simps [of h _ ?q])
    qed
  qed
qed

text \<open>Writing zero there takes the leaf out of the tree.\<close>

lemma drop_leaf_view:
  assumes ok: "tree_ok (tree_view U h) N rk slot" and cells: "tree_cells h U" and U: "N \<subseteq> U" and z: "z \<in> N"
    and c: "c = 0 \<or> c = 1" "child h z c \<noteq> 0"
  shows "tree_view U (store (child_slot z c) r h) = tpoint (child h z c) r (tree_view U h)"
proof -
  let ?v = "tree_view U h" and ?x = "child h z c"
  have x: "?x \<in> tkids ?v z" using kid_member [OF ok U z c(2,1)] .
  note k = tree_kid [OF ok z x]
  have zU: "z \<in> U" using z U by auto
  have "trt ?v (tix ?v ?x) \<noteq> ?x" using tree_root(2) [OF ok k(1) _ x] z by auto
  moreover have "tc0 ?v z = 0 \<or> tc0 ?v z \<noteq> tc1 ?v z" using tree_okD(3) [OF ok z] by (simp add: kids_ok_def)
  ultimately show ?thesis
    using c k(2) tree_view_at(4,5) [OF zU, of h] cells zU
    by (auto simp: set_child_upd [of z 0] set_child_upd [of z 1] tree_view_store tpoint_def)
qed

text \<open>Putting a chunk from outside into the place of a node.\<close>

lemma hook_view:
  assumes ok: "tree_ok (tree_view U h) N rk (treebin_at h)" and cells: "tree_cells h U" and U: "N \<subseteq> U" and x: "x \<in> N"
  shows "(if x = words h (treebin_at h (unat (index h x))) then
      ret (store (treebin_at h (unat (index h x))) r h)
     else if ok_address h (parent h x) then
       ret (if child h (parent h x) 0 = x then set_child (parent h x) 0 r h else set_child (parent h x) 1 r h)
     else abort) = ret h' \<Longrightarrow> tree_view U h' = tpoint x r (tree_view U h) \<and> tree_step (tree_words h U) h h'"
    and "x \<noteq> words h (treebin_at h (unat (index h x))) \<Longrightarrow> ok_address h (parent h x)"
proof -
  let ?v = "tree_view U h"
  have xU: "x \<in> U" using x U by auto
  have i: "tix ?v x = unat (index h x)" "unat (index h x) < 32"
    using tree_okD(2) [OF ok x] tree_view_at(6) [OF xU, of h] by simp_all
  have root: "x = words h (treebin_at h (unat (index h x))) \<longleftrightarrow> trt ?v (tix ?v x) = x"
    using i tree_view_at(7) [OF i(2), of U h] by auto
  have p: "tpar ?v x = parent h x" using tree_view_at(3) [OF xU] by simp
  have pU: "parent h x \<in> U" if "trt ?v (tix ?v x) \<noteq> x" using tree_inner(1) [OF ok x that] U p by auto
  show "x \<noteq> words h (treebin_at h (unat (index h x))) \<Longrightarrow> ok_address h (parent h x)"
    using root pU ok_chunk [OF cells] by blast
  assume run: "(if x = words h (treebin_at h (unat (index h x))) then
      ret (store (treebin_at h (unat (index h x))) r h)
     else if ok_address h (parent h x) then
       ret (if child h (parent h x) 0 = x then set_child (parent h x) 0 r h else set_child (parent h x) 1 r h)
     else abort) = ret h'"
  show "tree_view U h' = tpoint x r ?v \<and> tree_step (tree_words h U) h h'"
  proof (cases "trt ?v (tix ?v x) = x")
    case True
    then have h': "h' = store (treebin_at h (unat (index h x))) r h" using run root by simp
    show ?thesis unfolding h' using True i tree_view_slot [OF cells i(2)] i(1)
      by (auto simp: tpoint_def intro!: tree_step_slot tree_step_refl)
  next
    case False
    note pU = pU [OF False]
    have h': "h' = (if child h (parent h x) 0 = x then set_child (parent h x) 0 r h else set_child (parent h x) 1 r h)"
      using run False root ok_chunk [OF cells pU] by (auto split: if_splits)
    have "tree_step (tree_words h U) h h'"
      unfolding h' set_fields using pU by (auto intro!: tree_step_field tree_step_refl simp: link_offsets_def)
    moreover have "tree_view U h' = tpoint x r ?v"
      unfolding h' using False p pU tree_view_at(4) [OF pU, of h] cells by (simp add: tpoint_def tree_view_store)
    ultimately show ?thesis by blast
  qed
qed

lemma adopt_child_runs:
  assumes cells: "tree_cells h U" and r: "r \<in> U" and x: "x \<in> U" "x \<noteq> r" and b: "b = 0 \<or> b = 1"
    and "child h x b = 0 \<or> child h x b \<in> U"
  shows "\<exists>h'. adopt_child x r b h = ret h' \<and> tree_step (tree_words h U) h h' \<and>
    tree_view U h' = (let c = child h x b; v = tree_view U h in
      if c = 0 then v
      else if b = 0 then v\<lparr>tc0 := (tc0 v)(r := c), tpar := (tpar v)(c := r)\<rparr>
      else v\<lparr>tc1 := (tc1 v)(r := c), tpar := (tpar v)(c := r)\<rparr>)"
proof (cases "child h x b = 0")
  case True
  then show ?thesis by (simp add: adopt_child_def tree_step_refl)
next
  case False
  then have c: "child h x b \<in> U" using assms(6) by simp
  let ?h = "set_parent (child h x b) r (set_child r b (child h x b) h)"
  have "adopt_child x r b h = ret ?h"
    using False ok_chunk [OF cells c] by (simp add: adopt_child_def Let_def)
  moreover have "tree_step (tree_words h U) h ?h"
    using b c r by (auto simp: set_fields link_offsets_def intro!: tree_step_field tree_step_refl)
  moreover have "tree_view U ?h = (let c = child h x b; v = tree_view U h in
      if c = 0 then v
      else if b = 0 then v\<lparr>tc0 := (tc0 v)(r := c), tpar := (tpar v)(c := r)\<rparr>
      else v\<lparr>tc1 := (tc1 v)(r := c), tpar := (tpar v)(c := r)\<rparr>)"
    using False b c r cells by (auto simp: tree_view_store Let_def)
  ultimately show ?thesis by blast
qed

lemmas adopt_child_0 = adopt_child_runs [of _ _ _ _ 0, simplified simp_thms if_True]
lemmas adopt_child_1 = adopt_child_runs [of _ _ _ _ 1, simplified simp_thms one_neq_zero if_False]

lemma replace_in_tree_runs:
  assumes ok: "tree_ok (tree_view U h) N rk (treebin_at h)" and cells: "tree_cells h U" and U: "N \<subseteq> U" and x: "x \<in> N"
    and r: "r \<in> U" "r \<notin> N" and rv: "tc0 (tree_view U h) r = 0" "tc1 (tree_view U h) r = 0"
  shows "\<exists>h'. replace_in_tree x (parent h x) r h = ret h' \<and> tree_view U h' = treplace x r (tree_view U h) \<and>
    m_treemap h' = m_treemap h \<and> tree_step (tree_words h U) h h'"
proof -
  let ?v = "tree_view U h"
  define hook where "hook = (if x = words h (treebin_at h (unat (index h x))) then
      ret (store (treebin_at h (unat (index h x))) r h)
     else if ok_address h (parent h x) then
       ret (if child h (parent h x) 0 = x then set_child (parent h x) 0 r h else set_child (parent h x) 1 r h)
     else abort)"
  have r0: "r \<noteq> 0" using tree_cellsD(3) [OF cells r(1)] .
  have xU: "x \<in> U" and xr: "x \<noteq> r" using x U r(2) by auto
  obtain h1 where h1: "hook = ret h1"
    using hook_view(2) [OF ok cells U x] by (cases "x = words h (treebin_at h (unat (index h x)))") (simp_all add: hook_def)
  have v1: "tree_view U h1 = tpoint x r ?v" and s1: "tree_step (tree_words h U) h h1"
    using hook_view(1) [OF ok cells U x h1 [unfolded hook_def]] by auto
  have m1: "m_treemap h1 = m_treemap h"
    using h1 by (auto simp: hook_def split: if_splits)
  have kx: "tc0 (tpoint x r ?v) x = tc0 ?v x" "tc1 (tpoint x r ?v) x = tc1 ?v x"
    using tree_inner(3) [OF ok x] by (auto simp: tpoint_def)
  have kr: "tc0 (tpoint x r ?v) r = 0" "tc1 (tpoint x r ?v) r = 0"
    using tree_inner(1) [OF ok x] r(2) rv by (auto simp: tpoint_def)
  let ?h2 = "set_parent r (parent h x) h1"
  have c1: "tree_cells h1 U" using tree_cells_step [OF cells] tree_step_words [OF s1] by blast
  have v2: "tree_view U ?h2 = (tpoint x r ?v)\<lparr>tpar := (tpar ?v)(r := tpar ?v x)\<rparr>"
    using c1 r(1) tree_view_at(3) [OF xU, of h] by (simp add: tree_view_store v1)
  have s2: "tree_step (tree_words h U) h ?h2"
    unfolding set_fields by (intro tree_step_field r(1) s1) (simp add: link_offsets_def)
  have kids: "c \<in> U \<and> c \<noteq> r" if "c \<in> tkids ?v x" for c using tree_kid(1) [OF ok x that] U r(2) by auto
  have ch: "child ?h2 x 0 = tc0 ?v x" "child ?h2 x 1 = tc1 ?v x"
    using tree_view_at(4,5) [OF xU, of ?h2] kx v2 by simp_all
  have c2: "tree_cells ?h2 U" using c1 by simp
  have in0: "child ?h2 x 0 = 0 \<or> child ?h2 x 0 \<in> U" using kids unfolding ch by (auto simp: tkids_def)
  obtain h3 where a3: "adopt_child x r 0 ?h2 = ret h3" and s3: "tree_step (tree_words ?h2 U) ?h2 h3"
    and v3: "tree_view U h3 = (let c = child ?h2 x 0; v = tree_view U ?h2 in
      if c = 0 then v else v\<lparr>tc0 := (tc0 v)(r := c), tpar := (tpar v)(c := r)\<rparr>)"
    using adopt_child_0 [OF c2 r(1) xU xr TrueI in0] by (elim exE conjE)
  have c3: "tree_cells h3 U" using tree_cells_step [OF c2] tree_step_words [OF s3] by blast
  have ch3: "child h3 x 1 = tc1 ?v x"
  proof -
    have "tc1 (tree_view U h3) x = tc1 ?v x" unfolding v3 Let_def v2 using kx(2) by simp
    then show ?thesis using tree_view_at(5) [OF xU, of h3] by simp
  qed
  have in1: "child h3 x 1 = 0 \<or> child h3 x 1 \<in> U" using kids unfolding ch3 by (auto simp: tkids_def)
  obtain h4 where a4: "adopt_child x r 1 h3 = ret h4" and s4: "tree_step (tree_words h3 U) h3 h4"
    and v4: "tree_view U h4 = (let c = child h3 x 1; v = tree_view U h3 in
      if c = 0 then v else v\<lparr>tc1 := (tc1 v)(r := c), tpar := (tpar v)(c := r)\<rparr>)"
    using adopt_child_1 [OF c3 r(1) xU xr TrueI in1] by (elim exE conjE)
  have "replace_in_tree x (parent h x) r h = bindR hook (\<lambda>h. if ok_address h r then
      bindR (adopt_child x r 0 (set_parent r (parent h0 x) h)) (adopt_child x r 1) else abort)" if "h0 = h" for h0
    using r0 that by (simp add: replace_in_tree_def hook_def Let_def)
  then have "replace_in_tree x (parent h x) r h = ret h4"
    using h1 ok_chunk [OF c1 r(1)] a3 a4 by simp
  moreover have "tree_view U h4 = treplace x r ?v"
    unfolding v4 v3 ch ch3 v2 treplace_def using kr kids
    by (auto simp: Let_def tkids_def fun_eq_iff)
  moreover have "m_treemap h4 = m_treemap h"
    using a3 a4 m1 by (auto simp: adopt_child_def Let_def split: if_splits)
  moreover have "tree_step (tree_words h U) h h4"
    using tree_step_trans [OF tree_step_trans [OF s2 s3 [unfolded tree_words_step [OF s2]]]
      s4 [unfolded tree_words_step [OF s3] tree_words_step [OF s2]]] .
  ultimately show ?thesis by blast
qed

lemma treplace_same:
  "tfd (treplace x r v) = tfd v" "tbk (treplace x r v) = tbk v" "tix (treplace x r v) = tix v"
  by (simp_all add: treplace_def)

text \<open>The chunk that takes the place of a node, with a ring of its own.\<close>

lemma replaced_inv:
  assumes ok: "tree_ok (tree_view U h) N rk (treebin_at h)" and cells: "tree_cells h U" and U: "N \<subseteq> U" and x: "x \<in> N"
    and r: "r \<in> U" "r \<notin> N" and rv: "tc0 (tree_view U h) r = 0" "tc1 (tree_view U h) r = 0" "tix (tree_view U h) r = tix (tree_view U h) x"
    and mates: "mates_ok (tree_view U h) (N - {x}) M" and ring: "ring (tlinks (tree_view U h)) r ms"
    and ms: "\<And>m. m \<in> set ms \<Longrightarrow> mate_ok (tree_view U h) r m" and apart: "insert r (set ms) \<inter> tchunks (N - {x}) M = {}"
    and all: "tchunks (N - {x}) M \<subseteq> U" "set ms \<subseteq> U"
    and map: "\<And>j. j < 32 \<Longrightarrow> bit (m_treemap h) j \<longleftrightarrow> trt (tree_view U h) j \<noteq> 0"
  shows "\<exists>h'. replace_in_tree x (parent h x) r h = ret h' \<and> tree_inv h' (insert r (N - {x})) (M(r := ms)) \<and>
    tree_step (tree_words h U) h h'"
proof -
  let ?v = "tree_view U h" and ?N = "N - {x}"
  obtain h' where run: "replace_in_tree x (parent h x) r h = ret h'" and v': "tree_view U h' = treplace x r ?v"
    and m': "m_treemap h' = m_treemap h" and step: "tree_step (tree_words h U) h h'"
    using replace_in_tree_runs [OF ok cells U x r rv(1,2)] by blast
  have at: "treebin_at h' = treebin_at h" using tree_step_words [OF step] by simp
  have r0: "r \<noteq> 0" "\<And>j. j < 32 \<Longrightarrow> treebin_at h j \<noteq> r" using tree_cellsD(3) [OF cells r(1)] tree_slots(1) [OF cells] r(1) by auto
  have t': "tree_ok (tree_view U h') (insert r ?N) (rk(r := rk x)) (treebin_at h')"
    unfolding v' at by (rule tree_ok_replace [OF ok x r(2) r0 rv(3)])
  have kx: "tkids ?v x \<subseteq> ?N" using tree_kid [OF ok x] by auto
  have xp: "trt ?v (tix ?v x) \<noteq> x \<Longrightarrow> tpar ?v x \<in> ?N" using tree_inner [OF ok x] by auto
  have out: "tpar (treplace x r ?v) m = tpar ?v m \<and> tc0 (treplace x r ?v) m = tc0 ?v m \<and> tc1 (treplace x r ?v) m = tc1 ?v m"
    if "m \<notin> ?N" "m \<noteq> r" for m
  proof -
    have "m \<notin> tkids ?v x" using that(1) kx by blast
    moreover have "trt ?v (tix ?v x) = x \<or> m \<noteq> tpar ?v x" using that(1) xp by blast
    ultimately show ?thesis using that(2) by (auto simp: treplace_def tpoint_def)
  qed
  have "mates_ok (treplace x r ?v) ?N M"
  proof (rule mates_ok_cong [OF mates])
    fix t m assume "t \<in> ?N" "m \<in> set (M t)"
    then have "m \<notin> ?N" "m \<noteq> r" using mates_okD(3) [OF mates] apart by (auto simp: tchunks_def)
    then show "tpar (treplace x r ?v) m = tpar ?v m \<and> tc0 (treplace x r ?v) m = tc0 ?v m \<and> tc1 (treplace x r ?v) m = tc1 ?v m"
      by (rule out)
  qed (simp add: treplace_same)
  moreover have "ring (tlinks (treplace x r ?v)) r ms" using ring by (simp add: tlinks_def treplace_same)
  moreover have "mate_ok (treplace x r ?v) r m" if "m \<in> set ms" for m
  proof -
    have "m \<notin> ?N" "m \<noteq> r" using that apart ring by (auto simp: tchunks_def ring_def)
    from out [OF this] show ?thesis using ms [OF that] by (simp add: mate_ok_def treplace_same)
  qed
  ultimately have ma': "mates_ok (tree_view U h') (insert r ?N) (M(r := ms))"
    unfolding v' using apart by (intro mates_ok_add)
  have ch: "tchunks (insert r ?N) (M(r := ms)) \<subseteq> U"
    using all r tchunks_add [of r ?N M ms] by auto
  have "trt (tree_view U h') j \<noteq> 0 \<longleftrightarrow> trt ?v j \<noteq> 0" if "j < 32" for j
    using that r0 tree_okD(1) [OF ok x] by (auto simp: v' treplace_def tpoint_root)
  then have "tree_inv h' (insert r ?N) (M(r := ms))"
    using map m' by (intro tree_invI [OF ch t' ma']) simp
  then show ?thesis using run step by blast
qed

text \<open>Linking the neighbours of a chunk past it.\<close>

lemma link_past_view:
  assumes "tree_cells h U" and "r \<in> U" and "f \<in> U"
  shows "tree_view U (link_past r f h) = (tree_view U h)\<lparr>tbk := (tbk (tree_view U h))(f := r), tfd := (tfd (tree_view U h))(r := f)\<rparr>"
    and "tree_step (tree_words h U) h (link_past r f h)" and "m_treemap (link_past r f h) = m_treemap h"
    and "treebin_at (link_past r f h) = treebin_at h" and "tree_cells (link_past r f h) U"
proof -
  show "tree_view U (link_past r f h) = (tree_view U h)\<lparr>tbk := (tbk (tree_view U h))(f := r), tfd := (tfd (tree_view U h))(r := f)\<rparr>"
    using assms by (simp add: link_past_def tree_view_store)
  show "tree_step (tree_words h U) h (link_past r f h)"
    unfolding link_past_def set_fields by (intro tree_step_field assms(2,3) tree_step_refl) (simp_all add: link_offsets_def)
qed (use assms in \<open>simp_all add: link_past_def\<close>)

lemma ring_past:
  assumes ring: "ring l a (xs @ x # ys)" and l': "prv l' = (prv l)(nxt l x := prv l x)" "nxt l' = (nxt l)(prv l x := nxt l x)"
  shows "ring l' a (xs @ ys)"
proof (rule ring_cong [OF ring_remove [OF ring]], rule ballI)
  fix n assume "n \<in> insert a (set (xs @ ys))"
  then have "n \<noteq> x" using ring by (auto simp: ring_def)
  then show "nxt l' n = nxt (list_remove x l) n \<and> prv l' n = prv (list_remove x l) n"
    using l' by (simp add: list_remove_def Let_def)
qed

text \<open>The neighbours of a chunk whose ring is not empty, and the first part of the macro then.\<close>

lemma ring_neighbours:
  assumes inv: "mates_ok (tree_view U h) N M" and sub: "tchunks N M \<subseteq> U" and cells: "tree_cells h U" and t: "t \<in> N"
    and x: "x \<in> insert t (set (M t))" and ne: "M t \<noteq> []"
  shows "fd h x \<in> insert t (set (M t))" "bk h x \<in> insert t (set (M t))" "fd h x \<noteq> x" "bk h x \<noteq> x"
    "bk h (fd h x) = x" "fd h (bk h x) = x" "unlink_replacement x h = ret (bk h x, link_past (bk h x) (fd h x) h)"
proof -
  let ?l = "tlinks (tree_view U h)"
  have inU: "n \<in> U" if "n \<in> insert t (set (M t))" for n using that t sub by (auto simp: tchunks_def)
  have at: "nxt ?l n = fd h n" "prv ?l n = bk h n" if "n \<in> insert t (set (M t))" for n
    using inU [OF that] tree_view_at(1,2) by (simp_all add: tlinks_def)
  note rg = mates_okD(1) [OF inv t]
  have d: "distinct (t # M t)" using rg by (simp add: ring_def)
  have "fd h x \<in> insert t (set (M t)) \<and> bk h x \<in> insert t (set (M t)) \<and> fd h x \<noteq> x \<and> bk h x \<noteq> x \<and>
    bk h (fd h x) = x \<and> fd h (bk h x) = x"
  proof (cases "x = t")
    case True
    obtain a as where a: "M t = a # as" using ne by (cases "M t") auto
    have l: "last (M t) \<in> set (M t)" using ne by simp
    have 1: "fd h t = a" "bk h a = t" using rg a at [of t] at [of a] by (auto simp: ring_def)
    have 2: "bk h t = last (M t)" using rg ne at [of t] seg_last [of ?l t "M t" t] by (simp add: ring_def)
    have 3: "fd h (last (M t)) = t" using rg ne at [of "last (M t)"] l seg_last_next [of ?l t "M t" t] by (simp add: ring_def)
    show ?thesis using 1 2 3 True a d l by auto
  next
    case False
    then obtain xs ys where xy: "M t = xs @ x # ys" using x by (metis insertE split_list)
    have rg': "ring ?l t (xs @ x # ys)" using rg xy by simp
    have mem: "nxt ?l x \<in> insert t (set ys)" "prv ?l x \<in> insert t (set xs)" using ring_nxt_in [OF rg'] ring_prv_in [OF rg'] .
    then have m: "fd h x \<in> insert t (set ys)" "bk h x \<in> insert t (set xs)" using at [OF x] by simp_all
    then have m': "fd h x \<in> insert t (set (M t))" "bk h x \<in> insert t (set (M t))" using xy by auto
    then show ?thesis
      using ring_prv_nxt [OF rg'] ring_nxt_prv [OF rg'] at [OF x] at [OF m'(1)] at [OF m'(2)] m d xy by auto
  qed
  then show all: "fd h x \<in> insert t (set (M t))" "bk h x \<in> insert t (set (M t))" "fd h x \<noteq> x" "bk h x \<noteq> x"
    "bk h (fd h x) = x" "fd h (bk h x) = x" by blast+
  then show "unlink_replacement x h = ret (bk h x, link_past (bk h x) (fd h x) h)"
    using ok_chunk [OF cells inU [OF all(1)]] by (simp add: unlink_replacement_def Let_def link_past_def)
qed

text \<open>A chunk that stands in the ring of a node.\<close>

lemma unlink_mate:
  assumes inv: "tree_inv h N M" and cells: "tree_cells h (tchunks N M)" and t: "t \<in> N" and x: "x \<in> set (M t)"
  shows "\<exists>h' N' M'. unlink_large_chunk x h = ret h' \<and> tree_inv h' N' M' \<and> tchunks N' M' = tchunks N M - {x} \<and>
    tree_step (tree_words h (tchunks N M)) h h'"
proof -
  define U where "U = tchunks N M"
  let ?v = "tree_view U h" and ?f = "fd h x" and ?r = "bk h x"
  let ?h = "link_past ?r ?f h"
  have sub: "tchunks N M \<subseteq> U" by (simp add: U_def)
  obtain rk where ok: "tree_ok ?v N rk (treebin_at h)" and mates: "mates_ok ?v N M"
    and map: "\<And>j. j < 32 \<Longrightarrow> bit (m_treemap h) j \<longleftrightarrow> trt ?v j \<noteq> 0"
    using inv unfolding tree_inv_view [OF sub] by blast
  have c: "tree_cells h U" using cells by (simp add: U_def)
  have ne: "M t \<noteq> []" using x by auto
  note nb = ring_neighbours [OF mates sub c t insertI2 [OF x] ne]
  have inU: "x \<in> U" "?f \<in> U" "?r \<in> U" using nb(1,2) x t by (auto simp: U_def tchunks_def)
  note lp = link_past_view [OF c inU(3,2)]
  obtain xs ys where xy: "M t = xs @ x # ys" using x by (meson split_list)
  have "parent h x = 0" using mates_okD(2) [OF mates t x] tree_view_at(3) [OF inU(1), of h] by (simp add: mate_ok_def)
  then have run: "unlink_large_chunk x h = ret ?h" using nb(7) by (simp add: unlink_large_chunk_def Let_def)
  have v: "tree_view U ?h = ?v\<lparr>tbk := (tbk ?v)(?f := ?r), tfd := (tfd ?v)(?r := ?f)\<rparr>" using lp(1) .
  have ring: "ring (tlinks (tree_view U ?h)) t (xs @ ys)"
    using mates_okD(1) [OF mates t] xy tree_view_at(1,2) [OF inU(1), of h]
    by (intro ring_past [of "tlinks ?v" t xs x ys]) (simp_all add: tlinks_def v)
  have m: "mates_ok (tree_view U ?h) N (M(t := xs @ ys))"
  proof (rule mates_ok_ring [OF mates t ring])
    show "mate_ok (tree_view U ?h) t m" if "m \<in> set (xs @ ys)" for m
      using that mates_okD(2) [OF mates t, of m] xy by (simp add: mate_ok_def v)
    show "set (xs @ ys) \<inter> tchunks (N - {t}) M = {}" using tchunks_rest_disjoint [OF mates t] xy by auto
    fix q assume "q \<in> tchunks (N - {t}) M"
    then have "q \<notin> {?f, ?r}" using tchunks_rest_disjoint [OF mates t] nb(1,2) by blast
    then show "tfd (tree_view U ?h) q = tfd ?v q \<and> tbk (tree_view U ?h) q = tbk ?v q \<and> tpar (tree_view U ?h) q = tpar ?v q \<and>
        tc0 (tree_view U ?h) q = tc0 ?v q \<and> tc1 (tree_view U ?h) q = tc1 ?v q \<and> tix (tree_view U ?h) q = tix ?v q"
      by (simp add: v)
  qed
  have "tree_ok (tree_view U ?h) N rk (treebin_at ?h)" unfolding lp(4) by (rule tree_ok_cong [OF ok]) (simp_all add: v)
  moreover have ch: "tchunks N (M(t := xs @ ys)) = tchunks N M - {x}"
  proof -
    have "x \<notin> tchunks (N - {t}) M" using tchunks_rest_disjoint [OF mates t] x by blast
    moreover have "distinct (t # M t)" using mates_okD(4) [OF mates t] .
    ultimately show ?thesis unfolding tchunks_ring [OF t] tchunks_split [OF t, of M] xy by auto
  qed
  moreover have "tchunks N (M(t := xs @ ys)) \<subseteq> U" using ch sub by auto
  moreover have "trt (tree_view U ?h) = trt ?v" by (simp add: v)
  ultimately have "tree_inv ?h N (M(t := xs @ ys))"
    using m map lp(3) by (intro tree_invI [of _ _ U]) simp_all
  then show ?thesis using run ch lp(2) unfolding U_def by blast
qed

text \<open>A node with a ring: its last chunk takes its place.\<close>

lemma unlink_node_with_ring:
  assumes inv: "tree_inv h N M" and cells: "tree_cells h (tchunks N M)" and x: "x \<in> N" and ne: "M x \<noteq> []"
  shows "\<exists>h' N' M'. unlink_large_chunk x h = ret h' \<and> tree_inv h' N' M' \<and> tchunks N' M' = tchunks N M - {x} \<and>
    tree_step (tree_words h (tchunks N M)) h h'"
proof -
  define U where "U = tchunks N M"
  let ?v = "tree_view U h" and ?f = "fd h x" and ?r = "bk h x"
  let ?h = "link_past ?r ?f h"
  have sub: "tchunks N M \<subseteq> U" by (simp add: U_def)
  obtain rk where ok: "tree_ok ?v N rk (treebin_at h)" and mates: "mates_ok ?v N M"
    and map: "\<And>j. j < 32 \<Longrightarrow> bit (m_treemap h) j \<longleftrightarrow> trt ?v j \<noteq> 0"
    using inv unfolding tree_inv_view [OF sub] by blast
  have c: "tree_cells h U" using cells by (simp add: U_def)
  note nb = ring_neighbours [OF mates sub c x insertI1 ne]
  have inU: "x \<in> U" "?f \<in> U" "?r \<in> U" using nb(1,2) x by (auto simp: U_def tchunks_def)
  note lp = link_past_view [OF c inU(3,2)]
  have NU: "N \<subseteq> U" by (auto simp: U_def intro: tchunksI)
  have v: "tree_view U ?h = ?v\<lparr>tbk := (tbk ?v)(?f := ?r), tfd := (tfd ?v)(?r := ?f)\<rparr>" using lp(1) .
  have links: "prv (tlinks ?v) x = ?r" "nxt (tlinks ?v) x = ?f"
    using tree_view_at(1,2) [OF inU(1), of h] by (simp_all add: tlinks_def)
  define ms where "ms = butlast (M x)"
  have "?r = last (M x)"
    using mates_okD(1) [OF mates x] links(1) ne seg_last [of "tlinks ?v" x "M x" x] by (simp add: ring_def)
  then have Mx: "M x = ms @ [?r]" using ne by (simp add: ms_def)
  have "ring (tlinks ?v) ?r ([] @ x # ms)" using ring_rotate [of "tlinks ?v" x ms ?r] mates_okD(1) [OF mates x] Mx by simp
  then have ring: "ring (tlinks (tree_view U ?h)) ?r ms"
    using ring_past [of "tlinks ?v" ?r "[]" x ms "tlinks (tree_view U ?h)"] links by (simp add: tlinks_def v)
  have mate: "mate_ok ?v x m" if "m = ?r \<or> m \<in> set ms" for m using mates_okD(2) [OF mates x] Mx that by auto
  have rN: "?r \<notin> N" using mates_okD(3) [OF mates x, of ?r] Mx by simp
  have dis: "insert x (set (M x)) \<inter> tchunks (N - {x}) M = {}" using tchunks_rest_disjoint [OF mates x] .
  have "\<exists>h'. replace_in_tree x (parent ?h x) ?r ?h = ret h' \<and> tree_inv h' (insert ?r (N - {x})) (M(?r := ms)) \<and>
    tree_step (tree_words ?h U) ?h h'"
  proof (rule replaced_inv [OF _ lp(5) NU x inU(3) rN])
    show "tree_ok (tree_view U ?h) N rk (treebin_at ?h)" unfolding lp(4) by (rule tree_ok_cong [OF ok]) (simp_all add: v)
    show "tc0 (tree_view U ?h) ?r = 0" "tc1 (tree_view U ?h) ?r = 0" "tix (tree_view U ?h) ?r = tix (tree_view U ?h) x"
      using mate [of ?r] by (simp_all add: mate_ok_def v)
    show "mates_ok (tree_view U ?h) (N - {x}) M"
    proof (rule mates_ok_cong [OF mates_ok_subset [OF mates]])
      fix p assume "p \<in> tchunks (N - {x}) M"
      then have "p \<notin> {?f, ?r}" using dis nb(1,2) by blast
      then show "tfd (tree_view U ?h) p = tfd ?v p \<and> tbk (tree_view U ?h) p = tbk ?v p \<and> tix (tree_view U ?h) p = tix ?v p"
        by (simp add: v)
    qed (auto simp: v)
    show "mate_ok (tree_view U ?h) ?r m" if "m \<in> set ms" for m
      using mate [of m] mate [of ?r] that by (simp add: mate_ok_def v)
    show "insert ?r (set ms) \<inter> tchunks (N - {x}) M = {}" using dis Mx by auto
    show "tchunks (N - {x}) M \<subseteq> U" by (auto simp: U_def tchunks_def)
    show "set ms \<subseteq> U" using Mx x by (auto simp: U_def tchunks_def)
    show "bit (m_treemap ?h) j \<longleftrightarrow> trt (tree_view U ?h) j \<noteq> 0" if "j < 32" for j
      using map [OF that] lp(3) by (simp add: v)
  qed (rule ring)
  then obtain h' where h': "replace_in_tree x (parent ?h x) ?r ?h = ret h'" "tree_inv h' (insert ?r (N - {x})) (M(?r := ms))"
    "tree_step (tree_words ?h U) ?h h'" by blast
  have "tpar (tree_view U ?h) x = tpar ?v x" by (simp add: v)
  then have par: "parent ?h x = parent h x" unfolding tree_view_at(3) [OF inU(1)] .
  have "parent h x \<noteq> 0" using tree_parent_nonzero [OF ok x] tree_view_at(3) [OF inU(1), of h] by simp
  then have "unlink_large_chunk x h = ret h'" using nb(7) h'(1) par by (simp add: unlink_large_chunk_def Let_def)
  moreover have "tchunks (insert ?r (N - {x})) (M(?r := ms)) = tchunks N M - {x}"
  proof -
    have "distinct (x # M x)" using mates_okD(4) [OF mates x] .
    then have "x \<notin> insert ?r (set ms)" using Mx by auto
    then show ?thesis using dis rN unfolding tchunks_split [OF x, of M] by (subst tchunks_add) (auto simp: Mx)
  qed
  moreover have "tree_step (tree_words h U) h h'"
    using tree_step_trans [OF lp(2) h'(3) [unfolded tree_words_step [OF lp(2)]]] .
  ultimately show ?thesis using h'(2) unfolding U_def by blast
qed

text \<open>A node alone in its ring with children: the rightmost leaf below takes its place.\<close>

lemma unlink_node_with_kids:
  assumes inv: "tree_inv h N M" and cells: "tree_cells h (tchunks N M)" and x: "x \<in> N" and e: "M x = []"
    and kids: "child h x 1 \<noteq> 0 \<or> child h x 0 \<noteq> 0"
  shows "\<exists>h' N' M'. unlink_large_chunk x h = ret h' \<and> tree_inv h' N' M' \<and> tchunks N' M' = tchunks N M - {x} \<and>
    tree_step (tree_words h (tchunks N M)) h h'"
proof -
  define U where "U = tchunks N M"
  let ?v = "tree_view U h"
  have sub: "tchunks N M \<subseteq> U" by (simp add: U_def)
  obtain rk where ok: "tree_ok ?v N rk (treebin_at h)" and mates: "mates_ok ?v N M"
    and map: "\<And>j. j < 32 \<Longrightarrow> bit (m_treemap h) j \<longleftrightarrow> trt ?v j \<noteq> 0"
    using inv unfolding tree_inv_view [OF sub] by blast
  have c: "tree_cells h U" using cells by (simp add: U_def)
  have NU: "N \<subseteq> U" by (auto simp: U_def intro: tchunksI)
  have xU: "x \<in> U" using x NU by auto
  define b :: u32 where "b = (if child h x 1 \<noteq> 0 then 1 else 0)"
  have b: "b = 0 \<or> b = 1" "child h x b \<noteq> 0" using kids by (auto simp: b_def)
  obtain z d where z: "z \<in> N" and d: "d = 0 \<or> d = 1" and rkz: "rk x \<le> rk z" and iz: "tix ?v z = tix ?v x" and nz: "child h z d \<noteq> 0"
    and leaf: "tkids ?v (child h z d) = {}"
    and walk: "rightmost_leaf h (child_slot x b) (child h x b) = Some (child_slot z d, child h z d)"
    using rightmost_leaf_ends [OF ok NU x b] by blast
  let ?r = "child h z d"
  let ?h = "store (child_slot z d) 0 h"
  note r = tree_kid [OF ok z kid_member [OF ok NU z nz d]]
  have zU: "z \<in> U" and rU: "?r \<in> U" using z r(1) NU by auto
  have xr: "x \<noteq> ?r" using r(3) rkz by auto
  have v: "tree_view U ?h = tpoint ?r 0 ?v" by (rule drop_leaf_view [OF ok c NU z d nz])
  have ok': "tree_ok (tree_view U ?h) (N - {?r}) rk (treebin_at ?h)"
    unfolding v treebin_at_upd by (rule tree_ok_drop_leaf [OF ok r(1) leaf])
  have inner: "trt ?v (tix ?v ?r) \<noteq> ?r" using tree_root(2) [OF ok r(1) _ kid_member [OF ok NU z nz d]] z by blast
  have tp: "tpoint ?r 0 ?v = (if tc0 ?v z = ?r then ?v\<lparr>tc0 := (tc0 ?v)(z := 0)\<rparr> else ?v\<lparr>tc1 := (tc1 ?v)(z := 0)\<rparr>)"
    using inner r(2) by (simp add: tpoint_def)
  have step: "tree_step (tree_words h U) h ?h"
    using d zU by (auto simp: set_child_upd set_fields link_offsets_def intro!: tree_step_field tree_step_refl)
  have mates': "mates_ok (tree_view U ?h) N M"
  proof (rule mates_ok_cong [OF mates])
    show "tpar (tree_view U ?h) m = tpar ?v m \<and> tc0 (tree_view U ?h) m = tc0 ?v m \<and> tc1 (tree_view U ?h) m = tc1 ?v m"
      if "t \<in> N" "m \<in> set (M t)" for t m
      using mates_okD(3) [OF mates that] z by (auto simp: v tp)
  qed (simp add: v)
  have Nx: "N - {?r} - {x} \<subseteq> N" by auto
  have "\<exists>h'. replace_in_tree x (parent ?h x) ?r ?h = ret h' \<and> tree_inv h' (insert ?r (N - {?r} - {x})) (M(?r := M ?r)) \<and>
    tree_step (tree_words ?h U) ?h h'"
  proof (rule replaced_inv [OF ok'])
    show "tree_cells ?h U" "N - {?r} \<subseteq> U" "x \<in> N - {?r}" "?r \<in> U" "?r \<notin> N - {?r}" using c NU x xr rU by auto
    have "tc0 ?v ?r = 0" "tc1 ?v ?r = 0" using leaf by (auto simp: tkids_def)
    then show "tc0 (tree_view U ?h) ?r = 0" "tc1 (tree_view U ?h) ?r = 0" by (simp_all add: v tp)
    show "tix (tree_view U ?h) ?r = tix (tree_view U ?h) x" using r(4) iz by (simp add: v)
    show "mates_ok (tree_view U ?h) (N - {?r} - {x}) M" using mates_ok_subset [OF mates' Nx] .
    show "ring (tlinks (tree_view U ?h)) ?r (M ?r)" "\<And>m. m \<in> set (M ?r) \<Longrightarrow> mate_ok (tree_view U ?h) ?r m"
      using mates_okD(1,2) [OF mates' r(1)] .
    show "insert ?r (set (M ?r)) \<inter> tchunks (N - {?r} - {x}) M = {}"
      using tchunks_rest_disjoint [OF mates r(1)] by (auto simp: tchunks_def)
    show "tchunks (N - {?r} - {x}) M \<subseteq> U" "set (M ?r) \<subseteq> U" using r(1) by (auto simp: U_def tchunks_def)
    show "bit (m_treemap ?h) j \<longleftrightarrow> trt (tree_view U ?h) j \<noteq> 0" if "j < 32" for j
      using map [OF that] by (simp add: v tp)
  qed
  then obtain h' where h': "replace_in_tree x (parent ?h x) ?r ?h = ret h'" "tree_inv h' (insert ?r (N - {?r} - {x})) (M(?r := M ?r))"
    "tree_step (tree_words ?h U) ?h h'" by blast
  have "ring (tlinks ?v) x []" using mates_okD(1) [OF mates x] e by simp
  then have self: "bk h x = x" using tree_view_at(2) [OF xU, of h] by (simp add: ring_Nil tlinks_def)
  have "tpar (tree_view U ?h) x = tpar ?v x" by (simp add: v)
  then have par: "parent ?h x = parent h x" unfolding tree_view_at(3) [OF xU] .
  have "parent h x \<noteq> 0" using tree_parent_nonzero [OF ok x] tree_view_at(3) [OF xU, of h] by simp
  moreover have "unlink_replacement x h = ret (?r, ?h)"
    using self kids walk ok_child_slot [OF c zU d] by (simp add: unlink_replacement_def Let_def b_def)
  ultimately have "unlink_large_chunk x h = ret h'" using h'(1) par by (simp add: unlink_large_chunk_def Let_def)
  moreover have N': "insert ?r (N - {?r} - {x}) = N - {x}" using r(1) xr by auto
  moreover have "tchunks (N - {x}) M = tchunks N M - {x}"
    using tchunks_rest_disjoint [OF mates x] unfolding tchunks_split [OF x, of M] e by auto
  moreover have "tree_step (tree_words h U) h h'"
    using tree_step_trans [OF step h'(3) [unfolded tree_words_step [OF step]]] .
  ultimately show ?thesis using h'(2) unfolding U_def fun_upd_triv N' by blast
qed

text \<open>A leaf alone in its ring.\<close>

lemma unlink_lone_leaf:
  assumes inv: "tree_inv h N M" and cells: "tree_cells h (tchunks N M)" and x: "x \<in> N" and e: "M x = []"
    and leaf: "child h x 1 = 0" "child h x 0 = 0"
  shows "\<exists>h' N' M'. unlink_large_chunk x h = ret h' \<and> tree_inv h' N' M' \<and> tchunks N' M' = tchunks N M - {x} \<and>
    tree_step (tree_words h (tchunks N M)) h h'"
proof -
  define U where "U = tchunks N M"
  let ?v = "tree_view U h" and ?i = "unat (index h x)"
  have sub: "tchunks N M \<subseteq> U" by (simp add: U_def)
  obtain rk where ok: "tree_ok ?v N rk (treebin_at h)" and mates: "mates_ok ?v N M"
    and map: "\<And>j. j < 32 \<Longrightarrow> bit (m_treemap h) j \<longleftrightarrow> trt ?v j \<noteq> 0"
    using inv unfolding tree_inv_view [OF sub] by blast
  have c: "tree_cells h U" using cells by (simp add: U_def)
  have NU: "N \<subseteq> U" by (auto simp: U_def intro: tchunksI)
  have xU: "x \<in> U" using x NU by auto
  have x0: "x \<noteq> 0" using tree_okD(1) [OF ok x] .
  have tix: "tix ?v x = ?i" and i: "?i < 32" using tree_view_at(6) [OF xU, of h] tree_okD(2) [OF ok x] by simp_all
  have "ring (tlinks ?v) x []" using mates_okD(1) [OF mates x] e by simp
  then have self: "bk h x = x" using tree_view_at(2) [OF xU, of h] by (simp add: ring_Nil tlinks_def)
  have par: "parent h x \<noteq> 0" using tree_parent_nonzero [OF ok x] tree_view_at(3) [OF xU, of h] by simp
  have "unlink_replacement x h = ret (0, h)" using self leaf by (simp add: unlink_replacement_def)
  then have run: "unlink_large_chunk x h = replace_in_tree x (parent h x) 0 h" using par by (simp add: unlink_large_chunk_def Let_def)
  have kx: "tkids ?v x = {}" using tree_view_at(4,5) [OF xU, of h] leaf by (simp add: tkids_def)
  define hook where "hook = (if x = words h (treebin_at h ?i) then ret (store (treebin_at h ?i) 0 h)
     else if ok_address h (parent h x) then
       ret (if child h (parent h x) 0 = x then set_child (parent h x) 0 0 h else set_child (parent h x) 1 0 h)
     else abort)"
  obtain h1 where h1: "hook = ret h1"
    using hook_view(2) [OF ok c NU x] by (cases "x = words h (treebin_at h ?i)") (simp_all add: hook_def)
  have v1: "tree_view U h1 = tpoint x 0 ?v" and s1: "tree_step (tree_words h U) h h1"
    using hook_view(1) [OF ok c NU x h1 [unfolded hook_def]] by auto
  have m1: "m_treemap h1 = m_treemap h" using h1 by (auto simp: hook_def split: if_splits)
  have root: "x = words h (treebin_at h ?i) \<longleftrightarrow> trt ?v (tix ?v x) = x" using tix tree_view_at(7) [OF i, of U h] by auto
  define h2 where "h2 = (if x = words h (treebin_at h ?i) then clear_treemap ?i h1 else h1)"
  have run: "unlink_large_chunk x h = ret h2"
    using h1 unfolding run by (simp add: replace_in_tree_def hook_def h2_def Let_def split: if_splits)
  have v2: "tree_view U h2 = tpoint x 0 ?v" and s2: "tree_step (tree_words h U) h h2"
    using v1 s1 by (simp_all add: h2_def tree_step_maps)
  have at: "treebin_at h2 = treebin_at h" using tree_step_words [OF s2] by simp
  have t2: "tree_ok (tree_view U h2) (N - {x}) rk (treebin_at h2)" unfolding v2 at by (rule tree_ok_drop_leaf [OF ok x kx])
  have ma2: "mates_ok (tree_view U h2) (N - {x}) M"
  proof (rule mates_ok_cong [OF mates_ok_subset [OF mates]])
    fix t m assume "t \<in> N - {x}" "m \<in> set (M t)"
    then have "m \<notin> N" using mates_okD(3) [OF mates] by auto
    then have "m \<noteq> tpar ?v x \<or> trt ?v (tix ?v x) = x" using tree_inner(1) [OF ok x] by blast
    then show "tpar (tree_view U h2) m = tpar ?v m \<and> tc0 (tree_view U h2) m = tc0 ?v m \<and> tc1 (tree_view U h2) m = tc1 ?v m"
      by (auto simp: v2 tpoint_def)
  qed (auto simp: v2)
  have ch: "tchunks (N - {x}) M = tchunks N M - {x}"
    using tchunks_rest_disjoint [OF mates x] unfolding tchunks_split [OF x, of M] e by auto
  have "bit (m_treemap h2) j \<longleftrightarrow> trt (tree_view U h2) j \<noteq> 0" if j: "j < 32" for j
    using map [OF j] m1 root tix i tpoint_root [OF j, of x 0 ?v] x0 by (auto simp: h2_def v2 [unfolded h2_def] v1 bit_clear)
  then have "tree_inv h2 (N - {x}) M" using t2 ma2 ch by (intro tree_invI [of _ _ U]) (auto simp: U_def)
  then show ?thesis using run ch s2 unfolding U_def by blast
qed

lemma unlink_large_runs:
  assumes "tree_inv h N M" and "tree_cells h (tchunks N M)" and "x \<in> tchunks N M"
  shows "\<exists>h' N' M'. unlink_large_chunk x h = ret h' \<and> tree_inv h' N' M' \<and> tchunks N' M' = tchunks N M - {x} \<and>
    tree_step (tree_words h (tchunks N M)) h h'"
proof -
  obtain t where t: "t \<in> N" "x = t \<or> x \<in> set (M t)" using assms(3) by (auto simp: tchunks_def)
  then consider "x \<in> set (M t)" | "x \<in> N" "M x \<noteq> []" | "x \<in> N" "M x = []" "child h x 1 \<noteq> 0 \<or> child h x 0 \<noteq> 0"
    | "x \<in> N" "M x = []" "child h x 1 = 0" "child h x 0 = 0" by blast
  then show ?thesis
    using unlink_mate [OF assms(1,2) t(1)] unlink_node_with_ring [OF assms(1,2)] unlink_node_with_kids [OF assms(1,2)]
      unlink_lone_leaf [OF assms(1,2)] by cases
qed

end
