(* ===== verification/MallocBag.thy ===== *)
theory MallocBag
  imports MallocTree
begin

text \<open>
  The bins of \<^verbatim>\<open>malloc.c\<close> as one bag of free chunks, whatever their size: a map from the addresses of
  the chunks in it to their sizes. The macros \<^verbatim>\<open>insert_chunk\<close> and \<^verbatim>\<open>unlink_chunk\<close> add a chunk to the bag
  and take one out, and write nothing but link words of the chunks in the bag and of \<^verbatim>\<open>_gm_\<close>.
\<close>

section \<open>Chunks that do not overlap\<close>

definition chunks_ok :: "heap \<Rightarrow> (u32 \<rightharpoonup> u32) \<Rightarrow> bool" where
  "chunks_ok h B \<longleftrightarrow>
     unat (gm h) + 472 < 2 ^ 32 \<and> (\<forall>p s. B p = Some s \<longrightarrow> room h p s) \<and>
     (\<forall>p q s t. B p = Some s \<longrightarrow> B q = Some t \<longrightarrow> p \<noteq> q \<longrightarrow> separate (p, s) (q, t))"

lemma chunks_okD:
  assumes "chunks_ok h B"
  shows "unat (gm h) + 472 < 2 ^ 32" "B p = Some s \<Longrightarrow> room h p s"
    "B p = Some s \<Longrightarrow> B q = Some t \<Longrightarrow> p \<noteq> q \<Longrightarrow> separate (p, s) (q, t)"
  using assms by (auto simp: chunks_ok_def)

lemma chunks_ok_subset: "chunks_ok h B \<Longrightarrow> (\<And>p s. B' p = Some s \<Longrightarrow> B p = Some s) \<Longrightarrow> chunks_ok h B'"
  by (simp add: chunks_ok_def)

lemma room_same: "gm h' = gm h \<Longrightarrow> m_least_addr h' = m_least_addr h \<Longrightarrow> room h' p s = room h p s"
  by (simp add: room_def)

lemma chunks_ok_same:
  assumes "gm h' = gm h" and "m_least_addr h' = m_least_addr h"
  shows "chunks_ok h' B = chunks_ok h B"
  by (simp add: chunks_ok_def room_same [OF assms] assms(1))

text \<open>The addresses of the bins.\<close>

lemma small_header:
  assumes "unat (gm h) + 472 < 2 ^ 32" and "i < 32"
  shows "unat (smallbin_at h i) = unat (gm h) + 40 + 8 * i"
    and "k \<le> 12 \<Longrightarrow> unat (smallbin_at h i + of_nat k) = unat (gm h) + 40 + 8 * i + k"
proof -
  have o: "unat (of_nat (40 + 8 * i + k) :: u32) = 40 + 8 * i + k" if "k \<le> 12" for k
    using assms(2) that by (intro of_nat_inverse [OF refl]) simp
  have e: "smallbin_at h i + of_nat k = gm h + of_nat (40 + 8 * i + k)" for k
    by (simp add: smallbin_at_def)
  show 1: "unat (smallbin_at h i + of_nat k) = unat (gm h) + 40 + 8 * i + k" if "k \<le> 12" for k
    unfolding e using gm_offset [of h "of_nat (40 + 8 * i + k)"] assms o [OF that] that by simp
  show "unat (smallbin_at h i) = unat (gm h) + 40 + 8 * i" using 1 [of 0] by simp
qed

lemma tree_slot:
  assumes "unat (gm h) + 472 < 2 ^ 32" and "i < 32"
  shows "unat (treebin_at h i) = unat (gm h) + 304 + 4 * i"
proof -
  have "unat (of_nat (304 + 4 * i) :: u32) = 304 + 4 * i" using assms(2) by (intro of_nat_inverse [OF refl]) simp
  then show ?thesis using gm_offset [of h "of_nat (304 + 4 * i)"] assms by (simp add: treebin_at_def add.assoc)
qed

text \<open>Chunks and bins do not share words.\<close>

lemma bag_link:
  assumes "chunks_ok h B" and "B p = Some s" and "k < unat s" and "8 \<le> k"
  shows "p + of_nat k \<in> links_of (p, s)"
proof -
  have "unat (of_nat k :: u32) = k" using assms(3) unat_limit(3) [of s] by (intro of_nat_inverse [OF refl]) simp
  then show ?thesis using room_link [OF chunks_okD(2) [OF assms(1,2)], of "of_nat k"] assms(3,4) by simp
qed

lemma bag_links_apart:
  "chunks_ok h B \<Longrightarrow> B p = Some s \<Longrightarrow> B q = Some t \<Longrightarrow> p \<noteq> q \<Longrightarrow> links_of (p, s) \<inter> links_of (q, t) = {}"
  by (rule separate_links [OF chunks_okD(3)])

lemma bag_gm_apart: "chunks_ok h B \<Longrightarrow> B p = Some s \<Longrightarrow> links_of (p, s) \<inter> gm_words h = {}"
  by (rule room_gm_words [OF chunks_okD(2)])

lemma bag_size: "chunks_ok h B \<Longrightarrow> B p = Some s \<Longrightarrow> 16 \<le> unat s"
  using chunks_okD(2) by (fastforce simp: room_def)

lemma header_words:
  assumes "unat (gm h) + 472 < 2 ^ 32" and "i < 32"
  shows "smallbin_at h i + 8 \<in> gm_words h" "smallbin_at h i + 12 \<in> gm_words h" "treebin_at h i \<in> gm_words h"
  using small_header(2) [OF assms, of 8] small_header(2) [OF assms, of 12] tree_slot [OF assms] assms(2)
  by (simp_all add: gm_words_def)

lemma bag_address:
  assumes "chunks_ok h B" and "B p = Some s" and "i < 32"
  shows "p \<noteq> smallbin_at h i" "p \<noteq> treebin_at h i"
  using chunks_okD(2) [OF assms(1,2)] small_header(1) [OF chunks_okD(1) [OF assms(1)] assms(3)]
    tree_slot [OF chunks_okD(1) [OF assms(1)] assms(3)] assms(3)
  by (auto simp: room_def)

lemma nodes_bag:
  assumes ok: "chunks_ok h B" and V: "V \<subseteq> dom B"
  shows "nodes (small_headers h \<union> V)"
  unfolding nodes_def
proof (intro ballI)
  fix p q assume p: "p \<in> small_headers h \<union> V" and q: "q \<in> small_headers h \<union> V"
  note g = chunks_okD(1) [OF ok]
  have chunk: "\<exists>s. B x = Some s \<and> x + 8 \<in> links_of (x, s) \<and> x + 12 \<in> links_of (x, s)" if x: "x \<in> V" for x
  proof -
    obtain s where s: "B x = Some s" using V x by auto
    then show ?thesis using bag_link [OF ok s, of 8] bag_link [OF ok s, of 12] bag_size [OF ok s] by auto
  qed
  have header: "\<exists>i<32. x = smallbin_at h i" if "x \<in> small_headers h" for x using that by (auto simp: small_headers_def)
  consider "p \<in> V" "q \<in> V" | "p \<in> V" "q \<in> small_headers h" | "p \<in> small_headers h" "q \<in> V"
    | "p \<in> small_headers h" "q \<in> small_headers h" using p q by blast
  then show "p + 8 \<noteq> q + 12"
  proof cases
    case 1
    show ?thesis
    proof (cases "p = q")
      case False
      then show ?thesis using chunk [OF 1(1)] chunk [OF 1(2)] bag_links_apart [OF ok _ _ False] by fastforce
    qed simp
  next
    case 2
    obtain s where s: "B p = Some s" "p + 8 \<in> links_of (p, s)" using chunk [OF 2(1)] by blast
    have "q + 12 \<in> gm_words h" using header [OF 2(2)] header_words(2) [OF g] by blast
    then show ?thesis using s bag_gm_apart [OF ok s(1)] by (metis disjoint_iff)
  next
    case 3
    obtain s where s: "B q = Some s" "q + 12 \<in> links_of (q, s)" using chunk [OF 3(2)] by blast
    have "p + 8 \<in> gm_words h" using header [OF 3(1)] header_words(1) [OF g] by blast
    then show ?thesis using s bag_gm_apart [OF ok s(1)] by (metis disjoint_iff)
  next
    case 4
    then obtain i j where ij: "i < 32" "j < 32" "p = smallbin_at h i" "q = smallbin_at h j" using header by blast
    have "unat (p + 8) = unat (gm h) + 40 + 8 * i + 8" "unat (q + 12) = unat (gm h) + 40 + 8 * j + 12"
      using small_header(2) [OF g ij(1), of 8] small_header(2) [OF g ij(2), of 12] ij by simp_all
    then have "unat (p + 8) \<noteq> unat (q + 12)" by presburger
    then show ?thesis by metis
  qed
qed

lemma tree_cells_bag:
  assumes ok: "chunks_ok h B" and V: "\<And>x. x \<in> V \<Longrightarrow> \<exists>s. B x = Some s \<and> 256 \<le> unat s"
  shows "tree_cells h V"
proof -
  note g = chunks_okD(1) [OF ok]
  have field: "\<exists>s. B x = Some s \<and> x + k \<in> links_of (x, s)" if x: "x \<in> V" and k: "k \<in> link_offsets" for x k
  proof -
    obtain s where s: "B x = Some s" "256 \<le> unat s" using V [OF x] by blast
    have "8 \<le> unat k" "unat k < unat s" using k s(2) by (auto simp: link_offsets_def)
    then show ?thesis using room_link [OF chunks_okD(2) [OF ok s(1)]] s(1) by blast
  qed
  have "fields_apart V"
    unfolding fields_apart_def
  proof (intro ballI impI)
    fix x y k l assume x: "x \<in> V" and y: "y \<in> V" and k: "k \<in> link_offsets" and l: "l \<in> link_offsets" and e: "x + k = y + l"
    have "x = y"
    proof (rule ccontr)
      assume ne: "x \<noteq> y"
      show False using field [OF x k] field [OF y l] bag_links_apart [OF ok _ _ ne] e by fastforce
    qed
    then show "x = y \<and> k = l" using e by simp
  qed
  moreover have "off_slots h V"
    unfolding off_slots_def using field header_words(3) [OF g] bag_gm_apart [OF ok] by fastforce
  moreover have "inj_on (treebin_at h) {..<32}"
  proof (rule inj_onI)
    fix i j :: nat assume ij: "i \<in> {..<32}" "j \<in> {..<32}" and e: "treebin_at h i = treebin_at h j"
    have "unat (gm h) + 304 + 4 * i = unat (gm h) + 304 + 4 * j"
      using tree_slot [OF g, of i] tree_slot [OF g, of j] ij e unfolding lessThan_iff by metis
    then show "i = j" by simp
  qed
  moreover have "treebin_at h i \<notin> V \<and> treebin_at h i \<noteq> 0" if i: "i < 32" for i
  proof
    show "treebin_at h i \<notin> V" using V bag_address(2) [OF ok _ i] by blast
    show "treebin_at h i \<noteq> 0" using tree_slot [OF g i] unat_0 by (metis add_is_0 zero_neq_numeral)
  qed
  moreover have "x \<noteq> 0 \<and> unat x + 32 < 2 ^ 32 \<and> m_least_addr h \<le> x" if x: "x \<in> V" for x
  proof -
    obtain s where s: "B x = Some s" "256 \<le> unat s" using V [OF x] by blast
    show ?thesis using chunks_okD(2) [OF ok s(1)] s(2) by (auto simp: room_def)
  qed
  ultimately show ?thesis by (simp add: tree_cells_def slots_ok_def chunks_in_def)
qed

section \<open>The bag of free chunks\<close>

definition small_part :: "(u32 \<rightharpoonup> u32) \<Rightarrow> nat \<Rightarrow> u32 set" where
  "small_part B i = {p. \<exists>s. B p = Some s \<and> unat s < 256 \<and> small_index s = i}"

definition large_part :: "(u32 \<rightharpoonup> u32) \<Rightarrow> u32 set" where
  "large_part B = {p. \<exists>s. B p = Some s \<and> 256 \<le> unat s}"

definition bag :: "heap \<Rightarrow> (u32 \<rightharpoonup> u32) \<Rightarrow> bool" where
  "bag h B \<longleftrightarrow>
     (\<exists>L N M. small_inv h L \<and> tree_inv h N M \<and> (\<forall>i<32. set (L i) = small_part B i) \<and> tchunks N M = large_part B)"

definition bag_words :: "heap \<Rightarrow> (u32 \<rightharpoonup> u32) \<Rightarrow> u32 set" where
  "bag_words h B = gm_words h \<union> {a. \<exists>p s. B p = Some s \<and> a \<in> links_of (p, s)}"

lemma small_iff: "is_small s \<longleftrightarrow> unat s < 256" "small_index s = unat s div 8" "unat s < 256 \<Longrightarrow> small_index s < 32"
  by (simp_all add: is_small_def small_index_def SMALLBIN_SHIFT_def NSMALLBINS_def word_less_nat_alt unat_drop_bit) auto

lemma small_part_upd:
  "unat s < 256 \<Longrightarrow> B p = None \<Longrightarrow> small_part (B(p \<mapsto> s)) i = (if i = small_index s then insert p (small_part B i) else small_part B i)"
  "256 \<le> unat s \<Longrightarrow> B p = None \<Longrightarrow> small_part (B(p \<mapsto> s)) i = small_part B i"
  "256 \<le> unat s \<Longrightarrow> large_part (B(p \<mapsto> s)) = insert p (large_part B)"
  "unat s < 256 \<Longrightarrow> B p = None \<Longrightarrow> large_part (B(p \<mapsto> s)) = large_part B"
  by (auto simp: small_part_def large_part_def)

lemma part_del:
  "small_part (B(p := None)) i = small_part B i - {p}" "large_part (B(p := None)) = large_part B - {p}"
  by (auto simp: small_part_def large_part_def)

lemma part_dom: "small_part B i \<subseteq> dom B" "large_part B \<subseteq> dom B"
  by (auto simp: small_part_def large_part_def)

text \<open>The words of the small bins and those of the trees.\<close>

definition small_cells :: "heap \<Rightarrow> (u32 \<rightharpoonup> u32) \<Rightarrow> u32 set" where
  "small_cells h B = link_cells (small_headers h \<union> {p. \<exists>s. B p = Some s \<and> unat s < 256})"

lemma small_cells_words:
  assumes ok: "chunks_ok h B" and a: "a \<in> small_cells h B"
  shows "(a \<in> gm_words h \<and> unat a < unat (gm h) + 304) \<or> (\<exists>p s. B p = Some s \<and> unat s < 256 \<and> a \<in> links_of (p, s))"
proof -
  note g = chunks_okD(1) [OF ok]
  obtain x where x: "x \<in> small_headers h \<or> (\<exists>s. B x = Some s \<and> unat s < 256)" "a = x + 8 \<or> a = x + 12"
    using a by (auto simp: small_cells_def link_cells_def)
  from x(1) show ?thesis
  proof
    assume "x \<in> small_headers h"
    then obtain i where i: "i < 32" "x = smallbin_at h i" by (auto simp: small_headers_def)
    have "a \<in> gm_words h" using x(2) header_words(1,2) [OF g i(1)] i(2) by auto
    moreover have "unat a < unat (gm h) + 304"
      using x(2) small_header(2) [OF g i(1), of 8] small_header(2) [OF g i(1), of 12] i by auto
    ultimately show ?thesis by blast
  next
    assume "\<exists>s. B x = Some s \<and> unat s < 256"
    then obtain s where s: "B x = Some s" "unat s < 256" by blast
    then have "a \<in> links_of (x, s)"
      using x(2) bag_link [OF ok s(1), of 8] bag_link [OF ok s(1), of 12] bag_size [OF ok s(1)] by auto
    then show ?thesis using s by blast
  qed
qed

lemma tree_cells_words:
  assumes ok: "chunks_ok h B" and a: "a \<in> tree_words h (large_part B)"
  shows "(a \<in> gm_words h \<and> unat (gm h) + 304 \<le> unat a) \<or> (\<exists>p s. B p = Some s \<and> 256 \<le> unat s \<and> a \<in> links_of (p, s))"
proof -
  note g = chunks_okD(1) [OF ok]
  consider x k where "x \<in> large_part B" "k \<in> link_offsets" "a = x + k" | i where "i < 32" "a = treebin_at h i"
    using a by (auto simp: tree_words_def)
  then show ?thesis
  proof cases
    case 1
    then obtain s where s: "B x = Some s" "256 \<le> unat s" by (auto simp: large_part_def)
    have "8 \<le> unat k" "unat k < unat s" using 1(2) s(2) by (auto simp: link_offsets_def)
    then show ?thesis using room_link [OF chunks_okD(2) [OF ok s(1)]] s 1(3) by blast
  next
    case 2
    then show ?thesis using header_words(3) [OF g 2(1)] tree_slot [OF g 2(1)] by simp
  qed
qed

lemma small_tree_apart:
  assumes ok: "chunks_ok h B"
  shows "small_cells h B \<inter> tree_words h (large_part B) = {}"
proof (rule equals0I)
  fix a assume "a \<in> small_cells h B \<inter> tree_words h (large_part B)"
  then have s: "(a \<in> gm_words h \<and> unat a < unat (gm h) + 304) \<or> (\<exists>p s. B p = Some s \<and> unat s < 256 \<and> a \<in> links_of (p, s))"
    and t: "(a \<in> gm_words h \<and> unat (gm h) + 304 \<le> unat a) \<or> (\<exists>p s. B p = Some s \<and> 256 \<le> unat s \<and> a \<in> links_of (p, s))"
    using small_cells_words [OF ok] tree_cells_words [OF ok] by blast+
  have g: "a \<notin> gm_words h" if "B p = Some s" "a \<in> links_of (p, s)" for p s
    using bag_gm_apart [OF ok that(1)] that(2) by blast
  obtain p u where p: "B p = Some u" "unat u < 256" "a \<in> links_of (p, u)" using s t g by fastforce
  obtain q v where q: "B q = Some v" "256 \<le> unat v" "a \<in> links_of (q, v)" using t g [OF p(1,3)] by blast
  have "p \<noteq> q" using p(1,2) q(1,2) by auto
  then show False using bag_links_apart [OF ok p(1) q(1)] p(3) q(3) by blast
qed

lemma cells_in_bag:
  assumes "chunks_ok h B"
  shows "small_cells h B \<subseteq> bag_words h B" "tree_words h (large_part B) \<subseteq> bag_words h B"
proof -
  show "small_cells h B \<subseteq> bag_words h B"
  proof
    fix a assume "a \<in> small_cells h B"
    from small_cells_words [OF assms this] show "a \<in> bag_words h B" unfolding bag_words_def by blast
  qed
  show "tree_words h (large_part B) \<subseteq> bag_words h B"
  proof
    fix a assume "a \<in> tree_words h (large_part B)"
    from tree_cells_words [OF assms this] show "a \<in> bag_words h B" unfolding bag_words_def by blast
  qed
qed

section \<open>Writes elsewhere\<close>

lemma small_nodes_part:
  "\<forall>i<32. set (L i) = small_part B i \<Longrightarrow> small_nodes h L = small_headers h \<union> {p. \<exists>s. B p = Some s \<and> unat s < 256}"
  using small_iff(3) by (fastforce simp: small_nodes_def small_part_def)

lemma small_inv_frame:
  assumes inv: "small_inv h L" and same: "\<And>a. a \<in> link_cells (small_nodes h L) \<Longrightarrow> words h' a = words h a"
    and "m_smallmap h' = m_smallmap h" and "gm h' = gm h" and "m_least_addr h' = m_least_addr h"
  shows "small_inv h' L"
proof -
  have at: "smallbin_at h' = smallbin_at h" using assms(4) by (simp add: smallbin_at_def fun_eq_iff)
  have "ring (chain h') (smallbin_at h i) (L i)" if i: "i < 32" "L i \<noteq> []" for i
  proof (rule ring_other [OF _ small_invD(2) [OF inv i]])
    fix n assume "n \<in> insert (smallbin_at h i) (set (L i))"
    then have "n \<in> small_nodes h L" using i(1) by (auto simp: small_nodes_def small_headers_def)
    then have "n + 8 \<in> link_cells (small_nodes h L)" "n + 12 \<in> link_cells (small_nodes h L)" by (auto simp: link_cells_def)
    then show "fd h' n = fd h n \<and> bk h' n = bk h n" using same by (simp add: fd_def bk_def)
  qed
  then show ?thesis using inv assms(3,5) unfolding small_inv_def at small_headers_def by simp
qed

lemma tree_inv_frame:
  assumes inv: "tree_inv h N M" and same: "\<And>a. a \<in> tree_words h (tchunks N M) \<Longrightarrow> words h' a = words h a"
    and "m_treemap h' = m_treemap h" and "gm h' = gm h"
  shows "tree_inv h' N M"
proof -
  let ?U = "tchunks N M"
  have at: "treebin_at h' = treebin_at h" using assms(4) by (simp add: treebin_at_def fun_eq_iff)
  have f: "field h' p k = field h p k" if "p \<in> ?U" "k \<in> link_offsets" for p k
    using same [OF tree_word_field [OF that]] by (simp add: field_def)
  have s: "words h' (treebin_at h i) = words h (treebin_at h i)" if "i < 32" for i
    using that by (intro same) (auto simp: tree_words_def)
  have "tree_view ?U h' = tree_view ?U h"
    unfolding tree_view_def fields at using f s by (auto simp: only_def fun_eq_iff link_offsets_def)
  then show ?thesis using inv assms(3) by (simp add: tree_inv_def at)
qed

lemma bag_frame:
  assumes "bag h B" and ok: "chunks_ok h B" and same: "\<And>a. a \<in> bag_words h B \<Longrightarrow> words h' a = words h a"
    and maps: "m_smallmap h' = m_smallmap h" "m_treemap h' = m_treemap h" and gm: "gm h' = gm h" "m_least_addr h' = m_least_addr h"
  shows "bag h' B"
proof -
  obtain L N M where L: "small_inv h L" "\<forall>i<32. set (L i) = small_part B i"
    and T: "tree_inv h N M" "tchunks N M = large_part B"
    using assms(1) by (auto simp: bag_def)
  have "link_cells (small_nodes h L) \<subseteq> bag_words h B"
    using cells_in_bag(1) [OF ok] unfolding small_cells_def small_nodes_part [OF L(2)] .
  then have "small_inv h' L" using same maps(1) gm by (intro small_inv_frame [OF L(1)]) auto
  moreover have "tree_inv h' N M"
    using same cells_in_bag(2) [OF ok] maps(2) gm(1) by (intro tree_inv_frame [OF T(1)]) (auto simp: T(2))
  ultimately show ?thesis using L(2) T(2) unfolding bag_def by blast
qed

section \<open>Adding a chunk and taking one out\<close>

lemma small_ops_treemap:
  "insert_small_chunk p s h = ret h' \<Longrightarrow> m_treemap h' = m_treemap h"
  "unlink_small_chunk p s h = ret h' \<Longrightarrow> m_treemap h' = m_treemap h"
  "unlink_first_small_chunk b p i h = ret h' \<Longrightarrow> m_treemap h' = m_treemap h"
  by (auto simp: insert_small_chunk_def unlink_small_chunk_def unlink_first_small_chunk_def Let_def
      mark_smallmap_def clear_smallmap_def split: if_splits)

lemma bin_step_gm:
  assumes "bin_step A h h'"
  shows "gm h' = gm h" "m_least_addr h' = m_least_addr h"
  using rest_eqD(1,2) [of h' h] assms by (simp_all add: bin_step_def)

lemma tree_words_gm: "gm h' = gm h \<Longrightarrow> tree_words h' U = tree_words h U"
  by (simp add: tree_words_def treebin_at_def)

lemma bag_after_small:
  assumes ok: "chunks_ok h B" and T: "tree_inv h N M" "tchunks N M = large_part B" and step: "bin_step (small_cells h B) h h'"
    and map: "m_treemap h' = m_treemap h"
  shows "tree_inv h' N M"
  using small_tree_apart [OF ok] step map bin_step_gm(1) [OF step]
  by (intro tree_inv_frame [OF T(1)]) (auto simp: bin_step_def T(2))

lemma bag_insert_small:
  assumes "bag h B" and ok: "chunks_ok h (B(p \<mapsto> s))" and p: "B p = None" and s: "unat s < 256"
  shows "\<exists>h'. insert_small_chunk p s h = ret h' \<and> bag h' (B(p \<mapsto> s)) \<and> bin_step (bag_words h (B(p \<mapsto> s))) h h'"
proof -
  let ?B = "B(p \<mapsto> s)" and ?i = "small_index s"
  obtain L N M where L: "small_inv h L" "\<forall>i<32. set (L i) = small_part B i"
    and T: "tree_inv h N M" "tchunks N M = large_part B"
    using assms(1) by (auto simp: bag_def)
  have nodes: "insert p (small_nodes h L) = small_headers h \<union> {q. \<exists>t. ?B q = Some t \<and> unat t < 256}"
    unfolding small_nodes_part [OF L(2)] using s by auto
  have "nodes (insert p (small_nodes h L))" unfolding nodes by (rule nodes_bag [OF ok]) auto
  moreover have "p \<notin> small_nodes h L"
    unfolding small_nodes_part [OF L(2)] using bag_address(1) [OF ok, of p s] p by (auto simp: small_headers_def)
  moreover have "m_least_addr h \<le> p" using chunks_okD(2) [OF ok, of p s] by (simp add: room_def)
  ultimately obtain h' where h': "insert_small_chunk p s h = ret h'" "small_inv h' (L(?i := p # L ?i))"
    "bin_step (small_cells h ?B) h h'"
    using insert_small_runs [OF L(1) refl small_iff(3) [OF s], of p] unfolding small_cells_def nodes by blast
  have T': "tchunks N M = large_part ?B" using T(2) small_part_upd(4) [of s B p, OF s p] by simp
  have "tree_inv h' N M" by (rule bag_after_small [OF ok T(1) T' h'(3) small_ops_treemap(1) [OF h'(1)]])
  moreover have "set ((L(?i := p # L ?i)) i) = small_part ?B i" if "i < 32" for i
    using L(2) [rule_format, OF that] small_part_upd(1) [of s B p, OF s p] by auto
  ultimately have "bag h' ?B" using h'(2) T' unfolding bag_def by blast
  then show ?thesis using h'(1) bin_step_mono [OF h'(3) cells_in_bag(1) [OF ok]] by blast
qed

lemma bag_insert_large:
  assumes "bag h B" and ok: "chunks_ok h (B(p \<mapsto> s))" and p: "B p = None" and s: "256 \<le> unat s"
  shows "\<exists>h'. insert_large_chunk p s h = ret h' \<and> bag h' (B(p \<mapsto> s)) \<and> bin_step (bag_words h (B(p \<mapsto> s))) h h'"
proof -
  let ?B = "B(p \<mapsto> s)"
  obtain L N M where L: "small_inv h L" "\<forall>i<32. set (L i) = small_part B i"
    and T: "tree_inv h N M" "tchunks N M = large_part B"
    using assms(1) by (auto simp: bag_def)
  have all: "insert p (tchunks N M) = large_part ?B" using T(2) small_part_upd(3) [OF s] by simp
  have "tree_cells h (insert p (tchunks N M))"
    unfolding all by (rule tree_cells_bag [OF ok]) (auto simp: large_part_def)
  moreover have "p \<notin> tchunks N M" using p T(2) by (auto simp: large_part_def)
  ultimately obtain h' N' M' where h': "insert_large_chunk p s h = ret h'" "tree_inv h' N' M'"
    "tchunks N' M' = large_part ?B" and step: "tree_step (tree_words h (large_part ?B)) h h'"
    using insert_large_runs [OF T(1) _ _ s, of p] unfolding all by blast
  have L': "\<forall>i<32. set (L i) = small_part ?B i" using L(2) small_part_upd(2) [of s B p, OF s p] by simp
  have b: "bin_step (tree_words h (large_part ?B)) h h'" using step by (simp add: tree_step_def)
  have "small_inv h' L"
  proof (rule small_inv_frame [OF L(1)])
    show "words h' a = words h a" if "a \<in> link_cells (small_nodes h L)" for a
      using that small_tree_apart [OF ok] b unfolding small_cells_def small_nodes_part [OF L'] bin_step_def by blast
  qed (use step bin_step_gm [OF b] in \<open>simp_all add: tree_step_def\<close>)
  then have "bag h' ?B" using h'(2,3) L' unfolding bag_def by blast
  then show ?thesis using h'(1) bin_step_mono [OF b cells_in_bag(2) [OF ok]] by blast
qed

lemma bag_insert:
  assumes "bag h B" and "chunks_ok h (B(p \<mapsto> s))" and "B p = None"
  shows "\<exists>h'. insert_chunk p s h = ret h' \<and> bag h' (B(p \<mapsto> s)) \<and> bin_step (bag_words h (B(p \<mapsto> s))) h h'"
  using bag_insert_small [OF assms] bag_insert_large [OF assms] by (cases "unat s < 256") (auto simp: insert_chunk_def small_iff(1))

lemma bag_unlink_small:
  assumes "bag h B" and ok: "chunks_ok h B" and p: "B p = Some s" and s: "unat s < 256"
  shows "\<exists>h'. unlink_small_chunk p s h = ret h' \<and> bag h' (B(p := None)) \<and> bin_step (bag_words h B) h h'"
proof -
  let ?B = "B(p := None)" and ?i = "small_index s"
  obtain L N M where L: "small_inv h L" "\<forall>i<32. set (L i) = small_part B i"
    and T: "tree_inv h N M" "tchunks N M = large_part B"
    using assms(1) by (auto simp: bag_def)
  have nodes: "small_nodes h L = small_headers h \<union> {q. \<exists>t. B q = Some t \<and> unat t < 256}" by (rule small_nodes_part [OF L(2)])
  have "nodes (small_nodes h L)" unfolding nodes by (rule nodes_bag [OF ok]) auto
  moreover have pi: "p \<in> set (L ?i)" using L(2) [rule_format, OF small_iff(3) [OF s]] p s by (auto simp: small_part_def)
  ultimately obtain h' where h': "unlink_small_chunk p s h = ret h'" "small_inv h' (L(?i := remove1 p (L ?i)))"
    "bin_step (small_cells h B) h h'"
    using unlink_small_runs [OF L(1) refl small_iff(3) [OF s]] unfolding small_cells_def nodes by blast
  have "tree_inv h' N M" by (rule bag_after_small [OF ok T h'(3) small_ops_treemap(2) [OF h'(1)]])
  moreover have "tchunks N M = large_part ?B" using T(2) p s by (auto simp: large_part_def)
  moreover have "set ((L(?i := remove1 p (L ?i))) i) = small_part ?B i" if "i < 32" for i
  proof -
    have "L ?i \<noteq> []" using pi by auto
    from small_invD(2) [OF L(1) small_iff(3) [OF s] this] have "distinct (L ?i)" by (simp add: ring_def)
    moreover have "p \<notin> set (L i)" if "i \<noteq> ?i" using L(2) [rule_format, OF \<open>i < 32\<close>] p that by (auto simp: small_part_def)
    ultimately show ?thesis using L(2) [rule_format, OF that] unfolding part_del by auto
  qed
  ultimately have "bag h' ?B" using h'(2) unfolding bag_def by blast
  then show ?thesis using h'(1) bin_step_mono [OF h'(3) cells_in_bag(1) [OF ok]] by blast
qed

lemma bag_unlink_large:
  assumes "bag h B" and ok: "chunks_ok h B" and p: "B p = Some s" and s: "256 \<le> unat s"
  shows "\<exists>h'. unlink_large_chunk p h = ret h' \<and> bag h' (B(p := None)) \<and> bin_step (bag_words h B) h h'"
proof -
  let ?B = "B(p := None)"
  obtain L N M where L: "small_inv h L" "\<forall>i<32. set (L i) = small_part B i"
    and T: "tree_inv h N M" "tchunks N M = large_part B"
    using assms(1) by (auto simp: bag_def)
  have "tree_cells h (tchunks N M)" unfolding T(2) by (rule tree_cells_bag [OF ok]) (auto simp: large_part_def)
  moreover have "p \<in> tchunks N M" unfolding T(2) using p s by (auto simp: large_part_def)
  ultimately obtain h' N' M' where h': "unlink_large_chunk p h = ret h'" "tree_inv h' N' M'" "tchunks N' M' = large_part B - {p}"
    and step: "tree_step (tree_words h (large_part B)) h h'"
    using unlink_large_runs [OF T(1)] unfolding T(2) by blast
  have b: "bin_step (tree_words h (large_part B)) h h'" using step by (simp add: tree_step_def)
  have "small_inv h' L"
  proof (rule small_inv_frame [OF L(1)])
    show "words h' a = words h a" if "a \<in> link_cells (small_nodes h L)" for a
      using that small_tree_apart [OF ok] b unfolding small_cells_def small_nodes_part [OF L(2)] bin_step_def by blast
  qed (use step bin_step_gm [OF b] in \<open>simp_all add: tree_step_def\<close>)
  moreover have "set (L i) = small_part ?B i" if "i < 32" for i
    using L(2) [rule_format, OF that] p s by (auto simp: small_part_def)
  ultimately have "bag h' ?B" using h'(2,3) unfolding bag_def part_del by blast
  then show ?thesis using h'(1) bin_step_mono [OF b cells_in_bag(2) [OF ok]] by blast
qed

lemma bag_unlink:
  assumes "bag h B" and "chunks_ok h B" and "B p = Some s"
  shows "\<exists>h'. unlink_chunk p s h = ret h' \<and> bag h' (B(p := None)) \<and> bin_step (bag_words h B) h h'"
  using bag_unlink_small [OF assms] bag_unlink_large [OF assms] by (cases "unat s < 256") (auto simp: unlink_chunk_def small_iff(1))

end
