(* ===== verification/MallocTiles.thy ===== *)
theory MallocTiles
  imports MallocBag
begin

text \<open>
  The heap of \<^verbatim>\<open>malloc.c\<close> as a row of chunks. A map gives the size and the kind of the chunk at each
  address; the heads and feet in memory agree with it. A chunk whose head is about to be written is a
  hole; splitting, joining, using and freeing chunks are steps between maps that go through holes.
\<close>

section \<open>Heads\<close>

lemma dvd_8: "8 dvd unat s \<longleftrightarrow> s AND 7 = 0" for s :: u32
proof -
  have "unat (s AND 7) = unat s mod 8" using unat_and_mask [of s 3] by (simp add: mask_eq_exp_minus_1)
  then show ?thesis by (metis dvd_eq_mod_eq_0 unat_eq_zero)
qed

lemma flag_masks: "FLAG_BITS = 7" "INUSE_BITS = 3" "CINUSE_BIT = 2" "PINUSE_BIT = 1" "FENCEPOST_HEAD = 7"
  by (simp_all add: malloc_constants)

text \<open>A size with the two flags.\<close>

definition head_of :: "u32 \<Rightarrow> bool \<Rightarrow> bool \<Rightarrow> u32" where
  "head_of s pin cin = s OR (if pin then 1 else 0) OR (if cin then 2 else 0)"

lemma low_bits_clear: "8 dvd unat s \<Longrightarrow> n < 3 \<Longrightarrow> \<not> bit s n" for s :: u32
proof -
  assume a: "8 dvd unat s" "n < 3"
  have "bit (s AND mask 3) n \<longleftrightarrow> bit s n" using a(2) by (simp add: bit_simps)
  moreover have "s AND mask 3 = 0" using a(1) by (simp add: dvd_8 mask_eq_exp_minus_1)
  ultimately show ?thesis by simp
qed

lemma bit_flags:
  "bit (1 :: u32) n \<longleftrightarrow> n = 0" "bit (2 :: u32) n \<longleftrightarrow> n = 1" "bit (3 :: u32) n \<longleftrightarrow> n < 2" "bit (7 :: u32) n \<longleftrightarrow> n < 3"
proof -
  show "bit (1 :: u32) n \<longleftrightarrow> n = 0" by (simp add: bit_1_iff)
  have "bit (push_bit 1 1 :: u32) n \<longleftrightarrow> n = 1" by (auto simp: bit_simps)
  then show "bit (2 :: u32) n \<longleftrightarrow> n = 1" by simp
  have "bit (mask 2 :: u32) n \<longleftrightarrow> n < 2" by (auto simp: bit_mask_iff)
  then show "bit (3 :: u32) n \<longleftrightarrow> n < 2" by (simp add: mask_eq_exp_minus_1)
  have "bit (mask 3 :: u32) n \<longleftrightarrow> n < 3" by (auto simp: bit_mask_iff)
  then show "bit (7 :: u32) n \<longleftrightarrow> n < 3" by (simp add: mask_eq_exp_minus_1)
qed

lemma bit_head_of:
  assumes "8 dvd unat s"
  shows "bit (head_of s pin cin) n \<longleftrightarrow> (if n = 0 then pin else if n = 1 then cin else bit s n)"
proof -
  have "bit (if pin then 1 else 0 :: u32) n \<longleftrightarrow> pin \<and> n = 0" "bit (if cin then 2 else 0 :: u32) n \<longleftrightarrow> cin \<and> n = 1"
    using bit_flags(1,2) [of n] by (cases pin; cases cin; simp)+
  then show ?thesis
    unfolding head_of_def bit_or_iff using low_bits_clear [OF assms, of n] by auto
qed

lemma bit_not_flags:
  "bit (x AND NOT 7) n \<longleftrightarrow> bit x n \<and> \<not> n < 3" "bit (x AND NOT 1) n \<longleftrightarrow> bit x n \<and> n \<noteq> 0"
  "bit (x AND 1) n \<longleftrightarrow> bit x n \<and> n = 0" "bit (x AND 2) n \<longleftrightarrow> bit x n \<and> n = 1" "bit (x AND 3) n \<longleftrightarrow> bit x n \<and> n < 2"
  "bit (x OR 1) n \<longleftrightarrow> bit x n \<or> n = 0" for x :: u32
  using bit_imp_le_length [of x n] unfolding bit_and_iff bit_or_iff bit_not_iff bit_flags by auto

lemma head_of_size:
  assumes "8 dvd unat s"
  shows "head_of s pin cin AND NOT 7 = s"
proof (rule bit_word_eqI)
  fix n
  show "bit (head_of s pin cin AND NOT 7) n \<longleftrightarrow> bit s n"
    unfolding bit_not_flags bit_head_of [OF assms] using low_bits_clear [OF assms, of n] by auto
qed

lemma head_of_low:
  assumes "8 dvd unat s"
  shows "head_of s pin cin AND 3 = head_of 0 pin cin"
proof (rule bit_word_eqI)
  fix n
  have z: "8 dvd unat (0 :: u32)" by simp
  show "bit (head_of s pin cin AND 3) n \<longleftrightarrow> bit (head_of 0 pin cin) n"
    unfolding bit_not_flags bit_head_of [OF assms] bit_head_of [OF z] by auto
qed

lemma head_of_flags:
  assumes "8 dvd unat s"
  shows "head_of s pin cin AND 1 = 0 \<longleftrightarrow> \<not> pin" "head_of s pin cin AND 2 = 0 \<longleftrightarrow> \<not> cin"
    "head_of s pin cin AND 3 = 3 \<longleftrightarrow> pin \<and> cin" "head_of s pin cin AND 3 = 1 \<longleftrightarrow> pin \<and> \<not> cin"
    "head_of s pin cin AND 3 = 0 \<longleftrightarrow> \<not> pin \<and> \<not> cin"
proof -
  have m: "(3 :: u32) AND 1 = 1" "(3 :: u32) AND 2 = 2" by simp_all
  have "head_of s pin cin AND 1 = head_of 0 pin cin AND 1" "head_of s pin cin AND 2 = head_of 0 pin cin AND 2"
    unfolding head_of_low [OF assms, symmetric] by (simp_all add: and.assoc m)
  then show "head_of s pin cin AND 1 = 0 \<longleftrightarrow> \<not> pin" "head_of s pin cin AND 2 = 0 \<longleftrightarrow> \<not> cin"
    by (simp_all add: head_of_def)
  show "head_of s pin cin AND 3 = 3 \<longleftrightarrow> pin \<and> cin" "head_of s pin cin AND 3 = 1 \<longleftrightarrow> pin \<and> \<not> cin"
    "head_of s pin cin AND 3 = 0 \<longleftrightarrow> \<not> pin \<and> \<not> cin"
    unfolding head_of_low [OF assms] by (simp_all add: head_of_def)
qed

lemma head_of_set_pin:
  assumes "8 dvd unat s"
  shows "head_of s pin cin OR 1 = head_of s True cin" "head_of s pin cin AND NOT 1 = head_of s False cin"
  by (rule bit_word_eqI; unfold bit_not_flags bit_head_of [OF assms]; auto)+

lemma pin_bit:
  "(x OR 1) AND 2 = x AND 2" "(x OR 1) AND 1 = 1" "(x AND NOT 1) AND 2 = x AND 2" "(x AND NOT 1) AND 1 = 0" for x :: u32
proof -
  show "(x OR 1) AND 2 = x AND 2" "(x OR 1) AND 1 = 1" by (simp_all add: bit.conj_disj_distrib2)
  have n: "NOT 1 AND (2 :: u32) = 2" "NOT 1 AND (1 :: u32) = 0" by simp_all
  show "(x AND NOT 1) AND 2 = x AND 2" "(x AND NOT 1) AND 1 = 0" unfolding and.assoc n by simp_all
qed

section \<open>Rows of chunks\<close>

text \<open>The top chunk includes its foot. A fence is the first of the fence posts at the end of an old
  segment. The next chunk's flag tells a hole's neighbour whether the hole was free.\<close>

datatype ckind = Used | Free | Hole bool | Top | Fence

type_synonym row = "u32 \<rightharpoonup> u32 \<times> ckind"

fun marks_free :: "ckind \<Rightarrow> bool" where
  "marks_free Free = True" | "marks_free (Hole b) = b" | "marks_free _ = False"

definition free_end :: "row \<Rightarrow> u32 \<Rightarrow> u32 \<Rightarrow> bool" where
  "free_end C q p \<longleftrightarrow> (case C q of None \<Rightarrow> False | Some (t, k) \<Rightarrow> q + t = p \<and> marks_free k)"

definition prev_free :: "row \<Rightarrow> u32 \<Rightarrow> bool" where
  "prev_free C p \<longleftrightarrow> (\<exists>q. free_end C q p)"

definition area :: "heap \<Rightarrow> u32 \<Rightarrow> u32 \<Rightarrow> bool" where
  "area h p s \<longleftrightarrow>
     8 dvd unat p \<and> 8 dvd unat s \<and> 0 < unat s \<and> 0 < unat p \<and> unat p + unat s < 2 ^ 32 \<and>
     m_least_addr h \<le> p \<and> (unat p + unat s \<le> unat (gm h) \<or> unat (gm h) + 472 \<le> unat p)"

lemma room_area: "room h p s \<longleftrightarrow> area h p s \<and> 16 \<le> unat s"
  by (auto simp: room_def area_def)

definition next_is :: "row \<Rightarrow> u32 \<Rightarrow> (ckind \<Rightarrow> bool) \<Rightarrow> bool" where
  "next_is C n P \<longleftrightarrow> (\<exists>t k. C n = Some (t, k) \<and> P k)"

fun kind_ok :: "heap \<Rightarrow> row \<Rightarrow> u32 \<Rightarrow> u32 \<Rightarrow> ckind \<Rightarrow> bool" where
  "kind_ok h C p s Used \<longleftrightarrow> 16 \<le> unat s \<and> p + s \<in> dom C \<and> head h p = head_of s (\<not> prev_free C p) True"
| "kind_ok h C p s Free \<longleftrightarrow>
     16 \<le> unat s \<and> head h p = head_of s True False \<and> prev_foot h (p + s) = s \<and> \<not> prev_free C p \<and>
     next_is C (p + s) (\<lambda>k. k \<noteq> Free \<and> k \<noteq> Top)"
| "kind_ok h C p s (Hole b) \<longleftrightarrow> 16 \<le> unat s \<and> next_is C (p + s) (\<lambda>k. b \<longrightarrow> k \<noteq> Free \<and> k \<noteq> Top)"
| "kind_ok h C p s Top \<longleftrightarrow>
     p = m_top h \<and> s = m_topsize h + 40 \<and> unat s = unat (m_topsize h) + 40 \<and> 8 \<le> unat (m_topsize h) \<and>
     head h p = head_of (m_topsize h) True False \<and> \<not> prev_free C p"
| "kind_ok h C p s Fence \<longleftrightarrow> s = 8 \<and> head h p AND 2 \<noteq> 0 \<and> (head h p AND 1 = 0 \<longleftrightarrow> prev_free C p)"

definition apart :: "row \<Rightarrow> bool" where
  "apart C \<longleftrightarrow> (\<forall>p q s t j k. C p = Some (s, j) \<longrightarrow> C q = Some (t, k) \<longrightarrow> p \<noteq> q \<longrightarrow> separate (p, s) (q, t))"

definition tiles :: "heap \<Rightarrow> row \<Rightarrow> bool" where
  "tiles h C \<longleftrightarrow>
     unat (gm h) + 472 < 2 ^ 32 \<and> apart C \<and> (\<exists>s. C (m_top h) = Some (s, Top)) \<and>
     (\<forall>p s k. C p = Some (s, k) \<longrightarrow> area h p s \<and> kind_ok h C p s k)"

lemma tilesD:
  assumes "tiles h C"
  shows "unat (gm h) + 472 < 2 ^ 32" "C p = Some (s, k) \<Longrightarrow> area h p s" "C p = Some (s, k) \<Longrightarrow> kind_ok h C p s k"
    "C p = Some (s, j) \<Longrightarrow> C q = Some (t, k) \<Longrightarrow> p \<noteq> q \<Longrightarrow> separate (p, s) (q, t)"
    "\<exists>s. C (m_top h) = Some (s, Top)"
  using assms by (auto simp: tiles_def apart_def)

lemma area_end: "area h p s \<Longrightarrow> unat (p + s) = unat p + unat s"
  by (auto simp: area_def unat_word_ariths)

text \<open>No two chunks end at the same place, and none lies inside another.\<close>

lemma ends_apart:
  assumes "tiles h C" and "C p = Some (s, j)" and "C q = Some (t, k)" and "p \<noteq> q"
  shows "p + s \<noteq> q + t"
proof
  assume "p + s = q + t"
  then have "unat p + unat s = unat q + unat t"
    using area_end [OF tilesD(2) [OF assms(1,2)]] area_end [OF tilesD(2) [OF assms(1,3)]] by simp
  then show False using tilesD(4) [OF assms] tilesD(2) [OF assms(1,2)] tilesD(2) [OF assms(1,3)]
    by (auto simp: separate_def area_def)
qed

lemma prev_free_end:
  assumes "tiles h C" and "C p = Some (s, k)"
  shows "prev_free C (p + s) \<longleftrightarrow> marks_free k"
proof -
  have "free_end C q (p + s) \<longleftrightarrow> q = p \<and> marks_free k" for q
    using ends_apart [OF assms(1) _ assms(2)] assms(2) by (cases "q = p") (auto simp: free_end_def split: option.splits)
  then show ?thesis by (simp add: prev_free_def)
qed

lemma prev_free_cong: "(\<And>q. free_end C' q c \<longleftrightarrow> free_end C q c) \<Longrightarrow> prev_free C' c \<longleftrightarrow> prev_free C c"
  by (simp add: prev_free_def)

lemma free_end_upd:
  "free_end (C(p \<mapsto> (s, k))) q c \<longleftrightarrow> (if q = p then p + s = c \<and> marks_free k else free_end C q c)"
  "free_end (C(p := None)) q c \<longleftrightarrow> q \<noteq> p \<and> free_end C q c"
  by (simp_all add: free_end_def)

lemma free_end_at: "C p = Some (s, k) \<Longrightarrow> free_end C p c \<longleftrightarrow> p + s = c \<and> marks_free k"
  by (simp add: free_end_def)

lemma no_chunk_inside:
  assumes "tiles h C" and "C p = Some (s, k)" and "0 < unat d" and "unat d < unat s"
  shows "C (p + d) = None"
proof (rule ccontr)
  assume "C (p + d) \<noteq> None"
  then obtain t j where q: "C (p + d) = Some (t, j)" by auto
  have d: "unat (p + d) = unat p + unat d"
    using tilesD(2) [OF assms(1,2)] assms(4) by (auto simp: area_def unat_word_ariths)
  then have "p \<noteq> p + d" using assms(3) by auto
  then show False using tilesD(4) [OF assms(1,2) q] d assms(3,4) tilesD(2) [OF assms(1) q]
    by (auto simp: separate_def area_def)
qed

lemma aligned_off: "8 dvd unat a \<Longrightarrow> 8 dvd unat b \<Longrightarrow> a + 4 \<noteq> b" for a b :: u32
proof
  assume a: "8 dvd unat a" "8 dvd unat b" "a + 4 = b"
  obtain k where k: "unat a = 8 * k" using a(1) by (rule dvdE)
  then have "k \<le> 536870911" using unat_limit(3) [of a] by simp
  then have "unat a + 4 < 2 ^ 32" using k by simp
  then have "unat b = unat a + 4" using a(3) by (auto simp: unat_word_ariths)
  then show False using a(1,2) by presburger
qed

lemma area_aligned: "area h p s \<Longrightarrow> 8 dvd unat p" "area h p s \<Longrightarrow> 8 dvd unat (p + s)"
  by (simp_all add: area_end) (simp_all add: area_def)

section \<open>Steps between rows\<close>

text \<open>What a chunk that is not touched needs.\<close>

lemma kind_ok_frame:
  assumes "kind_ok h C c s k" and "head h' c = head h c" and "k = Free \<Longrightarrow> prev_foot h' (c + s) = prev_foot h (c + s)"
    and "prev_free C' c \<longleftrightarrow> prev_free C c" and "next_is C (c + s) (\<lambda>k. True) \<Longrightarrow> next_is C' (c + s) (\<lambda>k. True)"
    and "marks_free k \<Longrightarrow> next_is C (c + s) (\<lambda>k. k \<noteq> Free \<and> k \<noteq> Top) \<Longrightarrow> next_is C' (c + s) (\<lambda>k. k \<noteq> Free \<and> k \<noteq> Top)"
    and "k = Top \<Longrightarrow> m_top h' = m_top h \<and> m_topsize h' = m_topsize h"
  shows "kind_ok h' C' c s k"
  using assms by (cases k) (auto simp: next_is_def dom_def)

text \<open>A chunk that is taken or freed becomes a hole.\<close>

lemma tiles_hole:
  assumes t: "tiles h C" and p: "C p = Some (s, k)" and k: "k = Used \<or> k = Free"
  shows "tiles h (C(p \<mapsto> (s, Hole (k = Free))))"
proof -
  let ?k = "Hole (k = Free)" and ?C = "C(p \<mapsto> (s, Hole (k = Free)))"
  have m: "marks_free ?k \<longleftrightarrow> marks_free k" using k by auto
  have pf: "prev_free ?C c \<longleftrightarrow> prev_free C c" for c
    using m free_end_at [of C p s k, OF p] by (intro prev_free_cong) (auto simp: free_end_upd)
  have nx: "next_is C n (\<lambda>k. True) \<Longrightarrow> next_is ?C n (\<lambda>k. True)"
    "next_is C n (\<lambda>k. k \<noteq> Free \<and> k \<noteq> Top) \<Longrightarrow> next_is ?C n (\<lambda>k. k \<noteq> Free \<and> k \<noteq> Top)" for n
    by (auto simp: next_is_def)
  have "area h c u \<and> kind_ok h ?C c u j" if c: "?C c = Some (u, j)" for c u j
  proof (cases "c = p")
    case True
    then have "u = s" "j = ?k" using c by auto
    then show ?thesis using True tilesD(2,3) [OF t p] k nx by (auto simp: next_is_def dom_def)
  next
    case False
    then have c': "C c = Some (u, j)" using c by simp
    then show ?thesis using tilesD(2,3) [OF t c'] by (auto intro: kind_ok_frame simp: pf nx)
  qed
  moreover have "apart ?C" using t p unfolding tiles_def apart_def by (auto split: if_splits)
  moreover have "m_top h \<noteq> p" using tilesD(5) [OF t] p k by auto
  ultimately show ?thesis using t unfolding tiles_def by auto
qed

text \<open>A hole is split in two, and two holes are joined; nothing is written.\<close>

lemma tiles_split:
  assumes t: "tiles h C" and p: "C p = Some (s, Hole b)" and nb: "8 dvd unat nb" "16 \<le> unat nb" "unat nb + 16 \<le> unat s"
  shows "tiles h (C(p \<mapsto> (nb, Hole False), p + nb \<mapsto> (s - nb, Hole b)))" (is "tiles h ?C")
proof -
  let ?r = "p + nb"
  have a: "area h p s" using tilesD(2) [OF t p] .
  have r: "unat ?r = unat p + unat nb" "unat (s - nb) = unat s - unat nb" "?r + (s - nb) = p + s"
    using a nb by (auto simp: area_def unat_word_ariths unat_sub word_le_nat_alt)
  have Cr: "C ?r = None" by (rule no_chunk_inside [OF t p]) (use nb in auto)
  have pr: "?r \<noteq> p" using nb by auto
  have pf: "prev_free ?C c \<longleftrightarrow> prev_free C c" if "c \<noteq> ?r" for c
  proof -
    have 1: "free_end C p c \<longleftrightarrow> p + s = c \<and> b" "\<not> free_end C ?r c" using p Cr by (simp_all add: free_end_def)
    have 2: "free_end ?C q c \<longleftrightarrow> (if q = ?r then p + s = c \<and> b else q \<noteq> p \<and> free_end C q c)" for q
      using that r(3) by (auto simp: free_end_upd)
    show ?thesis unfolding prev_free_def 2 using 1 pr by metis
  qed
  have nx: "next_is C n (\<lambda>k. True) \<Longrightarrow> next_is ?C n (\<lambda>k. True)"
    "next_is C n (\<lambda>k. k \<noteq> Free \<and> k \<noteq> Top) \<Longrightarrow> next_is ?C n (\<lambda>k. k \<noteq> Free \<and> k \<noteq> Top)" for n
    by (auto simp: next_is_def)
  have ar: "area h p nb" "area h ?r (s - nb)" using a nb r by (auto simp: area_def word_le_nat_alt)
  have "area h c u \<and> kind_ok h ?C c u j" if c: "?C c = Some (u, j)" for c u j
  proof -
    consider "c = ?r" "u = s - nb" "j = Hole b" | "c = p" "c \<noteq> ?r" "u = nb" "j = Hole False" | "c \<noteq> ?r" "c \<noteq> p" "C c = Some (u, j)"
      using c pr by (auto split: if_splits)
    then show ?thesis
    proof cases
      case 1
      then show ?thesis using ar(2) r nb tilesD(3) [OF t p] nx by (cases b) (auto simp: next_is_def)
    next
      case 2
      then show ?thesis using ar(1) nb by (auto simp: next_is_def)
    next
      case 3
      then show ?thesis using tilesD(2,3) [OF t 3(3)] by (auto intro: kind_ok_frame simp: pf nx)
    qed
  qed
  moreover have "apart ?C"
    unfolding apart_def
  proof (intro allI impI)
    fix c d u v j k assume c: "?C c = Some (u, j)" and d: "?C d = Some (v, k)" and ne: "c \<noteq> d"
    have sp: "separate (p, nb) (x, w)" "separate (?r, s - nb) (x, w)" "separate (x, w) (p, nb)" "separate (x, w) (?r, s - nb)"
      if "C x = Some (w, l)" "x \<noteq> p" for x w l
      using tilesD(4) [OF t p that(1)] that(2) r nb by (auto simp: separate_def)
    have old: "separate (c, u) (d, v)" if "C c = Some (u, j)" "C d = Some (v, k)" using tilesD(4) [OF t that ne] .
    have new: "separate (p, nb) (?r, s - nb)" "separate (?r, s - nb) (p, nb)" using r by (simp_all add: separate_def)
    show "separate (c, u) (d, v)" using c d ne sp old new by (auto split: if_splits)
  qed
  moreover have "m_top h \<noteq> p" "m_top h \<noteq> ?r" using tilesD(5) [OF t] p Cr by auto
  ultimately show ?thesis using t unfolding tiles_def by auto
qed

lemma tiles_join:
  assumes t: "tiles h C" and p: "C p = Some (s, Hole a)" and q: "C (p + s) = Some (u, Hole b)"
  shows "tiles h (C(p + s := None, p \<mapsto> (s + u, Hole b)))" (is "tiles h ?C")
proof -
  let ?q = "p + s"
  have ap: "area h p s" and aq: "area h ?q u" using tilesD(2) [OF t p] tilesD(2) [OF t q] .
  have e: "unat ?q = unat p + unat s" "unat (s + u) = unat s + unat u" "?q + u = p + (s + u)"
    using ap aq area_end [OF ap] by (auto simp: area_def unat_word_ariths)
  have pq: "p \<noteq> ?q" using ap by (auto simp: area_def)
  have pf: "prev_free ?C c \<longleftrightarrow> prev_free C c" if "c \<noteq> ?q" for c
  proof -
    have 1: "\<not> free_end C p c" "free_end C ?q c \<longleftrightarrow> p + (s + u) = c \<and> b" using p q that e(3) by (auto simp: free_end_def)
    have 2: "free_end ?C x c \<longleftrightarrow> (if x = p then p + (s + u) = c \<and> b else x \<noteq> ?q \<and> free_end C x c)" for x
      using pq by (auto simp: free_end_upd)
    show ?thesis unfolding prev_free_def 2 using 1 pq by metis
  qed
  have nx: "next_is C n (\<lambda>k. True) \<Longrightarrow> n \<noteq> ?q \<Longrightarrow> next_is ?C n (\<lambda>k. True)"
    "next_is C n (\<lambda>k. k \<noteq> Free \<and> k \<noteq> Top) \<Longrightarrow> n \<noteq> ?q \<Longrightarrow> next_is ?C n (\<lambda>k. k \<noteq> Free \<and> k \<noteq> Top)" for n
    by (auto simp: next_is_def)
  have ar: "area h p (s + u)" using ap aq e by (auto simp: area_def)
  have "area h c v \<and> kind_ok h ?C c v j" if c: "?C c = Some (v, j)" for c v j
  proof (cases "c = p")
    case True
    have "unat (?q + u) = unat ?q + unat u" using area_end [OF aq] .
    then have "?q + u \<noteq> ?q" using aq by (auto simp: area_def)
    then show ?thesis using True c ar tilesD(3) [OF t p] tilesD(3) [OF t q] nx e by (cases b) (auto simp: add.assoc)
  next
    case False
    then have c': "C c = Some (v, j)" "c \<noteq> ?q" using c by (auto split: if_splits)
    have "c + v \<noteq> ?q" using ends_apart [OF t c'(1) p False] .
    then show ?thesis using tilesD(2,3) [OF t c'(1)] c'(2) by (auto intro: kind_ok_frame simp: pf nx)
  qed
  moreover have "apart ?C"
    unfolding apart_def
  proof (intro allI impI)
    fix c d v w j k assume c: "?C c = Some (v, j)" and d: "?C d = Some (w, k)" and ne: "c \<noteq> d"
    have sp: "separate (p, s + u) (x, y)" "separate (x, y) (p, s + u)" if x: "C x = Some (y, l)" "x \<noteq> p" "x \<noteq> ?q" for x y l
      using tilesD(4) [OF t p x(1)] tilesD(4) [OF t q x(1)] x(2,3) e tilesD(2) [OF t x(1)] by (auto simp: separate_def area_def)
    have old: "separate (c, v) (d, w)" if "C c = Some (v, j)" "C d = Some (w, k)" using tilesD(4) [OF t that ne] .
    show "separate (c, v) (d, w)" using c d ne sp old by (auto split: if_splits)
  qed
  moreover have "m_top h \<noteq> p" "m_top h \<noteq> ?q" using tilesD(5) [OF t] p q by auto
  ultimately show ?thesis using t unfolding tiles_def by auto
qed

section \<open>Writing heads and feet\<close>

definition writes :: "u32 set \<Rightarrow> heap \<Rightarrow> heap \<Rightarrow> bool" where
  "writes D h h' \<longleftrightarrow>
     gm h' = gm h \<and> m_least_addr h' = m_least_addr h \<and> (\<forall>a. a \<notin> D \<longrightarrow> words h' a = words h a)"

text \<open>The head word of a chunk is apart from those of the others and from their feet.\<close>

lemma head_apart:
  assumes t: "tiles h C" and c: "C c = Some (u, j)" and p: "C p = Some (s, k)"
  shows "c + 4 = p + 4 \<longleftrightarrow> c = p" "c + 4 \<noteq> p + s" "c + u \<noteq> p + 4" "c + u = p + s \<longleftrightarrow> c = p"
    "c + 4 = p + s + 4 \<longleftrightarrow> c = p + s" "c + u \<noteq> p + s + 4"
proof -
  note ac = area_aligned [OF tilesD(2) [OF t c]] and ap = area_aligned [OF tilesD(2) [OF t p]]
  show "c + 4 = p + 4 \<longleftrightarrow> c = p" by simp
  show "c + 4 \<noteq> p + s" using aligned_off [OF ac(1) ap(2)] .
  show "c + u \<noteq> p + 4" using aligned_off [OF ap(1) ac(2)] by metis
  show "c + u = p + s \<longleftrightarrow> c = p" using ends_apart [OF t c p] c p by auto
  show "c + 4 = p + s + 4 \<longleftrightarrow> c = p + s" by simp
  show "c + u \<noteq> p + s + 4" using aligned_off [OF ap(2) ac(2)] by metis
qed

text \<open>A hole becomes a used chunk.\<close>

lemma tiles_use:
  assumes t: "tiles h C" and p: "C p = Some (s, Hole b)" and w: "writes {p + 4, p + s + 4} h h'"
    and top: "m_top h' = m_top h" "m_topsize h' = m_topsize h"
    and hd: "head h' p = head_of s (\<not> prev_free C p) True" "head h' (p + s) = (if b then head h (p + s) OR 1 else head h (p + s))"
  shows "tiles h' (C(p \<mapsto> (s, Used)))" (is "tiles h' ?C")
proof -
  have gm: "gm h' = gm h" "m_least_addr h' = m_least_addr h" using w by (simp_all add: writes_def)
  have at: "area h' = area h" using gm by (simp add: area_def fun_eq_iff)
  have ps: "p + s \<noteq> p" using tilesD(2) [OF t p] by (auto simp: area_def)
  have pf: "prev_free ?C c \<longleftrightarrow> prev_free C c" if "c \<noteq> p + s" for c
    using that free_end_at [of C p s "Hole b", OF p] by (intro prev_free_cong) (auto simp: free_end_upd)
  have pfn: "prev_free C (p + s) = b" using prev_free_end [OF t p] by simp
  have "\<not> free_end ?C q (p + s)" for q
    using ends_apart [OF t p, of q] by (auto simp: free_end_upd free_end_def split: option.splits)
  then have pfn': "\<not> prev_free ?C (p + s)" by (simp add: prev_free_def)
  have nx: "next_is C n (\<lambda>k. True) \<Longrightarrow> next_is ?C n (\<lambda>k. True)"
    "next_is C n (\<lambda>k. k \<noteq> Free \<and> k \<noteq> Top) \<Longrightarrow> next_is ?C n (\<lambda>k. k \<noteq> Free \<and> k \<noteq> Top)" for n
    by (auto simp: next_is_def)
  have foot: "prev_foot h' (c + u) = prev_foot h (c + u)" if "C c = Some (u, j)" for c u j
    using w head_apart(3,6) [OF t that p] by (simp add: writes_def prev_foot_def)
  have "area h' c u \<and> kind_ok h' ?C c u j" if c: "?C c = Some (u, j)" for c u j
  proof (cases "c = p")
    case True
    then show ?thesis using c hd(1) tilesD(2,3) [OF t p] pf [of p] ps at by (auto simp: next_is_def dom_def)
  next
    case False
    then have c': "C c = Some (u, j)" using c by simp
    have ac: "8 dvd unat u" using tilesD(2) [OF t c'] by (simp add: area_def)
    have ok: "kind_ok h C c u j" using tilesD(3) [OF t c'] .
    have "kind_ok h' ?C c u j"
    proof (cases "c = p + s")
      case n: True
      have hn: "head h' c = (if b then head h c OR 1 else head h c)" using hd(2) n by simp
      have nF: "b \<Longrightarrow> j \<noteq> Free \<and> j \<noteq> Top" using tilesD(3) [OF t p] c' n by (auto simp: next_is_def)
      show ?thesis
        using ok hn nF foot [OF c'] pfn pfn' n nx top head_of_set_pin(1) [OF ac]
        by (cases j; cases b) (auto simp: next_is_def dom_def pin_bit)
    next
      case other: False
      have "head h' c = head h c" using w head_apart(1,5) [OF t c' p] False other by (simp add: writes_def head_def)
      then show ?thesis using ok foot [OF c'] pf [OF other] nx top by (auto intro: kind_ok_frame)
    qed
    then show ?thesis using tilesD(2) [OF t c'] at by simp
  qed
  moreover have "apart ?C" using t p unfolding tiles_def apart_def by (auto split: if_splits)
  moreover have "m_top h \<noteq> p" using tilesD(5) [OF t] p by auto
  ultimately show ?thesis using t gm top unfolding tiles_def by auto
qed

text \<open>A hole becomes a free chunk.\<close>

lemma tiles_free:
  assumes t: "tiles h C" and p: "C p = Some (s, Hole b)" and w: "writes {p + 4, p + s, p + s + 4} h h'"
    and top: "m_top h' = m_top h" "m_topsize h' = m_topsize h"
    and alone: "\<not> prev_free C p" "next_is C (p + s) (\<lambda>k. k \<noteq> Free \<and> k \<noteq> Top)"
    and hd: "head h' p = head_of s True False" "prev_foot h' (p + s) = s" "head h' (p + s) = head h (p + s) AND NOT 1"
  shows "tiles h' (C(p \<mapsto> (s, Free)))" (is "tiles h' ?C")
proof -
  have gm: "gm h' = gm h" "m_least_addr h' = m_least_addr h" using w by (simp_all add: writes_def)
  have at: "area h' = area h" using gm by (simp add: area_def fun_eq_iff)
  have ps: "p + s \<noteq> p" using tilesD(2) [OF t p] by (auto simp: area_def)
  have pf: "prev_free ?C c \<longleftrightarrow> prev_free C c" if "c \<noteq> p + s" for c
    using that free_end_at [of C p s "Hole b", OF p] by (intro prev_free_cong) (auto simp: free_end_upd)
  have pfn: "prev_free C (p + s) = b" using prev_free_end [OF t p] by simp
  have pfn': "prev_free ?C (p + s)" unfolding prev_free_def free_end_upd by (intro exI [of _ p]) simp
  have nx: "next_is C n (\<lambda>k. True) \<Longrightarrow> next_is ?C n (\<lambda>k. True)"
    "next_is C n (\<lambda>k. k \<noteq> Free \<and> k \<noteq> Top) \<Longrightarrow> n \<noteq> p \<Longrightarrow> next_is ?C n (\<lambda>k. k \<noteq> Free \<and> k \<noteq> Top)" for n
    by (auto simp: next_is_def)
  have foot: "prev_foot h' (c + u) = prev_foot h (c + u)" if "C c = Some (u, j)" "c \<noteq> p" for c u j
    using w head_apart(3,4,6) [OF t that(1) p] that(2) by (simp add: writes_def prev_foot_def)
  have "area h' c u \<and> kind_ok h' ?C c u j" if c: "?C c = Some (u, j)" for c u j
  proof (cases "c = p")
    case True
    then show ?thesis using c hd(1,2) tilesD(2,3) [OF t p] pf [of p] ps at alone nx(2) [OF alone(2)] by auto
  next
    case False
    then have c': "C c = Some (u, j)" using c by simp
    have ac: "8 dvd unat u" using tilesD(2) [OF t c'] by (simp add: area_def)
    have ok: "kind_ok h C c u j" using tilesD(3) [OF t c'] .
    have "kind_ok h' ?C c u j"
    proof (cases "c = p + s")
      case n: True
      have hn: "head h' c = head h c AND NOT 1" using hd(3) n by simp
      have nF: "j \<noteq> Free \<and> j \<noteq> Top" using alone(2) c' n by (auto simp: next_is_def)
      have cu: "c + u \<noteq> p" if "marks_free j"
      proof
        assume "c + u = p"
        then have "prev_free C p" using that c' unfolding prev_free_def by (intro exI [of _ c]) (simp add: free_end_def)
        then show False using alone(1) by simp
      qed
      show ?thesis
        using ok hn nF pfn pfn' n nx top cu head_of_set_pin(2) [OF ac]
        by (cases j) (auto simp: next_is_def dom_def pin_bit [simplified])
    next
      case other: False
      have hc: "head h' c = head h c" using w head_apart(1,2,5) [OF t c' p] False other by (simp add: writes_def head_def)
      have "c + u \<noteq> p" if "marks_free j"
      proof
        assume "c + u = p"
        then have "prev_free C p" using that c' unfolding prev_free_def by (intro exI [of _ c]) (simp add: free_end_def)
        then show False using alone(1) by simp
      qed
      then show ?thesis using ok hc foot [OF c' False] pf [OF other] nx top by (auto intro: kind_ok_frame)
    qed
    then show ?thesis using tilesD(2) [OF t c'] at by simp
  qed
  moreover have "apart ?C" using t p unfolding tiles_def apart_def by (auto split: if_splits)
  moreover have "m_top h \<noteq> p" using tilesD(5) [OF t] p by auto
  ultimately show ?thesis using t gm top unfolding tiles_def by auto
qed

text \<open>A hole before the top chunk is joined to it.\<close>

lemma tiles_join_top:
  assumes t: "tiles h C" and p: "C p = Some (s, Hole False)" and e: "p + s = m_top h" and alone: "\<not> prev_free C p"
    and w: "writes {p + 4} h h'" and top: "m_top h' = p" "m_topsize h' = m_topsize h + s"
    and hd: "head h' p = head_of (m_topsize h + s) True False"
  shows "tiles h' (C(p + s := None, p \<mapsto> (m_topsize h + s + 40, Top)))" (is "tiles h' ?C")
proof -
  have gm: "gm h' = gm h" "m_least_addr h' = m_least_addr h" using w by (simp_all add: writes_def)
  have at: "area h' = area h" using gm by (simp add: area_def fun_eq_iff)
  let ?q = "p + s" and ?S = "m_topsize h + s + 40"
  obtain z where "C ?q = Some (z, Top)" using tilesD(5) [OF t] e by auto
  then have q: "C ?q = Some (m_topsize h + 40, Top)" and z: "unat (m_topsize h + 40) = unat (m_topsize h) + 40" "8 \<le> unat (m_topsize h)"
    using tilesD(3) [OF t] by fastforce+
  have ap: "area h p s" and aq: "area h ?q (m_topsize h + 40)" using tilesD(2) [OF t p] tilesD(2) [OF t q] .
  have su: "unat ?q = unat p + unat s" "unat (m_topsize h + s) = unat (m_topsize h) + unat s" "unat ?S = unat (m_topsize h) + unat s + 40"
    using ap aq z area_end [OF ap] by (auto simp: area_def unat_word_ariths)
  have pq: "p \<noteq> ?q" using ap by (auto simp: area_def)
  have pf: "prev_free ?C c \<longleftrightarrow> prev_free C c" for c
    using p q by (intro prev_free_cong) (auto simp: free_end_upd free_end_def)
  have nx: "next_is C n (\<lambda>k. True) \<Longrightarrow> n \<noteq> ?q \<Longrightarrow> next_is ?C n (\<lambda>k. True)"
    "next_is C n (\<lambda>k. k \<noteq> Free \<and> k \<noteq> Top) \<Longrightarrow> n \<noteq> p \<Longrightarrow> n \<noteq> ?q \<Longrightarrow> next_is ?C n (\<lambda>k. k \<noteq> Free \<and> k \<noteq> Top)" for n
    by (auto simp: next_is_def)
  have "8 dvd unat (m_topsize h + s)"
  proof -
    have "8 dvd unat (m_topsize h) + 40" using aq z by (auto simp: area_def)
    then have "8 dvd unat (m_topsize h)" by presburger
    then show ?thesis using ap su(2) by (auto simp: area_def)
  qed
  then have ar: "area h p ?S" using ap aq su z by (auto simp: area_def)
  have "area h' c v \<and> kind_ok h' ?C c v j" if c: "?C c = Some (v, j)" for c v j
  proof (cases "c = p")
    case True
    then show ?thesis using c ar at top hd alone pf [of p] su z by auto
  next
    case False
    then have c': "C c = Some (v, j)" "c \<noteq> ?q" using c by (auto split: if_splits)
    have cq: "c + v \<noteq> ?q" using ends_apart [OF t c'(1) p False] .
    have nt: "j \<noteq> Top" using tilesD(3) [OF t c'(1)] e c'(2) by (cases j) auto
    have hc: "head h' c = head h c" "prev_foot h' (c + v) = prev_foot h (c + v)"
      using w head_apart(1,3) [OF t c'(1) p] False by (simp_all add: writes_def head_def prev_foot_def)
    have "c + v \<noteq> p" if "marks_free j"
    proof
      assume "c + v = p"
      then have "prev_free C p" using that c'(1) unfolding prev_free_def by (intro exI [of _ c]) (simp add: free_end_def)
      then show False using alone by simp
    qed
    then have n: "next_is C (c + v) (\<lambda>k. True) \<Longrightarrow> next_is ?C (c + v) (\<lambda>k. True)"
      "marks_free j \<Longrightarrow> next_is C (c + v) (\<lambda>k. k \<noteq> Free \<and> k \<noteq> Top) \<Longrightarrow> next_is ?C (c + v) (\<lambda>k. k \<noteq> Free \<and> k \<noteq> Top)"
      using nx [of "c + v"] cq by blast+
    have "kind_ok h' ?C c v j"
      by (rule kind_ok_frame [OF tilesD(3) [OF t c'(1)]]) (use hc pf nt n in blast)+
    then show ?thesis using tilesD(2) [OF t c'(1)] at by simp
  qed
  moreover have "apart ?C"
    unfolding apart_def
  proof (intro allI impI)
    fix c d v w j k assume c: "?C c = Some (v, j)" and d: "?C d = Some (w, k)" and ne: "c \<noteq> d"
    have sp: "separate (p, ?S) (x, y)" "separate (x, y) (p, ?S)" if x: "C x = Some (y, l)" "x \<noteq> p" "x \<noteq> ?q" for x y l
      using tilesD(4) [OF t p x(1)] tilesD(4) [OF t q x(1)] x(2,3) su z tilesD(2) [OF t x(1)] by (auto simp: separate_def area_def)
    have old: "separate (c, v) (d, w)" if "C c = Some (v, j)" "C d = Some (w, k)" using tilesD(4) [OF t that ne] .
    show "separate (c, v) (d, w)" using c d ne sp old by (auto split: if_splits)
  qed
  ultimately show ?thesis using t gm top unfolding tiles_def by auto
qed

text \<open>The top chunk begins later: what is cut off is a hole, to which one before it may belong.\<close>

lemma tiles_move_top:
  assumes t: "tiles h C" and e: "p + s = m_top h" and reg: "s = 0 \<or> C p = Some (s, Hole False)"
    and nb: "8 dvd unat nb" "16 \<le> unat nb" "unat s < unat nb" "unat nb < unat s + unat (m_topsize h)"
    and w: "writes {p + 4, p + nb + 4} h h'" and top: "m_top h' = p + nb" "m_topsize h' = m_topsize h + s - nb"
    and hd: "head h' (p + nb) = head_of (m_topsize h + s - nb) True False"
  shows "tiles h' (C(m_top h := None, p \<mapsto> (nb, Hole False), p + nb \<mapsto> (m_topsize h + s - nb + 40, Top)))" (is "tiles h' ?C")
proof -
  have gm: "gm h' = gm h" "m_least_addr h' = m_least_addr h" using w by (simp_all add: writes_def)
  have at: "area h' = area h" using gm by (simp add: area_def fun_eq_iff)
  let ?m = "m_top h" and ?T = "m_topsize h + 40" and ?r = "p + nb" and ?S = "m_topsize h + s - nb + 40"
  obtain z where "C ?m = Some (z, Top)" using tilesD(5) [OF t] by auto
  then have m: "C ?m = Some (?T, Top)" and z: "unat ?T = unat (m_topsize h) + 40" "8 \<le> unat (m_topsize h)"
    and alone: "\<not> prev_free C ?m"
    using tilesD(3) [OF t] by fastforce+
  have a: "area h ?m ?T" using tilesD(2) [OF t m] .
  have d8: "8 dvd unat (m_topsize h)"
  proof -
    have "8 dvd unat (m_topsize h) + 40" using a z by (auto simp: area_def)
    then show ?thesis by presburger
  qed
  have s: "8 dvd unat s" "unat ?m = unat p + unat s" "0 < unat p" "m_least_addr h \<le> p" "8 dvd unat p"
    "unat p + (unat s + unat ?T) \<le> unat (gm h) \<or> unat (gm h) + 472 \<le> unat p"
  proof -
    have "8 dvd unat s \<and> unat ?m = unat p + unat s \<and> 0 < unat p \<and> m_least_addr h \<le> p \<and> 8 dvd unat p \<and>
      (unat p + (unat s + unat ?T) \<le> unat (gm h) \<or> unat (gm h) + 472 \<le> unat p)"
    proof (cases "s = 0")
      case True
      then show ?thesis using a e by (auto simp: area_def)
    next
      case False
      then have "area h p s" using reg tilesD(2) [OF t] by blast
      moreover from this have "unat ?m = unat p + unat s" using area_end e by metis
      ultimately show ?thesis using a by (auto simp: area_def)
    qed
    then show "8 dvd unat s" "unat ?m = unat p + unat s" "0 < unat p" "m_least_addr h \<le> p" "8 dvd unat p"
      "unat p + (unat s + unat ?T) \<le> unat (gm h) \<or> unat (gm h) + 472 \<le> unat p" by blast+
  qed
  have lim: "unat p + unat s + unat (m_topsize h) + 40 < 2 ^ 32" using a s(2) z by (simp add: area_def)
  have ts: "unat (m_topsize h + s) = unat (m_topsize h) + unat s" using lim by (simp add: unat_word_ariths)
  then have tn: "unat (m_topsize h + s - nb) = unat (m_topsize h) + unat s - unat nb"
    using nb(4) by (simp add: unat_sub word_le_nat_alt)
  have su: "unat ?r = unat p + unat nb" "unat ?S = unat (m_topsize h) + unat s - unat nb + 40"
    using lim nb(4) tn by (simp_all add: unat_word_ariths)
  have d: "8 dvd unat (m_topsize h) + unat s - unat nb" using d8 nb(1) s(1) by simp
  have k: "8 \<le> unat (m_topsize h) + unat s - unat nb" using d nb(4) by (intro dvd_imp_le) simp_all
  have out: "separate (p, nb) (x, y) \<and> separate (?r, ?S) (x, y) \<and> separate (x, y) (p, nb) \<and> separate (x, y) (?r, ?S)"
    if x: "C x = Some (y, l)" "x \<noteq> p" "x \<noteq> ?m" for x y l
  proof -
    have "separate (?m, ?T) (x, y)" using tilesD(4) [OF t m x(1)] x(3) by simp
    moreover have "s = 0 \<or> separate (p, s) (x, y)" using reg tilesD(4) [OF t _ x(1)] x(2) by auto
    moreover have "0 < unat y" using tilesD(2) [OF t x(1)] by (simp add: area_def)
    ultimately show ?thesis using su s(2) nb z by (auto simp: separate_def)
  qed
  have rm: "?r = ?m + (nb - s)" "unat (nb - s) = unat nb - unat s"
    using nb(3) by (simp_all add: e [symmetric] unat_sub word_le_nat_alt)
  have Cr: "C ?r = None"
    unfolding rm(1) by (rule no_chunk_inside [OF t m]) (use rm(2) nb(3,4) z in simp_all)
  have pr: "?r \<noteq> p" "?r \<noteq> ?m" using nb(2) su m Cr by auto
  have at_p: "p = ?m \<or> C p = Some (s, Hole False)" using reg e by auto
  have pf: "prev_free ?C c \<longleftrightarrow> prev_free C c" for c
    using m Cr at_p by (intro prev_free_cong) (auto simp: free_end_upd free_end_def)
  have ra: "\<not> prev_free C ?r"
  proof
    assume "prev_free C ?r"
    then obtain q u j where q: "C q = Some (u, j)" "q + u = ?r" "marks_free j"
      by (auto simp: prev_free_def free_end_def split: option.splits)
    have "q \<noteq> ?m" "q \<noteq> p" using q(1,3) m at_p by auto
    then show False using out [OF q(1)] area_end [OF tilesD(2) [OF t q(1)]] q(2) su k nb tilesD(2) [OF t q(1)]
      by (auto simp: separate_def area_def)
  qed
  have "8 dvd unat ?S" unfolding su(2) using d by (intro dvd_add) simp_all
  then have ar: "area h p nb" "area h ?r ?S" using s nb su z k lim by (auto simp: area_def word_le_nat_alt)
  have "area h' c v \<and> kind_ok h' ?C c v j" if c: "?C c = Some (v, j)" for c v j
  proof -
    consider "c = ?r" "v = ?S" "j = Top" | "c = p" "c \<noteq> ?r" "v = nb" "j = Hole False"
      | "c \<noteq> ?r" "c \<noteq> p" "c \<noteq> ?m" "C c = Some (v, j)"
      using c pr by (auto split: if_splits)
    then show ?thesis
    proof cases
      case 1
      then show ?thesis using ar(2) at top hd ra pf su tn k by auto
    next
      case 2
      then show ?thesis using ar(1) at nb by (auto simp: next_is_def)
    next
      case 3
      have nt: "j \<noteq> Top" using tilesD(3) [OF t 3(4)] 3(3) by (cases j) auto
      have al: "8 dvd unat ?r" "8 dvd unat (c + v)" "8 dvd unat c" "8 dvd unat p"
        using area_aligned [OF ar(2)] area_aligned [OF tilesD(2) [OF t 3(4)]] s(5) by simp_all
      then have "c + v \<noteq> ?r + 4" "c + v \<noteq> p + 4" using aligned_off by metis+
      then have hc: "head h' c = head h c" "prev_foot h' (c + v) = prev_foot h (c + v)"
        using w 3(1,2) by (simp_all add: writes_def head_def prev_foot_def)
      have cm: "c + v = ?m \<Longrightarrow> s = 0" using reg ends_apart [OF t _ 3(4)] 3(2) e by metis
      have "next_is C (c + v) (\<lambda>k. True) \<Longrightarrow> next_is ?C (c + v) (\<lambda>k. True)"
        "next_is C (c + v) (\<lambda>k. k \<noteq> Free \<and> k \<noteq> Top) \<Longrightarrow> next_is ?C (c + v) (\<lambda>k. k \<noteq> Free \<and> k \<noteq> Top)"
        using Cr m cm e by (auto simp: next_is_def)
      then show ?thesis
        using tilesD(2,3) [OF t 3(4)] nt at hc by (auto intro!: kind_ok_frame [of h C] simp: pf)
    qed
  qed
  moreover have "apart ?C"
    unfolding apart_def
  proof (intro allI impI)
    fix c d v w j k assume c: "?C c = Some (v, j)" and d: "?C d = Some (w, k)" and ne: "c \<noteq> d"
    have old: "separate (c, v) (d, w)" if "C c = Some (v, j)" "C d = Some (w, k)" using tilesD(4) [OF t that ne] .
    have new: "separate (p, nb) (?r, ?S)" "separate (?r, ?S) (p, nb)" using su by (simp_all add: separate_def)
    show "separate (c, v) (d, w)" using c d ne out old new by (auto split: if_splits)
  qed
  ultimately show ?thesis using t gm top unfolding tiles_def by auto
qed

end
