(* ===== verification/MallocHeap.thy ===== *)
theory MallocHeap
  imports MallocTiles MallocMore
begin

text \<open>
  The invariant of the heap of \<^verbatim>\<open>malloc.c\<close>: a row of chunks, of which the free ones are in the bins, but for
  the designated victim; and the contents of the chunks that are in use.
\<close>

section \<open>Rows, bins and data do not interfere\<close>

definition within :: "(u32 \<rightharpoonup> u32) \<Rightarrow> row \<Rightarrow> bool" where
  "within B C \<longleftrightarrow> (\<forall>p s. B p = Some s \<longrightarrow> C p = Some (s, Free))"

lemma withinD: "within B C \<Longrightarrow> B p = Some s \<Longrightarrow> C p = Some (s, Free)"
  by (simp add: within_def)

lemma chunks_ok_row:
  assumes t: "tiles h C" and B: "\<And>p s. B p = Some s \<Longrightarrow> \<exists>k. C p = Some (s, k) \<and> 16 \<le> unat s"
  shows "chunks_ok h B"
proof -
  have "separate (p, s) (q, t)" if "B p = Some s" "B q = Some t" "p \<noteq> q" for p q s t
    using B [OF that(1)] B [OF that(2)] tilesD(4) [OF t _ _ that(3)] by blast
  moreover have "room h p s" if "B p = Some s" for p s
    using B [OF that] tilesD(2) [OF t] by (auto simp: room_area)
  ultimately show ?thesis using tilesD(1) [OF t] by (simp add: chunks_ok_def)
qed

lemma chunks_ok_within:
  assumes "tiles h C" and "within B C"
  shows "chunks_ok h B"
proof (rule chunks_ok_row [OF assms(1)])
  fix p s assume "B p = Some s"
  then have "C p = Some (s, Free)" using assms(2) by (rule withinD [rotated])
  then show "\<exists>k. C p = Some (s, k) \<and> 16 \<le> unat s" using tilesD(3) [OF assms(1)] by fastforce
qed

text \<open>The first eight bytes of a chunk are no words of the bins.\<close>

lemma head_not_in_bag:
  assumes t: "tiles h C" and c: "C c = Some (u, j)" and B: "within B C" and d: "unat d < 8"
  shows "c + d \<notin> bag_words h B"
proof -
  have a: "area h c u" using tilesD(2) [OF t c] .
  have u8: "8 \<le> unat u" using a by (auto simp: area_def intro: dvd_imp_le)
  then have e: "unat (c + d) = unat c + unat d" using a d by (auto simp: area_def unat_word_ariths)
  have "c + d \<notin> gm_words h" using a e u8 d by (auto simp: area_def gm_words_def)
  moreover have "c + d \<notin> links_of (p, s)" if "B p = Some s" for p s
  proof (cases "p = c")
    case True
    then show ?thesis using e d by (auto simp: links_of_def)
  next
    case False
    show ?thesis
      using tilesD(4) [OF t c withinD [OF B that]] False e u8 d by (auto simp: links_of_def separate_def)
  qed
  ultimately show ?thesis by (auto simp: bag_words_def)
qed

lemma next_chunk_in: "tiles h C \<Longrightarrow> C c = Some (u, j) \<Longrightarrow> j \<noteq> Top \<Longrightarrow> j \<noteq> Fence \<Longrightarrow> \<exists>t k. C (c + u) = Some (t, k)"
  using tilesD(3) [of h C c u j] by (cases j) (auto simp: next_is_def)

text \<open>Steps of the bins keep the row, and steps of the row keep the bins.\<close>

lemma tiles_bag_step:
  assumes t: "tiles h C" and B: "within B C" and step: "bin_step (bag_words h B) h h'"
  shows "tiles h' C"
proof -
  have same: "words h' (c + d) = words h (c + d)" if "C c = Some (u, j)" "unat d < 8" for c u j d
    using head_not_in_bag [OF t that(1) B that(2)] step by (simp add: bin_step_def)
  have r: "gm h' = gm h" "m_least_addr h' = m_least_addr h" "m_top h' = m_top h" "m_topsize h' = m_topsize h"
    using rest_eqD [of h' h] step by (simp_all add: bin_step_def)
  have at: "area h' = area h" using r by (simp add: area_def fun_eq_iff)
  have "kind_ok h' C c u j" if c: "C c = Some (u, j)" for c u j
  proof (rule kind_ok_frame [OF tilesD(3) [OF t c]])
    show "head h' c = head h c" using same [OF c, of 4] by (simp add: head_def)
    show "prev_foot h' (c + u) = prev_foot h (c + u)" if F: "j = Free"
    proof -
      obtain v k where "C (c + u) = Some (v, k)" using next_chunk_in [OF t c] F by auto
      from same [OF this, of 0] show ?thesis by (simp add: prev_foot_def)
    qed
  qed (use r in simp_all)
  then show ?thesis using t at r unfolding tiles_def by simp
qed

lemma bag_writes:
  assumes "bag h B" and t: "tiles h C" and B: "within B C" and w: "writes D h h'"
    and D: "\<And>a. a \<in> D \<Longrightarrow> \<exists>c u j d. C c = Some (u, j) \<and> a = c + d \<and> unat d < 8"
    and maps: "m_smallmap h' = m_smallmap h" "m_treemap h' = m_treemap h"
  shows "bag h' B"
proof (rule bag_frame [OF assms(1) chunks_ok_within [OF t B]])
  show "words h' a = words h a" if "a \<in> bag_words h B" for a
    using that w D head_not_in_bag [OF t _ B] unfolding writes_def by metis
qed (use w maps in \<open>simp_all add: writes_def\<close>)

section \<open>What users keep in their chunks\<close>

definition payload :: "u32 \<Rightarrow> u32 \<Rightarrow> u32 set" where
  "payload q u = {a. unat q + 8 \<le> unat a \<and> unat a < unat q + unat u + 4}"

definition used_in :: "row \<Rightarrow> (u32 \<rightharpoonup> u32) \<Rightarrow> bool" where
  "used_in C V \<longleftrightarrow> (\<forall>q u. V q = Some u \<longrightarrow> C q = Some (u, Used))"

definition same_data :: "(u32 \<rightharpoonup> u32) \<Rightarrow> heap \<Rightarrow> heap \<Rightarrow> bool" where
  "same_data V h h' \<longleftrightarrow> (\<forall>q u a. V q = Some u \<longrightarrow> a \<in> payload q u \<longrightarrow> words h' a = words h a)"

lemma same_data_refl: "same_data V h h"
  by (simp add: same_data_def)

lemma same_data_trans: "same_data V h h' \<Longrightarrow> same_data V h' h'' \<Longrightarrow> same_data V h h''"
  by (simp add: same_data_def)

lemma payload_apart:
  assumes t: "tiles h C" and q: "C q = Some (u, Used)" and a: "a \<in> payload q u"
    and c: "C c = Some (v, j)" and d: "unat d < unat v"
  shows "c \<noteq> q \<Longrightarrow> c \<noteq> q + u \<Longrightarrow> a \<noteq> c + d" "4 \<le> unat d \<Longrightarrow> c \<noteq> q \<Longrightarrow> a \<noteq> c + d" "unat d < 8 \<Longrightarrow> c = q \<Longrightarrow> a \<noteq> c + d"
proof -
  have ac: "area h c v" and aq: "area h q u" using tilesD(2) [OF t c] tilesD(2) [OF t q] .
  have e: "unat (c + d) = unat c + unat d" using ac d by (auto simp: area_def unat_word_ariths)
  have n: "unat (q + u) = unat q + unat u" by (rule area_end [OF aq])
  have sep: "c \<noteq> q \<Longrightarrow> separate (c, v) (q, u)" using tilesD(4) [OF t c q] .
  obtain w k where nx: "C (q + u) = Some (w, k)" using next_chunk_in [OF t q] by auto
  have an: "8 \<le> unat w" using tilesD(2) [OF t nx] by (auto simp: area_def intro: dvd_imp_le)
  have sepn: "c \<noteq> q + u \<Longrightarrow> separate (c, v) (q + u, w)" using tilesD(4) [OF t c nx] .
  show "c \<noteq> q \<Longrightarrow> c \<noteq> q + u \<Longrightarrow> a \<noteq> c + d"
    using sep sepn e n a d an by (auto simp: payload_def separate_def)
  show "4 \<le> unat d \<Longrightarrow> c \<noteq> q \<Longrightarrow> a \<noteq> c + d"
    using sep sepn e n a d an by (cases "c = q + u") (auto simp: payload_def separate_def)
  show "unat d < 8 \<Longrightarrow> c = q \<Longrightarrow> a \<noteq> c + d"
    using e a by (auto simp: payload_def)
qed

lemma offset_in: "unat p \<le> unat a \<Longrightarrow> a = p + (a - p) \<and> unat (a - p) = unat a - unat p" for a p :: u32
  by (simp add: unat_sub word_le_nat_alt)

lemma payload_not_in_bag:
  assumes t: "tiles h C" and q: "C q = Some (u, Used)" and a: "a \<in> payload q u" and B: "within B C"
  shows "a \<notin> bag_words h B"
proof -
  have aq: "area h q u" using tilesD(2) [OF t q] .
  obtain w k where nx: "C (q + u) = Some (w, k)" using next_chunk_in [OF t q] by auto
  have an: "area h (q + u) w" using tilesD(2) [OF t nx] .
  have w8: "8 \<le> unat w" using an by (auto simp: area_def intro: dvd_imp_le)
  have "a \<notin> gm_words h" using aq an w8 a area_end [OF aq] by (auto simp: area_def gm_words_def payload_def)
  moreover have "a \<notin> links_of (p, s)" if p: "B p = Some s" for p s
  proof
    assume l: "a \<in> links_of (p, s)"
    have le: "unat p \<le> unat a" using l by (auto simp: links_of_def)
    have "p \<noteq> q" using withinD [OF B p] q by auto
    moreover have "unat (a - p) < unat s" "4 \<le> unat (a - p)" using l offset_in [OF le] by (auto simp: links_of_def)
    ultimately show False using payload_apart(2) [OF t q a withinD [OF B p], of "a - p"] offset_in [OF le] by auto
  qed
  ultimately show ?thesis by (auto simp: bag_words_def)
qed

lemma same_data_bag_step:
  assumes "tiles h C" and "used_in C V" and "within B C" and "bin_step (bag_words h B) h h'"
  shows "same_data V h h'"
  using payload_not_in_bag [OF assms(1) _ _ assms(3)] assms(2,4) unfolding same_data_def used_in_def bin_step_def by blast

text \<open>Writes of heads and feet next to a chunk that is no user's.\<close>

lemma same_data_writes:
  assumes t: "tiles h C" and V: "used_in C V" and p: "C p = Some (s, k)" "k \<noteq> Used"
    and n: "C (p + s) = Some (v, j)" and w: "writes {p + 4, p + s, p + s + 4} h h'"
  shows "same_data V h h'"
  unfolding same_data_def
proof (intro allI impI)
  fix q u a assume q: "V q = Some u" and a: "a \<in> payload q u"
  have q: "C q = Some (u, Used)" using V q by (simp add: used_in_def)
  have pq: "p \<noteq> q" using q p by auto
  have ends: "p + s \<noteq> q + u" using ends_apart [OF t p(1) q pq] .
  have s: "8 \<le> unat s" "8 \<le> unat v" using tilesD(2) [OF t p(1)] tilesD(2) [OF t n] by (auto simp: area_def intro: dvd_imp_le)
  have "a \<noteq> p + 4" using payload_apart(2) [OF t q a p(1), of 4] pq s by simp
  moreover have "a \<noteq> p + s"
    using payload_apart(1,3) [OF t q a n, of 0] ends s by (cases "p + s = q") simp_all
  moreover have "a \<noteq> p + s + 4"
    using payload_apart(2,3) [OF t q a n, of 4] s by (cases "p + s = q") simp_all
  ultimately show "words h' a = words h a" using w by (simp add: writes_def)
qed

lemma writes_mono: "writes D h h' \<Longrightarrow> D \<subseteq> E \<Longrightarrow> writes E h h'"
  by (auto simp: writes_def)

section \<open>The state between two steps\<close>

definition work :: "heap \<Rightarrow> row \<Rightarrow> (u32 \<rightharpoonup> u32) \<Rightarrow> (u32 \<rightharpoonup> u32) \<Rightarrow> bool" where
  "work h C B V \<longleftrightarrow> tiles h C \<and> bag h B \<and> within B C \<and> used_in C V"

lemma workD:
  assumes "work h C B V"
  shows "tiles h C" "bag h B" "within B C" "used_in C V"
  using assms by (simp_all add: work_def)

text \<open>Only the words of the heap and the bin maps change.\<close>

definition keeps :: "heap \<Rightarrow> heap \<Rightarrow> bool" where
  "keeps h h' \<longleftrightarrow> rest h' = rest h"

lemma keepsD:
  assumes "keeps h h'"
  shows "gm h' = gm h" "m_least_addr h' = m_least_addr h" "m_dv h' = m_dv h" "m_dvsize h' = m_dvsize h"
    "m_top h' = m_top h" "m_topsize h' = m_topsize h" "m_trim_check h' = m_trim_check h"
    "m_release_checks h' = m_release_checks h"
  using rest_eqD [of h' h] assms by (simp_all add: keeps_def)

lemma keeps_refl: "keeps h h" and keeps_trans: "keeps h h' \<Longrightarrow> keeps h' h'' \<Longrightarrow> keeps h h''"
  by (simp_all add: keeps_def)

lemma keeps_store: "keeps h (store a v h') \<longleftrightarrow> keeps h h'"
  by (simp add: keeps_def store_def)

lemma work_bag_step:
  assumes w: "work h C B V" and step: "bin_step (bag_words h B') h h'" and B': "bag h' B''" "within B' C" "within B'' C"
  shows "work h' C B'' V \<and> same_data V h h' \<and> keeps h h'"
  using tiles_bag_step [OF workD(1) [OF w] B'(2) step] same_data_bag_step [OF workD(1,4) [OF w] B'(2) step] B' workD(4) [OF w] step
  by (auto simp: work_def keeps_def bin_step_def)

lemma within_del: "within B C \<Longrightarrow> within (B(p := None)) C"
  by (simp add: within_def)

lemma within_add: "within B C \<Longrightarrow> C p = Some (s, Free) \<Longrightarrow> within (B(p \<mapsto> s)) C"
  by (simp add: within_def)

lemma work_unlink:
  assumes w: "work h C B V" and p: "B p = Some s"
  shows "\<exists>h'. unlink_chunk p s h = ret h' \<and> work h' C (B(p := None)) V \<and> same_data V h h' \<and> keeps h h'"
  using bag_unlink [OF workD(2) [OF w] chunks_ok_within [OF workD(1,3) [OF w]] p]
    work_bag_step [OF w _ _ workD(3) [OF w] within_del [OF workD(3) [OF w], of p]] by blast

lemma work_insert:
  assumes w: "work h C B V" and p: "C p = Some (s, Free)" "B p = None"
  shows "\<exists>h'. insert_chunk p s h = ret h' \<and> work h' C (B(p \<mapsto> s)) V \<and> same_data V h h' \<and> keeps h h'"
proof -
  have W: "within (B(p \<mapsto> s)) C" using within_add [OF workD(3) [OF w] p(1)] .
  show ?thesis
    using bag_insert [OF workD(2) [OF w] chunks_ok_within [OF workD(1) [OF w] W] p(2)] work_bag_step [OF w _ _ W W] by blast
qed

lemma work_none:
  assumes "work h C B V" and "C p = None \<or> C p = Some (s, k)" and "k \<noteq> Free" "k \<noteq> Used"
  shows "B p = None" "V p = None"
proof -
  show "B p = None" using withinD [OF workD(3) [OF assms(1)], of p] assms(2-4) by (cases "B p") auto
  show "V p = None" using workD(4) [OF assms(1)] assms(2-4) by (cases "V p") (auto simp: used_in_def)
qed

lemma within_away: "within B C \<Longrightarrow> (\<And>q. B q \<noteq> None \<Longrightarrow> C' q = C q) \<Longrightarrow> within B C'"
  by (simp add: within_def)

lemma used_in_away: "used_in C V \<Longrightarrow> (\<And>q. V q \<noteq> None \<Longrightarrow> C' q = C q) \<Longrightarrow> used_in C' V"
  by (simp add: used_in_def)

lemma work_row:
  assumes "work h C B V" and "tiles h C'" and "\<And>q. B q \<noteq> None \<or> V q \<noteq> None \<Longrightarrow> C' q = C q"
  shows "work h C' B V"
  using assms within_away [OF workD(3) [OF assms(1)], of C'] used_in_away [OF workD(4) [OF assms(1)], of C']
  by (simp add: work_def)

lemma work_hole:
  assumes w: "work h C B V" and p: "C p = Some (s, k)" "k = Used \<or> k = Free" and out: "B p = None" "V p = None"
  shows "work h (C(p \<mapsto> (s, Hole (k = Free)))) B V"
  by (rule work_row [OF w tiles_hole [OF workD(1) [OF w] p]]) (use out in auto)

lemma work_split:
  assumes w: "work h C B V" and p: "C p = Some (s, Hole b)" and nb: "8 dvd unat nb" "16 \<le> unat nb" "unat nb + 16 \<le> unat s"
  shows "work h (C(p \<mapsto> (nb, Hole False), p + nb \<mapsto> (s - nb, Hole b))) B V" and "C (p + nb) = None"
proof -
  show r: "C (p + nb) = None" using no_chunk_inside [OF workD(1) [OF w] p, of nb] nb by simp
  have n: "B p = None" "V p = None" "B (p + nb) = None" "V (p + nb) = None"
    using work_none [OF w, of p s "Hole b"] work_none [OF w, of "p + nb" s "Hole b"] p r by simp_all
  show "work h (C(p \<mapsto> (nb, Hole False), p + nb \<mapsto> (s - nb, Hole b))) B V"
    by (rule work_row [OF w tiles_split [OF workD(1) [OF w] p nb]]) (use n in auto)
qed

lemma work_join:
  assumes w: "work h C B V" and p: "C p = Some (s, Hole a)" and q: "C (p + s) = Some (u, Hole b)"
  shows "work h (C(p + s := None, p \<mapsto> (s + u, Hole b))) B V"
proof -
  have n: "B p = None" "V p = None" "B (p + s) = None" "V (p + s) = None"
    using work_none [OF w, of p s "Hole a"] work_none [OF w, of "p + s" u "Hole b"] p q by simp_all
  show ?thesis by (rule work_row [OF w tiles_join [OF workD(1) [OF w] p q]]) (use n in auto)
qed

lemma hole_next: "tiles h C \<Longrightarrow> C p = Some (s, Hole b) \<Longrightarrow> \<exists>v j. C (p + s) = Some (v, j)"
  by (rule next_chunk_in) auto

lemma chunk_ends_off:
  assumes "tiles h C" and "C p = Some (s, k)"
  shows "p + s \<noteq> p" "p + 4 \<noteq> p + s" "p + s + 4 \<noteq> p + 4" "p + s + 4 \<noteq> p + s" "p + s \<noteq> p + 4" "p + 4 \<noteq> p + s + 4" "p + s \<noteq> p + s + 4"
proof -
  note a = tilesD(2) [OF assms]
  show 1: "p + s \<noteq> p" using a by (auto simp: area_def)
  then show "p + s + 4 \<noteq> p + 4" "p + 4 \<noteq> p + s + 4" by simp_all
  show "p + 4 \<noteq> p + s" "p + s \<noteq> p + 4" using aligned_off [OF area_aligned(1) [OF a] area_aligned(2) [OF a]] by metis+
  show "p + s + 4 \<noteq> p + s" "p + s \<noteq> p + s + 4" by simp_all
qed

text \<open>Writes next to a hole leave bins and data.\<close>

lemma work_writes:
  assumes w: "work h C B V" and p: "C p = Some (s, Hole b)" and wr: "writes {p + 4, p + s, p + s + 4} h h'"
    and t': "tiles h' C'" and C': "\<And>q. q \<noteq> p \<Longrightarrow> C' q = C q" and k: "keeps h h'"
    and maps: "m_smallmap h' = m_smallmap h" "m_treemap h' = m_treemap h"
  shows "work h' C' B V \<and> same_data V h h' \<and> keeps h h'"
proof -
  obtain v j where n: "C (p + s) = Some (v, j)" using hole_next [OF workD(1) [OF w] p] by blast
  have "\<exists>c u j d. C c = Some (u, j) \<and> a = c + d \<and> unat d < 8" if a: "a \<in> {p + 4, p + s, p + s + 4}" for a
  proof -
    have "unat (4 :: u32) < 8" "unat (0 :: u32) < 8" by simp_all
    then show ?thesis using a p n by (metis add.right_neutral empty_iff insert_iff)
  qed
  then have "bag h' B" by (rule bag_writes [OF workD(2) [OF w] workD(1) [OF w] workD(3) [OF w] wr _ maps])
  moreover have "within B C'" "used_in C' V"
    by (rule within_away [OF workD(3) [OF w]] used_in_away [OF workD(4) [OF w]],
      use work_none [OF w, of p s "Hole b"] p C' in \<open>metis ckind.distinct(3,9)\<close>)+
  moreover have "same_data V h h'" by (rule same_data_writes [OF workD(1,4) [OF w] p _ n wr]) simp
  ultimately show ?thesis using t' k by (simp add: work_def)
qed

lemma head_of_words: "s OR PINUSE_BIT = head_of s True False" "s OR PINUSE_BIT OR CINUSE_BIT = head_of s True True"
  by (simp_all add: head_of_def flag_masks or.assoc)

lemma word_maps [simp]:
  "m_smallmap (set_head p v h) = m_smallmap h" "m_treemap (set_head p v h) = m_treemap h"
  "m_smallmap (set_prev_foot p v h) = m_smallmap h" "m_treemap (set_prev_foot p v h) = m_treemap h"
  "keeps h0 (set_head p v h) = keeps h0 h" "keeps h0 (set_prev_foot p v h) = keeps h0 h"
  "gm (set_head p v h) = gm h" "m_least_addr (set_head p v h) = m_least_addr h"
  "gm (set_prev_foot p v h) = gm h" "m_least_addr (set_prev_foot p v h) = m_least_addr h"
  "m_top (set_head p v h) = m_top h" "m_topsize (set_head p v h) = m_topsize h"
  "m_top (set_prev_foot p v h) = m_top h" "m_topsize (set_prev_foot p v h) = m_topsize h"
  "words (set_head p v h) = (words h)(p + 4 := v)" "words (set_prev_foot p v h) = (words h)(p := v)"
  by (simp_all add: set_head_def set_prev_foot_def keeps_store)

lemma used_in_add: "used_in C' V \<Longrightarrow> C' p = Some (s, Used) \<Longrightarrow> used_in C' (V(p \<mapsto> s))"
  by (simp add: used_in_def)

lemma clear_bit_0: "x AND 1 = 0 \<Longrightarrow> x AND NOT 1 = x" for x :: u32
proof (rule bit_word_eqI)
  fix n assume a: "x AND 1 = 0"
  have "\<not> bit (x AND 1) 0" unfolding a by simp
  then show "bit (x AND NOT 1) n \<longleftrightarrow> bit x n" unfolding bit_not_flags by (cases "n = 0") simp_all
qed

text \<open>How the code marks a chunk as used and as free.\<close>

lemma work_use:
  assumes w: "work h C B V" and p: "C p = Some (s, Hole b)" and alone: "\<not> prev_free C p"
    and h': "h' = (if b then set_inuse_and_pinuse p s h else set_size_and_pinuse_of_inuse_chunk p s h)"
  shows "work h' (C(p \<mapsto> (s, Used))) B (V(p \<mapsto> s)) \<and> same_data V h h' \<and> keeps h h'"
proof -
  note off = chunk_ends_off [OF workD(1) [OF w] p]
  note ds = set_inuse_and_pinuse_def set_pinuse_def set_size_and_pinuse_of_inuse_chunk_def
  have wr: "writes {p + 4, p + s + 4} h h'" by (simp add: h' writes_def ds)
  have k: "keeps h h'" by (simp add: h' ds keeps_refl)
  have maps: "m_smallmap h' = m_smallmap h" "m_treemap h' = m_treemap h" by (simp_all add: h' ds)
  have hd: "head h' p = head_of s (\<not> prev_free C p) True" "head h' (p + s) = (if b then head h (p + s) OR 1 else head h (p + s))"
    using off alone by (simp_all add: h' head_def ds head_of_words(2), simp_all add: flag_masks(4))
  have t': "tiles h' (C(p \<mapsto> (s, Used)))"
    by (rule tiles_use [OF workD(1) [OF w] p wr _ _ hd]) (use keepsD [OF k] in simp_all)
  have "writes {p + 4, p + s, p + s + 4} h h'" by (rule writes_mono [OF wr]) auto
  then have "work h' (C(p \<mapsto> (s, Used))) B V \<and> same_data V h h' \<and> keeps h h'"
    by (rule work_writes [OF w p _ t' _ k maps]) simp
  then show ?thesis using used_in_add [of "C(p \<mapsto> (s, Used))" V p s] by (simp add: work_def)
qed

lemma work_free:
  assumes w: "work h C B V" and p: "C p = Some (s, Hole b)" and alone: "\<not> prev_free C p"
    and nx: "next_is C (p + s) (\<lambda>k. k = Used \<or> k = Fence)"
    and h': "h' = set_free_with_pinuse p s (p + s) h \<or> b \<and> h' = set_size_and_pinuse_of_free_chunk p s h"
  shows "work h' (C(p \<mapsto> (s, Free))) B V \<and> same_data V h h' \<and> keeps h h'"
proof -
  note off = chunk_ends_off [OF workD(1) [OF w] p]
  note ds = set_free_with_pinuse_def set_size_and_pinuse_of_free_chunk_def set_foot_def clear_pinuse_def
  obtain v j where n: "C (p + s) = Some (v, j)" "j = Used \<or> j = Fence" using nx by (auto simp: next_is_def)
  have clear: "head h (p + s) AND NOT 1 = head h (p + s)" if b
  proof -
    have pf: "prev_free C (p + s)" using prev_free_end [OF workD(1) [OF w] p] that by simp
    have "8 dvd unat v" using tilesD(2) [OF workD(1) [OF w] n(1)] by (simp add: area_def)
    then have "head h (p + s) AND 1 = 0"
      using tilesD(3) [OF workD(1) [OF w] n(1)] n(2) pf head_of_flags(1) [of v False True] by auto
    then show ?thesis by (rule clear_bit_0)
  qed
  have wr: "writes {p + 4, p + s, p + s + 4} h h'" using h' by (auto simp: writes_def ds)
  have k: "keeps h h'" using h' by (auto simp: ds keeps_refl)
  have maps: "m_smallmap h' = m_smallmap h" "m_treemap h' = m_treemap h" using h' by (auto simp: ds)
  have hd1: "head h' p = head_of s True False" using h' off by (auto simp: head_def ds head_of_words)
  have hd2: "prev_foot h' (p + s) = s" using h' off by (auto simp: prev_foot_def ds)
  have hd3: "head h' (p + s) = head h (p + s) AND NOT 1"
    using h'
  proof
    assume "h' = set_free_with_pinuse p s (p + s) h"
    then show ?thesis using off by (simp add: head_def ds flag_masks(4))
  next
    assume "b \<and> h' = set_size_and_pinuse_of_free_chunk p s h"
    then show ?thesis using off clear by (simp add: head_def ds)
  qed
  have nf: "next_is C (p + s) (\<lambda>k. k \<noteq> Free \<and> k \<noteq> Top)" using n by (auto simp: next_is_def)
  have t': "tiles h' (C(p \<mapsto> (s, Free)))"
    by (rule tiles_free [OF workD(1) [OF w] p wr keepsD(5,6) [OF k] alone nf hd1 hd2 hd3])
  show ?thesis by (rule work_writes [OF w p wr t' _ k maps]) simp
qed

section \<open>The top chunk and the designated victim\<close>

lemma chunk_not_in_bag:
  assumes t: "tiles h C" and c: "C c = Some (u, j)" "j \<noteq> Free" and B: "within B C" and d: "unat d < unat u"
  shows "c + d \<notin> bag_words h B"
proof -
  have a: "area h c u" using tilesD(2) [OF t c(1)] .
  then have e: "unat (c + d) = unat c + unat d" using d by (auto simp: area_def unat_word_ariths)
  have "c + d \<notin> gm_words h" using a e d by (auto simp: area_def gm_words_def)
  moreover have "c + d \<notin> links_of (p, s)" if "B p = Some s" for p s
  proof -
    have p: "C p = Some (s, Free)" by (rule withinD [OF B that])
    then have "c \<noteq> p" using c by auto
    then show ?thesis using tilesD(4) [OF t c(1) p] e d by (auto simp: links_of_def separate_def)
  qed
  ultimately show ?thesis by (auto simp: bag_words_def)
qed

text \<open>Fields that neither the row nor the bins use.\<close>

definition same_core :: "heap \<Rightarrow> heap \<Rightarrow> bool" where
  "same_core h h' \<longleftrightarrow> words h' = words h \<and> gm h' = gm h \<and> m_least_addr h' = m_least_addr h \<and> m_top h' = m_top h \<and>
     m_topsize h' = m_topsize h \<and> m_smallmap h' = m_smallmap h \<and> m_treemap h' = m_treemap h"

lemma work_same_core:
  assumes w: "work h C B V" and s: "same_core h h'"
  shows "work h' C B V \<and> same_data V h h'"
proof -
  have f: "words h' = words h" "gm h' = gm h" "m_least_addr h' = m_least_addr h" "m_top h' = m_top h" "m_topsize h' = m_topsize h"
    "m_smallmap h' = m_smallmap h" "m_treemap h' = m_treemap h" using s by (simp_all add: same_core_def)
  have "area h' = area h" using f by (simp add: area_def fun_eq_iff)
  moreover have "kind_ok h' C c u j" if "C c = Some (u, j)" for c u j
    by (rule kind_ok_frame [OF tilesD(3) [OF workD(1) [OF w] that]]) (simp_all add: head_def prev_foot_def f)
  ultimately have "tiles h' C" using workD(1) [OF w] f unfolding tiles_def by simp
  moreover have "bag h' B" by (rule bag_frame [OF workD(2) [OF w] chunks_ok_within [OF workD(1,3) [OF w]]]) (simp_all add: f)
  ultimately show ?thesis using workD(3,4) [OF w] f by (simp add: work_def same_data_def)
qed

lemma top_chunk:
  assumes "tiles h C"
  shows "C (m_top h) = Some (m_topsize h + 40, Top)" "unat (m_topsize h + 40) = unat (m_topsize h) + 40"
    "8 \<le> unat (m_topsize h)" "\<not> prev_free C (m_top h)" "8 dvd unat (m_topsize h)"
proof -
  obtain z where z: "C (m_top h) = Some (z, Top)" using tilesD(5) [OF assms] by auto
  have e: "z = m_topsize h + 40 \<and> unat z = unat (m_topsize h) + 40 \<and> 8 \<le> unat (m_topsize h) \<and> \<not> prev_free C (m_top h)"
    using tilesD(3) [OF assms z] unfolding kind_ok.simps by blast
  then show "C (m_top h) = Some (m_topsize h + 40, Top)" "unat (m_topsize h + 40) = unat (m_topsize h) + 40"
    "8 \<le> unat (m_topsize h)" "\<not> prev_free C (m_top h)" using z by metis+
  have "8 dvd unat (m_topsize h) + 40" using tilesD(2) [OF assms z] e unfolding area_def by metis
  then show "8 dvd unat (m_topsize h)" by presburger
qed

text \<open>What is cut off the top chunk is a hole.\<close>

lemma work_move_top:
  assumes w: "work h C B V" and e: "p + s = m_top h" and reg: "s = 0 \<or> C p = Some (s, Hole False)"
    and nb: "8 dvd unat nb" "16 \<le> unat nb" "unat s < unat nb" "unat nb < unat s + unat (m_topsize h)"
    and wr: "writes {p + nb + 4} h h'" and top: "m_top h' = p + nb" "m_topsize h' = m_topsize h + s - nb"
    and maps: "m_smallmap h' = m_smallmap h" "m_treemap h' = m_treemap h"
    and hd: "head h' (p + nb) = head_of (m_topsize h + s - nb) True False"
  shows "work h' (C(m_top h := None, p \<mapsto> (nb, Hole False), p + nb \<mapsto> (m_topsize h + s - nb + 40, Top))) B V"
    "same_data V h h'" "C (p + nb) = None" "p + nb \<noteq> p" "p + nb \<noteq> m_top h" "V p = None" "V (p + nb) = None"
    "B p = None" "B (p + nb) = None"
proof -
  let ?m = "m_top h" and ?r = "p + nb" and ?d = "nb - s"
  let ?C = "C(?m := None, p \<mapsto> (nb, Hole False), ?r \<mapsto> (m_topsize h + s - nb + 40, Top))"
  note t = workD(1) [OF w] and tc = top_chunk [OF workD(1) [OF w]]
  have rm: "?r = ?m + ?d" "unat ?d = unat nb - unat s"
    using nb(3) by (simp_all add: e [symmetric] unat_sub word_le_nat_alt)
  have d4: "unat (?d + 4) = unat ?d + 4" "unat ?d + 4 < unat (m_topsize h + 40)" "0 < unat ?d"
    using rm(2) nb(3,4) tc(2) unat_limit(3) [of "m_topsize h + 40"] by (auto simp: unat_word_ariths)
  show r: "C ?r = None" unfolding rm(1) by (rule no_chunk_inside [OF t tc(1)]) (use d4 in simp_all)
  show rp: "?r \<noteq> p" using nb(2) by auto
  show "?r \<noteq> ?m" using r tc(1) by auto
  have r4: "?r + 4 = ?m + (?d + 4)" by (simp add: rm(1))
  have none: "B p = None" "V p = None" "B ?r = None" "V ?r = None" "B ?m = None" "V ?m = None"
    using work_none [OF w, of ?m _ Top] work_none [OF w, of ?r 0 Top] work_none [OF w, of p s "Hole False"] tc(1) r reg e by auto
  then show "V p = None" "V ?r = None" "B p = None" "B ?r = None" by simp_all
  have "writes {p + 4, ?r + 4} h h'" by (rule writes_mono [OF wr]) simp
  then have "tiles h' ?C" by (rule tiles_move_top [OF t e reg nb _ top hd])
  moreover have "?r + 4 \<notin> bag_words h B"
    unfolding r4 by (rule chunk_not_in_bag [OF t tc(1) _ workD(3) [OF w]]) (use d4 in simp_all)
  then have "words h' a = words h a" if "a \<in> bag_words h B" for a
    using that wr unfolding writes_def by (metis singletonD)
  then have "bag h' B"
    by (intro bag_frame [OF workD(2) [OF w] chunks_ok_within [OF workD(1,3) [OF w]]]) (use wr maps in \<open>simp_all add: writes_def\<close>)
  moreover have "within B ?C" "used_in ?C V"
    by (rule within_away [OF workD(3) [OF w]] used_in_away [OF workD(4) [OF w]], use none in auto)+
  ultimately show "work h' ?C B V" by (simp add: work_def)
  show "same_data V h h'"
    unfolding same_data_def
  proof (intro allI impI)
    fix q u a assume q: "V q = Some u" and a: "a \<in> payload q u"
    have q: "C q = Some (u, Used)" using workD(4) [OF w] q by (simp add: used_in_def)
    have "?m \<noteq> q" using tc(1) q by auto
    then have "a \<noteq> ?r + 4" unfolding r4 using payload_apart(2) [OF t q a tc(1), of "?d + 4"] d4 by simp
    then show "words h' a = words h a" using wr by (simp add: writes_def)
  qed
qed

lemma work_split_top:
  assumes w: "work h C B V" and nb: "8 dvd unat nb" "16 \<le> unat nb" "unat nb < unat (m_topsize h)"
    and sp: "split_top nb h = (mem, h')"
  shows "mem = chunk2mem (m_top h) \<and>
    work h' (C(m_top h \<mapsto> (nb, Used), m_top h + nb \<mapsto> (m_topsize h - nb + 40, Top))) B (V(m_top h \<mapsto> nb)) \<and>
    same_data V h h' \<and> m_dv h' = m_dv h \<and> m_dvsize h' = m_dvsize h"
proof -
  let ?p = "m_top h" and ?r = "m_top h + nb"
  let ?C = "C(?p \<mapsto> (nb, Hole False), ?r \<mapsto> (m_topsize h - nb + 40, Top))"
  note tc = top_chunk [OF workD(1) [OF w]]
  define h1 where "h1 = set_head ?r ((m_topsize h - nb) OR PINUSE_BIT) (h\<lparr>m_topsize := m_topsize h - nb, m_top := ?r\<rparr>)"
  have h': "mem = chunk2mem ?p" "h' = set_size_and_pinuse_of_inuse_chunk ?p nb h1"
    using sp by (simp_all add: split_top_def Let_def h1_def)
  have wr: "writes {?p + nb + 4} h h1" by (simp add: writes_def h1_def)
  have f: "m_top h1 = ?p + nb" "m_topsize h1 = m_topsize h + 0 - nb" "m_smallmap h1 = m_smallmap h" "m_treemap h1 = m_treemap h"
    "head h1 (?p + nb) = head_of (m_topsize h + 0 - nb) True False" "m_dv h1 = m_dv h" "m_dvsize h1 = m_dvsize h"
    by (simp_all add: h1_def head_def head_of_words) (simp_all add: set_head_def)
  have "0 = (0 :: u32) \<or> C ?p = Some (0, Hole False)" "?p + 0 = m_top h" "unat (0 :: u32) < unat nb" "unat nb < unat (0 :: u32) + unat (m_topsize h)"
    using nb by simp_all
  note m = work_move_top [OF w this(2,1) nb(1,2) this(3,4) wr f(1-5), unfolded add_0_right fun_upd_upd]
  have al: "\<not> prev_free ?C ?p"
  proof -
    have "\<not> free_end ?C ?p ?p" "\<not> free_end ?C ?r ?p" using m(4) nb(2) by (auto simp: free_end_def)
    moreover have "free_end ?C q ?p = free_end C q ?p" if "q \<noteq> ?p" "q \<noteq> ?r" for q using that by (simp add: free_end_def)
    ultimately show ?thesis using tc(4) unfolding prev_free_def by metis
  qed
  have "work h' (?C(?p \<mapsto> (nb, Used))) B (V(?p \<mapsto> nb)) \<and> same_data V h1 h' \<and> keeps h1 h'"
    by (rule work_use [OF m(1) _ al, where b = False]) (use m(4) in \<open>simp_all add: h'\<close>)
  moreover have "?C(?p \<mapsto> (nb, Used)) = C(?p \<mapsto> (nb, Used), ?r \<mapsto> (m_topsize h - nb + 40, Top))"
    using m(4) by (simp add: fun_upd_twist fun_upd_def fun_eq_iff)
  ultimately show ?thesis using h'(1) f(6,7) same_data_trans [OF m(2)] keepsD(3,4) [of h1 h'] by simp
qed

lemma work_join_top:
  assumes w: "work h C B V" and p: "C p = Some (s, Hole False)" and e: "p + s = m_top h" and alone: "\<not> prev_free C p"
    and h': "h' = set_head p ((m_topsize h + s) OR PINUSE_BIT) (h\<lparr>m_topsize := m_topsize h + s, m_top := p\<rparr>)"
  shows "work h' (C(p + s := None, p \<mapsto> (m_topsize h + s + 40, Top))) B V \<and> same_data V h h'"
proof -
  let ?C = "C(p + s := None, p \<mapsto> (m_topsize h + s + 40, Top))"
  note t = workD(1) [OF w] and tc = top_chunk [OF workD(1) [OF w]]
  have wr: "writes {p + 4} h h'" by (simp add: writes_def h')
  have t': "tiles h' ?C"
    by (rule tiles_join_top [OF t p e alone wr]) (simp_all add: h' head_def head_of_words)
  have none: "B p = None" "V p = None" "B (p + s) = None" "V (p + s) = None"
    using work_none [OF w, of p s "Hole False"] work_none [OF w, of "p + s" _ Top] p tc(1) e by auto
  have "bag h' B"
  proof (rule bag_writes [OF workD(2) [OF w] t workD(3) [OF w] wr])
    show "\<exists>c u j d. C c = Some (u, j) \<and> a = c + d \<and> unat d < 8" if "a \<in> {p + 4}" for a
      using that p by (intro exI [of _ p] exI [of _ s] exI [of _ "Hole False"] exI [of _ 4]) simp
  qed (simp_all add: h')
  moreover have "within B ?C" "used_in ?C V"
    by (rule within_away [OF workD(3) [OF w]] used_in_away [OF workD(4) [OF w]], use none in auto)+
  moreover have "same_data V h h'"
    by (rule same_data_writes [OF t workD(4) [OF w] p _ _ writes_mono [OF wr]]) (use tc(1) e in auto)
  ultimately show ?thesis using t' by (simp add: work_def)
qed

end
