(* ===== verification/MallocFind.thy ===== *)
theory MallocFind
  imports MallocHeap
begin

text \<open>
  How \<^verbatim>\<open>malloc\<close> finds a chunk in the bins of \<^verbatim>\<open>malloc.c\<close>: the first chunk of a small bin, and the two walks
  of the best-fit search in the trees, which end and return a chunk of a tree or what they started with.
\<close>

section \<open>The first chunk of a small bin\<close>

lemma small_index_size:
  assumes "8 dvd unat s" and "unat s < 256"
  shows "small_index2size (small_index s) = s"
proof -
  have "unat (small_index2size (small_index s)) = unat s"
    using assms by (simp add: small_index2size_def small_iff SMALLBIN_SHIFT_def push_bit_eq_mult unat_word_ariths unat_of_nat)
  then show ?thesis by (simp add: word_unat_eq_iff)
qed

lemma bag_unlink_first:
  assumes "bag h B" and ok: "chunks_ok h B" and i: "i < 32" "bit (m_smallmap h) i"
  shows "\<exists>p s h'. fd h (smallbin_at h i) = p \<and> B p = Some s \<and> s = small_index2size i \<and> unat s = 8 * i \<and>
    unlink_first_small_chunk (smallbin_at h i) p i h = ret h' \<and> bag h' (B(p := None)) \<and> bin_step (bag_words h B) h h'"
proof -
  obtain L N M where L: "small_inv h L" "\<forall>i<32. set (L i) = small_part B i"
    and T: "tree_inv h N M" "tchunks N M = large_part B"
    using assms(1) by (auto simp: bag_def)
  have nodes: "small_nodes h L = small_headers h \<union> {q. \<exists>t. B q = Some t \<and> unat t < 256}" by (rule small_nodes_part [OF L(2)])
  have nd: "nodes (small_nodes h L)" unfolding nodes by (rule nodes_bag [OF ok]) auto
  have "L i \<noteq> []" using small_invD(1) [OF L(1) i(1)] i(2) by blast
  then obtain p ys where Li: "L i = p # ys" by (cases "L i") auto
  then have "p \<in> small_part B i" using L(2) [rule_format, OF i(1)] by auto
  then obtain s where s: "B p = Some s" "unat s < 256" "small_index s = i" by (auto simp: small_part_def)
  have d: "8 dvd unat s" using chunks_okD(2) [OF ok s(1)] by (simp add: room_def)
  have size: "s = small_index2size i" "unat s = 8 * i" using small_index_size [OF d s(2)] s(3) d by (auto simp: small_iff(2))
  obtain h' where h': "fd h (smallbin_at h i) = p" "unlink_first_small_chunk (smallbin_at h i) p i h = ret h'" "small_inv h' (L(i := ys))"
    "bin_step (small_cells h B) h h'"
    using unlink_first_small_runs [OF L(1) i(1) nd Li] unfolding small_cells_def nodes by blast
  have "m_treemap h' = m_treemap h"
    using h'(2) by (auto simp: unlink_first_small_chunk_def Let_def clear_smallmap_def set_fd_def set_bk_def store_def split: if_splits)
  then have "tree_inv h' N M" by (rule bag_after_small [OF ok T h'(4)])
  moreover have "tchunks N M = large_part (B(p := None))" using T(2) s by (auto simp: large_part_def)
  moreover have "set ((L(i := ys)) j) = small_part (B(p := None)) j" if "j < 32" for j
  proof -
    have "distinct (L i)" using small_invD(2) [OF L(1) i(1) \<open>L i \<noteq> []\<close>] by (simp add: ring_def)
    moreover have "p \<notin> set (L j)" if "j \<noteq> i" using L(2) [rule_format, OF \<open>j < 32\<close>] s that by (auto simp: small_part_def)
    ultimately show ?thesis using L(2) [rule_format, OF that] Li unfolding part_del by auto
  qed
  ultimately have "bag h' (B(p := None))" using h'(3) unfolding bag_def by blast
  then show ?thesis using h'(1,2) s size bin_step_mono [OF h'(4) cells_in_bag(1) [OF ok]] by blast
qed

section \<open>Walks in the trees\<close>

lemma tree_child_cases:
  assumes "tree_ok (tree_view U h) N rk slot" and "N \<subseteq> U" and "t \<in> N" and "b = 0 \<or> b = 1"
  shows "child h t b = 0 \<or> child h t b \<in> N \<and> rk t < rk (child h t b)"
  using kid_member [OF assms(1-3) _ assms(4)] tree_kid(1,3) [OF assms(1,3)] by blast

lemma leftmost_child_cases:
  assumes "tree_ok (tree_view U h) N rk slot" and "N \<subseteq> U" and "t \<in> N"
  shows "leftmost_child h t = 0 \<or> leftmost_child h t \<in> N \<and> rk t < rk (leftmost_child h t)"
  using tree_child_cases [OF assms, of 0] tree_child_cases [OF assms, of 1] by (auto simp: leftmost_child_def)

text \<open>What a walk returns: what it had, or a better chunk.\<close>

definition better :: "heap \<Rightarrow> u32 set \<Rightarrow> u32 \<Rightarrow> u32 \<times> u32 \<Rightarrow> u32 \<times> u32 \<Rightarrow> bool" where
  "better h N nb a b \<longleftrightarrow> b = a \<or> fst b \<in> N \<and> snd b = chunksize h (fst b) - nb \<and> snd b < snd a"

lemma better_trans: "better h N nb a b \<Longrightarrow> better h N nb b c \<Longrightarrow> better h N nb a c"
  by (auto simp: better_def)

lemma better_step: "t \<in> N \<Longrightarrow> better h N nb (v, r) (if chunksize h t - nb < r then t else v, if chunksize h t - nb < r then chunksize h t - nb else r)"
  by (simp add: better_def)

lemma tmalloc_smallest_ends:
  assumes ok: "tree_ok (tree_view U h) N rk slot" and U: "N \<subseteq> U" and t: "t = 0 \<or> t \<in> N"
  shows "\<exists>b. tmalloc_smallest h nb v r t = Some b \<and> better h N nb (v, r) b"
proof -
  have "finite N" and z: "0 \<notin> N" using ok by (simp_all add: tree_ok_def)
  then obtain B where B: "\<forall>n\<in>rk ` N. n < B" using finite_nat_set_iff_bounded by (metis finite_imageI)
  show ?thesis using t
  proof (induction "if t = 0 then 0 else Suc (B - rk t)" arbitrary: t v r rule: less_induct)
    case less
    show ?case
    proof (cases "t = 0")
      case True
      then show ?thesis by (subst tmalloc_smallest.simps) (simp add: better_def)
    next
      case False
      then have tN: "t \<in> N" using less.prems by simp
      let ?l = "leftmost_child h t"
      have l: "?l = 0 \<or> ?l \<in> N \<and> rk t < rk ?l" by (rule leftmost_child_cases [OF ok U tN])
      have "(if ?l = 0 then 0 else Suc (B - rk ?l)) < (if t = 0 then 0 else Suc (B - rk t))"
        using l False B tN z by fastforce
      note IH = less.hyps [OF this]
      define a where "a = (if chunksize h t - nb < r then t else v, if chunksize h t - nb < r then chunksize h t - nb else r)"
      have a: "better h N nb (v, r) a" unfolding a_def by (rule better_step [OF tN])
      obtain b where b: "tmalloc_smallest h nb (fst a) (snd a) ?l = Some b" "better h N nb a b" using IH l by fastforce
      have "tmalloc_smallest h nb v r t = Some b" using b(1) False by (subst tmalloc_smallest.simps) (simp add: a_def split: if_splits)
      then show ?thesis using better_trans [OF a b(2)] by blast
    qed
  qed
qed

lemma tmalloc_descend_ends:
  assumes ok: "tree_ok (tree_view U h) N rk slot" and U: "N \<subseteq> U" and t: "t \<in> N" and rst: "rst = 0 \<or> rst \<in> N"
  shows "\<exists>v' r' t'. tmalloc_descend h nb v r t rst k = Some (v', r', t') \<and> better h N nb (v, r) (v', r') \<and> (t' = 0 \<or> t' \<in> N)"
proof -
  have "finite N" using ok by (simp add: tree_ok_def)
  then obtain B where B: "\<forall>n\<in>rk ` N. n < B" using finite_nat_set_iff_bounded by (metis finite_imageI)
  show ?thesis using t rst
  proof (induction "B - rk t" arbitrary: t v r rst k rule: less_induct)
    case less
    let ?trem = "chunksize h t - nb" and ?c = "child h t (sign_bit k)" and ?rt = "child h t 1"
    define a where "a = (if ?trem < r then t else v, if ?trem < r then ?trem else r)"
    have a: "better h N nb (v, r) a" unfolding a_def by (rule better_step [OF less.prems(1)])
    have c: "?c = 0 \<or> ?c \<in> N \<and> rk t < rk ?c" by (rule tree_child_cases [OF ok U less.prems(1) sign_bit_cases])
    have rt: "?rt = 0 \<or> ?rt \<in> N" using tree_child_cases [OF ok U less.prems(1), of 1] by auto
    define rst' where "rst' = (if ?rt \<noteq> 0 \<and> ?rt \<noteq> ?c then ?rt else rst)"
    have rst': "rst' = 0 \<or> rst' \<in> N" using rt less.prems(2) by (auto simp: rst'_def)
    have step: "tmalloc_descend h nb v r t rst k =
      (if ?trem < r \<and> ?trem = 0 then Some (fst a, snd a, t)
       else if ?c = 0 then Some (fst a, snd a, rst') else tmalloc_descend h nb (fst a) (snd a) ?c rst' (push_bit 1 k))"
      by (subst tmalloc_descend.simps) (simp only: Let_def a_def rst'_def fst_conv snd_conv)
    consider "?trem < r \<and> ?trem = 0" | "\<not> (?trem < r \<and> ?trem = 0)" "?c = 0" | "\<not> (?trem < r \<and> ?trem = 0)" "?c \<noteq> 0" by blast
    then show ?case
    proof cases
      case 1
      then show ?thesis unfolding step using a less.prems(1) by auto
    next
      case 2
      then show ?thesis unfolding step using a rst' by auto
    next
      case 3
      then have "rk ?c < B" "rk t < rk ?c" using c B by auto
      then have "B - rk ?c < B - rk t" by simp
      from less.hyps [OF this _ rst'] obtain v' r' t' where
        "tmalloc_descend h nb (fst a) (snd a) ?c rst' (push_bit 1 k) = Some (v', r', t')" "better h N nb a (v', r')" "t' = 0 \<or> t' \<in> N"
        using c 3 by (metis prod.collapse)
      then show ?thesis unfolding step using 3 better_trans [OF a] by auto
    qed
  qed
qed

text \<open>The trees of a bag.\<close>

lemma bag_trees:
  assumes "bag h B"
  obtains N rk U slot where "tree_ok (tree_view U h) N rk slot" "N \<subseteq> U" "N \<subseteq> large_part B"
    "\<And>i. i < 32 \<Longrightarrow> bit (m_treemap h) i \<longleftrightarrow> words h (treebin_at h i) \<noteq> 0"
    "\<And>i. i < 32 \<Longrightarrow> words h (treebin_at h i) = 0 \<or> words h (treebin_at h i) \<in> N"
proof -
  obtain N M where T: "tree_inv h N M" "tchunks N M = large_part B" using assms by (auto simp: bag_def)
  let ?U = "tchunks N M"
  obtain rk where ok: "tree_ok (tree_view ?U h) N rk (treebin_at h)" using T(1) by (auto simp: tree_inv_def Let_def)
  have N: "N \<subseteq> ?U" by (auto intro: tchunksI)
  have r: "trt (tree_view ?U h) i = words h (treebin_at h i)" if "i < 32" for i using that by (rule tree_view_at(7))
  show thesis
  proof (rule that [OF ok N])
    show "N \<subseteq> large_part B" using N T(2) by simp
    show "bit (m_treemap h) i \<longleftrightarrow> words h (treebin_at h i) \<noteq> 0" if "i < 32" for i
      using T(1) r [OF that] that by (simp add: tree_inv_def Let_def)
    show "words h (treebin_at h i) = 0 \<or> words h (treebin_at h i) \<in> N" if "i < 32" for i
      using ok that unfolding tree_ok_def r [OF that, symmetric] by blast
  qed
qed

section \<open>Picking a bin\<close>

lemma least_bit_single:
  fixes x :: u32
  assumes "x \<noteq> 0"
  obtains i where "i < 32" "bit x i" "least_bit x = idx2bit i" "\<And>j. bit x j \<Longrightarrow> i \<le> j"
proof -
  define i where "i = (LEAST n. bit x n)"
  have "\<exists>n. bit x n" using assms by (auto simp: bit_eq_iff)
  then have i: "bit x i" unfolding i_def by (rule LeastI_ex)
  have least: "i \<le> j" if "bit x j" for j unfolding i_def by (rule Least_le) (rule that)
  have i32: "i < 32" using bit_imp_le_length [OF i] by simp
  define y where "y = x AND NOT (push_bit i 1)"
  have y: "bit y n \<longleftrightarrow> bit x n \<and> n \<noteq> i" for n
    using bit_imp_le_length [of x n] by (auto simp: y_def bit_simps)
  have "x = y OR push_bit i 1" by (rule bit_word_eqI) (use i i32 in \<open>auto simp: bit_or_iff y bit_simps\<close>)
  also have "\<dots> = y + push_bit i 1"
    by (rule disjunctive_add [symmetric]) (auto simp: y bit_simps)
  finally have "x - 1 = y + mask i" by (simp add: mask_eq_exp_minus_1)
  also have "\<dots> = y OR mask i" by (rule disjunctive_add) (use least in \<open>fastforce simp: y bit_mask_iff\<close>)
  finally have n: "- x = NOT (y OR mask i)" by (simp add: minus_eq_not_minus_1)
  have "least_bit x = idx2bit i"
    unfolding least_bit_def n idx2bit_def
    by (rule bit_word_eqI) (use i i32 least in \<open>auto simp: y bit_simps not_le not_less dest: le_antisym\<close>)
  then show thesis using that [OF i32 i _ least] by blast
qed

lemma least_bit_index:
  assumes "x \<noteq> 0" and "i = compute_bit2idx (least_bit x)"
  shows "i < 32" "bit x i" "\<And>j. bit x j \<Longrightarrow> i \<le> j"
proof -
  obtain k where k: "k < 32" "bit x k" "least_bit x = idx2bit k" "\<And>j. bit x j \<Longrightarrow> k \<le> j"
    using least_bit_single [OF assms(1)] by blast
  have "i = k" unfolding assms(2) k(3) compute_bit2idx_def by (rule builtin_ctz_eq [OF k(1)])
  then show "i < 32" "bit x i" "\<And>j. bit x j \<Longrightarrow> i \<le> j" using k by auto
qed

lemma left_bits_single:
  assumes "i < 32"
  shows "bit (left_bits (idx2bit i)) n \<longleftrightarrow> i < n \<and> n < 32"
proof (cases "i = 31")
  case True
  then have "push_bit 1 (idx2bit i) = 0" by (simp add: idx2bit_def)
  then show ?thesis using True by (simp add: left_bits_def)
next
  case False
  let ?x = "push_bit (Suc i) 1 :: u32"
  have e: "push_bit 1 (idx2bit i) = ?x" by (simp add: idx2bit_def)
  have "?x - 1 = mask (Suc i)" by (simp add: mask_eq_exp_minus_1)
  then have n: "- ?x = NOT (mask (Suc i))" by (metis minus_eq_not_minus_1)
  show ?thesis
    unfolding left_bits_def e n using False assms by (auto simp: bit_simps not_less)
qed

end
