(* ===== verification/MallocInv.thy ===== *)
theory MallocInv
  imports MallocFind
begin

text \<open>
  The invariant of the heap of \<^verbatim>\<open>malloc.c\<close> between two calls, and the steps that \<^verbatim>\<open>malloc\<close> and \<^verbatim>\<open>free\<close> share.
\<close>

section \<open>The invariant\<close>

text \<open>The chunks in use, and those that the bins hold: all free ones but the designated victim.\<close>

definition used_of :: "row \<Rightarrow> u32 \<rightharpoonup> u32" where
  "used_of C p = (case C p of Some (s, Used) \<Rightarrow> Some s | _ \<Rightarrow> None)"

definition binned :: "u32 \<Rightarrow> row \<Rightarrow> u32 \<rightharpoonup> u32" where
  "binned dv C p = (case C p of Some (s, Free) \<Rightarrow> (if p = dv then None else Some s) | _ \<Rightarrow> None)"

definition dv_ok :: "heap \<Rightarrow> row \<Rightarrow> bool" where
  "dv_ok h C \<longleftrightarrow> (if m_dvsize h = 0 then m_dv h = 0 else C (m_dv h) = Some (m_dvsize h, Free))"

definition settled :: "row \<Rightarrow> bool" where
  "settled C \<longleftrightarrow> (\<forall>p s b. C p \<noteq> Some (s, Hole b))"

definition heap_inv :: "heap \<Rightarrow> row \<Rightarrow> bool" where
  "heap_inv h C \<longleftrightarrow> tiles h C \<and> settled C \<and> dv_ok h C \<and> bag h (binned (m_dv h) C)"

lemma heap_invD:
  assumes "heap_inv h C"
  shows "tiles h C" "settled C" "dv_ok h C" "bag h (binned (m_dv h) C)"
  using assms by (simp_all add: heap_inv_def)

lemma used_of_iff: "used_of C p = Some s \<longleftrightarrow> C p = Some (s, Used)"
  by (auto simp: used_of_def split: option.splits ckind.splits)

lemma binned_iff: "binned dv C p = Some s \<longleftrightarrow> C p = Some (s, Free) \<and> p \<noteq> dv"
  by (auto simp: binned_def split: option.splits ckind.splits)

lemma used_of_upd:
  "used_of (C(p \<mapsto> (s, k))) = (used_of C)(p := if k = Used then Some s else None)" "used_of (C(p := None)) = (used_of C)(p := None)"
  by (auto simp: used_of_def fun_eq_iff split: ckind.splits)

lemma binned_upd:
  "binned dv (C(p \<mapsto> (s, k))) = (binned dv C)(p := if k = Free \<and> p \<noteq> dv then Some s else None)"
  "binned dv (C(p := None)) = (binned dv C)(p := None)"
  by (auto simp: binned_def fun_eq_iff split: ckind.splits)

text \<open>Another designated victim.\<close>

lemma binned_dv:
  "binned d C = (binned e C)(e := (case C e of Some (s, Free) \<Rightarrow> Some s | _ \<Rightarrow> None), d := None)"
  by (auto simp: binned_def fun_eq_iff split: option.splits ckind.splits)

lemma used_of_none: "C p = None \<or> C p = Some (s, k) \<and> k \<noteq> Used \<Longrightarrow> used_of C p = None"
  by (cases k) (auto simp: used_of_def)

lemma binned_none: "C p = None \<or> C p = Some (s, k) \<and> k \<noteq> Free \<Longrightarrow> binned dv C p = None"
  by (cases k) (auto simp: binned_def)

lemma work_start:
  assumes "heap_inv h C"
  shows "work h C (binned (m_dv h) C) (used_of C)"
  using heap_invD [OF assms] by (simp add: work_def within_def used_in_def binned_iff used_of_iff)

text \<open>The end of an operation: \<open>h\<close> differs from the state of the work only in fields that neither the
  row nor the bins use.\<close>

lemma work_end:
  assumes w: "work h C B V" and "settled C" and "dv_ok h C" and "B = binned (m_dv h) C"
  shows "heap_inv h C"
  using workD(1,2) [OF w] assms by (simp add: heap_inv_def)

lemma heap_dv:
  assumes i: "heap_inv h C" and d: "m_dvsize h \<noteq> 0"
  shows "C (m_dv h) = Some (m_dvsize h, Free)" "m_dv h \<noteq> 0" "16 \<le> unat (m_dvsize h)"
proof -
  show c: "C (m_dv h) = Some (m_dvsize h, Free)" using heap_invD(3) [OF i] d by (simp add: dv_ok_def)
  show "m_dv h \<noteq> 0" using tilesD(2) [OF heap_invD(1) [OF i] c] by (auto simp: area_def)
  show "16 \<le> unat (m_dvsize h)" using tilesD(3) [OF heap_invD(1) [OF i] c] by simp
qed

lemma settled_next:
  assumes "tiles h C" and "settled C" and "C p = Some (s, Free)"
  shows "next_is C (p + s) (\<lambda>k. k = Used \<or> k = Fence)"
proof -
  obtain t k where n: "C (p + s) = Some (t, k)" "k \<noteq> Free" "k \<noteq> Top" using tilesD(3) [OF assms(1,3)] by (auto simp: next_is_def)
  then show ?thesis using assms(2) by (cases k) (auto simp: next_is_def settled_def)
qed

text \<open>A chunk does not begin where it ends.\<close>

lemma prev_free_step:
  assumes t: "tiles h C" and p: "C p = Some (s, k)" and same: "\<And>q. q \<noteq> p \<Longrightarrow> q \<noteq> r \<Longrightarrow> C' q = C q"
    and "\<not> free_end C' p p" "\<not> free_end C' r p" and r: "C r = None \<or> r = p"
  shows "prev_free C' p \<longleftrightarrow> prev_free C p"
proof (rule prev_free_cong)
  fix q
  have "p + s \<noteq> p" using chunk_ends_off(1) [OF t p] .
  then have "\<not> free_end C p p" "\<not> free_end C r p" using p r by (auto simp: free_end_def)
  then show "free_end C' q p \<longleftrightarrow> free_end C q p"
    using assms(4,5) same [of q] by (cases "q = p \<or> q = r") (auto simp: free_end_def)
qed

section \<open>Taking a free chunk\<close>

text \<open>A free chunk that is out of the bins becomes a hole.\<close>

lemma take_free:
  assumes w: "work h C B (used_of C)" and p: "C p = Some (s, Free)" "B p = None" and set: "settled C"
  defines "C1 \<equiv> C(p \<mapsto> (s, Hole True))"
  shows "work h C1 B (used_of C)" "C1 p = Some (s, Hole True)" "\<not> prev_free C1 p"
    "next_is C1 (p + s) (\<lambda>k. k = Used \<or> k = Fence)" "\<forall>q u b. q \<noteq> p \<longrightarrow> C1 q \<noteq> Some (u, Hole b)"
proof -
  note t = workD(1) [OF w]
  show "work h C1 B (used_of C)" using work_hole [OF w p(1) _ p(2) used_of_none] p(1) by (simp add: C1_def)
  show "C1 p = Some (s, Hole True)" by (simp add: C1_def)
  have off: "p + s \<noteq> p" by (rule chunk_ends_off(1) [OF t p(1)])
  have "\<not> prev_free C p" using tilesD(3) [OF t p(1)] by simp
  then show "\<not> prev_free C1 p"
    using prev_free_step [OF t p(1), of p C1] off by (simp add: C1_def free_end_def)
  show "next_is C1 (p + s) (\<lambda>k. k = Used \<or> k = Fence)"
    using settled_next [OF t set p(1)] off by (simp add: C1_def next_is_def)
  show "\<forall>q u b. q \<noteq> p \<longrightarrow> C1 q \<noteq> Some (u, Hole b)" using set by (simp add: C1_def settled_def)
qed

text \<open>The whole hole is used, or its first part and the rest is free.\<close>

lemma use_hole:
  assumes w: "work h C1 B V" and p: "C1 p = Some (s, Hole True)" and alone: "\<not> prev_free C1 p"
    and only: "\<forall>q u b. q \<noteq> p \<longrightarrow> C1 q \<noteq> Some (u, Hole b)" and h': "h' = set_inuse_and_pinuse p s h"
  shows "work h' (C1(p \<mapsto> (s, Used))) B (V(p \<mapsto> s))" "same_data V h h'" "keeps h h'" "settled (C1(p \<mapsto> (s, Used)))"
  using work_use [OF w p alone, of h'] only h' by (simp_all add: settled_def)

lemma cut_hole:
  assumes w: "work h C1 B V" and p: "C1 p = Some (s, Hole True)" and alone: "\<not> prev_free C1 p"
    and nx: "next_is C1 (p + s) (\<lambda>k. k = Used \<or> k = Fence)"
    and only: "\<forall>q u b. q \<noteq> p \<longrightarrow> C1 q \<noteq> Some (u, Hole b)"
    and nb: "8 dvd unat nb" "16 \<le> unat nb" "unat nb + 16 \<le> unat s"
    and h': "h' = set_size_and_pinuse_of_free_chunk (p + nb) (s - nb) (set_size_and_pinuse_of_inuse_chunk p nb h)"
  defines "C2 \<equiv> C1(p \<mapsto> (nb, Used), p + nb \<mapsto> (s - nb, Free))"
  shows "work h' C2 B (V(p \<mapsto> nb))" "same_data V h h'" "keeps h h'" "settled C2" "C1 (p + nb) = None"
    "C2 p = Some (nb, Used)" "C2 (p + nb) = Some (s - nb, Free)" "p + nb \<noteq> p"
proof -
  let ?r = "p + nb"
  let ?C = "C1(p \<mapsto> (nb, Hole False), ?r \<mapsto> (s - nb, Hole True))"
  define h1 where "h1 = set_size_and_pinuse_of_inuse_chunk p nb h"
  note t = workD(1) [OF w]
  note wc = work_split(1) [OF w p nb]
  show r: "C1 ?r = None" by (rule work_split(2) [OF w p nb])
  show pr: "?r \<noteq> p" using nb by auto
  have Cp: "?C p = Some (nb, Hole False)" using pr by simp
  have e: "?r + (s - nb) = p + s" by simp
  have off: "p + s \<noteq> p" "p + s \<noteq> ?r" using chunk_ends_off(1) [OF t p] nb by auto
  have al: "\<not> prev_free ?C p"
    using prev_free_step [OF t p, of ?r ?C] alone r pr off(1) by (simp add: free_end_def)
  let ?C' = "?C(p \<mapsto> (nb, Used))"
  have w1: "work h1 ?C' B (V(p \<mapsto> nb))" "same_data V h h1" "keeps h h1"
    using work_use [OF wc Cp al, of h1] by (simp_all add: h1_def)
  have Cr: "?C' ?r = Some (s - nb, Hole True)" using pr by simp
  have alr: "\<not> prev_free ?C' ?r" using prev_free_end [OF workD(1) [OF w1(1)], of p nb Used] by simp
  have nxr: "next_is ?C' (?r + (s - nb)) (\<lambda>k. k = Used \<or> k = Fence)"
    using nx off unfolding e by (simp add: next_is_def)
  have w2: "work h' (?C'(?r \<mapsto> (s - nb, Free))) B (V(p \<mapsto> nb))" "same_data (V(p \<mapsto> nb)) h1 h'" "keeps h1 h'"
    using work_free [OF w1(1) Cr alr nxr, of h'] by (simp_all add: h' h1_def)
  have C2: "?C'(?r \<mapsto> (s - nb, Free)) = C2" using pr by (auto simp: C2_def fun_eq_iff)
  show "work h' C2 B (V(p \<mapsto> nb))" using w2(1) unfolding C2 .
  have "V p = None" using work_none [OF w, of p s "Hole True"] p by simp
  then have "same_data V h1 h'" using w2(2) unfolding same_data_def by (metis fun_upd_apply option.distinct(1))
  then show "same_data V h h'" by (rule same_data_trans [OF w1(2)])
  show "keeps h h'" by (rule keeps_trans [OF w1(3) w2(3)])
  show "settled C2" using only by (auto simp: C2_def settled_def)
  show "C2 p = Some (nb, Used)" "C2 ?r = Some (s - nb, Free)" using pr by (simp_all add: C2_def)
qed

text \<open>The two orders in which the code writes the heads.\<close>

lemma cut_order:
  assumes t: "tiles h C" and p: "C p = Some (s, k)" and nb: "8 dvd unat nb" "16 \<le> unat nb" "unat nb + 16 \<le> unat s"
  shows "set_size_and_pinuse_of_inuse_chunk p nb (set_size_and_pinuse_of_free_chunk (p + nb) (s - nb) g) =
    set_size_and_pinuse_of_free_chunk (p + nb) (s - nb) (set_size_and_pinuse_of_inuse_chunk p nb g)"
proof -
  have "p + 4 \<noteq> p + s" using chunk_ends_off(2) [OF t p] .
  moreover have "p + nb + (s - nb) = p + s" by simp
  moreover have "p + 4 \<noteq> p + nb + 4" using nb by auto
  ultimately have "(words g)(p + nb + 4 := x, p + nb + (s - nb) := y, p + 4 := z) = (words g)(p + 4 := z, p + nb + 4 := x, p + nb + (s - nb) := y)"
    for x y z by (auto simp: fun_eq_iff)
  then show ?thesis
    by (simp add: set_size_and_pinuse_of_inuse_chunk_def set_size_and_pinuse_of_free_chunk_def set_foot_def set_prev_foot_def
        set_head_def store_def del: fun_upd_apply)
qed

end
