(* ===== verification/MallocAlloc.thy ===== *)
theory MallocAlloc
  imports MallocInv MallocMore
begin

text \<open>
  \<^verbatim>\<open>malloc\<close> of \<^verbatim>\<open>malloc.c\<close> on a heap that keeps the invariant: each of the places where it looks for a chunk
  yields one that no other user has, and the invariant is kept.
\<close>

section \<open>What an allocation does\<close>

definition allocated :: "heap \<Rightarrow> row \<Rightarrow> u32 \<Rightarrow> u32 \<Rightarrow> heap \<Rightarrow> bool" where
  "allocated h C nb a h' \<longleftrightarrow>
     (\<exists>C' p s. a = chunk2mem p \<and> used_of C p = None \<and> nb \<le> s \<and> heap_inv h' C' \<and> used_of C' = (used_of C)(p \<mapsto> s) \<and>
        same_data (used_of C) h h')"

definition gives :: "heap \<Rightarrow> row \<Rightarrow> u32 \<Rightarrow> (u32 \<times> heap) run \<Rightarrow> bool" where
  "gives h C nb r \<longleftrightarrow> (\<exists>a h'. r = ret (a, h') \<and> allocated h C nb a h')"

text \<open>The state in which a free chunk \<open>p\<close> is out of the bins, with what has been written so far.\<close>

definition picked :: "heap \<Rightarrow> row \<Rightarrow> u32 \<Rightarrow> u32 \<Rightarrow> heap \<Rightarrow> bool" where
  "picked h C p s h1 \<longleftrightarrow>
     work h1 C ((binned (m_dv h1) C)(p := None)) (used_of C) \<and> settled C \<and> C p = Some (s, Free) \<and>
     dv_ok h1 (C(p := None)) \<and> same_data (used_of C) h h1"

lemma picked_binned:
  assumes i: "heap_inv h C" and B: "B = binned (m_dv h) C" "B p = Some s"
    and h1: "bag h1 (B(p := None))" "bin_step (bag_words h B) h h1"
  shows "picked h C p s h1 \<and> keeps h h1"
proof -
  note w = work_start [OF i, folded B(1)]
  have p: "C p = Some (s, Free)" "p \<noteq> m_dv h" using B by (simp_all add: binned_iff)
  have w1: "work h1 C (B(p := None)) (used_of C)" "same_data (used_of C) h h1" "keeps h h1"
    using work_bag_step [OF w h1(2,1) workD(3) [OF w] within_del [OF workD(3) [OF w]]] by simp_all
  have "dv_ok h1 (C(p := None))" using heap_invD(3) [OF i] p keepsD(3,4) [OF w1(3)] by (auto simp: dv_ok_def)
  then show ?thesis using w1 p heap_invD(2) [OF i] keepsD(3) [OF w1(3)] B(1) by (simp add: picked_def)
qed

lemma picked_dv:
  assumes i: "heap_inv h C" and d: "m_dvsize h \<noteq> 0"
  shows "picked h C (m_dv h) (m_dvsize h) (h\<lparr>m_dvsize := 0, m_dv := 0\<rparr>)"
proof -
  note dv = heap_dv [OF i d]
  have s: "same_core h (h\<lparr>m_dvsize := 0, m_dv := 0\<rparr>)" by (simp add: same_core_def)
  have "C 0 = None" using tilesD(2) [OF heap_invD(1) [OF i], of 0] by (cases "C 0") (auto simp: area_def)
  then have "(binned 0 C)(m_dv h := None) = binned (m_dv h) C"
    by (auto simp: binned_def fun_eq_iff split: option.splits ckind.splits)
  then show ?thesis
    using work_same_core [OF work_start [OF i] s] dv heap_invD(2) [OF i] by (simp add: picked_def dv_ok_def)
qed

lemma pickedD:
  assumes "picked h C p s h1"
  shows "work h1 C ((binned (m_dv h1) C)(p := None)) (used_of C)" "settled C" "C p = Some (s, Free)"
    "dv_ok h1 (C(p := None))" "same_data (used_of C) h h1" "used_of C p = None"
  using assms used_of_none [of C p s Free] by (simp_all add: picked_def)

lemma dv_ok_away:
  assumes "dv_ok h1 (C(p := None))" and "m_dv h2 = m_dv h1" "m_dvsize h2 = m_dvsize h1"
    and "\<And>q u. q \<noteq> p \<Longrightarrow> C q = Some (u, Free) \<Longrightarrow> C2 q = Some (u, Free)"
  shows "dv_ok h2 C2"
  using assms unfolding dv_ok_def by (auto split: if_splits)

text \<open>The chunk is used as a whole.\<close>

lemma picked_whole:
  assumes "picked h C p s h1" and nb: "nb \<le> s" and h2: "h2 = set_inuse_and_pinuse p s h1"
  shows "allocated h C nb (chunk2mem p) h2"
proof -
  note d = pickedD [OF assms(1)]
  let ?C = "C(p \<mapsto> (s, Used))"
  have "((binned (m_dv h1) C)(p := None)) p = None" by simp
  note hole = take_free [OF d(1,3) this d(2)]
  note u = use_hole [OF hole(1,2,3) hole(5) h2, unfolded fun_upd_upd]
  have k: "m_dv h2 = m_dv h1" "m_dvsize h2 = m_dvsize h1" using keepsD(3,4) [OF u(3)] .
  have "dv_ok h2 ?C" by (rule dv_ok_away [OF d(4) k]) simp
  moreover have "(binned (m_dv h1) C)(p := None) = binned (m_dv h2) ?C" by (simp add: k binned_upd)
  ultimately have "heap_inv h2 ?C" by (rule work_end [OF u(1,4)])
  then show ?thesis
    unfolding allocated_def using d(6) nb same_data_trans [OF d(5) u(2)]
    by (intro exI [of _ ?C] exI [of _ p] exI [of _ s]) (simp add: used_of_upd)
qed

text \<open>The chunk is cut; the rest is free but in no bin yet.\<close>

lemma picked_cut:
  assumes "picked h C p s h1" and nb: "8 dvd unat nb" "16 \<le> unat nb" "unat nb + 16 \<le> unat s"
    and h2: "h2 = set_size_and_pinuse_of_free_chunk (p + nb) (s - nb) (set_size_and_pinuse_of_inuse_chunk p nb h1)"
  defines "C2 \<equiv> C(p \<mapsto> (nb, Used), p + nb \<mapsto> (s - nb, Free))"
  shows "work h2 C2 ((binned (m_dv h1) C)(p := None)) ((used_of C)(p \<mapsto> nb))" "same_data (used_of C) h h2" "keeps h1 h2" "settled C2"
    "C (p + nb) = None" "C2 (p + nb) = Some (s - nb, Free)" "p + nb \<noteq> p" "used_of C2 = (used_of C)(p \<mapsto> nb)"
proof -
  note d = pickedD [OF assms(1)]
  have "((binned (m_dv h1) C)(p := None)) p = None" by simp
  note hole = take_free [OF d(1,3) this d(2)]
  note c = cut_hole [OF hole(1-4) hole(5) nb h2, unfolded fun_upd_upd]
  have pr: "p + nb \<noteq> p" using nb by auto
  show "work h2 C2 ((binned (m_dv h1) C)(p := None)) ((used_of C)(p \<mapsto> nb))" "settled C2" using c(1,4) unfolding C2_def by blast+
  show "same_data (used_of C) h h2" using same_data_trans [OF d(5) c(2)] .
  show "keeps h1 h2" using c(3) .
  show r: "C (p + nb) = None" using c(5) pr by simp
  show "C2 (p + nb) = Some (s - nb, Free)" by (simp add: C2_def)
  show "p + nb \<noteq> p" using pr .
  show "used_of C2 = (used_of C)(p \<mapsto> nb)" using used_of_none [of C "p + nb"] r pr unfolding C2_def used_of_upd by auto
qed

text \<open>The rest becomes the designated victim; the old one goes into a bin.\<close>

lemma cut_replace_dv:
  assumes pk: "picked h C p s h1" and nb: "8 dvd unat nb" "16 \<le> unat nb" "unat nb + 16 \<le> unat s"
    and h2: "h2 = set_size_and_pinuse_of_free_chunk (p + nb) (s - nb) (set_size_and_pinuse_of_inuse_chunk p nb h1)"
    and small: "unat (m_dvsize h1) < 256"
  shows "\<exists>h3. replace_dv (p + nb) (s - nb) h2 = ret h3 \<and> allocated h C nb (chunk2mem p) h3"
proof -
  let ?r = "p + nb" and ?B = "(binned (m_dv h1) C)(p := None)" and ?V = "(used_of C)(p \<mapsto> nb)"
  let ?C = "C(p \<mapsto> (nb, Used), ?r \<mapsto> (s - nb, Free))"
  note d = pickedD [OF pk] and c = picked_cut [OF pk nb h2]
  have k: "m_dv h2 = m_dv h1" "m_dvsize h2 = m_dvsize h1" using keepsD(3,4) [OF c(3)] .
  have sn: "s - nb \<noteq> 0" using nb by auto
  define B3 where "B3 = (if m_dvsize h1 = 0 then ?B else ?B(m_dv h1 \<mapsto> m_dvsize h1))"
  have dvc: "C (m_dv h1) = Some (m_dvsize h1, Free)" "m_dv h1 \<noteq> p" if "m_dvsize h1 \<noteq> 0"
    using d(4) that by (auto simp: dv_ok_def split: if_splits)
  have "\<exists>h3. (if m_dvsize h2 \<noteq> 0 then insert_small_chunk (m_dv h2) (m_dvsize h2) h2 else ret h2) = ret h3 \<and>
    work h3 ?C B3 ?V \<and> same_data ?V h2 h3"
  proof (cases "m_dvsize h1 = 0")
    case True
    then show ?thesis using c(1) k by (simp add: B3_def same_data_refl)
  next
    case False
    have "m_dv h1 \<noteq> ?r" using dvc [OF False] c(5) by auto
    then have "?C (m_dv h1) = Some (m_dvsize h1, Free)" "?B (m_dv h1) = None" using dvc [OF False] by (simp_all add: binned_def)
    from work_insert [OF c(1) this] obtain h3 where "insert_chunk (m_dv h1) (m_dvsize h1) h2 = ret h3"
      "work h3 ?C (?B(m_dv h1 \<mapsto> m_dvsize h1)) ?V" "same_data ?V h2 h3" by blast
    then show ?thesis
      using False small unfolding k B3_def by (intro exI [of _ h3]) (simp add: insert_chunk_def small_iff(1) del: fun_upd_apply)
  qed
  then obtain h3 where h3: "(if m_dvsize h2 \<noteq> 0 then insert_small_chunk (m_dv h2) (m_dvsize h2) h2 else ret h2) = ret h3"
    "work h3 ?C B3 ?V" "same_data ?V h2 h3" by blast
  let ?h = "h3\<lparr>m_dvsize := s - nb, m_dv := ?r\<rparr>"
  have core: "same_core h3 ?h" by (simp add: same_core_def)
  note w4 = work_same_core [OF h3(2) core]
  have "B3 = binned ?r ?C"
  proof
    fix q
    have "C 0 = None" using tilesD(2) [OF workD(1) [OF d(1)], of 0] by (cases "C 0") (auto simp: area_def)
    moreover have "m_dvsize h1 = 0 \<Longrightarrow> m_dv h1 = 0" using d(4) by (simp add: dv_ok_def)
    ultimately show "B3 q = binned ?r ?C q"
      using dvc c(5,7) by (cases "q = p"; cases "q = ?r"; cases "q = m_dv h1") (auto simp: B3_def binned_def split: option.splits ckind.splits)
  qed
  moreover have "dv_ok ?h ?C" using sn by (simp add: dv_ok_def)
  ultimately have i: "heap_inv ?h ?C" using w4 by (intro work_end [OF _ c(4)]) auto
  have "used_of C p = None" by (rule d(6))
  then have "same_data (used_of C) h2 h3" using h3(3) unfolding same_data_def by (metis fun_upd_apply option.distinct(1))
  moreover have "same_data (used_of C) h3 ?h" by (simp add: same_data_def)
  ultimately have sd: "same_data (used_of C) h ?h" using same_data_trans [OF c(2)] same_data_trans by blast
  have "replace_dv ?r (s - nb) h2 = ret ?h" using h3(1) by (simp add: replace_dv_def)
  then show ?thesis
    unfolding allocated_def using i c(8) d(6) sd
    by (intro exI [of _ ?h] conjI exI [of _ ?C] exI [of _ p] exI [of _ nb]) simp_all
qed

text \<open>The rest goes into a bin.\<close>

lemma cut_insert:
  assumes pk: "picked h C p s h1" and nb: "8 dvd unat nb" "16 \<le> unat nb" "unat nb + 16 \<le> unat s"
    and h2: "h2 = set_size_and_pinuse_of_free_chunk (p + nb) (s - nb) (set_size_and_pinuse_of_inuse_chunk p nb h1)"
  shows "\<exists>h3. insert_chunk (p + nb) (s - nb) h2 = ret h3 \<and> allocated h C nb (chunk2mem p) h3"
proof -
  let ?r = "p + nb" and ?B = "(binned (m_dv h1) C)(p := None)" and ?V = "(used_of C)(p \<mapsto> nb)"
  let ?C = "C(p \<mapsto> (nb, Used), ?r \<mapsto> (s - nb, Free))"
  note d = pickedD [OF pk] and c = picked_cut [OF pk nb h2]
  have "?B ?r = None" using c(5,7) by (simp add: binned_def)
  then obtain h3 where h3: "insert_chunk ?r (s - nb) h2 = ret h3" "work h3 ?C (?B(?r \<mapsto> s - nb)) ?V" "same_data ?V h2 h3" "keeps h2 h3"
    using work_insert [OF c(1) c(6)] by blast
  have k: "m_dv h3 = m_dv h1" "m_dvsize h3 = m_dvsize h1" using keepsD(3,4) [OF h3(4)] keepsD(3,4) [OF c(3)] by simp_all
  have rd: "m_dv h1 \<noteq> ?r"
  proof
    assume e: "m_dv h1 = ?r"
    have "m_dvsize h1 = 0 \<or> C ?r \<noteq> None" using d(4) e c(7) by (auto simp: dv_ok_def split: if_splits)
    moreover have "?r \<noteq> 0" using tilesD(2) [OF workD(1) [OF c(1)] c(6)] by (auto simp: area_def)
    ultimately show False using d(4) e c(5) by (auto simp: dv_ok_def split: if_splits)
  qed
  have dv: "dv_ok h3 ?C" by (rule dv_ok_away [OF d(4) k]) (use c(5) in auto)
  have B: "?B(?r \<mapsto> s - nb) = binned (m_dv h3) ?C" using rd k c(7) by (auto simp: binned_upd)
  have i: "heap_inv h3 ?C" by (rule work_end [OF h3(2) c(4) dv B])
  have "same_data (used_of C) h2 h3" using h3(3) d(6) unfolding same_data_def by (metis fun_upd_apply option.distinct(1))
  then have sd: "same_data (used_of C) h h3" by (rule same_data_trans [OF c(2)])
  show ?thesis
    unfolding allocated_def using h3(1) i c(8) d(6) sd
    by (intro exI [of _ h3] conjI exI [of _ ?C] exI [of _ p] exI [of _ nb]) simp_all
qed

section \<open>The places where malloc looks\<close>

lemma allocated_nonzero:
  assumes "allocated h C nb a h'"
  shows "a \<noteq> 0"
proof -
  obtain C' p s where a: "a = chunk2mem p" and i: "heap_inv h' C'" and u: "used_of C' = (used_of C)(p \<mapsto> s)"
    using assms by (auto simp: allocated_def)
  have c: "C' p = Some (s, Used)" using u used_of_iff [of C' p s] by simp
  have "area h' p s" "16 \<le> unat s" using tilesD(2,3) [OF heap_invD(1) [OF i] c] by simp_all
  then have "unat (p + 8) = unat p + 8" by (auto simp: area_def unat_word_ariths)
  then show ?thesis unfolding a chunk2mem_def by auto
qed

lemma low_bit: "unat (NOT x AND 1) = (if bit x 0 then 0 else 1)" for x :: u32
proof -
  have "NOT x AND 1 = (if bit x 0 then 0 else 1)"
    by (rule bit_word_eqI) (auto simp: bit_simps bit_flags)
  then show ?thesis by simp
qed

lemma two_bits: "x AND 3 \<noteq> 0 \<longleftrightarrow> bit x 0 \<or> bit x 1" for x :: u32
proof
  assume "bit x 0 \<or> bit x 1"
  then have "bit (x AND 3) 0 \<or> bit (x AND 3) 1" unfolding bit_not_flags by auto
  then show "x AND 3 \<noteq> 0" by auto
next
  assume "x AND 3 \<noteq> 0"
  then obtain n where "bit (x AND 3) n" by (auto simp: bit_eq_iff)
  then show "bit x 0 \<or> bit x 1" unfolding bit_not_flags by (auto simp: less_2_cases_iff)
qed

lemma picked_small:
  assumes i: "heap_inv h C" and b: "bit (m_smallmap h) i"
  shows "\<exists>p s h1. fd h (smallbin_at h i) = p \<and> s = small_index2size i \<and> unat s = 8 * i \<and>
    unlink_first_small_chunk (smallbin_at h i) p i h = ret h1 \<and> picked h C p s h1 \<and> keeps h h1"
proof -
  have i32: "i < 32" using bit_imp_le_length [OF b] by simp
  note w = work_start [OF i]
  obtain p s h1 where h1: "fd h (smallbin_at h i) = p" "binned (m_dv h) C p = Some s" "s = small_index2size i" "unat s = 8 * i"
    "unlink_first_small_chunk (smallbin_at h i) p i h = ret h1" "bag h1 ((binned (m_dv h) C)(p := None))"
    "bin_step (bag_words h (binned (m_dv h) C)) h h1"
    using bag_unlink_first [OF workD(2) [OF w] chunks_ok_within [OF workD(1,3) [OF w]] i32 b] by blast
  then show ?thesis using picked_binned [OF i refl h1(2,6,7)] by blast
qed

lemma malloc_exact_gives:
  assumes i: "heap_inv h C" and nb: "8 dvd unat nb" "unat nb < 256"
    and b: "smallbits = drop_bit (small_index nb) (m_smallmap h)" "smallbits AND 3 \<noteq> 0"
  shows "gives h C nb (malloc_exact (small_index nb) smallbits h)"
proof -
  let ?i = "small_index nb + unat (NOT smallbits AND 1)"
  have "bit smallbits 0 \<or> bit smallbits 1" using b(2) by (simp only: two_bits)
  then have "bit (m_smallmap h) ?i" unfolding low_bit b(1) by (auto simp: bit_simps)
  then obtain p s h1 where h1: "fd h (smallbin_at h ?i) = p" "s = small_index2size ?i" "unat s = 8 * ?i"
    "unlink_first_small_chunk (smallbin_at h ?i) p ?i h = ret h1" "picked h C p s h1"
    using picked_small [OF i] by blast
  have "nb \<le> s" using h1(3) nb by (simp add: word_le_nat_alt small_iff(2))
  then have "allocated h C nb (chunk2mem p) (set_inuse_and_pinuse p s h1)" by (rule picked_whole [OF h1(5) _ refl])
  then show ?thesis using h1(1,2,4) by (simp add: gives_def malloc_exact_def Let_def)
qed

lemma malloc_next_bin_gives:
  assumes i: "heap_inv h C" and nb: "8 dvd unat nb" "16 \<le> unat nb" "unat nb < 256"
    and b: "smallbits = drop_bit (small_index nb) (m_smallmap h)" "smallbits AND 3 = 0" "smallbits \<noteq> 0"
    and dv: "m_dvsize h < nb"
  shows "gives h C nb (malloc_next_bin nb (small_index nb) smallbits h)"
proof -
  let ?idx = "small_index nb"
  define leftbits where "leftbits = push_bit ?idx smallbits AND left_bits (idx2bit ?idx)"
  define j where "j = compute_bit2idx (least_bit leftbits)"
  have idx: "?idx < 32" by (rule small_iff(3) [OF nb(3)])
  have no: "\<not> bit smallbits 0" "\<not> bit smallbits 1" using b(2) two_bits [of smallbits] by auto
  have lb: "bit leftbits n \<longleftrightarrow> ?idx + 2 \<le> n \<and> bit (m_smallmap h) n" for n
  proof -
    have "bit leftbits n \<longleftrightarrow> ?idx < n \<and> n < 32 \<and> bit smallbits (n - ?idx)"
      unfolding leftbits_def bit_and_iff left_bits_single [OF idx] by (auto simp: bit_simps)
    also have "\<dots> \<longleftrightarrow> ?idx + 2 \<le> n \<and> n < 32 \<and> bit smallbits (n - ?idx)"
      using no by (cases "n - ?idx = 1") auto
    finally show ?thesis using bit_imp_le_length [of "m_smallmap h" n] unfolding b(1) by (auto simp: bit_simps)
  qed
  obtain n where n: "bit smallbits n" using b(3) by (auto simp: bit_eq_iff)
  have "n \<noteq> 0" "n \<noteq> 1" using n no by metis+
  then have "bit leftbits (?idx + n)" unfolding lb using n by (simp add: b(1) bit_simps add.commute)
  then have "leftbits \<noteq> 0" by auto
  then have "bit leftbits j" by (rule least_bit_index(2)) (simp add: j_def)
  then have j: "?idx + 2 \<le> j" "bit (m_smallmap h) j" by (simp_all add: lb)
  obtain p s h1 where h1: "fd h (smallbin_at h j) = p" "s = small_index2size j" "unat s = 8 * j"
    "unlink_first_small_chunk (smallbin_at h j) p j h = ret h1" "picked h C p s h1" "keeps h h1"
    using picked_small [OF i j(2)] by blast
  have room: "unat nb + 16 \<le> unat s" using h1(3) j(1) nb(1) by (auto simp: small_iff(2) elim!: dvdE)
  have "unat (m_dvsize h1) < 256" using keepsD(4) [OF h1(6)] dv nb(3) by (simp add: word_less_nat_alt)
  then obtain h3 where "replace_dv (p + nb) (s - nb)
      (set_size_and_pinuse_of_free_chunk (p + nb) (s - nb) (set_size_and_pinuse_of_inuse_chunk p nb h1)) = ret h3"
    "allocated h C nb (chunk2mem p) h3"
    using cut_replace_dv [OF h1(5) nb(1,2) room refl] by blast
  then show ?thesis
    using h1(1,2,4) unfolding gives_def malloc_next_bin_def Let_def leftbits_def [symmetric] j_def [symmetric] by simp
qed

text \<open>A chunk of a tree.\<close>

lemma chunk_size_of:
  assumes "tiles h C" and "C v = Some (s, Free)"
  shows "chunksize h v = s"
proof -
  have "8 dvd unat s" using tilesD(2) [OF assms] by (simp add: area_def)
  then show ?thesis using tilesD(3) [OF assms] head_of_size [of s True False] by (simp add: chunksize_def flag_masks)
qed

lemma picked_large:
  assumes i: "heap_inv h C" and v: "v \<in> large_part (binned (m_dv h) C)"
  shows "\<exists>s h1. chunksize h v = s \<and> 256 \<le> unat s \<and> C v = Some (s, Free) \<and> ok_address h v \<and>
    unlink_large_chunk v h = ret h1 \<and> picked h C v s h1 \<and> keeps h h1"
proof -
  note w = work_start [OF i]
  obtain u where u: "binned (m_dv h) C v = Some u" "256 \<le> unat u" using v by (auto simp: large_part_def)
  have c: "C v = Some (u, Free)" using u(1) by (simp add: binned_iff)
  have e: "chunksize h v = u" by (rule chunk_size_of [OF workD(1) [OF w] c])
  have "ok_address h v" using tilesD(2) [OF workD(1) [OF w] c] by (simp add: area_def ok_address_def)
  moreover obtain h1 where h1: "unlink_large_chunk v h = ret h1" "bag h1 ((binned (m_dv h) C)(v := None))"
    "bin_step (bag_words h (binned (m_dv h) C)) h h1"
    using bag_unlink_large [OF workD(2) [OF w] chunks_ok_within [OF workD(1,3) [OF w]] u] by blast
  ultimately show ?thesis using picked_binned [OF i refl u(1) h1(2,3)] u(2) c e by auto
qed

lemma free_end_after:
  assumes "tiles h C" and "C v = Some (s, k)" and "unat nb \<le> unat s" and "0 < unat nb"
  shows "ok_next v (v + nb)"
proof -
  have "unat v + unat nb < 2 ^ 32" using tilesD(2) [OF assms(1,2)] assms(3) by (auto simp: area_def)
  then have "unat (v + nb) = unat v + unat nb" by (simp add: unat_word_ariths)
  then show ?thesis using assms(4) by (simp add: ok_next_def word_less_nat_alt)
qed

lemma rest_size:
  assumes "8 dvd unat s" and "8 dvd unat nb" and "nb \<le> s" and "\<not> s - nb < MIN_CHUNK_SIZE"
  shows "unat nb + 16 \<le> unat s"
  using assms(3,4) by (simp add: malloc_constants word_le_nat_alt word_less_nat_alt unat_sub)

lemma tmalloc_small_gives:
  assumes i: "heap_inv h C" and nb: "8 dvd unat nb" "16 \<le> unat nb" "unat nb < 256"
    and b: "m_treemap h \<noteq> 0" and dv: "m_dvsize h < nb"
  shows "gives h C nb (tmalloc_small nb h)"
proof -
  note t = heap_invD(1) [OF i]
  define j where "j = compute_bit2idx (least_bit (m_treemap h))"
  have j: "j < 32" "bit (m_treemap h) j" using least_bit_index(1,2) [OF b] by (simp_all add: j_def)
  obtain N rk U slot where ok: "tree_ok (tree_view U h) N rk slot" "N \<subseteq> U" and N: "N \<subseteq> large_part (binned (m_dv h) C)"
    and slots: "\<And>i. i < 32 \<Longrightarrow> bit (m_treemap h) i \<longleftrightarrow> words h (treebin_at h i) \<noteq> 0"
      "\<And>i. i < 32 \<Longrightarrow> words h (treebin_at h i) = 0 \<or> words h (treebin_at h i) \<in> N"
    by (rule bag_trees [OF heap_invD(4) [OF i]]) (rule that; assumption)
  define x where "x = words h (treebin_at h j)"
  have x: "x \<in> N" using slots(1,2) [OF j(1)] j(2) by (auto simp: x_def)
  have "leftmost_child h x = 0 \<or> leftmost_child h x \<in> N" using leftmost_child_cases [OF ok x] by blast
  from tmalloc_smallest_ends [OF ok this, of nb x "chunksize h x - nb"]
  obtain v rsize where run: "tmalloc_smallest h nb x (chunksize h x - nb) (leftmost_child h x) = Some (v, rsize)"
    "better h N nb (x, chunksize h x - nb) (v, rsize)"
    by auto
  have v: "v \<in> N" "rsize = chunksize h v - nb" using run(2) x by (auto simp: better_def)
  obtain s h1 where h1: "chunksize h v = s" "256 \<le> unat s" "C v = Some (s, Free)" "ok_address h v" "unlink_large_chunk v h = ret h1"
    "picked h C v s h1" "keeps h h1" using picked_large [OF i] v(1) N by blast
  have le: "nb \<le> s" using h1(2) nb(3) by (simp add: word_le_nat_alt)
  have nx: "ok_next v (v + nb)" by (rule free_end_after [OF t h1(3)]) (use h1(2) nb in simp_all)
  have s8: "8 dvd unat s" using tilesD(2) [OF t h1(3)] by (simp add: area_def)
  have "gives h C nb (bindR (if rsize < MIN_CHUNK_SIZE then ret (set_inuse_and_pinuse v (rsize + nb) h1)
      else replace_dv (v + nb) rsize (set_size_and_pinuse_of_free_chunk (v + nb) rsize (set_size_and_pinuse_of_inuse_chunk v nb h1)))
      (\<lambda>h. ret (chunk2mem v, h)))"
  proof (cases "rsize < MIN_CHUNK_SIZE")
    case True
    then show ?thesis using picked_whole [OF h1(6) le refl] v(2) h1(1) by (simp add: gives_def)
  next
    case False
    then have "unat nb + 16 \<le> unat s" using rest_size [OF s8 nb(1) le] v(2) h1(1) by simp
    moreover have "unat (m_dvsize h1) < 256" using keepsD(4) [OF h1(7)] dv nb(3) by (simp add: word_less_nat_alt)
    ultimately obtain h3 where "replace_dv (v + nb) (s - nb)
        (set_size_and_pinuse_of_free_chunk (v + nb) (s - nb) (set_size_and_pinuse_of_inuse_chunk v nb h1)) = ret h3"
      "allocated h C nb (chunk2mem v) h3"
      using cut_replace_dv [OF h1(6) nb(1,2) _ refl] by blast
    then show ?thesis using False v(2) h1(1) by (simp add: gives_def)
  qed
  then show ?thesis
    unfolding tmalloc_small_def Let_def j_def [symmetric] x_def [symmetric] run(1) using h1(4,5) nx by simp
qed

lemma better_fits:
  assumes "better h N nb (0, - nb) (v, r)" and "v \<noteq> 0" and "nb \<noteq> 0"
  shows "v \<in> N" "r = chunksize h v - nb" "nb \<le> chunksize h v"
proof -
  show v: "v \<in> N" "r = chunksize h v - nb" using assms by (auto simp: better_def)
  have "chunksize h v - nb < - nb" using assms v by (auto simp: better_def)
  moreover have "unat nb \<noteq> 0" using assms(3) by (simp add: unat_eq_zero)
  then have "unat (- nb) = 2 ^ 32 - unat nb" using unat_sub_if' [of 0 nb] by simp
  ultimately have "unat (chunksize h v - nb) + unat nb < 2 ^ 32" by (simp add: word_less_nat_alt)
  then have "unat (chunksize h v) = unat (chunksize h v - nb) + unat nb"
    using unat_word_ariths(1) [of "chunksize h v - nb" nb] by simp
  then show "nb \<le> chunksize h v" by (simp add: word_le_nat_alt)
qed

lemma tree_index_bound:
  assumes "256 \<le> unat s"
  shows "compute_tree_index s < 32"
  using assms by (cases rule: tree_index_cases) auto

lemma tmalloc_large_gives:
  assumes i: "heap_inv h C" and nb: "8 dvd unat nb" "256 \<le> unat nb"
  shows "gives h C nb (tmalloc_large nb h) \<or> tmalloc_large nb h = ret (0, h)"
proof -
  note t = heap_invD(1) [OF i]
  define idx where "idx = compute_tree_index nb"
  define x where "x = words h (treebin_at h idx)"
  have idx: "idx < 32" using tree_index_bound [OF nb(2)] by (simp add: idx_def)
  have nb0: "nb \<noteq> 0" using nb by auto
  obtain N rk U slot where ok: "tree_ok (tree_view U h) N rk slot" "N \<subseteq> U" and N: "N \<subseteq> large_part (binned (m_dv h) C)"
    and "\<And>i. i < 32 \<Longrightarrow> bit (m_treemap h) i \<longleftrightarrow> words h (treebin_at h i) \<noteq> 0"
    and slots: "\<And>i. i < 32 \<Longrightarrow> words h (treebin_at h i) = 0 \<or> words h (treebin_at h i) \<in> N"
    by (rule bag_trees [OF heap_invD(4) [OF i]]) (rule that; assumption)
  obtain v1 r1 t1 where d: "(if x \<noteq> 0 then tmalloc_descend h nb 0 (- nb) x 0 (push_bit (leftshift_for_tree_index idx) nb)
      else Some (0, - nb, 0)) = Some (v1, r1, t1)" "better h N nb (0, - nb) (v1, r1)" "t1 = 0 \<or> t1 \<in> N"
  proof (cases "x = 0")
    case True
    then show thesis using that [of 0 "- nb" 0] by (simp add: better_def)
  next
    case False
    then have "x \<in> N" using slots [OF idx] by (auto simp: x_def)
    then show thesis using tmalloc_descend_ends [OF ok, of x 0 nb 0 "- nb"] False that by fastforce
  qed
  define leftbits where "leftbits = left_bits (idx2bit idx) AND m_treemap h"
  define t2 where "t2 = (if t1 = 0 \<and> v1 = 0 \<and> leftbits \<noteq> 0 then words h (treebin_at h (compute_bit2idx (least_bit leftbits))) else t1)"
  have "t2 = 0 \<or> t2 \<in> N"
    using d(3) slots [OF least_bit_index(1) [OF _ refl, of leftbits]] by (auto simp: t2_def)
  from tmalloc_smallest_ends [OF ok this, of nb v1 r1]
  obtain v rsize where run: "tmalloc_smallest h nb v1 r1 t2 = Some (v, rsize)" "better h N nb (v1, r1) (v, rsize)" by auto
  have eq: "tmalloc_large nb h =
    (if v \<noteq> 0 \<and> rsize < m_dvsize h - nb then
       if ok_address h v \<and> ok_next v (v + nb) then
         bindR (unlink_large_chunk v h) (\<lambda>h. bindR
           (if rsize < MIN_CHUNK_SIZE then ret (set_inuse_and_pinuse v (rsize + nb) h)
            else insert_chunk (v + nb) rsize (set_size_and_pinuse_of_free_chunk (v + nb) rsize (set_size_and_pinuse_of_inuse_chunk v nb h)))
           (\<lambda>h. ret (chunk2mem v, h)))
       else abort
     else ret (0, h))"
    unfolding tmalloc_large_def Let_def idx_def [symmetric] x_def [symmetric] d(1)
    by (simp only: Option.bind.bind_lunit prod.case leftbits_def [symmetric] t2_def [symmetric] run(1))
  show ?thesis
  proof (cases "v \<noteq> 0 \<and> rsize < m_dvsize h - nb")
    case True
    note f = better_fits [OF better_trans [OF d(2) run(2)] conjunct1 [OF True] nb0]
    obtain s h1 where h1: "chunksize h v = s" "256 \<le> unat s" "C v = Some (s, Free)" "ok_address h v" "unlink_large_chunk v h = ret h1"
      "picked h C v s h1" "keeps h h1" using picked_large [OF i] f(1) N by blast
    have le: "nb \<le> s" using f(3) h1(1) by simp
    have nx: "ok_next v (v + nb)"
      by (rule free_end_after [OF t h1(3)]) (use le nb in \<open>simp_all add: word_le_nat_alt\<close>)
    have s8: "8 dvd unat s" using tilesD(2) [OF t h1(3)] by (simp add: area_def)
    have "gives h C nb (tmalloc_large nb h)"
    proof (cases "rsize < MIN_CHUNK_SIZE")
      case small: True
      then show ?thesis using picked_whole [OF h1(6) le refl] f(2) h1(1,4,5) True nx by (simp add: eq gives_def)
    next
      case False
      then have "unat nb + 16 \<le> unat s" using rest_size [OF s8 nb(1) le] f(2) h1(1) by simp
      moreover have "16 \<le> unat nb" using nb(2) by simp
      ultimately obtain h3 where "insert_chunk (v + nb) (s - nb)
          (set_size_and_pinuse_of_free_chunk (v + nb) (s - nb) (set_size_and_pinuse_of_inuse_chunk v nb h1)) = ret h3"
        "allocated h C nb (chunk2mem v) h3"
        using cut_insert [OF h1(6) nb(1) _ _ refl] by blast
      then show ?thesis using False f(2) h1(1,4,5) True nx by (simp add: eq gives_def)
    qed
    then show ?thesis ..
  next
    case False
    then show ?thesis unfolding eq if_not_P [OF False] by simp
  qed
qed

section \<open>The designated victim and the top chunk\<close>

lemma split_dv_gives:
  assumes i: "heap_inv h C" and nb: "8 dvd unat nb" "16 \<le> unat nb" and fits: "nb \<le> m_dvsize h"
  shows "gives h C nb (ret (split_dv nb h))"
proof -
  let ?p = "m_dv h" and ?s = "m_dvsize h"
  have d0: "?s \<noteq> 0" using fits nb by (auto simp: word_le_nat_alt)
  note dv = heap_dv [OF i d0] and t = heap_invD(1) [OF i]
  have s8: "8 dvd unat ?s" using tilesD(2) [OF t dv(1)] by (simp add: area_def)
  show ?thesis
  proof (cases "MIN_CHUNK_SIZE \<le> ?s - nb")
    case False
    then show ?thesis
      using picked_whole [OF picked_dv [OF i d0] fits refl] by (simp add: gives_def split_dv_def Let_def)
  next
    case True
    then have room: "unat nb + 16 \<le> unat ?s" using rest_size [OF s8 nb(1) fits] by simp
    let ?r = "?p + nb" and ?C = "C(?p \<mapsto> (nb, Used), ?p + nb \<mapsto> (?s - nb, Free))"
    define h1 where "h1 = h\<lparr>m_dv := ?r, m_dvsize := ?s - nb\<rparr>"
    define h2 where "h2 = set_size_and_pinuse_of_free_chunk ?r (?s - nb) (set_size_and_pinuse_of_inuse_chunk ?p nb h1)"
    have sp: "split_dv nb h = (chunk2mem ?p, h2)"
      using True cut_order [OF t dv(1) nb room, of h1] by (simp add: split_dv_def Let_def h1_def h2_def)
    have B: "binned ?p C ?p = None" by (simp add: binned_def dv(1))
    have u: "used_of C ?p = None" by (rule used_of_none [of C ?p ?s Free]) (simp add: dv(1))
    have "same_core h h1" by (simp add: same_core_def h1_def)
    note w1 = work_same_core [OF work_start [OF i] this]
    note hole = take_free [OF conjunct1 [OF w1] dv(1) B heap_invD(2) [OF i]]
    note c = cut_hole [OF hole(1-4) hole(5) nb room h2_def, unfolded fun_upd_upd]
    have pr: "?r \<noteq> ?p" using nb by auto
    have r: "C ?r = None" using c(5) pr by simp
    have k: "m_dv h2 = ?r" "m_dvsize h2 = ?s - nb" using keepsD(3,4) [OF c(3)] by (simp_all add: h1_def)
    have "binned ?p C = binned (m_dv h2) ?C"
      unfolding k by (rule ext) (use r pr dv(1) in \<open>auto simp: binned_def split: option.splits ckind.splits\<close>)
    moreover have "dv_ok h2 ?C" using room by (auto simp: dv_ok_def k)
    ultimately have inv: "heap_inv h2 ?C" by (intro work_end [OF c(1,4)])
    have "used_of ?C = (used_of C)(?p \<mapsto> nb)" using used_of_none [of C ?r] r pr unfolding used_of_upd by auto
    then have "allocated h C nb (chunk2mem ?p) h2"
      unfolding allocated_def using inv u same_data_trans [OF conjunct2 [OF w1] c(2)]
      by (intro exI [of _ ?C] exI [of _ ?p] exI [of _ nb]) simp
    then show ?thesis by (simp add: gives_def sp)
  qed
qed

lemma split_top_gives:
  assumes i: "heap_inv h C" and nb: "8 dvd unat nb" "16 \<le> unat nb" and fits: "nb < m_topsize h"
  shows "gives h C nb (ret (split_top nb h))"
proof -
  note t = heap_invD(1) [OF i]
  let ?p = "m_top h" and ?r = "m_top h + nb"
  let ?C = "C(?p \<mapsto> (nb, Used), ?r \<mapsto> (m_topsize h - nb + 40, Top))"
  obtain a h' where sp: "split_top nb h = (a, h')" by fastforce
  have n: "unat nb < unat (m_topsize h)" using fits by (simp add: word_less_nat_alt)
  note w = work_split_top [OF work_start [OF i] nb n sp]
  note tc = top_chunk [OF t]
  have pr: "?r \<noteq> ?p" using nb by auto
  have r: "C ?r = None" using no_chunk_inside [OF t tc(1), of nb] nb n tc(2) by simp
  have u: "used_of C ?p = None" "used_of C ?r = None" using used_of_none [of C ?p _ Top] used_of_none [of C ?r] tc(1) r by auto
  have "settled ?C" using heap_invD(2) [OF i] by (auto simp: settled_def)
  moreover have "dv_ok h' ?C"
    using heap_invD(3) [OF i] w tc(1) r by (auto simp: dv_ok_def split: if_splits)
  moreover have "binned (m_dv h) C = binned (m_dv h') ?C"
    using w by (intro ext) (auto simp: binned_def tc(1) r pr split: option.splits ckind.splits)
  ultimately have inv: "heap_inv h' ?C" using w by (intro work_end) auto
  have "used_of ?C = (used_of C)(?p \<mapsto> nb)" using u pr unfolding used_of_upd by auto
  then show ?thesis
    unfolding gives_def allocated_def sp using inv u w
    by (intro exI [of _ a] exI [of _ h'] conjI refl exI [of _ ?C] exI [of _ ?p] exI [of _ nb]) auto
qed

lemma malloc_dv_top_sys_gives:
  assumes i: "heap_inv h C" and nb: "8 dvd unat nb" "16 \<le> unat nb"
  shows "gives h C nb (malloc_dv_top_sys nb h) \<or> m_topsize h \<le> nb \<and> malloc_dv_top_sys nb h = sys_alloc nb h"
  using split_dv_gives [OF i nb] split_top_gives [OF i nb] by (auto simp: malloc_dv_top_sys_def not_le)

section \<open>malloc\<close>

lemma dlmalloc_gives:
  assumes i: "heap_inv h C" and b: "bytes < MAX_REQUEST"
  shows "gives h C (request2size bytes) (dlmalloc bytes h) \<or>
    m_topsize h \<le> request2size bytes \<and> dlmalloc bytes h = sys_alloc (request2size bytes) h"
proof -
  define nb where "nb = request2size bytes"
  have nb: "8 dvd unat nb" "16 \<le> unat nb" "unat bytes \<le> 244 \<longleftrightarrow> unat nb < 256"
    unfolding nb_def unat_request2size [OF b] by auto
  note last = malloc_dv_top_sys_gives [OF i nb(1,2)]
  have nz: "gives h C nb (bindR m (\<lambda>(mem, h). if mem \<noteq> 0 then ret (mem, h) else k h))" if "gives h C nb m" for m k
    using that allocated_nonzero by (fastforce simp: gives_def)
  show ?thesis
  proof (cases "bytes \<le> MAX_SMALL_REQUEST")
    case True
    then have small: "unat nb < 256" using nb(3) by (simp add: max_small_request word_le_nat_alt)
    have eq: "(if bytes < MIN_REQUEST then MIN_CHUNK_SIZE else pad_request bytes) = nb" by (simp add: nb_def request2size_def)
    let ?bits = "drop_bit (small_index nb) (m_smallmap h)"
    consider "?bits AND 3 \<noteq> 0" | "?bits AND 3 = 0" "m_dvsize h < nb" "?bits \<noteq> 0"
      | "?bits AND 3 = 0" "m_dvsize h < nb" "?bits = 0" "m_treemap h \<noteq> 0"
      | "?bits AND 3 = 0" "\<not> (m_dvsize h < nb \<and> (?bits \<noteq> 0 \<or> m_treemap h \<noteq> 0))" by blast
    then show ?thesis
    proof cases
      case 1
      then show ?thesis using malloc_exact_gives [OF i nb(1) small refl] True eq by (simp add: dlmalloc_def Let_def nb_def [symmetric])
    next
      case 2
      then show ?thesis
        using malloc_next_bin_gives [OF i nb(1,2) small refl] True eq by (simp add: dlmalloc_def Let_def nb_def [symmetric])
    next
      case 3
      then show ?thesis
        using nz [OF tmalloc_small_gives [OF i nb(1,2) small], of "malloc_dv_top_sys nb"] True eq
        by (simp add: dlmalloc_def Let_def nb_def [symmetric])
    next
      case 4
      then have "dlmalloc bytes h = malloc_dv_top_sys nb h" using True eq by (auto simp: dlmalloc_def Let_def)
      then show ?thesis using last by (simp add: nb_def)
    qed
  next
    case False
    then have large: "256 \<le> unat nb" using nb(3) by (simp add: max_small_request word_le_nat_alt)
    have eq: "pad_request bytes = nb"
      using False by (auto simp: nb_def request2size_def malloc_constants word_less_nat_alt word_le_nat_alt)
    have lim: "\<not> MAX_REQUEST \<le> bytes" using b by simp
    show ?thesis
    proof (cases "m_treemap h = 0")
      case True
      then have "dlmalloc bytes h = malloc_dv_top_sys nb h" using False eq lim by (simp add: dlmalloc_def Let_def)
      then show ?thesis using last by (simp add: nb_def)
    next
      case t: False
      have e: "dlmalloc bytes h = bindR (tmalloc_large nb h) (\<lambda>(mem, h). if mem \<noteq> 0 then ret (mem, h) else malloc_dv_top_sys nb h)"
        using t False eq lim by (simp add: dlmalloc_def Let_def)
      from tmalloc_large_gives [OF i nb(1) large] show ?thesis
      proof
        assume "gives h C nb (tmalloc_large nb h)"
        then show ?thesis using nz unfolding e nb_def by blast
      next
        assume "tmalloc_large nb h = ret (0, h)"
        then show ?thesis using last unfolding e nb_def by simp
      qed
    qed
  qed
qed

end
