(* ===== verification/MallocFree.thy ===== *)
theory MallocFree
  imports MallocAlloc
begin

text \<open>
  \<^verbatim>\<open>free\<close> of \<^verbatim>\<open>malloc.c\<close> on a heap that keeps the invariant: the chunk is joined with its free neighbours
  and goes into a bin, to the designated victim or to the top chunk; all other users keep their chunks.
\<close>

section \<open>What a release does\<close>

definition freed :: "heap \<Rightarrow> (u32 \<rightharpoonup> u32) \<Rightarrow> heap \<Rightarrow> bool" where
  "freed h V h' \<longleftrightarrow> (\<exists>C'. heap_inv h' C' \<and> used_of C' = V \<and> same_data V h h')"

text \<open>The chunk is out of use: a hole at \<open>q\<close> that may have been joined with what is before it. It is the
  designated victim only if a free chunk or the top chunk follows.\<close>

definition freeing :: "heap \<Rightarrow> (u32 \<rightharpoonup> u32) \<Rightarrow> heap \<Rightarrow> row \<Rightarrow> u32 \<Rightarrow> u32 \<Rightarrow> bool" where
  "freeing h V h1 C q s \<longleftrightarrow>
     work h1 C (binned (m_dv h1) C) V \<and> used_of C = V \<and> same_data V h h1 \<and>
     C q = Some (s, Hole False) \<and> \<not> prev_free C q \<and> (\<forall>r u b. r \<noteq> q \<longrightarrow> C r \<noteq> Some (u, Hole b)) \<and>
     (if m_dv h1 = q then next_is C (q + s) (\<lambda>k. k = Free \<or> k = Top) else dv_ok h1 C)"

lemma freeingD:
  assumes "freeing h V h1 C q s"
  shows "work h1 C (binned (m_dv h1) C) V" "used_of C = V" "same_data V h h1" "C q = Some (s, Hole False)"
    "\<not> prev_free C q" "\<forall>r u b. r \<noteq> q \<longrightarrow> C r \<noteq> Some (u, Hole b)"
    "m_dv h1 = q \<Longrightarrow> next_is C (q + s) (\<lambda>k. k = Free \<or> k = Top)" "m_dv h1 \<noteq> q \<Longrightarrow> dv_ok h1 C"
  using assms by (auto simp: freeing_def)

text \<open>A free chunk at \<open>q\<close> that is in no bin yet.\<close>

definition loose :: "heap \<Rightarrow> (u32 \<rightharpoonup> u32) \<Rightarrow> heap \<Rightarrow> row \<Rightarrow> u32 \<Rightarrow> u32 \<Rightarrow> bool" where
  "loose h V h1 C q s \<longleftrightarrow>
     work h1 C ((binned (m_dv h1) C)(q := None)) V \<and> used_of C = V \<and> same_data V h h1 \<and> settled C \<and>
     C q = Some (s, Free) \<and> m_dv h1 \<noteq> q \<and> dv_ok h1 C"

lemma loose_insert:
  assumes "loose h V h1 C q s"
  shows "\<exists>h2. insert_chunk q s h1 = ret h2 \<and> freed h V h2 \<and> keeps h1 h2"
proof -
  let ?B = "(binned (m_dv h1) C)(q := None)"
  have l: "work h1 C ?B V" "used_of C = V" "same_data V h h1" "settled C" "C q = Some (s, Free)" "m_dv h1 \<noteq> q" "dv_ok h1 C"
    using assms by (simp_all add: loose_def)
  have "?B q = None" by simp
  then obtain h2 where h2: "insert_chunk q s h1 = ret h2" "work h2 C (?B(q \<mapsto> s)) V" "same_data V h1 h2" "keeps h1 h2"
    using work_insert [OF l(1,5)] by blast
  have "?B(q \<mapsto> s) = binned (m_dv h2) C" using l(5,6) keepsD(3) [OF h2(4)] by (auto simp: binned_def fun_eq_iff)
  moreover have "dv_ok h2 C" using l(7) keepsD(3,4) [OF h2(4)] by (simp add: dv_ok_def)
  ultimately have "heap_inv h2 C" by (intro work_end [OF h2(2) l(4)])
  then show ?thesis using h2(1,4) l(2) same_data_trans [OF l(3) h2(3)] by (auto simp: freed_def)
qed

text \<open>Fields that the invariant does not use.\<close>

lemma freed_same_core:
  assumes f: "freed h V h1" and s: "same_core h1 h2" "m_dv h2 = m_dv h1" "m_dvsize h2 = m_dvsize h1"
  shows "freed h V h2"
proof -
  obtain C where C: "heap_inv h1 C" "used_of C = V" "same_data V h h1" using f by (auto simp: freed_def)
  note w = work_same_core [OF work_start [OF C(1)] s(1)]
  have "dv_ok h2 C" using heap_invD(3) [OF C(1)] s by (simp add: dv_ok_def)
  then have "heap_inv h2 C" using w s(2) heap_invD(2) [OF C(1)] by (intro work_end) auto
  then show ?thesis using C(2) same_data_trans [OF C(3)] w by (auto simp: freed_def)
qed

section \<open>The chunk that follows\<close>

lemma binned_self [simp]: "binned d C d = None"
  by (simp add: binned_def split: option.splits ckind.splits)

lemma both_flags: "x AND 2 \<noteq> 0 \<Longrightarrow> x AND 1 \<noteq> 0 \<Longrightarrow> x AND 3 = 3" for x :: u32
proof (rule bit_word_eqI)
  fix n assume a: "x AND 2 \<noteq> 0" "x AND 1 \<noteq> 0"
  obtain m where "bit (x AND 2) m" using a(1) by (auto simp: bit_eq_iff)
  then have "bit x 1" unfolding bit_not_flags by auto
  moreover obtain m where "bit (x AND 1) m" using a(2) by (auto simp: bit_eq_iff)
  then have "bit x 0" unfolding bit_not_flags by auto
  ultimately show "bit (x AND 3) n \<longleftrightarrow> bit (3 :: u32) n" unfolding bit_not_flags bit_flags by (cases "n = 0"; cases "n = 1") auto
qed

text \<open>The flags of a chunk that no free one precedes.\<close>

lemma plain_flags:
  assumes t: "tiles h C" and n: "C n = Some (u, k)" and np: "\<not> prev_free C n" and kinds: "\<And>b. k \<noteq> Hole b"
  shows "pinuse h n" "cinuse h n \<longleftrightarrow> k = Used \<or> k = Fence" "n = m_top h \<longleftrightarrow> k = Top"
proof -
  have u8: "8 dvd unat u" using tilesD(2) [OF t n] by (simp add: area_def)
  note fl = head_of_flags(1,2) [OF u8] head_of_flags(1,2) [OF top_chunk(5) [OF t]] and ok = tilesD(3) [OF t n]
  have "pinuse h n \<and> (cinuse h n \<longleftrightarrow> k = Used \<or> k = Fence)"
  proof (cases k)
    case Used then show ?thesis using ok np fl(1,2) [of True True] by (simp add: pinuse_def cinuse_def flag_masks)
  next
    case Free then show ?thesis using ok fl(1,2) [of True False] by (simp add: pinuse_def cinuse_def flag_masks)
  next
    case Top
    then have "head h n = head_of (m_topsize h) True False" using ok unfolding Top kind_ok.simps by blast
    then show ?thesis using Top fl(3,4) [of True False] by (simp add: pinuse_def cinuse_def flag_masks)
  next
    case Fence then show ?thesis using ok np by (simp add: pinuse_def cinuse_def flag_masks)
  qed (use kinds in simp)
  then show "pinuse h n" "cinuse h n \<longleftrightarrow> k = Used \<or> k = Fence" by simp_all
  show "n = m_top h \<longleftrightarrow> k = Top"
    using ok top_chunk(1) [OF t] n by (cases k) auto
qed

lemma hole_flags:
  assumes f: "freeing h V h1 C q s" and n: "C (q + s) = Some (u, k)"
  shows "pinuse h1 (q + s)" "k = Used \<or> k = Free \<or> k = Top \<or> k = Fence" "cinuse h1 (q + s) \<longleftrightarrow> k = Used \<or> k = Fence"
    "q + s = m_top h1 \<longleftrightarrow> k = Top" "ok_next q (q + s)"
proof -
  note d = freeingD [OF f] and t = workD(1) [OF freeingD(1) [OF f]]
  have "q + s \<noteq> q" by (rule chunk_ends_off(1) [OF t d(4)])
  then have k: "k \<noteq> Hole b" for b using d(6) n by auto
  then show "k = Used \<or> k = Free \<or> k = Top \<or> k = Fence" by (cases k) auto
  have np: "\<not> prev_free C (q + s)" using prev_free_end [OF t d(4)] by simp
  note fl = plain_flags [OF t n np k]
  then show "pinuse h1 (q + s)" "cinuse h1 (q + s) \<longleftrightarrow> k = Used \<or> k = Fence" "q + s = m_top h1 \<longleftrightarrow> k = Top" .
  show "ok_next q (q + s)"
    by (rule free_end_after [OF t d(4)]) (use tilesD(2) [OF t d(4)] in \<open>auto simp: area_def\<close>)
qed

text \<open>Only the chunk at \<open>q\<close> changes its kind.\<close>

lemma settle_hole:
  assumes "\<forall>r u b. r \<noteq> q \<longrightarrow> C r \<noteq> Some (u, Hole b)" and "\<And>b. k \<noteq> Hole b"
  shows "settled (C(q \<mapsto> (s, k)))"
  using assms by (simp add: settled_def)

text \<open>A used chunk or a fence follows.\<close>

lemma forward_used:
  assumes f: "freeing h V h1 C q s" and n: "C (q + s) = Some (u, k)" "k = Used \<or> k = Fence"
    and h2: "h2 = set_free_with_pinuse q s (q + s) h1"
  shows "loose h V h2 (C(q \<mapsto> (s, Free))) q s \<and> keeps h1 h2"
proof -
  note d = freeingD [OF f]
  let ?C = "C(q \<mapsto> (s, Free))"
  have "next_is C (q + s) (\<lambda>k. k = Used \<or> k = Fence)" using n by (simp add: next_is_def)
  then have w: "work h2 ?C (binned (m_dv h1) C) V" "same_data V h1 h2" "keeps h1 h2"
    using work_free [OF d(1,4,5)] h2 by blast+
  have q: "m_dv h1 \<noteq> q" using d(7) n by (auto simp: next_is_def)
  have "(binned (m_dv h2) ?C)(q := None) = binned (m_dv h1) C"
    using keepsD(3) [OF w(3)] binned_none [of C q s "Hole False"] d(4) by (auto simp: binned_upd)
  moreover have "dv_ok h2 ?C" using d(8) [OF q] d(4) keepsD(3,4) [OF w(3)] by (auto simp: dv_ok_def split: if_splits)
  moreover have "used_of ?C = V" using d(2) used_of_none [of C q s "Hole False"] d(4) by (auto simp: used_of_upd)
  ultimately show ?thesis
    using w q keepsD(3) [OF w(3)] same_data_trans [OF d(3) w(2)] settle_hole [OF d(6)] by (simp add: loose_def)
qed

text \<open>A free chunk follows; it is out of the bins.\<close>

lemma forward_free:
  assumes w: "work h1 C B V" and q: "C q = Some (s, Hole False)" "\<not> prev_free C q" and only: "\<forall>r u b. r \<noteq> q \<longrightarrow> C r \<noteq> Some (u, Hole b)"
    and n: "C (q + s) = Some (u, Free)" "B (q + s) = None"
    and h2: "h2 = set_size_and_pinuse_of_free_chunk q (s + u) h1"
  defines "C2 \<equiv> C(q + s := None, q \<mapsto> (s + u, Free))"
  shows "work h2 C2 B V" "same_data V h1 h2" "keeps h1 h2" "settled C2" "s + u \<noteq> 0" "q + s \<noteq> q"
proof -
  let ?n = "q + s" and ?C1 = "C(q + s \<mapsto> (u, Hole True))"
  let ?C = "?C1(?n := None, q \<mapsto> (s + u, Hole True))"
  note t = workD(1) [OF w]
  show nq: "?n \<noteq> q" by (rule chunk_ends_off(1) [OF t q(1)])
  have "V ?n = None" using workD(4) [OF w] n(1) by (cases "V ?n") (auto simp: used_in_def)
  then have w1: "work h1 ?C1 B V" using work_hole [OF w n(1) _ n(2)] by simp
  have q1: "?C1 q = Some (s, Hole False)" "?C1 ?n = Some (u, Hole True)" using nq q(1) by auto
  have w2: "work h1 ?C B V" by (rule work_join [OF w1 q1])
  have au: "area h1 ?n u" and aq: "area h1 q s" using tilesD(2) [OF t n(1)] tilesD(2) [OF t q(1)] .
  have end2: "q + (s + u) = ?n + u" by simp
  have "?n + u \<noteq> ?n" using au by (auto simp: area_def)
  have ne: "?n + u \<noteq> q"
  proof
    assume "?n + u = q"
    then have "unat q = unat ?n + unat u" using area_end [OF au] by metis
    then show False using area_end [OF aq] aq by (simp add: area_def)
  qed
  have Cq: "?C q = Some (s + u, Hole True)" by simp
  have al: "\<not> prev_free ?C q"
  proof -
    have "prev_free ?C q \<longleftrightarrow> prev_free C q"
    proof (rule prev_free_cong)
      fix r
      have "\<not> free_end C ?n q" using n(1) ne by (simp add: free_end_def)
      moreover have "\<not> free_end C q q" using q(1) by (simp add: free_end_def)
      moreover have "\<not> free_end ?C q q" "\<not> free_end ?C ?n q" using end2 ne nq by (simp_all add: free_end_def)
      ultimately show "free_end ?C r q \<longleftrightarrow> free_end C r q"
        by (cases "r = q"; cases "r = ?n") (simp_all add: free_end_def)
    qed
    then show ?thesis using q(2) by simp
  qed
  have nx: "next_is ?C (q + (s + u)) (\<lambda>k. k = Used \<or> k = Fence)"
  proof -
    obtain v k where v: "C (?n + u) = Some (v, k)" "k \<noteq> Free" "k \<noteq> Top" using tilesD(3) [OF t n(1)] by (auto simp: next_is_def)
    have "k = Used \<or> k = Fence" using v only ne by (cases k) auto
    then show ?thesis unfolding end2 using v(1) ne \<open>?n + u \<noteq> ?n\<close> by (simp add: next_is_def)
  qed
  have r: "work h2 (?C(q \<mapsto> (s + u, Free))) B V" "same_data V h1 h2" "keeps h1 h2"
    using work_free [OF w2 Cq al nx] h2 by blast+
  have e: "?C(q \<mapsto> (s + u, Free)) = C2" by (simp add: C2_def)
  show "work h2 C2 B V" "same_data V h1 h2" "keeps h1 h2" using r unfolding e by simp_all
  show "settled C2" using only by (simp add: C2_def settled_def)
  have "unat (s + u) = unat s + unat u" using area_end [OF aq] aq au by (auto simp: area_def unat_word_ariths)
  then show "s + u \<noteq> 0" using aq by (auto simp: area_def)
qed


text \<open>Fields that decide what is done afterwards.\<close>

definition stays :: "heap \<Rightarrow> heap \<Rightarrow> bool" where
  "stays h h' \<longleftrightarrow>
     m_topsize h' = m_topsize h \<and> m_release_checks h' = m_release_checks h \<and> m_trim_check h' = m_trim_check h"

lemma stays_trans: "stays h h' \<Longrightarrow> stays h' h'' \<Longrightarrow> stays h h''"
  by (simp add: stays_def)

lemma keeps_stays: "keeps h h' \<Longrightarrow> stays h h'"
  using keepsD(6,7,8) by (simp add: stays_def)

lemma consolidate_forward_runs:
  assumes f: "freeing h V h1 C q s" and n: "C (q + s) = Some (u, k)" "k \<noteq> Top"
  shows "\<exists>r h2. consolidate_forward q s (q + s) h1 = ret (r, h2) \<and> stays h1 h2 \<and>
    (case r of None \<Rightarrow> freed h V h2 | Some z \<Rightarrow> \<exists>C'. loose h V h2 C' q z)"
proof -
  note d = freeingD [OF f] and t = workD(1) [OF freeingD(1) [OF f]] and fl = hole_flags [OF f n(1)]
  show ?thesis
  proof (cases "k = Used \<or> k = Fence")
    case True
    then have "cinuse h1 (q + s)" using fl(3) by simp
    then have "consolidate_forward q s (q + s) h1 = ret (Some s, set_free_with_pinuse q s (q + s) h1)"
      by (simp add: consolidate_forward_def)
    then show ?thesis using forward_used [OF f n(1) True refl] keeps_stays by auto
  next
    case False
    then have kf: "k = Free" using fl(2) n(2) by blast
    then have cin: "\<not> cinuse h1 (q + s)" using fl(3) by simp
    have nf: "C (q + s) = Some (u, Free)" using n(1) kf by simp
    let ?n = "q + s" and ?C = "C(q + s := None, q \<mapsto> (s + u, Free))"
    have used: "used_of ?C = V"
      using d(2) used_of_none [of C q s "Hole False"] used_of_none [of C ?n u Free] d(4) nf by (auto simp: used_of_upd)
    show ?thesis
    proof (cases "?n = m_dv h1")
      case True
      define g where "g = h1\<lparr>m_dvsize := m_dvsize h1 + s, m_dv := q\<rparr>"
      define h2 where "h2 = set_size_and_pinuse_of_free_chunk q (s + u) g"
      have qn: "q \<noteq> ?n" using chunk_ends_off(1) [OF t d(4)] by metis
      then have "dv_ok h1 C" using d(8) True by auto
      moreover have "?n \<noteq> 0" using tilesD(2) [OF t nf] by (auto simp: area_def)
      ultimately have u: "m_dvsize h1 = u" using True nf by (auto simp: dv_ok_def split: if_splits)
      have run: "consolidate_forward q s ?n h1 = ret (None, h2)"
        using cin True by (simp add: consolidate_forward_def Let_def h2_def g_def u add.commute)
      have "same_core h1 g" by (simp add: same_core_def g_def)
      note w = work_same_core [OF d(1) this]
      have "binned (m_dv h1) C ?n = None" unfolding True [symmetric] by (simp add: binned_def nf)
      note ff = forward_free [OF conjunct1 [OF w] d(4-6) nf this h2_def]
      have k: "m_dv h2 = q" "m_dvsize h2 = s + u" "stays h1 h2"
        using keepsD(3,4) [OF ff(3)] keeps_stays [OF ff(3)] by (simp_all add: g_def u stays_def add.commute)
      have "binned (m_dv h1) C = binned (m_dv h2) ?C"
        unfolding k True [symmetric] by (rule ext) (auto simp: binned_def d(4) nf split: option.splits ckind.splits)
      moreover have "dv_ok h2 ?C" using ff(5) by (simp add: dv_ok_def k)
      ultimately have "heap_inv h2 ?C" by (intro work_end [OF ff(1,4)])
      then have "freed h V h2"
        unfolding freed_def using used same_data_trans [OF d(3) same_data_trans [OF conjunct2 [OF w] ff(2)]] by blast
      then show ?thesis using run k(3) by auto
    next
      case nd: False
      have size: "chunksize h1 ?n = u" by (rule chunk_size_of [OF t nf])
      have "binned (m_dv h1) C ?n = Some u" using nf nd by (simp add: binned_iff)
      then obtain g where g: "unlink_chunk ?n u h1 = ret g" "work g C ((binned (m_dv h1) C)(?n := None)) V" "same_data V h1 g" "keeps h1 g"
        using work_unlink [OF d(1)] by blast
      define h2 where "h2 = set_size_and_pinuse_of_free_chunk q (s + u) g"
      have "((binned (m_dv h1) C)(?n := None)) ?n = None" by simp
      note ff = forward_free [OF g(2) d(4-6) nf this h2_def]
      have k: "m_dv h2 = m_dv h1" "m_dvsize h2 = m_dvsize h1" "stays h1 h2"
        using keepsD(3,4) [OF keeps_trans [OF g(4) ff(3)]] keeps_stays [OF keeps_trans [OF g(4) ff(3)]] .
      have sd: "same_data V h h2" using same_data_trans [OF d(3) same_data_trans [OF g(3) ff(2)]] .
      show ?thesis
      proof (cases "q = m_dv h1")
        case True
        let ?h = "h2\<lparr>m_dvsize := s + u\<rparr>"
        have run: "consolidate_forward q s ?n h1 = ret (None, ?h)"
          using cin nd True k(1) g(1) size by (simp add: consolidate_forward_def Let_def h2_def)
        have "same_core h2 ?h" by (simp add: same_core_def)
        note w = work_same_core [OF ff(1) this]
        have "(binned (m_dv h1) C)(?n := None) = binned (m_dv ?h) ?C"
          using True k(1) by (auto simp: binned_def fun_eq_iff split: option.splits ckind.splits)
        moreover have "dv_ok ?h ?C" using ff(5) True k(1) by (simp add: dv_ok_def)
        ultimately have "heap_inv ?h ?C" by (intro work_end [OF conjunct1 [OF w] ff(4)])
        then have "freed h V ?h" unfolding freed_def using used same_data_trans [OF sd conjunct2 [OF w]] by blast
        then show ?thesis using run k(3) by (auto simp: stays_def)
      next
        case False
        have run: "consolidate_forward q s ?n h1 = ret (Some (s + u), h2)"
          using cin nd False k(1) g(1) size by (simp add: consolidate_forward_def Let_def h2_def)
        have "(binned (m_dv h2) ?C)(q := None) = (binned (m_dv h1) C)(?n := None)"
          using k(1) binned_none [of C q s "Hole False"] d(4) by (auto simp: binned_def fun_eq_iff)
        moreover have "dv_ok h2 ?C" using d(8) False nd k(1,2) by (auto simp: dv_ok_def split: if_splits)
        ultimately have "loose h V h2 ?C q (s + u)"
          unfolding loose_def using ff(1,4) used sd False k(1) by (metis fun_upd_same)
        then show ?thesis using run k(3) by auto
      qed
    qed
  qed
qed

lemma join_top_runs:
  assumes f: "freeing h V h1 C q s" and n: "C (q + s) = Some (u, Top)"
  shows "freed h V (join_top q s h1)" "m_topsize (join_top q s h1) = m_topsize h1 + s" "s \<noteq> 0"
    "m_release_checks (join_top q s h1) = m_release_checks h1" "m_trim_check (join_top q s h1) = m_trim_check h1"
proof -
  note d = freeingD [OF f] and t = workD(1) [OF freeingD(1) [OF f]]
  have e: "q + s = m_top h1" using hole_flags(4) [OF f n] by simp
  define g where "g = set_head q ((m_topsize h1 + s) OR PINUSE_BIT) (h1\<lparr>m_topsize := m_topsize h1 + s, m_top := q\<rparr>)"
  let ?C = "C(q + s := None, q \<mapsto> (m_topsize h1 + s + 40, Top))" and ?h = "join_top q s h1"
  have w: "work g ?C (binned (m_dv h1) C) V" "same_data V h1 g"
    using work_join_top [OF d(1,4) e d(5) g_def] by blast+
  have gf: "m_dv g = m_dv h1" "m_dvsize g = m_dvsize h1" "m_topsize g = m_topsize h1 + s" "m_release_checks g = m_release_checks h1"
    "m_trim_check g = m_trim_check h1"
    by (simp_all add: g_def set_head_def store_def)
  have j: "?h = (if q = m_dv g then g\<lparr>m_dv := 0, m_dvsize := 0\<rparr> else g)"
    unfolding gf by (simp add: join_top_def Let_def g_def gf(1) [unfolded g_def])
  show "m_topsize ?h = m_topsize h1 + s" "m_release_checks ?h = m_release_checks h1" "m_trim_check ?h = m_trim_check h1"
    using gf by (simp_all add: j)
  show "s \<noteq> 0" using tilesD(2) [OF t d(4)] by (auto simp: area_def)
  have core: "same_core g ?h" by (simp add: j same_core_def)
  note w2 = work_same_core [OF w(1) core]
  have "C 0 = None" using tilesD(2) [OF t, of 0] by (cases "C 0") (auto simp: area_def)
  then have "binned (m_dv h1) C = binned (m_dv ?h) ?C"
    using d(4) n gf(1) by (intro ext) (auto simp: j binned_def split: option.splits ckind.splits)
  moreover have "dv_ok ?h ?C"
  proof (cases "q = m_dv h1")
    case True
    then show ?thesis unfolding j dv_ok_def using gf(1) by simp
  next
    case False
    then show ?thesis using d(8) n by (auto simp: j gf dv_ok_def split: if_splits)
  qed
  ultimately have "heap_inv ?h ?C" using w2 settle_hole [of q C Top] d(6) by (intro work_end) (auto simp: settled_def)
  moreover have "used_of ?C = V"
    using d(2) used_of_none [of C q s "Hole False"] used_of_none [of C "q + s" u Top] d(4) n by (auto simp: used_of_upd)
  ultimately show "freed h V ?h" using same_data_trans [OF d(3) same_data_trans [OF w(2) conjunct2 [OF w2]]] by (auto simp: freed_def)
qed

section \<open>The chunk before\<close>

text \<open>A used chunk that follows no free one.\<close>

lemma free_start:
  assumes i: "heap_inv h C" and p: "C p = Some (s, Used)" "\<not> prev_free C p"
  shows "freeing h ((used_of C)(p := None)) h (C(p \<mapsto> (s, Hole False))) p s"
proof -
  let ?V = "(used_of C)(p := None)" and ?C = "C(p \<mapsto> (s, Hole False))"
  note t = heap_invD(1) [OF i]
  have "work h C (binned (m_dv h) C) ?V" using work_start [OF i] by (auto simp: work_def used_in_def)
  moreover have "binned (m_dv h) C p = None" "?V p = None" using p(1) by (simp_all add: binned_def)
  ultimately have "work h ?C (binned (m_dv h) C) ?V" using work_hole [of h C _ ?V p s Used] p(1) by simp
  moreover have "binned (m_dv h) ?C = binned (m_dv h) C" using p(1) by (auto simp: binned_def fun_eq_iff)
  moreover have "\<not> prev_free ?C p"
    using prev_free_step [OF t p(1), of p ?C] p(2) chunk_ends_off(1) [OF t p(1)] by (simp add: free_end_def)
  moreover have "used_of ?C = ?V" by (simp add: used_of_upd)
  moreover have "p \<noteq> 0" using tilesD(2) [OF t p(1)] by (auto simp: area_def)
  then have "m_dv h \<noteq> p \<and> dv_ok h ?C" using heap_invD(3) [OF i] p(1) by (auto simp: dv_ok_def split: if_splits)
  ultimately show ?thesis using heap_invD(2) [OF i] by (simp add: freeing_def same_data_refl settled_def)
qed

lemma free_before:
  assumes i: "heap_inv h C" and p: "C p = Some (s, Used)" "prev_free C p"
  obtains q t where "C q = Some (t, Free)" "q + t = p" "prev_foot h p = t" "p - t = q" "ok_address h q"
proof -
  note ti = heap_invD(1) [OF i]
  obtain q t k where q: "C q = Some (t, k)" "q + t = p" "marks_free k"
    using p(2) by (auto simp: prev_free_def free_end_def split: option.splits)
  have "k = Free" using q(1,3) heap_invD(2) [OF i] by (cases k) (auto simp: settled_def)
  then have c: "C q = Some (t, Free)" using q(1) by simp
  moreover have "prev_foot h p = t" using tilesD(3) [OF ti c] q(2) by auto
  moreover have "ok_address h q" using tilesD(2) [OF ti q(1)] by (simp add: ok_address_def area_def)
  moreover have "p - t = q" using q(2) by (simp add: eq_diff_eq [symmetric])
  ultimately show thesis using that q(2) by blast
qed

text \<open>The two chunks become one hole.\<close>

lemma join_before:
  assumes i: "heap_inv h C" and p: "C p = Some (s, Used)" and q: "C q = Some (t, Free)" "q + t = p"
    and w: "work h1 C B ((used_of C)(p := None))" "B q = None" "B p = None"
  defines "C2 \<equiv> C(p := None, q \<mapsto> (t + s, Hole False))"
  shows "work h1 C2 B ((used_of C)(p := None))" "C2 q = Some (t + s, Hole False)" "\<not> prev_free C2 q"
    "\<forall>r u b. r \<noteq> q \<longrightarrow> C2 r \<noteq> Some (u, Hole b)" "used_of C2 = (used_of C)(p := None)" "q + (t + s) = p + s"
    "p + s \<noteq> q" "p + s \<noteq> p" "p \<noteq> q"
proof -
  let ?V = "(used_of C)(p := None)" and ?C1 = "C(p \<mapsto> (s, Hole False))"
  let ?C = "?C1(q \<mapsto> (t, Hole True))"
  note ti = heap_invD(1) [OF i]
  show pq: "p \<noteq> q" using p q(1) by auto
  show e: "q + (t + s) = p + s" using q(2) by (simp add: add.assoc [symmetric])
  show ps: "p + s \<noteq> p" by (rule chunk_ends_off(1) [OF ti p])
  have ap: "area h p s" and aq: "area h q t" using tilesD(2) [OF ti p] tilesD(2) [OF ti q(1)] .
  have un: "unat p = unat q + unat t" "unat (p + s) = unat p + unat s" using area_end [OF aq] area_end [OF ap] q(2) by simp_all
  then show pqs: "p + s \<noteq> q" using ap by (auto simp: area_def)
  have w1: "work h1 ?C1 B ?V" using work_hole [OF w(1) p _ w(3)] by simp
  have q1: "?C1 q = Some (t, Free)" "?V q = None" using q(1) pq used_of_none [of C q t Free] by auto
  have w2: "work h1 ?C B ?V" using work_hole [OF w1, OF q1(1) _ w(2) q1(2)] by simp
  have q2: "?C q = Some (t, Hole True)" "?C (q + t) = Some (s, Hole False)" using pq q(2) by auto
  have "work h1 (?C(q + t := None, q \<mapsto> (t + s, Hole False))) B ?V" by (rule work_join [OF w2 q2])
  moreover have "?C(q + t := None, q \<mapsto> (t + s, Hole False)) = C2" using pq unfolding q(2) C2_def by (auto simp: fun_eq_iff)
  ultimately show "work h1 C2 B ?V" by simp
  show "C2 q = Some (t + s, Hole False)" by (simp add: C2_def)
  show "\<not> prev_free C2 q"
  proof -
    have "prev_free C2 q \<longleftrightarrow> prev_free C q"
    proof (rule prev_free_cong)
      fix r
      have "\<not> free_end C p q" "\<not> free_end C q q" using p q(1) chunk_ends_off(1) [OF ti q(1)] by (simp_all add: free_end_def)
      moreover have "\<not> free_end C2 q q" "\<not> free_end C2 p q" using pq by (simp_all add: C2_def free_end_def)
      ultimately show "free_end C2 r q \<longleftrightarrow> free_end C r q"
        by (cases "r = q"; cases "r = p") (simp_all add: free_end_def C2_def)
    qed
    then show ?thesis using tilesD(3) [OF ti q(1)] by simp
  qed
  show "\<forall>r u b. r \<noteq> q \<longrightarrow> C2 r \<noteq> Some (u, Hole b)" using heap_invD(2) [OF i] by (auto simp: C2_def settled_def)
  show "used_of C2 = ?V" using used_of_none [of C q t Free] q(1) by (auto simp: C2_def used_of_upd)
qed

text \<open>What follows a used chunk.\<close>

lemma three_has_two: "x AND 3 = 3 \<Longrightarrow> x AND 2 \<noteq> 0" for x :: u32
proof -
  assume a: "x AND 3 = 3"
  have "(x AND 3) AND 2 = x AND 2" by (simp add: and.assoc)
  then show ?thesis using a by simp
qed

lemma next_flags:
  assumes i: "heap_inv h C" and p: "C p = Some (s, Used)"
  obtains u k where "C (p + s) = Some (u, k)" "k = Used \<or> k = Free \<or> k = Top \<or> k = Fence"
    "head h (p + s) AND INUSE_BITS = INUSE_BITS \<longleftrightarrow> k = Used \<or> k = Fence" "pinuse h (p + s)"
    "cinuse h (p + s) \<longleftrightarrow> k = Used \<or> k = Fence" "p + s = m_top h \<longleftrightarrow> k = Top" "ok_next p (p + s)"
proof -
  note t = heap_invD(1) [OF i]
  obtain u k where n: "C (p + s) = Some (u, k)" using next_chunk_in [OF t p] by auto
  have k: "k \<noteq> Hole b" for b using n heap_invD(2) [OF i] by (auto simp: settled_def)
  have np: "\<not> prev_free C (p + s)" using prev_free_end [OF t p] by simp
  note fl = plain_flags [OF t n np k]
  have "head h (p + s) AND 3 = 3 \<longleftrightarrow> cinuse h (p + s)"
    using fl(1) both_flags [of "head h (p + s)"] three_has_two [of "head h (p + s)"] unfolding pinuse_def cinuse_def flag_masks
    by blast
  then have "head h (p + s) AND INUSE_BITS = INUSE_BITS \<longleftrightarrow> k = Used \<or> k = Fence" using fl(2) by (simp add: flag_masks)
  moreover have "ok_next p (p + s)"
    by (rule free_end_after [OF t p]) (use tilesD(2) [OF t p] in \<open>auto simp: area_def\<close>)
  moreover have "k = Used \<or> k = Free \<or> k = Top \<or> k = Fence" using k by (cases k) auto
  ultimately show ?thesis using that n fl by blast
qed

lemma consolidate_backward_runs:
  assumes i: "heap_inv h C" and p: "C p = Some (s, Used)" "prev_free C p"
  shows "\<exists>r h1. consolidate_backward p s (p + s) h = ret (r, h1) \<and> stays h h1 \<and>
    (case r of None \<Rightarrow> freed h ((used_of C)(p := None)) h1
     | Some (q, z) \<Rightarrow> z = s + prev_foot h p \<and> q + z = p + s \<and> (\<exists>C1. freeing h ((used_of C)(p := None)) h1 C1 q z))"
proof -
  let ?V = "(used_of C)(p := None)" and ?B = "binned (m_dv h) C"
  note t = heap_invD(1) [OF i]
  obtain q t' where q: "C q = Some (t', Free)" "q + t' = p" "prev_foot h p = t'" "p - t' = q" "ok_address h q"
    by (rule free_before [OF i p]) (rule that; assumption)
  let ?C = "C(p := None, q \<mapsto> (t' + s, Hole False))"
  have w0: "work h C ?B ?V" using work_start [OF i] by (auto simp: work_def used_in_def)
  have Bp: "?B p = None" using p(1) by (simp add: binned_def)
  obtain u k where n: "C (p + s) = Some (u, k)" "k = Used \<or> k = Free \<or> k = Top \<or> k = Fence"
    "head h (p + s) AND INUSE_BITS = INUSE_BITS \<longleftrightarrow> k = Used \<or> k = Fence"
    by (rule next_flags [OF i p(1)]) (rule that; assumption)
  show ?thesis
  proof (cases "q = m_dv h")
    case False
    have "?B q = Some t'" using q(1) False by (simp add: binned_iff)
    then obtain h1 where h1: "unlink_chunk q t' h = ret h1" "work h1 C (?B(q := None)) ?V" "same_data ?V h h1" "keeps h h1"
      using work_unlink [OF w0] by blast
    have run: "consolidate_backward p s (p + s) h = ret (Some (q, t' + s), h1)"
      using q h1(1) False by (simp add: consolidate_backward_def Let_def add.commute)
    have B: "(?B(q := None)) q = None" "(?B(q := None)) p = None" using Bp by auto
    note j = join_before [OF i p(1) q(1,2) h1(2) B]
    have k: "m_dv h1 = m_dv h" "m_dvsize h1 = m_dvsize h" using keepsD(3,4) [OF h1(4)] .
    have "?B(q := None) = binned (m_dv h1) ?C" using p(1) by (auto simp: k binned_def fun_eq_iff)
    moreover have "dv_ok h1 ?C" using heap_invD(3) [OF i] False p(1) by (auto simp: dv_ok_def k split: if_splits)
    ultimately have "freeing h ?V h1 ?C q (t' + s)"
      using j h1(3) False k(1) by (simp add: freeing_def)
    then show ?thesis using run j(6) keeps_stays [OF h1(4)] q(3) by (auto simp: add.commute)
  next
    case dv: True
    have Bq: "?B q = None" unfolding dv [symmetric] by (simp add: binned_def q(1))
    have "q \<noteq> 0" using tilesD(2) [OF t q(1)] by (auto simp: area_def)
    show ?thesis
    proof (cases "k = Used \<or> k = Fence")
      case True
      define g where "g = h\<lparr>m_dvsize := t' + s\<rparr>"
      define h2 where "h2 = set_free_with_pinuse q (t' + s) (p + s) g"
      have run: "consolidate_backward p s (p + s) h = ret (None, h2)"
        using q dv n(3) True by (simp add: consolidate_backward_def Let_def add.commute h2_def g_def)
      have "same_core h g" by (simp add: same_core_def g_def)
      note wg = work_same_core [OF w0 this]
      note j = join_before [OF i p(1) q(1,2) conjunct1 [OF wg] Bq Bp]
      have "next_is ?C (q + (t' + s)) (\<lambda>k. k = Used \<or> k = Fence)"
        unfolding j(6) using n(1) True j(7,8) by (simp add: next_is_def)
      moreover have "h2 = set_free_with_pinuse q (t' + s) (q + (t' + s)) g" unfolding j(6) by (rule h2_def)
      ultimately have f: "work h2 (?C(q \<mapsto> (t' + s, Free))) ?B ?V" "same_data ?V g h2" "keeps g h2"
        using work_free [OF j(1-3)] by blast+
      let ?D = "C(p := None, q \<mapsto> (t' + s, Free))"
      have D: "?C(q \<mapsto> (t' + s, Free)) = ?D" by simp
      have k: "m_dv h2 = q" "m_dvsize h2 = t' + s" "stays h h2"
        using keepsD(3,4) [OF f(3)] keeps_stays [OF f(3)] dv by (simp_all add: g_def stays_def)
      have "?B = binned (m_dv h2) ?D" unfolding k(1) dv [symmetric] using p(1)
        by (auto simp: binned_def fun_eq_iff split: option.splits ckind.splits)
      moreover have "t' + s \<noteq> 0"
        using tilesD(2) [OF workD(1) [OF f(1)], of q "t' + s" Free] by (auto simp: area_def)
      then have "dv_ok h2 ?D" by (simp add: dv_ok_def k)
      moreover have "settled ?D" using heap_invD(2) [OF i] by (simp add: settled_def)
      ultimately have "heap_inv h2 ?D" using f(1) unfolding D by (intro work_end)
      moreover have "used_of ?D = ?V" using used_of_none [of C q t' Free] q(1) by (auto simp: used_of_upd)
      ultimately have "freed h ?V h2" unfolding freed_def using same_data_trans [OF conjunct2 [OF wg] f(2)] by blast
      then show ?thesis using run k(3) by auto
    next
      case False
      have run: "consolidate_backward p s (p + s) h = ret (Some (q, t' + s), h)"
        using q dv n(3) False by (simp add: consolidate_backward_def Let_def add.commute)
      note j = join_before [OF i p(1) q(1,2) w0 Bq Bp]
      have "?B = binned (m_dv h) ?C" unfolding dv [symmetric] using p(1)
        by (auto simp: binned_def fun_eq_iff split: option.splits ckind.splits)
      moreover have "next_is ?C (q + (t' + s)) (\<lambda>k. k = Free \<or> k = Top)"
        unfolding j(6) using n(1,2) False j(7,8) by (auto simp: next_is_def)
      ultimately have "freeing h ?V h ?C q (t' + s)"
        using j dv by (simp add: freeing_def same_data_refl)
      then show ?thesis using run j(6) q(3) by (auto simp: stays_def add.commute)
    qed
  qed
qed

section \<open>free\<close>

text \<open>What \<^verbatim>\<open>free\<close> does last: it may give memory back to the kernel.\<close>

definition give_back :: "heap \<Rightarrow> heap \<Rightarrow> heap run" where
  "give_back h h' =
     (if m_topsize h' \<noteq> m_topsize h \<and> should_trim h' (m_topsize h') then bindR (sys_trim 0 h') (\<lambda>(r, h). ret h)
      else if m_release_checks h' \<noteq> m_release_checks h \<and> m_release_checks h' = 0
      then bindR (release_unused_segments h') (\<lambda>(r, h). ret h)
      else ret h')"

text \<open>How the fields that decide it can change when a hole of size \<open>z\<close> is freed.\<close>

definition outcome :: "heap \<Rightarrow> u32 \<Rightarrow> heap \<Rightarrow> bool" where
  "outcome h z h' \<longleftrightarrow>
     (m_topsize h' = m_topsize h \<or> m_topsize h' = m_topsize h + z) \<and> m_trim_check h' = m_trim_check h \<and>
     (m_release_checks h' = m_release_checks h \<or> m_release_checks h' = m_release_checks h - 1)"

lemma outcome_stays: "stays h h' \<Longrightarrow> outcome h z h'"
  by (simp add: outcome_def stays_def)

lemma give_back_stays: "stays h h' \<Longrightarrow> give_back h h' = ret h'"
  by (simp add: give_back_def stays_def)

lemma release_checks_core: "same_core h (h\<lparr>m_release_checks := x\<rparr>)"
  by (simp add: same_core_def)

lemma insert_chunk_cases:
  "is_small s \<Longrightarrow> insert_chunk p s h = insert_small_chunk p s h" "\<not> is_small s \<Longrightarrow> insert_chunk p s h = insert_large_chunk p s h"
  by (simp_all add: insert_chunk_def)

lemma free_forward_runs:
  assumes f: "freeing h V h1 C q s" and st: "stays h h1"
  shows "\<exists>h'. freed h V h' \<and> free_forward q s (q + s) h1 = give_back h h' \<and> outcome h s h'"
proof -
  note d = freeingD [OF f] and t = workD(1) [OF freeingD(1) [OF f]]
  obtain u k where n: "C (q + s) = Some (u, k)" using hole_next [OF t d(4)] by blast
  note fl = hole_flags [OF f n]
  show ?thesis
  proof (cases "k = Top")
    case True
    note j = join_top_runs [OF f n [unfolded True]]
    have "free_forward q s (q + s) h1 = give_back h (join_top q s h1)"
      using fl True j(2-4) st by (simp add: free_forward_def Let_def give_back_def stays_def)
    moreover have "outcome h s (join_top q s h1)" using j(2,4,5) st by (simp add: outcome_def stays_def)
    ultimately show ?thesis using j(1) by blast
  next
    case False
    then have nt: "\<not> (\<not> cinuse h1 (q + s) \<and> q + s = m_top h1)" using fl(4) by simp
    obtain r h2 where r: "consolidate_forward q s (q + s) h1 = ret (r, h2)" "stays h1 h2"
      "case r of None \<Rightarrow> freed h V h2 | Some z \<Rightarrow> \<exists>C'. loose h V h2 C' q z"
      using consolidate_forward_runs [OF f n False] by blast
    have st2: "stays h h2" by (rule stays_trans [OF st r(2)])
    note run = free_forward_def [of q s "q + s" h1, unfolded if_P [OF conjI [OF fl(5,1)]] if_not_P [OF nt] r(1) bindR_simps prod.case]
    show ?thesis
    proof (cases r)
      case None
      then have "free_forward q s (q + s) h1 = ret h2" by (simp add: run)
      then show ?thesis using None r(3) give_back_stays [OF st2] outcome_stays [OF st2] by auto
    next
      case (Some z)
      then obtain h3 where h3: "insert_chunk q z h2 = ret h3" "freed h V h3" "keeps h2 h3"
        using r(3) loose_insert by fastforce
      have st3: "stays h h3" by (rule stays_trans [OF st2 keeps_stays [OF h3(3)]])
      show ?thesis
      proof (cases "is_small z")
        case True
        then have "free_forward q s (q + s) h1 = ret h3"
          using Some h3(1) by (simp add: run insert_chunk_cases)
        then show ?thesis using h3(2) give_back_stays [OF st3] outcome_stays [OF st3] by auto
      next
        case large: False
        let ?h = "h3\<lparr>m_release_checks := m_release_checks h3 - 1\<rparr>"
        have "freed h V ?h" by (rule freed_same_core [OF h3(2) release_checks_core]) simp_all
        moreover have "free_forward q s (q + s) h1 = give_back h ?h"
          using Some h3(1) large st3 by (simp add: run insert_chunk_cases give_back_def stays_def Let_def)
        moreover have "outcome h s ?h" using st3 by (simp add: outcome_def stays_def)
        ultimately show ?thesis by blast
      qed
    qed
  qed
qed

lemma mem_chunk: "mem2chunk (chunk2mem p) = p"
  by (simp add: mem2chunk_def chunk2mem_def)

lemma used_flags:
  assumes i: "heap_inv h C" and p: "C p = Some (s, Used)"
  shows "ok_address h p" "is_inuse h p" "chunksize h p = s" "pinuse h p \<longleftrightarrow> \<not> prev_free C p" "\<not> is_mmapped h p"
    "chunk2mem p \<noteq> 0" "16 \<le> unat s"
proof -
  note t = heap_invD(1) [OF i]
  have a: "area h p s" using tilesD(2) [OF t p] .
  then have s8: "8 dvd unat s" by (simp add: area_def)
  have hd: "head h p = head_of s (\<not> prev_free C p) True" and s16: "16 \<le> unat s" using tilesD(3) [OF t p] by simp_all
  note fl = head_of_flags [OF s8]
  show "ok_address h p" using a by (simp add: area_def ok_address_def)
  show "is_inuse h p" "\<not> is_mmapped h p" "pinuse h p \<longleftrightarrow> \<not> prev_free C p"
    by (simp_all add: is_inuse_def is_mmapped_def pinuse_def flag_masks hd fl)
  show "chunksize h p = s" unfolding chunksize_def flag_masks hd by (rule head_of_size [OF s8])
  show "16 \<le> unat s" by (rule s16)
  have "unat (p + 8) = unat p + 8" using a s16 by (auto simp: area_def unat_word_ariths)
  then show "chunk2mem p \<noteq> 0" unfolding chunk2mem_def by auto
qed

text \<open>The size of the hole that a release leaves before it looks at what follows.\<close>

definition hole_size :: "heap \<Rightarrow> u32 \<Rightarrow> u32" where
  "hole_size h p = chunksize h p + (if pinuse h p then 0 else prev_foot h p)"

lemma dlfree_runs:
  assumes i: "heap_inv h C" and p: "used_of C p = Some s"
  shows "\<exists>h'. freed h ((used_of C)(p := None)) h' \<and> dlfree (chunk2mem p) h = give_back h h' \<and> outcome h (hole_size h p) h'"
proof -
  have c: "C p = Some (s, Used)" using p by (simp add: used_of_iff)
  note u = used_flags [OF i c]
  show ?thesis
  proof (cases "prev_free C p")
    case False
    then have "dlfree (chunk2mem p) h = free_forward p s (p + s) h" "hole_size h p = s"
      using u by (simp_all add: dlfree_def mem_chunk Let_def hole_size_def)
    then show ?thesis using free_forward_runs [OF free_start [OF i c False]] by (simp add: stays_def)
  next
    case True
    obtain r h1 where r: "consolidate_backward p s (p + s) h = ret (r, h1)" "stays h h1"
      "case r of None \<Rightarrow> freed h ((used_of C)(p := None)) h1
       | Some (q, z) \<Rightarrow> z = hole_size h p \<and> q + z = p + s \<and> (\<exists>C1. freeing h ((used_of C)(p := None)) h1 C1 q z)"
      using consolidate_backward_runs [OF i c True] u(3,4) True unfolding hole_size_def by auto
    have run: "dlfree (chunk2mem p) h = (case r of None \<Rightarrow> ret h1 | Some (p', z) \<Rightarrow> free_forward p' z (p + s) h1)"
      using u True r(1) by (simp add: dlfree_def mem_chunk Let_def)
    show ?thesis
    proof (cases r)
      case None
      then show ?thesis using run r(2,3) give_back_stays [OF r(2)] outcome_stays [OF r(2)] by auto
    next
      case (Some x)
      obtain q z where x: "x = (q, z)" by (cases x)
      then obtain C1 where "z = hole_size h p" "q + z = p + s" "freeing h ((used_of C)(p := None)) h1 C1 q z" using r(3) Some by auto
      then show ?thesis using free_forward_runs [OF _ r(2), of "(used_of C)(p := None)" C1 q z] run Some x by simp
    qed
  qed
qed

text \<open>\<^verbatim>\<open>dispose_chunk\<close>, by which other functions give chunks back.\<close>

lemma dispose_forward_runs:
  assumes f: "freeing h V h1 C q s"
  shows "\<exists>h'. dispose_forward q s (q + s) h1 = ret h' \<and> freed h V h'"
proof -
  note d = freeingD [OF f] and t = workD(1) [OF freeingD(1) [OF f]]
  obtain u k where n: "C (q + s) = Some (u, k)" using hole_next [OF t d(4)] by blast
  note fl = hole_flags [OF f n]
  have ok: "ok_address h1 (q + s)" using tilesD(2) [OF t n] by (simp add: area_def ok_address_def)
  show ?thesis
  proof (cases "k = Top")
    case True
    then have "dispose_forward q s (q + s) h1 = ret (join_top q s h1)" using fl ok by (simp add: dispose_forward_def)
    then show ?thesis using join_top_runs(1) [OF f n [unfolded True]] by blast
  next
    case False
    then have nt: "\<not> (\<not> cinuse h1 (q + s) \<and> q + s = m_top h1)" using fl(4) by simp
    obtain r h2 where r: "consolidate_forward q s (q + s) h1 = ret (r, h2)"
      "case r of None \<Rightarrow> freed h V h2 | Some z \<Rightarrow> \<exists>C'. loose h V h2 C' q z"
      using consolidate_forward_runs [OF f n False] by blast
    note run = dispose_forward_def [of q s "q + s" h1, unfolded if_P [OF ok] if_not_P [OF nt] r(1) bindR_simps prod.case]
    show ?thesis
    proof (cases r)
      case None
      then show ?thesis using r(2) by (simp add: run)
    next
      case (Some z)
      then show ?thesis using r(2) loose_insert by (fastforce simp: run)
    qed
  qed
qed

lemma dispose_chunk_runs:
  assumes i: "heap_inv h C" and p: "used_of C p = Some s"
  shows "\<exists>h'. dispose_chunk p s h = ret h' \<and> freed h ((used_of C)(p := None)) h'"
proof -
  have c: "C p = Some (s, Used)" using p by (simp add: used_of_iff)
  note u = used_flags [OF i c]
  show ?thesis
  proof (cases "prev_free C p")
    case False
    then show ?thesis using u dispose_forward_runs [OF free_start [OF i c False]] by (simp add: dispose_chunk_def Let_def)
  next
    case True
    obtain r h1 where r: "consolidate_backward p s (p + s) h = ret (r, h1)"
      "case r of None \<Rightarrow> freed h ((used_of C)(p := None)) h1
       | Some (q, z) \<Rightarrow> z = s + prev_foot h p \<and> q + z = p + s \<and> (\<exists>C1. freeing h ((used_of C)(p := None)) h1 C1 q z)"
      using consolidate_backward_runs [OF i c True] by blast
    have run: "dispose_chunk p s h = (case r of None \<Rightarrow> ret h1 | Some (p', z) \<Rightarrow> dispose_forward p' z (p + s) h1)"
      using u True r(1) by (simp add: dispose_chunk_def Let_def)
    show ?thesis
    proof (cases r)
      case None
      then show ?thesis using run r(2) by auto
    next
      case (Some x)
      obtain q z where x: "x = (q, z)" by (cases x)
      then obtain C1 where "q + z = p + s" "freeing h ((used_of C)(p := None)) h1 C1 q z" using r(2) Some by auto
      then show ?thesis using dispose_forward_runs [of h "(used_of C)(p := None)" h1 C1 q z] run Some x by simp
    qed
  qed
qed

end
