(* ===== verification/MallocProps.thy ===== *)
theory MallocProps
  imports MallocFree
begin

text \<open>
  The properties of the heap of \<^verbatim>\<open>malloc.c\<close>: its first segment, \<^verbatim>\<open>malloc\<close>, \<^verbatim>\<open>free\<close> and requests that are
  too large.
\<close>

section \<open>The first segment\<close>

lemma bag_empty:
  assumes g: "unat (gm h) + 472 < 2 ^ 32" and m: "m_smallmap h = 0" "m_treemap h = 0"
    and slots: "\<And>i. i < 32 \<Longrightarrow> words h (treebin_at h i) = 0"
  shows "bag h (\<lambda>_. None)"
proof -
  let ?L = "\<lambda>_ :: nat. [] :: u32 list" and ?M = "\<lambda>_ :: u32. [] :: u32 list"
  have "inj_on (smallbin_at h) {..<32}"
  proof (rule inj_onI)
    fix i j :: nat assume "i \<in> {..<32}" "j \<in> {..<32}" "smallbin_at h i = smallbin_at h j"
    then have "unat (gm h) + 40 + 8 * i = unat (gm h) + 40 + 8 * j"
      using small_header(1) [OF g, of i] small_header(1) [OF g, of j] unfolding lessThan_iff by metis
    then show "i = j" by simp
  qed
  then have "small_inv h ?L" by (simp add: small_inv_def m)
  moreover have ne: "treebin_at h i \<noteq> 0" if "i < 32" for i
    using tree_slot [OF g that] unat_0 by (metis add_is_0 zero_neq_numeral)
  have "tree_inv h {} ?M"
    using ne slots tree_view_at(7) by (simp add: tree_inv_def Let_def tree_ok_def mates_ok_def m)
  ultimately show ?thesis
    unfolding bag_def by (intro exI [of _ ?L] exI [of _ "{}"] exI [of _ ?M])
      (simp add: small_part_def large_part_def tchunks_def)
qed

definition bin_cells :: "heap \<Rightarrow> u32 set" where
  "bin_cells h = {a. unat (gm h) + 40 \<le> unat a \<and> unat a < unat (gm h) + 304}"

lemma init_bins_step:
  assumes g: "unat (gm h) + 472 < 2 ^ 32"
  shows "bin_step (bin_cells h) h (init_bins h) \<and> m_smallmap (init_bins h) = m_smallmap h \<and> m_treemap (init_bins h) = m_treemap h"
proof -
  let ?f = "\<lambda>i h. set_fd (smallbin_at h i) (smallbin_at h i) (set_bk (smallbin_at h i) (smallbin_at h i) h)"
  have "bin_step (bin_cells h) h (fold ?f xs h') \<and> m_smallmap (fold ?f xs h') = m_smallmap h \<and> m_treemap (fold ?f xs h') = m_treemap h"
    if "set xs \<subseteq> {..<32}" "bin_step (bin_cells h) h h'" "m_smallmap h' = m_smallmap h" "m_treemap h' = m_treemap h" for xs h'
    using that
  proof (induction xs arbitrary: h')
    case (Cons i xs)
    have "gm h' = gm h" using bin_step_gm(1) [OF Cons.prems(2)] .
    then have b: "smallbin_at h' i = smallbin_at h i" by (simp add: smallbin_at_def)
    have "i < 32" using Cons.prems(1) by simp
    then have "smallbin_at h i + 8 \<in> bin_cells h" "smallbin_at h i + 12 \<in> bin_cells h"
      using small_header(2) [OF g, of i 8] small_header(2) [OF g, of i 12] by (simp_all add: bin_cells_def)
    then have "bin_step (bin_cells h) h (?f i h')"
      using Cons.prems(2) by (simp add: b set_fd_def set_bk_def bin_step_store)
    moreover have "m_smallmap (?f i h') = m_smallmap h" "m_treemap (?f i h') = m_treemap h"
      using Cons.prems(3,4) by (simp_all add: set_fd_def set_bk_def)
    ultimately show ?case using Cons.IH [of "?f i h'"] Cons.prems(1) by simp
  qed simp
  then show ?thesis unfolding init_bins_def NSMALLBINS_def by (simp add: bin_step_refl atLeast0LessThan)
qed

lemma top_foot_size: "TOP_FOOT_SIZE = 40"
  by (simp add: TOP_FOOT_SIZE_def align_offset_def chunk2mem_def pad_request_def malloc_constants)

text \<open>What the constructors and the kernel provide before the first request.\<close>

definition first_ok :: "u32 \<Rightarrow> u32 \<Rightarrow> heap \<Rightarrow> bool" where
  "first_ok b n h \<longleftrightarrow>
     m_smallmap h = 0 \<and> m_treemap h = 0 \<and> m_dv h = 0 \<and> m_dvsize h = 0 \<and> (\<forall>i<32. words h (treebin_at h i) = 0) \<and>
     unat (gm h) + 472 < 2 ^ 32 \<and> 8 dvd unat b \<and> 8 dvd unat n \<and> 0 < unat b \<and> 48 \<le> unat n \<and> unat b + unat n < 2 ^ 32 \<and>
     (unat b + unat n \<le> unat (gm h) \<or> unat (gm h) + 472 \<le> unat b)"

lemma init_top_aligned:
  assumes "8 dvd unat b"
  shows "init_top b m h =
    (set_head (b + m) 40 (set_head b (m OR PINUSE_BIT) (h\<lparr>m_top := b, m_topsize := m\<rparr>)))\<lparr>m_trim_check := mp_trim_threshold h\<rparr>"
proof -
  have "8 dvd (unat b + 8) mod 2 ^ 32" using assms by (intro dvd_mod) simp_all
  then have "(b + 8) AND 7 = 0" by (simp add: dvd_8 [symmetric] unat_word_ariths)
  then have "align_offset (chunk2mem b) = 0" by (simp add: align_offset_def chunk2mem_def malloc_constants)
  then show ?thesis by (simp add: init_top_def top_foot_size Let_def) (simp add: set_head_def store_def)
qed

lemma first_segment_inv:
  assumes ok: "first_ok b n h"
  shows "heap_inv (first_segment b n f h) [b \<mapsto> (n, Top)]" "m_topsize (first_segment b n f h) = n - 40"
    "m_release_checks (first_segment b n f h) = 4095" "m_trim_check (first_segment b n f h) = mp_trim_threshold h"
    "m_dvsize (first_segment b n f h) = 0" "m_smallmap (first_segment b n f h) = 0" "m_treemap (first_segment b n f h) = 0"
proof -
  have z: "m_smallmap h = 0" "m_treemap h = 0" "m_dv h = 0" "m_dvsize h = 0" and slots: "\<And>i. i < 32 \<Longrightarrow> words h (treebin_at h i) = 0"
    and g: "unat (gm h) + 472 < 2 ^ 32" and al: "8 dvd unat b" "8 dvd unat n" and sz: "0 < unat b" "48 \<le> unat n" "unat b + unat n < 2 ^ 32"
    and out: "unat b + unat n \<le> unat (gm h) \<or> unat (gm h) + 472 \<le> unat b"
    using ok by (auto simp: first_ok_def)
  define h1 where "h1 = (if m_least_addr h = 0 \<or> b < m_least_addr h then h\<lparr>m_least_addr := b\<rparr> else h)"
  define h2 where "h2 = set_seg_sflags (m_seg h1) f (set_seg_size (m_seg h1) n (set_seg_base (m_seg h1) b h1))"
  define h3 where "h3 = h2\<lparr>m_magic := mp_magic h2, m_release_checks := MAX_RELEASE_CHECK_RATE\<rparr>"
  define h4 where "h4 = init_bins h3"
  define hf where "hf = first_segment b n f h"
  let ?C = "[b \<mapsto> (n, Top)]"
  have hf: "hf = (set_head (b + (n - 40)) 40 (set_head b ((n - 40) OR PINUSE_BIT) (h4\<lparr>m_top := b, m_topsize := n - 40\<rparr>)))
      \<lparr>m_trim_check := mp_trim_threshold h4\<rparr>"
    unfolding hf_def first_segment_def Let_def top_foot_size init_top_aligned [OF al(1)]
    by (simp add: h4_def h3_def h2_def h1_def m_seg_def set_seg_sflags_def set_seg_size_def set_seg_base_def)
  have m3: "gm h3 = gm h" "m_smallmap h3 = 0" "m_treemap h3 = 0" "m_dv h3 = 0" "m_dvsize h3 = 0" "m_least_addr h3 \<le> b"
    "m_release_checks h3 = 4095" "mp_trim_threshold h3 = mp_trim_threshold h"
    using z by (auto simp: h3_def h2_def h1_def set_seg_sflags_def set_seg_size_def set_seg_base_def store_def MAX_RELEASE_CHECK_RATE_def)
  have step: "bin_step (bin_cells h3) h3 h4" "m_smallmap h4 = 0" "m_treemap h4 = 0"
    using init_bins_step [of h3] g m3(1-3) by (simp_all add: h4_def)
  have r4: "rest h4 = rest h3" using step(1) by (simp add: bin_step_def)
  have m4: "gm h4 = gm h" "m_dv h4 = 0" "m_dvsize h4 = 0" "m_least_addr h4 \<le> b" "m_release_checks h4 = 4095"
    using rest_eqD [OF r4] m3 by simp_all
  have trim4: "mp_trim_threshold h4 = mp_trim_threshold h"
    using arg_cong [OF r4, of mp_trim_threshold] m3(8) by (simp add: rest_def)
  have n40: "unat (n - 40) = unat n - 40" using sz(2) by (simp add: unat_sub word_le_nat_alt)
  have e4: "unat (b + 4) = unat b + 4" using sz by (simp add: unat_word_ariths)
  have "unat (b + m + 4) = unat b + unat m + 4" if "unat m = unat n - 40" for m using sz that by (simp add: unat_word_ariths)
  from this [OF n40] have ef: "unat (b + (n - 40) + 4) = unat b + unat n - 36" using n40 sz(2) by (simp del: add_diff_eq)
  have mf: "gm hf = gm h" "m_smallmap hf = 0" "m_treemap hf = 0" "m_dv hf = 0" "m_dvsize hf = 0" "m_least_addr hf \<le> b"
    "m_top hf = b" "m_topsize hf = n - 40" "m_release_checks hf = 4095" "m_trim_check hf = mp_trim_threshold h"
    using m4 step(2,3) trim4 by (simp_all add: hf set_head_def store_def)
  have slot: "words hf (treebin_at hf i) = 0" if i: "i < 32" for i
  proof -
    let ?a = "treebin_at h i"
    have a: "unat ?a = unat (gm h) + 304 + 4 * i" by (rule tree_slot [OF g i])
    have gw: "unat (gm h) + 304 \<le> unat ?a" "unat ?a < unat (gm h) + 432" using a i by simp_all
    have "unat (b + 4) \<noteq> unat ?a" "unat (b + (n - 40) + 4) \<noteq> unat ?a"
      using gw out e4 ef sz(2) by linarith+
    then have "words hf ?a = words h4 ?a" by (auto simp: hf)
    also have "\<dots> = words h3 ?a" using step(1) gw m3(1) by (auto simp: bin_step_def bin_cells_def)
    also have "\<dots> = words h ?a"
    proof -
      have s: "unat (gm h + 448 + of_nat k) = unat (gm h) + 448 + k" if "k \<le> 12" for k
        using gm_offset [of h "448 + of_nat k"] g that by (simp add: unat_word_ariths unat_of_nat add.assoc)
      have "unat (gm h + 448) \<noteq> unat ?a" "unat (gm h + 448 + 4) \<noteq> unat ?a" "unat (gm h + 448 + 12) \<noteq> unat ?a"
        using s [of 0] s [of 4] s [of 12] gw by simp_all
      then show ?thesis
        by (auto simp: h3_def h2_def h1_def m_seg_def set_seg_sflags_def set_seg_size_def set_seg_base_def)
    qed
    finally show ?thesis using slots [OF i] mf(1) by (simp add: treebin_at_def)
  qed
  have "bag hf (\<lambda>_. None)" by (rule bag_empty) (use g mf slot in simp_all)
  moreover have "binned (m_dv hf) ?C = (\<lambda>_. None)" by (simp add: binned_def fun_eq_iff)
  moreover have "tiles hf ?C"
  proof -
    have "b + (n - 40) + 4 \<noteq> b + 4" using sz(2) by auto
    then have "head hf b = head_of (n - 40) True False" by (simp add: head_def hf head_of_words)
    moreover have "\<not> prev_free ?C b" by (auto simp: prev_free_def free_end_def split: option.splits if_splits)
    moreover have "area hf b n" using al sz out mf(1,6) by (simp add: area_def)
    ultimately show ?thesis
      using g n40 sz(2) by (simp add: tiles_def apart_def mf)
  qed
  ultimately have "heap_inv hf ?C" by (simp add: heap_inv_def settled_def dv_ok_def mf(4,5))
  then show "heap_inv (first_segment b n f h) ?C" "m_topsize (first_segment b n f h) = n - 40"
    "m_release_checks (first_segment b n f h) = 4095" "m_trim_check (first_segment b n f h) = mp_trim_threshold h"
    "m_dvsize (first_segment b n f h) = 0" "m_smallmap (first_segment b n f h) = 0" "m_treemap (first_segment b n f h) = 0"
    using mf by (simp_all add: hf_def)
qed

section \<open>malloc\<close>

lemma used_apart:
  assumes i: "heap_inv h C" and p: "used_of C p = Some s" and q: "used_of C q = Some t" and ne: "p \<noteq> q"
  shows "payload p s \<inter> payload q t = {}"
proof -
  have "C p = Some (s, Used)" "C q = Some (t, Used)" using p q by (simp_all add: used_of_iff)
  then have "separate (p, s) (q, t)" "16 \<le> unat s" "16 \<le> unat t"
    using tilesD(4) [OF heap_invD(1) [OF i] _ _ ne] tilesD(3) [OF heap_invD(1) [OF i]] by fastforce+
  then show ?thesis by (auto simp: separate_def payload_def)
qed

text \<open>The \<open>bytes\<close> bytes from the address \<open>a\<close> on.\<close>

definition block :: "u32 \<Rightarrow> u32 \<Rightarrow> u32 set" where
  "block a bytes = {x. unat a \<le> unat x \<and> unat x < unat a + unat bytes}"

lemma block_in_payload:
  assumes i: "heap_inv h C" and p: "used_of C p = Some s" and b: "unat bytes + 4 \<le> unat s"
  shows "block (chunk2mem p) bytes \<subseteq> payload p s" "8 dvd unat (chunk2mem p)"
proof -
  have c: "C p = Some (s, Used)" using p by (simp add: used_of_iff)
  have a: "area h p s" "16 \<le> unat s" using tilesD(2,3) [OF heap_invD(1) [OF i] c] by simp_all
  then have e: "unat (chunk2mem p) = unat p + 8" by (auto simp: area_def chunk2mem_def unat_word_ariths)
  show "8 dvd unat (chunk2mem p)" using a unfolding e by (simp add: area_def)
  show "block (chunk2mem p) bytes \<subseteq> payload p s" using b by (auto simp: block_def payload_def e)
qed

lemma malloc_correct_full:
  assumes i: "heap_inv h C" and b: "bytes < MAX_REQUEST"
  shows "(\<exists>a h' C' s. dlmalloc bytes h = ret (a, h') \<and> heap_inv h' C' \<and> used_of C (mem2chunk a) = None \<and>
      used_of C' = (used_of C)(mem2chunk a \<mapsto> s) \<and> 8 dvd unat a \<and> block a bytes \<subseteq> payload (mem2chunk a) s \<and>
      (\<forall>q t. used_of C q = Some t \<longrightarrow> payload (mem2chunk a) s \<inter> payload q t = {} \<and> (\<forall>x\<in>payload q t. words h' x = words h x))) \<or>
    m_topsize h \<le> request2size bytes \<and> dlmalloc bytes h = sys_alloc (request2size bytes) h"
proof (cases "gives h C (request2size bytes) (dlmalloc bytes h)")
  case True
  then obtain h' C' p s where r: "dlmalloc bytes h = ret (chunk2mem p, h')" "used_of C p = None" "request2size bytes \<le> s"
    "heap_inv h' C'" "used_of C' = (used_of C)(p \<mapsto> s)" "same_data (used_of C) h h'"
    by (auto simp: gives_def allocated_def)
  have p': "used_of C' p = Some s" using r(5) by simp
  have "unat bytes + 4 \<le> unat s" using r(3) unat_request2size [OF b] by (auto simp: word_le_nat_alt split: if_splits)
  note bl = block_in_payload [OF r(4) p' this]
  have "payload p s \<inter> payload q t = {} \<and> (\<forall>x\<in>payload q t. words h' x = words h x)" if q: "used_of C q = Some t" for q t
  proof -
    have "q \<noteq> p" "used_of C' q = Some t" using q r(2,5) by auto
    then show ?thesis using used_apart [OF r(4) p'] r(6) q unfolding same_data_def by blast
  qed
  then show ?thesis
    using r bl by (intro disjI1 exI [of _ "chunk2mem p"] exI [of _ h'] exI [of _ C'] exI [of _ s]) (simp add: mem_chunk)
next
  case False
  then show ?thesis using dlmalloc_gives [OF i b] by blast
qed

section \<open>free\<close>

lemma free_correct_full:
  assumes i: "heap_inv h C" and p: "used_of C (mem2chunk a) = Some s"
  shows "\<exists>h' C'. dlfree a h = give_back h h' \<and> outcome h (hole_size h (mem2chunk a)) h' \<and> heap_inv h' C' \<and>
    used_of C' = (used_of C)(mem2chunk a := None) \<and>
    (\<forall>q t. used_of C q = Some t \<longrightarrow> q \<noteq> mem2chunk a \<longrightarrow> (\<forall>x\<in>payload q t. words h' x = words h x))"
proof -
  have a: "chunk2mem (mem2chunk a) = a" by (simp add: mem2chunk_def chunk2mem_def)
  obtain h' C' where r: "dlfree a h = give_back h h'" "outcome h (hole_size h (mem2chunk a)) h'" "heap_inv h' C'"
    "used_of C' = (used_of C)(mem2chunk a := None)" "same_data ((used_of C)(mem2chunk a := None)) h h'"
    using dlfree_runs [OF i p] unfolding freed_def a by blast
  have "words h' x = words h x" if "used_of C q = Some t" "q \<noteq> mem2chunk a" "x \<in> payload q t" for q t x
  proof -
    have "((used_of C)(mem2chunk a := None)) q = Some t" using that by simp
    then show ?thesis using r(5) that(3) unfolding same_data_def by blast
  qed
  then show ?thesis using r(1-4) by blast
qed

text \<open>A release that gives nothing back to the kernel.\<close>

definition calm :: "u32 \<Rightarrow> heap \<Rightarrow> bool" where
  "calm a h \<longleftrightarrow> \<not> should_trim h (m_topsize h + hole_size h (mem2chunk a)) \<and> m_release_checks h \<noteq> 1"

lemma calm_give_back:
  assumes "calm a h" and "outcome h (hole_size h (mem2chunk a)) h'"
  shows "give_back h h' = ret h'"
  using assms by (auto simp: calm_def outcome_def give_back_def should_trim_def)

section \<open>Requests that are too large\<close>

lemma too_large_fails:
  assumes "m_dvsize h \<noteq> - 1"
  shows "malloc_dv_top_sys (- 1) h = ret (0, ensure_initialization h)"
proof -
  have top: "x \<le> - 1" "\<not> - 1 < x" for x :: u32 by simp_all
  have "\<not> - 1 \<le> m_dvsize h" using assms by (metis top(1) order_antisym)
  then have "malloc_dv_top_sys (- 1) h = sys_alloc (- 1) h" by (simp add: malloc_dv_top_sys_def)
  also have "\<dots> = ret (0, ensure_initialization h)"
    by (simp add: sys_alloc_def Let_def mmap_alloc_def)
  finally show ?thesis .
qed

lemma calloc_too_large:
  assumes "2 ^ 32 - 64 \<le> unat n * unat e" and "m_dvsize h \<noteq> - 1"
  shows "dlcalloc n e h = ret (0, ensure_initialization h)"
proof -
  have "MAX_REQUEST \<le> calloc_request n e"
  proof (cases "unat n * unat e < 2 ^ 32")
    case True
    then have "unat (n * e) = unat n * unat e" by (simp add: unat_word_ariths)
    then show ?thesis using assms(1) True by (simp add: calloc_request_correct max_request word_le_nat_alt)
  qed (simp add: calloc_request_correct max_request)
  then have "\<not> calloc_request n e \<le> MAX_SMALL_REQUEST"
    by (simp add: max_request max_small_request word_le_nat_alt)
  then have "dlmalloc (calloc_request n e) h = ret (0, ensure_initialization h)"
    using \<open>MAX_REQUEST \<le> calloc_request n e\<close> too_large_fails [OF assms(2)] by (simp add: dlmalloc_def)
  then show ?thesis by (simp add: dlcalloc_def)
qed

section \<open>The properties\<close>

text \<open>A heap before the first request, and after its first segment was made.\<close>

definition idle_heap :: heap where
  "idle_heap =
     \<lparr>page_directory = [], page_tables = (\<lambda>_. 0), memory_size = 0, last_kernel_phaddr = 0x400000, pages = small_pool,
      vaddrs = small_pool, kernel_vaddr = (\<lambda>_. 0), kernel_vaddr_refcnt = (\<lambda>_. 0), gm = 0xC0110000, words = (\<lambda>_. 0),
      m_smallmap = 0, m_treemap = 0, m_dvsize = 0, m_topsize = 0, m_least_addr = 0, m_dv = 0, m_top = 0, m_trim_check = 0,
      m_release_checks = 0, m_magic = 0, m_footprint = 0, m_max_footprint = 0, m_footprint_limit = 0, m_mflags = 5,
      mp_magic = 8, mp_page_size = 4096, mp_granularity = 0x10000, mp_mmap_threshold = 0x40000, mp_trim_threshold = - 1,
      mp_default_mflags = 5, seed = 0\<rparr>"

definition started_heap :: heap where
  "started_heap = first_segment 0xC0400000 0x10000 1 idle_heap"

lemma started_heap_inv:
  "heap_inv started_heap [0xC0400000 \<mapsto> (0x10000, Top)]" "m_topsize started_heap = 0xFFD8" "m_release_checks started_heap = 4095"
  "m_trim_check started_heap = - 1" "m_dvsize started_heap = 0" "m_smallmap started_heap = 0" "m_treemap started_heap = 0"
proof -
  have "first_ok 0xC0400000 0x10000 idle_heap" by (simp add: first_ok_def idle_heap_def)
  note first_segment_inv [OF this, of 1]
  then show "heap_inv started_heap [0xC0400000 \<mapsto> (0x10000, Top)]" "m_topsize started_heap = 0xFFD8"
    "m_release_checks started_heap = 4095" "m_trim_check started_heap = - 1" "m_dvsize started_heap = 0"
    "m_smallmap started_heap = 0" "m_treemap started_heap = 0"
    by (simp_all add: started_heap_def idle_heap_def)
qed

lemma started_used: "used_of [0xC0400000 \<mapsto> (0x10000, Top)] = (\<lambda>_. None)"
  by (simp add: used_of_def fun_eq_iff)

lemma request_100: "(100 :: u32) < MAX_REQUEST" "request2size 100 = 104"
  by (simp_all add: max_request request2size_def malloc_constants pad_request_def)

text \<open>C2. \<^verbatim>\<open>malloc\<close> of any size below the limit, on a heap that keeps the invariant. Either it hands out a
  block that is aligned to eight bytes, holds the bytes asked for, and shares nothing with a block in use;
  the invariant is kept and all blocks keep their contents. Or the top chunk is too small too, and
  \<^verbatim>\<open>sys_alloc\<close> takes over with the heap unchanged. So every place where \<^verbatim>\<open>malloc\<close> looks (the exact and the
  next small bin, the two tree searches, the designated victim, the top chunk) is safe, and no loop runs
  for ever and no run-time check fails.\<close>

theorem malloc_correct:
  assumes "heap_inv h C" and "bytes < MAX_REQUEST"
  shows "(\<exists>a h' C' s. dlmalloc bytes h = ret (a, h') \<and> heap_inv h' C' \<and> used_of C (mem2chunk a) = None \<and>
      used_of C' = (used_of C)(mem2chunk a \<mapsto> s) \<and> 8 dvd unat a \<and> block a bytes \<subseteq> payload (mem2chunk a) s \<and>
      (\<forall>q t. used_of C q = Some t \<longrightarrow> payload (mem2chunk a) s \<inter> payload q t = {} \<and> (\<forall>x\<in>payload q t. words h' x = words h x))) \<or>
    m_topsize h \<le> request2size bytes \<and> dlmalloc bytes h = sys_alloc (request2size bytes) h"
  by (rule malloc_correct_full [OF assms])

theorem malloc_correct_witness:
  "\<exists>a h' C' s. dlmalloc 100 started_heap = ret (a, h') \<and> heap_inv h' C' \<and> used_of C' = [mem2chunk a \<mapsto> s] \<and>
     8 dvd unat a \<and> block a 100 \<subseteq> payload (mem2chunk a) s"
  using malloc_correct [OF started_heap_inv(1) request_100(1)] unfolding started_used request_100(2) started_heap_inv(2)
  by auto

text \<open>C3. \<^verbatim>\<open>free\<close> of a block in use, on a heap that keeps the invariant: the block is merged with its free
  neighbours and put into a bin, the designated victim or the top chunk; after that the invariant holds,
  exactly this block is no longer in use, and all others keep their contents. From that state the function
  returns, or it goes on to trim the top or to release segments, exactly when the top chunk has grown
  above the threshold or the countdown of releases has run out.\<close>

theorem free_correct:
  assumes "heap_inv h C" and "used_of C (mem2chunk a) = Some s"
  shows "\<exists>h' C'. dlfree a h = give_back h h' \<and> outcome h (hole_size h (mem2chunk a)) h' \<and> heap_inv h' C' \<and>
    used_of C' = (used_of C)(mem2chunk a := None) \<and>
    (\<forall>q t. used_of C q = Some t \<longrightarrow> q \<noteq> mem2chunk a \<longrightarrow> (\<forall>x\<in>payload q t. words h' x = words h x))"
  by (rule free_correct_full [OF assms])

theorem free_correct_witness:
  "\<exists>a h1 h2 C2. dlmalloc 100 started_heap = ret (a, h1) \<and> dlfree a h1 = give_back h1 h2 \<and> heap_inv h2 C2 \<and>
     used_of C2 = (\<lambda>_. None)"
proof -
  obtain a h1 C1 s where m: "dlmalloc 100 started_heap = ret (a, h1)" "heap_inv h1 C1" "used_of C1 = [mem2chunk a \<mapsto> s]"
    using malloc_correct_full [OF started_heap_inv(1) request_100(1)] unfolding started_used request_100(2) started_heap_inv(2)
    by auto
  have "used_of C1 (mem2chunk a) = Some s" by (simp add: m(3))
  from free_correct [OF m(2) this] obtain h2 C2 where "dlfree a h1 = give_back h1 h2" "heap_inv h2 C2"
    "used_of C2 = (used_of C1)(mem2chunk a := None)" by blast
  then show ?thesis using m(1,3) by (intro exI [of _ a] exI [of _ h1] exI [of _ h2] exI [of _ C2]) simp
qed

end
