(* ===== verification/MallocResize.thy ===== *)
theory MallocResize
  imports MallocFree
begin

text \<open>
  \<^verbatim>\<open>try_realloc_chunk\<close> of \<^verbatim>\<open>malloc.c\<close> on a heap that keeps the invariant: a chunk in use changes its size at
  its place, by giving back its end or by taking what follows, and all data stay.
\<close>

section \<open>A chunk in use is taken apart\<close>

text \<open>A chunk keeps the flag that tells of the chunk before it.\<close>

definition pin_ok :: "heap \<Rightarrow> row \<Rightarrow> u32 \<Rightarrow> bool" where
  "pin_ok h C p \<longleftrightarrow> (pinuse h p \<longleftrightarrow> \<not> prev_free C p)"

lemma work_set_inuse:
  assumes w: "work h C B V" and p: "C p = Some (s, Hole b)" and pin: "pin_ok h C p"
    and h': "h' = (if b then set_inuse p s h else set_head p ((head h p AND PINUSE_BIT) OR s OR CINUSE_BIT) h)"
  shows "work h' (C(p \<mapsto> (s, Used))) B (V(p \<mapsto> s)) \<and> same_data V h h' \<and> keeps h h'"
proof -
  note off = chunk_ends_off [OF workD(1) [OF w] p]
  note ds = set_inuse_def set_pinuse_def
  have wr: "writes {p + 4, p + s + 4} h h'" by (simp add: h' writes_def ds)
  have k: "keeps h h'" by (simp add: h' ds keeps_refl)
  have maps: "m_smallmap h' = m_smallmap h" "m_treemap h' = m_treemap h" by (simp_all add: h' ds)
  have one: "head h p AND 1 = (if pinuse h p then 1 else 0)"
    by (auto simp: pinuse_def flag_masks and_one_eq odd_iff_mod_2_eq_one)
  have kp: "(head h p AND PINUSE_BIT) OR s OR CINUSE_BIT = head_of s (\<not> prev_free C p) True"
    using pin by (auto simp: pin_ok_def head_of_def flag_masks one or.assoc [symmetric] or.commute)
  have hd: "head h' p = head_of s (\<not> prev_free C p) True" "head h' (p + s) = (if b then head h (p + s) OR 1 else head h (p + s))"
    using off unfolding h' ds kp by (simp_all add: head_def flag_masks(4))
  have t': "tiles h' (C(p \<mapsto> (s, Used)))"
    by (rule tiles_use [OF workD(1) [OF w] p wr _ _ hd]) (use keepsD [OF k] in simp_all)
  have "writes {p + 4, p + s, p + s + 4} h h'" by (rule writes_mono [OF wr]) auto
  then have "work h' (C(p \<mapsto> (s, Used))) B V \<and> same_data V h h' \<and> keeps h h'"
    by (rule work_writes [OF w p _ t' _ k maps]) simp
  then show ?thesis using used_in_add [of "C(p \<mapsto> (s, Used))" V p s] by (simp add: work_def)
qed

lemma used_hole:
  assumes w: "work h C B V" and p: "C p = Some (s, Used)"
  defines "C1 \<equiv> C(p \<mapsto> (s, Hole False))"
  shows "work h C1 B (V(p := None))" "C1 p = Some (s, Hole False)" "pin_ok h C1 p"
proof -
  note t = workD(1) [OF w]
  have "work h C B (V(p := None))" using w by (auto simp: work_def used_in_def)
  moreover have "B p = None" using withinD [OF workD(3) [OF w], of p] p by (cases "B p") auto
  ultimately show "work h C1 B (V(p := None))" using work_hole [of h C B "V(p := None)" p s Used] p by (simp add: C1_def)
  show "C1 p = Some (s, Hole False)" by (simp add: C1_def)
  have "prev_free C1 p \<longleftrightarrow> prev_free C p"
    using prev_free_step [OF t p, of p C1] chunk_ends_off(1) [OF t p] by (simp add: C1_def free_end_def)
  moreover have "8 dvd unat s" using tilesD(2) [OF t p] by (simp add: area_def)
  ultimately show "pin_ok h C1 p"
    using tilesD(3) [OF t p] head_of_flags(1) [of s _ True] by (simp add: pin_ok_def pinuse_def flag_masks)
qed

text \<open>A free chunk that follows and is out of the bins is joined.\<close>

lemma used_join:
  assumes w: "work h C B V" and p: "C p = Some (s, Used)" and n: "C (p + s) = Some (u, Free)" "B (p + s) = None"
    and set: "settled C"
  defines "C2 \<equiv> C(p + s := None, p \<mapsto> (s + u, Hole True))"
  shows "work h C2 B (V(p := None))" "C2 p = Some (s + u, Hole True)" "pin_ok h C2 p" "p + s \<noteq> p"
    "next_is C2 (p + (s + u)) (\<lambda>k. k = Used \<or> k = Fence)" "unat (s + u) = unat s + unat u"
proof -
  let ?n = "p + s" and ?V = "V(p := None)" and ?C1 = "C(p \<mapsto> (s, Hole False))"
  let ?C = "?C1(?n \<mapsto> (u, Hole True))"
  note t = workD(1) [OF w] and hole = used_hole [OF w p]
  show np: "?n \<noteq> p" by (rule chunk_ends_off(1) [OF t p])
  have au: "area h ?n u" and ap: "area h p s" using tilesD(2) [OF t n(1)] tilesD(2) [OF t p] .
  have e: "p + (s + u) = ?n + u" by simp
  have un: "unat ?n = unat p + unat s" "unat (?n + u) = unat ?n + unat u" using area_end [OF ap] area_end [OF au] .
  have ne: "?n + u \<noteq> p" "?n + u \<noteq> ?n"
  proof -
    have "unat (?n + u) \<noteq> unat p" "unat (?n + u) \<noteq> unat ?n" using un ap au by (simp_all add: area_def)
    then show "?n + u \<noteq> p" "?n + u \<noteq> ?n" by metis+
  qed
  have "unat s + unat u < 2 ^ 32" using au un(1) by (simp add: area_def)
  then show "unat (s + u) = unat s + unat u" by (simp add: unat_word_ariths)
  have n1: "?C1 ?n = Some (u, Free)" using n(1) np by simp
  have "?V ?n = None" using workD(4) [OF w] n(1) by (cases "V ?n") (auto simp: used_in_def)
  then have "work h (?C1(?n \<mapsto> (u, Hole (Free = Free)))) B ?V" by (intro work_hole [OF hole(1) n1 _ n(2)]) simp_all
  then have w1: "work h ?C B ?V" by simp
  have "?C p = Some (s, Hole False)" "?C ?n = Some (u, Hole True)" using np by auto
  note j = work_join [OF w1 this]
  have C2: "?C(?n := None, p \<mapsto> (s + u, Hole True)) = C2" unfolding C2_def by auto
  show "work h C2 B ?V" using j unfolding C2 .
  show "C2 p = Some (s + u, Hole True)" by (simp add: C2_def)
  have "prev_free C2 p \<longleftrightarrow> prev_free ?C1 p"
  proof (rule prev_free_cong)
    fix r
    show "free_end C2 r p \<longleftrightarrow> free_end ?C1 r p"
      using ne np n(1) e by (cases "r = p"; cases "r = ?n") (simp_all add: C2_def free_end_def)
  qed
  then show "pin_ok h C2 p" using hole(3) by (simp add: pin_ok_def)
  show "next_is C2 (p + (s + u)) (\<lambda>k. k = Used \<or> k = Fence)"
    unfolding e using settled_next [OF t set n(1)] ne by (simp add: C2_def next_is_def)
qed

text \<open>The first part is used again, the rest is a hole.\<close>

lemma cut_keep:
  assumes w: "work h C B V" and p: "C p = Some (s, Hole b)" and pin: "pin_ok h C p"
    and nb: "8 dvd unat nb" "16 \<le> unat nb" "unat nb + 16 \<le> unat s"
    and h1: "h1 = set_head p ((head h p AND PINUSE_BIT) OR nb OR CINUSE_BIT) h"
  defines "C1 \<equiv> C(p \<mapsto> (nb, Used), p + nb \<mapsto> (s - nb, Hole b))"
  shows "work h1 C1 B (V(p \<mapsto> nb))" "same_data V h h1" "keeps h h1" "C1 (p + nb) = Some (s - nb, Hole b)"
    "\<not> prev_free C1 (p + nb)" "C (p + nb) = None" "p + nb \<noteq> p" "p + nb + (s - nb) = p + s"
proof -
  let ?r = "p + nb" and ?C = "C(p \<mapsto> (nb, Hole False), p + nb \<mapsto> (s - nb, Hole b))"
  note t = workD(1) [OF w] and sp = work_split [OF w p nb]
  show r: "C ?r = None" by (rule sp(2))
  show rp: "?r \<noteq> p" using nb by auto
  show e: "?r + (s - nb) = p + s" by simp
  have Cp: "?C p = Some (nb, Hole False)" using rp by simp
  have "prev_free ?C p \<longleftrightarrow> prev_free C p"
    using prev_free_step [OF t p, of ?r ?C] r rp chunk_ends_off(1) [OF t p] by (simp add: free_end_def)
  then have "pin_ok h ?C p" using pin by (simp add: pin_ok_def)
  note u = work_set_inuse [OF sp(1) Cp this, of h1]
  have C1: "?C(p \<mapsto> (nb, Used)) = C1" using rp by (auto simp: C1_def)
  show w1: "work h1 C1 B (V(p \<mapsto> nb))" "same_data V h h1" "keeps h h1" using u h1 unfolding C1 by simp_all
  show "C1 ?r = Some (s - nb, Hole b)" by (simp add: C1_def)
  have "C1 p = Some (nb, Used)" using rp by (simp add: C1_def)
  then show "\<not> prev_free C1 ?r" using prev_free_end [OF workD(1) [OF w1(1)], of p nb Used] by simp
qed

lemma set_pinuse_id: "head h p OR 1 = head h p \<Longrightarrow> set_pinuse p h = h"
  by (simp add: set_pinuse_def set_head_def store_def head_def flag_masks)

text \<open>The rest is used, too.\<close>

lemma cut_use:
  assumes w: "work h C B V" and p: "C p = Some (s, Hole b)" and pin: "pin_ok h C p" and nx: "b \<or> pinuse h (p + s)"
    and nb: "8 dvd unat nb" "16 \<le> unat nb" "unat nb + 16 \<le> unat s"
    and h': "h' = set_inuse (p + nb) (s - nb) (set_inuse p nb h)"
  defines "C2 \<equiv> C(p \<mapsto> (nb, Used), p + nb \<mapsto> (s - nb, Used))"
  shows "work h' C2 B (V(p \<mapsto> nb, p + nb \<mapsto> s - nb))" "same_data V h h'" "keeps h h'" "C (p + nb) = None" "p + nb \<noteq> p"
    "writes {p + 4, p + nb + 4, p + s + 4} h h'"
proof -
  let ?r = "p + nb"
  define h1 where "h1 = set_head p ((head h p AND PINUSE_BIT) OR nb OR CINUSE_BIT) h"
  define h2 where "h2 = (if b then set_inuse_and_pinuse ?r (s - nb) h1 else set_size_and_pinuse_of_inuse_chunk ?r (s - nb) h1)"
  note c = cut_keep [OF w p pin nb h1_def]
  note u = work_use [OF c(1,4,5) h2_def]
  have off: "p + s + 4 \<noteq> p + 4" "p + s \<noteq> ?r" using chunk_ends_off(3) [OF workD(1) [OF w] p] nb by auto
  have one: "(x OR 1) AND 1 = (1 :: u32)" "1 OR (x OR 2) = x OR (3 :: u32)" for x
    by (rule pin_bit(2)) (unfold or.left_commute [of 1], simp)
  have set: "x OR 1 = x" if "x AND 1 \<noteq> 0" for x :: u32
  proof (rule bit_word_eqI)
    fix n
    obtain m where "bit (x AND 1) m" using \<open>x AND 1 \<noteq> 0\<close> by (auto simp: bit_eq_iff)
    then have "bit x 0" unfolding bit_not_flags by auto
    then show "bit (x OR 1) n \<longleftrightarrow> bit x n" unfolding bit_not_flags by auto
  qed
  define g where "g = set_size_and_pinuse_of_inuse_chunk ?r (s - nb) h1"
  have hg: "h' = set_pinuse (p + s) g"
    using off c(7)
    by (simp add: h' g_def h1_def set_inuse_def set_pinuse_def set_size_and_pinuse_of_inuse_chunk_def set_head_def store_def
        head_def flag_masks one ac_simps fun_upd_twist)
  have "head g (p + s) = head h (p + s)"
    using off c(7) by (simp add: head_def g_def h1_def set_size_and_pinuse_of_inuse_chunk_def)
  then have "\<not> b \<Longrightarrow> set_pinuse (p + s) g = g" using nx set by (intro set_pinuse_id) (simp add: pinuse_def flag_masks)
  then have "h' = h2"
    unfolding hg h2_def by (simp add: set_inuse_and_pinuse_def g_def set_size_and_pinuse_of_inuse_chunk_def)
  have C2: "(C(p \<mapsto> (nb, Used), ?r \<mapsto> (s - nb, Hole b)))(?r \<mapsto> (s - nb, Used)) = C2" by (simp add: C2_def)
  show "work h' C2 B (V(p \<mapsto> nb, ?r \<mapsto> s - nb))" using u unfolding C2 \<open>h' = h2\<close> by simp
  have "V p = None" using work_none [OF w, of p s "Hole b"] p by simp
  then have "same_data V h1 h2" using u unfolding same_data_def by (metis fun_upd_apply option.distinct(1))
  then show "same_data V h h'" using same_data_trans [OF c(2)] \<open>h' = h2\<close> by simp
  show "keeps h h'" using keeps_trans [OF c(3)] u \<open>h' = h2\<close> by simp
  show "C ?r = None" "?r \<noteq> p" using c by simp_all
  show "writes {p + 4, ?r + 4, p + s + 4} h h'"
    by (auto simp: h' writes_def set_inuse_def set_pinuse_def set_head_def store_def)
qed

section \<open>What a change of the size does\<close>

definition resized :: "heap \<Rightarrow> row \<Rightarrow> u32 \<Rightarrow> u32 \<Rightarrow> u32 \<Rightarrow> heap \<Rightarrow> bool" where
  "resized h C p s t h' \<longleftrightarrow>
     (\<exists>C'. heap_inv h' C' \<and> used_of C' = (used_of C)(p \<mapsto> t)) \<and> same_data ((used_of C)(p := None)) h h' \<and>
     (\<forall>x\<in>payload p s \<inter> payload p t. words h' x = words h x)"

text \<open>The chunk at \<open>p\<close> of size \<open>s\<close> is a hole of size \<open>z\<close>, joined with what follows or not.\<close>

definition opened :: "heap \<Rightarrow> row \<Rightarrow> u32 \<Rightarrow> u32 \<Rightarrow> heap \<Rightarrow> row \<Rightarrow> u32 \<Rightarrow> bool \<Rightarrow> bool" where
  "opened h C p s g D z b \<longleftrightarrow>
     work g D (binned (m_dv g) D) ((used_of C)(p := None)) \<and> used_of D = (used_of C)(p := None) \<and> same_data (used_of C) h g \<and>
     used_of C p = Some s \<and> D p = Some (z, Hole b) \<and> pin_ok g D p \<and> (b \<or> pinuse g (p + z)) \<and> dv_ok g D \<and>
     (\<forall>r u b. r \<noteq> p \<longrightarrow> D r \<noteq> Some (u, Hole b)) \<and> (b \<longrightarrow> next_is D (p + z) (\<lambda>k. k = Used \<or> k = Fence))"

lemma openedD:
  assumes "opened h C p s g D z b"
  shows "work g D (binned (m_dv g) D) ((used_of C)(p := None))" "used_of D = (used_of C)(p := None)" "same_data (used_of C) h g"
    "used_of C p = Some s" "D p = Some (z, Hole b)" "pin_ok g D p" "b \<or> pinuse g (p + z)" "dv_ok g D"
    "\<forall>r u b. r \<noteq> p \<longrightarrow> D r \<noteq> Some (u, Hole b)" "b \<Longrightarrow> next_is D (p + z) (\<lambda>k. k = Used \<or> k = Fence)"
  using assms by (simp_all add: opened_def)

text \<open>The words that are written are not the user's.\<close>

lemma payload_heads:
  assumes a: "area h p z" and "unat t \<le> unat z" "16 \<le> unat t" and x: "x \<in> payload p t"
  shows "x \<noteq> p + 4" "x \<noteq> p + t + 4" "x \<noteq> p + z + 4" "unat t + 16 \<le> unat z \<Longrightarrow> x \<noteq> p + z"
proof -
  have e: "unat (p + 4) = unat p + 4" "unat (p + t) = unat p + unat t" "unat (p + z) = unat p + unat z"
    using assms(1-3) by (auto simp: area_def unat_word_ariths)
  have w: "unat (y + 4) = unat y + 4" if y: "8 dvd unat y" for y :: u32
  proof -
    obtain k where "unat y = 8 * k" using y by (rule dvdE)
    then have "unat y + 4 < 2 ^ 32" using unat_limit(3) [of y] by simp
    then show ?thesis by (simp add: unat_word_ariths)
  qed
  show "x \<noteq> p + 4" using x e by (auto simp: payload_def)
  have z: "unat (p + z + 4) = unat p + unat z + 4" using w [OF area_aligned(2) [OF a]] e by simp
  show "x \<noteq> p + z + 4" using x z assms(2) by (auto simp: payload_def)
  have "unat p + unat t + 4 < 2 ^ 32" using z assms(2) unat_limit(3) [of "p + z + 4"] by simp
  then have "unat (p + t + 4) = unat p + unat t + 4" using e(2) by (simp add: unat_word_ariths)
  then show "x \<noteq> p + t + 4" using x by (auto simp: payload_def)
  show "unat t + 16 \<le> unat z \<Longrightarrow> x \<noteq> p + z" using x e by (auto simp: payload_def)
qed

lemma opened_area: "opened h C p s g D z b \<Longrightarrow> area g p z" "opened h C p s g D z b \<Longrightarrow> 16 \<le> unat z"
  using openedD(1,5) workD(1) tilesD(2,3) by (meson, fastforce)

text \<open>The data of a chunk whose size changes.\<close>

lemma resized_intro:
  assumes o: "opened h C p s g D z b" and inv: "heap_inv h' C'" "used_of C' = (used_of C)(p \<mapsto> t)"
    and sd: "same_data ((used_of C)(p := None)) g h'"
    and own: "\<And>x. x \<in> payload p t \<Longrightarrow> words h' x = words g x"
  shows "resized h C p s t h'"
proof -
  note d = openedD [OF o]
  have "words h' x = words h x" if "x \<in> payload p s" "x \<in> payload p t" for x
    using own [OF that(2)] d(3,4) that(1) unfolding same_data_def by metis
  moreover have "same_data ((used_of C)(p := None)) h g" using d(3) by (simp add: same_data_def)
  ultimately show ?thesis unfolding resized_def using inv same_data_trans [OF _ sd] by blast
qed

text \<open>All of the hole is used.\<close>

lemma opened_whole:
  assumes o: "opened h C p s g D z True"
  shows "resized h C p s z (set_inuse p z g)"
proof -
  note d = openedD [OF o] and a = opened_area [OF o]
  let ?h = "set_inuse p z g" and ?D = "D(p \<mapsto> (z, Used))"
  have u: "work ?h ?D (binned (m_dv g) D) ((used_of C)(p := None, p \<mapsto> z))" "same_data ((used_of C)(p := None)) g ?h" "keeps g ?h"
    using work_set_inuse [OF d(1,5,6), of ?h] by simp_all
  have k: "m_dv ?h = m_dv g" "m_dvsize ?h = m_dvsize g" using keepsD(3,4) [OF u(3)] .
  have "binned (m_dv g) D = binned (m_dv ?h) ?D" using d(5) by (auto simp: k binned_def fun_eq_iff)
  moreover have "dv_ok ?h ?D" using d(5,8) by (auto simp: dv_ok_def k split: if_splits)
  ultimately have "heap_inv ?h ?D" using d(9) by (intro work_end [OF u(1)]) (auto simp: settled_def)
  moreover have "used_of ?D = (used_of C)(p \<mapsto> z)" using d(2) by (simp add: used_of_upd)
  moreover have "words ?h x = words g x" if "x \<in> payload p z" for x
    using payload_heads [OF a(1) le_refl a(2) that] by (simp add: set_inuse_def set_pinuse_def)
  ultimately show ?thesis by (intro resized_intro [OF o _ _ u(2)])
qed

text \<open>The hole is used as two chunks.\<close>

lemma opened_cut:
  assumes o: "opened h C p s g D z b" and nb: "8 dvd unat nb" "16 \<le> unat nb" "unat nb + 16 \<le> unat z"
    and h1: "h1 = set_inuse (p + nb) (z - nb) (set_inuse p nb g)"
  shows "\<exists>D'. heap_inv h1 D' \<and> used_of D' = (used_of C)(p \<mapsto> nb, p + nb \<mapsto> z - nb)" "used_of C (p + nb) = None"
    "p + nb \<noteq> p" "same_data ((used_of C)(p := None)) g h1" "writes {p + 4, p + nb + 4, p + z + 4} g h1"
proof -
  note d = openedD [OF o]
  let ?r = "p + nb" and ?V = "(used_of C)(p := None)"
  let ?D = "D(p \<mapsto> (nb, Used), ?r \<mapsto> (z - nb, Used))"
  note c = cut_use [OF d(1,5-7) nb h1]
  show "?r \<noteq> p" "same_data ?V g h1" "writes {p + 4, ?r + 4, p + z + 4} g h1" using c(5,2,6) .
  have k: "m_dv h1 = m_dv g" "m_dvsize h1 = m_dvsize g" using keepsD(3,4) [OF c(3)] .
  have "binned (m_dv g) D = binned (m_dv h1) ?D" using d(5) c(4) by (auto simp: k binned_def fun_eq_iff)
  moreover have "dv_ok h1 ?D" using d(5,8) c(4) by (auto simp: dv_ok_def k split: if_splits)
  moreover have "settled ?D" using d(9) by (auto simp: settled_def)
  ultimately have "heap_inv h1 ?D" by (intro work_end [OF c(1)])
  moreover have "used_of ?D = (used_of C)(p \<mapsto> nb, ?r \<mapsto> z - nb)" using d(2) by (simp add: used_of_upd)
  ultimately show "\<exists>D'. heap_inv h1 D' \<and> used_of D' = (used_of C)(p \<mapsto> nb, ?r \<mapsto> z - nb)" by blast
  show "used_of C ?r = None" using d(2) used_of_none [of D ?r] c(4,5) by (metis fun_upd_apply)
qed

text \<open>The rest is given back.\<close>

lemma opened_rest:
  assumes o: "opened h C p s g D z b" and nb: "8 dvd unat nb" "16 \<le> unat nb" "unat nb + 16 \<le> unat z"
  shows "\<exists>h'. give_back_rest p nb (z - nb) g = ret h' \<and> resized h C p s nb h'"
proof -
  note a = opened_area [OF o]
  let ?r = "p + nb" and ?V = "(used_of C)(p := None)"
  define h1 where "h1 = set_inuse ?r (z - nb) (set_inuse p nb g)"
  note c = opened_cut [OF o nb h1_def]
  obtain D' where D: "heap_inv h1 D'" "used_of D' = (used_of C)(p \<mapsto> nb, ?r \<mapsto> z - nb)" using c(1) by blast
  then have "used_of D' ?r = Some (z - nb)" by simp
  from dispose_chunk_runs [OF D(1) this] obtain h' where h': "dispose_chunk ?r (z - nb) h1 = ret h'"
    "freed h1 ((used_of D')(?r := None)) h'" by blast
  have V: "(used_of D')(?r := None) = (used_of C)(p \<mapsto> nb)" unfolding D(2) using c(2,3) by (simp add: fun_eq_iff)
  obtain C' where C': "heap_inv h' C'" "used_of C' = (used_of C)(p \<mapsto> nb)" "same_data ((used_of C)(p \<mapsto> nb)) h1 h'"
    using h'(2) unfolding freed_def V by blast
  have "same_data ?V h1 h'" using C'(3) unfolding same_data_def by (metis fun_upd_apply option.distinct(1))
  then have sd: "same_data ?V g h'" by (rule same_data_trans [OF c(4)])
  have "words h' x = words g x" if x: "x \<in> payload p nb" for x
  proof -
    have "words h' x = words h1 x" using C'(3) x unfolding same_data_def by (metis fun_upd_same)
    moreover have "unat nb \<le> unat z" using nb by simp
    from payload_heads [OF a(1) this nb(2) x] have "words h1 x = words g x" using c(5) by (simp add: writes_def)
    ultimately show ?thesis by simp
  qed
  then have "resized h C p s nb h'" by (intro resized_intro [OF o C'(1,2) sd])
  then show ?thesis using h'(1) by (simp add: give_back_rest_def Let_def h1_def)
qed

text \<open>The front is given back; the writes come in the other order.\<close>

lemma set_inuse_swap:
  assumes "p + nb \<noteq> p" and "p + nb + t \<noteq> p" and "p + nb + t \<noteq> p + nb"
  shows "set_inuse p nb (set_inuse (p + nb) t h) = set_inuse (p + nb) t (set_inuse p nb h)"
proof -
  have one: "(x OR 1) AND 1 = (1 :: u32)" "((x AND 1) OR y) OR 1 = (1 :: u32) OR y" for x y
    by (rule bit_word_eqI; simp add: bit_simps; blast)+
  have "p + nb + 4 \<noteq> p + 4" "p + nb + t + 4 \<noteq> p + 4" "p + nb + t + 4 \<noteq> p + nb + 4" using assms by simp_all
  then show ?thesis
    unfolding set_inuse_def set_pinuse_def set_head_def store_def head_def flag_masks
    by (simp add: one fun_upd_twist del: add_right_cancel add_left_cancel add_diff_cancel_left add.assoc)
qed

lemma opened_front:
  assumes o: "opened h C p s g D z b" and nb: "8 dvd unat nb" "16 \<le> unat nb" "unat nb + 16 \<le> unat z"
  shows "\<exists>h' C'. dispose_chunk p nb (set_inuse p nb (set_inuse (p + nb) (z - nb) g)) = ret h' \<and> heap_inv h' C' \<and>
    used_of C' = (used_of C)(p := None, p + nb \<mapsto> z - nb) \<and> same_data ((used_of C)(p := None)) h h'"
proof -
  note d = openedD [OF o]
  let ?r = "p + nb" and ?V = "(used_of C)(p := None)"
  define h1 where "h1 = set_inuse ?r (z - nb) (set_inuse p nb g)"
  note c = opened_cut [OF o nb h1_def]
  have e: "set_inuse p nb (set_inuse ?r (z - nb) g) = h1"
    unfolding h1_def
    by (rule set_inuse_swap) (use c(3) nb chunk_ends_off(1) [OF workD(1) [OF d(1)] d(5)] in auto)
  obtain D' where D: "heap_inv h1 D'" "used_of D' = (used_of C)(p \<mapsto> nb, ?r \<mapsto> z - nb)" using c(1) by blast
  then have "used_of D' p = Some nb" using c(3) by simp
  from dispose_chunk_runs [OF D(1) this] obtain h' where h': "dispose_chunk p nb h1 = ret h'"
    "freed h1 ((used_of D')(p := None)) h'" by blast
  have V: "(used_of D')(p := None) = ?V(?r \<mapsto> z - nb)" unfolding D(2) using c(3) by (simp add: fun_eq_iff)
  obtain C' where C': "heap_inv h' C'" "used_of C' = ?V(?r \<mapsto> z - nb)" "same_data (?V(?r \<mapsto> z - nb)) h1 h'"
    using h'(2) unfolding freed_def V by blast
  have "same_data ?V h1 h'" using C'(3) c(2) unfolding same_data_def by (metis fun_upd_apply option.distinct(1))
  then have "same_data ?V g h'" by (rule same_data_trans [OF c(4)])
  moreover have "same_data ?V h g" using d(3) by (simp add: same_data_def)
  ultimately show ?thesis using h'(1) C'(1,2) same_data_trans unfolding e by blast
qed

text \<open>The rest becomes the designated victim again.\<close>

lemma opened_dv:
  assumes o: "opened h C p s g D z True" and nb: "8 dvd unat nb" "16 \<le> unat nb" "unat nb + 16 \<le> unat z"
    and dv: "m_dv g = 0" "m_dvsize g = 0"
    and h': "h' = clear_pinuse (p + z) (set_size_and_pinuse_of_free_chunk (p + nb) (z - nb) (set_inuse p nb g))"
  shows "resized h C p s nb (h'\<lparr>m_dvsize := z - nb, m_dv := p + nb\<rparr>)"
proof -
  note d = openedD [OF o] and a = opened_area [OF o]
  let ?r = "p + nb" and ?V = "(used_of C)(p := None)"
  define h1 where "h1 = set_head p ((head g p AND PINUSE_BIT) OR nb OR CINUSE_BIT) g"
  let ?C1 = "D(p \<mapsto> (nb, Used), ?r \<mapsto> (z - nb, Hole True))" and ?D = "D(p \<mapsto> (nb, Used), ?r \<mapsto> (z - nb, Free))"
  let ?h = "h'\<lparr>m_dvsize := z - nb, m_dv := ?r\<rparr>"
  note c = cut_keep [OF d(1,5,6) nb h1_def]
  have off: "p + z \<noteq> p" "p + z + 4 \<noteq> p + 4" "p + 4 \<noteq> p + z" "p + z \<noteq> p + z + 4" "p + z \<noteq> ?r"
    using chunk_ends_off [OF workD(1) [OF d(1)] d(5)] nb by auto
  have "8 dvd unat ?r" "8 dvd unat (p + z)"
    using area_aligned(1) [OF tilesD(2) [OF workD(1) [OF c(1)] c(4)]] area_aligned(2) [OF a(1)] by simp_all
  then have off2: "?r + 4 \<noteq> p + z" using aligned_off by metis
  have h1': "h' = set_free_with_pinuse ?r (z - nb) (?r + (z - nb)) h1"
    unfolding c(8) using off off2 c(7)
    by (simp add: h' h1_def set_free_with_pinuse_def clear_pinuse_def set_size_and_pinuse_of_free_chunk_def set_foot_def
        set_prev_foot_def set_inuse_def set_pinuse_def set_head_def store_def head_def fun_upd_twist)
  have "next_is ?C1 (?r + (z - nb)) (\<lambda>k. k = Used \<or> k = Fence)"
    unfolding c(8) using d(10) off by (simp add: next_is_def)
  then have f: "work h' (?C1(?r \<mapsto> (z - nb, Free))) (binned (m_dv g) D) (?V(p \<mapsto> nb))" "same_data (?V(p \<mapsto> nb)) h1 h'" "keeps h1 h'"
    using work_free [OF c(1,4,5)] h1' by blast+
  have D: "?C1(?r \<mapsto> (z - nb, Free)) = ?D" by simp
  have core: "same_core h' ?h" by (simp add: same_core_def)
  note w = work_same_core [OF f(1)[unfolded D] core]
  have "binned (m_dv g) D = binned (m_dv ?h) ?D"
  proof (rule ext)
    fix q
    have "D 0 = None" using tilesD(2) [OF workD(1) [OF d(1)], of 0] by (cases "D 0") (auto simp: area_def)
    then show "binned (m_dv g) D q = binned (m_dv ?h) ?D q"
      using d(5) c(6,7) by (auto simp: dv binned_def split: option.splits ckind.splits)
  qed
  moreover have "dv_ok ?h ?D" using nb by (auto simp: dv_ok_def)
  moreover have "settled ?D" using d(9) by (auto simp: settled_def)
  ultimately have inv: "heap_inv ?h ?D" using w by (intro work_end) auto
  have used: "used_of ?D = (used_of C)(p \<mapsto> nb)"
    using d(2) used_of_none [of D ?r] c(6,7) unfolding used_of_upd by auto
  have "same_data ?V h1 h'" using f(2) unfolding same_data_def by (metis fun_upd_apply option.distinct(1))
  then have "same_data ?V g h'" by (rule same_data_trans [OF c(2)])
  then have sd: "same_data ?V g ?h" by (simp add: same_data_def)
  have "words ?h x = words g x" if x: "x \<in> payload p nb" for x
  proof -
    have "unat nb \<le> unat z" using nb by simp
    from payload_heads [OF a(1) this nb(2) x] nb(3) show ?thesis
      unfolding h1' by (simp add: h1_def set_free_with_pinuse_def clear_pinuse_def set_size_and_pinuse_of_free_chunk_def
        set_foot_def)
  qed
  then show ?thesis by (intro resized_intro [OF o inv used sd])
qed

section \<open>The chunk and what follows it\<close>

lemma opened_start:
  assumes i: "heap_inv h C" and p: "C p = Some (s, Used)"
  shows "opened h C p s h (C(p \<mapsto> (s, Hole False))) s False"
proof -
  note u = used_hole [OF work_start [OF i] p]
  have "binned (m_dv h) (C(p \<mapsto> (s, Hole False))) = binned (m_dv h) C" using p by (auto simp: binned_def fun_eq_iff)
  moreover have "pinuse h (p + s)" by (rule next_flags [OF i p])
  moreover have "p \<noteq> 0" using tilesD(2) [OF heap_invD(1) [OF i] p] by (auto simp: area_def)
  then have "dv_ok h (C(p \<mapsto> (s, Hole False)))" using heap_invD(3) [OF i] p by (auto simp: dv_ok_def split: if_splits)
  ultimately show ?thesis
    using u heap_invD(2) [OF i] p by (simp add: opened_def used_of_upd used_of_iff same_data_refl settled_def)
qed

lemma opened_join:
  assumes pk: "picked h C (p + s) u g" and p: "C p = Some (s, Used)"
  shows "opened h C p s g (C(p + s := None, p \<mapsto> (s + u, Hole True))) (s + u) True" "unat (s + u) = unat s + unat u"
proof -
  let ?n = "p + s" and ?D = "C(p + s := None, p \<mapsto> (s + u, Hole True))"
  note d = pickedD [OF pk]
  have "((binned (m_dv g) C)(?n := None)) ?n = None" by simp
  note j = used_join [OF d(1) p d(3) this d(2)]
  show "unat (s + u) = unat s + unat u" by (rule j(6))
  have "(binned (m_dv g) C)(?n := None) = binned (m_dv g) ?D" using p by (auto simp: binned_def fun_eq_iff)
  moreover have "used_of ?D = (used_of C)(p := None)" using d(6) by (auto simp: used_of_upd)
  moreover have "dv_ok g ?D" by (rule dv_ok_away [OF d(4) refl refl]) (use p in auto)
  ultimately show "opened h C p s g ?D (s + u) True"
    using j(1-3,5) d(2,5) p by (simp add: opened_def used_of_iff settled_def)
qed

lemma picked_unlink:
  assumes i: "heap_inv h C" and n: "C n = Some (u, Free)" "n \<noteq> m_dv h"
  shows "\<exists>g. unlink_chunk n u h = ret g \<and> picked h C n u g"
proof -
  have "binned (m_dv h) C n = Some u" using n by (simp add: binned_iff)
  then obtain g where g: "unlink_chunk n u h = ret g" "work g C ((binned (m_dv h) C)(n := None)) (used_of C)"
    "same_data (used_of C) h g" "keeps h g"
    using work_unlink [OF work_start [OF i]] by blast
  have "dv_ok g (C(n := None))" using heap_invD(3) [OF i] n keepsD(3,4) [OF g(4)] by (auto simp: dv_ok_def)
  then show ?thesis using g n heap_invD(2) [OF i] keepsD(3) [OF g(4)] by (simp add: picked_def)
qed

text \<open>The chunk grows into the top chunk.\<close>

lemma grow_top:
  assumes i: "heap_inv h C" and p: "C p = Some (s, Used)" and e: "p + s = m_top h"
    and nb: "8 dvd unat nb" "16 \<le> unat nb" "unat s < unat nb" "unat nb < unat s + unat (m_topsize h)"
  defines "z \<equiv> s + m_topsize h - nb"
  shows "resized h C p s nb ((set_head (p + nb) (z OR PINUSE_BIT) (set_inuse p nb h))\<lparr>m_top := p + nb, m_topsize := z\<rparr>)"
    (is "resized h C p s nb ?h")
proof -
  note o = opened_start [OF i p]
  note d = openedD [OF o]
  let ?r = "p + nb" and ?V = "(used_of C)(p := None)" and ?D = "C(p \<mapsto> (s, Hole False))"
  define h1 where "h1 = set_head ?r (z OR PINUSE_BIT) (h\<lparr>m_top := ?r, m_topsize := z\<rparr>)"
  have z: "z = m_topsize h + s - nb" by (simp add: z_def add.commute)
  let ?C1 = "?D(m_top h := None, p \<mapsto> (nb, Hole False), ?r \<mapsto> (z + 40, Top))"
  have wr: "writes {?r + 4} h h1" by (simp add: writes_def h1_def)
  have f: "m_top h1 = ?r" "m_topsize h1 = m_topsize h + s - nb" "m_smallmap h1 = m_smallmap h" "m_treemap h1 = m_treemap h"
    "head h1 ?r = head_of (m_topsize h + s - nb) True False" "m_dv h1 = m_dv h" "m_dvsize h1 = m_dvsize h"
    by (simp_all add: h1_def z head_def head_of_words) (simp_all add: set_head_def)
  note m = work_move_top [OF d(1) e disjI2 [OF d(5)] nb wr f(1-5), folded z]
  have top: "?D (m_top h) = Some (m_topsize h + 40, Top)" "m_top h \<noteq> p"
    using top_chunk(1) [OF heap_invD(1) [OF i]] p by auto
  have C1: "?C1 p = Some (nb, Hole False)" using m(4) by simp
  have "prev_free ?C1 p \<longleftrightarrow> prev_free ?D p"
  proof (rule prev_free_cong)
    fix q
    show "free_end ?C1 q p \<longleftrightarrow> free_end ?D q p"
      using top m(3-5) by (cases "q = p"; cases "q = ?r"; cases "q = m_top h") (auto simp: free_end_def)
  qed
  moreover have "head h1 p = head h p" using m(4) by (simp add: h1_def head_def)
  ultimately have pin: "pin_ok h1 ?C1 p" using d(6) by (simp add: pin_ok_def pinuse_def)
  have h: "?h = set_head p ((head h1 p AND PINUSE_BIT) OR nb OR CINUSE_BIT) h1"
    using m(4) by (simp add: h1_def set_inuse_def set_pinuse_def set_head_def store_def head_def fun_upd_twist)
  let ?C = "?C1(p \<mapsto> (nb, Used))"
  have u: "work ?h ?C (binned (m_dv h) ?D) (?V(p \<mapsto> nb))" "same_data ?V h1 ?h" "keeps h1 ?h"
    using work_set_inuse [OF m(1) C1 pin, of ?h] h by simp_all
  have k: "m_dv ?h = m_dv h" "m_dvsize ?h = m_dvsize h" using keepsD(3,4) [OF u(3)] f by simp_all
  have "binned (m_dv h) ?D = binned (m_dv ?h) ?C"
    using top m(3-5) unfolding k by (intro ext) (auto simp: binned_def split: option.splits)
  moreover have "dv_ok ?h ?C" using d(8) top m(3-5) unfolding dv_ok_def k by (auto split: if_splits)
  moreover have "settled ?C" using d(9) by (auto simp: settled_def split: if_splits)
  ultimately have inv: "heap_inv ?h ?C" by (intro work_end [OF u(1)])
  have used: "used_of ?C = (used_of C)(p \<mapsto> nb)"
    using d(2) used_of_none [of ?D "m_top h" "m_topsize h + 40" Top] used_of_none [of ?D ?r] m(3-5) top
    unfolding used_of_upd by (auto simp: fun_eq_iff)
  have "words ?h x = words h x" if x: "x \<in> payload p nb" for x
    using payload_heads(1,2) [of h1 p nb nb, OF _ le_refl nb(2) x] tilesD(2) [OF workD(1) [OF m(1)] C1]
    by (simp add: set_inuse_def set_pinuse_def)
  then show ?thesis by (intro resized_intro [OF o inv used same_data_trans [OF m(2) u(2)]])
qed

text \<open>The chunk, or with what follows it, is large enough.\<close>

definition fits_in_place :: "heap \<Rightarrow> row \<Rightarrow> u32 \<Rightarrow> u32 \<Rightarrow> u32 \<Rightarrow> bool" where
  "fits_in_place h C p s nb \<longleftrightarrow>
     nb \<le> s \<or>
     (case C (p + s) of
        Some (u, Free) \<Rightarrow> unat nb \<le> unat s + unat u
      | Some (u, Top) \<Rightarrow> unat nb < unat s + unat (m_topsize h)
      | _ \<Rightarrow> False)"

lemma resized_same:
  assumes i: "heap_inv h C" and p: "used_of C p = Some s"
  shows "resized h C p s s h"
proof -
  have "(used_of C)(p \<mapsto> s) = used_of C" using p by (simp add: fun_upd_idem)
  then show ?thesis unfolding resized_def using i by (auto simp: same_data_refl)
qed

lemma shrink_runs:
  assumes i: "heap_inv h C" and p: "C p = Some (s, Used)" and nb: "8 dvd unat nb" "16 \<le> unat nb" "nb \<le> s"
  shows "\<exists>h' t. realloc_in_place p s n nb h = ret (p, h') \<and> resized h C p s t h' \<and> nb \<le> t"
proof (cases "MIN_CHUNK_SIZE \<le> s - nb")
  case True
  have "8 dvd unat s" using tilesD(2) [OF heap_invD(1) [OF i] p] by (simp add: area_def)
  then have "unat nb + 16 \<le> unat s" using rest_size [of s nb] nb True by simp
  from opened_rest [OF opened_start [OF i p] nb(1,2) this] obtain h' where
    "give_back_rest p nb (s - nb) h = ret h'" "resized h C p s nb h'" by blast
  then show ?thesis
    using True nb(3) by (intro exI [of _ h'] exI [of _ nb]) (simp add: realloc_in_place_def Let_def)
next
  case False
  then show ?thesis
    using resized_same [OF i] p nb(3)
    by (intro exI [of _ h] exI [of _ s]) (simp add: realloc_in_place_def Let_def used_of_iff)
qed

text \<open>The sizes of a chunk and of the free one behind it.\<close>

lemma joined_size:
  assumes pk: "picked h C (p + s) u g" and p: "C p = Some (s, Used)" and nb: "8 dvd unat nb" "nb \<le> s + u"
  shows "\<not> s + u - nb < MIN_CHUNK_SIZE \<Longrightarrow> unat nb + 16 \<le> unat (s + u)"
proof -
  have "area g p (s + u)" by (rule opened_area [OF opened_join(1) [OF pk p]])
  then show "\<not> s + u - nb < MIN_CHUNK_SIZE \<Longrightarrow> unat nb + 16 \<le> unat (s + u)"
    using rest_size [OF _ nb] by (simp add: area_def)
qed

lemma grow_dv:
  assumes i: "heap_inv h C" and p: "C p = Some (s, Used)" and n: "p + s = m_dv h" "m_dvsize h \<noteq> 0"
    and nb: "8 dvd unat nb" "16 \<le> unat nb" "\<not> nb \<le> s" "nb \<le> s + m_dvsize h" and top: "p + s \<noteq> m_top h"
  shows "\<exists>h' t. realloc_in_place p s (p + s) nb h = ret (p, h') \<and> resized h C p s t h' \<and> nb \<le> t"
proof -
  let ?u = "m_dvsize h"
  define g where "g = h\<lparr>m_dvsize := 0, m_dv := 0\<rparr>"
  have pk: "picked h C (p + s) ?u g" using picked_dv [OF i n(2)] unfolding n(1) g_def .
  note o = opened_join(1) [OF pk p]
  show ?thesis
  proof (cases "s + ?u - nb < MIN_CHUNK_SIZE")
    case True
    have "(set_inuse p (s + ?u) h)\<lparr>m_dvsize := 0, m_dv := 0\<rparr> = set_inuse p (s + ?u) g"
      by (simp add: g_def set_inuse_def set_pinuse_def set_head_def store_def head_def)
    then show ?thesis
      using opened_whole [OF o] True nb(3,4) n(1) top
      by (intro exI [of _ "set_inuse p (s + ?u) g"] exI [of _ "s + ?u"])
        (simp add: realloc_in_place_def Let_def not_le [symmetric])
  next
    case False
    let ?z = "s + ?u - nb"
    have room: "unat nb + 16 \<le> unat (s + ?u)" by (rule joined_size [OF pk p nb(1,4) False])
    define h1 where "h1 = clear_pinuse (p + (s + ?u)) (set_size_and_pinuse_of_free_chunk (p + nb) ?z (set_inuse p nb g))"
    have "m_dv g = 0" "m_dvsize g = 0" by (simp_all add: g_def)
    note r = opened_dv [OF o nb(1,2) room this h1_def]
    have "p + nb + ?z = p + (s + ?u)" by simp
    then have "realloc_in_place p s (p + s) nb h = ret (p, h1\<lparr>m_dvsize := ?z, m_dv := p + nb\<rparr>)"
      using False nb(3,4) n(1) top
      by (simp add: realloc_in_place_def Let_def h1_def g_def clear_pinuse_def set_size_and_pinuse_of_free_chunk_def set_foot_def
          set_prev_foot_def set_inuse_def set_pinuse_def set_head_def store_def head_def)
    then show ?thesis using r by blast
  qed
qed

lemma grow_free:
  assumes i: "heap_inv h C" and p: "C p = Some (s, Used)" and n: "C (p + s) = Some (u, Free)" "p + s \<noteq> m_dv h"
    and nb: "8 dvd unat nb" "16 \<le> unat nb" "\<not> nb \<le> s" "nb \<le> s + u" and fl: "p + s \<noteq> m_top h" "\<not> cinuse h (p + s)"
  shows "\<exists>h' t. realloc_in_place p s (p + s) nb h = ret (p, h') \<and> resized h C p s t h' \<and> nb \<le> t"
proof -
  obtain g where g: "unlink_chunk (p + s) u h = ret g" "picked h C (p + s) u g" using picked_unlink [OF i n] by blast
  note o = opened_join(1) [OF g(2) p]
  have size: "chunksize h (p + s) = u" by (rule chunk_size_of [OF heap_invD(1) [OF i] n(1)])
  have run: "realloc_in_place p s (p + s) nb h =
    (if s + u - nb < MIN_CHUNK_SIZE then ret (p, set_inuse p (s + u) g)
     else bindR (give_back_rest p nb (s + u - nb) g) (\<lambda>h. ret (p, h)))"
    using nb(3,4) n(2) fl g(1) by (simp add: realloc_in_place_def Let_def size)
  show ?thesis
  proof (cases "s + u - nb < MIN_CHUNK_SIZE")
    case True
    then show ?thesis
      using opened_whole [OF o] nb(4) run by (intro exI [of _ "set_inuse p (s + u) g"] exI [of _ "s + u"]) simp
  next
    case False
    then obtain h' where "give_back_rest p nb (s + u - nb) g = ret h'" "resized h C p s nb h'"
      using opened_rest [OF o nb(1,2) joined_size [OF g(2) p nb(1,4) False]] by blast
    then show ?thesis using False run by (intro exI [of _ h'] exI [of _ nb]) simp
  qed
qed

lemma try_realloc_runs:
  assumes i: "heap_inv h C" and p: "used_of C p = Some s" and nb: "8 dvd unat nb" "16 \<le> unat nb"
  shows "if fits_in_place h C p s nb
    then \<exists>h' t. try_realloc_chunk p nb h = ret (p, h') \<and> resized h C p s t h' \<and> nb \<le> t
    else try_realloc_chunk p nb h = ret (0, h)"
proof -
  have c: "C p = Some (s, Used)" using p by (simp add: used_of_iff)
  note t = heap_invD(1) [OF i] and fl = used_flags [OF i c]
  obtain u k where n: "C (p + s) = Some (u, k)" "k = Used \<or> k = Free \<or> k = Top \<or> k = Fence" "pinuse h (p + s)"
    "cinuse h (p + s) \<longleftrightarrow> k = Used \<or> k = Fence" "p + s = m_top h \<longleftrightarrow> k = Top" "ok_next p (p + s)"
    by (rule next_flags [OF i c])
  have run: "try_realloc_chunk p nb h = realloc_in_place p s (p + s) nb h"
    using fl(1,2,3,5) n(3,6) by (simp add: try_realloc_chunk_def Let_def)
  have ap: "area h p s" and an: "area h (p + s) u" using tilesD(2) [OF t c] tilesD(2) [OF t n(1)] .
  have "unat s + unat u < 2 ^ 32" using an area_end [OF ap] by (simp add: area_def)
  then have su: "unat (s + u) = unat s + unat u" by (simp add: unat_word_ariths)
  show ?thesis
  proof (cases "nb \<le> s")
    case True
    then show ?thesis using shrink_runs [OF i c nb] run by (auto simp: fits_in_place_def)
  next
    case grow: False
    then have gr: "unat s < unat nb" by (simp add: word_le_nat_alt)
    from n(2) consider "k = Used \<or> k = Fence" | "k = Top" | "k = Free" "p + s = m_dv h" | "k = Free" "p + s \<noteq> m_dv h" by blast
    then show ?thesis
    proof cases
      case 1
      have "p + s \<noteq> m_dv h"
      proof
        assume e: "p + s = m_dv h"
        moreover have "p + s \<noteq> 0" using an by (auto simp: area_def)
        ultimately show False using heap_invD(3) [OF i] n(1) 1 by (auto simp: dv_ok_def split: if_splits)
      qed
      then have "try_realloc_chunk p nb h = ret (0, h)"
        using 1 n(4,5) grow by (auto simp: run realloc_in_place_def Let_def)
      then show ?thesis using 1 n(1) grow by (auto simp: fits_in_place_def)
    next
      case 2
      note tc = top_chunk [OF t]
      have u: "u = m_topsize h + 40" using 2 n(1,5) tc(1) by simp
      have st: "unat (s + m_topsize h) = unat s + unat (m_topsize h)"
        using su tc(2) \<open>unat s + unat u < 2 ^ 32\<close> by (simp add: u unat_word_ariths)
      have e: "p + s = m_top h" using 2 n(5) by simp
      show ?thesis
      proof (cases "nb < s + m_topsize h")
        case True
        then have lt: "unat nb < unat s + unat (m_topsize h)" using st by (simp add: word_less_nat_alt)
        let ?z = "s + m_topsize h - nb"
        let ?h = "(set_head (p + nb) (?z OR PINUSE_BIT) (set_inuse p nb h))\<lparr>m_top := p + nb, m_topsize := ?z\<rparr>"
        have "try_realloc_chunk p nb h = ret (p, ?h)"
          using grow True e by (simp add: run realloc_in_place_def Let_def)
        then have "\<exists>h' t. try_realloc_chunk p nb h = ret (p, h') \<and> resized h C p s t h' \<and> nb \<le> t"
          using grow_top [OF i c e nb gr lt] by blast
        then show ?thesis using lt 2 n(1) by (simp add: fits_in_place_def)
      next
        case False
        then have "\<not> unat nb < unat s + unat (m_topsize h)" using st by (simp add: word_less_nat_alt)
        then show ?thesis using False grow e 2 n(1) by (simp add: fits_in_place_def run realloc_in_place_def Let_def)
      qed
    next
      case 3
      then have both: "m_dvsize h = u \<and> m_dvsize h \<noteq> 0"
        using heap_invD(3) [OF i] n(1) an by (auto simp: dv_ok_def area_def split: if_splits)
      note dv = conjunct1 [OF both] conjunct2 [OF both]
      have nt: "p + s \<noteq> m_top h" using 3 n(5) by simp
      show ?thesis
      proof (cases "nb \<le> s + u")
        case True
        then show ?thesis
          using grow_dv [OF i c 3(2) dv(2) nb grow, unfolded dv(1)] nt 3 n(1) su run by (auto simp: fits_in_place_def word_le_nat_alt)
      next
        case False
        then show ?thesis
          using grow nt 3 n(1) su dv(1) by (auto simp: fits_in_place_def run realloc_in_place_def Let_def word_le_nat_alt)
      qed
    next
      case 4
      have f: "C (p + s) = Some (u, Free)" using 4 n(1) by simp
      have nt: "p + s \<noteq> m_top h" "\<not> cinuse h (p + s)" using 4 n(4,5) by simp_all
      show ?thesis
      proof (cases "nb \<le> s + u")
        case True
        then show ?thesis
          using grow_free [OF i c f 4(2) nb grow True nt] f su run by (auto simp: fits_in_place_def word_le_nat_alt)
      next
        case False
        then show ?thesis
          using grow nt 4 f su chunk_size_of [OF t f]
          by (auto simp: fits_in_place_def run realloc_in_place_def Let_def word_le_nat_alt)
      qed
    qed
  qed
qed

end
