(* ===== verification/MallocBytes.thy ===== *)
theory MallocBytes
  imports MallocFree
begin

text \<open>
  What the users of the heap of \<^verbatim>\<open>malloc.c\<close> write into their blocks, and the loops over bytes by which
  \<^verbatim>\<open>calloc\<close> and \<^verbatim>\<open>realloc\<close> fill and copy them.
\<close>

section \<open>Bytes and words\<close>

lemma word_of_byte: "unat (a AND NOT 3) = 4 * (unat a div 4)" "unat (a AND 3) = unat a mod 4" for a :: u32
proof -
  have "(3 :: u32) = mask 2" by (simp add: mask_eq_exp_minus_1)
  then show "unat (a AND NOT 3) = 4 * (unat a div 4)" "unat (a AND 3) = unat a mod 4"
    using unat_and_not_mask [of a 2] unat_and_mask [of a 2] by simp_all
qed

lemma byte_shift_mod: "byte_shift a = 8 * (unat a mod 4)"
  by (simp add: byte_shift_def word_of_byte)

lemma same_byte:
  fixes a x :: u32
  assumes "x AND NOT 3 = a AND NOT 3" and "unat x mod 4 = unat a mod 4"
  shows "x = a"
proof -
  have "unat x div 4 = unat a div 4" using arg_cong [OF assms(1), of unat] unfolding word_of_byte by simp
  then have "unat x = unat a" using assms(2) by (metis mult_div_mod_eq)
  then show ?thesis by (simp add: word_unat_eq_iff)
qed

lemma bit_0xFF: "bit (0xFF :: u32) n \<longleftrightarrow> n < 8"
proof -
  have "bit (mask 8 :: u32) n \<longleftrightarrow> n < 8" by (auto simp: bit_mask_iff)
  then show ?thesis by (simp add: mask_eq_exp_minus_1)
qed

lemma bit_put_byte:
  fixes w :: u32 and b :: u8
  assumes "m < 32"
  shows "bit ((w AND NOT (push_bit s 0xFF)) OR push_bit s (ucast b)) m \<longleftrightarrow>
    (if s \<le> m \<and> m - s < 8 then bit b (m - s) else bit w m)"
  unfolding bit_and_iff bit_or_iff bit_not_iff bit_push_bit_iff bit_0xFF bit_ucast_iff
  using assms bit_imp_le_length [of b "m - s"] by auto

lemma get_set_byte: "get_byte (set_byte a b h) x = (if x = a then b else get_byte h x)"
proof (cases "x AND NOT 3 = a AND NOT 3")
  case True
  have k: "unat x mod 4 < 4" "unat a mod 4 < 4" by simp_all
  show ?thesis
  proof (rule bit_word_eqI)
    fix n assume "n < LENGTH(8)"
    then have n: "n < 8" by simp
    let ?i = "unat x mod 4" and ?j = "unat a mod 4" and ?w = "words h (a AND NOT 3)"
    have l: "8 * ?i + n < 32" using k(1) n by linarith
    have "bit (get_byte (set_byte a b h) x) n \<longleftrightarrow>
        bit ((?w AND NOT (push_bit (8 * ?j) 0xFF)) OR push_bit (8 * ?j) (ucast b)) (8 * ?i + n)"
      using n l True by (simp add: get_byte_def set_byte_def store_def byte_shift_mod bit_simps)
    also have "\<dots> \<longleftrightarrow> (if 8 * ?j \<le> 8 * ?i + n \<and> 8 * ?i + n - 8 * ?j < 8 then bit b (8 * ?i + n - 8 * ?j) else bit ?w (8 * ?i + n))"
      by (rule bit_put_byte [OF l])
    also have "\<dots> \<longleftrightarrow> (if ?i = ?j then bit b n else bit ?w (8 * ?i + n))"
    proof -
      have "8 * ?j \<le> 8 * ?i + n \<and> 8 * ?i + n - 8 * ?j < 8 \<longleftrightarrow> ?i = ?j" using n by linarith
      then show ?thesis by auto
    qed
    also have "\<dots> \<longleftrightarrow> bit (if x = a then b else get_byte h x) n"
      using same_byte [OF True] n l True by (auto simp: get_byte_def byte_shift_mod bit_simps)
    finally show "bit (get_byte (set_byte a b h) x) n \<longleftrightarrow> bit (if x = a then b else get_byte h x) n" .
  qed
next
  case False
  then show ?thesis by (auto simp: get_byte_def set_byte_def store_def)
qed

section \<open>What users write\<close>

definition user_writes :: "u32 \<Rightarrow> u32 \<Rightarrow> heap \<Rightarrow> heap \<Rightarrow> bool" where
  "user_writes q u h h' \<longleftrightarrow> (\<exists>w. h' = h\<lparr>words := w\<rparr> \<and> (\<forall>a. a \<notin> payload q u \<longrightarrow> w a = words h a))"

lemma user_writes_refl: "user_writes q u h h"
  by (auto simp: user_writes_def intro: exI [of _ "words h"])

lemma user_writes_trans: "user_writes q u h h' \<Longrightarrow> user_writes q u h' h'' \<Longrightarrow> user_writes q u h h''"
  by (auto simp: user_writes_def)

text \<open>They do not break the heap.\<close>

lemma user_writes_inv:
  assumes i: "heap_inv h C" and q: "used_of C q = Some u" and w: "user_writes q u h h'"
  shows "heap_inv h' C"
proof -
  obtain v where v: "h' = h\<lparr>words := v\<rparr>" "\<And>a. a \<notin> payload q u \<Longrightarrow> v a = words h a" using w by (auto simp: user_writes_def)
  have c: "C q = Some (u, Used)" using q by (simp add: used_of_iff)
  note t = heap_invD(1) [OF i] and B = workD(2,3) [OF work_start [OF i]]
  have big: "8 \<le> unat y" if "C x = Some (y, k)" for x y k
    using tilesD(2) [OF t that] by (auto simp: area_def intro: dvd_imp_le)
  have head: "head h' x = head h x" if x: "C x = Some (y, k)" for x y k
  proof -
    have "x + 4 \<notin> payload q u"
      using payload_apart(2,3) [OF t c _ x, of "x + 4" 4] big [OF x] by (cases "x = q") auto
    then show ?thesis by (simp add: head_def v)
  qed
  have foot: "prev_foot h' (x + y) = prev_foot h (x + y)" if x: "C x = Some (y, Free)" for x y
  proof -
    obtain z k where n: "C (x + y) = Some (z, k)" using next_chunk_in [OF t x] by auto
    have "x \<noteq> q" using x c by auto
    then have "x + y \<noteq> q + u" by (rule ends_apart [OF t x c])
    then have "x + y \<notin> payload q u"
      using payload_apart(1,3) [OF t c _ n, of "x + y" 0] big [OF n] by (cases "x + y = q") auto
    then show ?thesis by (simp add: prev_foot_def v)
  qed
  have f: "gm h' = gm h" "m_least_addr h' = m_least_addr h" "m_top h' = m_top h" "m_topsize h' = m_topsize h"
    "m_dv h' = m_dv h" "m_dvsize h' = m_dvsize h" by (simp_all add: v)
  have "kind_ok h' C x y k" if x: "C x = Some (y, k)" for x y k
    by (rule kind_ok_frame [OF tilesD(3) [OF t x] head [OF x]]) (use foot x f in auto)
  moreover have "area h' = area h" by (simp add: area_def fun_eq_iff f)
  ultimately have "tiles h' C" using t unfolding tiles_def by (simp add: f)
  moreover have "bag h' (binned (m_dv h) C)"
    by (rule bag_frame [OF B(1) chunks_ok_within [OF t B(2)]])
      (use payload_not_in_bag [OF t c _ B(2)] v(2) in \<open>auto simp: v(1)\<close>)
  ultimately show ?thesis using heap_invD(2,3) [OF i] by (simp add: heap_inv_def dv_ok_def f)
qed

text \<open>A word that holds a byte of the payload is in the payload.\<close>

lemma word_between: "4 * m \<le> n \<Longrightarrow> n < 4 * j \<Longrightarrow> 4 * m \<le> 4 * (n div 4) \<and> 4 * (n div 4) < 4 * j" for m n j :: nat
proof
  assume a: "4 * m \<le> n" "n < 4 * j"
  have d: "n = 4 * (n div 4) + n mod 4" "n mod 4 < 4" by simp_all
  show "4 * m \<le> 4 * (n div 4)" using div_le_mono [OF a(1), of 4] by simp
  show "4 * (n div 4) < 4 * j" using a(2) d by linarith
qed

lemma byte_in_payload:
  assumes q: "8 dvd unat q" and u: "8 dvd unat u" and x: "x \<in> payload q u"
  shows "x AND NOT 3 \<in> payload q u"
proof -
  obtain k where k: "unat q = 8 * k" using q by (rule dvdE)
  obtain l where l: "unat u = 8 * l" using u by (rule dvdE)
  have e: "unat q + 8 = 4 * (2 * k + 2)" "unat q + unat u + 4 = 4 * (2 * k + 2 * l + 1)" using k l by simp_all
  have "unat q + 8 \<le> unat x" "unat x < unat q + unat u + 4" using x by (simp_all add: payload_def)
  then have "unat q + 8 \<le> 4 * (unat x div 4) \<and> 4 * (unat x div 4) < unat q + unat u + 4"
    unfolding e by (rule word_between)
  then show ?thesis by (simp only: payload_def word_of_byte mem_Collect_eq)
qed

lemma set_byte_writes:
  assumes "8 dvd unat q" and "8 dvd unat u" and "x \<in> payload q u"
  shows "user_writes q u h (set_byte x b h)"
  unfolding user_writes_def set_byte_def store_def
  by (intro exI conjI refl) (use byte_in_payload [OF assms] in auto)

section \<open>Filling and copying\<close>

text \<open>Both loops write one byte after the other.\<close>

definition put_bytes :: "u32 \<Rightarrow> (nat \<Rightarrow> heap \<Rightarrow> u8) \<Rightarrow> nat \<Rightarrow> heap \<Rightarrow> heap" where
  "put_bytes d f n h = fold (\<lambda>i h. set_byte (d + of_nat i) (f i h) h) [0..<n] h"

lemma memset_put: "memset_bytes d b n h = put_bytes d (\<lambda>_ _. b) (unat n) h"
  by (simp add: memset_bytes_def put_bytes_def)

lemma memcpy_put: "memcpy_bytes d s n h = put_bytes d (\<lambda>i h. get_byte h (s + of_nat i)) (unat n) h"
  by (simp add: memcpy_bytes_def put_bytes_def)

lemma put_bytes_Suc: "put_bytes d f (Suc n) h = set_byte (d + of_nat n) (f n (put_bytes d f n h)) (put_bytes d f n h)"
  by (simp add: put_bytes_def)

lemma put_bytes_0: "put_bytes d f 0 h = h"
  by (simp add: put_bytes_def)

lemma put_bytes_writes:
  assumes "8 dvd unat q" and "8 dvd unat u" and "\<And>i. i < n \<Longrightarrow> d + of_nat i \<in> payload q u"
  shows "user_writes q u h (put_bytes d f n h)"
  using assms(3)
proof (induction n)
  case (Suc n)
  then show ?case using user_writes_trans [OF Suc.IH] set_byte_writes [OF assms(1,2)] by (simp add: put_bytes_Suc)
qed (simp add: put_bytes_0 user_writes_refl)

lemma offset_eq:
  fixes x d :: u32
  assumes "m < 2 ^ 32"
  shows "x = d + of_nat m \<longleftrightarrow> unat (x - d) = m"
proof
  assume "x = d + of_nat m"
  then show "unat (x - d) = m" using assms by (simp add: unat_of_nat)
next
  assume "unat (x - d) = m"
  then have "of_nat m = x - d" using assms by (simp add: word_unat_eq_iff unat_of_nat)
  then show "x = d + of_nat m" by simp
qed

text \<open>What each byte is afterwards, when the values do not depend on the bytes that are written.\<close>

lemma get_put_bytes:
  assumes f: "\<And>i g. i < n \<Longrightarrow> (\<And>x. \<not> unat (x - d) < n \<Longrightarrow> get_byte g x = get_byte h x) \<Longrightarrow> f i g = c i"
    and "m \<le> n" and n: "n < 2 ^ 32"
  shows "get_byte (put_bytes d f m h) x = (if unat (x - d) < m then c (unat (x - d)) else get_byte h x)"
  using assms(2)
proof (induction m arbitrary: x)
  case (Suc m)
  have IH: "get_byte (put_bytes d f m h) x = (if unat (x - d) < m then c (unat (x - d)) else get_byte h x)" for x
    by (rule Suc.IH) (use Suc.prems in simp)
  have "f m (put_bytes d f m h) = c m" by (rule f) (use Suc.prems IH in auto)
  moreover have "x = d + of_nat m \<longleftrightarrow> unat (x - d) = m" using offset_eq Suc.prems n by simp
  ultimately show ?case using IH [of x] by (auto simp: put_bytes_Suc get_set_byte less_Suc_eq)
qed (simp add: put_bytes_0)

lemma get_memset: "get_byte (memset_bytes d b n h) x = (if unat (x - d) < unat n then b else get_byte h x)"
  using get_put_bytes [of "unat n" d h "\<lambda>_ _. b" "\<lambda>_. b" "unat n" x] unat_limit(3) [of n] by (simp add: memset_put)

lemma get_memcpy:
  assumes "\<And>i. i < unat n \<Longrightarrow> \<not> unat (s + of_nat i - d) < unat n"
  shows "get_byte (memcpy_bytes d s n h) x = (if unat (x - d) < unat n then get_byte h (s + (x - d)) else get_byte h x)"
  using get_put_bytes [of "unat n" d h "\<lambda>i h. get_byte h (s + of_nat i)" "\<lambda>i. get_byte h (s + of_nat i)" "unat n" x]
    assms unat_limit(3) [of n] by (simp add: memcpy_put)

text \<open>The bytes of a block in a chunk.\<close>

lemma chunk_bytes:
  assumes a: "area h p s" "16 \<le> unat s" and "i + 4 < unat s"
  shows "unat (chunk2mem p + of_nat i) = unat p + 8 + i" "chunk2mem p + of_nat i \<in> payload p s"
    "(chunk2mem p + of_nat i) AND NOT 3 \<in> payload p s"
proof -
  have "8 dvd unat p + unat s" "unat p + unat s < 2 ^ 32" using a(1) by (simp_all add: area_def)
  then obtain k where k: "unat p + unat s = 8 * k" "8 * k < 2 ^ 32" by (auto elim: dvdE)
  then have lim: "unat p + (8 + i) < 2 ^ 32" using assms(3) by simp
  then have "unat (8 + of_nat i :: u32) = 8 + i" by (simp add: unat_word_ariths unat_of_nat)
  then have u: "unat (p + (8 + of_nat i)) = unat p + (8 + i)" using lim by (simp add: unat_word_ariths)
  then show e: "unat (chunk2mem p + of_nat i) = unat p + 8 + i" by (simp add: chunk2mem_def add.assoc)
  show m: "chunk2mem p + of_nat i \<in> payload p s" using assms(3) by (simp add: payload_def e)
  show "(chunk2mem p + of_nat i) AND NOT 3 \<in> payload p s"
    by (rule byte_in_payload [OF _ _ m]) (use a in \<open>simp_all add: area_def\<close>)
qed

end
