(* ===== verification/MallocCopy.thy ===== *)
theory MallocCopy
  imports MallocProps MallocResize MallocBytes
begin

text \<open>
  \<^verbatim>\<open>calloc\<close> and \<^verbatim>\<open>realloc\<close> of \<^verbatim>\<open>malloc.c\<close> on a heap that keeps the invariant, and their properties.
\<close>

section \<open>The bytes of blocks\<close>

lemma used_area:
  assumes i: "heap_inv h C" and p: "used_of C p = Some s"
  shows "area h p s" "16 \<le> unat s" "chunk2mem p \<noteq> 0"
  using tilesD(2) [OF heap_invD(1) [OF i]] used_flags [OF i] p by (simp_all add: used_of_iff)

lemma used_bytes:
  assumes i: "heap_inv h C" and p: "used_of C (mem2chunk a) = Some s" and k: "k + 4 < unat s"
  shows "unat (a + of_nat k) = unat (mem2chunk a) + 8 + k" "a + of_nat k \<in> payload (mem2chunk a) s"
    "(a + of_nat k) AND NOT 3 \<in> payload (mem2chunk a) s"
proof -
  have a: "chunk2mem (mem2chunk a) = a" by (simp add: mem2chunk_def chunk2mem_def)
  show "unat (a + of_nat k) = unat (mem2chunk a) + 8 + k" "a + of_nat k \<in> payload (mem2chunk a) s"
    "(a + of_nat k) AND NOT 3 \<in> payload (mem2chunk a) s"
    using chunk_bytes [OF used_area(1,2) [OF i p] k] unfolding a .
qed

text \<open>Chunks in use stay apart when a user writes.\<close>

lemma user_writes_other:
  assumes i: "heap_inv h C" and q: "used_of C q = Some u" and w: "user_writes q u h h'"
    and p: "used_of C p = Some s" "p \<noteq> q" and x: "x \<in> payload p s"
  shows "words h' x = words h x"
proof -
  have "x \<notin> payload q u" using used_apart [OF i p(1) q p(2)] x by blast
  then show ?thesis using w by (auto simp: user_writes_def)
qed

lemma user_writes_fields:
  assumes "user_writes q u h h'"
  shows "m_topsize h' = m_topsize h" "m_release_checks h' = m_release_checks h" "m_trim_check h' = m_trim_check h"
  using assms by (auto simp: user_writes_def)

lemma user_writes_hole:
  assumes i: "heap_inv h C" and q: "used_of C q = Some u" and w: "user_writes q u h h'" and p: "used_of C p = Some s"
  shows "hole_size h' p = hole_size h p"
proof -
  have c: "C p = Some (s, Used)" using p by (simp add: used_of_iff)
  note i' = user_writes_inv [OF i q w]
  have fl: "chunksize h' p = chunksize h p" "pinuse h' p \<longleftrightarrow> pinuse h p" "pinuse h p \<longleftrightarrow> \<not> prev_free C p"
    using used_flags(3,4) [OF i c] used_flags(3,4) [OF i' c] by simp_all
  have "prev_foot h' p = prev_foot h p" if "prev_free C p"
    by (rule free_before [OF i c that], rule free_before [OF i' c that]) (metis ends_apart heap_invD(1) i option.inject prod.inject)
  then show ?thesis using fl by (simp add: hole_size_def)
qed

section \<open>calloc\<close>

lemma calloc_runs:
  assumes i: "heap_inv h C" and b: "calloc_request n e = req" "req < MAX_REQUEST"
  shows "(\<exists>a h' C' s. dlcalloc n e h = ret (a, h') \<and> heap_inv h' C' \<and> used_of C (mem2chunk a) = None \<and>
      used_of C' = (used_of C)(mem2chunk a \<mapsto> s) \<and> 8 dvd unat a \<and> block a req \<subseteq> payload (mem2chunk a) s \<and>
      (\<forall>k<unat req. get_byte h' (a + of_nat k) = 0) \<and>
      (\<forall>q t. used_of C q = Some t \<longrightarrow> (\<forall>x\<in>payload q t. words h' x = words h x))) \<or>
    m_topsize h \<le> request2size req \<and> dlmalloc req h = sys_alloc (request2size req) h"
proof (cases "gives h C (request2size req) (dlmalloc req h)")
  case True
  then obtain h1 C' p s where r: "dlmalloc req h = ret (chunk2mem p, h1)" "used_of C p = None" "request2size req \<le> s"
    "heap_inv h1 C'" "used_of C' = (used_of C)(p \<mapsto> s)" "same_data (used_of C) h h1"
    by (auto simp: gives_def allocated_def)
  let ?a = "chunk2mem p" and ?h = "memset_bytes (chunk2mem p) 0 req h1"
  have p': "used_of C' p = Some s" "used_of C' (mem2chunk ?a) = Some s" using r(5) by (simp_all add: mem_chunk)
  have fit: "unat req + 4 \<le> unat s" using r(3) unat_request2size [OF b(2)] by (auto simp: word_le_nat_alt split: if_splits)
  note bl = block_in_payload [OF r(4) p'(1) fit]
  note ar = used_area [OF r(4) p'(1)]
  have byte: "k < unat req \<Longrightarrow> ?a + of_nat k \<in> payload p s" for k
    using used_bytes(2) [OF r(4) p'(2), of k] fit by (simp add: mem_chunk)
  have w: "user_writes p s h1 ?h"
    unfolding memset_put by (rule put_bytes_writes) (use ar(1) byte in \<open>simp_all add: area_def\<close>)
  have "calloc_must_clear h1 p" using used_flags(5) [OF r(4)] p'(1) by (simp add: calloc_must_clear_def used_of_iff)
  then have run: "dlcalloc n e h = ret (?a, ?h)"
    using r(1) ar(3) b(1) by (simp add: dlcalloc_def Let_def mem_chunk)
  have zero: "get_byte ?h (?a + of_nat k) = 0" if "k < unat req" for k
    using that unat_limit(3) [of req] by (simp add: get_memset unat_of_nat)
  have "words ?h x = words h x" if q: "used_of C q = Some t" "x \<in> payload q t" for q t x
  proof -
    have "q \<noteq> p" "used_of C' q = Some t" using q(1) r(2,5) by auto
    then have "words ?h x = words h1 x" by (intro user_writes_other [OF r(4) p'(1) w _ _ q(2)])
    then show ?thesis using r(6) q unfolding same_data_def by metis
  qed
  then show ?thesis
    using run user_writes_inv [OF r(4) p'(1) w] r(2,5) bl zero
    by (intro disjI1 exI [of _ ?a] exI [of _ ?h] exI [of _ C'] exI [of _ s]) (simp add: mem_chunk)
next
  case False
  then show ?thesis using dlmalloc_gives [OF i b(2)] by blast
qed

section \<open>realloc\<close>

text \<open>The block at \<open>a\<close> of \<open>s\<close> bytes with its header has become the block at \<open>r\<close>, which holds \<open>bytes\<close>
  bytes and starts with what the old one held; no other block has changed.\<close>

definition became :: "heap \<Rightarrow> row \<Rightarrow> u32 \<Rightarrow> u32 \<Rightarrow> u32 \<Rightarrow> u32 \<Rightarrow> heap \<Rightarrow> bool" where
  "became h C a s bytes r h' \<longleftrightarrow>
     (\<exists>C' t. heap_inv h' C' \<and> used_of C' = (used_of C)(mem2chunk a := None, mem2chunk r \<mapsto> t) \<and>
        block r bytes \<subseteq> payload (mem2chunk r) t) \<and>
     (r = a \<or> used_of C (mem2chunk r) = None) \<and>
     (\<forall>k<min (unat s - 4) (unat bytes). get_byte h' (r + of_nat k) = get_byte h (a + of_nat k)) \<and>
     (\<forall>q u. used_of C q = Some u \<longrightarrow> q \<noteq> mem2chunk a \<longrightarrow> (\<forall>x\<in>payload q u. words h' x = words h x))"

text \<open>How \<^verbatim>\<open>realloc\<close> ends: at the same place, or with the old block released.\<close>

lemma realloc_stays:
  assumes i: "heap_inv h C" and p: "used_of C (mem2chunk a) = Some s" and b: "bytes < MAX_REQUEST"
    and fits: "fits_in_place h C (mem2chunk a) s (request2size bytes)"
  shows "\<exists>h'. dlrealloc a bytes h = ret (a, h') \<and> dlrealloc_in_place a bytes h = ret (a, h') \<and> became h C a s bytes a h'"
proof -
  let ?p = "mem2chunk a" and ?nb = "request2size bytes"
  have a: "chunk2mem ?p = a" by (simp add: mem2chunk_def chunk2mem_def)
  have nz: "a \<noteq> 0" "?p \<noteq> 0"
    using used_area [OF i p] unfolding a by (auto simp: area_def)
  have nb: "8 dvd unat ?nb" "16 \<le> unat ?nb" unfolding unat_request2size [OF b] by auto
  obtain h' t where r: "try_realloc_chunk ?p ?nb h = ret (?p, h')" "resized h C ?p s t h'" "?nb \<le> t"
    using try_realloc_runs [OF i p nb] fits by auto
  obtain C' where C': "heap_inv h' C'" "used_of C' = (used_of C)(?p \<mapsto> t)" "same_data ((used_of C)(?p := None)) h h'"
    "\<forall>x\<in>payload ?p s \<inter> payload ?p t. words h' x = words h x" using r(2) by (auto simp: resized_def)
  have run: "dlrealloc a bytes h = ret (a, h')" "dlrealloc_in_place a bytes h = ret (a, h')"
    using r(1) nz b a by (simp_all add: dlrealloc_def dlrealloc_in_place_def Let_def)
  have p': "used_of C' ?p = Some t" using C'(2) by simp
  have fit: "unat bytes + 4 \<le> unat t" using r(3) unat_request2size [OF b] by (auto simp: word_le_nat_alt split: if_splits)
  have "get_byte h' (a + of_nat k) = get_byte h (a + of_nat k)" if "k < min (unat s - 4) (unat bytes)" for k
  proof -
    have "k + 4 < unat s" "k + 4 < unat t" using that fit by (simp_all add: less_diff_conv)
    then show ?thesis using used_bytes(3) [OF i p] used_bytes(3) [OF C'(1) p'] C'(4) by (simp add: get_byte_def)
  qed
  moreover have "words h' x = words h x" if "used_of C q = Some u" "q \<noteq> ?p" "x \<in> payload q u" for q u x
    using C'(3) that unfolding same_data_def by (metis fun_upd_apply)
  moreover have "used_of C' = (used_of C)(?p := None, ?p \<mapsto> t)" using C'(2) by simp
  ultimately have "became h C a s bytes a h'"
    unfolding became_def using C'(1) block_in_payload(1) [OF C'(1) p' fit, unfolded a] by blast
  then show ?thesis using run by blast
qed

lemma realloc_moves:
  assumes i: "heap_inv h C" and p: "used_of C (mem2chunk a) = Some s" and b: "bytes < MAX_REQUEST"
    and full: "\<not> fits_in_place h C (mem2chunk a) s (request2size bytes)"
    and got: "gives h C (request2size bytes) (dlmalloc bytes h)"
  shows "\<exists>r h1 g h'. dlmalloc bytes h = ret (r, h1) \<and> dlrealloc a bytes h = bindR (give_back g h') (\<lambda>h. ret (r, h)) \<and>
    (calm a h1 \<longrightarrow> give_back g h' = ret h') \<and> became h C a s bytes r h'"
proof -
  let ?p = "mem2chunk a" and ?nb = "request2size bytes"
  have a: "chunk2mem ?p = a" by (simp add: mem2chunk_def chunk2mem_def)
  have nz: "a \<noteq> 0" using used_area [OF i p] unfolding a by simp
  have nb: "8 dvd unat ?nb" "16 \<le> unat ?nb" unfolding unat_request2size [OF b] by auto
  have stay: "try_realloc_chunk ?p ?nb h = ret (0, h)" using try_realloc_runs [OF i p nb] full by simp
  obtain h1 C1 m t where m: "dlmalloc bytes h = ret (chunk2mem m, h1)" "used_of C m = None" "?nb \<le> t"
    "heap_inv h1 C1" "used_of C1 = (used_of C)(m \<mapsto> t)" "same_data (used_of C) h h1"
    using got by (auto simp: gives_def allocated_def)
  let ?r = "chunk2mem m"
  have mp: "m \<noteq> ?p" using m(2) p by auto
  have c1: "used_of C1 m = Some t" "used_of C1 ?p = Some s" "used_of C1 (mem2chunk ?r) = Some t"
    using m(5) p mp by (simp_all add: mem_chunk)
  have fit: "unat bytes + 4 \<le> unat t" using m(3) unat_request2size [OF b] by (auto simp: word_le_nat_alt split: if_splits)
  define n where "n = (if s - 4 < bytes then s - 4 else bytes)"
  have s4: "unat (s - 4) = unat s - 4" using used_area(2) [OF i p] by (simp add: unat_sub word_le_nat_alt)
  have n: "unat n = min (unat s - 4) (unat bytes)" by (simp add: n_def s4 word_less_nat_alt)
  define h2 where "h2 = memcpy_bytes ?r a n h1"
  have fl: "chunksize h1 ?p = s" "\<not> is_mmapped h1 ?p" using used_flags(3,5) [OF m(4)] c1(2) by (simp_all add: used_of_iff)
  have run: "dlrealloc a bytes h = bindR (dlfree a h2) (\<lambda>h. ret (?r, h))"
    using nz b stay m(1) used_area(3) [OF m(4) c1(1)] fl
    by (simp add: dlrealloc_def Let_def overhead_for_def h2_def n_def CHUNK_OVERHEAD_def not_le [symmetric])
  have dst: "k < unat n \<Longrightarrow> ?r + of_nat k \<in> payload m t" for k
    using used_bytes(2) [OF m(4) c1(3), of k] fit n by (simp add: mem_chunk)
  have w: "user_writes m t h1 h2"
    unfolding h2_def memcpy_put
    by (rule put_bytes_writes) (use used_area(1) [OF m(4) c1(1)] dst in \<open>simp_all add: area_def\<close>)
  have i2: "heap_inv h2 C1" by (rule user_writes_inv [OF m(4) c1(1) w])
  have src: "a + of_nat k \<in> payload ?p s \<and> (a + of_nat k) AND NOT 3 \<in> payload ?p s" if "k < unat n" for k
    using used_bytes(2,3) [OF i p, of k] that n by (simp add: less_diff_conv)
  have away: "\<not> unat (a + of_nat k - ?r) < unat n" if k: "k < unat n" for k
  proof
    assume l: "unat (a + of_nat k - ?r) < unat n"
    have "?r + of_nat (unat (a + of_nat k - ?r)) = a + of_nat k" by simp
    then have "a + of_nat k \<in> payload m t" using dst [OF l] by simp
    then show False using used_apart [OF m(4) c1(2,1)] mp src [OF k] by blast
  qed
  have copy: "get_byte h2 (?r + of_nat k) = get_byte h (a + of_nat k)" if k: "k < unat n" for k
  proof -
    have "unat (?r + of_nat k - ?r) = k" using k unat_limit(3) [of n] by (simp add: unat_of_nat)
    then have "get_byte h2 (?r + of_nat k) = get_byte h1 (a + of_nat k)"
      using get_memcpy [OF away, of h1 "?r + of_nat k"] k by (simp add: h2_def)
    also have "\<dots> = get_byte h (a + of_nat k)"
      using m(6) p src [OF k] unfolding same_data_def get_byte_def by metis
    finally show ?thesis .
  qed
  obtain h' C' where f: "dlfree a h2 = give_back h2 h'" "heap_inv h' C'" "used_of C' = (used_of C1)(?p := None)"
    "\<forall>q u. used_of C1 q = Some u \<longrightarrow> q \<noteq> ?p \<longrightarrow> (\<forall>x\<in>payload q u. words h' x = words h2 x)"
    "outcome h2 (hole_size h2 ?p) h'"
    using free_correct_full [OF i2 c1(2)] by blast
  have "calm a h1 \<Longrightarrow> calm a h2"
    using user_writes_hole [OF m(4) c1(1) w c1(2)] user_writes_fields [OF w] by (simp add: calm_def should_trim_def)
  then have quiet: "calm a h1 \<longrightarrow> give_back h2 h' = ret h'" using calm_give_back [OF _ f(5)] by blast
  have "get_byte h' (?r + of_nat k) = get_byte h (a + of_nat k)" if k: "k < unat n" for k
  proof -
    have "(?r + of_nat k) AND NOT 3 \<in> payload m t"
      using used_bytes(3) [OF m(4) c1(3), of k] k n fit by (simp add: mem_chunk)
    then have "get_byte h' (?r + of_nat k) = get_byte h2 (?r + of_nat k)"
      using f(4) c1(1) mp by (simp add: get_byte_def)
    then show ?thesis using copy [OF k] by simp
  qed
  moreover have "words h' x = words h x" if q: "used_of C q = Some u" "q \<noteq> ?p" "x \<in> payload q u" for q u x
  proof -
    have q1: "q \<noteq> m" "used_of C1 q = Some u" using q(1) m(2,5) by auto
    have "words h' x = words h2 x" using f(4) q q1 by blast
    also have "\<dots> = words h1 x" by (rule user_writes_other [OF m(4) c1(1) w q1(2,1) q(3)])
    also have "\<dots> = words h x" using m(6) q unfolding same_data_def by metis
    finally show ?thesis .
  qed
  moreover have "used_of C' = (used_of C)(?p := None, m \<mapsto> t)" using f(3) m(5) mp by (simp add: fun_upd_twist)
  ultimately have "became h C a s bytes ?r h'"
    unfolding became_def mem_chunk using f(2) m(2) block_in_payload(1) [OF m(4) c1(1) fit] n by auto
  then show ?thesis using run f(1) quiet m(1) by auto
qed

lemma realloc_correct_full:
  assumes i: "heap_inv h C" and p: "used_of C (mem2chunk a) = Some s" and b: "bytes < MAX_REQUEST"
  shows "if fits_in_place h C (mem2chunk a) s (request2size bytes)
    then \<exists>h'. dlrealloc a bytes h = ret (a, h') \<and> dlrealloc_in_place a bytes h = ret (a, h') \<and> became h C a s bytes a h'
    else (\<exists>r h1 g h'. dlmalloc bytes h = ret (r, h1) \<and> dlrealloc a bytes h = bindR (give_back g h') (\<lambda>h. ret (r, h)) \<and>
        (calm a h1 \<longrightarrow> give_back g h' = ret h') \<and> became h C a s bytes r h') \<or>
      m_topsize h \<le> request2size bytes \<and> dlmalloc bytes h = sys_alloc (request2size bytes) h"
proof (cases "fits_in_place h C (mem2chunk a) s (request2size bytes)")
  case True
  then show ?thesis using realloc_stays [OF i p b] by simp
next
  case False
  then show ?thesis
    using realloc_moves [OF i p b False] dlmalloc_gives [OF i b] by auto
qed

section \<open>The properties\<close>

text \<open>C6. \<^verbatim>\<open>calloc\<close> on a heap that keeps the invariant. When the product of the two numbers is below the limit
  of \<^verbatim>\<open>malloc\<close>, it hands out an aligned block that no one else uses and that holds so many bytes, all zero,
  and all other blocks keep their contents, or the top chunk is too small and \<^verbatim>\<open>sys_alloc\<close> takes over, of
  which nothing is shown: it may map the block on its own, and such a block is not cleared. When the product is
  larger, or does not fit in 32 bits, it returns null, writes nothing and asks the kernel for nothing; at most the parameters are initialised.\<close>

theorem calloc_correct:
  assumes "heap_inv h C"
  shows "if unat n * unat e < 2 ^ 32 - 64
    then (\<exists>a h' C' s. dlcalloc n e h = ret (a, h') \<and> heap_inv h' C' \<and> used_of C (mem2chunk a) = None \<and>
        used_of C' = (used_of C)(mem2chunk a \<mapsto> s) \<and> 8 dvd unat a \<and> block a (n * e) \<subseteq> payload (mem2chunk a) s \<and>
        (\<forall>k<unat n * unat e. get_byte h' (a + of_nat k) = 0) \<and>
        (\<forall>q t. used_of C q = Some t \<longrightarrow> (\<forall>x\<in>payload q t. words h' x = words h x))) \<or>
      m_topsize h \<le> request2size (n * e) \<and> dlmalloc (n * e) h = sys_alloc (request2size (n * e)) h
    else dlcalloc n e h = ret (0, ensure_initialization h)"
proof (cases "unat n * unat e < 2 ^ 32 - 64")
  case True
  then have u: "unat (n * e) = unat n * unat e" by (simp add: unat_word_ariths)
  then have "calloc_request n e = n * e" "n * e < MAX_REQUEST"
    using True by (simp_all add: calloc_request_correct max_request word_less_nat_alt)
  from calloc_runs [OF assms this] show ?thesis using True unfolding u by simp
next
  case False
  have "\<not> 8 dvd unat (- 1 :: u32)" by (simp add: dvd_8)
  then have "m_dvsize h \<noteq> - 1"
    using heap_dv(1) [OF assms] tilesD(2) [OF heap_invD(1) [OF assms], of "m_dv h" "m_dvsize h" Free] by (auto simp: area_def)
  then show ?thesis using False calloc_too_large [of n e h] by simp
qed

theorem calloc_correct_witness:
  "\<exists>a h'. dlcalloc 10 10 started_heap = ret (a, h') \<and> 8 dvd unat a \<and> (\<forall>k<100. get_byte h' (a + of_nat k) = 0)"
  using calloc_correct [OF started_heap_inv(1), of 10 10] request_100(2) started_heap_inv(2) by auto

text \<open>C5. \<^verbatim>\<open>realloc\<close> of a block in use, on a heap that keeps the invariant. A size of \<^verbatim>\<open>MAX_REQUEST\<close> or more
  gives null, with nothing changed. Otherwise, when the chunk is large enough, alone or together with the
  free chunk, the designated victim or the top chunk that follows it, the block stays where it is, and
  \<^verbatim>\<open>realloc_in_place\<close> does the same. If not, and \<^verbatim>\<open>malloc\<close> finds room in the heap, the block moves to where
  \<^verbatim>\<open>malloc\<close> puts it and the old one is released. When it stays, and when it moves, in the heap \<open>h'\<close>: the
  invariant holds, the block holds the bytes asked for and starts with the bytes that it held before, up to
  the smaller size, and no other block has changed. When it moves, \<open>h'\<close> is the heap before the trimming that
  the release may do as its last step, and it is the final heap when the release is calm, that is when it
  does no trimming. Or the top chunk is too small, and \<^verbatim>\<open>malloc\<close> goes to \<^verbatim>\<open>sys_alloc\<close>, of which nothing is
  shown.\<close>

theorem realloc_correct:
  assumes "heap_inv h C" and "used_of C (mem2chunk a) = Some s"
  shows "if MAX_REQUEST \<le> bytes then dlrealloc a bytes h = ret (0, h)
    else if fits_in_place h C (mem2chunk a) s (request2size bytes)
    then \<exists>h'. dlrealloc a bytes h = ret (a, h') \<and> dlrealloc_in_place a bytes h = ret (a, h') \<and> became h C a s bytes a h'
    else (\<exists>r h1 g h'. dlmalloc bytes h = ret (r, h1) \<and> dlrealloc a bytes h = bindR (give_back g h') (\<lambda>h. ret (r, h)) \<and>
        (calm a h1 \<longrightarrow> give_back g h' = ret h') \<and> became h C a s bytes r h') \<or>
      m_topsize h \<le> request2size bytes \<and> dlmalloc bytes h = sys_alloc (request2size bytes) h"
proof (cases "MAX_REQUEST \<le> bytes")
  case True
  have "chunk2mem (mem2chunk a) = a" by (simp add: mem2chunk_def chunk2mem_def)
  then have "a \<noteq> 0" using used_area(3) [OF assms] by simp
  then show ?thesis using True by (simp add: dlrealloc_def)
next
  case False
  then have "bytes < MAX_REQUEST" by simp
  then show ?thesis unfolding if_not_P [OF False] by (rule realloc_correct_full [OF assms])
qed

theorem realloc_correct_witness:
  "\<exists>a h1 h2. dlmalloc 100 started_heap = ret (a, h1) \<and> dlrealloc a 50 h1 = ret (a, h2) \<and>
     (\<forall>k<50. get_byte h2 (a + of_nat k) = get_byte h1 (a + of_nat k))"
proof -
  obtain p h1 C1 s where m: "dlmalloc 100 started_heap = ret (chunk2mem p, h1)" "request2size 100 \<le> s" "heap_inv h1 C1"
    "used_of C1 (mem2chunk (chunk2mem p)) = Some s"
    using dlmalloc_gives [OF started_heap_inv(1) request_100(1)]
    unfolding request_100(2) started_heap_inv(2) gives_def allocated_def by (auto simp: started_used mem_chunk)
  have r50: "(50 :: u32) < MAX_REQUEST" "request2size 50 = 56"
    by (simp_all add: max_request request2size_def malloc_constants pad_request_def)
  have s: "104 \<le> unat s" using m(2) unfolding request_100 by (simp add: word_le_nat_alt)
  then have "request2size 50 \<le> s" unfolding r50 by (simp add: word_le_nat_alt)
  then have "fits_in_place h1 C1 (mem2chunk (chunk2mem p)) s (request2size 50)" by (simp add: fits_in_place_def)
  then obtain h2 where h2: "dlrealloc (chunk2mem p) 50 h1 = ret (chunk2mem p, h2)" "became h1 C1 (chunk2mem p) s 50 (chunk2mem p) h2"
    using realloc_correct [OF m(3,4), of 50] r50(1) unfolding not_le [symmetric] by auto
  have "\<forall>k<min (unat s - 4) (unat (50 :: u32)). get_byte h2 (chunk2mem p + of_nat k) = get_byte h1 (chunk2mem p + of_nat k)"
    using h2(2) unfolding became_def by blast
  moreover have "min (unat s - 4) (unat (50 :: u32)) = 50" using s by simp
  ultimately show ?thesis using m(1) h2(1) by auto
qed

end
