(* ===== verification/MallocAlign.thy ===== *)
theory MallocAlign
  imports MallocCopy
begin

text \<open>
  \<^verbatim>\<open>memalign\<close> of \<^verbatim>\<open>malloc.c\<close> on a heap that keeps the invariant: a chunk that is large enough is cut at an
  aligned place, and both ends are given back.
\<close>

section \<open>The alignment\<close>

lemma double_until_power:
  assumes "k \<le> j" and "j < 32" and "unat n \<le> 2 ^ j"
  shows "\<exists>m. double_until (push_bit k 1) n = Some (push_bit m 1) \<and> k \<le> m \<and> m < 32 \<and> unat n \<le> 2 ^ m \<and> (m = k \<or> 2 ^ m < 2 * unat n)"
  using assms
proof (induction "j - k" arbitrary: k)
  case 0
  then have "\<not> push_bit k 1 < n" by (simp add: word_less_nat_alt unat_push_1 del: push_bit_of_1)
  then show ?case
    using 0 by (intro exI [of _ k]) (simp add: double_until.simps del: push_bit_of_1)
next
  case (Suc d)
  show ?case
  proof (cases "push_bit k 1 < n")
    case True
    then have lt: "2 ^ k < unat n" using Suc.prems by (simp add: word_less_nat_alt unat_push_1 del: push_bit_of_1)
    have "push_bit 1 (push_bit k 1 :: u32) = push_bit (Suc k) 1" by simp
    then have run: "double_until (push_bit k 1) n = double_until (push_bit (Suc k) 1) n"
      using True by (subst double_until.simps) (simp del: push_bit_of_1)
    obtain m where m: "double_until (push_bit (Suc k) 1) n = Some (push_bit m 1)" "Suc k \<le> m" "m < 32" "unat n \<le> 2 ^ m"
      "m = Suc k \<or> 2 ^ m < 2 * unat n"
    proof -
      have "d = j - Suc k" "Suc k \<le> j" using Suc.hyps(2) by simp_all
      from Suc.hyps(1) [OF this Suc.prems(2,3)] show ?thesis using that by blast
    qed
    have "2 ^ m < 2 * unat n" using m(5) lt by auto
    then show ?thesis using run m by (intro exI [of _ m]) simp
  next
    case False
    then have "unat n \<le> 2 ^ k" using Suc.prems by (simp add: word_less_nat_alt unat_push_1 del: push_bit_of_1)
    then show ?thesis
      using False Suc by (intro exI [of _ k]) (simp add: double_until.simps del: push_bit_of_1)
  qed
qed

lemma single_bit:
  fixes n :: u32
  assumes z: "n AND (n - 1) = 0" and n: "0 < unat n"
  shows "\<exists>k<32. n = push_bit k 1"
proof -
  obtain k where k: "2 ^ k \<le> unat n" "unat n < 2 ^ (k + 1)" using ex_power_ivl1 [of 2 "unat n"] n by auto
  have k32: "k < 32"
  proof (rule ccontr)
    assume "\<not> k < 32"
    then have "(2 :: nat) ^ 32 \<le> 2 ^ k" by (intro power_increasing) simp_all
    then show False using k(1) unat_limit(3) [of n] by simp
  qed
  have "unat n = 2 ^ k"
  proof (rule ccontr)
    assume "unat n \<noteq> 2 ^ k"
    moreover have one: "unat (n - 1) = unat n - 1" using n by (simp add: unat_sub word_le_nat_alt)
    ultimately have m: "2 ^ k \<le> unat (n - 1)" "unat (n - 1) < 2 ^ (k + 1)" using k n one by simp_all
    have b: "bit x k" if "2 ^ k \<le> unat x" "unat x < 2 ^ (k + 1)" for x :: u32
    proof -
      have "unat x div 2 ^ k = 1" using that by (intro div_nat_eqI) simp_all
      then have "bit (unat x) k" by (simp add: bit_iff_odd)
      then show ?thesis using k32 by (simp add: bit_unsigned_iff)
    qed
    have "bit (n AND (n - 1)) k" using b [OF k] b [OF m] by (simp add: bit_and_iff)
    then show False by (simp add: z)
  qed
  then have "n = push_bit k 1" using k32 by (simp add: word_unat_eq_iff unat_push_1 del: push_bit_of_1)
  then show ?thesis using k32 by blast
qed

lemma memalign_alignment_power:
  assumes "unat n \<le> 2 ^ 31"
  shows "\<exists>m. memalign_alignment n = Some (push_bit m 1) \<and> 4 \<le> m \<and> m < 32 \<and> unat n \<le> 2 ^ m \<and> 2 ^ m \<le> 2 * unat n + 16"
proof -
  define a where "a = (if n < MIN_CHUNK_SIZE then MIN_CHUNK_SIZE else n)"
  have a: "16 \<le> unat a" "unat n \<le> unat a" "unat a \<le> unat n + 16" "unat a \<le> 2 ^ 31"
    using assms by (auto simp: a_def malloc_constants word_less_nat_alt)
  show ?thesis
  proof (cases "a AND (a - 1) = 0")
    case True
    then obtain k where k: "k < 32" "a = push_bit k 1" using single_bit a(1) by force
    have e: "unat a = 2 ^ k" unfolding k(2) by (rule unat_push_1 [OF k(1)])
    have "4 \<le> k"
    proof (rule ccontr)
      assume "\<not> 4 \<le> k"
      then have "(2 :: nat) ^ k \<le> 2 ^ 3" by (intro power_increasing) simp_all
      then show False using a(1) e by simp
    qed
    then show ?thesis
      using True k e a by (intro exI [of _ k]) (simp add: memalign_alignment_def a_def [symmetric])
  next
    case False
    have "push_bit 1 MALLOC_ALIGNMENT = (push_bit 4 1 :: u32)" by (simp add: malloc_constants)
    then obtain m where "double_until (push_bit 1 MALLOC_ALIGNMENT) a = Some (push_bit m 1)" "4 \<le> m" "m < 32" "unat a \<le> 2 ^ m"
      "m = 4 \<or> 2 ^ m < 2 * unat a"
      using double_until_power [of 4 31 a] a(4) by auto
    moreover have "a = n" using False by (auto simp: a_def malloc_constants)
    moreover have "m = 4 \<or> 2 ^ m < 2 * unat a \<Longrightarrow> 2 ^ m \<le> 2 * unat n + 16" using \<open>a = n\<close> by auto
    ultimately show ?thesis using False
      by (intro exI [of _ m]) (simp add: memalign_alignment_def a_def [symmetric] del: push_bit_of_1)
  qed
qed


section \<open>The aligned place in a chunk\<close>

lemma align_up:
  fixes m :: u32
  assumes k: "k < 32" and lim: "unat m + 2 ^ k < 2 ^ 32"
  defines "a \<equiv> push_bit k 1" and "x \<equiv> (m + push_bit k 1 - 1) AND - push_bit k 1"
  shows "unat (m AND (a - 1)) = unat m mod 2 ^ k" "2 ^ k dvd unat x" "unat m \<le> unat x" "unat x < unat m + 2 ^ k"
proof -
  have a: "unat a = 2 ^ k" unfolding a_def by (rule unat_push_1 [OF k])
  have mk: "a - 1 = mask k" "- a = NOT (mask k)"
    by (simp_all add: a_def mask_eq_exp_minus_1 minus_exp_eq_not_mask)
  show "unat (m AND (a - 1)) = unat m mod 2 ^ k" unfolding mk by (rule unat_and_mask)
  let ?y = "unat m + 2 ^ k - 1"
  have pos: "0 < (2 :: nat) ^ k" by simp
  have am: "unat (m + a) = unat m + 2 ^ k" using lim a by (simp add: unat_word_ariths)
  then have "1 \<le> unat (m + a)" using pos by linarith
  then have "1 \<le> m + a" by (simp add: word_le_nat_alt)
  then have "unat (m + a - 1) = ?y" using am by (simp add: unat_sub)
  moreover have "x = (m + a - 1) AND - a" by (simp only: x_def a_def)
  ultimately have x: "unat x = 2 ^ k * (?y div 2 ^ k)" unfolding mk using unat_and_not_mask by metis
  show "2 ^ k dvd unat x" unfolding x by simp
  have d: "?y = 2 ^ k * (?y div 2 ^ k) + ?y mod 2 ^ k" "?y mod 2 ^ k < 2 ^ k" by simp_all
  show "unat m \<le> unat x" "unat x < unat m + 2 ^ k" unfolding x using d pos by linarith+
qed

lemma align_chunk_runs:
  assumes i: "heap_inv h C" and p: "used_of C p = Some z" and k: "4 \<le> k" "k < 32"
    and nb: "16 \<le> unat nb" and room: "unat nb + 2 ^ k + 16 \<le> unat z"
  shows "\<exists>q h' C' t. align_chunk (chunk2mem p) (push_bit k 1) h = ret (q, h') \<and> heap_inv h' C' \<and>
    used_of C' = (used_of C)(p := None, q \<mapsto> t) \<and> (q = p \<or> used_of C q = None) \<and> nb \<le> t \<and> 2 ^ k dvd unat (chunk2mem q) \<and>
    same_data ((used_of C)(p := None)) h h'"
proof -
  let ?m = "chunk2mem p" and ?a = "push_bit k 1 :: u32"
  have c: "C p = Some (z, Used)" using p by (simp add: used_of_iff)
  note ar = used_area [OF i p] and fl = used_flags [OF i c]
  have pz: "unat p + unat z < 2 ^ 32" "8 dvd unat p" "8 dvd unat z" using ar(1) by (simp_all add: area_def)
  have m: "unat ?m = unat p + 8" using pz(1) ar(2) by (simp add: chunk2mem_def unat_word_ariths)
  have a: "unat ?a = 2 ^ k" by (rule unat_push_1 [OF k(2)])
  have "unat ?m + 2 ^ k < 2 ^ 32" using m room pz(1) by simp
  note al = align_up [OF k(2) this]
  have mm: "mem2chunk ?m = p" by (simp add: mem_chunk)
  show ?thesis
  proof (cases "?m AND (?a - 1) = 0")
    case True
    then have "unat ?m mod 2 ^ k = 0" using al(1) by simp
    then have "2 ^ k dvd unat ?m" by (simp add: dvd_eq_mod_eq_0)
    moreover have "align_chunk ?m ?a h = ret (p, h)" unfolding align_chunk_def using True mm by simp
    moreover have "(used_of C)(p := None, p \<mapsto> z) = used_of C" using p by (simp add: fun_upd_idem)
    moreover have "nb \<le> z" using room by (simp add: word_le_nat_alt)
    ultimately show ?thesis using i same_data_refl by metis
  next
    case False
    define x where "x = (?m + ?a - 1) AND - ?a"
    have x: "2 ^ k dvd unat x" "unat ?m \<le> unat x" "unat x < unat ?m + 2 ^ k" using al(2-4) unfolding x_def .
    have "unat x \<noteq> unat ?m"
    proof
      assume "unat x = unat ?m"
      then have "unat (?m AND (?a - 1)) = 0" using x(1) al(1) by (simp add: dvd_eq_mod_eq_0)
      then show False using False unat_eq_zero by blast
    qed
    define d where "d = x - ?m"
    have d: "unat d = unat x - unat ?m" unfolding d_def using x(2) by (simp add: unat_sub word_le_nat_alt)
    have k8: "(8 :: nat) dvd 2 ^ k" using le_imp_power_dvd [of 3 k "2 :: nat"] k(1) by simp
    have d8: "8 dvd unat d" "0 < unat d" "unat d < 2 ^ k"
      using d x \<open>unat x \<noteq> unat ?m\<close> m pz(2) dvd_trans [OF k8 x(1)] by (auto intro!: dvd_diff_nat)
    define br where "br = mem2chunk x"
    have brp: "br - p = d" by (simp add: br_def d_def mem2chunk_def chunk2mem_def)
    define q where "q = (if MIN_CHUNK_SIZE \<le> br - p then br else br + ?a)"
    define l where "l = q - p"
    have l: "unat l = (if 16 \<le> unat d then unat d else unat d + 2 ^ k)"
    proof (cases "16 \<le> unat d")
      case True
      then have "q = br" by (simp add: q_def brp malloc_constants word_le_nat_alt)
      then show ?thesis using True by (simp add: l_def brp)
    next
      case no: False
      then have "\<not> MIN_CHUNK_SIZE \<le> br - p" unfolding brp by (simp add: malloc_constants word_le_nat_alt)
      then have "q = br + ?a" by (simp add: q_def)
      then have "l = d + ?a" unfolding l_def brp [symmetric] by simp
      then show ?thesis using no d8 room pz(1) a by (simp add: unat_word_ariths)
    qed
    have l8: "8 dvd unat l" "16 \<le> unat l" "unat l + 16 \<le> unat z" "unat nb + unat l \<le> unat z"
    proof -
      have "\<not> 16 \<le> unat d \<Longrightarrow> unat d = 8" using d8(1,2) by presburger
      moreover have "16 \<le> (2 :: nat) ^ k" using power_increasing [of 4 k "2 :: nat"] k(1) by simp
      ultimately show "8 dvd unat l" "16 \<le> unat l" "unat l + 16 \<le> unat z" "unat nb + unat l \<le> unat z"
        unfolding l using d8 k8 room nb by (auto intro: dvd_add)
    qed
    have pq: "p + l = q" by (simp add: l_def)
    note o = opened_start [OF i c]
    obtain h' C' where r: "dispose_chunk p l (set_inuse p l (set_inuse q (z - l) h)) = ret h'" "heap_inv h' C'"
      "used_of C' = (used_of C)(p := None, q \<mapsto> z - l)" "same_data ((used_of C)(p := None)) h h'"
      using opened_front [OF o l8(1-3)] unfolding pq by blast
    have run: "align_chunk ?m ?a h = ret (q, h')"
      using False fl(3,5) r(1) unfolding align_chunk_def mm Let_def x_def [symmetric] br_def [symmetric] q_def [symmetric]
        l_def [symmetric] by simp
    have "unat (z - l) = unat z - unat l" using l8(3) by (simp add: unat_sub word_le_nat_alt)
    then have "nb \<le> z - l" using l8(4) by (simp add: word_le_nat_alt)
    moreover have "used_of C q = None" using opened_cut(2) [OF o l8(1-3) refl] unfolding pq .
    moreover have "2 ^ k dvd unat (chunk2mem q)"
    proof -
      have "chunk2mem q = x \<or> chunk2mem q = x + ?a" by (simp add: q_def br_def chunk2mem_def mem2chunk_def)
      moreover have "2 ^ k dvd unat (x + ?a)"
      proof -
        have "unat (x + ?a) = (unat x + 2 ^ k) mod 2 ^ 32" using a by (simp add: unat_word_ariths)
        moreover have "(2 :: nat) ^ k dvd 2 ^ 32" using k(2) by (intro le_imp_power_dvd) simp
        ultimately show ?thesis using x(1) by (simp only: dvd_mod dvd_add dvd_refl)
      qed
      ultimately show ?thesis using x(1) by metis
    qed
    ultimately show ?thesis using run r(2-4) by blast
  qed
qed


section \<open>memalign\<close>

lemma request_room:
  assumes "b < MAX_REQUEST"
  shows "unat b + 4 \<le> unat (request2size b)" "unat (request2size b) \<le> unat b + 16" "8 dvd unat (request2size b)"
    "16 \<le> unat (request2size b)"
  unfolding unat_request2size [OF assms] by auto

lemma trim_aligned:
  assumes i: "heap_inv h C" and q: "used_of C q = Some t" and nb: "8 dvd unat nb" "16 \<le> unat nb" "nb \<le> t" "unat nb + 16 < 2 ^ 32"
  shows "\<exists>h' C' u. (let sz = chunksize h q in
        if \<not> is_mmapped h q \<and> nb + MIN_CHUNK_SIZE < sz then bindR (give_back_rest q nb (sz - nb) h) (\<lambda>h. ret (chunk2mem q, h))
        else ret (chunk2mem q, h)) = ret (chunk2mem q, h') \<and> heap_inv h' C' \<and> used_of C' = (used_of C)(q \<mapsto> u) \<and> nb \<le> u \<and>
    same_data ((used_of C)(q := None)) h h'"
proof -
  have c: "C q = Some (t, Used)" using q by (simp add: used_of_iff)
  note fl = used_flags [OF i c]
  show ?thesis
  proof (cases "nb + MIN_CHUNK_SIZE < t")
    case True
    have "unat (nb + MIN_CHUNK_SIZE) = unat nb + 16" using nb(4) by (simp add: malloc_constants unat_word_ariths)
    then have "unat nb + 16 \<le> unat t" using True by (simp add: word_less_nat_alt)
    then obtain h' where "give_back_rest q nb (t - nb) h = ret h'" "resized h C q t nb h'"
      using opened_rest [OF opened_start [OF i c] nb(1,2)] by blast
    then show ?thesis using True fl(3,5) unfolding resized_def by (auto simp: Let_def)
  next
    case False
    moreover have "(used_of C)(q \<mapsto> t) = used_of C" using q by (simp add: fun_upd_idem)
    ultimately show ?thesis
      using fl(3) i nb(3)
      by (intro exI [of _ h] exI [of _ C] exI [of _ t]) (simp add: Let_def same_data_refl)
  qed
qed


lemma large_fails:
  assumes "heap_inv h C" and "\<not> bytes < MAX_REQUEST"
  shows "dlmalloc bytes h = ret (0, ensure_initialization h)"
proof -
  have "\<not> 8 dvd unat (- 1 :: u32)" by (simp add: dvd_8)
  then have "m_dvsize h \<noteq> - 1"
    using heap_dv(1) [OF assms(1)] tilesD(2) [OF heap_invD(1) [OF assms(1)], of "m_dv h" "m_dvsize h" Free]
    by (auto simp: area_def)
  moreover have "\<not> bytes \<le> MAX_SMALL_REQUEST"
    using assms(2) by (simp add: max_request max_small_request word_le_nat_alt word_less_nat_alt)
  moreover have "MAX_REQUEST \<le> bytes" using assms(2) by simp
  ultimately show ?thesis using too_large_fails by (simp add: dlmalloc_def)
qed


lemma memalign_runs_any:
  assumes i: "heap_inv h C" and n31: "unat n \<le> 2 ^ 31"
  shows "(\<exists>a h' C' s k. dlmemalign n bytes h = ret (a, h') \<and> heap_inv h' C' \<and> used_of C (mem2chunk a) = None \<and>
      used_of C' = (used_of C)(mem2chunk a \<mapsto> s) \<and> unat n \<le> 2 ^ k \<and> 2 ^ k dvd unat a \<and>
      block a bytes \<subseteq> payload (mem2chunk a) s \<and>
      (\<forall>q t. used_of C q = Some t \<longrightarrow> (\<forall>x\<in>payload q t. words h' x = words h x))) \<or>
    (\<exists>req. unat req \<le> unat bytes + 2 * unat n + 48 \<and> m_topsize h \<le> request2size req \<and>
      dlmalloc req h = sys_alloc (request2size req) h) \<or>
    (2 ^ 32 < unat bytes + 2 * unat n + 128 \<and> (\<exists>h'\<in>{h, ensure_initialization h}. dlmemalign n bytes h = ret (0, h')))"
proof (cases "n \<le> MALLOC_ALIGNMENT")
  case True
  then have run: "dlmemalign n bytes h = dlmalloc bytes h" by (simp add: dlmemalign_def)
  have n3: "unat n \<le> 2 ^ 3" using True by (simp add: malloc_constants word_le_nat_alt)
  show ?thesis
  proof (cases "bytes < MAX_REQUEST")
    case False
    then have "2 ^ 32 < unat bytes + 2 * unat n + 128" by (simp add: max_request word_less_nat_alt)
    then show ?thesis using run large_fails [OF i] False by auto
  next
    case b: True
    show ?thesis
    using malloc_correct_full [OF i b]
    proof (elim disjE exE conjE)
    fix a h' C' s assume r: "dlmalloc bytes h = ret (a, h')" "heap_inv h' C'" "used_of C (mem2chunk a) = None"
      "used_of C' = (used_of C)(mem2chunk a \<mapsto> s)" "8 dvd unat a" "block a bytes \<subseteq> payload (mem2chunk a) s"
      "\<forall>q t. used_of C q = Some t \<longrightarrow> payload (mem2chunk a) s \<inter> payload q t = {} \<and> (\<forall>x\<in>payload q t. words h' x = words h x)"
    have "2 ^ 3 dvd unat a" using r(5) by simp
    then show ?thesis
      unfolding run using r n3 by (intro disjI1 exI [of _ a] exI [of _ h'] exI [of _ C'] exI [of _ s] exI [of _ 3]) blast
  next
    assume "m_topsize h \<le> request2size bytes" "dlmalloc bytes h = sys_alloc (request2size bytes) h"
    then show ?thesis by (intro disjI2 disjI1 exI [of _ bytes]) simp
  qed
  qed
next
  case False
  obtain k where k: "memalign_alignment n = Some (push_bit k 1)" "4 \<le> k" "k < 32" "unat n \<le> 2 ^ k" "2 ^ k \<le> 2 * unat n + 16"
    using memalign_alignment_power [OF n31] by blast
  let ?a = "push_bit k 1 :: u32" and ?nb = "request2size bytes"
  have a: "unat ?a = 2 ^ k" by (rule unat_push_1 [OF k(3)])
  have mx: "unat MAX_REQUEST = 2 ^ 32 - 64" by (simp add: max_request)
  have k31: "(2 :: nat) ^ k \<le> 2 ^ 31" using k(3) by (intro power_increasing) simp_all
  then have "?a \<le> MAX_REQUEST" using mx a by (simp add: word_le_nat_alt)
  then have room: "unat (MAX_REQUEST - ?a) = 2 ^ 32 - 64 - 2 ^ k" using mx a by (simp add: unat_sub)
  show ?thesis
  proof (cases "MAX_REQUEST - ?a \<le> bytes")
    case full: True
    then have "2 ^ 32 < unat bytes + 2 * unat n + 128" using room k(5) k31 by (simp add: word_le_nat_alt)
    moreover have "dlmemalign n bytes h = ret (0, h)"
      using False full k(1) by (simp add: dlmemalign_def internal_memalign_def Let_def del: push_bit_of_1)
    ultimately show ?thesis by blast
  next
  case ok: False
  have lim: "unat bytes + 2 ^ k + 64 < 2 ^ 32" using ok room k31 by (simp add: word_le_nat_alt)
  have b: "bytes < MAX_REQUEST" using lim mx by (simp add: word_less_nat_alt)
  note nb = request_room [OF b]
  define req where "req = ?nb + ?a + MIN_CHUNK_SIZE - CHUNK_OVERHEAD"
  have req: "unat req = unat ?nb + 2 ^ k + 12"
  proof -
    have "req = ?nb + ?a + 12" by (simp add: req_def malloc_constants)
    then show ?thesis using nb(2) lim a by (simp add: unat_word_ariths)
  qed
  have run: "dlmemalign n bytes h = bindR (dlmalloc req h) (\<lambda>(mem, h).
      if mem = 0 then ret (0, h)
      else bindR (align_chunk mem ?a h) (\<lambda>(p, h).
        let sz = chunksize h p in
        if \<not> is_mmapped h p \<and> ?nb + MIN_CHUNK_SIZE < sz then bindR (give_back_rest p ?nb (sz - ?nb) h) (\<lambda>h. ret (chunk2mem p, h))
        else ret (chunk2mem p, h)))"
    using False ok k(1) by (simp add: dlmemalign_def internal_memalign_def Let_def req_def del: push_bit_of_1)
  show ?thesis
  proof (cases "req < MAX_REQUEST")
    case False
    then have "2 ^ 32 < unat bytes + 2 * unat n + 128" using mx req nb(2) k(5) by (simp add: word_less_nat_alt)
    moreover have "dlmemalign n bytes h = ret (0, ensure_initialization h)"
      unfolding run using large_fails [OF i] False by simp
    ultimately show ?thesis by blast
  next
  case rb: True
  show ?thesis
  proof (cases "gives h C (request2size req) (dlmalloc req h)")
    case False
    then have "m_topsize h \<le> request2size req \<and> dlmalloc req h = sys_alloc (request2size req) h"
      using dlmalloc_gives [OF i rb] by blast
    moreover have "unat req \<le> unat bytes + 2 * unat n + 48" using req nb(2) k(5) by simp
    ultimately show ?thesis by blast
  next
    case True
    then obtain h1 C1 p z where m: "dlmalloc req h = ret (chunk2mem p, h1)" "used_of C p = None" "request2size req \<le> z"
      "heap_inv h1 C1" "used_of C1 = (used_of C)(p \<mapsto> z)" "same_data (used_of C) h h1"
      by (auto simp: gives_def allocated_def)
    have p1: "used_of C1 p = Some z" using m(5) by simp
    have "unat ?nb + 2 ^ k + 16 \<le> unat z" using m(3) request_room(1) [OF rb] req by (simp add: word_le_nat_alt)
    from align_chunk_runs [OF m(4) p1 k(2,3) nb(4) this] obtain q h2 C2 t where
      al: "align_chunk (chunk2mem p) ?a h1 = ret (q, h2)" "heap_inv h2 C2" "used_of C2 = (used_of C1)(p := None, q \<mapsto> t)"
        "q = p \<or> used_of C1 q = None" "?nb \<le> t" "2 ^ k dvd unat (chunk2mem q)" "same_data ((used_of C1)(p := None)) h1 h2"
      by blast
    have q2: "used_of C2 q = Some t" using al(3) by simp
    have "unat ?nb + 16 < 2 ^ 32" using nb(2) lim by simp
    from trim_aligned [OF al(2) q2 nb(3,4) al(5) this] obtain h' C' u where
      tr: "(let sz = chunksize h2 q in
        if \<not> is_mmapped h2 q \<and> ?nb + MIN_CHUNK_SIZE < sz then bindR (give_back_rest q ?nb (sz - ?nb) h2) (\<lambda>h. ret (chunk2mem q, h))
        else ret (chunk2mem q, h2)) = ret (chunk2mem q, h')"
        "heap_inv h' C'" "used_of C' = (used_of C2)(q \<mapsto> u)" "?nb \<le> u" "same_data ((used_of C2)(q := None)) h2 h'"
      by blast
    have rets: "dlmemalign n bytes h = ret (chunk2mem q, h')"
      using used_area(3) [OF m(4) p1] unfolding run m(1) bindR_simps prod.case al(1) tr(1) by simp
    have q0: "used_of C q = None" using al(4) m(2,5) by (metis fun_upd_apply option.distinct(1))
    have used: "used_of C' = (used_of C)(q \<mapsto> u)"
      unfolding tr(3) al(3) m(5) using m(2) by (auto simp: fun_eq_iff)
    have "words h' x = words h x" if x: "used_of C r = Some v" "x \<in> payload r v" for r v x
    proof -
      have "r \<noteq> p" "r \<noteq> q" using x(1) m(2) q0 by auto
      then have "((used_of C1)(p := None)) r = Some v" "((used_of C2)(q := None)) r = Some v" using x(1) m(5) al(3) by simp_all
      then show ?thesis using m(6) al(7) tr(5) x unfolding same_data_def by metis
    qed
    moreover have "block (chunk2mem q) bytes \<subseteq> payload q u"
    proof (rule block_in_payload(1) [OF tr(2)])
      show "used_of C' q = Some u" by (simp add: used)
      show "unat bytes + 4 \<le> unat u" using nb(1) tr(4) by (simp add: word_le_nat_alt)
    qed
    ultimately show ?thesis
      using rets tr(2) used q0 k(4) al(6)
      by (intro disjI1 exI [of _ "chunk2mem q"] exI [of _ h'] exI [of _ C'] exI [of _ u] exI [of _ k]) (simp add: mem_chunk)
  qed
  qed
  qed
qed

lemma memalign_runs:
  assumes "heap_inv h C" and "unat bytes + 2 * unat n + 128 \<le> 2 ^ 32"
  shows "(\<exists>a h' C' s k. dlmemalign n bytes h = ret (a, h') \<and> heap_inv h' C' \<and> used_of C (mem2chunk a) = None \<and>
      used_of C' = (used_of C)(mem2chunk a \<mapsto> s) \<and> unat n \<le> 2 ^ k \<and> 2 ^ k dvd unat a \<and>
      block a bytes \<subseteq> payload (mem2chunk a) s \<and>
      (\<forall>q t. used_of C q = Some t \<longrightarrow> (\<forall>x\<in>payload q t. words h' x = words h x))) \<or>
    (\<exists>req. unat req \<le> unat bytes + 2 * unat n + 48 \<and> m_topsize h \<le> request2size req \<and>
      dlmalloc req h = sys_alloc (request2size req) h)"
proof -
  have "unat n \<le> 2 ^ 31" "\<not> 2 ^ 32 < unat bytes + 2 * unat n + 128" using assms(2) by simp_all
  then show ?thesis using memalign_runs_any [OF assms(1), of n bytes] by blast
qed

section \<open>The property\<close>



end
