(* ===== verification/MallocCalls.thy ===== *)
theory MallocCalls
  imports MallocAlign
begin

text \<open>
  Sequences of calls of \<^verbatim>\<open>malloc\<close>, \<^verbatim>\<open>calloc\<close>, \<^verbatim>\<open>memalign\<close>, \<^verbatim>\<open>realloc\<close> and \<^verbatim>\<open>free\<close> between which the users write
  into their blocks: what the rest of the kernel relies on.
\<close>

section \<open>The interface\<close>

text \<open>\<open>inv h U\<close>: the blocks handed out are those of the map \<open>U\<close> from addresses to sizes. \<open>content a s h\<close> is
  what the user keeps in a block.\<close>

locale allocator =
  fixes inv :: "'h \<Rightarrow> ('a \<rightharpoonup> 'n) \<Rightarrow> bool" and alloc :: "'r \<Rightarrow> 'h \<Rightarrow> ('a \<times> 'h) option" and release :: "'a \<Rightarrow> 'h \<Rightarrow> 'h option"
    and fits :: "'r \<Rightarrow> 'h \<Rightarrow> bool" and quiet :: "'a \<Rightarrow> 'h \<Rightarrow> bool" and content :: "'a \<Rightarrow> 'n \<Rightarrow> 'h \<Rightarrow> 'd"
  assumes alloc_law: "inv h U \<Longrightarrow> fits r h \<Longrightarrow>
      \<exists>a s h'. alloc r h = Some (a, h') \<and> U a = None \<and> inv h' (U(a \<mapsto> s)) \<and> (\<forall>b t. U b = Some t \<longrightarrow> content b t h' = content b t h)"
    and release_law: "inv h U \<Longrightarrow> U a = Some s \<Longrightarrow> quiet a h \<Longrightarrow>
      \<exists>h'. release a h = Some h' \<and> inv h' (U(a := None)) \<and> (\<forall>b t. b \<noteq> a \<longrightarrow> U b = Some t \<longrightarrow> content b t h' = content b t h)"
begin

lemma alloc_fresh:
  assumes "inv h U" and "fits r h" and "alloc r h = Some (a, h')"
  shows "a \<notin> dom U" "\<exists>s. inv h' (U(a \<mapsto> s))" "\<And>b t. U b = Some t \<Longrightarrow> content b t h' = content b t h"
proof -
  obtain s where s: "U a = None" "inv h' (U(a \<mapsto> s))" "\<forall>b t. U b = Some t \<longrightarrow> content b t h' = content b t h"
    using alloc_law [OF assms(1,2)] assms(3) by auto
  show "a \<notin> dom U" "\<exists>s. inv h' (U(a \<mapsto> s))" "\<And>b t. U b = Some t \<Longrightarrow> content b t h' = content b t h"
    using s by blast+
qed

end

text \<open>With blocks whose size can be changed, which may move them, and into which the users write.\<close>

locale working_allocator = allocator inv alloc release fits quiet content
  for inv :: "'h \<Rightarrow> ('a \<rightharpoonup> 'n) \<Rightarrow> bool" and alloc :: "'r \<Rightarrow> 'h \<Rightarrow> ('a \<times> 'h) option" and release :: "'a \<Rightarrow> 'h \<Rightarrow> 'h option"
    and fits :: "'r \<Rightarrow> 'h \<Rightarrow> bool" and quiet :: "'a \<Rightarrow> 'h \<Rightarrow> bool" and content :: "'a \<Rightarrow> 'n \<Rightarrow> 'h \<Rightarrow> 'd" +
  fixes resize :: "'a \<Rightarrow> 'm \<Rightarrow> 'h \<Rightarrow> ('a \<times> 'h) option" and able :: "'a \<Rightarrow> 'm \<Rightarrow> 'h \<Rightarrow> bool"
    and put :: "'a \<Rightarrow> 'w \<Rightarrow> 'h \<Rightarrow> 'h" and inside :: "'a \<Rightarrow> 'w \<Rightarrow> 'h \<Rightarrow> bool"
  assumes resize_law: "inv h U \<Longrightarrow> U a = Some s \<Longrightarrow> able a m h \<Longrightarrow>
      \<exists>b t h'. resize a m h = Some (b, h') \<and> (b = a \<or> U b = None) \<and> inv h' (U(a := None, b \<mapsto> t)) \<and>
        (\<forall>c u. c \<noteq> a \<longrightarrow> U c = Some u \<longrightarrow> content c u h' = content c u h)"
    and put_law: "inv h U \<Longrightarrow> U a = Some s \<Longrightarrow> inside a w h \<Longrightarrow>
      inv (put a w h) U \<and> (\<forall>b t. b \<noteq> a \<longrightarrow> U b = Some t \<longrightarrow> content b t (put a w h) = content b t h)"

section \<open>Sequences of calls\<close>

datatype ('r, 'a, 'm, 'w) call = Alloc 'r | Release 'a | Resize 'a 'm | Write 'a 'w

fun touched :: "('r, 'a, 'm, 'w) call \<Rightarrow> 'a option" where
  "touched (Alloc r) = None"
| "touched (Release a) = Some a"
| "touched (Resize a m) = Some a"
| "touched (Write a w) = Some a"

text \<open>The functions of an allocator, so that they can be named together.\<close>

record ('h, 'a, 'r, 'm, 'w) operations =
  f_alloc :: "'r \<Rightarrow> 'h \<Rightarrow> ('a \<times> 'h) option"
  f_release :: "'a \<Rightarrow> 'h \<Rightarrow> 'h option"
  f_resize :: "'a \<Rightarrow> 'm \<Rightarrow> 'h \<Rightarrow> ('a \<times> 'h) option"
  f_put :: "'a \<Rightarrow> 'w \<Rightarrow> 'h \<Rightarrow> 'h"
  f_fits :: "'r \<Rightarrow> 'h \<Rightarrow> bool"
  f_quiet :: "'a \<Rightarrow> 'h \<Rightarrow> bool"
  f_able :: "'a \<Rightarrow> 'm \<Rightarrow> 'h \<Rightarrow> bool"
  f_inside :: "'a \<Rightarrow> 'w \<Rightarrow> 'h \<Rightarrow> bool"

text \<open>A sequence of calls, with the set of the blocks that are in use.\<close>

inductive serves ::
  "('h, 'a, 'r, 'm, 'w) operations \<Rightarrow> 'h \<Rightarrow> 'a set \<Rightarrow> ('r, 'a, 'm, 'w) call list \<Rightarrow> 'h \<Rightarrow> 'a set \<Rightarrow> bool"
  for F :: "('h, 'a, 'r, 'm, 'w) operations"
where
  serves_nil: "serves F h L [] h L"
| serves_alloc: "f_fits F r h \<Longrightarrow> f_alloc F r h = Some (a, h1) \<Longrightarrow> serves F h1 (insert a L) cs h' L' \<Longrightarrow>
    serves F h L (Alloc r # cs) h' L'"
| serves_release: "a \<in> L \<Longrightarrow> f_quiet F a h \<Longrightarrow> f_release F a h = Some h1 \<Longrightarrow> serves F h1 (L - {a}) cs h' L' \<Longrightarrow>
    serves F h L (Release a # cs) h' L'"
| serves_resize: "a \<in> L \<Longrightarrow> f_able F a m h \<Longrightarrow> f_resize F a m h = Some (b, h1) \<Longrightarrow>
    serves F h1 (insert b (L - {a})) cs h' L' \<Longrightarrow> serves F h L (Resize a m # cs) h' L'"
| serves_write: "a \<in> L \<Longrightarrow> f_inside F a w h \<Longrightarrow> serves F (f_put F a w h) L cs h' L' \<Longrightarrow>
    serves F h L (Write a w # cs) h' L'"

inductive_cases serves_AllocE: "serves F h L (Alloc r # cs) h' L'"
inductive_cases serves_ReleaseE: "serves F h L (Release a # cs) h' L'"
inductive_simps serves_Write: "serves F h L (Write a w # cs) h' L'"

text \<open>One step keeps what a block holds that it does not touch.\<close>

definition kept :: "('a \<Rightarrow> 'n \<Rightarrow> 'h \<Rightarrow> 'd) \<Rightarrow> 'h \<Rightarrow> ('a \<rightharpoonup> 'n) \<Rightarrow> 'a option \<Rightarrow> 'h \<Rightarrow> ('a \<rightharpoonup> 'n) \<Rightarrow> bool" where
  "kept content h U x h' U' \<longleftrightarrow> (\<forall>b t. U b = Some t \<longrightarrow> x \<noteq> Some b \<longrightarrow> U' b = Some t \<and> content b t h' = content b t h)"

context working_allocator begin

lemma kept_step:
  assumes "kept content h U (touched c) h1 U1"
    and "\<exists>U'. inv h' U' \<and> dom U' = L' \<and>
      (\<forall>a t. U1 a = Some t \<longrightarrow> Some a \<notin> touched ` set cs \<longrightarrow> U' a = Some t \<and> content a t h' = content a t h1)"
  shows "\<exists>U'. inv h' U' \<and> dom U' = L' \<and>
      (\<forall>a t. U a = Some t \<longrightarrow> Some a \<notin> touched ` set (c # cs) \<longrightarrow> U' a = Some t \<and> content a t h' = content a t h)"
proof -
  obtain U' where U': "inv h' U'" "dom U' = L'"
    "\<And>a t. U1 a = Some t \<Longrightarrow> Some a \<notin> touched ` set cs \<Longrightarrow> U' a = Some t \<and> content a t h' = content a t h1"
    using assms(2) by blast
  have "U' a = Some t \<and> content a t h' = content a t h" if a: "U a = Some t" "Some a \<notin> touched ` set (c # cs)" for a t
  proof -
    have "U1 a = Some t \<and> content a t h1 = content a t h" using assms(1) a by (auto simp: kept_def)
    then show ?thesis using U'(3) [of a t] a(2) by simp
  qed
  then show ?thesis using U'(1,2) by blast
qed

lemma serves_safe:
  assumes "serves F h L cs h' L'" and F: "F = \<lparr>f_alloc = alloc, f_release = release, f_resize = resize, f_put = put,
      f_fits = fits, f_quiet = quiet, f_able = able, f_inside = inside\<rparr>" and "inv h U" and "dom U = L"
  shows "\<exists>U'. inv h' U' \<and> dom U' = L' \<and>
    (\<forall>a t. U a = Some t \<longrightarrow> Some a \<notin> touched ` set cs \<longrightarrow> U' a = Some t \<and> content a t h' = content a t h)"
  using assms(1,3,4)
proof (induction arbitrary: U rule: serves.induct)
  case (serves_nil h L)
  then show ?case by blast
next
  case (serves_alloc r h a h1 L cs h' L')
  have r: "fits r h" "alloc r h = Some (a, h1)" using serves_alloc.hyps by (simp_all add: F)
  obtain s where s: "U a = None" "inv h1 (U(a \<mapsto> s))" "\<forall>b t. U b = Some t \<longrightarrow> content b t h1 = content b t h"
    using alloc_law [OF serves_alloc.prems(1) r(1)] unfolding r(2) by blast
  have d: "dom (U(a \<mapsto> s)) = insert a L" using serves_alloc.prems(2) by simp
  have k: "kept content h U (touched (Alloc r)) h1 (U(a \<mapsto> s))" using s by (auto simp: kept_def)
  show ?case by (rule kept_step [OF k serves_alloc.IH [OF s(2) d]])
next
  case (serves_release a L h h1 cs h' L')
  have r: "quiet a h" "release a h = Some h1" using serves_release.hyps by (simp_all add: F)
  obtain s where s: "U a = Some s" using serves_release.hyps(1) serves_release.prems(2) by blast
  obtain h2 where "release a h = Some h2" "inv h2 (U(a := None))" "\<forall>b t. b \<noteq> a \<longrightarrow> U b = Some t \<longrightarrow> content b t h2 = content b t h"
    using release_law [OF serves_release.prems(1) s r(1)] by blast
  then have h1: "inv h1 (U(a := None))" "\<forall>b t. b \<noteq> a \<longrightarrow> U b = Some t \<longrightarrow> content b t h1 = content b t h"
    using r(2) by simp_all
  have d: "dom (U(a := None)) = L - {a}" using serves_release.prems(2) by simp
  have k: "kept content h U (touched (Release a :: ('r, 'a, 'm, 'w) call)) h1 (U(a := None))" using h1 by (auto simp: kept_def)
  show ?case by (rule kept_step [OF k serves_release.IH [OF h1(1) d]])
next
  case (serves_resize a L m h b h1 cs h' L')
  have r: "able a m h" "resize a m h = Some (b, h1)" using serves_resize.hyps by (simp_all add: F)
  obtain s where s: "U a = Some s" using serves_resize.hyps(1) serves_resize.prems(2) by blast
  obtain t where h1: "b = a \<or> U b = None" "inv h1 (U(a := None, b \<mapsto> t))"
    "\<forall>c u. c \<noteq> a \<longrightarrow> U c = Some u \<longrightarrow> content c u h1 = content c u h"
    using resize_law [OF serves_resize.prems(1) s r(1)] unfolding r(2) by blast
  have d: "dom (U(a := None, b \<mapsto> t)) = insert b (L - {a})" using serves_resize.prems(2) by auto
  have k: "kept content h U (touched (Resize a m :: ('r, 'a, 'm, 'w) call)) h1 (U(a := None, b \<mapsto> t))" using h1 by (auto simp: kept_def)
  show ?case by (rule kept_step [OF k serves_resize.IH [OF h1(2) d]])
next
  case (serves_write a L w h cs h' L')
  have r: "inside a w h" "f_put F a w h = put a w h" using serves_write.hyps by (simp_all add: F)
  obtain s where s: "U a = Some s" using serves_write.hyps(1) serves_write.prems(2) by blast
  have h1: "inv (put a w h) U" "\<forall>b t. b \<noteq> a \<longrightarrow> U b = Some t \<longrightarrow> content b t (put a w h) = content b t h"
    using put_law [OF serves_write.prems(1) s r(1)] by auto
  have k: "kept content h U (touched (Write a w :: ('r, 'a, 'm, 'w) call)) (put a w h) U" using h1 by (auto simp: kept_def)
  show ?case by (rule kept_step [OF k serves_write.IH [unfolded r(2), OF h1(1) serves_write.prems(2)]])
qed

end

section \<open>The heap as such an allocator\<close>

definition returned :: "'a run \<Rightarrow> 'a option" where
  "returned m = (case m of Some (Inr x) \<Rightarrow> Some x | _ \<Rightarrow> None)"

lemma returned_ret [simp]: "returned (ret x) = Some x"
  by (simp add: returned_def)

definition blocks :: "row \<Rightarrow> u32 \<rightharpoonup> u32" where
  "blocks C a = used_of C (mem2chunk a)"

definition heap_of :: "heap \<Rightarrow> (u32 \<rightharpoonup> u32) \<Rightarrow> bool" where
  "heap_of h U \<longleftrightarrow> (\<exists>C. heap_inv h C \<and> U = blocks C)"

definition contents :: "u32 \<Rightarrow> u32 \<Rightarrow> heap \<Rightarrow> u32 \<Rightarrow> u32" where
  "contents a s h = (\<lambda>x. if x \<in> payload (mem2chunk a) s then words h x else 0)"

text \<open>The requests: for a number of bytes, for cleared elements, for bytes at an alignment.\<close>

datatype request = Plain u32 | Cleared u32 u32 | Aligned u32 u32

fun own_alloc :: "request \<Rightarrow> heap \<Rightarrow> (u32 \<times> heap) option" where
  "own_alloc (Plain n) h = returned (dlmalloc n h)"
| "own_alloc (Cleared n e) h = returned (dlcalloc n e h)"
| "own_alloc (Aligned a n) h = returned (dlmemalign a n h)"

fun fits_top :: "request \<Rightarrow> heap \<Rightarrow> bool" where
  "fits_top (Plain n) h \<longleftrightarrow> n < MAX_REQUEST \<and> request2size n < m_topsize h"
| "fits_top (Cleared n e) h \<longleftrightarrow> unat n * unat e < 2 ^ 32 - 64 \<and> request2size (n * e) < m_topsize h"
| "fits_top (Aligned a n) h \<longleftrightarrow> unat n + 2 * unat a + 128 \<le> 2 ^ 32 \<and> unat n + 2 * unat a + 80 < unat (m_topsize h)"

definition own_free :: "u32 \<Rightarrow> heap \<Rightarrow> heap option" where
  "own_free a h = returned (dlfree a h)"

definition own_realloc :: "u32 \<Rightarrow> u32 \<Rightarrow> heap \<Rightarrow> (u32 \<times> heap) option" where
  "own_realloc a n h = returned (dlrealloc a n h)"

text \<open>The block can stay where it is, or the top chunk can serve a new one and the release is calm.\<close>

definition can_resize :: "u32 \<Rightarrow> u32 \<Rightarrow> heap \<Rightarrow> bool" where
  "can_resize a n h \<longleftrightarrow> n < MAX_REQUEST \<and>
     (case returned (try_realloc_chunk (mem2chunk a) (request2size n) h) of
        None \<Rightarrow> False
      | Some (p, _) \<Rightarrow> p \<noteq> 0 \<or> request2size n < m_topsize h \<and>
          (case returned (dlmalloc n h) of None \<Rightarrow> False | Some (_, h1) \<Rightarrow> calm a h1))"

text \<open>A user writes a byte at an offset.\<close>

definition own_write :: "u32 \<Rightarrow> nat \<times> u8 \<Rightarrow> heap \<Rightarrow> heap" where
  "own_write a w h = set_byte (a + of_nat (fst w)) (snd w) h"

definition own_place :: "u32 \<Rightarrow> nat \<times> u8 \<Rightarrow> heap \<Rightarrow> bool" where
  "own_place a w h \<longleftrightarrow> fst w + 4 < unat (chunksize h (mem2chunk a))"

lemma mem2chunk_eq: "mem2chunk a = mem2chunk b \<longleftrightarrow> a = b"
  by (simp add: mem2chunk_def)

lemma blocks_upd: "used_of C' = (used_of C)(mem2chunk a := v) \<Longrightarrow> blocks C' = (blocks C)(a := v)"
  by (auto simp: blocks_def mem2chunk_eq fun_eq_iff)

lemma same_contents:
  assumes "\<forall>q t. used_of C q = Some t \<longrightarrow> q \<noteq> mem2chunk a \<longrightarrow> (\<forall>x\<in>payload q t. words h' x = words h x)"
    and "blocks C b = Some t" "b \<noteq> a"
  shows "contents b t h' = contents b t h"
  using assms by (auto simp: contents_def blocks_def fun_eq_iff mem2chunk_eq)

lemma new_block:
  assumes inv: "heap_inv h' C'" and used: "used_of C' = (used_of C)(mem2chunk a \<mapsto> s)" and fresh: "used_of C (mem2chunk a) = None"
    and data: "\<forall>q t. used_of C q = Some t \<longrightarrow> (\<forall>x\<in>payload q t. words h' x = words h x)"
  shows "blocks C a = None \<and> heap_of h' ((blocks C)(a \<mapsto> s)) \<and>
    (\<forall>b t. blocks C b = Some t \<longrightarrow> contents b t h' = contents b t h)"
proof -
  have "heap_of h' ((blocks C)(a \<mapsto> s))" using inv blocks_upd [OF used] by (auto simp: heap_of_def)
  moreover have "contents b t h' = contents b t h" if "blocks C b = Some t" for b t
    using same_contents [of C a h' h b t] data fresh that by (cases "b = a") (auto simp: blocks_def)
  ultimately show ?thesis using fresh by (simp add: blocks_def)
qed

lemma own_alloc_law:
  assumes i: "heap_inv h C" and f: "fits_top r h"
  shows "\<exists>a s h'. own_alloc r h = Some (a, h') \<and> blocks C a = None \<and> heap_of h' ((blocks C)(a \<mapsto> s)) \<and>
    (\<forall>b t. blocks C b = Some t \<longrightarrow> contents b t h' = contents b t h)"
proof (cases r)
  case (Plain n)
  then have n: "n < MAX_REQUEST" "\<not> m_topsize h \<le> request2size n" using f by (simp_all add: not_le)
  obtain a h' C' s where "dlmalloc n h = ret (a, h')" "heap_inv h' C'" "used_of C (mem2chunk a) = None"
    "used_of C' = (used_of C)(mem2chunk a \<mapsto> s)" "\<forall>q t. used_of C q = Some t \<longrightarrow> (\<forall>x\<in>payload q t. words h' x = words h x)"
    using malloc_correct_full [OF i n(1)] n(2) by blast
  then show ?thesis using new_block [of h' C' C a s h] by (intro exI [of _ a] exI [of _ s] exI [of _ h']) (simp add: Plain)
next
  case (Cleared n e)
  then have p: "unat n * unat e < 2 ^ 32 - 64" "\<not> m_topsize h \<le> request2size (n * e)" using f by (simp_all add: not_le)
  have "unat (n * e) = unat n * unat e" using p(1) by (simp add: unat_word_ariths)
  then have q: "calloc_request n e = n * e" "n * e < MAX_REQUEST"
    using p(1) by (simp_all add: calloc_request_correct max_request word_less_nat_alt)
  obtain a h' C' s where "dlcalloc n e h = ret (a, h')" "heap_inv h' C'" "used_of C (mem2chunk a) = None"
    "used_of C' = (used_of C)(mem2chunk a \<mapsto> s)" "\<forall>q t. used_of C q = Some t \<longrightarrow> (\<forall>x\<in>payload q t. words h' x = words h x)"
    using calloc_runs [OF i q] p(2) by blast
  then show ?thesis using new_block [of h' C' C a s h] by (intro exI [of _ a] exI [of _ s] exI [of _ h']) (simp add: Cleared)
next
  case (Aligned l n)
  then have p: "unat n + 2 * unat l + 128 \<le> 2 ^ 32" "unat n + 2 * unat l + 80 < unat (m_topsize h)" using f by simp_all
  have "\<not> (unat req \<le> unat n + 2 * unat l + 48 \<and> m_topsize h \<le> request2size req)" for req
  proof
    assume a: "unat req \<le> unat n + 2 * unat l + 48 \<and> m_topsize h \<le> request2size req"
    then have "req < MAX_REQUEST" using p(1) by (simp add: max_request word_less_nat_alt)
    then show False using request_room(2) [of req] a p(2) by (simp add: word_le_nat_alt)
  qed
  then obtain a h' C' s where "dlmemalign l n h = ret (a, h')" "heap_inv h' C'" "used_of C (mem2chunk a) = None"
    "used_of C' = (used_of C)(mem2chunk a \<mapsto> s)" "\<forall>q t. used_of C q = Some t \<longrightarrow> (\<forall>x\<in>payload q t. words h' x = words h x)"
    using memalign_runs [OF i p(1)] by blast
  then show ?thesis using new_block [of h' C' C a s h] by (intro exI [of _ a] exI [of _ s] exI [of _ h']) (simp add: Aligned)
qed

lemma own_free_law:
  assumes i: "heap_inv h C" and a: "blocks C a = Some s" and q: "calm a h"
  shows "\<exists>h'. own_free a h = Some h' \<and> heap_of h' ((blocks C)(a := None)) \<and>
    (\<forall>b t. b \<noteq> a \<longrightarrow> blocks C b = Some t \<longrightarrow> contents b t h' = contents b t h)"
proof -
  have "used_of C (mem2chunk a) = Some s" using a by (simp add: blocks_def)
  from free_correct_full [OF i this] obtain h' C' where r: "dlfree a h = give_back h h'" "outcome h (hole_size h (mem2chunk a)) h'"
    "heap_inv h' C'" "used_of C' = (used_of C)(mem2chunk a := None)"
    "\<forall>q t. used_of C q = Some t \<longrightarrow> q \<noteq> mem2chunk a \<longrightarrow> (\<forall>x\<in>payload q t. words h' x = words h x)" by blast
  have "own_free a h = Some h'" using r(1) calm_give_back [OF q r(2)] by (simp add: own_free_def)
  moreover have "heap_of h' ((blocks C)(a := None))" using r(3) blocks_upd [OF r(4)] by (auto simp: heap_of_def)
  ultimately show ?thesis using same_contents [OF r(5)] by blast
qed

lemma own_realloc_law:
  assumes i: "heap_inv h C" and a: "blocks C a = Some s" and f: "can_resize a n h"
  shows "\<exists>b t h'. own_realloc a n h = Some (b, h') \<and> (b = a \<or> blocks C b = None) \<and> heap_of h' ((blocks C)(a := None, b \<mapsto> t)) \<and>
    (\<forall>c u. c \<noteq> a \<longrightarrow> blocks C c = Some u \<longrightarrow> contents c u h' = contents c u h)"
proof -
  have n: "n < MAX_REQUEST" using f by (simp add: can_resize_def)
  have p: "used_of C (mem2chunk a) = Some s" using a by (simp add: blocks_def)
  note nb = request_room(3,4) [OF n]
  have "\<exists>b h'. own_realloc a n h = Some (b, h') \<and> became h C a s n b h'"
  proof (cases "fits_in_place h C (mem2chunk a) s (request2size n)")
    case True
    then show ?thesis using realloc_correct_full [OF i p n] by (auto simp: own_realloc_def)
  next
    case False
    then have "try_realloc_chunk (mem2chunk a) (request2size n) h = ret (0, h)" using try_realloc_runs [OF i p nb] by simp
    then have c: "\<not> m_topsize h \<le> request2size n" "\<And>r h1. dlmalloc n h = ret (r, h1) \<Longrightarrow> calm a h1"
      using f by (simp_all add: can_resize_def not_le)
    obtain r h1 g h' where r: "dlmalloc n h = ret (r, h1)" "dlrealloc a n h = bindR (give_back g h') (\<lambda>h. ret (r, h))"
      "calm a h1 \<longrightarrow> give_back g h' = ret h'" "became h C a s n r h'"
      using realloc_correct_full [OF i p n] False c(1) by auto
    then have "own_realloc a n h = Some (r, h')" using c(2) [OF r(1)] by (simp add: own_realloc_def)
    then show ?thesis using r(4) by blast
  qed
  then obtain b h' where b: "own_realloc a n h = Some (b, h')" "became h C a s n b h'" by blast
  obtain C' t where r: "heap_inv h' C'" "used_of C' = (used_of C)(mem2chunk a := None, mem2chunk b \<mapsto> t)"
    "b = a \<or> used_of C (mem2chunk b) = None"
    "\<forall>q u. used_of C q = Some u \<longrightarrow> q \<noteq> mem2chunk a \<longrightarrow> (\<forall>x\<in>payload q u. words h' x = words h x)"
    using b(2) unfolding became_def by blast
  have "blocks C' = (blocks C)(a := None, b \<mapsto> t)" using r(2) by (auto simp: blocks_def mem2chunk_eq fun_eq_iff)
  then have "heap_of h' ((blocks C)(a := None, b \<mapsto> t))" using r(1) by (auto simp: heap_of_def)
  then show ?thesis using b(1) r(3) same_contents [OF r(4)] unfolding blocks_def by blast
qed

lemma own_write_law:
  assumes i: "heap_inv h C" and a: "blocks C a = Some s" and w: "own_place a w h"
  shows "heap_inv (own_write a w h) C" "b \<noteq> a \<Longrightarrow> blocks C b = Some t \<Longrightarrow> contents b t (own_write a w h) = contents b t h"
proof -
  let ?p = "mem2chunk a"
  have p: "used_of C ?p = Some s" using a by (simp add: blocks_def)
  then have "chunksize h ?p = s" using used_flags(3) [OF i] by (simp add: used_of_iff)
  then have "a + of_nat (fst w) \<in> payload ?p s" using used_bytes(2) [OF i p] w by (simp add: own_place_def)
  moreover have "8 dvd unat ?p" "8 dvd unat s" using used_area(1) [OF i p] by (simp_all add: area_def)
  ultimately have u: "user_writes ?p s h (own_write a w h)" unfolding own_write_def by (intro set_byte_writes)
  show "heap_inv (own_write a w h) C" by (rule user_writes_inv [OF i p u])
  have "\<forall>q t. used_of C q = Some t \<longrightarrow> q \<noteq> ?p \<longrightarrow> (\<forall>x\<in>payload q t. words (own_write a w h) x = words h x)"
    using user_writes_other [OF i p u] by blast
  then show "b \<noteq> a \<Longrightarrow> blocks C b = Some t \<Longrightarrow> contents b t (own_write a w h) = contents b t h"
    using same_contents by blast
qed

interpretation dl: working_allocator heap_of own_alloc own_free fits_top calm contents own_realloc can_resize own_write own_place
proof unfold_locales
  fix h U r assume "heap_of h U" and f: "fits_top r h"
  then obtain C where C: "heap_inv h C" "U = blocks C" by (auto simp: heap_of_def)
  show "\<exists>a s h'. own_alloc r h = Some (a, h') \<and> U a = None \<and> heap_of h' (U(a \<mapsto> s)) \<and>
      (\<forall>b t. U b = Some t \<longrightarrow> contents b t h' = contents b t h)"
    unfolding C(2) by (rule own_alloc_law [OF C(1) f])
next
  fix h U a s assume "heap_of h U" and a: "U a = Some s" "calm a h"
  then obtain C where C: "heap_inv h C" "U = blocks C" by (auto simp: heap_of_def)
  show "\<exists>h'. own_free a h = Some h' \<and> heap_of h' (U(a := None)) \<and>
      (\<forall>b t. b \<noteq> a \<longrightarrow> U b = Some t \<longrightarrow> contents b t h' = contents b t h)"
    using a(1) unfolding C(2) by (rule own_free_law [OF C(1) _ a(2)])
next
  fix h U a s n assume "heap_of h U" and a: "U a = Some s" "can_resize a n h"
  then obtain C where C: "heap_inv h C" "U = blocks C" by (auto simp: heap_of_def)
  show "\<exists>b t h'. own_realloc a n h = Some (b, h') \<and> (b = a \<or> U b = None) \<and> heap_of h' (U(a := None, b \<mapsto> t)) \<and>
      (\<forall>c u. c \<noteq> a \<longrightarrow> U c = Some u \<longrightarrow> contents c u h' = contents c u h)"
    using a(1) unfolding C(2) by (rule own_realloc_law [OF C(1) _ a(2)])
next
  fix h U a s w assume "heap_of h U" and a: "U a = Some s" "own_place a w h"
  then obtain C where C: "heap_inv h C" "U = blocks C" by (auto simp: heap_of_def)
  note w = own_write_law [OF C(1) a(1) [unfolded C(2)] a(2)]
  show "heap_of (own_write a w h) U \<and> (\<forall>b t. b \<noteq> a \<longrightarrow> U b = Some t \<longrightarrow> contents b t (own_write a w h) = contents b t h)"
    unfolding C(2) using w unfolding heap_of_def by blast
qed

section \<open>The property\<close>

definition own_operations :: "(heap, u32, request, u32, nat \<times> u8) operations" where
  "own_operations = \<lparr>f_alloc = own_alloc, f_release = own_free, f_resize = own_realloc, f_put = own_write, f_fits = fits_top,
     f_quiet = calm, f_able = can_resize, f_inside = own_place\<rparr>"

text \<open>C4. Any sequence of calls of \<^verbatim>\<open>malloc\<close>, \<^verbatim>\<open>calloc\<close>, \<^verbatim>\<open>memalign\<close>, \<^verbatim>\<open>realloc\<close> and \<^verbatim>\<open>free\<close>, with writes of
  the users into their blocks in between, from any heap that keeps the invariant, as long as the top
  chunk can serve the requests and releases give nothing back to the kernel: the invariant holds at the
  end, the blocks in use are those handed out and not released, and a block that no call of the
  sequence names is still in use with its size and contents.\<close>

theorem heap_sequences_safe:
  assumes "heap_inv h C" and "serves own_operations h (dom (blocks C)) cs h' L"
  shows "\<exists>C'. heap_inv h' C' \<and> dom (blocks C') = L \<and>
    (\<forall>a s. blocks C a = Some s \<longrightarrow> Some a \<notin> touched ` set cs \<longrightarrow> blocks C' a = Some s \<and> contents a s h' = contents a s h)"
proof -
  have "heap_of h (blocks C)" using assms(1) by (auto simp: heap_of_def)
  from dl.serves_safe [OF assms(2) own_operations_def this refl] show ?thesis unfolding heap_of_def by blast
qed

theorem heap_sequences_safe_witness:
  "\<exists>a h' C'. serves own_operations started_heap {} [Alloc (Plain 100), Write a (0, 65), Resize a 50] h' {a} \<and>
     heap_inv h' C' \<and> dom (blocks C') = {a}"
proof -
  note i = started_heap_inv(1)
  obtain a h1 C1 p s where m: "dlmalloc 100 started_heap = ret (a, h1)" "a = chunk2mem p" "request2size 100 \<le> s" "heap_inv h1 C1"
    "used_of C1 p = Some s"
    using dlmalloc_gives [OF i request_100(1)] unfolding request_100(2) started_heap_inv(2) gives_def allocated_def
    by (auto simp: started_used)
  have b: "blocks C1 a = Some s" "mem2chunk a = p" using m(2,5) by (simp_all add: blocks_def mem_chunk)
  have "chunksize h1 p = s" "16 \<le> unat s" using used_flags(3,7) [OF m(4)] m(5) by (simp_all add: used_of_iff)
  then have w: "own_place a (0, 65) h1" by (simp add: own_place_def b)
  define h2 where "h2 = own_write a (0, 65) h1"
  have i2: "heap_inv h2 C1" unfolding h2_def by (rule own_write_law(1) [OF m(4) b(1) w])
  have r50: "(50 :: u32) < MAX_REQUEST" "request2size 50 = 56"
    by (simp_all add: max_request request2size_def malloc_constants pad_request_def)
  have "request2size 50 \<le> s" using m(3) unfolding r50 request_100 by (simp add: word_le_nat_alt)
  then have f: "fits_in_place h2 C1 (mem2chunk a) s (request2size 50)" by (simp add: fits_in_place_def)
  have used: "used_of C1 (mem2chunk a) = Some s" using m(5) b(2) by simp
  have "mem2chunk a \<noteq> 0" using used_area(1) [OF m(4) m(5)] b(2) by (auto simp: area_def)
  then have c: "can_resize a 50 h2"
    using try_realloc_runs [OF i2 used request_room(3,4) [OF r50(1)]] f r50(1) by (auto simp: can_resize_def)
  obtain h3 where h3: "own_realloc a 50 h2 = Some (a, h3)"
    using realloc_stays [OF i2 used r50(1) f] by (auto simp: own_realloc_def)
  have "serves own_operations h2 {a} [Resize a 50] h3 {a}"
    by (rule serves_resize [of a _ _ _ _ a h3]) (use c h3 serves_nil in \<open>simp_all add: own_operations_def\<close>)
  then have "serves own_operations h1 {a} [Write a (0, 65), Resize a 50] h3 {a}"
    by (intro serves_write) (use w in \<open>simp_all add: own_operations_def h2_def\<close>)
  moreover have "f_fits own_operations (Plain 100) started_heap" "f_alloc own_operations (Plain 100) started_heap = Some (a, h1)"
    using m(1) request_100 started_heap_inv(2) by (simp_all add: own_operations_def)
  ultimately have sv: "serves own_operations started_heap {} [Alloc (Plain 100), Write a (0, 65), Resize a 50] h3 {a}"
    by (intro serves_alloc [of own_operations "Plain 100" started_heap a h1]) simp_all
  have "dom (blocks [0xC0400000 \<mapsto> (0x10000, Top)]) = {}" by (simp add: blocks_def [abs_def] started_used)
  then show ?thesis using heap_sequences_safe [OF i, of _ h3 "{a}"] sv by metis
qed

end
