(* ===== verification/NewlibStr.thy ===== *)
theory NewlibStr
  imports Prelude
begin

text \<open>
  The string routines of \<^verbatim>\<open>kernel/libc/newlib\<close> that are written in C: \<^verbatim>\<open>strcpy.c\<close>, \<^verbatim>\<open>strncpy.c\<close>
  and \<^verbatim>\<open>strcat.c\<close>. Each file holds two bodies, a plain loop over bytes for a small build and one
  that moves four bytes at a time when its pointers are aligned; the kernel is built with the
  second. Both are modelled, on a memory of bytes with 32-bit addresses that wrap around.
\<close>

unbundle bit_operations_syntax

section \<open>Memory\<close>

type_synonym byte_memory = "u32 \<Rightarrow> u8"

text \<open>A \<^verbatim>\<open>long\<close> has four bytes, the least significant one first.\<close>

definition load_long :: "byte_memory \<Rightarrow> u32 \<Rightarrow> u32" where
  "load_long m a =
     ucast (m a) + 0x100 * ucast (m (a + 1)) + 0x10000 * ucast (m (a + 2)) +
     0x1000000 * ucast (m (a + 3))"

definition store_long :: "u32 \<Rightarrow> u32 \<Rightarrow> byte_memory \<Rightarrow> byte_memory" where
  "store_long a v m =
     m(a := ucast v, a + 1 := ucast (drop_bit 8 v), a + 2 := ucast (drop_bit 16 v),
       a + 3 := ucast (drop_bit 24 v))"

section \<open>Macros\<close>

definition UNALIGNED :: "u32 \<Rightarrow> u32 \<Rightarrow> bool" where
  "UNALIGNED x y \<longleftrightarrow> (x AND 3) OR (y AND 3) \<noteq> 0"

definition ALIGNED :: "u32 \<Rightarrow> bool" where
  "ALIGNED x \<longleftrightarrow> x AND 3 = 0"

definition DETECTNULL :: "u32 \<Rightarrow> bool" where
  "DETECTNULL x \<longleftrightarrow> (x - 0x01010101) AND NOT x AND 0x80808080 \<noteq> 0"

definition TOO_SMALL :: "nat \<Rightarrow> bool" where
  "TOO_SMALL len \<longleftrightarrow> len < 4"

section \<open>strcpy\<close>

text \<open>\<open>None\<close>: the loop does not end.\<close>

partial_function (option) copy_bytes :: "u32 \<Rightarrow> u32 \<Rightarrow> byte_memory \<Rightarrow> byte_memory option" where
  "copy_bytes dst src m =
     (let m = m(dst := m src)
      in if m dst \<noteq> 0 then copy_bytes (dst + 1) (src + 1) m else Some m)"

definition strcpy_small :: "u32 \<Rightarrow> u32 \<Rightarrow> byte_memory \<Rightarrow> (u32 \<times> byte_memory) option" where
  "strcpy_small dst0 src0 m = map_option (\<lambda>m. (dst0, m)) (copy_bytes dst0 src0 m)"

partial_function (option) copy_longs ::
  "u32 \<Rightarrow> u32 \<Rightarrow> byte_memory \<Rightarrow> (u32 \<times> u32 \<times> byte_memory) option" where
  "copy_longs dst src m =
     (if \<not> DETECTNULL (load_long m src)
      then copy_longs (dst + 4) (src + 4) (store_long dst (load_long m src) m)
      else Some (dst, src, m))"

definition strcpy :: "u32 \<Rightarrow> u32 \<Rightarrow> byte_memory \<Rightarrow> (u32 \<times> byte_memory) option" where
  "strcpy dst0 src0 m =
     Option.bind
       (if \<not> UNALIGNED src0 dst0 then copy_longs dst0 src0 m else Some (dst0, src0, m))
       (\<lambda>(dst, src, m). map_option (\<lambda>m. (dst0, m)) (copy_bytes dst src m))"

section \<open>strncpy\<close>

text \<open>
  The counted loops are recursions on the count, which reaches zero. The first gives the address
  of the next byte and what is left of the count.
\<close>

fun ncopy_bytes :: "nat \<Rightarrow> u32 \<Rightarrow> u32 \<Rightarrow> byte_memory \<Rightarrow> nat \<times> u32 \<times> byte_memory" where
  "ncopy_bytes 0 dst src m = (0, dst, m)"
| "ncopy_bytes (Suc count) dst src m =
     (let m = m(dst := m src)
      in if m dst = 0 then (count, dst + 1, m) else ncopy_bytes count (dst + 1) (src + 1) m)"

fun fill_nulls :: "nat \<Rightarrow> u32 \<Rightarrow> byte_memory \<Rightarrow> byte_memory" where
  "fill_nulls 0 dst m = m"
| "fill_nulls (Suc count) dst m = fill_nulls count (dst + 1) (m(dst := 0))"

definition strncpy_small :: "u32 \<Rightarrow> u32 \<Rightarrow> u32 \<Rightarrow> byte_memory \<Rightarrow> u32 \<times> byte_memory" where
  "strncpy_small dst0 src0 count m =
     (case ncopy_bytes (unat count) dst0 src0 m of
        (count, dst, m) \<Rightarrow> (dst0, fill_nulls count dst m))"

function ncopy_longs :: "nat \<Rightarrow> u32 \<Rightarrow> u32 \<Rightarrow> byte_memory \<Rightarrow> nat \<times> u32 \<times> u32 \<times> byte_memory" where
  "ncopy_longs count dst src m =
     (if 4 \<le> count \<and> \<not> DETECTNULL (load_long m src)
      then ncopy_longs (count - 4) (dst + 4) (src + 4) (store_long dst (load_long m src) m)
      else (count, dst, src, m))"
  by pat_completeness auto
termination
  by (relation "measure fst") auto

declare ncopy_longs.simps [simp del]

definition strncpy :: "u32 \<Rightarrow> u32 \<Rightarrow> u32 \<Rightarrow> byte_memory \<Rightarrow> u32 \<times> byte_memory" where
  "strncpy dst0 src0 count m =
     (let (count, dst, src, m) =
        (if \<not> UNALIGNED src0 dst0 \<and> \<not> TOO_SMALL (unat count)
         then ncopy_longs (unat count) dst0 src0 m else (unat count, dst0, src0, m))
      in case ncopy_bytes count dst src m of
           (count, dst, m) \<Rightarrow> (dst0, fill_nulls count dst m))"

section \<open>strcat\<close>

partial_function (option) skip_bytes :: "u32 \<Rightarrow> byte_memory \<Rightarrow> u32 option" where
  "skip_bytes s m = (if m s \<noteq> 0 then skip_bytes (s + 1) m else Some s)"

partial_function (option) skip_longs :: "u32 \<Rightarrow> byte_memory \<Rightarrow> u32 option" where
  "skip_longs s m =
     (if \<not> DETECTNULL (load_long m s) then skip_longs (s + 4) m else Some s)"

definition strcat_small :: "u32 \<Rightarrow> u32 \<Rightarrow> byte_memory \<Rightarrow> (u32 \<times> byte_memory) option" where
  "strcat_small s1 s2 m =
     Option.bind (skip_bytes s1 m) (\<lambda>t. map_option (\<lambda>m. (s1, m)) (copy_bytes t s2 m))"

definition strcat :: "u32 \<Rightarrow> u32 \<Rightarrow> byte_memory \<Rightarrow> (u32 \<times> byte_memory) option" where
  "strcat s1 s2 m =
     Option.bind (if ALIGNED s1 then skip_longs s1 m else Some s1)
       (\<lambda>s. Option.bind (skip_bytes s m)
         (\<lambda>t. map_option (\<lambda>(_, m). (s1, m)) (strcpy t s2 m)))"

section \<open>A long and its bytes\<close>

definition long_value :: "u8 \<Rightarrow> u8 \<Rightarrow> u8 \<Rightarrow> u8 \<Rightarrow> nat" where
  "long_value b0 b1 b2 b3 = unat b0 + 256 * (unat b1 + 256 * (unat b2 + 256 * unat b3))"

lemma long_value_less: "long_value b0 b1 b2 b3 < 2 ^ 32"
proof -
  have "unat b0 < 256" "unat b1 < 256" "unat b2 < 256" "unat b3 < 256" by (simp_all add: unat_limit)
  then show ?thesis unfolding long_value_def by simp
qed

lemma load_long_of_nat:
  "load_long m a = of_nat (long_value (m a) (m (a + 1)) (m (a + 2)) (m (a + 3)))"
  by (simp add: load_long_def long_value_def algebra_simps unsigned_ucast_eq)

lemma unat_load_long:
  "unat (load_long m a) = long_value (m a) (m (a + 1)) (m (a + 2)) (m (a + 3))"
  using long_value_less [of "m a" "m (a + 1)" "m (a + 2)" "m (a + 3)"]
  by (simp add: load_long_of_nat unat_of_nat)


lemma byte_bit:
  assumes "r < 2 ^ k" and "c < 256"
  shows "odd ((r + 2 ^ k * (c + 256 * hi)) div 2 ^ (k + 7)) \<longleftrightarrow> 128 \<le> (c :: nat)"
proof -
  have "(r + 2 ^ k * (c + 256 * hi)) div 2 ^ (k + 7) = ((r + 2 ^ k * (c + 256 * hi)) div 2 ^ k) div 2 ^ 7"
    by (simp only: power_add div_mult2_eq)
  also have "(r + 2 ^ k * (c + 256 * hi)) div 2 ^ k = c + 256 * hi"
    using assms(1) by simp
  also have "(c + 256 * hi) div 2 ^ 7 = c div 128 + 2 * hi" by simp
  finally have "odd ((r + 2 ^ k * (c + 256 * hi)) div 2 ^ (k + 7)) \<longleftrightarrow> odd (c div 128)" by simp
  moreover have "odd (c div 128) \<longleftrightarrow> 128 \<le> c"
  proof (cases "128 \<le> c")
    case True
    then have "c div 128 = 1" using assms(2) by (intro div_nat_eqI) auto
    then show ?thesis using True by simp
  qed simp
  ultimately show ?thesis by simp
qed

lemma sign_bit_of_byte:
  assumes "unat (w :: u32) = r + 2 ^ k * (c + 256 * hi)" and "r < 2 ^ k" and "c < 256"
  shows "bit w (k + 7) \<longleftrightarrow> 128 \<le> c"
proof -
  have "bit w (k + 7) = bit (unat w) (k + 7)"
    by (simp add: bit_unsigned_iff)
  then show ?thesis using byte_bit [OF assms(2,3), of hi] by (simp only: bit_iff_odd assms(1))
qed

lemma mask_bits: "bit (0x80808080 :: u32) n \<longleftrightarrow> n \<in> {7, 15, 23, 31}"
proof -
  have "(0x80808080 :: u32) = push_bit 7 1 OR push_bit 15 1 OR push_bit 23 1 OR push_bit 31 1" by simp
  moreover have "bit (push_bit 7 1 OR push_bit 15 1 OR push_bit 23 1 OR push_bit 31 (1 :: u32)) n \<longleftrightarrow>
      n \<in> {7, 15, 23, 31}"
    by (auto simp: bit_or_iff bit_push_bit_iff bit_1_iff possible_bit_word simp del: push_bit_of_1)
  ultimately show ?thesis by simp
qed

lemma DETECTNULL_bits:
  "DETECTNULL w \<longleftrightarrow> (\<exists>n \<in> {7, 15, 23, 31}. bit (w - 0x01010101) n \<and> \<not> bit w n)"
proof -
  have "DETECTNULL w \<longleftrightarrow> (\<exists>n. bit ((w - 0x01010101) AND NOT w AND 0x80808080) n)"
    unfolding DETECTNULL_def by (metis bit_0_eq bit_eqI bot_apply bot_bool_def)
  also have "\<dots> \<longleftrightarrow> (\<exists>n. bit (w - 0x01010101) n \<and> \<not> bit w n \<and> n \<in> {7, 15, 23, 31})"
    unfolding bit_and_iff bit_not_iff mask_bits by (auto simp: possible_bit_word)
  finally show ?thesis by auto
qed

text \<open>
  The bytes of the difference: without a borrow every byte loses one; the lowest zero byte
  borrows and becomes 255.
\<close>

lemma unat_minus_ones:
  "unat (w - 0x01010101 :: u32) =
     (if 0x01010101 \<le> unat w then unat w - 0x01010101 else unat w + 0xfefefeff)"
  by (simp add: unat_sub_if' word_le_nat_alt)

lemma long_nonzero_bits:
  assumes w: "unat w = long_value b0 b1 b2 b3"
    and nz: "b0 \<noteq> 0" "b1 \<noteq> 0" "b2 \<noteq> 0" "b3 \<noteq> 0"
  shows "\<not> DETECTNULL w"
proof -
  obtain c0 c1 c2 c3 where c: "unat b0 = Suc c0" "unat b1 = Suc c1" "unat b2 = Suc c2" "unat b3 = Suc c3"
    using nz by (metis not0_implies_Suc unat_eq_0)
  have l: "Suc c0 < 256" "Suc c1 < 256" "Suc c2 < 256" "Suc c3 < 256" 
    by (simp_all flip: c add: unat_limit)
  have W: "unat w = Suc c0 + 256 * (Suc c1 + 256 * (Suc c2 + 256 * Suc c3))"
    by (simp add: w long_value_def c)
  have X: "unat (w - 0x01010101) = c0 + 256 * (c1 + 256 * (c2 + 256 * c3))"
    unfolding unat_minus_ones W by simp
  note bits = sign_bit_of_byte [of _ _ 0] sign_bit_of_byte [of _ _ 8] sign_bit_of_byte [of _ _ 16]
    sign_bit_of_byte [of _ _ 24]
  have "bit w 7 \<longleftrightarrow> 128 \<le> Suc c0" "bit (w - 0x01010101) 7 \<longleftrightarrow> 128 \<le> c0"
    using sign_bit_of_byte [of w 0 0 "Suc c0" "Suc c1 + 256 * (Suc c2 + 256 * Suc c3)"]
      sign_bit_of_byte [of "w - 0x01010101" 0 0 c0 "c1 + 256 * (c2 + 256 * c3)"] W X l by simp_all
  moreover have "bit w 15 \<longleftrightarrow> 128 \<le> Suc c1" "bit (w - 0x01010101) 15 \<longleftrightarrow> 128 \<le> c1"
    using sign_bit_of_byte [of w "Suc c0" 8 "Suc c1" "Suc c2 + 256 * Suc c3"]
      sign_bit_of_byte [of "w - 0x01010101" c0 8 c1 "c2 + 256 * c3"] W X l by simp_all
  moreover have "bit w 23 \<longleftrightarrow> 128 \<le> Suc c2" "bit (w - 0x01010101) 23 \<longleftrightarrow> 128 \<le> c2"
    using sign_bit_of_byte [of w "Suc c0 + 256 * Suc c1" 16 "Suc c2" "Suc c3"]
      sign_bit_of_byte [of "w - 0x01010101" "c0 + 256 * c1" 16 c2 "c3"] W X l by simp_all
  moreover have "bit w 31 \<longleftrightarrow> 128 \<le> Suc c3" "bit (w - 0x01010101) 31 \<longleftrightarrow> 128 \<le> c3"
    using sign_bit_of_byte [of w "Suc c0 + 256 * Suc c1 + 65536 * Suc c2" 24 "Suc c3" 0]
      sign_bit_of_byte [of "w - 0x01010101" "c0 + 256 * c1 + 65536 * c2" 24 c3 0] W X l by simp_all
  ultimately show ?thesis by (auto simp: DETECTNULL_bits)
qed

lemma long_zero_bits:
  assumes w: "unat w = long_value b0 b1 b2 b3"
    and z: "b0 = 0 \<or> b1 = 0 \<or> b2 = 0 \<or> b3 = 0"
  shows "DETECTNULL w"
proof -
  have l: "unat b0 < 256" "unat b1 < 256" "unat b2 < 256" "unat b3 < 256" by (simp_all add: unat_limit)
  consider "b0 = 0" | "b0 \<noteq> 0" "b1 = 0" | "b0 \<noteq> 0" "b1 \<noteq> 0" "b2 = 0"
    | "b0 \<noteq> 0" "b1 \<noteq> 0" "b2 \<noteq> 0" "b3 = 0" using z by blast
  then show ?thesis
  proof cases
    case 1
    then have W: "unat w = 0 + 256 * (unat b1 + 256 * (unat b2 + 256 * unat b3))" (is "_ = 0 + 256 * ?r")
      by (simp add: w long_value_def)
    obtain r where "unat (w - 0x01010101) = 255 + 256 * r"
    proof (cases "0x010101 < ?r")
      case True
      then have "unat (w - 0x01010101) = 255 + 256 * (?r - 0x010102)"
        unfolding unat_minus_ones W by simp
      then show ?thesis by (rule that)
    next
      case False
      then have "unat (w - 0x01010101) = 255 + 256 * (?r + 0xfefefe)"
        unfolding unat_minus_ones W by simp
      then show ?thesis by (rule that)
    qed
    then have "bit (w - 0x01010101) 7" using sign_bit_of_byte [of "w - 0x01010101" 0 0 255 r] by simp
    moreover have "\<not> bit w 7" using sign_bit_of_byte [of w 0 0 0 ?r] W by simp
    ultimately show ?thesis by (auto simp: DETECTNULL_bits)
  next
    case 2
    then obtain c0 where c0: "unat b0 = Suc c0" by (metis not0_implies_Suc unat_eq_0)
    have W: "unat w = Suc c0 + 65536 * (unat b2 + 256 * unat b3)" (is "_ = _ + _ * ?r")
      using 2 by (simp add: w long_value_def c0)
    obtain r where "unat (w - 0x01010101) = c0 + 256 * (255 + 256 * r)"
    proof (cases "0x0101 < ?r")
      case True
      then have "unat (w - 0x01010101) = c0 + 256 * (255 + 256 * (?r - 0x0102))"
        unfolding unat_minus_ones W by simp
      then show ?thesis by (rule that)
    next
      case False
      then have "unat (w - 0x01010101) = c0 + 256 * (255 + 256 * (?r + 0xfefe))"
        unfolding unat_minus_ones W using l c0 by simp
      then show ?thesis by (rule that)
    qed
    then have "bit (w - 0x01010101) 15"
      using sign_bit_of_byte [of "w - 0x01010101" c0 8 255 r] l c0 by simp
    moreover have "\<not> bit w 15" using sign_bit_of_byte [of w "Suc c0" 8 0 ?r] W l c0 by simp
    ultimately show ?thesis by (auto simp: DETECTNULL_bits)
  next
    case 3
    then obtain c0 c1 where c: "unat b0 = Suc c0" "unat b1 = Suc c1"
      by (metis not0_implies_Suc unat_eq_0)
    have W: "unat w = Suc c0 + 256 * Suc c1 + 0x1000000 * unat b3"
      using 3 by (simp add: w long_value_def c)
    obtain r where "unat (w - 0x01010101) = c0 + 256 * c1 + 65536 * (255 + 256 * r)"
    proof (cases "1 < unat b3")
      case True
      then have "unat (w - 0x01010101) = c0 + 256 * c1 + 65536 * (255 + 256 * (unat b3 - 2))"
        unfolding unat_minus_ones W by simp
      then show ?thesis by (rule that)
    next
      case False
      then have "unat (w - 0x01010101) = c0 + 256 * c1 + 65536 * (255 + 256 * (unat b3 + 0xfe))"
        unfolding unat_minus_ones W using l c by simp
      then show ?thesis by (rule that)
    qed
    then have "bit (w - 0x01010101) 23"
      using sign_bit_of_byte [of "w - 0x01010101" "c0 + 256 * c1" 16 255 r] l c by simp
    moreover have "\<not> bit w 23"
      using sign_bit_of_byte [of w "Suc c0 + 256 * Suc c1" 16 0 "unat b3"] W l c by simp
    ultimately show ?thesis by (auto simp: DETECTNULL_bits)
  next
    case 4
    then obtain c0 c1 c2 where c: "unat b0 = Suc c0" "unat b1 = Suc c1" "unat b2 = Suc c2"
      by (metis not0_implies_Suc unat_eq_0)
    have W: "unat w = Suc c0 + 256 * Suc c1 + 65536 * Suc c2"
      using 4 by (simp add: w long_value_def c)
    have "unat (w - 0x01010101) = c0 + 256 * c1 + 65536 * c2 + 0x1000000 * 255"
      unfolding unat_minus_ones W using l c by simp
    then have "bit (w - 0x01010101) 31"
      using sign_bit_of_byte [of "w - 0x01010101" "c0 + 256 * c1 + 65536 * c2" 24 255 0] l c by simp
    moreover have "\<not> bit w 31"
      using sign_bit_of_byte [of w "Suc c0 + 256 * Suc c1 + 65536 * Suc c2" 24 0 0] W l c by simp
    ultimately show ?thesis by (auto simp: DETECTNULL_bits)
  qed
qed

theorem DETECTNULL_load_long:
  "DETECTNULL (load_long m a) \<longleftrightarrow> m a = 0 \<or> m (a + 1) = 0 \<or> m (a + 2) = 0 \<or> m (a + 3) = 0"
  using long_nonzero_bits [OF unat_load_long] long_zero_bits [OF unat_load_long] by blast

lemma ucast_drop_bit_long:
  assumes "unat (w :: u32) = r + 2 ^ k * (unat (b :: u8) + 256 * hi)" and "r < 2 ^ k"
  shows "ucast (drop_bit k w) = b"
proof -
  have "unat (drop_bit k w) = unat b + 256 * hi"
    using assms(2) by (simp only: unat_drop_bit_eq assms(1)) (simp add: drop_bit_eq_div)
  then have "unat (ucast (drop_bit k w) :: u8) = (unat b + 256 * hi) mod 256"
    by (simp add: unsigned_ucast_eq take_bit_eq_mod)
  then show ?thesis using unat_limit(1) [of b] by (simp add: word_unat_eq_iff)
qed

lemma store_load_long:
  "store_long dst (load_long m src) m' =
     m'(dst := m src, dst + 1 := m (src + 1), dst + 2 := m (src + 2), dst + 3 := m (src + 3))"
proof -
  define b0 b1 b2 b3 where b: "b0 = m src" "b1 = m (src + 1)" "b2 = m (src + 2)" "b3 = m (src + 3)"
  let ?w = "load_long m src"
  have l: "unat b0 < 256" "unat b1 < 256" "unat b2 < 256" "unat b3 < 256" by (simp_all add: unat_limit)
  have w: "unat ?w = unat b0 + 256 * (unat b1 + 256 * (unat b2 + 256 * unat b3))"
    by (simp add: unat_load_long long_value_def b)
  have "ucast ?w = b0" "ucast (drop_bit 8 ?w) = b1" "ucast (drop_bit 16 ?w) = b2" "ucast (drop_bit 24 ?w) = b3"
    using ucast_drop_bit_long [of ?w 0 0 b0 "unat b1 + 256 * (unat b2 + 256 * unat b3)"]
      ucast_drop_bit_long [of ?w "unat b0" 8 b1 "unat b2 + 256 * unat b3"]
      ucast_drop_bit_long [of ?w "unat b0 + 256 * unat b1" 16 b2 "unat b3"]
      ucast_drop_bit_long [of ?w "unat b0 + 256 * unat b1 + 65536 * unat b2" 24 b3 0] l w by simp_all
  then show ?thesis by (simp add: store_long_def b)
qed

section \<open>Longs and bytes copy the same\<close>

lemma aligned_mod: "ALIGNED x \<longleftrightarrow> unat x mod 4 = 0"
proof -
  have "x AND 3 = take_bit 2 x" by (simp add: take_bit_eq_mask mask_eq_exp_minus_1)
  then show ?thesis by (simp add: ALIGNED_def word_unat_eq_iff take_bit_eq_mod unat_mod)
qed

lemma UNALIGNED_iff: "UNALIGNED x y \<longleftrightarrow> \<not> (ALIGNED x \<and> ALIGNED y)"
  by (auto simp: UNALIGNED_def ALIGNED_def bit_eq_iff bit_simps)

lemma aligned_plus_4: "ALIGNED (x + 4) \<longleftrightarrow> ALIGNED x"
proof -
  have "unat (x + 4) mod 4 = unat x mod 4"
    by (simp add: unat_word_ariths mod_mod_cancel)
  then show ?thesis by (simp add: aligned_mod)
qed

lemma aligned_apart:
  assumes "ALIGNED x" "ALIGNED y" and "i < 4" "j < 4" and "x + of_nat i = y + of_nat j"
  shows "i = j \<and> x = y"
proof -
  have "unat (x + of_nat i) mod 4 = i" if "ALIGNED x" "i < 4" for x :: u32 and i
    using that by (simp add: aligned_mod unat_word_ariths unat_of_nat mod_mod_cancel) presburger
  from this [OF assms(1,3)] this [OF assms(2,4)] assms(5) show ?thesis by simp
qed

lemma aligned_offsets:
  assumes "ALIGNED x" "ALIGNED y" "x \<noteq> y"
  shows "x \<noteq> y + 1" "x \<noteq> y + 2" "x \<noteq> y + 3"
    "x + 1 \<noteq> y" "x + 1 \<noteq> y + 2" "x + 1 \<noteq> y + 3"
    "x + 2 \<noteq> y" "x + 2 \<noteq> y + 1" "x + 2 \<noteq> y + 3"
    "x + 3 \<noteq> y" "x + 3 \<noteq> y + 1" "x + 3 \<noteq> y + 2"
  using aligned_apart [OF assms(1,2), of 0 1] aligned_apart [OF assms(1,2), of 0 2]
    aligned_apart [OF assms(1,2), of 0 3] aligned_apart [OF assms(1,2), of 1 0]
    aligned_apart [OF assms(1,2), of 1 2] aligned_apart [OF assms(1,2), of 1 3]
    aligned_apart [OF assms(1,2), of 2 0] aligned_apart [OF assms(1,2), of 2 1]
    aligned_apart [OF assms(1,2), of 2 3] aligned_apart [OF assms(1,2), of 3 0]
    aligned_apart [OF assms(1,2), of 3 1] aligned_apart [OF assms(1,2), of 3 2] by auto

lemma small_offsets: 
  fixes x :: u32
  shows "x + 1 \<noteq> x" "x + 2 \<noteq> x" "x + 3 \<noteq> x" "x + 1 \<noteq> x + 2" "x + 1 \<noteq> x + 3" "x + 2 \<noteq> x + 3"
  by simp_all

text \<open>One byte after the other reads what the long has read, as the two longs are apart or equal.\<close>

lemma bytes_of_long:
  fixes m :: byte_memory
  assumes "ALIGNED dst" "ALIGNED src"
  defines "m1 \<equiv> m(dst := m src)"
  defines "m2 \<equiv> m1(dst + 1 := m1 (src + 1))"
  defines "m3 \<equiv> m2(dst + 2 := m2 (src + 2))"
  shows "m1 (src + 1) = m (src + 1)" "m2 (src + 2) = m (src + 2)" "m3 (src + 3) = m (src + 3)"
    "m3(dst + 3 := m3 (src + 3)) = store_long dst (load_long m src) m"
proof -
  have e: "m1 (src + 1) = m (src + 1) \<and> m2 (src + 2) = m (src + 2) \<and> m3 (src + 3) = m (src + 3)"
  proof (cases "dst = src")
    case True
    then show ?thesis by (simp add: m1_def m2_def m3_def)
  next
    case False
    then show ?thesis
      using aligned_offsets [OF assms(1,2) False] by (auto simp: m1_def m2_def m3_def)
  qed
  then show "m1 (src + 1) = m (src + 1)" "m2 (src + 2) = m (src + 2)" "m3 (src + 3) = m (src + 3)"
    by simp_all
  have "m3(dst + 3 := m3 (src + 3)) = m(dst := m src, dst + 1 := m1 (src + 1), dst + 2 := m2 (src + 2),
      dst + 3 := m3 (src + 3))"
    by (simp only: m1_def m2_def m3_def)
  also have "\<dots> = store_long dst (load_long m src) m"
    by (simp only: e store_load_long)
  finally show "m3(dst + 3 := m3 (src + 3)) = store_long dst (load_long m src) m" .
qed

lemma copy_bytes_long:
  assumes "ALIGNED dst" "ALIGNED src" and "\<not> DETECTNULL (load_long m src)"
  shows "copy_bytes dst src m = copy_bytes (dst + 4) (src + 4) (store_long dst (load_long m src) m)"
proof -
  note b = bytes_of_long [OF assms(1,2), of m]
  have nz: "m src \<noteq> 0" "m (src + 1) \<noteq> 0" "m (src + 2) \<noteq> 0" "m (src + 3) \<noteq> 0"
    using assms(3) by (simp_all add: DETECTNULL_load_long)
  define m1 where "m1 = m(dst := m src)"
  define m2 where "m2 = m1(dst + 1 := m1 (src + 1))"
  define m3 where "m3 = m2(dst + 2 := m2 (src + 2))"
  define m4 where "m4 = m3(dst + 3 := m3 (src + 3))"
  note b = b [folded m1_def, folded m2_def, folded m3_def, folded m4_def]
  have "copy_bytes dst src m = copy_bytes (dst + 1) (src + 1) m1"
    by (subst copy_bytes.simps) (simp add: nz m1_def)
  also have "\<dots> = copy_bytes (dst + 2) (src + 2) m2"
    by (subst copy_bytes.simps) (simp add: nz b m2_def add.assoc)
  also have "\<dots> = copy_bytes (dst + 3) (src + 3) m3"
    by (subst copy_bytes.simps) (simp add: nz b m3_def add.assoc)
  also have "\<dots> = copy_bytes (dst + 4) (src + 4) m4"
    by (subst copy_bytes.simps) (simp add: nz b(1-3) m4_def add.assoc)
  finally show ?thesis by (simp add: b(4))
qed

lemma copy_longs_then_bytes:
  assumes "copy_longs dst src m = Some r"
  shows "ALIGNED dst \<and> ALIGNED src \<longrightarrow>
     (case r of (dst', src', m') \<Rightarrow> copy_bytes dst src m = copy_bytes dst' src' m')"
proof (rule copy_longs.raw_induct [where P = "\<lambda>dst src m r. ALIGNED dst \<and> ALIGNED src \<longrightarrow>
     (case r of (dst', src', m') \<Rightarrow> copy_bytes dst src m = copy_bytes dst' src' m')", OF _ assms], goal_cases)
  case (1 copy_longs dst src m r)
  show ?case
  proof (cases "DETECTNULL (load_long m src)")
    case True
    then show ?thesis using 1(2) by auto
  next
    case False
    then have "copy_longs (dst + 4) (src + 4) (store_long dst (load_long m src) m) = Some r"
      using 1(2) by simp
    from 1(1) [OF this] show ?thesis
      using copy_bytes_long [OF _ _ False, of dst] by (cases r) (simp add: aligned_plus_4)
  qed
qed

text \<open>Conversely, when the loop over bytes ends the loop over longs ends: it takes fewer steps.\<close>

fun copy_steps :: "nat \<Rightarrow> u32 \<Rightarrow> u32 \<Rightarrow> byte_memory \<Rightarrow> byte_memory option" where
  "copy_steps 0 dst src m = None"
| "copy_steps (Suc n) dst src m =
     (let m = m(dst := m src)
      in if m dst \<noteq> 0 then copy_steps n (dst + 1) (src + 1) m else Some m)"

lemma copy_bytes_steps:
  assumes "copy_bytes dst src m = Some r"
  shows "\<exists>n. copy_steps n dst src m = Some r"
proof (rule copy_bytes.raw_induct [where P = "\<lambda>dst src m r. \<exists>n. copy_steps n dst src m = Some r",
    OF _ assms], goal_cases)
  case (1 copy_bytes dst src m r)
  show ?case
  proof (cases "m src = 0")
    case True
    then show ?thesis using 1(2) by (intro exI [of _ 1]) auto
  next
    case False
    then obtain n where "copy_steps n (dst + 1) (src + 1) (m(dst := m src)) = Some r"
      using 1 by fastforce
    then show ?thesis using False by (intro exI [of _ "Suc n"]) simp
  qed
qed

lemma copy_steps_bytes: "copy_steps n dst src m = Some r \<Longrightarrow> copy_bytes dst src m = Some r"
proof (induction n arbitrary: dst src m)
  case (Suc n)
  then show ?case by (subst copy_bytes.simps) (auto simp: Let_def split: if_splits)
qed simp

lemma copy_steps_long:
  assumes "ALIGNED dst" "ALIGNED src" and nz: "\<not> DETECTNULL (load_long m src)"
    and "copy_steps n dst src m = Some r"
  shows "\<exists>k < n. copy_steps k (dst + 4) (src + 4) (store_long dst (load_long m src) m) = Some r"
proof -
  note b = bytes_of_long [OF assms(1,2), of m]
  have z: "m src \<noteq> 0" "m (src + 1) \<noteq> 0" "m (src + 2) \<noteq> 0" "m (src + 3) \<noteq> 0"
    using nz by (simp_all add: DETECTNULL_load_long)
  define m1 where "m1 = m(dst := m src)"
  define m2 where "m2 = m1(dst + 1 := m1 (src + 1))"
  define m3 where "m3 = m2(dst + 2 := m2 (src + 2))"
  define m4 where "m4 = m3(dst + 3 := m3 (src + 3))"
  note b = b [folded m1_def, folded m2_def, folded m3_def, folded m4_def]
  obtain n1 where n1: "n = Suc n1" "copy_steps n1 (dst + 1) (src + 1) m1 = Some r"
    using assms(4) z by (cases n) (auto simp: m1_def)
  then obtain n2 where n2: "n1 = Suc n2" "copy_steps n2 (dst + 2) (src + 2) m2 = Some r"
    using z by (cases n1) (auto simp: m2_def b add.assoc)
  then obtain n3 where n3: "n2 = Suc n3" "copy_steps n3 (dst + 3) (src + 3) m3 = Some r"
    using z by (cases n2) (auto simp: m3_def b add.assoc)
  then obtain n4 where n4: "n3 = Suc n4" "copy_steps n4 (dst + 4) (src + 4) m4 = Some r"
    using z by (cases n3) (auto simp: m4_def b(1-3) add.assoc)
  show ?thesis using n1(1) n2(1) n3(1) n4 by (intro exI [of _ n4]) (simp add: b(4))
qed

lemma copy_longs_ends:
  assumes "ALIGNED dst" "ALIGNED src" and "copy_steps n dst src m = Some r"
  shows "copy_longs dst src m \<noteq> None"
  using assms
proof (induction n arbitrary: dst src m rule: less_induct)
  case (less n)
  show ?case
  proof (cases "DETECTNULL (load_long m src)")
    case True
    then show ?thesis by (subst copy_longs.simps) simp
  next
    case False
    then obtain k where "k < n"
      and "copy_steps k (dst + 4) (src + 4) (store_long dst (load_long m src) m) = Some r"
      using copy_steps_long less.prems by blast
    then have "copy_longs (dst + 4) (src + 4) (store_long dst (load_long m src) m) \<noteq> None"
      using less.IH less.prems by (simp add: aligned_plus_4)
    then show ?thesis using False by (subst copy_longs.simps) simp
  qed
qed

lemma strcpy_equals_byte_loop: "strcpy dst src m = strcpy_small dst src m"
proof (cases "UNALIGNED src dst")
  case True
  then show ?thesis by (simp add: strcpy_def strcpy_small_def)
next
  case False
  then have al: "ALIGNED dst" "ALIGNED src" by (simp_all add: UNALIGNED_iff)
  show ?thesis
  proof (cases "copy_longs dst src m")
    case None
    then have "copy_bytes dst src m = None"
      using copy_longs_ends [OF al] copy_bytes_steps by (metis not_None_eq)
    with None False show ?thesis by (simp add: strcpy_def strcpy_small_def)
  next
    case (Some r)
    then show ?thesis using copy_longs_then_bytes [OF Some] al False
      by (cases r) (simp add: strcpy_def strcpy_small_def)
  qed
qed

lemma ncopy_bytes_long:
  assumes "ALIGNED dst" "ALIGNED src" and "\<not> DETECTNULL (load_long m src)"
  shows "ncopy_bytes (Suc (Suc (Suc (Suc count)))) dst src m =
    ncopy_bytes count (dst + 4) (src + 4) (store_long dst (load_long m src) m)"
proof -
  note b = bytes_of_long [OF assms(1,2), of m]
  have nz: "m src \<noteq> 0" "m (src + 1) \<noteq> 0" "m (src + 2) \<noteq> 0" "m (src + 3) \<noteq> 0"
    using assms(3) by (simp_all add: DETECTNULL_load_long)
  define m1 where "m1 = m(dst := m src)"
  define m2 where "m2 = m1(dst + 1 := m1 (src + 1))"
  define m3 where "m3 = m2(dst + 2 := m2 (src + 2))"
  define m4 where "m4 = m3(dst + 3 := m3 (src + 3))"
  note b = b [folded m1_def, folded m2_def, folded m3_def, folded m4_def]
  have step: "ncopy_bytes (Suc k) d s x = ncopy_bytes k (d + 1) (s + 1) (x(d := x s))" if "x s \<noteq> 0" for k d s x
    using that by simp
  have "ncopy_bytes (Suc (Suc (Suc (Suc count)))) dst src m = ncopy_bytes (Suc (Suc (Suc count))) (dst + 1) (src + 1) m1"
    unfolding m1_def by (rule step) (rule nz)
  also have "\<dots> = ncopy_bytes (Suc (Suc count)) (dst + 2) (src + 2) m2"
    using nz by (simp add: step b m2_def add.assoc)
  also have "\<dots> = ncopy_bytes (Suc count) (dst + 3) (src + 3) m3"
    using nz by (simp add: step b m3_def add.assoc)
  also have "\<dots> = ncopy_bytes count (dst + 4) (src + 4) m4"
    using nz by (simp add: step b(1-3) m4_def add.assoc)
  finally show ?thesis by (simp only: b(4))
qed

lemma ncopy_longs_then_bytes:
  assumes "ALIGNED dst" "ALIGNED src"
  shows "(case ncopy_longs count dst src m of (count', dst', src', m') \<Rightarrow> ncopy_bytes count' dst' src' m') =
     ncopy_bytes count dst src m"
  using assms
proof (induction count dst src m rule: ncopy_longs.induct)
  case (1 count dst src m)
  show ?case
  proof (cases "4 \<le> count \<and> \<not> DETECTNULL (load_long m src)")
    case True
    then obtain k where "count = Suc (Suc (Suc (Suc k)))"
      by (auto simp: le_iff_add numeral_eq_Suc)
    then show ?thesis using 1 True
      by (subst ncopy_longs.simps) (simp add: ncopy_bytes_long aligned_plus_4 del: ncopy_bytes.simps)
  next
    case False
    then have "ncopy_longs count dst src m = (count, dst, src, m)"
      by (subst ncopy_longs.simps) (simp only: if_False)
    then show ?thesis by simp
  qed
qed

lemma strncpy_equals_byte_loop: "strncpy dst src count m = strncpy_small dst src count m"
proof (cases "\<not> UNALIGNED src dst \<and> \<not> TOO_SMALL (unat count)")
  case True
  then show ?thesis
    using ncopy_longs_then_bytes [of dst src "unat count" m]
    by (cases "ncopy_longs (unat count) dst src m") (simp add: strncpy_def strncpy_small_def UNALIGNED_iff)
next
  case False
  then show ?thesis by (auto simp add: strncpy_def strncpy_small_def)
qed

section \<open>Strings\<close>

text \<open>\<open>cstring m s n\<close>: the string at \<open>s\<close> has length \<open>n\<close>.\<close>

definition cstring :: "byte_memory \<Rightarrow> u32 \<Rightarrow> nat \<Rightarrow> bool" where
  "cstring m s n \<longleftrightarrow> m (s + of_nat n) = 0 \<and> (\<forall>i<n. m (s + of_nat i) \<noteq> 0)"

lemma cstring_Suc: "cstring m s (Suc n) \<longleftrightarrow> m s \<noteq> 0 \<and> cstring m (s + 1) n"
  unfolding cstring_def All_less_Suc2 by (auto simp: algebra_simps)

lemma cstring_0: "cstring m s 0 \<longleftrightarrow> m s = 0"
  by (simp add: cstring_def)

lemma skip_bytes_cstring: "cstring m s n \<Longrightarrow> skip_bytes s m = Some (s + of_nat n)"
proof (induction n arbitrary: s)
  case (Suc n)
  then show ?case by (subst skip_bytes.simps) (simp add: cstring_Suc algebra_simps)
qed (simp add: cstring_0 skip_bytes.simps)

lemma skip_bytes_ends:
  assumes "skip_bytes s m = Some t"
  shows "\<exists>n. cstring m s n"
proof (rule skip_bytes.raw_induct [where P = "\<lambda>s m t. \<exists>n. cstring m s n", OF _ assms], goal_cases)
  case (1 skip s m t)
  then show ?case
    by (cases "m s = 0") (metis cstring_0, metis cstring_Suc)
qed

lemma skip_bytes_unterminated: "(\<And>n. \<not> cstring m s n) \<Longrightarrow> skip_bytes s m = None"
  using skip_bytes_ends by (metis not_None_eq)

lemma skip_longs_then_bytes:
  assumes "skip_longs s m = Some t"
  shows "skip_bytes s m = skip_bytes t m"
proof (rule skip_longs.raw_induct [where P = "\<lambda>s m t. skip_bytes s m = skip_bytes t m", OF _ assms], goal_cases)
  case (1 skip s m t)
  show ?case
  proof (cases "DETECTNULL (load_long m s)")
    case True
    then show ?thesis using 1(2) by simp
  next
    case False
    then have nz: "m s \<noteq> 0" "m (s + 1) \<noteq> 0" "m (s + 2) \<noteq> 0" "m (s + 3) \<noteq> 0"
      by (simp_all add: DETECTNULL_load_long)
    have step: "skip_bytes a m = skip_bytes (a + 1) m" if "m a \<noteq> 0" for a
      using that by (subst skip_bytes.simps) simp
    have "skip_bytes s m = skip_bytes (s + 4) m"
      using step [OF nz(1)] step [OF nz(2)] step [OF nz(3)] step [OF nz(4)] by (simp add: add.assoc)
    then show ?thesis using 1 False by simp
  qed
qed

lemma skip_longs_ends: "cstring m s n \<Longrightarrow> skip_longs s m \<noteq> None"
proof (induction n arbitrary: s rule: less_induct)
  case (less n)
  show ?case
  proof (cases "DETECTNULL (load_long m s)")
    case True
    then show ?thesis by (subst skip_longs.simps) simp
  next
    case False
    then have nz: "m s \<noteq> 0" "m (s + 1) \<noteq> 0" "m (s + 2) \<noteq> 0" "m (s + 3) \<noteq> 0"
      by (simp_all add: DETECTNULL_load_long)
    obtain n1 where "n = Suc n1" "cstring m (s + 1) n1"
      using less.prems nz(1) by (cases n) (auto simp: cstring_0 cstring_Suc)
    moreover from this obtain n2 where "n1 = Suc n2" "cstring m (s + 2) n2"
      using nz(2) by (cases n1) (auto simp: cstring_0 cstring_Suc add.assoc)
    moreover from this obtain n3 where "n2 = Suc n3" "cstring m (s + 3) n3"
      using nz(3) by (cases n2) (auto simp: cstring_0 cstring_Suc add.assoc)
    moreover from this obtain n4 where "n3 = Suc n4" "cstring m (s + 4) n4"
      using nz(4) by (cases n3) (auto simp: cstring_0 cstring_Suc add.assoc)
    ultimately have "skip_longs (s + 4) m \<noteq> None" using less.IH [of n4 "s + 4"] by simp
    then show ?thesis using False by (subst skip_longs.simps) simp
  qed
qed

lemma strcat_equals_byte_loop: "strcat s1 s2 m = strcat_small s1 s2 m"
proof -
  have e: "Option.bind (if ALIGNED s1 then skip_longs s1 m else Some s1) (\<lambda>s. skip_bytes s m) = skip_bytes s1 m"
  proof (cases "skip_longs s1 m")
    case None
    then show ?thesis using skip_longs_ends skip_bytes_unterminated by (auto; metis)
  next
    case (Some t)
    then show ?thesis using skip_longs_then_bytes by auto
  qed
  have "strcat s1 s2 m =
      Option.bind (Option.bind (if ALIGNED s1 then skip_longs s1 m else Some s1) (\<lambda>s. skip_bytes s m))
        (\<lambda>t. map_option (\<lambda>(_, m). (s1, m)) (strcpy t s2 m))"
    by (simp add: strcat_def bind_assoc)
  also have "\<dots> = strcat_small s1 s2 m"
    unfolding e strcat_small_def strcpy_equals_byte_loop
    by (simp add: strcpy_small_def option.map_comp comp_def)
  finally show ?thesis .
qed

section \<open>What is written\<close>

text \<open>\<open>k\<close> bytes from \<open>src\<close> copied to \<open>dst\<close>, all other bytes as before.\<close>

definition copied :: "u32 \<Rightarrow> u32 \<Rightarrow> nat \<Rightarrow> byte_memory \<Rightarrow> byte_memory" where
  "copied dst src k m = (\<lambda>a. if unat (a - dst) < k then m (src + (a - dst)) else m a)"

lemma unat_minus_Suc:
  fixes a d :: u32
  assumes "a \<noteq> d"
  shows "unat (a - d) = Suc (unat (a - (d + 1)))"
proof -
  have "a - d \<noteq> 0" using assms by simp
  then have "unat (a - d - 1) = unat (a - d) - 1" by (rule unat_minus_one)
  moreover have "unat (a - d) \<noteq> 0" using assms by (simp add: unat_eq_0)
  moreover have "a - (d + 1) = a - d - 1" by simp
  ultimately show ?thesis by (metis Suc_diff_1 gr_zeroI)
qed

lemma unat_minus_self_Suc: "unat (d - (d + 1) :: u32) = 2 ^ 32 - 1"
proof -
  have "d - (d + 1) = (- 1 :: u32)" by simp
  then show ?thesis by (simp only: unsigned_minus_1_eq_mask) (simp add: mask_eq_exp_minus_1)
qed

lemma copied_Suc:
  assumes "k < unat (dst - src)"
  shows "copied (dst + 1) (src + 1) k (m(dst := m src)) = copied dst src (Suc k) m"
proof
  fix a
  have lim: "unat (dst - src) < 2 ^ 32" using unat_limit(3) [of "dst - src"] by simp
  show "copied (dst + 1) (src + 1) k (m(dst := m src)) a = copied dst src (Suc k) m a"
  proof (cases "a = dst")
    case True
    then show ?thesis using assms lim unat_minus_self_Suc [of dst] by (simp add: copied_def)
  next
    case False
    have u: "unat (a - dst) = Suc (unat (a - (dst + 1)))" using False by (rule unat_minus_Suc)
    show ?thesis
    proof (cases "unat (a - (dst + 1)) < k")
      case True
      then have "unat (a - dst) < Suc k" by (simp only: u)
      moreover have "src + (a - dst) \<noteq> dst"
      proof
        assume "src + (a - dst) = dst"
        then have "a - dst = dst - src" by (simp add: algebra_simps)
        then show False using assms \<open>unat (a - dst) < Suc k\<close> by simp
      qed
      ultimately show ?thesis using True False by (simp add: copied_def algebra_simps)
    next
      case F: False
      then have "\<not> unat (a - dst) < Suc k" by (simp only: u)
      then show ?thesis using F False by (simp add: copied_def)
    qed
  qed
qed

lemma cstring_other:
  assumes "cstring m s n" and "n < unat (a - s)"
  shows "cstring (m(a := v)) s n"
proof -
  have "s + of_nat i \<noteq> a" if "i \<le> n" for i
  proof
    assume "s + of_nat i = a"
    then have "a - s = of_nat i" by auto
    then have "unat (a - s) \<le> i" by (simp add: unat_of_nat)
    then show False using assms(2) that by simp
  qed
  then show ?thesis using assms(1) by (simp add: cstring_def)
qed

lemma copy_bytes_cstring:
  assumes "cstring m src n" and "n < unat (dst - src)"
  shows "copy_bytes dst src m = Some (copied dst src (Suc n) m)"
  using assms
proof (induction n arbitrary: dst src m)
  case 0
  have "copied dst src (Suc 0) m = m(dst := m src)"
    by (rule ext) (auto simp: copied_def unat_eq_0)
  then show ?case using 0 by (subst copy_bytes.simps) (auto simp: cstring_0)
next
  case (Suc n)
  have "dst \<noteq> src" using Suc.prems(2) by auto
  then have u: "unat (dst - src) = Suc (unat (dst - (src + 1)))" by (rule unat_minus_Suc)
  have "cstring (m(dst := m src)) (src + 1) n"
    using Suc.prems u by (intro cstring_other) (auto simp: cstring_Suc)
  moreover have "n < unat ((dst + 1) - (src + 1))" using Suc.prems(2) by simp
  ultimately have "copy_bytes (dst + 1) (src + 1) (m(dst := m src)) =
      Some (copied (dst + 1) (src + 1) (Suc n) (m(dst := m src)))"
    by (rule Suc.IH)
  also have "\<dots> = Some (copied dst src (Suc (Suc n)) m)" using Suc.prems(2) by (simp add: copied_Suc)
  finally show ?case using Suc.prems(1) by (subst copy_bytes.simps) (simp add: cstring_Suc)
qed

text \<open>The result of \<open>strncpy\<close>: \<open>k\<close> bytes, zero after the first zero of the source.\<close>

definition copied_padded :: "u32 \<Rightarrow> u32 \<Rightarrow> nat \<Rightarrow> byte_memory \<Rightarrow> byte_memory" where
  "copied_padded dst src k m =
     (\<lambda>a. if unat (a - dst) < k
          then if \<exists>i<unat (a - dst). m (src + of_nat i) = 0 then 0 else m (src + (a - dst))
          else m a)"

lemma fill_nulls_eq:
  assumes "k < 2 ^ 32"
  shows "fill_nulls k dst m = (\<lambda>a. if unat (a - dst) < k then 0 else m a)"
  using assms
proof (induction k arbitrary: dst m)
  case (Suc k)
  show ?case
  proof
    fix a
    show "fill_nulls (Suc k) dst m a = (if unat (a - dst) < Suc k then 0 else m a)"
    proof (cases "a = dst")
      case True
      then show ?thesis using Suc unat_minus_self_Suc [of dst] by simp
    next
      case False
      then show ?thesis using Suc unat_minus_Suc [OF False] by simp
    qed
  qed
qed simp

definition ncopy_result :: "nat \<Rightarrow> u32 \<Rightarrow> u32 \<Rightarrow> byte_memory \<Rightarrow> byte_memory" where
  "ncopy_result k dst src m = (case ncopy_bytes k dst src m of (k, dst, m) \<Rightarrow> fill_nulls k dst m)"

lemma ncopy_result_eq:
  assumes "k \<le> unat (dst - src)"
  shows "ncopy_result k dst src m = copied_padded dst src k m"
  using assms
proof (induction k arbitrary: dst src m)
  case 0
  show ?case by (simp add: ncopy_result_def copied_padded_def)
next
  case (Suc k)
  have lim: "unat (dst - src) < 2 ^ 32" using unat_limit(3) [of "dst - src"] by simp
  have "dst \<noteq> src" using Suc.prems by auto
  then have u: "unat (dst - src) = Suc (unat (dst - (src + 1)))" by (rule unat_minus_Suc)
  show ?case
  proof (cases "m src = 0")
    case True
    have "copied_padded dst src (Suc k) m a = (if unat (a - (dst + 1)) < k then 0 else (m(dst := 0)) a)" for a
    proof (cases "a = dst")
      case True
      then show ?thesis using Suc.prems lim unat_minus_self_Suc [of dst] \<open>m src = 0\<close>
        by (simp add: copied_padded_def)
    next
      case False
      have "\<exists>i<unat (a - dst). m (src + of_nat i) = 0"
        using \<open>m src = 0\<close> unat_minus_Suc [OF False] by (intro exI [of _ 0]) simp
      then show ?thesis using False unat_minus_Suc [OF False] by (simp add: copied_padded_def)
    qed
    then show ?thesis using True Suc.prems lim
      by (intro ext) (simp add: ncopy_result_def fill_nulls_eq)
  next
    case False
    let ?m = "m(dst := m src)"
    have "ncopy_result (Suc k) dst src m = ncopy_result k (dst + 1) (src + 1) ?m"
      using False by (simp add: ncopy_result_def)
    also have "\<dots> = copied_padded (dst + 1) (src + 1) k ?m" using Suc.prems by (intro Suc.IH) simp
    also have "\<dots> = copied_padded dst src (Suc k) m"
    proof
      fix a
      have same: "?m (src + of_nat j) = m (src + of_nat j)" if "j \<le> k" for j
      proof -
        have "src + of_nat j \<noteq> dst"
        proof
          assume "src + of_nat j = dst"
          then have "dst - src = of_nat j" by auto
          then have "unat (dst - src) \<le> j" by (simp add: unat_of_nat)
          then show False using Suc.prems that by simp
        qed
        then show ?thesis by simp
      qed
      show "copied_padded (dst + 1) (src + 1) k ?m a = copied_padded dst src (Suc k) m a"
      proof (cases "a = dst")
        case True
        then show ?thesis using Suc.prems lim unat_minus_self_Suc [of dst] by (simp add: copied_padded_def)
      next
        case ne: False
        define j where "j = unat (a - (dst + 1))"
        have j: "unat (a - dst) = Suc j" unfolding j_def using ne by (rule unat_minus_Suc)
        have aj: "a - (dst + 1) = of_nat j" "a - dst = of_nat (Suc j)"
          by (simp add: j_def) (simp only: flip: j, simp)
        have uj: "unat (of_nat j :: u32) = j" by (metis aj(1) j_def)
        show ?thesis
        proof (cases "j < k")
          case True
          have "(\<exists>i<j. ?m (src + 1 + of_nat i) = 0) \<longleftrightarrow> (\<exists>i<Suc j. m (src + of_nat i) = 0)"
          proof -
            have "?m (src + 1 + of_nat i) = m (src + of_nat (Suc i))" if "i < j" for i
              using same [of "Suc i"] that True by (simp add: algebra_simps)
            then have "(\<exists>i<j. ?m (src + 1 + of_nat i) = 0) \<longleftrightarrow> (\<exists>i<j. m (src + of_nat (Suc i)) = 0)"
              by (metis (no_types))
            then show ?thesis using False by (simp add: Ex_less_Suc2)
          qed
          moreover have "?m (src + 1 + of_nat j) = m (src + of_nat (Suc j))"
            using same [of "Suc j"] True by (simp add: algebra_simps)
          ultimately show ?thesis
            using True j by (simp add: copied_padded_def aj uj del: of_nat_Suc fun_upd_apply) blast
        next
          case F: False
          then show ?thesis using j ne by (simp add: copied_padded_def flip: j_def)
        qed
      qed
    qed
    finally show ?thesis .
  qed
qed

section \<open>Properties\<close>

text \<open>C34. The routines that test and move four bytes at a time do, for every memory and every
  pair of pointers, overlapping or not, exactly what the loops over single bytes do that the same
  files hold for small builds: they leave the same memory and the same result, and do not return
  when those do not.\<close>

theorem strings_word_equals_byte:
  "strcpy dst src m = strcpy_small dst src m \<and>
   strncpy dst src count m = strncpy_small dst src count m \<and>
   strcat dst src m = strcat_small dst src m"
  by (simp add: strcpy_equals_byte_loop strncpy_equals_byte_loop strcat_equals_byte_loop)

text \<open>\<^verbatim>\<open>strcat\<close> of a string of \<open>k\<close> and one of \<open>n\<close> bytes that the result does not run into
  returns its first argument, which is then a string of \<open>k + n\<close> bytes: the bytes of the second
  with its terminator are written at the end of the first and no other byte changes.\<close>

theorem strcat_correct:
  assumes "cstring m s1 k" and "cstring m s2 n"
    and "n < unat (s1 + of_nat k - s2)" and "k + n < 2 ^ 32"
  shows "\<exists>m'. strcat s1 s2 m = Some (s1, m') \<and> m' = copied (s1 + of_nat k) s2 (Suc n) m \<and>
    cstring m' s1 (k + n)"
proof -
  let ?t = "s1 + of_nat k"
  let ?m = "copied ?t s2 (Suc n) m"
  have "strcat s1 s2 m = Some (s1, ?m)"
    using skip_bytes_cstring [OF assms(1)] copy_bytes_cstring [OF assms(2,3)]
    by (simp add: strcat_equals_byte_loop strcat_small_def)
  moreover have "cstring ?m s1 (k + n)"
  proof -
    have old: "?m (s1 + of_nat i) = m (s1 + of_nat i)" if "i < k" for i
    proof -
      have "(of_nat (2 ^ 32 - (k - i)) :: u32) = - of_nat (k - i)"
        using assms(4) by (simp add: of_nat_diff)
      then have e: "s1 + of_nat i - ?t = of_nat (2 ^ 32 - (k - i))" using that by (simp add: of_nat_diff)
      have "unat (of_nat (2 ^ 32 - (k - i)) :: u32) = 2 ^ 32 - (k - i)"
        using that assms(4) by (intro of_nat_inverse [OF refl]) auto
      then have "\<not> unat (s1 + of_nat i - ?t) < Suc n" unfolding e using that assms(4) by linarith
      then show ?thesis by (simp add: copied_def)
    qed
    have new: "?m (s1 + of_nat (k + i)) = m (s2 + of_nat i)" if "i \<le> n" for i
      using that assms(4) by (simp add: copied_def unat_of_nat)
    show ?thesis unfolding cstring_def
    proof (intro conjI allI impI)
      show "?m (s1 + of_nat (k + n)) = 0" using new [of n] assms(2) by (simp add: cstring_def)
      show "?m (s1 + of_nat i) \<noteq> 0" if "i < k + n" for i
      proof (cases "i < k")
        case True
        then show ?thesis using old assms(1) by (simp add: cstring_def)
      next
        case False
        then obtain j where "i = k + j" "j < n" using \<open>i < k + n\<close> by (metis le_Suc_ex add_less_cancel_left not_less)
        then show ?thesis using new [of j] assms(2) by (simp add: cstring_def)
      qed
    qed
  qed
  ultimately show ?thesis by blast
qed

definition two_strings :: byte_memory where
  "two_strings = (\<lambda>_. 0)(0x100 := 1, 0x101 := 2, 0x200 := 3)"

theorem strcat_correct_witness:
  "\<exists>m'. strcat 0x100 0x200 two_strings = Some (0x100, m') \<and>
     m' = copied 0x102 0x200 2 two_strings \<and> cstring m' 0x100 3"
proof -
  have "cstring two_strings 0x100 (Suc (Suc 0))" "cstring two_strings 0x200 (Suc 0)"
    by (simp_all only: cstring_Suc cstring_0) (simp_all add: two_strings_def)
  then have s: "cstring two_strings 0x100 2" "cstring two_strings 0x200 1"
    by (simp_all only: numeral_2_eq_2 One_nat_def)
  have "Suc (Suc 0) = 2" "2 + 1 = (3 :: nat)" "0x100 + of_nat 2 = (0x102 :: u32)" by simp_all
  with strcat_correct [OF s] show ?thesis by simp
qed

text \<open>\<^verbatim>\<open>strncpy\<close> writes exactly \<open>count\<close> bytes: those of the source up to its first zero byte,
  and zeros after it; a source without a zero among its first \<open>count\<close> bytes leaves a destination
  that is not terminated.\<close>

theorem strncpy_correct:
  assumes "unat count \<le> unat (dst - src)"
  shows "strncpy dst src count m = (dst, copied_padded dst src (unat count) m)"
  using ncopy_result_eq [OF assms, of m]
  by (simp add: strncpy_equals_byte_loop strncpy_small_def ncopy_result_def split: prod.splits)

theorem strncpy_correct_witness:
  "strncpy 0x300 0x100 2 two_strings = (0x300, copied_padded 0x300 0x100 2 two_strings) \<and>
   copied_padded 0x300 0x100 2 two_strings 0x301 = 2"
  using strncpy_correct [where count = 2 and dst = 768 and src = 256 and m = two_strings]
  by (simp add: copied_padded_def two_strings_def)
end
