(* ===== verification/Cpu.thy ===== *)
theory Cpu
  imports MemProps Timers
begin

text \<open>
  The processor and its clock: \<^verbatim>\<open>include/asm.h\<close>, \<^verbatim>\<open>drivers/cpu/cpuid.c\<close>, \<^verbatim>\<open>drivers/cpu/gdt.c\<close>,
  \<^verbatim>\<open>drivers/cpu/lapic.c\<close>, \<^verbatim>\<open>drivers/cpu/kvm.c\<close> and \<^verbatim>\<open>drivers/timers/apic.c\<close>. What the hardware and
  the hypervisor decide is a parameter: the answers of \<^verbatim>\<open>cpuid\<close>, the flags that \<^verbatim>\<open>popf\<close> changes, the
  wall clock that the hypervisor stores. Writes to memory-mapped registers are logged in order.
\<close>

unbundle bit_operations_syntax

section \<open>State\<close>

text \<open>The functions installed for interrupts and for the end of an interrupt.\<close>

datatype int_handler = Spurious_handler | Apic_timer_handler | Other_handler nat

datatype eoi_function = Default_lapic_eoi | Kvm_lapic_eoi

datatype backend_function = Apic_set_timer

text \<open>\<^verbatim>\<open>pvclock_vcpu_time_info_t\<close> and \<^verbatim>\<open>pvclock_wall_clock_t\<close> without their padding.\<close>

record pvclock_vcpu_time_info =
  ti_version :: u32
  tsc_timestamp :: u64
  system_time :: u64
  tsc_to_system_mul :: u32
  tsc_shift :: "8 word"
  ti_flags :: u8

record pvclock_wall_clock =
  wc_version :: u32
  sec :: u32
  nsec :: u32

record hw =
  eflags :: u32
  msr :: "u32 \<Rightarrow> u64"
  mmio :: "(u32 \<times> u32) list"
  features_ecx :: u32
  features_edx :: u32
  lapic_base :: u32
  lapic_eoi_var :: eoi_function
  wall_clock_nsecs :: u64
  kvm_apic_eoi :: u32
  backend_var :: "backend_function option"
  ints :: "int_handler interrupts"
  kmem :: mem

section \<open>Instructions\<close>

definition get_flags :: "hw \<Rightarrow> u32" where
  "get_flags s = eflags s"

text \<open>\<open>popf old new\<close>: the flags register after \<^verbatim>\<open>popf\<close> of \<open>new\<close>.\<close>

definition set_flags :: "(u32 \<Rightarrow> u32 \<Rightarrow> u32) \<Rightarrow> u32 \<Rightarrow> hw \<Rightarrow> hw" where
  "set_flags popf r s = s\<lparr>eflags := popf (eflags s) r\<rparr>"

definition wrmsr64 :: "u32 \<Rightarrow> u64 \<Rightarrow> hw \<Rightarrow> hw" where
  "wrmsr64 n v s = s\<lparr>msr := (msr s)(n := v)\<rparr>"

definition wrmsr32 :: "u32 \<Rightarrow> u32 \<Rightarrow> hw \<Rightarrow> hw" where
  "wrmsr32 n v s = s\<lparr>msr := (msr s)(n := ucast v)\<rparr>"

definition rdmsr64 :: "u32 \<Rightarrow> hw \<Rightarrow> u64" where
  "rdmsr64 n s = msr s n"

definition rdmsr32 :: "u32 \<Rightarrow> hw \<Rightarrow> u64" where
  "rdmsr32 n s = (let r = ucast (msr s n) :: u32 in ucast r)"

section \<open>Identification\<close>

definition has_cpuid :: "(u32 \<Rightarrow> u32 \<Rightarrow> u32) \<Rightarrow> hw \<Rightarrow> bool \<times> hw" where
  "has_cpuid popf s =
     (let orig_flags = get_flags s;
          s = set_flags popf (orig_flags XOR 0x200000) s;
          new_flags = get_flags s
      in (new_flags AND 0x200000 \<noteq> orig_flags AND 0x200000, s))"

text \<open>\<open>leaf i\<close>: the registers \<^verbatim>\<open>eax\<close>, \<^verbatim>\<open>ebx\<close>, \<^verbatim>\<open>ecx\<close>, \<^verbatim>\<open>edx\<close> after \<^verbatim>\<open>cpuid\<close> of \<open>i\<close>.\<close>

definition cpuid_init ::
  "(u32 \<Rightarrow> u32 \<Rightarrow> u32) \<Rightarrow> (u32 \<Rightarrow> u32 \<times> u32 \<times> u32 \<times> u32) \<Rightarrow> hw \<Rightarrow> hw result" where
  "cpuid_init popf leaf s =
     (let (present, s) = has_cpuid popf s in
      if \<not> present then Inl (Panic ''Your CPU is too old: it lacks cpuid instruction'')
      else
        let (eax, ebx, ecx, edx) = leaf 0 in
        if ebx \<noteq> 0x756e6547 \<or> edx \<noteq> 0x49656e69 \<or> ecx \<noteq> 0x6c65746e
        then Inl (Panic ''Your CPU is not supported: it must be an Intel(r) one'')
        else
          let (eax, ebx, ecx, edx) = leaf 1;
              s = s\<lparr>features_ecx := ecx, features_edx := edx\<rparr>
          in
            if edx AND push_bit 4 1 = 0 then Inl (Panic ''Your CPU is not supported: it does not have tsc'')
            else if edx AND push_bit 5 1 = 0
            then Inl (Panic ''Your CPU is not supported: it does not suport MSRs'')
            else if ecx AND push_bit 31 1 = 0
            then Inl (Panic ''Your CPU is not supported: it is not virtual'')
            else Inr s)"

section \<open>Segments\<close>

record GDT_entry =
  limit_low :: u16
  base_low :: u16
  base_middle :: u8
  access :: u8
  granularity :: u8
  base_high :: u8

definition GDT_entries :: "GDT_entry list" where
  "GDT_entries =
     [\<lparr>limit_low = 0, base_low = 0, base_middle = 0, access = 0, granularity = 0, base_high = 0\<rparr>,
      \<lparr>limit_low = 0xFFFF, base_low = 0, base_middle = 0, access = 0x9A, granularity = 0xCF, base_high = 0\<rparr>,
      \<lparr>limit_low = 0xFFFF, base_low = 0, base_middle = 0, access = 0x92, granularity = 0xCF, base_high = 0\<rparr>,
      \<lparr>limit_low = 0xFFFF, base_low = 0, base_middle = 0, access = 0xFA, granularity = 0xCF, base_high = 0\<rparr>,
      \<lparr>limit_low = 0xFFFF, base_low = 0, base_middle = 0, access = 0xF2, granularity = 0xCF, base_high = 0\<rparr>]"

definition GDT_length :: u16 where
  "GDT_length = of_nat (8 * length GDT_entries) - 1"

section \<open>Local interrupt controller\<close>

text \<open>A register is read from the last write to its address, \<open>fresh\<close> gives its value before any.\<close>

definition lapic_read :: "(u32 \<Rightarrow> u32) \<Rightarrow> u32 \<Rightarrow> hw \<Rightarrow> u32" where
  "lapic_read fresh reg s =
     (case map_of (rev (mmio s)) (lapic_base s + reg) of None \<Rightarrow> fresh reg | Some v \<Rightarrow> v)"

definition lapic_write :: "u32 \<Rightarrow> u32 \<Rightarrow> hw \<Rightarrow> hw" where
  "lapic_write reg v s = s\<lparr>mmio := mmio s @ [(lapic_base s + reg, v)]\<rparr>"

definition plain_lapic_eoi :: "hw \<Rightarrow> hw" where
  "plain_lapic_eoi = lapic_write 0xB0 0"

definition default_lapic_eoi :: "hw \<Rightarrow> hw" where
  "default_lapic_eoi s = plain_lapic_eoi s"

definition lapic_init :: "hw \<Rightarrow> (kcall list \<times> hw) result" where
  "lapic_init s =
     (if features_edx s AND push_bit 9 1 = 0 then Inr ([(''no APIC chip found'', [])], s)
      else
        let v = ucast (rdmsr32 0x1B s) :: u32;
            s = if v AND push_bit 11 1 = 0 then wrmsr32 0x1B (v OR push_bit 11 1) s else s;
            lapic_phaddr = v AND NOT (PAGE_SIZE - 1)
        in bindE (map_phaddr_in_kernel lapic_phaddr 0 (kmem s)) (\<lambda>(a, m).
           let s = lapic_write 0xE0 0xFFFFFFFF (s\<lparr>kmem := m, lapic_base := a\<rparr>) in
           bindE (allocate_interrupt (ints s)) (\<lambda>(spurious_intno, i).
           let s = s\<lparr>ints := i\<rparr> in
           if spurious_intno < 0 then Inl (Panic ''not enough interrupts'')
           else
             let s = lapic_write 0xF0 (of_int spurious_intno OR 0x100) s;
                 s = lapic_write 0x80 0 s
             in Inr ([], s\<lparr>ints := set_kernel_interrupt_handler (of_int spurious_intno) Spurious_handler (ints s)\<rparr>))))"

section \<open>Paravirtual clock and end of interrupt\<close>

text \<open>\<^verbatim>\<open>r <<= s\<close> for a nonnegative signed byte \<open>s\<close>, \<^verbatim>\<open>r >>= -s\<close> otherwise, and the other way round.\<close>

definition shift64 :: "int \<Rightarrow> u64 \<Rightarrow> u64 result" where
  "shift64 s r =
     (if 64 \<le> abs s then Inl BadShift
      else Inr (if 0 \<le> s then push_bit (nat s) r else drop_bit (nat (- s)) r))"

definition tsc_to_nanoseconds :: "pvclock_vcpu_time_info \<Rightarrow> u64 \<Rightarrow> u64 result" where
  "tsc_to_nanoseconds st t =
     bindE (shift64 (sint (tsc_shift st)) t) (\<lambda>r.
       Inr (drop_bit 32 (r * ucast (tsc_to_system_mul st))))"

definition now_in_nanoseconds :: "pvclock_vcpu_time_info \<Rightarrow> u64 \<Rightarrow> hw \<Rightarrow> u64 result" where
  "now_in_nanoseconds st rdtsc s =
     (let b = wall_clock_nsecs s + system_time st
      in bindE (tsc_to_nanoseconds st (rdtsc - tsc_timestamp st)) (\<lambda>n. Inr (b + n)))"

definition nanoseconds_to_tsc :: "pvclock_vcpu_time_info \<Rightarrow> u64 \<Rightarrow> u64 result" where
  "nanoseconds_to_tsc st ns =
     (if tsc_to_system_mul st = 0 then Inl DivByZero
      else shift64 (- sint (tsc_shift st)) (push_bit 32 ns div ucast (tsc_to_system_mul st)))"

text \<open>
  The memory operand of \<^verbatim>\<open>btr\<close> is \<^verbatim>\<open>addr\<close>, the local variable that holds the address, not the word
  at that address. The result is the old bit, negated by \<^verbatim>\<open>sbb\<close>.
\<close>

definition test_and_clear_bit :: "nat \<Rightarrow> u32 \<Rightarrow> hw \<Rightarrow> int \<times> hw" where
  "test_and_clear_bit nr addr s = (if bit addr nr then - 1 else 0, s)"

definition kvm_lapic_eoi :: "u32 \<Rightarrow> hw \<Rightarrow> hw" where
  "kvm_lapic_eoi kvm_apic_eoi_addr s =
     (case test_and_clear_bit 0 kvm_apic_eoi_addr s of
        (oldbit, s) \<Rightarrow> if oldbit \<noteq> 0 then s else plain_lapic_eoi s)"

definition lapic_eoi :: "u32 \<Rightarrow> hw \<Rightarrow> hw" where
  "lapic_eoi kvm_apic_eoi_addr s =
     (case lapic_eoi_var s of
        Default_lapic_eoi \<Rightarrow> default_lapic_eoi s
      | Kvm_lapic_eoi \<Rightarrow> kvm_lapic_eoi kvm_apic_eoi_addr s)"

definition spurious_handler :: "u32 \<Rightarrow> hw \<Rightarrow> hw result" where
  "spurious_handler kvm_apic_eoi_addr s =
     (let s = lapic_eoi kvm_apic_eoi_addr s in Inl (Panic ''Got a spurious interrupt from APIC''))"

definition KVM_CPUID_SIGNATURE :: u32 where "KVM_CPUID_SIGNATURE = 0x40000000"
definition MSR_KVM_WALL_CLOCK :: u32 where "MSR_KVM_WALL_CLOCK = 0x11"
definition MSR_KVM_SYSTEM_TIME :: u32 where "MSR_KVM_SYSTEM_TIME = 0x12"
definition MSR_KVM_WALL_CLOCK_NEW :: u32 where "MSR_KVM_WALL_CLOCK_NEW = 0x4b564d00"
definition MSR_KVM_SYSTEM_TIME_NEW :: u32 where "MSR_KVM_SYSTEM_TIME_NEW = 0x4b564d01"
definition MSR_KVM_PV_EOI_EN :: u32 where "MSR_KVM_PV_EOI_EN = 0x4b564d04"

text \<open>
  The addresses of the three structures shared with the hypervisor are parameters, as is the wall
  clock \<open>wc\<close> it stores when its register is written.
\<close>

definition kvm_init ::
  "(u32 \<Rightarrow> u32 \<times> u32 \<times> u32 \<times> u32) \<Rightarrow> u32 \<Rightarrow> u32 \<Rightarrow> u32 \<Rightarrow> pvclock_wall_clock \<Rightarrow> hw \<Rightarrow> hw result" where
  "kvm_init leaf wall_clock_addr system_time_addr kvm_apic_eoi_addr wc s =
     (let (eax, ebx, ecx, edx) = leaf KVM_CPUID_SIGNATURE in
      if 0x4b4d564b \<noteq> ebx \<or> 0x564b4d56 \<noteq> ecx \<or> 0x0000004d \<noteq> edx
      then Inl (Panic ''Your CPU is not supported: it is not virtual KVM CPU'')
      else
        let eax = fst (leaf (KVM_CPUID_SIGNATURE + 1)) in
        bindE
          (if eax AND push_bit 3 1 \<noteq> 0 then Inr (MSR_KVM_WALL_CLOCK_NEW, MSR_KVM_SYSTEM_TIME_NEW)
           else if eax AND push_bit 0 1 \<noteq> 0 then Inr (MSR_KVM_WALL_CLOCK, MSR_KVM_SYSTEM_TIME)
           else Inl (Panic ''Your virtual KVM CPU is not supported: it does not have a KVM clock''))
          (\<lambda>(wall_clock_msr, system_time_msr).
            let s = wrmsr32 wall_clock_msr (PA wall_clock_addr) s;
                s = s\<lparr>wall_clock_nsecs := ucast (sec wc) * 1000000000 + ucast (nsec wc)\<rparr>;
                s = wrmsr32 system_time_msr (PA system_time_addr + 1) s
            in Inr (if eax AND push_bit 6 1 \<noteq> 0
                    then (wrmsr32 MSR_KVM_PV_EOI_EN (PA kvm_apic_eoi_addr OR 1) s)\<lparr>lapic_eoi_var := Kvm_lapic_eoi\<rparr>
                    else s)))"

section \<open>The timer of the local interrupt controller\<close>

definition apic_set_timer :: "u64 \<Rightarrow> hw \<Rightarrow> hw" where
  "apic_set_timer v = wrmsr64 0x6E0 v"

definition apic_timer_handler ::
  "('f \<Rightarrow> 'a \<Rightarrow> ('t, 'f, 'a, 'z) timer_state \<Rightarrow> ('t, 'f, 'a, 'z) timer_state result) \<Rightarrow>
   u32 \<Rightarrow> hw \<Rightarrow> ('t, 'f, 'a, 'z) timer_state \<Rightarrow> (hw \<times> ('t, 'f, 'a, 'z) timer_state) run" where
  "apic_timer_handler call kvm_apic_eoi_addr s t =
     (let s = lapic_eoi kvm_apic_eoi_addr s
      in bindR (timer_interrupt_entry_point call t) (\<lambda>t. ret (s, t)))"

definition apictimer_init :: "hw \<Rightarrow> hw result" where
  "apictimer_init s =
     (if lapic_base s = 0 then Inl (Panic ''no apic found'')
      else if features_ecx s AND push_bit 24 1 = 0 then Inl (Panic ''TSC deadline is not supported'')
      else
        bindE (allocate_interrupt (ints s)) (\<lambda>(timer_intno, i).
          let s = s\<lparr>ints := i\<rparr> in
          if timer_intno < 0 then Inl (Panic ''not enough interrupts'')
          else
            let s = s\<lparr>ints := set_kernel_interrupt_handler (of_int timer_intno) Apic_timer_handler (ints s)\<rparr>;
                s = lapic_write 0x320 (0x40000 OR of_int timer_intno) s
            in Inr (s\<lparr>backend_var := Some Apic_set_timer\<rparr>)))"

section \<open>Vectors of the interrupt controller\<close>

lemma allocate_interrupt_first:
  assumes "length (used_interrupts s) = 256" and "a < 256" and "used_interrupts s ! a = 0"
    and "\<forall>j<a. used_interrupts s ! j \<noteq> 0"
  shows "allocate_interrupt s = Inr (int a, s\<lparr>used_interrupts := (used_interrupts s)[a := 1]\<rparr>)"
proof -
  have "mark_used a 1 (used_interrupts s) = (used_interrupts s)[a := 1]"
    using assms(1,2) by (simp add: mark_used_def upd_conv_take_nth_drop)
  then show ?thesis
    using allocate_interrupts_first [of s 0 a] assms
    by (simp add: allocate_interrupt_def free_vectors_def)
qed

lemma test_bit: "w AND push_bit n 1 = 0 \<longleftrightarrow> \<not> bit w n" for w :: "'a :: len word"
  by (simp only: push_bit_of_1 and_exp_eq_0_iff_not_bit)

lemma ucast_ucast_64: "ucast (ucast (w :: u32) :: u64) = w"
  by (rule bit_word_eqI) (simp add: bit_simps)

text \<open>A kernel page that was free is taken for the physical page at \<open>pa\<close>; nothing else changes.\<close>

definition page_taken :: "u32 \<Rightarrow> u32 \<Rightarrow> nat \<Rightarrow> mem \<Rightarrow> (nat \<Rightarrow> nat list) \<Rightarrow> block set \<Rightarrow> mem \<Rightarrow> bool" where
  "page_taken kpt pa i m F A m' \<longleftrightarrow>
     i < 0x40000 \<and> i \<in> free_set F \<and> (i, 0) \<notin> A \<and>
     (\<exists>F'. vm_inv kpt m' F' (insert (i, 0) A) \<and> free_set F' = free_set F - {i}) \<and>
     (\<forall>x. unat x < 4096 \<longrightarrow> translate kpt m' (page_address i + x) = Some (pa + x)) \<and>
     (\<forall>j y. j < 0x40000 \<and> j \<noteq> i \<and> unat y < 4096 \<longrightarrow> translate kpt m' (page_address j + y) = translate kpt m (page_address j + y))"

lemma lapic_init_runs:
  assumes "bit (features_edx s) 9" and "vm_inv kpt (kmem s) F A" and "\<exists>k<16. F k \<noteq> []"
    and "length (used_interrupts (ints s)) = 256"
    and "a < 256" and "used_interrupts (ints s) ! a = 0" and "\<forall>j<a. used_interrupts (ints s) ! j \<noteq> 0"
  defines "v \<equiv> ucast (msr s 0x1B) :: u32"
  shows "\<exists>i m r. lapic_init s = Inr ([], s\<lparr>msr := (msr s)(0x1B := r), kmem := m, lapic_base := page_address i,
      mmio := mmio s @ [(page_address i + 0xE0, 0xFFFFFFFF), (page_address i + 0xF0, of_nat a OR 0x100), (page_address i + 0x80, 0)],
      ints := set_kernel_interrupt_handler (of_nat a) Spurious_handler
         ((ints s)\<lparr>used_interrupts := (used_interrupts (ints s))[a := 1]\<rparr>)\<rparr>) \<and>
    bit r 11 \<and> page_taken kpt (v AND NOT 0xFFF) i (kmem s) F A m"
proof -
  have al: "4096 dvd unat (v AND NOT 0xFFF)" by (simp add: unat_low_bits)
  have ne: "\<not> (\<forall>k. 0 \<le> k \<and> k < 16 \<longrightarrow> F k = [])" using assms(3) by simp
  obtain i m F' where map: "map_phaddr_in_kernel (v AND NOT 0xFFF) 0 (kmem s) = Inr (page_address i, m)"
    and m: "vm_inv kpt m F' (insert (i, 0) A)" "(i, 0) \<notin> A" "span (i, 0) \<subseteq> free_set F" "free_set F' = free_set F - span (i, 0)"
      "\<forall>x. unat x < 4096 * 2 ^ 0 \<longrightarrow> translate kpt m (page_address i + x) = Some ((v AND NOT 0xFFF) + x)"
      "\<forall>j y. j < 0x40000 \<and> j \<notin> span (i, 0) \<and> unat y < 4096 \<longrightarrow>
         translate kpt m (page_address j + y) = translate kpt (kmem s) (page_address j + y)"
    using map_phaddr_correct [OF assms(2) _ al, of 0, unfolded if_not_P [OF ne]] by (elim meta_impE exE conjE) (simp, rule that)
  have "i + 2 ^ 0 \<le> 0x40000"
    using m(1) span_bound(1) [of "vaddrs m" F' "insert (i, 0) A" i 0] by (simp add: vm_inv_def)
  then have i: "i < 0x40000" by simp
  have "span (i, 0) = {i}" by (auto simp: span_def)
  then have taken: "page_taken kpt (v AND NOT 0xFFF) i (kmem s) F A m"
    using i m by (auto simp: page_taken_def)
  define r :: u64 where "r = (if bit v 11 then msr s 0x1B else ucast (v OR push_bit 11 1))"
  have b11: "v AND push_bit 11 1 = 0 \<longleftrightarrow> \<not> bit v 11" for v :: u32
    by (rule test_bit)
  have b9: "features_edx s AND push_bit 9 1 \<noteq> 0" using assms(1)
    unfolding test_bit by simp
  have r: "bit r 11" by (simp add: r_def v_def bit_simps)
  have v: "ucast (rdmsr32 0x1B s) = v" by (simp add: rdmsr32_def v_def Let_def ucast_ucast_64)
  have msr: "(if v AND push_bit 11 1 = 0 then wrmsr32 0x1B (v OR push_bit 11 1) s else s) =
      s\<lparr>msr := (msr s)(0x1B := r)\<rparr>"
    unfolding b11 by (simp add: r_def wrmsr32_def)
  have "lapic_init s = Inr ([], s\<lparr>msr := (msr s)(0x1B := r), kmem := m, lapic_base := page_address i,
      mmio := mmio s @ [(page_address i + 0xE0, 0xFFFFFFFF), (page_address i + 0xF0, of_nat a OR 0x100), (page_address i + 0x80, 0)],
      ints := set_kernel_interrupt_handler (of_nat a) Spurious_handler
         ((ints s)\<lparr>used_interrupts := (used_interrupts (ints s))[a := 1]\<rparr>)\<rparr>)"
    unfolding lapic_init_def v Let_def msr using b9 map allocate_interrupt_first [OF assms(4-7)]
    by (simp add: lapic_write_def)
  then show ?thesis using r taken by blast
qed


lemma page_address_below: "i < 0x40000 \<Longrightarrow> page_address i \<noteq> 0"
  by (rule page_address_nonzero)

lemma apictimer_init_runs:
  assumes "lapic_base s \<noteq> 0" and "bit (features_ecx s) 24"
    and "length (used_interrupts (ints s)) = 256"
    and "b < 256" and "used_interrupts (ints s) ! b = 0" and "\<forall>j<b. used_interrupts (ints s) ! j \<noteq> 0"
  shows "apictimer_init s = Inr (s\<lparr>backend_var := Some Apic_set_timer,
      mmio := mmio s @ [(lapic_base s + 0x320, 0x40000 OR of_nat b)],
      ints := set_kernel_interrupt_handler (of_nat b) Apic_timer_handler
         ((ints s)\<lparr>used_interrupts := (used_interrupts (ints s))[b := 1]\<rparr>)\<rparr>)"
proof -
  have "features_ecx s AND push_bit 24 1 \<noteq> 0" using assms(2) unfolding test_bit by simp
  then show ?thesis
    using assms(1) allocate_interrupt_first [OF assms(3-6)]
    by (simp add: apictimer_init_def Let_def lapic_write_def)
qed

lemma kernel_handler_fields:
  "handlers (set_kernel_interrupt_handler i h s) = (handlers s)[unat i := Some h]"
  "used_interrupts (set_kernel_interrupt_handler i h s) = used_interrupts s"
  by (simp_all add: set_kernel_interrupt_handler_def set_interrupt_handler_def)

text \<open>C38. On a processor with a local interrupt controller and a deadline timer, with a kernel page and two
  vectors left, the two constructors enable the controller, map its registers at a kernel page that was free,
  is allocated now and translates to their physical address, while all other kernel pages translate as
  before, and give the two lowest free vectors to the spurious interrupt and to the timer: exactly these
  vectors become taken and get these handlers, and the controller is told the same vectors.\<close>

theorem apic_setup_correct:
  assumes "bit (features_edx s) 9" and "bit (features_ecx s) 24"
    and "vm_inv kpt (kmem s) F A" and "\<exists>k<16. F k \<noteq> []"
    and "length (used_interrupts (ints s)) = 256" and "a < b" and "b < 256"
    and "\<forall>j\<le>b. used_interrupts (ints s) ! j = 0 \<longleftrightarrow> j = a \<or> j = b"
  shows "\<exists>s1 s2 base i. lapic_init s = Inr ([], s1) \<and> apictimer_init s1 = Inr s2 \<and>
    lapic_base s2 = base \<and> base = page_address i \<and>
    page_taken kpt (ucast (msr s 0x1B) AND NOT 0xFFF) i (kmem s) F A (kmem s2) \<and> bit (msr s2 0x1B) 11 \<and> backend_var s2 = Some Apic_set_timer \<and>
    handlers (ints s2) = (handlers (ints s))[a := Some Spurious_handler, b := Some Apic_timer_handler] \<and>
    used_interrupts (ints s2) = (used_interrupts (ints s))[a := 1, b := 1] \<and>
    mmio s2 = mmio s @ [(base + 0xE0, 0xFFFFFFFF), (base + 0xF0, of_nat a OR 0x100), (base + 0x80, 0),
                        (base + 0x320, 0x40000 OR of_nat b)]"
proof -
  let ?us = "used_interrupts (ints s)"
  have a: "a < 256" "?us ! a = 0" "\<forall>j<a. ?us ! j \<noteq> 0" using assms(6-8) by auto
  have un: "unat (of_nat a :: u8) = a" "unat (of_nat b :: u8) = b"
    using assms(6,7) by (simp_all add: unat_of_nat)
  obtain i m r where l: "lapic_init s = Inr ([], s\<lparr>msr := (msr s)(0x1B := r), kmem := m, lapic_base := page_address i,
      mmio := mmio s @ [(page_address i + 0xE0, 0xFFFFFFFF), (page_address i + 0xF0, of_nat a OR 0x100), (page_address i + 0x80, 0)],
      ints := set_kernel_interrupt_handler (of_nat a) Spurious_handler ((ints s)\<lparr>used_interrupts := ?us[a := 1]\<rparr>)\<rparr>)"
      (is "_ = Inr ([], ?s1)")
    and r: "bit r 11" "page_taken kpt (ucast (msr s 0x1B) AND NOT 0xFFF) i (kmem s) F A m"
    using lapic_init_runs [OF assms(1,3,4,5) a] by (elim exE conjE) (rule that)
  have u1: "used_interrupts (ints ?s1) = ?us[a := 1]" by (simp add: kernel_handler_fields)
  have b: "?us[a := 1] ! b = 0" "\<forall>j<b. ?us[a := 1] ! j \<noteq> 0"
    using assms(5-8) by (auto simp: nth_list_update)
  have t: "apictimer_init ?s1 = Inr (?s1\<lparr>backend_var := Some Apic_set_timer,
      mmio := mmio ?s1 @ [(page_address i + 0x320, 0x40000 OR of_nat b)],
      ints := set_kernel_interrupt_handler (of_nat b) Apic_timer_handler
         ((ints ?s1)\<lparr>used_interrupts := ?us[a := 1, b := 1]\<rparr>)\<rparr>)" (is "_ = Inr ?s2")
    using apictimer_init_runs [of ?s1 b] assms(2,5,7) b page_address_nonzero [of i] r(2) unfolding u1 by (simp add: page_taken_def)
  show ?thesis
    using l t r by (intro exI [of _ ?s1] exI [of _ ?s2] exI [of _ "page_address i"] exI [of _ i])
      (simp add: kernel_handler_fields un)
qed

definition bare_machine :: hw where
  "bare_machine =
     \<lparr>eflags = 2, msr = (\<lambda>_. 0)(0x1B := 0xFEE00000), mmio = [], features_ecx = 0x81000000, features_edx = 0x230,
      lapic_base = 0, lapic_eoi_var = Default_lapic_eoi, wall_clock_nsecs = 0, kvm_apic_eoi = 0, backend_var = None,
      ints = idt_init (\<lambda>_. 0) static_interrupts,
      kmem = kernel_tables\<lparr>pages := four_pages, vaddrs := kernel_pool\<rparr>\<rparr>"

theorem apic_setup_correct_witness:
  "\<exists>s1 s2. lapic_init bare_machine = Inr ([], s1) \<and> apictimer_init s1 = Inr s2 \<and>
     translate 0xC0200000 (kmem s2) (lapic_base s2 + 0xB0) = Some 0xFEE000B0 \<and>
     handlers (ints s2) ! 0x20 = Some Spurious_handler \<and> handlers (ints s2) ! 0x21 = Some Apic_timer_handler"
proof -
  let ?s = bare_machine
  have us: "used_interrupts (ints ?s) = replicate 32 1 @ replicate 224 0"
    "handlers (ints ?s) = replicate 256 None" by (simp_all add: bare_machine_def idt_init_gates)
  have v: "vm_inv 0xC0200000 (kmem ?s) ((\<lambda>_. [])(2 := [0])) {}"
    using kernel_tables_directory kernel_pool_inv pcount_kernel_pool
    by (simp add: vm_inv_def kernel_directory_def bare_machine_def)
  have f: "bit (features_edx ?s) 9" "bit (features_ecx ?s) 24"
    by (simp_all add: bare_machine_def)
  have ne: "\<exists>k<16 :: nat. ((\<lambda>_. [])(2 := [0 :: nat])) k \<noteq> []" by (intro exI [of _ 2]) simp
  have u: "\<forall>j\<le>0x21. used_interrupts (ints ?s) ! j = 0 \<longleftrightarrow> j = 0x20 \<or> j = 0x21"
    by (auto simp: us nth_append)
  have "length (used_interrupts (ints ?s)) = 256" by (simp add: us)
  from apic_setup_correct [OF f v ne this _ _ u] obtain s1 s2 i where
    "lapic_init ?s = Inr ([], s1)" "apictimer_init s1 = Inr s2" "lapic_base s2 = page_address i"
    "page_taken 0xC0200000 (ucast (msr ?s 0x1B) AND NOT 0xFFF) i (kmem ?s) ((\<lambda>_. [])(2 := [0])) {} (kmem s2)"
    "handlers (ints s2) = (handlers (ints ?s))[0x20 := Some Spurious_handler, 0x21 := Some Apic_timer_handler]"
    by (auto simp del: fun_upd_apply)
  moreover from this(4) have "translate 0xC0200000 (kmem s2) (page_address i + 0xB0) = Some ((ucast (msr ?s 0x1B) AND NOT 0xFFF) + 0xB0)"
    by (simp add: page_taken_def)
  ultimately show ?thesis by (simp add: us) (simp add: bare_machine_def)
qed


section \<open>The clock\<close>

text \<open>
  The rate that the hypervisor gives: \<open>2^shift * mul / 2^32\<close> nanoseconds for a tick, as the quotient of two
  natural numbers; the shift may be negative. A negative shift also makes ticks come in steps.
\<close>

definition tick_step :: "pvclock_vcpu_time_info \<Rightarrow> nat" where
  "tick_step st = 2 ^ nat (- sint (tsc_shift st))"

definition rate_over :: "pvclock_vcpu_time_info \<Rightarrow> nat" where
  "rate_over st = unat (tsc_to_system_mul st) * 2 ^ nat (sint (tsc_shift st))"

definition rate_under :: "pvclock_vcpu_time_info \<Rightarrow> nat" where
  "rate_under st = 2 ^ 32 * tick_step st"

lemma unat_drop_bit_64: "unat (drop_bit n (w :: u64)) = unat w div 2 ^ n"
  by (rule unat_drop_bit)

lemma unat_mult_lt_64: "unat (a :: u64) * unat b < 2 ^ 64 \<Longrightarrow> unat (a * b) = unat a * unat b"
  by (simp add: unat_word_ariths)

lemma unat_push_bit_64: "unat (a :: u64) * 2 ^ n < 2 ^ 64 \<Longrightarrow> unat (push_bit n a) = unat a * 2 ^ n"
  unfolding unsigned_push_bit_eq by (simp add: push_bit_eq_mult take_bit_nat_eq_self)

lemma tsc_to_nanoseconds_value:
  assumes "0 \<le> sint (tsc_shift st)" and "sint (tsc_shift st) < 64"
    and "unat t * 2 ^ nat (sint (tsc_shift st)) * unat (tsc_to_system_mul st) < 2 ^ 64"
  shows "\<exists>n. tsc_to_nanoseconds st t = Inr n \<and>
    unat n = unat t * 2 ^ nat (sint (tsc_shift st)) * unat (tsc_to_system_mul st) div 2 ^ 32"
proof (cases "tsc_to_system_mul st = 0")
  case True
  then show ?thesis using assms(1,2) by (simp add: tsc_to_nanoseconds_def shift64_def)
next
  case False
  let ?k = "nat (sint (tsc_shift st))" and ?m = "unat (tsc_to_system_mul st)"
  have "0 < ?m" using False by (simp add: unat_gt_0)
  then have "unat t * 2 ^ ?k * 1 \<le> unat t * 2 ^ ?k * ?m" by (intro mult_le_mono2) simp
  then have p: "unat (push_bit ?k t) = unat t * 2 ^ ?k" using assms(3) by (intro unat_push_bit_64) linarith
  have "unat (push_bit ?k t * ucast (tsc_to_system_mul st)) = unat t * 2 ^ ?k * ?m"
    using assms(3) p by (subst unat_mult_lt_64) (simp_all add: unat_ucast_64)
  then show ?thesis using assms(1,2)
    by (simp add: tsc_to_nanoseconds_def shift64_def unat_drop_bit_64)
qed

lemma nanoseconds_to_tsc_value:
  assumes "0 \<le> sint (tsc_shift st)" and "sint (tsc_shift st) < 64" and "tsc_to_system_mul st \<noteq> 0"
    and "unat ns < 2 ^ 32"
  shows "\<exists>t. nanoseconds_to_tsc st ns = Inr t \<and>
    unat t = unat ns * 2 ^ 32 div (unat (tsc_to_system_mul st) * 2 ^ nat (sint (tsc_shift st)))"
proof -
  have p: "unat (push_bit 32 ns) = unat ns * 2 ^ 32" using assms(4) by (intro unat_push_bit_64) simp
  have sh: "shift64 (- sint (tsc_shift st)) r = Inr (drop_bit (nat (sint (tsc_shift st))) r)" for r
    using assms(1,2) by (cases "sint (tsc_shift st) = 0") (auto simp: shift64_def)
  show ?thesis using assms(3)
    by (simp add: nanoseconds_to_tsc_def sh unat_drop_bit_64 unat_div unat_ucast_64 p div_mult2_eq)
qed

lemma clock_up:
  assumes "0 \<le> sint (tsc_shift st)" and "sint (tsc_shift st) < 64" and "tsc_to_system_mul st \<noteq> 0"
    and "unat ns < 2 ^ 32"
  shows "\<exists>t n. nanoseconds_to_tsc st ns = Inr t \<and> tsc_to_nanoseconds st t = Inr n \<and>
    unat t * rate_over st \<le> unat ns * rate_under st \<and> unat ns * rate_under st < (unat t + tick_step st) * rate_over st \<and>
    unat n = unat t * rate_over st div rate_under st"
proof -
  let ?r = "unat (tsc_to_system_mul st) * 2 ^ nat (sint (tsc_shift st))"
  have defs: "tick_step st = 1" "rate_over st = ?r" "rate_under st = 2 ^ 32"
    using assms(1) by (simp_all add: tick_step_def rate_over_def rate_under_def)
  obtain t where t: "nanoseconds_to_tsc st ns = Inr t" "unat t = unat ns * 2 ^ 32 div ?r"
    using nanoseconds_to_tsc_value [OF assms] by blast
  have r: "0 < ?r" using assms(3) by (simp add: unat_gt_0)
  have le: "unat t * ?r \<le> unat ns * 2 ^ 32" unfolding t(2) by (rule div_times_less_eq_dividend)
  have eq: "unat t * 2 ^ nat (sint (tsc_shift st)) * unat (tsc_to_system_mul st) = unat t * ?r" by (simp add: mult_ac)
  have "unat t * 2 ^ nat (sint (tsc_shift st)) * unat (tsc_to_system_mul st) < 2 ^ 64"
  proof -
    have "unat ns * 2 ^ 32 < 2 ^ 64" using assms(4) by simp
    then show ?thesis unfolding eq by (rule le_less_trans [OF le])
  qed
  then obtain n where n: "tsc_to_nanoseconds st t = Inr n" "unat n = unat t * ?r div 2 ^ 32"
    using tsc_to_nanoseconds_value [OF assms(1,2), of t] unfolding eq by blast
  have "unat ns * 2 ^ 32 < (unat t + 1) * ?r"
    unfolding t(2) using dividend_less_div_times [OF r, of "unat ns * 2 ^ 32"] by (simp add: algebra_simps)
  then show ?thesis using t(1) n le unfolding defs by blast
qed

lemma clock_down:
  assumes neg: "sint (tsc_shift st) < 0" and lim: "- 64 < sint (tsc_shift st)" and mul: "tsc_to_system_mul st \<noteq> 0"
    and ns: "unat ns < 2 ^ 32" and fits: "unat ns * 2 ^ 32 div unat (tsc_to_system_mul st) * tick_step st < 2 ^ 64"
  shows "\<exists>t n. nanoseconds_to_tsc st ns = Inr t \<and> tsc_to_nanoseconds st t = Inr n \<and>
    unat t * rate_over st \<le> unat ns * rate_under st \<and> unat ns * rate_under st < (unat t + tick_step st) * rate_over st \<and>
    unat n = unat t * rate_over st div rate_under st"
proof -
  let ?m = "unat (tsc_to_system_mul st)" and ?j = "nat (- sint (tsc_shift st))"
  define q where "q = unat ns * 2 ^ 32 div ?m"
  have defs: "tick_step st = 2 ^ ?j" "rate_over st = ?m" "rate_under st = 2 ^ 32 * 2 ^ ?j"
    using neg by (simp_all add: tick_step_def rate_over_def rate_under_def)
  have m: "0 < ?m" using mul by (simp add: unat_gt_0)
  have le: "q * ?m \<le> unat ns * 2 ^ 32" and gt: "unat ns * 2 ^ 32 < (q + 1) * ?m"
    unfolding q_def using div_times_less_eq_dividend dividend_less_div_times [OF m, of "unat ns * 2 ^ 32"]
    by (simp_all add: algebra_simps)
  have sh: "shift64 (- sint (tsc_shift st)) r = Inr (push_bit ?j r)" "shift64 (sint (tsc_shift st)) r = Inr (drop_bit ?j r)" for r
    using neg lim by (simp_all add: shift64_def)
  have p: "unat (push_bit 32 ns) = unat ns * 2 ^ 32" using ns by (intro unat_push_bit_64) simp
  define t where "t = push_bit ?j (push_bit 32 ns div ucast (tsc_to_system_mul st))"
  have d: "unat (push_bit 32 ns div ucast (tsc_to_system_mul st)) = q"
    by (simp add: unat_div unat_ucast_64 p q_def)
  have t: "unat t = q * 2 ^ ?j" using fits unfolding t_def q_def [symmetric] defs d [symmetric] by (rule unat_push_bit_64)
  have run: "nanoseconds_to_tsc st ns = Inr t" using mul by (simp add: nanoseconds_to_tsc_def sh t_def)
  have q: "unat (drop_bit ?j t) = q" unfolding unat_drop_bit_64 t by simp
  have "unat ns * 2 ^ 32 < 2 ^ 64" using ns by simp
  then have "q * ?m < 2 ^ 64" by (rule le_less_trans [OF le])
  then have "unat (drop_bit ?j t * ucast (tsc_to_system_mul st)) = q * ?m"
    by (subst unat_mult_lt_64) (simp_all add: q unat_ucast_64)
  then have n: "tsc_to_nanoseconds st t = Inr (drop_bit 32 (drop_bit ?j t * ucast (tsc_to_system_mul st)))"
    "unat (drop_bit 32 (drop_bit ?j t * ucast (tsc_to_system_mul st))) = q * ?m div 2 ^ 32"
    by (simp_all add: tsc_to_nanoseconds_def sh unat_drop_bit_64)
  have "q * ?m div 2 ^ 32 = unat t * ?m div (2 ^ 32 * 2 ^ ?j)"
    using div_mult_mult2 [of "2 ^ ?j" "q * ?m" "2 ^ 32"] by (simp add: t mult_ac)
  moreover have "unat t * ?m \<le> unat ns * (2 ^ 32 * 2 ^ ?j)"
    using mult_le_mono1 [OF le, of "2 ^ ?j"] by (simp add: t mult_ac)
  moreover have "unat ns * (2 ^ 32 * 2 ^ ?j) < (unat t + 2 ^ ?j) * ?m"
  proof -
    have "unat ns * 2 ^ 32 * 2 ^ ?j < (q + 1) * ?m * 2 ^ ?j" using gt by simp
    then show ?thesis by (simp add: t algebra_simps)
  qed
  ultimately show ?thesis using run n unfolding defs by auto
qed

text \<open>C39. For less than \<open>2^32\<close> nanoseconds, when the number of ticks fits in 64 bits, the exact duration
  of the number of ticks at the hypervisor's rate is at most the one asked for, and one step of ticks more
  would take longer. Turned back, the number of ticks gives its exact duration, rounded down. The shift of the
  rate may go in either direction by less than 64 places, and its multiplier is not 0; a step is one tick, or \<open>2 ^ k\<close> ticks when the rate shifts right by \<open>k\<close>.\<close>

theorem clock_round_trip:
  assumes "\<bar>sint (tsc_shift st)\<bar> < 64" and "tsc_to_system_mul st \<noteq> 0" and "unat ns < 2 ^ 32"
    and "unat ns * 2 ^ 32 div unat (tsc_to_system_mul st) * tick_step st < 2 ^ 64"
  shows "\<exists>t n. nanoseconds_to_tsc st ns = Inr t \<and> tsc_to_nanoseconds st t = Inr n \<and>
    unat t * rate_over st \<le> unat ns * rate_under st \<and> unat ns * rate_under st < (unat t + tick_step st) * rate_over st \<and>
    unat n = unat t * rate_over st div rate_under st"
proof (cases "0 \<le> sint (tsc_shift st)")
  case True
  then show ?thesis using clock_up [of st ns] assms by simp
next
  case False
  then show ?thesis using clock_down [of st ns] assms by simp
qed

text \<open>A clock of four gigahertz: half a nanosecond for a tick, shifted by one more place to the right.\<close>

definition half_clock :: pvclock_vcpu_time_info where
  "half_clock = \<lparr>ti_version = 2, tsc_timestamp = 0, system_time = 0, tsc_to_system_mul = 0x80000000,
     tsc_shift = - 1, ti_flags = 1\<rparr>"

theorem clock_round_trip_witness:
  "\<exists>t n. nanoseconds_to_tsc half_clock 1000000001 = Inr t \<and> tsc_to_nanoseconds half_clock t = Inr n \<and>
     unat t * 0x80000000 \<le> 1000000001 * 0x200000000 \<and> 1000000001 * 0x200000000 < (unat t + 2) * 0x80000000"
  using clock_round_trip [of half_clock 1000000001]
  by (auto simp: half_clock_def rate_over_def rate_under_def tick_step_def)

text \<open>A duration of \<open>2^32\<close> nanoseconds, a little over four seconds, or more loses its upper
  half: any two durations that agree modulo \<open>2^32\<close> are given the same number of ticks, so that
  \<open>2^32\<close> nanoseconds are no tick at all.\<close>

theorem nanoseconds_to_tsc_wraps:
  "nanoseconds_to_tsc st (ns + 2 ^ 32 * k) = nanoseconds_to_tsc st ns"
proof -
  have "push_bit 32 (ns + 2 ^ 32 * k) = push_bit 32 ns + 2 ^ 64 * k"
    by (simp add: push_bit_eq_mult algebra_simps)
  moreover have "(2 ^ 64 :: u64) = 0" by simp
  ultimately have "push_bit 32 (ns + 2 ^ 32 * k) = push_bit 32 ns" by (simp only: mult_zero_left add_0_right)
  then show ?thesis by (simp only: nanoseconds_to_tsc_def)
qed

section \<open>End of interrupt under KVM\<close>

text \<open>The function for the end of an interrupt under KVM never finds the bit by which the
  hypervisor says that no signal is needed: it tests its own pointer, whose lowest bit is clear,
  and so leaves the hypervisor's word as it is and always writes the register.\<close>

theorem kvm_lapic_eoi_ignores_word:
  assumes "4 dvd unat kvm_apic_eoi_addr"
  shows "kvm_lapic_eoi kvm_apic_eoi_addr s = s\<lparr>mmio := mmio s @ [(lapic_base s + 0xB0, 0)]\<rparr> \<and>
    kvm_apic_eoi (kvm_lapic_eoi kvm_apic_eoi_addr s) = kvm_apic_eoi s"
proof -
  have "even (unat kvm_apic_eoi_addr)" using assms by (meson dvd_trans even_numeral)
  moreover have "bit kvm_apic_eoi_addr 0 = bit (unat kvm_apic_eoi_addr) 0" by (simp add: bit_unsigned_iff)
  ultimately have "\<not> bit kvm_apic_eoi_addr 0" by (simp add: bit_0)
  then show ?thesis
    by (simp add: kvm_lapic_eoi_def test_and_clear_bit_def plain_lapic_eoi_def lapic_write_def)
qed

theorem kvm_lapic_eoi_ignores_word_witness:
  "mmio (kvm_lapic_eoi 0xC0105004 (bare_machine\<lparr>kvm_apic_eoi := 1, lapic_base := 0xC0800000\<rparr>)) = [(0xC08000B0, 0)] \<and>
   kvm_apic_eoi (kvm_lapic_eoi 0xC0105004 (bare_machine\<lparr>kvm_apic_eoi := 1, lapic_base := 0xC0800000\<rparr>)) = 1"
  using kvm_lapic_eoi_ignores_word [where kvm_apic_eoi_addr = "3222294532" and
    s = "bare_machine\<lparr>kvm_apic_eoi := 1, lapic_base := 3229614080\<rparr>"]
  by (simp add: bare_machine_def)

end
