(* ===== verification/Boot.thy ===== *)
theory Boot
  imports MemInit
begin

text \<open>
  Start-up: \<^verbatim>\<open>boot/mboot.c\<close> and \<^verbatim>\<open>include/multiboot.h\<close>, what the kernel tells the boot loader and
  keeps of what the loader left in memory, and \<^verbatim>\<open>boot/startup.c\<close>, which runs the constructors in
  the order that \<^verbatim>\<open>tools/dep2prio.py\<close> computes from \<^verbatim>\<open>include/ctorsprio.py\<close>.
\<close>

unbundle bit_operations_syntax

section \<open>The header for the boot loader\<close>

record multiboot_header =
  mh_magic :: u32
  mh_flags :: u32
  checksum :: u32
  mh_header :: u32
  load_addr :: u32
  load_end_addr :: u32
  bss_end_addr :: u32
  entry_addr :: u32

definition MULTIBOOT_HEADER_MAGIC :: u32 where "MULTIBOOT_HEADER_MAGIC = 0x1BADB002"
definition MULTIBOOT_HEADER_FEATURE_PAGE_ALIGN :: u32 where "MULTIBOOT_HEADER_FEATURE_PAGE_ALIGN = 1"
definition MULTIBOOT_HEADER_FEATURE_AOUT_KLUDGE :: u32 where "MULTIBOOT_HEADER_FEATURE_AOUT_KLUDGE = 0x00010000"

definition MULTIBOOT_HEADER_FLAGS :: u32 where
  "MULTIBOOT_HEADER_FLAGS = MULTIBOOT_HEADER_FEATURE_PAGE_ALIGN OR MULTIBOOT_HEADER_FEATURE_AOUT_KLUDGE"

text \<open>The linker gives the addresses of the symbols.\<close>

definition multiboot :: "u32 \<Rightarrow> u32 \<Rightarrow> u32 \<Rightarrow> u32 \<Rightarrow> u32 \<Rightarrow> multiboot_header" where
  "multiboot multiboot_at load_start load_end bss_end mboot_entry =
     \<lparr>mh_magic = MULTIBOOT_HEADER_MAGIC, mh_flags = MULTIBOOT_HEADER_FLAGS,
      checksum = - (MULTIBOOT_HEADER_MAGIC + MULTIBOOT_HEADER_FLAGS),
      mh_header = PA multiboot_at, load_addr = PA load_start, load_end_addr = PA load_end,
      bss_end_addr = PA bss_end, entry_addr = PA mboot_entry\<rparr>"

section \<open>What the boot loader left\<close>

record multiboot_module =
  mod_start :: u32
  mod_end :: u32
  mod_cmdline :: u32

record multiboot_info =
  mbi_flags :: u32
  mem_lower :: u32
  mem_upper :: u32
  boot_device :: u32
  cmdline :: u32
  mods_count :: u32
  mods_addr :: u32
  mmap_length :: u32
  mmap_addr :: u32

definition MULTIBOOT_INFO_MEMORY :: u32 where "MULTIBOOT_INFO_MEMORY = 1"
definition MULTIBOOT_INFO_CMDLINE :: u32 where "MULTIBOOT_INFO_CMDLINE = 4"
definition MULTIBOOT_INFO_MODS :: u32 where "MULTIBOOT_INFO_MODS = 8"
definition MULTIBOOT_INFO_MEM_MAP :: u32 where "MULTIBOOT_INFO_MEM_MAP = 0x40"

definition sizeof_multiboot_module :: u32 where "sizeof_multiboot_module = 16"

definition reserve_up_to_phaddr_before_paging :: "u32 \<Rightarrow> ('z) mem_scheme \<Rightarrow> ('z) mem_scheme" where
  "reserve_up_to_phaddr_before_paging phaddr s =
     (if last_kernel_phaddr s < phaddr then s\<lparr>last_kernel_phaddr := phaddr\<rparr> else s)"

text \<open>
  The loop over the modules, from the address \<open>c\<close> up to the end of the array; the addresses
  wrap around. \<open>module\<close> gives the structure at an address, \<open>strlen\<close> the length of the string
  at an address.
\<close>

fun reserve_modules ::
  "(u32 \<Rightarrow> u32) \<Rightarrow> (u32 \<Rightarrow> multiboot_module) \<Rightarrow> nat \<Rightarrow> u32 \<Rightarrow> ('z) mem_scheme \<Rightarrow> ('z) mem_scheme" where
  "reserve_modules strlen module 0 c s = s"
| "reserve_modules strlen module (Suc n) c s =
     (let s = reserve_up_to_phaddr_before_paging (mod_end (module c)) s;
          s = reserve_up_to_phaddr_before_paging
                (mod_cmdline (module c) + strlen (mod_cmdline (module c)) + 1) s
      in reserve_modules strlen module n (c + sizeof_multiboot_module) s)"

text \<open>The pointer to the structure is the first result, the structure the second.\<close>

definition initial_process_multiboot ::
  "(u32 \<Rightarrow> u32) \<Rightarrow> (u32 \<Rightarrow> multiboot_module) \<Rightarrow> u32 \<Rightarrow> multiboot_info \<Rightarrow> ('z) mem_scheme \<Rightarrow>
     u32 \<times> multiboot_info \<times> ('z) mem_scheme" where
  "initial_process_multiboot strlen module addr mi s =
     (let mbi = VA addr;
          (mi, s) =
            (if mbi_flags mi AND MULTIBOOT_INFO_CMDLINE \<noteq> 0
             then (mi\<lparr>cmdline := VA (cmdline mi)\<rparr>,
                   reserve_up_to_phaddr_before_paging (cmdline mi + strlen (cmdline mi) + 1) s)
             else (mi, s));
          (mi, s) =
            (if mbi_flags mi AND MULTIBOOT_INFO_MEM_MAP \<noteq> 0
             then (mi\<lparr>mmap_addr := VA (mmap_addr mi)\<rparr>,
                   reserve_up_to_phaddr_before_paging (mmap_addr mi + mmap_length mi) s)
             else (mi, s));
          s = (if mbi_flags mi AND MULTIBOOT_INFO_MEMORY \<noteq> 0
               then s\<lparr>memory_size := push_bit 10 (mem_upper mi + 1024)\<rparr> else s);
          (mi, s) =
            (if mbi_flags mi AND MULTIBOOT_INFO_MODS \<noteq> 0
             then
               let size = sizeof_multiboot_module * mods_count mi;
                   s = reserve_up_to_phaddr_before_paging (mods_addr mi + size) s;
                   s = reserve_modules strlen module (unat size div 16) (mods_addr mi) s
               in (mi\<lparr>mods_addr := VA (mods_addr mi)\<rparr>, s)
             else (mi, s))
      in (mbi, mi, s))"

section \<open>Constructors\<close>

text \<open>
  \<^verbatim>\<open>dep2prio.py\<close>: a table of names with the set of names they need. The order in which Python
  walks through the table is the order of the list, any order. \<open>None\<close> is the exception for a
  cycle.
\<close>

type_synonym deps = "(string \<times> string set) list"

definition DEPENDENCIES :: deps where
  "DEPENDENCIES =
     [(''idt'', {}), (''vga'', {}), (''serial'', {}), (''mem'', {''idt''}), (''cpuid'', {''vga''}),
      (''lapic'', {''cpuid'', ''mem'', ''vga'', ''idt'', ''pic''}), (''kvm'', {''cpuid'', ''lapic'', ''vga''}),
      (''pic'', {''idt''}), (''apictimer'', {''lapic''}), (''scheduler'', {''mem''}), (''pci'', {''vga'', ''mem''})]"

definition ready :: "deps \<Rightarrow> string list" where
  "ready deps = map fst (filter (\<lambda>(t, d). d = {}) deps)"

definition discard :: "string list \<Rightarrow> deps \<Rightarrow> deps" where
  "discard rs deps = map (\<lambda>(t, d). (t, d - set rs)) (filter (\<lambda>(t, d). d \<noteq> {}) deps)"

function constructor_order :: "deps \<Rightarrow> string list option" where
  "constructor_order deps =
     (if deps = [] then Some []
      else if ready deps = [] then None
      else map_option (append (ready deps)) (constructor_order (discard (ready deps) deps)))"
  by pat_completeness auto
termination
proof (relation "measure length"; clarsimp)
  fix deps :: deps
  assume "ready deps \<noteq> []"
  then obtain t where "(t, {}) \<in> set deps" by (auto simp: ready_def filter_empty_conv)
  then have "length (filter (\<lambda>(t, d). d \<noteq> {}) deps) < length deps"
    by (intro length_filter_less [where x = "(t, {})"]) auto
  then show "length (discard (ready deps) deps) < length deps" by (simp add: discard_def)
qed

declare constructor_order.simps [simp del]

text \<open>\<^verbatim>\<open>init\<close> and \<^verbatim>\<open>startup\<close>: \<open>construct\<close> runs a constructor, which may stop the kernel or not end.\<close>

fun init :: "(string \<Rightarrow> 's \<Rightarrow> 's run) \<Rightarrow> string list \<Rightarrow> 's \<Rightarrow> 's run" where
  "init construct [] s = ret s"
| "init construct (x # xs) s = bindR (construct x s) (init construct xs)"

definition startup ::
  "(string \<Rightarrow> 's \<Rightarrow> 's run) \<Rightarrow> (kcall \<Rightarrow> 's \<Rightarrow> 's) \<Rightarrow> ('s \<Rightarrow> 's run) \<Rightarrow> string list \<Rightarrow> 's \<Rightarrow> 's run" where
  "startup construct kprintf scheduler_start constructors s =
     bindR (init construct constructors s) (\<lambda>s. scheduler_start (kprintf (''borfos'', []) s))"

section \<open>What is kept of the loader's data\<close>

lemma reserve_last:
  "last_kernel_phaddr (reserve_up_to_phaddr_before_paging p s) = max (last_kernel_phaddr s) p"
  "reserve_up_to_phaddr_before_paging p s = s\<lparr>last_kernel_phaddr := max (last_kernel_phaddr s) p\<rparr>"
  by (auto simp add: reserve_up_to_phaddr_before_paging_def max_def)

text \<open>The ends of the modules and of their command lines.\<close>

definition module_ends :: "(u32 \<Rightarrow> u32) \<Rightarrow> (u32 \<Rightarrow> multiboot_module) \<Rightarrow> nat \<Rightarrow> u32 \<Rightarrow> u32 list" where
  "module_ends strlen module n c =
     concat (map (\<lambda>k. let m = module (c + 16 * of_nat k)
                      in [mod_end m, mod_cmdline m + strlen (mod_cmdline m) + 1]) [0..<n])"

lemma module_ends_Suc:
  "module_ends strlen module (Suc n) c =
     mod_end (module c) # (mod_cmdline (module c) + strlen (mod_cmdline (module c)) + 1) #
     module_ends strlen module n (c + 16)"
proof -
  have "[0..<Suc n] = 0 # map Suc [0..<n]" by (simp add: upt_conv_Cons map_Suc_upt del: upt_Suc)
  then show ?thesis
    by (simp add: module_ends_def Let_def comp_def algebra_simps del: upt_Suc)
qed

lemma reserve_modules_eq:
  "reserve_modules strlen module n c s =
     s\<lparr>last_kernel_phaddr := fold max (module_ends strlen module n c) (last_kernel_phaddr s)\<rparr>"
  by (induction n arbitrary: c s)
    (simp add: module_ends_def,
     simp add: module_ends_Suc reserve_last(2) sizeof_multiboot_module_def max.commute)

text \<open>Everything the loader reports, by the flags of its structure.\<close>

definition loader_ends :: "(u32 \<Rightarrow> u32) \<Rightarrow> (u32 \<Rightarrow> multiboot_module) \<Rightarrow> multiboot_info \<Rightarrow> u32 list" where
  "loader_ends strlen module mi =
     (if mbi_flags mi AND 4 \<noteq> 0 then [cmdline mi + strlen (cmdline mi) + 1] else []) @
     (if mbi_flags mi AND 0x40 \<noteq> 0 then [mmap_addr mi + mmap_length mi] else []) @
     (if mbi_flags mi AND 8 \<noteq> 0
      then (mods_addr mi + 16 * mods_count mi) #
           module_ends strlen module (unat (16 * mods_count mi) div 16) (mods_addr mi)
      else [])"

lemma fold_max_upper: "x \<le> fold max xs x \<and> (\<forall>y\<in>set xs. y \<le> fold max xs x) \<and> fold max xs x \<in> insert x (set xs)"
  for x :: "'a :: linorder"
proof (induction xs arbitrary: x)
  case (Cons y ys)
  have "max y x = y \<or> max y x = x" by (simp add: max_def)
  then show ?case using Cons.IH [of "max y x"] by auto
qed simp

lemma initial_process_multiboot_eq:
  "initial_process_multiboot strlen module addr mi s =
     (VA addr,
      mi\<lparr>cmdline := (if mbi_flags mi AND 4 \<noteq> 0 then VA (cmdline mi) else cmdline mi),
         mmap_addr := (if mbi_flags mi AND 0x40 \<noteq> 0 then VA (mmap_addr mi) else mmap_addr mi),
         mods_addr := (if mbi_flags mi AND 8 \<noteq> 0 then VA (mods_addr mi) else mods_addr mi)\<rparr>,
      s\<lparr>last_kernel_phaddr := fold max (loader_ends strlen module mi) (last_kernel_phaddr s),
        memory_size := (if mbi_flags mi AND 1 \<noteq> 0 then push_bit 10 (mem_upper mi + 1024) else memory_size s)\<rparr>)"
  by (simp add: initial_process_multiboot_def Let_def MULTIBOOT_INFO_CMDLINE_def MULTIBOOT_INFO_MEM_MAP_def
      MULTIBOOT_INFO_MEMORY_def MULTIBOOT_INFO_MODS_def loader_ends_def reserve_last(2) reserve_modules_eq
      sizeof_multiboot_module_def max.commute)

text \<open>Nothing the boot loader reports lies above the kernel's reserved memory: the limit below
  which no page is ever handed out becomes the largest of its old value and the ends of the command
  line, of the memory map, of the array of modules, of every module and of every module's command
  line, as far as the flags announce them, and nothing else of the memory state changes but the
  size that the loader gives.\<close>

theorem loader_data_reserved:
  "\<exists>mi' limit. initial_process_multiboot strlen module addr mi s =
     (VA addr, mi', s\<lparr>last_kernel_phaddr := limit,
        memory_size := (if mbi_flags mi AND 1 \<noteq> 0 then push_bit 10 (mem_upper mi + 1024) else memory_size s)\<rparr>) \<and>
   list_all (\<lambda>e. e \<le> limit) (last_kernel_phaddr s # loader_ends strlen module mi) \<and>
   limit \<in> set (last_kernel_phaddr s # loader_ends strlen module mi)"
  unfolding initial_process_multiboot_eq
  using fold_max_upper [of "last_kernel_phaddr s" "loader_ends strlen module mi"]
  by (intro exI [of _ "fold max (loader_ends strlen module mi) (last_kernel_phaddr s)"] exI conjI refl)
    (simp_all add: list_all_iff)

text \<open>The header adds up to zero, as the loader checks.\<close>

lemma multiboot_checksum:
  "mh_magic (multiboot a b c d e) + mh_flags (multiboot a b c d e) + checksum (multiboot a b c d e) = 0"
  by (simp add: multiboot_def)

section \<open>Order of the constructors\<close>

definition order_ok :: "deps \<Rightarrow> string list \<Rightarrow> bool" where
  "order_ok deps xs \<longleftrightarrow>
     distinct xs \<and> set xs = fst ` set deps \<and>
     (\<forall>ys t zs d. xs = ys @ t # zs \<and> (t, d) \<in> set deps \<longrightarrow> d \<subseteq> set ys)"

lemma fst_image: "fst ` A = {t. \<exists>d. (t, d) \<in> A}"
  by force

lemma set_ready: "t \<in> set (ready deps) \<longleftrightarrow> (t, {}) \<in> set deps"
  by (force simp: ready_def)

lemma set_discard: "(t, d') \<in> set (discard rs deps) \<longleftrightarrow> (\<exists>d. (t, d) \<in> set deps \<and> d \<noteq> {} \<and> d' = d - set rs)"
  by (force simp: discard_def)

lemma distinct_map_fst_filter: "distinct (map fst xs) \<Longrightarrow> distinct (map fst (filter P xs))"
  by (induction xs) auto

lemma distinct_discard: "distinct (map fst deps) \<Longrightarrow> distinct (map fst (discard rs deps))"
  using distinct_map_fst_filter [of deps "\<lambda>(t, d). d \<noteq> {}"]
  by (simp add: discard_def comp_def case_prod_unfold)

lemma constructor_order_ok:
  "distinct (map fst deps) \<Longrightarrow> constructor_order deps = Some xs \<Longrightarrow> order_ok deps xs"
proof (induction deps arbitrary: xs rule: constructor_order.induct)
  case (1 deps)
  show ?case
  proof (cases "deps = []")
    case True
    then show ?thesis using 1(3) by (simp add: constructor_order.simps order_ok_def)
  next
    case False
    then have r: "ready deps \<noteq> []" using 1(3) by (auto simp: constructor_order.simps [of deps] split: if_splits)
    obtain xs' where xs: "xs = ready deps @ xs'" and rest: "constructor_order (discard (ready deps) deps) = Some xs'"
      using 1(3) False r by (auto simp: constructor_order.simps [of deps])
    have ok: "order_ok (discard (ready deps) deps) xs'"
      by (rule 1(1) [OF False r distinct_discard [OF 1(2)] rest])
    have uniq: "d = d'" if "(t, d) \<in> set deps" "(t, d') \<in> set deps" for t d d'
      using 1(2) that by (metis eq_key_imp_eq_value)
    have names: "set xs' = {t. \<exists>d. (t, d) \<in> set deps \<and> d \<noteq> {}}"
    proof -
      have "set xs' = {t. \<exists>d. (t, d) \<in> set (discard (ready deps) deps)}"
        using ok unfolding order_ok_def fst_image by (elim conjE)
      then show ?thesis unfolding set_discard by blast
    qed
    have "distinct (ready deps)" unfolding ready_def using 1(2) by (rule distinct_map_fst_filter)
    moreover have "set (ready deps) \<inter> set xs' = {}" unfolding names using uniq set_ready by blast
    ultimately have "distinct xs" using ok by (simp add: xs order_ok_def)
    moreover have "set xs = fst ` set deps"
    proof -
      have "set xs = {t. \<exists>d. (t, d) \<in> set deps}" by (auto simp: xs names set_ready)
      then show ?thesis by (simp only: fst_image)
    qed
    moreover have "d \<subseteq> set ys" if s: "xs = ys @ t # zs" and d: "(t, d) \<in> set deps" for ys t zs d
    proof (cases "t \<in> set (ready deps)")
      case True
      then show ?thesis using uniq [OF d] by (auto simp: set_ready)
    next
      case F: False
      have "ready deps @ xs' = ys @ t # zs" using s xs by simp
      then obtain us where us: "ready deps = ys @ us \<and> us @ xs' = t # zs \<or> ready deps @ us = ys \<and> xs' = us @ t # zs"
        by (auto simp only: append_eq_append_conv2)
      have "\<exists>us. ys = ready deps @ us \<and> xs' = us @ t # zs"
      proof (cases us)
        case Nil
        then show ?thesis using us by auto
      next
        case (Cons u vs)
        have "\<not> (ready deps = ys @ us \<and> us @ xs' = t # zs)"
        proof
          assume r: "ready deps = ys @ us \<and> us @ xs' = t # zs"
          then have "t \<in> set us" using Cons by simp
          then have "t \<in> set (ready deps)" using r by simp
          then show False using F by simp
        qed
        then show ?thesis using us by blast
      qed
      then obtain us where "ys = ready deps @ us \<and> xs' = us @ t # zs" by blast
      moreover have "d \<noteq> {}" using F d by (auto simp: set_ready)
      ultimately have "d - set (ready deps) \<subseteq> set us"
        using ok d unfolding order_ok_def set_discard by blast
      then show ?thesis using \<open>ys = ready deps @ us \<and> _\<close> by auto
    qed
    ultimately show ?thesis unfolding order_ok_def by blast
  qed
qed

text \<open>A table without cycles, by a rank that every need lowers, has an order.\<close>

lemma constructor_order_total:
  assumes "\<forall>(t, d) \<in> set deps. \<forall>u \<in> d. u \<in> fst ` set deps \<and> rank u < (rank t :: nat)"
  shows "constructor_order deps \<noteq> None"
  using assms
proof (induction deps rule: constructor_order.induct)
  case (1 deps)
  show ?case
  proof (cases "deps = []")
    case False
    have "ready deps \<noteq> []"
    proof -
      have "hd deps \<in> set deps" using False by simp
      then obtain p where "p \<in> set deps" "\<forall>q. q \<in> set deps \<longrightarrow> rank (fst p) \<le> rank (fst q)"
        using ex_has_least_nat [of "\<lambda>p. p \<in> set deps" "hd deps" "\<lambda>p. rank (fst p)"] by blast
      then obtain t d where td: "(t, d) \<in> set deps" "\<forall>(t', d') \<in> set deps. rank t \<le> rank t'"
        by (metis (mono_tags, lifting) case_prodI2 fst_conv surj_pair)
      have "d = {}" using 1(2) td by fastforce
      then show ?thesis using td(1) set_ready [of t deps] by auto
    qed
    moreover have "\<forall>(t, d) \<in> set (discard (ready deps) deps).
        \<forall>u \<in> d. u \<in> fst ` set (discard (ready deps) deps) \<and> rank u < rank t"
    proof clarify
      fix t d' u
      assume a: "(t, d') \<in> set (discard (ready deps) deps)" and u: "u \<in> d'"
      then obtain d where d: "(t, d) \<in> set deps" "u \<in> d" "u \<notin> set (ready deps)" by (auto simp: set_discard)
      then obtain e where e: "(u, e) \<in> set deps" and lt: "rank u < rank t" using 1(2) by fastforce
      then have "e \<noteq> {}" using d(3) by (auto simp: set_ready)
      then have "(u, e - set (ready deps)) \<in> set (discard (ready deps) deps)" using e by (auto simp: set_discard)
      then show "u \<in> fst ` set (discard (ready deps) deps) \<and> rank u < rank t" using lt by force
    qed
    ultimately show ?thesis using 1(1) False by (subst constructor_order.simps) auto
  qed (simp add: constructor_order.simps)
qed

text \<open>C37. The order of the constructors exists for every table without cycles in which every
  constructor that is needed is itself in the table; it lists every constructor of the table once, and
  each after all constructors that it needs.\<close>

theorem constructor_order_correct:
  assumes "distinct (map fst deps)"
    and "\<forall>(t, d) \<in> set deps. \<forall>u \<in> d. u \<in> fst ` set deps \<and> rank u < (rank t :: nat)"
  shows "\<exists>xs. constructor_order deps = Some xs \<and> order_ok deps xs"
  using constructor_order_total [OF assms(2)] constructor_order_ok [OF assms(1)] by blast

text \<open>The kernel's own table.\<close>

definition kernel_rank :: "string \<Rightarrow> nat" where
  "kernel_rank t =
     (if t = ''idt'' \<or> t = ''vga'' \<or> t = ''serial'' then 0
      else if t = ''lapic'' then 2 else if t = ''kvm'' \<or> t = ''apictimer'' \<or> t = ''scheduler'' \<or> t = ''pci'' then 3 else 1)"

theorem constructor_order_correct_witness:
  "\<exists>xs. constructor_order DEPENDENCIES = Some xs \<and> order_ok DEPENDENCIES xs"
  by (rule constructor_order_correct [where rank = kernel_rank])
    (simp_all add: DEPENDENCIES_def kernel_rank_def)

end
