(* ===== verification/Pci.thy ===== *)
theory Pci
  imports KList
begin

text \<open>
  Port instructions, \<^verbatim>\<open>include/io.h\<close>, and the enumeration of PCI devices, \<^verbatim>\<open>drivers/pci.c\<close> and
  \<^verbatim>\<open>include/pci.h\<close>. What a read of a port gives is a parameter \<open>env\<close>: a function of the accesses
  made before.
\<close>

unbundle bit_operations_syntax

section \<open>Ports\<close>

type_synonym port_env = "port_io list \<Rightarrow> u16 \<Rightarrow> u32"

record ports =
  port_log :: "port_io list"

definition port_access :: "port_io \<Rightarrow> 'z ports_scheme \<Rightarrow> 'z ports_scheme" where
  "port_access e s = s\<lparr>port_log := port_log s @ [e]\<rparr>"

definition outb :: "u16 \<Rightarrow> u8 \<Rightarrow> 'z ports_scheme \<Rightarrow> 'z ports_scheme" where
  "outb port v = port_access (OutB port v)"

definition inb :: "port_env \<Rightarrow> u16 \<Rightarrow> 'z ports_scheme \<Rightarrow> u8 \<times> 'z ports_scheme" where
  "inb env port s = (ucast (env (port_log s) port), port_access (InB port) s)"

definition outw :: "u16 \<Rightarrow> u16 \<Rightarrow> 'z ports_scheme \<Rightarrow> 'z ports_scheme" where
  "outw port v = port_access (OutW port v)"

text \<open>The result type is \<^verbatim>\<open>uint8_t\<close>.\<close>

definition inw :: "port_env \<Rightarrow> u16 \<Rightarrow> 'z ports_scheme \<Rightarrow> u8 \<times> 'z ports_scheme" where
  "inw env port s =
     (let v = ucast (env (port_log s) port) :: u16 in (ucast v, port_access (InW port) s))"

definition outl :: "u16 \<Rightarrow> u32 \<Rightarrow> 'z ports_scheme \<Rightarrow> 'z ports_scheme" where
  "outl port v = port_access (OutL port v)"

definition inl :: "port_env \<Rightarrow> u16 \<Rightarrow> 'z ports_scheme \<Rightarrow> u32 \<times> 'z ports_scheme" where
  "inl env port s = (env (port_log s) port, port_access (InL port) s)"

text \<open>\<^verbatim>\<open>rep; outsb\<close> and its relatives, on a memory of bytes.\<close>

fun outsb :: "u16 \<Rightarrow> (u32 \<Rightarrow> u8) \<Rightarrow> u32 \<Rightarrow> nat \<Rightarrow> 'z ports_scheme \<Rightarrow> 'z ports_scheme" where
  "outsb port m out 0 s = s"
| "outsb port m out (Suc count) s = outsb port m (out + 1) count (outb port (m out) s)"

fun insb :: "port_env \<Rightarrow> u16 \<Rightarrow> u32 \<Rightarrow> nat \<Rightarrow> (u32 \<Rightarrow> u8) \<times> 'z ports_scheme \<Rightarrow> (u32 \<Rightarrow> u8) \<times> 'z ports_scheme" where
  "insb env port out 0 (m, s) = (m, s)"
| "insb env port out (Suc count) (m, s) =
     (case inb env port s of (v, s) \<Rightarrow> insb env port (out + 1) count (m(out := v), s))"

fun outsw :: "u16 \<Rightarrow> (u32 \<Rightarrow> u8) \<Rightarrow> u32 \<Rightarrow> nat \<Rightarrow> 'z ports_scheme \<Rightarrow> 'z ports_scheme" where
  "outsw port m out 0 s = s"
| "outsw port m out (Suc count) s =
     outsw port m (out + 2) count (outw port (ucast (m out) OR push_bit 8 (ucast (m (out + 1)))) s)"

fun insw :: "port_env \<Rightarrow> u16 \<Rightarrow> u32 \<Rightarrow> nat \<Rightarrow> (u32 \<Rightarrow> u8) \<times> 'z ports_scheme \<Rightarrow> (u32 \<Rightarrow> u8) \<times> 'z ports_scheme" where
  "insw env port out 0 (m, s) = (m, s)"
| "insw env port out (Suc count) (m, s) =
     (let v = ucast (env (port_log s) port) :: u16
      in insw env port (out + 2) count
           (m(out := ucast v, out + 1 := ucast (drop_bit 8 v)), port_access (InW port) s))"

fun outsl :: "u16 \<Rightarrow> (u32 \<Rightarrow> u8) \<Rightarrow> u32 \<Rightarrow> nat \<Rightarrow> 'z ports_scheme \<Rightarrow> 'z ports_scheme" where
  "outsl port m out 0 s = s"
| "outsl port m out (Suc count) s =
     outsl port m (out + 4) count
       (outl port (ucast (m out) OR push_bit 8 (ucast (m (out + 1))) OR
                   push_bit 16 (ucast (m (out + 2))) OR push_bit 24 (ucast (m (out + 3)))) s)"

fun insl :: "port_env \<Rightarrow> u16 \<Rightarrow> u32 \<Rightarrow> nat \<Rightarrow> (u32 \<Rightarrow> u8) \<times> 'z ports_scheme \<Rightarrow> (u32 \<Rightarrow> u8) \<times> 'z ports_scheme" where
  "insl env port out 0 (m, s) = (m, s)"
| "insl env port out (Suc count) (m, s) =
     (case inl env port s of (v, s) \<Rightarrow>
        insl env port (out + 4) count
          (m(out := ucast v, out + 1 := ucast (drop_bit 8 v), out + 2 := ucast (drop_bit 16 v),
             out + 3 := ucast (drop_bit 24 v)), s))"

section \<open>Devices\<close>

text \<open>A device is allocated at most once for every bus, slot and function, which name it.\<close>

record location =
  loc_bus :: nat
  loc_slot :: nat
  loc_function :: nat

record pci_device =
  bus :: u8
  slot :: u8
  function_no :: u8
  reg00 :: u32
  reg08 :: u32
  bar :: "u32 list"
  reg3c :: u32

definition pci_vendor_id :: "pci_device \<Rightarrow> u16" where
  "pci_vendor_id pci = ucast (reg00 pci)"

definition pci_device_id :: "pci_device \<Rightarrow> u16" where
  "pci_device_id pci = ucast (drop_bit 16 (reg00 pci))"

definition pci_class_code :: "pci_device \<Rightarrow> u8" where
  "pci_class_code pci = ucast (drop_bit 24 (reg08 pci))"

definition pci_subclass :: "pci_device \<Rightarrow> u8" where
  "pci_subclass pci = ucast (drop_bit 16 (reg08 pci))"

definition pci_progif :: "pci_device \<Rightarrow> u8" where
  "pci_progif pci = ucast (drop_bit 8 (reg08 pci))"

text \<open>
  The nodes of the lists: the head for a class and subclass, and \<^verbatim>\<open>by_class\<close> of a device. The
  two tables of pointers to tables are nested maps. \<open>alloc_ok n\<close> tells whether the \<open>n\<close>-th call of
  \<^verbatim>\<open>calloc\<close> or \<^verbatim>\<open>malloc\<close> gives memory.
\<close>

datatype pnode = Class_head nat nat | By_class location

record pci = ports +
  buses :: "nat \<Rightarrow> (nat \<Rightarrow> (nat \<Rightarrow> location option) option) option"
  classes :: "nat \<Rightarrow> bool"
  device :: "location \<Rightarrow> pci_device"
  plinks :: "pnode links"
  alloc_ok :: "nat \<Rightarrow> bool"
  alloc_calls :: nat

definition MAX_SLOTS :: nat where "MAX_SLOTS = 32"
definition MAX_FUNCTIONS :: nat where "MAX_FUNCTIONS = 8"
definition MAX_BUSES :: nat where "MAX_BUSES = 256"
definition MAX_SUBCLASSES :: nat where "MAX_SUBCLASSES = 256"
definition MAX_CLASSES :: nat where "MAX_CLASSES = 256"

lemmas pci_limits = MAX_SLOTS_def MAX_FUNCTIONS_def MAX_BUSES_def MAX_SUBCLASSES_def MAX_CLASSES_def

definition pci_get_by_location :: "nat \<Rightarrow> nat \<Rightarrow> nat \<Rightarrow> 'z pci_scheme \<Rightarrow> location option result" where
  "pci_get_by_location b sl f s =
     (if MAX_BUSES \<le> b then Inl OutOfBounds
      else case buses s b of
        None \<Rightarrow> Inr None
      | Some pci_bus \<Rightarrow>
          if MAX_SLOTS \<le> sl then Inl OutOfBounds
          else case pci_bus sl of
            None \<Rightarrow> Inr None
          | Some pci_slot \<Rightarrow> if MAX_FUNCTIONS \<le> f then Inl OutOfBounds else Inr (pci_slot f))"

text \<open>A call of the heap: whether it succeeds.\<close>

definition allocate :: "'z pci_scheme \<Rightarrow> bool \<times> 'z pci_scheme" where
  "allocate s = (alloc_ok s (alloc_calls s), s\<lparr>alloc_calls := Suc (alloc_calls s)\<rparr>)"

definition empty_device :: pci_device where
  "empty_device = \<lparr>bus = 0, slot = 0, function_no = 0, reg00 = 0, reg08 = 0, bar = replicate 6 0, reg3c = 0\<rparr>"

definition allocate_bus :: "nat \<Rightarrow> 'z pci_scheme \<Rightarrow> bool \<times> 'z pci_scheme" where
  "allocate_bus b s =
     (if buses s b = None then
        let (ok, s) = allocate s
        in (ok, if ok then s\<lparr>buses := (buses s)(b \<mapsto> \<lambda>_. None)\<rparr> else s)
      else (True, s))"

definition allocate_slot :: "nat \<Rightarrow> nat \<Rightarrow> 'z pci_scheme \<Rightarrow> bool \<times> 'z pci_scheme" where
  "allocate_slot b sl s =
     (let pci_bus = the (buses s b) in
      if pci_bus sl = None then
        let (ok, s) = allocate s
        in (ok, if ok then s\<lparr>buses := (buses s)(b \<mapsto> pci_bus(sl \<mapsto> \<lambda>_. None))\<rparr> else s)
      else (True, s))"

definition allocate_function :: "nat \<Rightarrow> nat \<Rightarrow> nat \<Rightarrow> 'z pci_scheme \<Rightarrow> location option \<times> 'z pci_scheme" where
  "allocate_function b sl f s =
     (let pci_bus = the (buses s b); pci_slot = the (pci_bus sl) in
      if pci_slot f = None then
        let (ok, s) = allocate s; l = \<lparr>loc_bus = b, loc_slot = sl, loc_function = f\<rparr>
        in if ok then (Some l, s\<lparr>buses := (buses s)(b \<mapsto> pci_bus(sl \<mapsto> pci_slot(f \<mapsto> l))),
                                 device := (device s)(l := empty_device)\<rparr>)
           else (None, s)
      else (pci_slot f, s))"

definition allocate_device :: "nat \<Rightarrow> nat \<Rightarrow> nat \<Rightarrow> 'z pci_scheme \<Rightarrow> (location option \<times> 'z pci_scheme) result" where
  "allocate_device b sl f s =
     (if MAX_BUSES \<le> b \<or> MAX_SLOTS \<le> sl \<or> MAX_FUNCTIONS \<le> f then Inl OutOfBounds
      else
        let (ok, s) = allocate_bus b s in
        if \<not> ok then Inr (None, s)
        else
          let (ok, s) = allocate_slot b sl s in
          if \<not> ok then Inr (None, s) else Inr (allocate_function b sl f s))"

definition allocate_subclass :: "nat \<Rightarrow> nat \<Rightarrow> 'z pci_scheme \<Rightarrow> (pnode option \<times> 'z pci_scheme) result" where
  "allocate_subclass cl sb s =
     (if MAX_CLASSES \<le> cl \<or> MAX_SUBCLASSES \<le> sb then Inl OutOfBounds
      else if \<not> classes s cl then
        let (ok, s) = allocate s in
        if \<not> ok then Inr (None, s)
        else Inr (Some (Class_head cl sb),
                  s\<lparr>classes := (classes s)(cl := True),
                    plinks := fold (\<lambda>k. list_init (Class_head cl k)) [0..<MAX_SUBCLASSES] (plinks s)\<rparr>)
      else Inr (Some (Class_head cl sb), s))"

definition pci_get_devices_by_class :: "nat \<Rightarrow> nat \<Rightarrow> 'z pci_scheme \<Rightarrow> pnode option result" where
  "pci_get_devices_by_class cl sb s =
     (if MAX_CLASSES \<le> cl then Inl OutOfBounds
      else if \<not> classes s cl then Inr None
      else if MAX_SUBCLASSES \<le> sb then Inl OutOfBounds else Inr (Some (Class_head cl sb)))"

section \<open>Configuration space\<close>

definition config_address :: "nat \<Rightarrow> nat \<Rightarrow> nat \<Rightarrow> u32 \<Rightarrow> u32" where
  "config_address b sl f offset =
     push_bit 16 (of_nat b) OR push_bit 11 (of_nat sl) OR push_bit 8 (of_nat f) OR (offset AND 0xfc) OR 0x80000000"

definition pci_set_offset :: "nat \<Rightarrow> nat \<Rightarrow> nat \<Rightarrow> u32 \<Rightarrow> 'z ports_scheme \<Rightarrow> 'z ports_scheme" where
  "pci_set_offset b sl f offset s = outl 0xCF8 (config_address b sl f offset) s"

definition pciread32 :: "port_env \<Rightarrow> nat \<Rightarrow> nat \<Rightarrow> nat \<Rightarrow> u32 \<Rightarrow> 'z ports_scheme \<Rightarrow> u32 \<times> 'z ports_scheme" where
  "pciread32 env b sl f offset s = inl env 0xCFC (pci_set_offset b sl f offset s)"

definition pci_read32 :: "port_env \<Rightarrow> pci_device \<Rightarrow> u32 \<Rightarrow> 'z ports_scheme \<Rightarrow> u32 \<times> 'z ports_scheme" where
  "pci_read32 env dev offset = pciread32 env (unat (bus dev)) (unat (slot dev)) (unat (function_no dev)) offset"

definition pci_write32 :: "pci_device \<Rightarrow> u32 \<Rightarrow> u32 \<Rightarrow> 'z ports_scheme \<Rightarrow> 'z ports_scheme" where
  "pci_write32 dev offset v s =
     outl 0xCFC v (pci_set_offset (unat (bus dev)) (unat (slot dev)) (unat (function_no dev)) offset s)"

definition pciread16 :: "port_env \<Rightarrow> nat \<Rightarrow> nat \<Rightarrow> nat \<Rightarrow> u32 \<Rightarrow> 'z ports_scheme \<Rightarrow> u16 \<times> 'z ports_scheme" where
  "pciread16 env b sl f offset s =
     (let (r, s) = pciread32 env b sl f offset s
      in (if offset AND 2 \<noteq> 0 then ucast (drop_bit 16 r) else ucast r, s))"

definition pci_command :: "port_env \<Rightarrow> pci_device \<Rightarrow> u16 \<Rightarrow> u16 \<Rightarrow> 'z ports_scheme \<Rightarrow> u16 \<times> 'z ports_scheme" where
  "pci_command env dev set_bits unset_bits s =
     (let (v, s) = pci_read32 env dev 4 s;
          orig_value = ucast v :: u16;
          new_value = (orig_value OR set_bits) AND NOT unset_bits
      in (orig_value,
          if new_value \<noteq> orig_value then pci_write32 dev 4 ((v AND 0xFFFF0000) OR ucast new_value) s else s))"

section \<open>Enumeration\<close>

text \<open>A loop whose body may fail or not return, over the values of its index.\<close>

fun foldR :: "('a \<Rightarrow> 's \<Rightarrow> 's run) \<Rightarrow> 'a list \<Rightarrow> 's \<Rightarrow> 's run" where
  "foldR f [] s = ret s"
| "foldR f (x # xs) s = bindR (f x s) (foldR f xs)"

lemma bindR_mono [partial_function_mono]:
  assumes "mono_option B" and "\<And>y. mono_option (\<lambda>f. C y f)"
  shows "mono_option (\<lambda>f. bindR (B f) (\<lambda>y. C y f))"
proof -
  have "mono_option (\<lambda>f. case y of Inl e \<Rightarrow> Some (Inl e) | Inr x \<Rightarrow> C x f)" for y
    by (cases y) (simp_all add: assms(2) option.const_mono)
  then show ?thesis unfolding bindR_def by (rule bind_mono [OF assms(1)])
qed

lemma foldR_mono [partial_function_mono]:
  assumes "\<And>x s. mono_option (\<lambda>f. B f x s)"
  shows "mono_option (\<lambda>f. foldR (B f) xs s)"
proof (induction xs arbitrary: s)
  case Nil
  then show ?case by (simp add: option.const_mono)
next
  case (Cons x xs)
  then show ?case by (simp add: bindR_mono assms)
qed

text \<open>
  The three mutually recursive functions: the checks of a device and of a bus get the check of a
  function as an argument, and the check of a function is the recursion, through the bus behind a
  bridge. \<open>None\<close>: the bridges lead back to a bus that is being checked.
\<close>

definition check_device ::
  "(nat \<Rightarrow> nat \<Rightarrow> nat \<Rightarrow> pci \<Rightarrow> pci run) \<Rightarrow> port_env \<Rightarrow> nat \<Rightarrow> nat \<Rightarrow> pci \<Rightarrow> pci run" where
  "check_device check_function env b sl s =
     (let (dv, s) = pciread32 env b sl 0 0 s in
      if (ucast dv :: u16) = 0xFFFF then ret s
      else
        let (r, s) = pciread32 env b sl 0 0xC s;
            functions = (if r AND 0x800000 \<noteq> 0 then 8 else 1)
        in foldR (check_function b sl) [0..<functions] s)"

definition check_bus ::
  "(nat \<Rightarrow> nat \<Rightarrow> nat \<Rightarrow> pci \<Rightarrow> pci run) \<Rightarrow> port_env \<Rightarrow> nat \<Rightarrow> pci \<Rightarrow> pci run" where
  "check_bus check_function env b = foldR (check_device check_function env b) [0..<32]"

lemma check_bus_mono [partial_function_mono]:
  assumes "\<And>b sl f s. mono_option (\<lambda>F. B F b sl f s)"
  shows "mono_option (\<lambda>F. check_bus (B F) env b s)"
proof -
  have "mono_option (\<lambda>F. check_device (B F) env b sl s)" for sl s
    unfolding check_device_def Let_def split_beta
    by (intro if_mono option.const_mono foldR_mono assms)
  then show ?thesis unfolding check_bus_def by (rule foldR_mono)
qed

text \<open>What is stored of a function: the registers are read one after the other.\<close>

fun read_bars :: "port_env \<Rightarrow> nat \<Rightarrow> nat \<Rightarrow> nat \<Rightarrow> nat list \<Rightarrow> pci \<Rightarrow> u32 list \<times> pci" where
  "read_bars env b sl f [] s = ([], s)"
| "read_bars env b sl f (i # is) s =
     (let (v, s) = pciread32 env b sl f (0x10 + of_nat i * 4) s;
          (vs, s) = read_bars env b sl f is s
      in (v # vs, s))"

definition store_device :: "port_env \<Rightarrow> nat \<Rightarrow> nat \<Rightarrow> nat \<Rightarrow> u32 \<Rightarrow> u32 \<Rightarrow> location \<Rightarrow> pci \<Rightarrow> pci" where
  "store_device env b sl f dv category l s =
     (let (bars, s) = read_bars env b sl f [0..<6] s;
          (r3c, s) = pciread32 env b sl f 0x3c s
      in s\<lparr>device := (device s)(l :=
             \<lparr>bus = of_nat b, slot = of_nat sl, function_no = of_nat f, reg00 = dv, reg08 = category,
              bar = bars, reg3c = r3c\<rparr>)\<rparr>)"

definition register_function :: "port_env \<Rightarrow> nat \<Rightarrow> nat \<Rightarrow> nat \<Rightarrow> u32 \<Rightarrow> u32 \<Rightarrow> pci \<Rightarrow> pci result" where
  "register_function env b sl f dv category s =
     bindE (allocate_device b sl f s) (\<lambda>(dev, s).
       case dev of
         None \<Rightarrow> Inl (Panic ''not enough memory'')
       | Some l \<Rightarrow>
           bindE (allocate_subclass (unat (drop_bit 24 category)) (unat (drop_bit 16 category AND 0xFF)) s)
             (\<lambda>(subclass, s).
               case subclass of
                 None \<Rightarrow> Inl (Panic ''not enough memory'')
               | Some head \<Rightarrow>
                   Inr (store_device env b sl f dv category l
                     (s\<lparr>plinks := list_insert_before head (By_class l) (plinks s)\<rparr>))))"

partial_function (option) pci_check_function :: "port_env \<Rightarrow> nat \<Rightarrow> nat \<Rightarrow> nat \<Rightarrow> pci \<Rightarrow> pci run" where
  "pci_check_function env b sl f s =
     (let (dv, s) = pciread32 env b sl f 0 s in
      if dv AND 0xFFFF = 0xFFFF then ret s
      else
        let (category, s) = pciread32 env b sl f 8 s in
        if drop_bit 16 category = 0x604 then
          let (reg18, s) = pciread32 env b sl f 0x18 s
          in check_bus (pci_check_function env) env (unat (drop_bit 8 reg18 AND 0xFF)) s
        else Some (register_function env b sl f dv category s))"

definition pci_check_device :: "port_env \<Rightarrow> nat \<Rightarrow> nat \<Rightarrow> pci \<Rightarrow> pci run" where
  "pci_check_device env = check_device (pci_check_function env) env"

definition pci_check_bus :: "port_env \<Rightarrow> nat \<Rightarrow> pci \<Rightarrow> pci run" where
  "pci_check_bus env = check_bus (pci_check_function env) env"

definition pci_init :: "port_env \<Rightarrow> pci \<Rightarrow> pci run" where
  "pci_init env s =
     (let (r, s) = pciread32 env 0 0 0 0xC s in
      if r AND 0x800000 \<noteq> 0 then
        foldR (\<lambda>function s.
          let (id, s) = pciread16 env 0 0 function 0 s
          in if id \<noteq> 0xFFFF then pci_check_bus env function s else ret s) [0..<8] s
      else pci_check_bus env 0 s)"

end
