(* ===== verification/PciProps.thy ===== *)
theory PciProps
  imports Pci
begin

text \<open>
  What the enumeration of \<open>Pci\<close> finds: the invariant of its tables and lists, the devices behind a
  bus as a recursive function of the configuration space, and the cases in which the enumeration
  does not end or breaks a list.
\<close>

unbundle bit_operations_syntax

section \<open>A configuration space\<close>

text \<open>
  The mechanism of the ports \<^verbatim>\<open>0xCF8\<close> and \<^verbatim>\<open>0xCFC\<close>: reading the second gives the register whose
  address was written to the first just before. \<open>cfg\<close> holds the registers.
\<close>

definition reads_config :: "port_env \<Rightarrow> (u32 \<Rightarrow> u32) \<Rightarrow> bool" where
  "reads_config env cfg \<longleftrightarrow> (\<forall>h a. env (h @ [OutL 0xCF8 a]) 0xCFC = cfg a)"

definition reg :: "(u32 \<Rightarrow> u32) \<Rightarrow> nat \<Rightarrow> nat \<Rightarrow> nat \<Rightarrow> u32 \<Rightarrow> u32" where
  "reg cfg b sl f offset = cfg (config_address b sl f offset)"

lemma pciread32_config:
  assumes "reads_config env cfg"
  shows "pciread32 env b sl f offset s =
    (reg cfg b sl f offset, port_access (InL 0xCFC) (port_access (OutL 0xCF8 (config_address b sl f offset)) s))"
  using assms by (simp add: pciread32_def pci_set_offset_def inl_def outl_def port_access_def reads_config_def reg_def)

definition present :: "(u32 \<Rightarrow> u32) \<Rightarrow> nat \<Rightarrow> nat \<Rightarrow> nat \<Rightarrow> bool" where
  "present cfg b sl f \<longleftrightarrow> reg cfg b sl f 0 AND 0xFFFF \<noteq> 0xFFFF"

definition functions_of :: "(u32 \<Rightarrow> u32) \<Rightarrow> nat \<Rightarrow> nat \<Rightarrow> nat list" where
  "functions_of cfg b sl =
     (if present cfg b sl 0 then [0..<(if reg cfg b sl 0 0xC AND 0x800000 \<noteq> 0 then 8 else 1)] else [])"

definition is_bridge :: "(u32 \<Rightarrow> u32) \<Rightarrow> nat \<Rightarrow> nat \<Rightarrow> nat \<Rightarrow> bool" where
  "is_bridge cfg b sl f \<longleftrightarrow> drop_bit 16 (reg cfg b sl f 8) = 0x604"

definition secondary :: "(u32 \<Rightarrow> u32) \<Rightarrow> nat \<Rightarrow> nat \<Rightarrow> nat \<Rightarrow> nat" where
  "secondary cfg b sl f = unat (drop_bit 8 (reg cfg b sl f 0x18) AND 0xFF)"

text \<open>The devices behind a bus, in the order of the enumeration, when every bridge leads to a bus
  with a larger number, as firmware numbers them.\<close>

definition forward_bridges :: "(u32 \<Rightarrow> u32) \<Rightarrow> bool" where
  "forward_bridges cfg \<longleftrightarrow>
     (\<forall>b<256. \<forall>sl<32. \<forall>f\<in>set (functions_of cfg b sl).
        present cfg b sl f \<and> is_bridge cfg b sl f \<longrightarrow> b < secondary cfg b sl f)"

lemma secondary_less: "secondary cfg b sl f < 256"
proof -
  have "secondary cfg b sl f = unat (drop_bit 8 (reg cfg b sl f 0x18)) mod 2 ^ 8"
    using unat_and_mask [of "drop_bit 8 (reg cfg b sl f 0x18)" 8]
    by (simp add: secondary_def mask_eq_exp_minus_1)
  then show ?thesis by simp
qed

function scan :: "(u32 \<Rightarrow> u32) \<Rightarrow> nat \<Rightarrow> location list" where
  "scan cfg b =
     concat (map (\<lambda>sl. concat (map (\<lambda>f.
         if \<not> present cfg b sl f then []
         else if is_bridge cfg b sl f then
           (if b < secondary cfg b sl f then scan cfg (secondary cfg b sl f) else [])
         else [\<lparr>loc_bus = b, loc_slot = sl, loc_function = f\<rparr>]) (functions_of cfg b sl))) [0..<32])"
  by pat_completeness auto
termination
  by (relation "measure (\<lambda>(cfg, b). 256 - b)") (auto simp: secondary_less diff_less_mono2 less_trans [OF _ secondary_less])

declare scan.simps [simp del]

section \<open>The tables\<close>

definition device_of :: "(u32 \<Rightarrow> u32) \<Rightarrow> location \<Rightarrow> pci_device" where
  "device_of cfg l =
     (let r = reg cfg (loc_bus l) (loc_slot l) (loc_function l)
      in \<lparr>bus = of_nat (loc_bus l), slot = of_nat (loc_slot l), function_no = of_nat (loc_function l),
          reg00 = r 0, reg08 = r 8, bar = map (\<lambda>i. r (0x10 + of_nat i * 4)) [0..<6], reg3c = r 0x3c\<rparr>)"

definition class_of :: "(u32 \<Rightarrow> u32) \<Rightarrow> location \<Rightarrow> nat \<times> nat" where
  "class_of cfg l =
     (let category = reg cfg (loc_bus l) (loc_slot l) (loc_function l) 8
      in (unat (drop_bit 24 category), unat (drop_bit 16 category AND 0xFF)))"

definition lookup :: "'z pci_scheme \<Rightarrow> nat \<Rightarrow> nat \<Rightarrow> nat \<Rightarrow> location option" where
  "lookup s b sl f = Option.bind (buses s b) (\<lambda>pb. Option.bind (pb sl) (\<lambda>ps. ps f))"

definition class_heads :: "(nat \<Rightarrow> bool) \<Rightarrow> pnode set" where
  "class_heads cs = {Class_head c k |c k. cs c \<and> k < 256}"

fun class_list :: "(u32 \<Rightarrow> u32) \<Rightarrow> location list \<Rightarrow> pnode \<Rightarrow> pnode list" where
  "class_list cfg devs (Class_head c k) = map By_class (filter (\<lambda>l. class_of cfg l = (c, k)) devs)"
| "class_list cfg devs (By_class l) = []"

definition in_range :: "location \<Rightarrow> bool" where
  "in_range l \<longleftrightarrow> loc_bus l < 256 \<and> loc_slot l < 32 \<and> loc_function l < 8"

text \<open>\<open>devs\<close> are the registered devices, in order.\<close>

definition pci_inv :: "(u32 \<Rightarrow> u32) \<Rightarrow> 'z pci_scheme \<Rightarrow> location list \<Rightarrow> bool" where
  "pci_inv cfg s devs \<longleftrightarrow>
     distinct devs \<and> list_all in_range devs \<and>
     (\<forall>b sl f. lookup s b sl f =
        (let l = \<lparr>loc_bus = b, loc_slot = sl, loc_function = f\<rparr> in if l \<in> set devs then Some l else None)) \<and>
     (\<forall>l\<in>set devs. device s l = device_of cfg l \<and> classes s (fst (class_of cfg l))) \<and>
     family (plinks s) (class_heads (classes s)) (By_class ` set devs) (class_list cfg devs)"

lemma class_of_less: "fst (class_of cfg l) < 256" "snd (class_of cfg l) < 256"
proof -
  let ?c = "reg cfg (loc_bus l) (loc_slot l) (loc_function l) 8"
  have "unat (drop_bit 24 ?c) = unat ?c div 2 ^ 24" by (rule unat_drop_bit)
  moreover have "unat ?c < 2 ^ 32" using unat_limit(3) [of ?c] by simp
  ultimately have "unat (drop_bit 24 ?c) < 256" by (simp add: less_mult_imp_div_less)
  then show "fst (class_of cfg l) < 256" by (simp add: class_of_def Let_def)
  have "unat (drop_bit 16 ?c AND 0xFF) = unat (drop_bit 16 ?c) mod 2 ^ 8"
    using unat_and_mask [of "drop_bit 16 ?c" 8] by (simp add: mask_eq_exp_minus_1)
  then show "snd (class_of cfg l) < 256" by (simp add: class_of_def Let_def)
qed

lemma allocate_bus_runs:
  assumes "\<forall>n. alloc_ok s n"
  shows "\<exists>B n. allocate_bus b s = (True, s\<lparr>buses := B, alloc_calls := n\<rparr>) \<and> B b \<noteq> None \<and>
    lookup (s\<lparr>buses := B, alloc_calls := n\<rparr>) = lookup s"
proof (cases "buses s b")
  case None
  then show ?thesis using assms
    by (intro exI [of _ "(buses s)(b \<mapsto> \<lambda>_. None)"] exI [of _ "Suc (alloc_calls s)"])
      (auto simp: allocate_bus_def allocate_def lookup_def fun_eq_iff)
next
  case (Some x)
  then show ?thesis
    by (intro exI [of _ "buses s"] exI [of _ "alloc_calls s"]) (auto simp: allocate_bus_def)
qed

lemma allocate_slot_runs:
  assumes "\<forall>n. alloc_ok s n" and "buses s b \<noteq> None"
  shows "\<exists>B n. allocate_slot b sl s = (True, s\<lparr>buses := B, alloc_calls := n\<rparr>) \<and>
    (\<exists>pb. B b = Some pb \<and> pb sl \<noteq> None) \<and> lookup (s\<lparr>buses := B, alloc_calls := n\<rparr>) = lookup s"
proof -
  obtain pb where pb: "buses s b = Some pb" using assms(2) by auto
  show ?thesis
  proof (cases "pb sl")
    case None
    then show ?thesis using assms(1) pb
      by (intro exI [of _ "(buses s)(b \<mapsto> pb(sl \<mapsto> \<lambda>_. None))"] exI [of _ "Suc (alloc_calls s)"])
        (intro conjI exI [of _ "pb(sl \<mapsto> \<lambda>_. None)"],
         auto simp: allocate_slot_def allocate_def lookup_def fun_eq_iff)
  next
    case (Some x)
    then show ?thesis using pb
      by (intro exI [of _ "buses s"] exI [of _ "alloc_calls s"]) (auto simp: allocate_slot_def)
  qed
qed

lemma allocate_device_runs:
  assumes "\<forall>n. alloc_ok s n" and "b < 256" "sl < 32" "f < 8" and "lookup s b sl f = None"
  defines "l \<equiv> \<lparr>loc_bus = b, loc_slot = sl, loc_function = f\<rparr>"
  shows "\<exists>B n. allocate_device b sl f s =
      Inr (Some l, s\<lparr>buses := B, alloc_calls := n, device := (device s)(l := empty_device)\<rparr>) \<and>
    (\<forall>b' sl' f'. lookup (s\<lparr>buses := B\<rparr>) b' sl' f' =
       (if b' = b \<and> sl' = sl \<and> f' = f then Some l else lookup s b' sl' f'))"
proof -
  obtain B n where 1: "allocate_bus b s = (True, s\<lparr>buses := B, alloc_calls := n\<rparr>)"
    and B: "B b \<noteq> None" "lookup (s\<lparr>buses := B, alloc_calls := n\<rparr>) = lookup s"
    using allocate_bus_runs [OF assms(1)] by blast
  let ?s1 = "s\<lparr>buses := B, alloc_calls := n\<rparr>"
  have "\<forall>n. alloc_ok ?s1 n" "buses ?s1 b \<noteq> None" using assms(1) B(1) by simp_all
  then obtain B2 n2 where 2: "allocate_slot b sl ?s1 = (True, ?s1\<lparr>buses := B2, alloc_calls := n2\<rparr>)"
    and B2: "\<exists>pb. B2 b = Some pb \<and> pb sl \<noteq> None"
      "lookup (?s1\<lparr>buses := B2, alloc_calls := n2\<rparr>) = lookup ?s1"
    using allocate_slot_runs by blast
  let ?s2 = "?s1\<lparr>buses := B2, alloc_calls := n2\<rparr>"
  obtain pb ps where pb: "B2 b = Some pb" "pb sl = Some ps" using B2(1) by auto
  have "lookup ?s2 b sl f = None" using B2(2) B(2) assms(5) by simp
  then have ps: "ps f = None" using pb by (simp add: lookup_def)
  let ?B = "B2(b \<mapsto> pb(sl \<mapsto> ps(f \<mapsto> l)))"
  have "allocate_device b sl f s = Inr (Some l, s\<lparr>buses := ?B, alloc_calls := Suc n2, device := (device s)(l := empty_device)\<rparr>)"
    using 1 2 pb ps assms(1-4)
    by (cases s) (simp add: allocate_device_def pci_limits allocate_function_def allocate_def l_def Let_def)
  moreover have "lookup (s\<lparr>buses := ?B\<rparr>) b' sl' f' = (if b' = b \<and> sl' = sl \<and> f' = f then Some l else lookup ?s2 b' sl' f')"
    for b' sl' f'
    using pb by (simp add: lookup_def)
  ultimately show ?thesis using B2(2) B(2) by (intro exI [of _ ?B] exI [of _ "Suc n2"]) simp
qed


lemma family_init_heads:
  assumes fam: "family h H N L" and new: "K \<inter> (H \<union> N) = {}" and nil: "\<forall>a\<in>K. L a = []"
    and h': "prv h' = (\<lambda>n. if n \<in> K then n else prv h n)" "nxt h' = (\<lambda>n. if n \<in> K then n else nxt h n)"
  shows "family h' (H \<union> K) N L"
proof -
  have same: "ring h' a xs" if "ring h a xs" "insert a (set xs) \<subseteq> H \<union> N" for a xs
    by (rule ring_cong [OF that(1)]) (use that(2) new in \<open>auto simp: h'\<close>)
  have mem: "members (H \<union> K) L = members H L" using nil by (auto simp: members_def)
  have "ring h' a (L a) \<and> set (L a) \<subseteq> N" if "a \<in> H \<union> K" for a
  proof (cases "a \<in> K")
    case True
    then show ?thesis using nil by (simp add: ring_Nil h')
  next
    case False
    then have a: "a \<in> H" using that by simp
    then show ?thesis using same [OF familyD(2) [OF fam a]] familyD(3) [OF fam a] by auto
  qed
  moreover have "ring h' n []" if "n \<in> N - members (H \<union> K) L" for n
    using same [OF familyD(5) [OF fam]] that mem by auto
  moreover have "set (L a) \<inter> set (L b) = {}" if "a \<in> H \<union> K" "b \<in> H \<union> K" "a \<noteq> b" for a b
  proof (cases "a \<in> H \<and> b \<in> H")
    case True
    then show ?thesis using familyD(4) [OF fam _ _ that(3)] by blast
  next
    case False
    then have "L a = [] \<or> L b = []" using that(1,2) nil by auto
    then show ?thesis by auto
  qed
  moreover have "(H \<union> K) \<inter> N = {}" using familyD(1) [OF fam] new by auto
  ultimately show ?thesis unfolding family_def by blast
qed

text \<open>The links of the new element need not be initialised.\<close>

lemma family_append_new:
  assumes fam: "family h H N L" and a: "a \<in> H" and new: "new \<notin> H \<union> N"
  shows "family (list_insert_before a new h) H (insert new N) (L(a := L a @ [new]))"
proof -
  have "prv h a \<in> insert a (set (L a))" by (rule ring_prv_head [OF familyD(2) [OF fam a]])
  then have ne: "prv h a \<noteq> new" "a \<noteq> new" using new a familyD(3) [OF fam a] by auto
  have eq: "list_insert_before a new h = list_insert_before a new (list_init new h)"
    using ne by (simp add: list_insert_before_def list_init_def set_prev_def set_next_def Let_def fun_upd_twist)
  have "family (list_init new h) H (insert new N) L"
  proof -
    have same: "ring (list_init new h) b xs" if "ring h b xs" "insert b (set xs) \<subseteq> H \<union> N" for b xs
      by (rule ring_cong [OF that(1)]) (use that(2) new in \<open>auto simp: list_init_def\<close>)
    have "ring (list_init new h) b (L b)" if "b \<in> H" for b
      using same [OF familyD(2) [OF fam that]] familyD(3) [OF fam that] that by auto
    moreover have "ring (list_init new h) n []" if "n \<in> insert new N - members H L" for n
      using same [OF familyD(5) [OF fam], of n] that ring_init [of new h] by auto
    ultimately show ?thesis using fam new unfolding family_def by blast
  qed
  moreover have "new \<notin> members H L" using new familyD(3) [OF fam] by (auto simp: members_def)
  ultimately show ?thesis
    unfolding eq using family_insert_before [of "list_init new h" H "insert new N" L a "L a" "[]" new a] a by simp
qed

lemma allocate_subclass_runs:
  assumes "\<forall>n. alloc_ok s n" and "cl < 256" "sb < 256"
    and fam: "family (plinks s) (class_heads (classes s)) (By_class ` set devs) (class_list cfg devs)"
    and cls: "\<forall>l\<in>set devs. classes s (fst (class_of cfg l))"
  shows "\<exists>n h. allocate_subclass cl sb s =
      Inr (Some (Class_head cl sb), s\<lparr>classes := (classes s)(cl := True), alloc_calls := n, plinks := h\<rparr>) \<and>
    family h (class_heads ((classes s)(cl := True))) (By_class ` set devs) (class_list cfg devs)"
proof (cases "classes s cl")
  case True
  then have "(classes s)(cl := True) = classes s" by (simp add: fun_eq_iff)
  then show ?thesis using True assms
    by (intro exI [of _ "alloc_calls s"] exI [of _ "plinks s"]) (simp add: allocate_subclass_def pci_limits)
next
  case False
  let ?K = "Class_head cl ` {0..<256}"
  let ?h = "fold (\<lambda>k. list_init (Class_head cl k)) [0..<256] (plinks s)"
  have img: "Class_head cl ` set [0..<256] = ?K" by (simp only: set_upt)
  note fold_list_init [of "Class_head cl" "[0..<256]" "plinks s", unfolded img]
  moreover have "?K \<inter> (class_heads (classes s) \<union> By_class ` set devs) = {}" using False by (auto simp: class_heads_def)
  moreover have "class_list cfg devs a = []" if "a \<in> ?K" for a
    using that False cls by (auto simp: filter_empty_conv) (metis fst_conv)
  ultimately have "family ?h (class_heads (classes s) \<union> ?K) (By_class ` set devs) (class_list cfg devs)"
    by (intro family_init_heads [OF fam]) auto
  moreover have "class_heads (classes s) \<union> ?K = class_heads ((classes s)(cl := True))"
    using False by (auto simp: class_heads_def)
  ultimately have "family ?h (class_heads ((classes s)(cl := True))) (By_class ` set devs) (class_list cfg devs)"
    by simp
  then show ?thesis using False assms(1-3)
    by (intro exI [of _ "Suc (alloc_calls s)"] exI [of _ ?h], cases s)
      (simp add: allocate_subclass_def pci_limits allocate_def)
qed

lemma read_bars_config:
  assumes "reads_config env cfg"
  shows "\<exists>h. read_bars env b sl f is s =
    (map (\<lambda>i. reg cfg b sl f (0x10 + of_nat i * 4)) is, s\<lparr>port_log := h\<rparr>)"
proof (induction "is" arbitrary: s)
  case Nil
  show ?case by (intro exI [of _ "port_log s"]) simp
next
  case (Cons i "is")
  let ?s = "port_access (InL 0xCFC) (port_access (OutL 0xCF8 (config_address b sl f (0x10 + of_nat i * 4))) s)"
  obtain h where "read_bars env b sl f is ?s = (map (\<lambda>i. reg cfg b sl f (0x10 + of_nat i * 4)) is, ?s\<lparr>port_log := h\<rparr>)"
    using Cons.IH by blast
  then show ?case
    by (intro exI [of _ h]) (simp add: pciread32_config [OF assms], simp add: port_access_def)
qed

lemma store_device_config:
  assumes "reads_config env cfg" and "l = \<lparr>loc_bus = b, loc_slot = sl, loc_function = f\<rparr>"
  shows "\<exists>h. store_device env b sl f (reg cfg b sl f 0) (reg cfg b sl f 8) l s =
    s\<lparr>port_log := h, device := (device s)(l := device_of cfg l)\<rparr>"
proof -
  obtain h where h: "read_bars env b sl f [0..<6] s =
      (map (\<lambda>i. reg cfg b sl f (0x10 + of_nat i * 4)) [0..<6], s\<lparr>port_log := h\<rparr>)"
    using read_bars_config [OF assms(1)] by blast
  show ?thesis
    by (intro exI, unfold store_device_def h prod.case Let_def pciread32_config [OF assms(1)])
      (simp add: port_access_def device_of_def assms(2) Let_def del: upt_rec_numeral)
qed

lemma register_runs:
  assumes env: "reads_config env cfg" and inv: "pci_inv cfg s devs" and ok: "\<forall>n. alloc_ok s n"
    and r: "b < 256" "sl < 32" "f < 8"
    and l: "l = \<lparr>loc_bus = b, loc_slot = sl, loc_function = f\<rparr>" and new: "l \<notin> set devs"
  shows "\<exists>s'. register_function env b sl f (reg cfg b sl f 0) (reg cfg b sl f 8) s = Inr s' \<and>
    pci_inv cfg s' (devs @ [l]) \<and> (\<forall>n. alloc_ok s' n)"
proof -
  have lk: "lookup s b sl f = None" using inv new by (simp add: pci_inv_def l)
  obtain B n where dev: "allocate_device b sl f s =
      Inr (Some l, s\<lparr>buses := B, alloc_calls := n, device := (device s)(l := empty_device)\<rparr>)"
    and B: "\<forall>b' sl' f'. lookup (s\<lparr>buses := B\<rparr>) b' sl' f' =
       (if b' = b \<and> sl' = sl \<and> f' = f then Some l else lookup s b' sl' f')"
    using allocate_device_runs [OF ok r lk] l by blast
  let ?s = "s\<lparr>buses := B, alloc_calls := n, device := (device s)(l := empty_device)\<rparr>"
  define c k where "c = fst (class_of cfg l)" and "k = snd (class_of cfg l)"
  have ck: "unat (drop_bit 24 (reg cfg b sl f 8)) = c" "unat (drop_bit 16 (reg cfg b sl f 8) AND 0xFF) = k"
    by (simp_all add: c_def k_def class_of_def l Let_def)
  have less: "c < 256" "k < 256" by (simp_all add: c_def k_def class_of_less)
  have fam: "family (plinks ?s) (class_heads (classes ?s)) (By_class ` set devs) (class_list cfg devs)"
    and cls: "\<forall>l\<in>set devs. classes ?s (fst (class_of cfg l))" and ok': "\<forall>n. alloc_ok ?s n"
    using inv ok by (simp_all add: pci_inv_def)
  obtain n2 h where sub: "allocate_subclass c k ?s =
      Inr (Some (Class_head c k), ?s\<lparr>classes := (classes ?s)(c := True), alloc_calls := n2, plinks := h\<rparr>)"
    and h: "family h (class_heads ((classes ?s)(c := True))) (By_class ` set devs) (class_list cfg devs)"
    using allocate_subclass_runs [OF ok' less fam cls] by blast
  let ?t = "?s\<lparr>classes := (classes ?s)(c := True), alloc_calls := n2,
              plinks := list_insert_before (Class_head c k) (By_class l) h\<rparr>"
  obtain g where st: "store_device env b sl f (reg cfg b sl f 0) (reg cfg b sl f 8) l ?t =
      ?t\<lparr>port_log := g, device := (device ?t)(l := device_of cfg l)\<rparr>"
    using store_device_config [OF env l] by blast
  let ?u = "?t\<lparr>port_log := g, device := (device ?t)(l := device_of cfg l)\<rparr>"
  have run: "register_function env b sl f (reg cfg b sl f 0) (reg cfg b sl f 8) s = Inr ?u"
    unfolding register_function_def dev ck bindE_simps prod.case option.case sub
    using st by simp
  have "family (plinks ?u) (class_heads (classes ?u)) (By_class ` set (devs @ [l])) (class_list cfg (devs @ [l]))"
  proof -
    have "Class_head c k \<in> class_heads ((classes ?s)(c := True))" using less by (auto simp: class_heads_def)
    then have "family (list_insert_before (Class_head c k) (By_class l) h) (class_heads ((classes ?s)(c := True)))
        (insert (By_class l) (By_class ` set devs))
        ((class_list cfg devs)(Class_head c k := class_list cfg devs (Class_head c k) @ [By_class l]))"
      using new by (intro family_append_new [OF h]) (auto simp: class_heads_def)
    moreover have "(class_list cfg devs)(Class_head c k := class_list cfg devs (Class_head c k) @ [By_class l]) =
        class_list cfg (devs @ [l])"
    proof
      fix x
      have "class_of cfg l = (c, k)" by (simp add: c_def k_def)
      then show "((class_list cfg devs)(Class_head c k := class_list cfg devs (Class_head c k) @ [By_class l])) x =
          class_list cfg (devs @ [l]) x" by (cases x) auto
    qed
    ultimately show ?thesis by simp
  qed
  moreover have "lookup ?u = lookup (s\<lparr>buses := B\<rparr>)" by (simp add: lookup_def fun_eq_iff)
  ultimately have "pci_inv cfg ?u (devs @ [l])"
    using inv B r new l cls unfolding pci_inv_def
    by (auto simp: in_range_def Let_def c_def)
  then show ?thesis using run ok by (intro exI [of _ ?u]) simp
qed


section \<open>The whole enumeration\<close>

lemma pci_inv_log [simp]: "pci_inv cfg (port_access e s) devs = pci_inv cfg s devs"
  by (simp add: pci_inv_def lookup_def port_access_def)

lemma alloc_ok_log [simp]: "alloc_ok (port_access e s) = alloc_ok s"
  by (simp add: port_access_def)

lemma foldR_collect:
  assumes step: "\<And>x ds s. x \<in> set xs \<Longrightarrow> Q ds s \<Longrightarrow> distinct (ds @ g x) \<Longrightarrow> \<exists>s'. f x s = ret s' \<and> Q (ds @ g x) s'"
    and "Q ds s" and "distinct (ds @ concat (map g xs))"
  shows "\<exists>s'. foldR f xs s = ret s' \<and> Q (ds @ concat (map g xs)) s'"
  using assms
proof (induction xs arbitrary: ds s)
  case (Cons x xs)
  have "distinct (ds @ g x)" using Cons.prems(3) by auto
  then obtain s1 where s1: "f x s = ret s1" "Q (ds @ g x) s1"
    using Cons.prems(1) [of x ds s] Cons.prems(2) by auto
  have "distinct ((ds @ g x) @ concat (map g xs))" using Cons.prems(3) by auto
  then obtain s' where "foldR f xs s1 = ret s'" "Q ((ds @ g x) @ concat (map g xs)) s'"
    using Cons.IH [of "ds @ g x" s1] Cons.prems(1) s1(2) by auto
  then show ?case using s1(1) by simp
qed simp

definition found :: "(u32 \<Rightarrow> u32) \<Rightarrow> nat \<Rightarrow> nat \<Rightarrow> nat \<Rightarrow> location list" where
  "found cfg b sl f =
     (if \<not> present cfg b sl f then []
      else if is_bridge cfg b sl f then
        (if b < secondary cfg b sl f then scan cfg (secondary cfg b sl f) else [])
      else [\<lparr>loc_bus = b, loc_slot = sl, loc_function = f\<rparr>])"

lemma scan_found: "scan cfg b = concat (map (\<lambda>sl. concat (map (found cfg b sl) (functions_of cfg b sl))) [0..<32])"
proof -
  have "found cfg b sl = (\<lambda>f. if \<not> present cfg b sl f then []
      else if is_bridge cfg b sl f then
        (if b < secondary cfg b sl f then scan cfg (secondary cfg b sl f) else [])
      else [\<lparr>loc_bus = b, loc_slot = sl, loc_function = f\<rparr>])" for sl
    by (rule ext) (simp only: found_def)
  then show ?thesis by (subst scan.simps) (simp only:)
qed

lemma low_half: "(ucast (w :: u32) :: u16) = 0xFFFF \<longleftrightarrow> w AND 0xFFFF = 0xFFFF"
proof -
  have "unat (w AND 0xFFFF) = unat w mod 2 ^ 16"
    using unat_and_mask [of w 16] by (simp add: mask_eq_exp_minus_1)
  moreover have "unat (ucast w :: u16) = unat w mod 2 ^ 16"
    by (simp add: unsigned_ucast_eq take_bit_eq_mod)
  ultimately show ?thesis by (simp add: word_unat_eq_iff)
qed

lemma functions_of_less: "f \<in> set (functions_of cfg b sl) \<Longrightarrow> f < 8"
  by (auto simp: functions_of_def split: if_splits)

lemma check_device_config:
  assumes "reads_config env cfg"
  shows "\<exists>s'. check_device F env b sl s = foldR (F b sl) (functions_of cfg b sl) s' \<and>
    pci_inv cfg s' = pci_inv cfg s \<and> alloc_ok s' = alloc_ok s"
proof (cases "present cfg b sl 0")
  case True
  then have "\<not> (ucast (reg cfg b sl 0 0) :: u16) = 0xFFFF" by (simp add: present_def low_half)
  then show ?thesis using True unfolding check_device_def pciread32_config [OF assms] Let_def prod.case
    by (subst if_not_P) (auto simp: functions_of_def fun_eq_iff intro!: exI)
next
  case False
  then have "(ucast (reg cfg b sl 0 0) :: u16) = 0xFFFF" by (simp add: present_def low_half)
  then show ?thesis using False unfolding check_device_def pciread32_config [OF assms] Let_def prod.case
    by (subst if_P) (auto simp: functions_of_def fun_eq_iff intro!: exI)
qed

lemma check_bus_runs:
  assumes env: "reads_config env cfg" and fwd: "forward_bridges cfg"
  shows "b < 256 \<Longrightarrow> pci_inv cfg s devs \<and> (\<forall>n. alloc_ok s n) \<Longrightarrow> distinct (devs @ scan cfg b) \<Longrightarrow>
    \<exists>s'. pci_check_bus env b s = ret s' \<and> pci_inv cfg s' (devs @ scan cfg b) \<and> (\<forall>n. alloc_ok s' n)"
proof (induction "256 - b" arbitrary: b s devs rule: less_induct)
  case less
  let ?Q = "\<lambda>ds s. pci_inv cfg s ds \<and> (\<forall>n. alloc_ok s n)"
  have fn: "\<exists>s'. pci_check_function env b sl f s = ret s' \<and> ?Q (ds @ found cfg b sl f) s'"
    if "sl < 32" "f \<in> set (functions_of cfg b sl)" "?Q ds s" "distinct (ds @ found cfg b sl f)" for sl f ds s
  proof -
    have q: "pci_inv cfg s ds" "\<forall>n. alloc_ok s n" using that(3) by auto
    note step = pci_check_function.simps [of env b sl f s, unfolded pciread32_config [OF env] Let_def prod.case]
    show ?thesis
    proof (cases "present cfg b sl f")
      case False
      then show ?thesis using that(3) unfolding step by (auto simp add: present_def found_def)
    next
      case p: True
      show ?thesis
      proof (cases "is_bridge cfg b sl f")
        case True
        then have lt: "b < secondary cfg b sl f" using fwd less.prems(1) that(1,2) p by (simp add: forward_bridges_def)
        let ?s = "port_access (InL 0xCFC) (port_access (OutL 0xCF8 (config_address b sl f 0x18))
           (port_access (InL 0xCFC) (port_access (OutL 0xCF8 (config_address b sl f 8))
           (port_access (InL 0xCFC) (port_access (OutL 0xCF8 (config_address b sl f 0)) s)))))"
        have "pci_check_function env b sl f s = pci_check_bus env (secondary cfg b sl f) ?s"
          unfolding step using True p
          by (simp add: present_def is_bridge_def secondary_def pci_check_bus_def)
        moreover have "\<exists>s'. pci_check_bus env (secondary cfg b sl f) ?s = ret s' \<and>
            ?Q (ds @ scan cfg (secondary cfg b sl f)) s'"
        proof (rule less.hyps)
          show "256 - secondary cfg b sl f < 256 - b" using lt less.prems(1) by (rule diff_less_mono2)
          show "pci_inv cfg ?s ds \<and> (\<forall>n. alloc_ok ?s n)" using q by simp
          show "distinct (ds @ scan cfg (secondary cfg b sl f))" using that(4) p True lt by (simp add: found_def)
        qed (rule secondary_less)
        ultimately show ?thesis using p True lt by (simp add: found_def)
      next
        case False
        let ?l = "\<lparr>loc_bus = b, loc_slot = sl, loc_function = f\<rparr>"
        let ?s = "port_access (InL 0xCFC) (port_access (OutL 0xCF8 (config_address b sl f 8))
           (port_access (InL 0xCFC) (port_access (OutL 0xCF8 (config_address b sl f 0)) s)))"
        have "?l \<notin> set ds" using that(4) p False by (simp add: found_def)
        then have "\<exists>s'. register_function env b sl f (reg cfg b sl f 0) (reg cfg b sl f 8) ?s = Inr s' \<and> ?Q (ds @ [?l]) s'"
          using register_runs [OF env, of ?s ds b sl f ?l] less.prems(1) that(1) q functions_of_less [OF that(2)] by simp
        moreover have "pci_check_function env b sl f s =
            Some (register_function env b sl f (reg cfg b sl f 0) (reg cfg b sl f 8) ?s)"
          unfolding step using False p by (simp add: present_def is_bridge_def)
        ultimately show ?thesis using p False by (auto simp: found_def)
      qed
    qed
  qed
  have dev: "\<exists>s'. check_device (pci_check_function env) env b sl s = ret s' \<and>
      ?Q (ds @ concat (map (found cfg b sl) (functions_of cfg b sl))) s'"
    if "sl \<in> set [0..<32]" "?Q ds s" "distinct (ds @ concat (map (found cfg b sl) (functions_of cfg b sl)))" for sl ds s
  proof -
    obtain s1 where s1: "check_device (pci_check_function env) env b sl s =
        foldR (pci_check_function env b sl) (functions_of cfg b sl) s1"
      "pci_inv cfg s1 = pci_inv cfg s" "alloc_ok s1 = alloc_ok s" using check_device_config [OF env] by blast
    have sl: "sl < 32" using that(1) by simp
    show ?thesis unfolding s1(1)
      by (rule foldR_collect [where Q = ?Q, OF _ _ that(3)]) (use fn [OF sl] s1(2,3) that(2) in auto)
  qed
  show ?case unfolding pci_check_bus_def check_bus_def scan_found
    by (rule foldR_collect [where Q = ?Q, OF dev less.prems(2) less.prems(3) [unfolded scan_found]])
qed


section \<open>Addresses of registers\<close>

lemma bit_of_small: "n < 2 ^ k \<Longrightarrow> bit n i \<Longrightarrow> i < k" for n :: nat
  by (metis bit_take_bit_iff take_bit_nat_eq_self)

lemma config_address_fields:
  assumes "b < 256" "sl < 32" "f < 8"
  shows "unat (drop_bit 16 (config_address b sl f offset) AND 0xFF) = b"
    and "unat (drop_bit 11 (config_address b sl f offset) AND 0x1F) = sl"
    and "unat (drop_bit 8 (config_address b sl f offset) AND 7) = f"
    and "config_address b sl f offset AND 0xFC = offset AND 0xFC"
proof -
  let ?b = "of_nat b :: u32" and ?s = "of_nat sl :: u32" and ?f = "of_nat f :: u32"
  have bits: "bit b i \<Longrightarrow> i < 8" "bit sl i \<Longrightarrow> i < 5" "bit f i \<Longrightarrow> i < 3" for i
    using assms bit_of_small [of b 8 i] bit_of_small [of sl 5 i] bit_of_small [of f 3 i] by simp_all
  have m: "(0xFF :: u32) = mask 8" "(0x1F :: u32) = mask 5" "(7 :: u32) = mask 3"
    "(0xFC :: u32) = push_bit 2 (mask 6)" by (simp_all add: mask_eq_exp_minus_1)
  define e :: u32 where "e = 0x80000000"
  have top: "bit e i \<longleftrightarrow> i = 31" for i
  proof -
    have "e = 2 ^ 31" by (simp add: e_def)
    then show ?thesis by (simp only: bit_exp_iff) auto
  qed
  have d: "config_address b sl f offset =
      push_bit 16 ?b OR push_bit 11 ?s OR push_bit 8 ?f OR (offset AND 0xFC) OR e"
    by (simp add: config_address_def e_def)
  have "drop_bit 16 (config_address b sl f offset) AND 0xFF = ?b"
    unfolding d m by (rule bit_word_eqI) (auto simp: bit_simps top dest: bits)
  then show "unat (drop_bit 16 (config_address b sl f offset) AND 0xFF) = b" using assms by (simp add: unat_of_nat)
  have "drop_bit 11 (config_address b sl f offset) AND 0x1F = ?s"
    unfolding d m by (rule bit_word_eqI) (auto simp: bit_simps top dest: bits)
  then show "unat (drop_bit 11 (config_address b sl f offset) AND 0x1F) = sl" using assms by (simp add: unat_of_nat)
  have "drop_bit 8 (config_address b sl f offset) AND 7 = ?f"
    unfolding d m by (rule bit_word_eqI) (auto simp: bit_simps top dest: bits)
  then show "unat (drop_bit 8 (config_address b sl f offset) AND 7) = f" using assms by (simp add: unat_of_nat)
  show "config_address b sl f offset AND 0xFC = offset AND 0xFC"
    unfolding d m by (rule bit_word_eqI) (auto simp: bit_simps top dest: bits)
qed

section \<open>Properties\<close>

definition static_pci :: pci where
  "static_pci =
     \<lparr>port_log = [], buses = \<lambda>_. None, classes = \<lambda>_. False, device = \<lambda>_. empty_device,
      plinks = \<lparr>prv = id, nxt = id\<rparr>, alloc_ok = \<lambda>_. True, alloc_calls = 0\<rparr>"

lemma pci_inv_static: "pci_inv cfg static_pci []"
  by (simp add: pci_inv_def static_pci_def lookup_def class_heads_def family_def members_def)

text \<open>
  The buses in the numbering of firmware: the bridge \<open>(b, sl, f)\<close> leads to the bus \<open>b'\<close>, and no two
  bridges lead to the same bus. \<open>bridge_step cfg\<close> relates a bus with the buses directly behind it.
\<close>

definition leads_to :: "(u32 \<Rightarrow> u32) \<Rightarrow> nat \<Rightarrow> nat \<Rightarrow> nat \<Rightarrow> nat \<Rightarrow> bool" where
  "leads_to cfg b sl f b' \<longleftrightarrow> b < 256 \<and> sl < 32 \<and> f \<in> set (functions_of cfg b sl) \<and>
     present cfg b sl f \<and> is_bridge cfg b sl f \<and> secondary cfg b sl f = b'"

definition separate_bridges :: "(u32 \<Rightarrow> u32) \<Rightarrow> bool" where
  "separate_bridges cfg \<longleftrightarrow>
     (\<forall>b sl f c tl g d. leads_to cfg b sl f d \<and> leads_to cfg c tl g d \<longrightarrow> b = c \<and> sl = tl \<and> f = g)"

definition bridge_step :: "(u32 \<Rightarrow> u32) \<Rightarrow> nat rel" where
  "bridge_step cfg = {(b, b'). \<exists>sl f. leads_to cfg b sl f b'}"

text \<open>The functions of a machine: those present on a bus that is reached from \<open>b\<close> through bridges.\<close>

definition functions_behind :: "(u32 \<Rightarrow> u32) \<Rightarrow> nat \<Rightarrow> location set" where
  "functions_behind cfg b =
     {l. (b, loc_bus l) \<in> (bridge_step cfg)\<^sup>* \<and> loc_slot l < 32 \<and>
         loc_function l \<in> set (functions_of cfg (loc_bus l) (loc_slot l)) \<and>
         present cfg (loc_bus l) (loc_slot l) (loc_function l) \<and>
         \<not> is_bridge cfg (loc_bus l) (loc_slot l) (loc_function l)}"

lemma bridge_step_less:
  assumes "forward_bridges cfg" and "(b, c) \<in> bridge_step cfg"
  shows "b < c"
  using assms by (auto simp: forward_bridges_def bridge_step_def leads_to_def)

lemma bridge_steps_le:
  assumes "forward_bridges cfg"
  shows "(b, c) \<in> (bridge_step cfg)\<^sup>* \<Longrightarrow> b \<le> c"
  by (induction rule: rtrancl_induct) (use bridge_step_less [OF assms] in fastforce)+

lemma bridge_step_bound: "(b, c) \<in> bridge_step cfg \<Longrightarrow> c < 256"
  by (auto simp: bridge_step_def leads_to_def secondary_less)

text \<open>The enumeration finds the functions behind the bus, no more and no fewer.\<close>

lemma set_scan:
  assumes fwd: "forward_bridges cfg"
  shows "b < 256 \<Longrightarrow> set (scan cfg b) = functions_behind cfg b"
proof (induction "256 - b" arbitrary: b rule: less_induct)
  case less
  have IH: "set (scan cfg c) = functions_behind cfg c" if "b < c" "c < 256" for c
    using less.hyps [of c] that by auto
  have here: "l \<in> set (scan cfg b) \<longleftrightarrow>
      (\<exists>sl f. sl < 32 \<and> f \<in> set (functions_of cfg b sl) \<and> l \<in> set (found cfg b sl f))" for l
    by (auto simp: scan_found)
  have fnd: "l \<in> set (found cfg b sl f) \<longleftrightarrow>
      present cfg b sl f \<and> (if is_bridge cfg b sl f then l \<in> functions_behind cfg (secondary cfg b sl f)
                            else l = \<lparr>loc_bus = b, loc_slot = sl, loc_function = f\<rparr>)"
    if "sl < 32" "f \<in> set (functions_of cfg b sl)" for l sl f
    using fwd less.prems that IH [OF _ secondary_less] by (auto simp: found_def forward_bridges_def)
  show ?case
  proof (intro set_eqI iffI)
    fix l assume "l \<in> set (scan cfg b)"
    then obtain sl f where f: "sl < 32" "f \<in> set (functions_of cfg b sl)" "l \<in> set (found cfg b sl f)"
      using here by blast
    then have p: "present cfg b sl f" using fnd by blast
    show "l \<in> functions_behind cfg b"
    proof (cases "is_bridge cfg b sl f")
      case True
      then have "(b, secondary cfg b sl f) \<in> bridge_step cfg"
        using f p less.prems by (auto simp: bridge_step_def leads_to_def)
      then show ?thesis using f fnd True
        by (auto simp: functions_behind_def intro: converse_rtrancl_into_rtrancl)
    next
      case False
      then show ?thesis using f fnd p by (auto simp: functions_behind_def)
    qed
  next
    fix l assume l: "l \<in> functions_behind cfg b"
    then have "(b, loc_bus l) \<in> (bridge_step cfg)\<^sup>*" by (simp add: functions_behind_def)
    then show "l \<in> set (scan cfg b)"
    proof (cases rule: converse_rtranclE)
      case base
      then have f: "loc_slot l < 32" "loc_function l \<in> set (functions_of cfg b (loc_slot l))"
        and "present cfg b (loc_slot l) (loc_function l)" "\<not> is_bridge cfg b (loc_slot l) (loc_function l)"
        and "l = \<lparr>loc_bus = b, loc_slot = loc_slot l, loc_function = loc_function l\<rparr>"
        using l by (auto simp: functions_behind_def)
      then have "l \<in> set (found cfg b (loc_slot l) (loc_function l))" using fnd [OF f] by auto
      then show ?thesis using here f by blast
    next
      case (step c)
      then have "l \<in> functions_behind cfg c" using l by (simp add: functions_behind_def)
      moreover obtain sl f where f: "leads_to cfg b sl f c" using step(1) by (auto simp: bridge_step_def)
      ultimately have "l \<in> set (found cfg b sl f)" using fnd [of sl f l] by (simp add: leads_to_def)
      then show ?thesis using here f unfolding leads_to_def by blast
    qed
  qed
qed

text \<open>Two bridges on one bus have no bus in common behind them.\<close>

lemma bridges_apart:
  assumes fwd: "forward_bridges cfg" and sep: "separate_bridges cfg"
    and c: "(b, c) \<in> bridge_step cfg" and d: "(b, d) \<in> bridge_step cfg" and "c \<noteq> d"
    and cx: "(c, x) \<in> (bridge_step cfg)\<^sup>*" and dx: "(d, x) \<in> (bridge_step cfg)\<^sup>*"
  shows False
proof -
  have parent: "p = q" if "(p, y) \<in> bridge_step cfg" "(q, y) \<in> bridge_step cfg" for p q y
    using that sep unfolding bridge_step_def separate_bridges_def by blast
  have above: False if u: "(b, u) \<in> bridge_step cfg" and v: "(b, v) \<in> bridge_step cfg" and "u \<noteq> v"
    and uv: "(u, v) \<in> (bridge_step cfg)\<^sup>*" for u v
    using uv
  proof (cases rule: rtranclE)
    case base
    then show False using \<open>u \<noteq> v\<close> by simp
  next
    case (step w)
    then have "u \<le> b" using parent [OF step(2) v] bridge_steps_le [OF fwd] by blast
    then show False using bridge_step_less [OF fwd u] by simp
  qed
  have "(c, d) \<in> (bridge_step cfg)\<^sup>* \<or> (d, c) \<in> (bridge_step cfg)\<^sup>*" using cx dx
  proof (induction rule: rtrancl_induct)
    case outer: (step y z)
    from outer.prems show ?case
    proof (cases rule: rtranclE)
      case base
      then show ?thesis using outer.hyps by (auto intro: rtrancl_into_rtrancl)
    next
      case (step w)
      then show ?thesis using parent [OF outer.hyps(2) step(2)] outer.IH by blast
    qed
  qed simp
  then show False using above c d assms(5) by blast
qed

lemma distinct_concat_map:
  assumes "distinct xs" and "\<And>x. x \<in> set xs \<Longrightarrow> distinct (g x)"
    and "\<And>x y. x \<in> set xs \<Longrightarrow> y \<in> set xs \<Longrightarrow> x \<noteq> y \<Longrightarrow> set (g x) \<inter> set (g y) = {}"
  shows "distinct (concat (map g xs))"
  using assms
proof (induction xs)
  case (Cons x xs)
  have "set (g x) \<inter> set (g y) = {}" if "y \<in> set xs" for y
    using that Cons.prems(1) Cons.prems(3) [of x y] by auto
  then show ?case using Cons by (auto simp: disjoint_iff)
qed simp

lemma functions_of_distinct: "distinct (functions_of cfg b sl)"
  by (simp add: functions_of_def del: upt_rec_numeral)

text \<open>No function is found twice.\<close>

lemma distinct_scan:
  assumes fwd: "forward_bridges cfg" and sep: "separate_bridges cfg"
  shows "b < 256 \<Longrightarrow> distinct (scan cfg b)"
proof (induction "256 - b" arbitrary: b rule: less_induct)
  case less
  have sub: "(b, secondary cfg b sl f) \<in> bridge_step cfg \<and>
      set (found cfg b sl f) = functions_behind cfg (secondary cfg b sl f)"
    if "sl < 32" "f \<in> set (functions_of cfg b sl)" "present cfg b sl f" "is_bridge cfg b sl f" for sl f
  proof -
    have step: "(b, secondary cfg b sl f) \<in> bridge_step cfg"
      using that less.prems by (auto simp: bridge_step_def leads_to_def)
    show ?thesis using step that bridge_step_less [OF fwd step] set_scan [OF fwd secondary_less] by (simp add: found_def)
  qed
  have one: "distinct (found cfg b sl f)" for sl f
    using less.hyps [OF _ secondary_less] less.prems by (simp add: found_def diff_less_mono2)
  have two: "set (found cfg b sl f) \<inter> set (found cfg b tl g) = {}"
    if "sl < 32" "f \<in> set (functions_of cfg b sl)" "tl < 32" "g \<in> set (functions_of cfg b tl)" "(sl, f) \<noteq> (tl, g)"
    for sl f tl g
  proof (rule ccontr)
    assume "set (found cfg b sl f) \<inter> set (found cfg b tl g) \<noteq> {}"
    then obtain l where l: "l \<in> set (found cfg b sl f)" "l \<in> set (found cfg b tl g)" by blast
    have p: "present cfg b sl f" "present cfg b tl g" using l by (auto simp: found_def split: if_splits)
    have behind: "b < loc_bus m" if "sl' < 32" "f' \<in> set (functions_of cfg b sl')" "present cfg b sl' f'"
      "is_bridge cfg b sl' f'" "m \<in> set (found cfg b sl' f')" for sl' f' m
      using sub [OF that(1-4)] that(5) bridge_step_less [OF fwd] bridge_steps_le [OF fwd]
      by (fastforce simp: functions_behind_def)
    show False
    proof (cases "is_bridge cfg b sl f \<and> is_bridge cfg b tl g")
      case True
      have "secondary cfg b sl f \<noteq> secondary cfg b tl g"
        using sep that True p less.prems unfolding separate_bridges_def leads_to_def by blast
      then show False using bridges_apart [OF fwd sep, of b "secondary cfg b sl f" "secondary cfg b tl g" "loc_bus l"]
          sub [OF that(1,2) p(1)] sub [OF that(3,4) p(2)] True l by (auto simp: functions_behind_def)
    next
      case False
      then show False using l p that behind [OF that(1,2) p(1), of l] behind [OF that(3,4) p(2), of l]
        by (auto simp: found_def [of cfg b sl f] found_def [of cfg b tl g] split: if_splits)
    qed
  qed
  show ?case unfolding scan_found
  proof (rule distinct_concat_map)
    fix sl assume "sl \<in> set [0..<32 :: nat]"
    then show "distinct (concat (map (found cfg b sl) (functions_of cfg b sl)))"
      using one two by (intro distinct_concat_map) (auto simp: functions_of_distinct)
  next
    fix sl tl assume "sl \<in> set [0..<32 :: nat]" "tl \<in> set [0..<32 :: nat]" "sl \<noteq> tl"
    then show "set (concat (map (found cfg b sl) (functions_of cfg b sl))) \<inter>
        set (concat (map (found cfg b tl) (functions_of cfg b tl))) = {}"
      using two [of sl _ tl] by (auto simp add: disjoint_iff simp del: upt_rec_numeral)
  qed simp
qed

text \<open>C33. When every bridge leads to a higher bus, no two bridges lead to the same bus, the host
  bridge has one function and every allocation succeeds, enumeration from bus 0 returns, and then exactly the functions that are
  present on the buses reached from bus 0 and are no bridges can be looked up by their location;
  each has the identity, class and base registers of its configuration space, and the list of each
  class and subclass holds the devices of that class, each once, in the order they were found.\<close>

theorem pci_enumeration_correct:
  assumes "reads_config env cfg" and "forward_bridges cfg" and "separate_bridges cfg"
    and "reg cfg 0 0 0 0xC AND 0x800000 = 0"
  shows "\<exists>s. pci_init env static_pci = ret s \<and>
    distinct (scan cfg 0) \<and> set (scan cfg 0) = functions_behind cfg 0 \<and>
    (\<forall>b sl f. b < 256 \<and> sl < 32 \<and> f < 8 \<longrightarrow>
       pci_get_by_location b sl f s =
         (let l = \<lparr>loc_bus = b, loc_slot = sl, loc_function = f\<rparr>
          in Inr (if l \<in> functions_behind cfg 0 then Some l else None))) \<and>
    (\<forall>l\<in>functions_behind cfg 0. device s l = device_of cfg l \<and>
       pci_get_devices_by_class (fst (class_of cfg l)) (snd (class_of cfg l)) s =
         Inr (Some (Class_head (fst (class_of cfg l)) (snd (class_of cfg l))))) \<and>
    (\<forall>c k head. pci_get_devices_by_class c k s = Inr (Some head) \<longrightarrow>
       ring (plinks s) head (map By_class (filter (\<lambda>l. class_of cfg l = (c, k)) (scan cfg 0))))"
proof -
  have distinct: "distinct (scan cfg 0)" by (rule distinct_scan [OF assms(2,3)]) simp
  have found: "set (scan cfg 0) = functions_behind cfg 0" by (rule set_scan [OF assms(2)]) simp
  let ?s = "port_access (InL 0xCFC) (port_access (OutL 0xCF8 (config_address 0 0 0 0xC)) static_pci)"
  have "pci_inv cfg ?s [] \<and> (\<forall>n. alloc_ok ?s n)" using pci_inv_static by (simp add: static_pci_def)
  then obtain s where s: "pci_check_bus env 0 ?s = ret s" "pci_inv cfg s (scan cfg 0)"
    using check_bus_runs [OF assms(1,2), of 0 ?s "[]"] distinct by auto
  have run: "pci_init env static_pci = ret s"
    unfolding pci_init_def pciread32_config [OF assms(1)] using s(1) assms(4) by simp
  have look: "pci_get_by_location b sl f s = Inr (lookup s b sl f)" if "b < 256" "sl < 32" "f < 8" for b sl f
    using that by (auto simp: pci_get_by_location_def lookup_def pci_limits split: option.split)
  have "pci_get_by_location b sl f s =
      (let l = \<lparr>loc_bus = b, loc_slot = sl, loc_function = f\<rparr>
       in Inr (if l \<in> functions_behind cfg 0 then Some l else None))" if "b < 256" "sl < 32" "f < 8" for b sl f
    using look [OF that] s(2) by (simp add: pci_inv_def Let_def found)
  moreover have "device s l = device_of cfg l \<and>
       pci_get_devices_by_class (fst (class_of cfg l)) (snd (class_of cfg l)) s =
         Inr (Some (Class_head (fst (class_of cfg l)) (snd (class_of cfg l))))" if "l \<in> functions_behind cfg 0" for l
    using s(2) found that class_of_less [of cfg l] by (simp add: pci_inv_def pci_get_devices_by_class_def pci_limits)
  moreover have "ring (plinks s) head (map By_class (filter (\<lambda>l. class_of cfg l = (c, k)) (scan cfg 0)))"
    if h: "pci_get_devices_by_class c k s = Inr (Some head)" for c k head
  proof -
    have "head = Class_head c k" "Class_head c k \<in> class_heads (classes s)"
      using h by (auto simp: pci_get_devices_by_class_def pci_limits class_heads_def split: if_splits)
    then show ?thesis using s(2) familyD(2) [of "plinks s" "class_heads (classes s)" _ "class_list cfg (scan cfg 0)" head]
      by (auto simp: pci_inv_def)
  qed
  ultimately show ?thesis using run distinct found by blast
qed

text \<open>Three functions: a host bridge at 0:0.0, a bridge at 0:1.0 to bus 1, a network card at 1:0.0.\<close>

definition sample_config :: "u32 \<Rightarrow> u32" where
  "sample_config a =
     (let l = (unat (drop_bit 16 a AND 0xFF), unat (drop_bit 11 a AND 0x1F), unat (drop_bit 8 a AND 7));
          r = a AND 0xFC
      in if l = (0, 0, 0) then if r = 0 then 0x12378086 else if r = 8 then 0x06000002 else 0
         else if l = (0, 1, 0) then if r = 0 then 0x244E8086 else if r = 8 then 0x06040000 else if r = 0x18 then 0x00010100 else 0
         else if l = (1, 0, 0) then if r = 0 then 0x100E8086 else if r = 8 then 0x02000003 else 0
         else 0xFFFFFFFF)"

lemma sample_reg:
  assumes "b < 256" "sl < 32" "f < 8"
  shows "reg sample_config b sl f r =
     (let q = r AND 0xFC
      in if (b, sl, f) = (0, 0, 0) then if q = 0 then 0x12378086 else if q = 8 then 0x06000002 else 0
         else if (b, sl, f) = (0, 1, 0) then if q = 0 then 0x244E8086 else if q = 8 then 0x06040000 else if q = 0x18 then 0x00010100 else 0
         else if (b, sl, f) = (1, 0, 0) then if q = 0 then 0x100E8086 else if q = 8 then 0x02000003 else 0
         else 0xFFFFFFFF)"
  unfolding reg_def sample_config_def Let_def config_address_fields [OF assms] ..

lemma sample_functions: "b < 256 \<Longrightarrow> sl < 32 \<Longrightarrow>
    functions_of sample_config b sl = (if (b, sl) \<in> {(0, 0), (0, 1), (1, 0)} then [0] else [])"
  by (auto simp: functions_of_def present_def sample_reg Let_def)

lemma sample_found: "b < 256 \<Longrightarrow> sl < 32 \<Longrightarrow>
    found sample_config b sl 0 =
      (if (b, sl) = (0, 0) \<or> (b, sl) = (1, 0) then [\<lparr>loc_bus = b, loc_slot = sl, loc_function = 0\<rparr>]
       else if (b, sl) = (0, 1) then scan sample_config 1 else [])"
  by (auto simp: found_def present_def is_bridge_def secondary_def sample_reg Let_def)

lemma upt_32: "[0..<32] = [0, 1, 2, 3, 4, 5, 6, 7, 8, 9, 10, 11, 12, 13, 14, 15, 16, 17, 18, 19, 20, 21, 22, 23, 24, 25, 26, 27, 28, 29, 30, 31]"
  by code_simp

lemma sample_scan:
  "scan sample_config 1 = [\<lparr>loc_bus = 1, loc_slot = 0, loc_function = 0\<rparr>]"
  "scan sample_config 0 = [\<lparr>loc_bus = 0, loc_slot = 0, loc_function = 0\<rparr>, \<lparr>loc_bus = 1, loc_slot = 0, loc_function = 0\<rparr>]"
proof -
  have 1: "concat (map (found sample_config 1 sl) (functions_of sample_config 1 sl)) =
      (if sl = 0 then [\<lparr>loc_bus = 1, loc_slot = 0, loc_function = 0\<rparr>] else [])" if "sl < 32" for sl
    using that by (simp add: sample_functions sample_found)
  have "scan sample_config 1 = concat (map (\<lambda>sl. if sl = 0 then [\<lparr>loc_bus = 1, loc_slot = 0, loc_function = 0\<rparr>] else []) [0..<32])"
    unfolding scan_found by (rule arg_cong [where f = concat], rule map_cong) (simp_all add: 1 del: upt_rec_numeral One_nat_def)
  then show s1: "scan sample_config 1 = [\<lparr>loc_bus = 1, loc_slot = 0, loc_function = 0\<rparr>]"
    by (simp add: upt_32)
  have 0: "concat (map (found sample_config 0 sl) (functions_of sample_config 0 sl)) =
      (if sl = 0 then [\<lparr>loc_bus = 0, loc_slot = 0, loc_function = 0\<rparr>]
       else if sl = 1 then [\<lparr>loc_bus = 1, loc_slot = 0, loc_function = 0\<rparr>] else [])" if "sl < 32" for sl
    using that by (simp add: sample_functions sample_found s1 del: One_nat_def)
  have "scan sample_config 0 = concat (map (\<lambda>sl. if sl = 0 then [\<lparr>loc_bus = 0, loc_slot = 0, loc_function = 0\<rparr>]
       else if sl = 1 then [\<lparr>loc_bus = 1, loc_slot = 0, loc_function = 0\<rparr>] else []) [0..<32])"
    unfolding scan_found by (rule arg_cong [where f = concat], rule map_cong) (simp_all add: 0 del: upt_rec_numeral One_nat_def)
  then show "scan sample_config 0 = [\<lparr>loc_bus = 0, loc_slot = 0, loc_function = 0\<rparr>, \<lparr>loc_bus = 1, loc_slot = 0, loc_function = 0\<rparr>]"
    by (simp add: upt_32)
qed

text \<open>The ports of the sample.\<close>

definition sample_env :: port_env where
  "sample_env h port = (case h of [] \<Rightarrow> 0 | _ \<Rightarrow> (case last h of OutL _ a \<Rightarrow> sample_config a | _ \<Rightarrow> 0))"

lemma sample_env_config: "reads_config sample_env sample_config"
  unfolding reads_config_def
proof (intro allI)
  fix h a
  show "sample_env (h @ [OutL 0xCF8 a]) 0xCFC = sample_config a" by (cases h) (simp_all add: sample_env_def)
qed

theorem pci_enumeration_correct_witness:
  "\<exists>s. pci_init sample_env static_pci = ret s \<and>
     pci_get_by_location 1 0 0 s = Inr (Some \<lparr>loc_bus = 1, loc_slot = 0, loc_function = 0\<rparr>) \<and>
     pci_get_by_location 0 1 0 s = Inr None"
proof -
  note e = sample_env_config
  have f: "forward_bridges sample_config"
    by (auto simp: forward_bridges_def sample_functions is_bridge_def secondary_def sample_reg Let_def split: if_splits)
  have s: "separate_bridges sample_config" unfolding separate_bridges_def leads_to_def
    by (auto simp: sample_functions is_bridge_def present_def sample_reg Let_def split: if_splits)
  have behind: "functions_behind sample_config 0 = set (scan sample_config 0)" using set_scan [OF f] by simp
  have "reg sample_config 0 0 0 0xC AND 0x800000 = 0" by (simp add: sample_reg)
  from pci_enumeration_correct [OF e f s this] obtain s where s: "pci_init sample_env static_pci = ret s"
    and look: "\<forall>b sl f. b < 256 \<and> sl < 32 \<and> f < 8 \<longrightarrow>
       pci_get_by_location b sl f s =
         (let l = \<lparr>loc_bus = b, loc_slot = sl, loc_function = f\<rparr>
          in Inr (if l \<in> functions_behind sample_config 0 then Some l else None))" by blast
  show ?thesis using s look [rule_format, of 1 0 0] look [rule_format, of 0 1 0]
    by (intro exI [of _ s]) (simp add: behind sample_scan)
qed


section \<open>Bridges that lead back, devices found twice\<close>

lemma check_bus_None:
  assumes "reads_config env cfg" and "present cfg b 0 0" and "\<And>t. F b 0 0 t = None"
  shows "check_bus F env b s = None"
proof -
  have "[0..<32] = (0 :: nat) # [1..<32]" by (simp add: upt_rec [of 0 32])
  moreover have "\<exists>fs. functions_of cfg b 0 = 0 # fs"
    using assms(2) by (auto simp: functions_of_def upt_rec [of 0 8])
  moreover have "check_device F env b 0 s = None"
    using check_device_config [OF assms(1), of F b 0 s] assms(3) calculation(2) by auto
  ultimately show ?thesis by (simp add: check_bus_def)
qed

text \<open>A bridge, first on its bus, whose secondary bus is that bus makes the enumeration recurse
  without end.\<close>

theorem pci_bridge_cycle_hangs:
  assumes "reads_config env cfg" and "present cfg b 0 0" and "is_bridge cfg b 0 0" and "secondary cfg b 0 0 = b"
  shows "pci_check_bus env b s = None"
proof -
  have "pci_check_function env b 0 0 t = None" for t
  proof (rule ccontr)
    assume "pci_check_function env b 0 0 t \<noteq> None"
    then obtain r where r: "pci_check_function env b 0 0 t = Some r" by auto
    have "\<not> (env = env \<and> b = b \<and> (0 :: nat) = 0 \<and> (0 :: nat) = 0)"
    proof (rule pci_check_function.raw_induct [where P = "\<lambda>e b' sl f t r. \<not> (e = env \<and> b' = b \<and> sl = 0 \<and> f = 0)",
          OF _ r])
      fix F :: "port_env \<Rightarrow> nat \<Rightarrow> nat \<Rightarrow> nat \<Rightarrow> pci \<Rightarrow> pci run" and e b' sl f t r
      assume IH: "\<And>e b' sl f t r. F e b' sl f t = Some r \<Longrightarrow> \<not> (e = env \<and> b' = b \<and> sl = 0 \<and> f = 0)"
        and body: "(let (dv, s) = pciread32 e b' sl f 0 t in
          if dv AND 0xFFFF = 0xFFFF then ret s
          else let (category, s) = pciread32 e b' sl f 8 s in
            if drop_bit 16 category = 0x604 then
              let (reg18, s) = pciread32 e b' sl f 0x18 s
              in check_bus (F e) e (unat (drop_bit 8 reg18 AND 0xFF)) s
            else Some (register_function e b' sl f dv category s)) = Some r"
      show "\<not> (e = env \<and> b' = b \<and> sl = 0 \<and> f = 0)"
      proof
        assume eq: "e = env \<and> b' = b \<and> sl = 0 \<and> f = 0"
        have "F env b 0 0 u = None" for u using IH by (metis not_None_eq)
        then have "check_bus (F env) env b u = None" for u
          by (rule check_bus_None [OF assms(1,2)])
        then show False using body assms(2-4) unfolding eq [THEN conjunct1] eq [THEN conjunct2, THEN conjunct1]
          using eq by (simp add: pciread32_config [OF assms(1)] present_def is_bridge_def secondary_def)
      qed
    qed
    then show False by simp
  qed
  then show ?thesis unfolding pci_check_bus_def by (intro check_bus_None [OF assms(1,2)]) simp
qed

definition loop_config :: "u32 \<Rightarrow> u32" where
  "loop_config a = (if a AND 0xFC = 0x18 then 0 else if a AND 0xFC = 8 then 0x06040000 else 0)"

theorem pci_bridge_cycle_hangs_witness:
  "pci_check_bus (\<lambda>h port. case h of [] \<Rightarrow> 0 | _ \<Rightarrow> (case last h of OutL _ a \<Rightarrow> loop_config a | _ \<Rightarrow> 0)) 0 static_pci = None"
proof (rule pci_bridge_cycle_hangs [where cfg = loop_config])
  show "reads_config (\<lambda>h port. case h of [] \<Rightarrow> 0 | _ \<Rightarrow> (case last h of OutL _ a \<Rightarrow> loop_config a | _ \<Rightarrow> 0)) loop_config"
    unfolding reads_config_def
  proof (intro allI)
    fix h a
    show "(case h @ [OutL 0xCF8 a] of [] \<Rightarrow> 0 | _ \<Rightarrow> (case last (h @ [OutL 0xCF8 a]) of OutL _ a \<Rightarrow> loop_config a | _ \<Rightarrow> 0)) = loop_config a"
      by (cases h) simp_all
  qed
qed (simp_all add: present_def is_bridge_def secondary_def reg_def loop_config_def config_address_def)

lemma find_walk:
  assumes "seg h a ys b" and "self \<notin> set ys" and "\<forall>n\<in>insert a (set ys). nxt h' n = nxt h n"
    and "\<forall>n\<in>set ys. \<not> g n"
  shows "list_find_from h' self g (nxt h' a) = list_find_from h' self g b"
  using assms
proof (induction ys arbitrary: a)
  case (Cons y ys)
  have "list_find_from h' self g y = list_find_from h' self g (nxt h' y)"
    using Cons.prems(2,4) by (subst list_find_from.simps) auto
  then show ?case using Cons by simp
qed simp

lemma find_self_loop:
  assumes "nxt h x = x" and "x \<noteq> self" and "\<not> g x"
  shows "list_find_from h self g x = None"
proof (rule ccontr)
  assume "list_find_from h self g x \<noteq> None"
  then obtain r where r: "list_find_from h self g x = Some r" by auto
  have "\<not> (h = h \<and> self = self \<and> g = g \<and> x = x)"
  proof (rule list_find_from.raw_induct [where P = "\<lambda>h' self' g' n r. \<not> (h' = h \<and> self' = self \<and> g' = g \<and> n = x)", OF _ r])
    fix F and h' :: "'a links" and self' g' n r
    assume IH: "\<And>h' self' g' n r. F h' self' g' n = Some r \<Longrightarrow> \<not> (h' = h \<and> self' = self \<and> g' = g \<and> n = x)"
      and body: "(if n = self' then Some None else if g' n then Some (Some n) else F h' self' g' (nxt h' n)) = Some r"
    show "\<not> (h' = h \<and> self' = self \<and> g' = g \<and> n = x)"
      using IH [of h self g x r] body assms by auto
  qed
  then show False by simp
qed

text \<open>C40. Registering a function again that is already registered, as a second scan of its bus
  does, inserts it into the list of its class although it is in it. If it is the last of its class,
  it becomes its own successor and a search through the list that has to pass it never returns. If
  devices \<open>ys\<close> follow it, the list read from its head ends after it: a search that accepts none
  of the devices up to it reports that there is no match, whatever \<open>ys\<close> holds.\<close>

theorem pci_rescan_breaks_list:
  assumes "pci_inv cfg s devs" and "in_range l" and "class_of cfg l = (c, k)"
    and "filter (\<lambda>d. class_of cfg d = (c, k)) devs = xs @ l # ys"
    and "\<forall>d\<in>set (xs @ [l]). \<not> g (By_class d)"
  shows "\<exists>s'. register_function env (loc_bus l) (loc_slot l) (loc_function l)
      (reg cfg (loc_bus l) (loc_slot l) (loc_function l) 0) (reg cfg (loc_bus l) (loc_slot l) (loc_function l) 8) s = Inr s' \<and>
    list_find (plinks s) (Class_head c k) g =
      Some (List.find g (map By_class ys)) \<and>
    (if ys = [] then nxt (plinks s') (By_class l) = By_class l \<and> list_find (plinks s') (Class_head c k) g = None
     else list_find (plinks s') (Class_head c k) g = Some None)"
proof -
  let ?b = "loc_bus l" and ?sl = "loc_slot l" and ?f = "loc_function l" and ?hd = "Class_head c k"
  have "l \<in> set (filter (\<lambda>d. class_of cfg d = (c, k)) devs)" unfolding assms(4) by simp
  then have mem: "l \<in> set devs" by simp
  have "\<lparr>loc_bus = loc_bus l, loc_slot = loc_slot l, loc_function = loc_function l\<rparr> = l" by (cases l) simp
  moreover have "lookup s ?b ?sl ?f = (let q = \<lparr>loc_bus = loc_bus l, loc_slot = loc_slot l, loc_function = loc_function l\<rparr>
      in if q \<in> set devs then Some q else None)" using assms(1) unfolding pci_inv_def by blast
  ultimately have lk: "lookup s ?b ?sl ?f = Some l" using mem by (simp only: Let_def if_True)
  have cls: "classes s c" using assms(1,3) mem by (fastforce simp: pci_inv_def)
  have ck: "unat (drop_bit 24 (reg cfg ?b ?sl ?f 8)) = c" "unat (drop_bit 16 (reg cfg ?b ?sl ?f 8) AND 0xFF) = k"
    using assms(3) by (simp_all add: class_of_def Let_def)
  have less: "c < 256" "k < 256" using class_of_less [of cfg l] assms(3) by simp_all
  obtain pb ps where p: "buses s ?b = Some pb" "pb ?sl = Some ps" "ps ?f = Some l"
    using lk by (auto simp: lookup_def bind_eq_Some_conv)
  have dev: "allocate_device ?b ?sl ?f s = Inr (Some l, s)"
    using p assms(2) by (simp add: allocate_device_def pci_limits allocate_bus_def allocate_slot_def allocate_function_def in_range_def Let_def)
  have sub: "allocate_subclass c k s = Inr (Some ?hd, s)"
    using cls less by (simp add: allocate_subclass_def pci_limits)
  let ?h = "list_insert_before ?hd (By_class l) (plinks s)"
  have run: "\<exists>s'. register_function env ?b ?sl ?f (reg cfg ?b ?sl ?f 0) (reg cfg ?b ?sl ?f 8) s = Inr s' \<and> plinks s' = ?h"
  proof -
    have "plinks (store_device env ?b ?sl ?f d e l t) = plinks t" for d e and t :: pci
    proof -
      have io: "plinks (snd (pciread32 env b sl f r t)) = plinks t" for b sl f r and t :: pci
        by (simp add: pciread32_def inl_def pci_set_offset_def outl_def port_access_def)
      have "plinks (snd (read_bars env b sl f is t)) = plinks t" for b sl f "is" and t :: pci
        by (induction "is" arbitrary: t) (simp_all add: split_beta Let_def io)
      then show ?thesis by (simp add: store_device_def split_beta Let_def io)
    qed
    then show ?thesis by (simp add: register_function_def dev ck sub)
  qed
  have fam: "family (plinks s) (class_heads (classes s)) (By_class ` set devs) (class_list cfg devs)"
    using assms(1) by (simp add: pci_inv_def)
  have hd: "?hd \<in> class_heads (classes s)" using cls less by (auto simp: class_heads_def)
  have ring: "ring (plinks s) ?hd (map By_class xs @ By_class l # map By_class ys)"
    using familyD(2) [OF fam hd] assms(4) by simp
  then have sg: "seg (plinks s) ?hd (map By_class xs) (By_class l)"
    and d: "By_class l \<notin> set (map By_class xs)" "By_class l \<notin> set (map By_class ys)"
      "set (map By_class xs) \<inter> set (map By_class ys) = {}"
    and last: "prv (plinks s) ?hd = last (By_class l # map By_class ys)"
    using seg_last [of "plinks s" ?hd "map By_class xs @ By_class l # map By_class ys" ?hd]
    by (auto simp: ring_def)
  have off: "prv (plinks s) ?hd \<notin> insert ?hd (set (map By_class xs))"
  proof -
    have "prv (plinks s) ?hd \<in> set (By_class l # map By_class ys)" unfolding last by (rule last_in_set) simp
    then show ?thesis using d by auto
  qed
  have "nxt ?h n = nxt (plinks s) n" if "n \<in> insert ?hd (set (map By_class xs))" for n
  proof -
    have "n \<noteq> By_class l" "n \<noteq> prv (plinks s) ?hd" using that d off by auto
    then show ?thesis by (simp add: list_insert_before_def Let_def)
  qed
  then have "list_find ?h ?hd g = list_find_from ?h ?hd g (By_class l)"
    unfolding list_find_def using assms(5) by (intro find_walk [OF sg]) auto
  moreover have "nxt ?h (By_class l) = By_class l \<and> list_find_from ?h ?hd g (By_class l) = None" if "ys = []"
  proof -
    have nx: "nxt ?h (By_class l) = By_class l" using that by (simp add: list_insert_before_def Let_def last)
    show ?thesis using nx find_self_loop [OF nx, of ?hd g] assms(5) by simp
  qed
  moreover have "list_find_from ?h ?hd g (By_class l) = Some None" if "ys \<noteq> []"
  proof -
    have "last (map By_class ys) \<in> set (map By_class ys)" using that by (intro last_in_set) simp
    then have "prv (plinks s) ?hd \<noteq> By_class l" using d(2) that by (auto simp: last)
    then have "nxt ?h (By_class l) = ?hd" by (simp add: list_insert_before_def Let_def)
    then show ?thesis using assms(5) by (simp add: list_find_from.simps)
  qed
  moreover have "list_find (plinks s) ?hd g = Some (List.find g (map By_class ys))"
  proof -
    have "List.find g (map By_class zs @ v) = List.find g v" if "\<forall>d\<in>set zs. \<not> g (By_class d)" for zs v
      using that by (induction zs) auto
    then show ?thesis using list_find_family [OF fam hd, of g] assms(4,5) by simp
  qed
  ultimately show ?thesis using run by auto
qed


text \<open>The network card of the sample, registered twice.\<close>

theorem pci_rescan_breaks_list_witness:
  "\<exists>s s'. register_function sample_env 1 0 0 0x100E8086 0x02000003 static_pci = Inr s \<and>
     register_function sample_env 1 0 0 0x100E8086 0x02000003 s = Inr s' \<and>
     list_find (plinks s') (Class_head 2 0) (\<lambda>_. False) = None"
proof -
  let ?l = "\<lparr>loc_bus = 1, loc_slot = 0, loc_function = 0\<rparr>"
  have regs: "reg sample_config 1 0 0 0 = 0x100E8086" "reg sample_config 1 0 0 8 = 0x02000003"
    by (simp_all add: sample_reg Let_def)
  have "\<forall>n. alloc_ok static_pci n" by (simp add: static_pci_def)
  then obtain s where s: "register_function sample_env 1 0 0 0x100E8086 0x02000003 static_pci = Inr s"
    "pci_inv sample_config s [?l]"
    using register_runs [OF sample_env_config pci_inv_static, of 1 0 0 ?l] regs by auto
  have c: "class_of sample_config ?l = (2, 0)" by (simp add: class_of_def regs [unfolded One_nat_def] Let_def)
  obtain s' where "register_function sample_env 1 0 0 0x100E8086 0x02000003 s = Inr s'"
    "list_find (plinks s') (Class_head 2 0) (\<lambda>_. False) = None"
    using pci_rescan_breaks_list [OF s(2), of ?l 2 0 "[]" "[]" "\<lambda>_. False" sample_env] c regs by (auto simp: in_range_def)
  then show ?thesis using s(1) by blast
qed

text \<open>Other reads and writes of ports.\<close>

lemma inw_loses_byte: "fst (inw env port s) = ucast (env (port_log s) port)"
  unfolding inw_def Let_def fst_conv by (rule bit_word_eqI) (simp add: bit_simps)

text \<open>\<^verbatim>\<open>pci_command\<close> gives the old command word and sets and clears exactly the given bits of it,
  clearing winning over setting; the status half of the register is written back as it was, and a
  word that stays the same is not written.\<close>

theorem pci_command_correct:
  fixes dev env s set_bits unset_bits
  defines "a \<equiv> config_address (unat (bus dev)) (unat (slot dev)) (unat (function_no dev)) 4"
  defines "v \<equiv> env (port_log s @ [OutL 0xCF8 a]) 0xCFC"
  shows "\<exists>w :: u32. (\<forall>n. bit w n \<longleftrightarrow>
       (if n < 16 then (bit v n \<or> bit set_bits n) \<and> \<not> bit unset_bits n else bit v n)) \<and>
    pci_command env dev set_bits unset_bits s =
      (ucast v, s\<lparr>port_log := port_log s @ [OutL 0xCF8 a, InL 0xCFC] @
                   (if w = v then [] else [OutL 0xCF8 a, OutL 0xCFC w])\<rparr>)"
proof -
  define q :: u16 where "q = (ucast v OR set_bits) AND NOT unset_bits"
  define e :: u32 where "e = 0xFFFF0000"
  define w where "w = (v AND e) OR ucast q"
  have top: "bit e n \<longleftrightarrow> 16 \<le> n \<and> n < 32" for n
  proof -
    have "e = push_bit 16 (mask 16)" by (simp add: e_def mask_eq_exp_minus_1)
    then show ?thesis by (simp only: bit_push_bit_iff bit_mask_iff) auto
  qed
  have bits: "bit w n \<longleftrightarrow> (if n < 16 then (bit v n \<or> bit set_bits n) \<and> \<not> bit unset_bits n else bit v n)" for n
    by (cases "n < 32") (auto simp: w_def q_def bit_simps top dest: bit_imp_le_length)
  have same: "q = ucast v \<longleftrightarrow> w = v"
  proof
    assume "q = ucast v"
    then show "w = v" by (intro bit_word_eqI) (auto simp: w_def bit_simps top)
  next
    assume "w = v"
    then have "bit q n = bit (ucast v :: u16) n" if "n < 16" for n
      using that bits [of n] by (auto simp: q_def bit_simps)
    then show "q = ucast v" by (intro bit_word_eqI) auto
  qed
  have "pci_read32 env dev 4 s = (v, s\<lparr>port_log := port_log s @ [OutL 0xCF8 a, InL 0xCFC]\<rparr>)"
    by (simp add: pci_read32_def pciread32_def inl_def outl_def pci_set_offset_def port_access_def a_def v_def)
  then have "pci_command env dev set_bits unset_bits s =
      (ucast v, if q \<noteq> ucast v then pci_write32 dev 4 w (s\<lparr>port_log := port_log s @ [OutL 0xCF8 a, InL 0xCFC]\<rparr>)
                else s\<lparr>port_log := port_log s @ [OutL 0xCF8 a, InL 0xCFC]\<rparr>)"
    by (simp add: pci_command_def q_def w_def e_def Let_def)
  also have "\<dots> = (ucast v, s\<lparr>port_log := port_log s @ [OutL 0xCF8 a, InL 0xCFC] @
                   (if w = v then [] else [OutL 0xCF8 a, OutL 0xCFC w])\<rparr>)"
    unfolding same by (simp add: pci_write32_def pci_set_offset_def outl_def port_access_def a_def)
  finally show ?thesis using bits by blast
qed

end
