(* ===== verification/Spec2Isabelle.thy ===== *)
theory Spec2Isabelle
  imports BuddyProps HashTable CType Vga Serial Mutex Pic MallocCalls NewlibStr Cpu Boot PciProps
begin

text \<open>
  A verification development for borfos, a hobby operating system kernel for 32-bit x86. All paths
  below are under \<^verbatim>\<open>src/kernel/\<close>.

  \<^bold>\<open>The program.\<close> The boot loader starts \<^verbatim>\<open>boot/entry.S\<close>, which lets \<^verbatim>\<open>boot/mboot.c\<close> read what the loader
  left, sets up paging and calls \<^verbatim>\<open>startup\<close>. That runs the constructors of all parts in an order which
  \<^verbatim>\<open>tools/dep2prio.py\<close> makes of a table of dependencies, and ends in the idle loop of the scheduler.
  Physical pages and kernel addresses come from two buddy allocators (\<^verbatim>\<open>lib/mem.c\<close>); on them rests the
  heap, Doug Lea's \<^verbatim>\<open>malloc.c\<close> configured by \<^verbatim>\<open>libc/heap.c\<close>. Tasks are cooperative; what wakes them are
  timers, whose interrupt comes through the interrupt descriptors (\<^verbatim>\<open>drivers/cpu/idt.c\<close>, \<^verbatim>\<open>isr.h\<close>) from
  the local interrupt controller. Messages go through \<^verbatim>\<open>vbprintf\<close> and \<^verbatim>\<open>kprintf\<close> to the screen and the
  serial lines. Intrusive circular lists (\<^verbatim>\<open>list.h\<close>) are the data structure of nearly every part.

  \<^bold>\<open>Conventions.\<close> Machine integers are words of their width (\<open>Prelude\<close>). A C struct is a record, a
  node of a list a constructor of a datatype of nodes, and the links of all nodes one pair of maps.
  Code that returns in every case is a function; where C is undefined, or the kernel freezes, the
  result is \<open>Inl\<close> an error; a loop that need not end is a \<^theory_text>\<open>partial_function\<close> into the option type, so
  not returning is \<open>None\<close>, and a property that the code returns says \<open>Some\<close>. No bound on the number of
  iterations is chosen anywhere but where the source has one.
  Devices are logs of the accesses to them with the answers as parameters.

  \<^bold>\<open>The theories, and what their lemmas show.\<close>
  \<^item> \<open>Prelude\<close>: word types, the result types and their binds, ports, generic lemmas. \<open>KList\<close>: \<^verbatim>\<open>list.h\<close> and
    \<^verbatim>\<open>list.c\<close>; a family of rings, and that the pointer operations implement those on sequences, stated
    as the interface \<open>list_store\<close> and interpreted on the pointer code.
  \<^item> \<open>Blocks\<close>, \<open>Buddy\<close>, \<open>BuddyInv\<close>, \<open>BuddyProps\<close>: the two buddy allocators of \<^verbatim>\<open>mem.c\<close>. The arithmetic of
    aligned blocks; the pointer code; its refinement of operations on lists of free blocks, with the
    invariant that free and allocated blocks are aligned and disjoint; what callers may rely on, as
    the interface \<open>block_allocator\<close> interpreted on both allocators, and a run that breaks the invariant.
  \<^item> \<open>Mem\<close>, \<open>MemProps\<close>, \<open>MemInit\<close>: the rest of \<^verbatim>\<open>mem.c\<close> and \<^verbatim>\<open>mem.h\<close>, the page tables with the processor's
    walk through them, kernel pages as pairs of blocks and their mapping, the constructor that reads
    the memory map, and \<^verbatim>\<open>__mmap__\<close> and \<^verbatim>\<open>__munmap__\<close> of \<^verbatim>\<open>heap.c\<close>.
  \<^item> \<open>Malloc\<close>, \<open>MallocBins\<close>, \<open>MallocSys\<close>, \<open>MallocTrim\<close>, \<open>MallocApi\<close>, \<open>MallocMore\<close>: \<^verbatim>\<open>malloc.c\<close> over a memory of
    words: chunks, small bins and trees, segments and direct mappings, trimming, and the exported
    functions. \<open>MallocIndex\<close>: its arithmetic, in both versions of the source.
  \<^item> \<open>MallocSmall\<close>, \<open>MallocTree\<close>, \<open>MallocBag\<close>: the small bins are rings and the large bins are trees of rings;
    the macros that link and unlink chunks keep them so. Together the bins are a bag, a map from
    chunks to sizes, to which the macros add a chunk and from which they take one, writing only link words.
  \<^item> \<open>MallocTiles\<close>, \<open>MallocHeap\<close>, \<open>MallocInv\<close>: the memory as a row of chunks that do not overlap (used, free,
    the top chunk, fence posts, and holes while an operation is under way), with heads and feet that
    agree with it; splitting, joining, using and freeing chunks are steps of the row, and steps of the row, the
    bins and the contents of users' blocks do not disturb each other. The invariant between two calls.
  \<^item> \<open>MallocFind\<close>, \<open>MallocAlloc\<close>, \<open>MallocFree\<close>, \<open>MallocProps\<close>: the searches end and find a chunk; \<^verbatim>\<open>malloc\<close> at
    each of the places where it looks, and \<^verbatim>\<open>free\<close> with each kind of neighbour, keep the invariant and the
    users' contents; the first segment establishes it.
  \<^item> \<open>MallocResize\<close>, \<open>MallocBytes\<close>, \<open>MallocCopy\<close>, \<open>MallocAlign\<close>, \<open>MallocCalls\<close>: \<^verbatim>\<open>realloc\<close> at its place and by moving,
    \<^verbatim>\<open>calloc\<close> and \<^verbatim>\<open>memalign\<close> with the bytes they fill, copy and cut off; what users write into their blocks
    does not harm the heap; sequences of all these calls, as the interface \<open>allocator\<close> and its extension
    \<open>working_allocator\<close>, interpreted on the model.
  \<^item> \<open>Context\<close>, \<open>Scheduler\<close>, \<open>Mutex\<close>: tasks, the run queue as a state machine of events whose reachable
    states keep an invariant, the switch of stacks down to the pushed registers, mutexes.
  \<^item> \<open>Timers\<close>: the queue of timers, sorted by due time, and the interrupt that empties its due part.
  \<^item> \<open>Idt\<close>, \<open>Pic\<close>, \<open>Cpu\<close>: stubs, gates and the way into a handler and back; the two old interrupt
    controllers; the local one, its timer, the clock of the hypervisor, \<^verbatim>\<open>cpuid\<close> and the descriptor table.
  \<^item> \<open>BPrintf\<close>, \<open>BPrintfProps\<close>, \<open>FileOps\<close>, \<open>KPrintf\<close>, \<open>Vga\<close>, \<open>Serial\<close>: formatting within a buffer of bounded
    size, byte devices as the interface \<open>byte_device\<close> interpreted on the screen and the serial line, the
    log that is written to all of them.
  \<^item> \<open>HashTable\<close>, \<open>CType\<close>, \<open>NewlibStr\<close>: hash tables as finite maps (interface \<open>dictionary\<close>), character
    classes, and the string routines that work word by word, equal to those that work byte by byte.
  \<^item> \<open>Boot\<close>, \<open>Pci\<close>, \<open>PciProps\<close>: the boot information and the order of the constructors; port
    instructions and the enumeration of the PCI buses, which ends and finds every function once when
    bridges lead to higher buses and no two to the same, and what happens with a bridge that leads back and
    with a function that is registered twice.

  The properties with an identifier stand in these theories, each behind a sentence that says what it
  means for the code; a property with hypotheses is followed by its use on a concrete state.

  \<^bold>\<open>Not proved.\<close> The functions of the heap are proved up to the point where they call \<^verbatim>\<open>sys_alloc\<close>, \<^verbatim>\<open>sys_trim\<close>
  and \<^verbatim>\<open>release_unused_segments\<close>; these are modelled, and the state in which they are called is described.

  \<^bold>\<open>Not modelled.\<close>
  Of \<^verbatim>\<open>malloc.c\<close>: what this configuration compiles away, namely the locks, footers, \<^verbatim>\<open>sbrk\<close> and \<^verbatim>\<open>mremap\<close>,
  the independent heaps (\<^verbatim>\<open>mspace\<close>), the statistics and the debugging checks (\<^verbatim>\<open>do_check_*\<close>); its other
  lines are comments and selections of the platform.
  \<^verbatim>\<open>boot/entry.S\<close>, \<^verbatim>\<open>libc/newlib/memmove.S\<close>, \<^verbatim>\<open>memcmp.S\<close> and \<^verbatim>\<open>i386mach.h\<close> are assembly; the effect of the two
  routines is written where the C code calls them. \<^verbatim>\<open>kernel.ld.S\<close> and the makefiles lay the image out; its
  addresses are parameters. \<^verbatim>\<open>include/array.h\<close>, \<^verbatim>\<open>containerof.h\<close>, \<^verbatim>\<open>ctors.h\<close>, \<^verbatim>\<open>stdtypes.h\<close> are macros on layout
  and types; \<^verbatim>\<open>bios.h\<close> and \<^verbatim>\<open>cmdline.h\<close> declare external objects that no code reads. The text of the
  messages before a panic is left out.
\<close>

end
